(* ===== verification/Ch_Prelude.thy ===== *)
theory Ch_Prelude
  imports Main "HOL-Library.Word" "HOL-Library.Multiset"
begin

text \<open>
  Shared vocabulary of the development.

  \<^item> \<open>byte\<close> and the other machine integers are words of their C width; \<open>size_t\<close> values
    (lengths, capacities, indices) are \<open>nat\<close>: the code only ever uses them to count
    cells of allocated memory, so they stay below \<open>2 ^ 64\<close>.
  \<^item> Memory obtained from \<open>safe_malloc\<close> is a list of \<open>'a option\<close> cells: \<open>None\<close> is a cell
    that was never written.  \<open>rd\<close> reads a cell; a read outside the block, like a read of a
    cell never written, is \<open>None\<close>.
  \<^item> \<open>u32_le\<close> and \<open>le_u32\<close> are the little-endian store and load of \<open>*(uint32_t *)buf\<close>
    (the library documents that it assumes a little-endian machine).
  \<^item> The collection \<open>inv_defs\<close> holds the unfolding rules of the well-formedness
    invariants of all components.
\<close>

unbundle bit_operations_syntax

named_theorems inv_defs \<open>unfolding rules of the well-formedness invariants\<close>

type_synonym byte = "8 word"
type_synonym u16 = "16 word"
type_synonym u32 = "32 word"
type_synonym u64 = "64 word"

section \<open>Cells of allocated memory\<close>

definition rd :: "'a option list \<Rightarrow> nat \<Rightarrow> 'a option" where
  "rd mem i = (if i < length mem then mem ! i else None)"

lemma rd_update [simp]:
  "rd (mem[i := x]) j = (if i = j \<and> j < length mem then x else rd mem j)"
  by (simp add: rd_def nth_list_update)

lemma rd_append: "rd (xs @ ys) i = (if i < length xs then rd xs i else rd ys (i - length xs))"
  by (auto simp: rd_def nth_append)

lemma rd_replicate_None [simp]: "rd (replicate n None) i = None"
  by (simp add: rd_def)

lemma rd_out [simp]: "length mem \<le> i \<Longrightarrow> rd mem i = None"
  by (simp add: rd_def)

lemma rd_map_Some [simp]: "i < length xs \<Longrightarrow> rd (map Some xs) i = Some (xs ! i)"
  by (simp add: rd_def)

lemma rd_take [simp]: "i < n \<Longrightarrow> rd (take n mem) i = rd mem i"
  by (auto simp: rd_def)

lemma rd_nth: "i < length mem \<Longrightarrow> rd mem i = mem ! i"
  by (simp add: rd_def)

text \<open>
  \<open>safe_realloc\<close>: the cells in common are kept, new cells are uninitialised.
\<close>

definition cells_realloc :: "'a option list \<Rightarrow> nat \<Rightarrow> 'a option list" where
  "cells_realloc mem n = take n mem @ replicate (n - length mem) None"

lemma length_cells_realloc [simp]: "length (cells_realloc mem n) = n"
  by (simp add: cells_realloc_def)

lemma rd_cells_realloc [simp]: "i < n \<Longrightarrow> rd (cells_realloc mem n) i = rd mem i"
  by (cases "i < length mem") (auto simp: cells_realloc_def rd_def nth_append)

text \<open>The first \<open>n\<close> cells of a block, all of which have been written.\<close>

definition filled :: "'a option list \<Rightarrow> nat \<Rightarrow> bool" where
  "filled mem n \<longleftrightarrow> n \<le> length mem \<and> (\<forall>i < n. rd mem i \<noteq> None)"

definition cells :: "'a option list \<Rightarrow> nat \<Rightarrow> 'a list" where
  "cells mem n = map (\<lambda>i. the (rd mem i)) [0..<n]"

lemma length_cells [simp]: "length (cells mem n) = n"
  by (simp add: cells_def)

lemma nth_cells [simp]: "i < n \<Longrightarrow> cells mem n ! i = the (rd mem i)"
  by (simp add: cells_def)

lemma cells_0 [simp]: "cells mem 0 = []"
  by (simp add: cells_def)

lemma cells_Suc: "cells mem (Suc n) = cells mem n @ [the (rd mem n)]"
  by (simp add: cells_def)

lemma filled_rd: "filled mem n \<Longrightarrow> i < n \<Longrightarrow> rd mem i = Some (cells mem n ! i)"
  by (auto simp: filled_def)

lemma filledI: "n \<le> length mem \<Longrightarrow> (\<And>i. i < n \<Longrightarrow> rd mem i = Some (xs ! i)) \<Longrightarrow> filled mem n"
  by (auto simp: filled_def)

lemma cells_eqI:
  "length xs = n \<Longrightarrow> (\<And>i. i < n \<Longrightarrow> rd mem i = Some (xs ! i)) \<Longrightarrow> cells mem n = xs"
  by (auto intro: nth_equalityI)

lemma filled_le: "filled mem n \<Longrightarrow> m \<le> n \<Longrightarrow> filled mem m"
  by (auto simp: filled_def)

lemma cells_take: "m \<le> n \<Longrightarrow> cells mem m = take m (cells mem n)"
  by (rule nth_equalityI) auto

section \<open>Little-endian 32-bit values\<close>

definition u32_le :: "u32 \<Rightarrow> byte list" where
  "u32_le w = [ucast w, ucast (drop_bit 8 w), ucast (drop_bit 16 w), ucast (drop_bit 24 w)]"

definition le_u32 :: "byte list \<Rightarrow> u32" where
  "le_u32 bs =
     ucast (bs ! 0) OR push_bit 8 (ucast (bs ! 1)) OR push_bit 16 (ucast (bs ! 2))
       OR push_bit 24 (ucast (bs ! 3))"

lemma length_u32_le [simp]: "length (u32_le w) = 4"
  by (simp add: u32_le_def)

lemma bit_byte_out: "8 \<le> n \<Longrightarrow> \<not> bit (b :: byte) n"
  using bit_imp_le_length [of b n] by auto

lemmas word_bits =
  bit_or_iff bit_push_bit_iff bit_ucast_iff bit_drop_bit_eq bit_byte_out

lemma le_u32_u32_le [simp]: "le_u32 (u32_le w @ bs) = w"
proof (rule bit_word_eqI)
  fix n assume "n < LENGTH(32)"
  then have "n < 8 \<or> 8 \<le> n \<and> n < 16 \<or> 16 \<le> n \<and> n < 24 \<or> 24 \<le> n \<and> n < 32"
    by auto
  then show "bit (le_u32 (u32_le w @ bs)) n = bit w n"
    by (elim disjE conjE; simp add: le_u32_def u32_le_def word_bits; arith)
qed

lemma le_u32_u32_le' [simp]: "le_u32 (u32_le w) = w"
  using le_u32_u32_le [of w "[]"] by simp

lemma u32_le_le_u32:
  assumes "length bs = 4"
  shows "u32_le (le_u32 bs) = bs"
proof -
  obtain a b c d where "bs = [a, b, c, d]"
    using assms by (auto simp: numeral_eq_Suc length_Suc_conv)
  then show ?thesis
    by (auto simp: le_u32_def u32_le_def word_bits intro!: bit_word_eqI)
qed

lemma le_u32_take: "4 \<le> n \<Longrightarrow> le_u32 (take n bs) = le_u32 bs"
  by (simp add: le_u32_def)

lemma unat_of_nat_u32 [simp]: "n < 2 ^ 32 \<Longrightarrow> unat (of_nat n :: u32) = n"
  by (simp add: unat_of_nat)

section \<open>C strings\<close>

text \<open>
  \<open>strlen\<close> and \<open>strcmp(a, b) == 0\<close> on the cells from a pointer on: running past the block or
  reading a cell never written is undefined.
\<close>

fun c_strlen :: "byte option list \<Rightarrow> nat option" where
  "c_strlen [] = None"
| "c_strlen (c # cs) =
     (case c of None \<Rightarrow> None | Some b \<Rightarrow> if b = 0 then Some 0 else map_option Suc (c_strlen cs))"

fun c_streq :: "byte option list \<Rightarrow> byte option list \<Rightarrow> bool option" where
  "c_streq (Some a # as) (Some b # bs) =
     (if a \<noteq> b then Some False else if a = 0 then Some True else c_streq as bs)"
| "c_streq _ _ = None"

text \<open>Bytes copied into a block at an offset; a copy that does not fit is undefined.\<close>

definition put_cells :: "'a option list \<Rightarrow> nat \<Rightarrow> 'a option list \<Rightarrow> 'a option list option" where
  "put_cells mem i cs =
     (if i + length cs \<le> length mem then Some (take i mem @ cs @ drop (i + length cs) mem) else None)"

lemma put_cells_append:
  "length ys \<le> length rest \<Longrightarrow> i = length xs \<Longrightarrow>
   put_cells (map Some xs @ rest) i (map Some ys) = Some (map Some (xs @ ys) @ drop (length ys) rest)"
  by (simp add: put_cells_def)

lemma c_strlen_terminated:
  "0 \<notin> set bs \<Longrightarrow> c_strlen (map Some bs @ Some 0 # cs) = Some (length bs)"
  by (induction bs) auto

lemma c_strlen_SomeD:
  "c_strlen cs = Some n \<Longrightarrow>
   \<exists>bs rest. cs = map Some bs @ Some 0 # rest \<and> 0 \<notin> set bs \<and> length bs = n"
proof (induction cs arbitrary: n)
  case (Cons c cs)
  from Cons.prems obtain b where c: "c = Some b" by (cases c) auto
  show ?case
  proof (cases "b = 0")
    case True
    with c Cons.prems show ?thesis by (intro exI [of _ "[]"] exI [of _ cs]) auto
  next
    case False
    with c Cons.prems obtain m where m: "c_strlen cs = Some m" "n = Suc m" by auto
    from Cons.IH [OF m(1)] obtain bs rest where
      "cs = map Some bs @ Some 0 # rest" "0 \<notin> set bs" "length bs = m" by blast
    with c False m(2) show ?thesis by (intro exI [of _ "b # bs"]) auto
  qed
qed simp

lemma c_streq_terminated:
  "0 \<notin> set as \<Longrightarrow> 0 \<notin> set bs \<Longrightarrow>
   c_streq (map Some as @ Some 0 # cs) (map Some bs @ Some 0 # ds) = Some (as = bs)"
proof (induction as arbitrary: bs)
  case Nil
  then show ?case by (cases bs) auto
next
  case (Cons a as)
  then show ?case by (cases bs) auto
qed

end
