(* ===== verification/Chutil_Queue.thy ===== *)
theory Chutil_Queue
  imports Ch_Prelude
begin

text \<open>
  \<open>chutil/src/queue.c\<close>: the constant-size cyclic queue, its abstraction to a list, the
  interface \<open>fifo\<close> its clients (the local channel, the file-descriptor channel and the
  server) rely on, and the interpretation of that interface on the model.
\<close>

section \<open>State and operations\<close>

record 'a queue_t =
  q_cap :: nat
  q_len :: nat
  q_cell_size :: nat
  q_i :: nat
  q_table :: "'a option list"

definition new_queue :: "nat \<Rightarrow> nat \<Rightarrow> 'a queue_t option" where
  "new_queue cap cs =
     (if cap = 0 \<or> cs = 0 then None
      else Some \<lparr>q_cap = cap, q_len = 0, q_cell_size = cs, q_i = 0,
                 q_table = replicate cap None\<rparr>)"

definition q_full :: "'a queue_t \<Rightarrow> bool" where
  "q_full q = (q_cap q = q_len q)"

text \<open>\<open>q_peek\<close> returns a pointer to the oldest cell; the model returns the cell's value.\<close>

definition q_peek :: "'a queue_t \<Rightarrow> 'a option" where
  "q_peek q = (if q_len q = 0 then None else rd (q_table q) (q_i q))"

text \<open>The result code is 0 on success and 1 when the queue is full or \<open>src\<close> is NULL.\<close>

definition q_push :: "'a queue_t \<Rightarrow> 'a option \<Rightarrow> int \<times> 'a queue_t" where
  "q_push q src =
     (if q_full q \<or> src = None then (1, q)
      else let push_ind = (q_i q + q_len q) mod q_cap q
           in (0, q\<lparr>q_table := (q_table q)[push_ind := src], q_len := q_len q + 1\<rparr>))"

text \<open>
  \<open>dest\<close> says whether the destination pointer is non-NULL; the middle component of the
  result is the cell copied to it.
\<close>

definition q_poll :: "'a queue_t \<Rightarrow> bool \<Rightarrow> int \<times> 'a option \<times> 'a queue_t" where
  "q_poll q dest =
     (if q_len q = 0 then (1, None, q)
      else let out = (if dest then rd (q_table q) (q_i q) else None);
               i' = (if q_i q + 1 = q_cap q then 0 else q_i q + 1)
           in (0, out, q\<lparr>q_i := i', q_len := q_len q - 1\<rparr>))"

text \<open>
  The loop \<open>while (q_poll(q, &m) == 0) ...\<close> of the destructors, over any queue with a
  \<open>poll\<close> operation; \<open>None\<close> when the fuel runs out, else the cells polled, in order, and
  the final queue.
\<close>

fun poll_all ::
    "('q \<Rightarrow> bool \<Rightarrow> int \<times> 'a option \<times> 'q) \<Rightarrow> nat \<Rightarrow> 'q \<Rightarrow> ('a option list \<times> 'q) option" where
  "poll_all poll 0 q = None"
| "poll_all poll (Suc fuel) q =
     (case poll q True of (code, out, q') \<Rightarrow>
        if code \<noteq> 0 then Some ([], q')
        else map_option (\<lambda>(outs, q''). (out # outs, q'')) (poll_all poll fuel q'))"

section \<open>Invariant and abstraction\<close>

definition queue_inv :: "'a queue_t \<Rightarrow> bool" where [inv_defs]:
  "queue_inv q \<longleftrightarrow>
     0 < q_cap q \<and> 0 < q_cell_size q \<and> q_len q \<le> q_cap q \<and> q_i q < q_cap q \<and>
     length (q_table q) = q_cap q \<and>
     (\<forall>k < q_len q. rd (q_table q) ((q_i q + k) mod q_cap q) \<noteq> None)"

definition queue_list :: "'a queue_t \<Rightarrow> 'a list" where
  "queue_list q = map (\<lambda>k. the (rd (q_table q) ((q_i q + k) mod q_cap q))) [0..<q_len q]"

lemma length_queue_list [simp]: "length (queue_list q) = q_len q"
  by (simp add: queue_list_def)

lemma ring_index_inj_le:
  fixes i :: nat
  assumes "a \<le> b" "b < c" "(i + a) mod c = (i + b) mod c"
  shows "a = b"
proof -
  have "c dvd (i + b) - (i + a)"
    using assms mod_eq_dvd_iff_nat [of "i + a" "i + b" c] by simp
  then have "c dvd b - a" by simp
  moreover have "b - a < c" using assms by simp
  ultimately have "b - a = 0" using nat_dvd_not_less [of "b - a" c] by blast
  with assms show ?thesis by simp
qed

lemma ring_index_inj:
  fixes i :: nat
  assumes "j < c" "k < c" "(i + j) mod c = (i + k) mod c"
  shows "j = k"
  using ring_index_inj_le [of j k c i] ring_index_inj_le [of k j c i] assms
  by (cases "j \<le> k") simp_all

lemma ring_index_Suc:
  fixes i :: nat
  assumes "i < c"
  shows "((if i + 1 = c then 0 else i + 1) + k) mod c = (i + Suc k) mod c"
proof (cases "i + 1 = c")
  case True
  then have "i + Suc k = c + k" by simp
  then show ?thesis using True by (simp only: if_True) simp
qed simp

lemma new_queue_correct:
  assumes "new_queue cap cs = Some q"
  shows "queue_inv q \<and> queue_list q = [] \<and> q_cap q = cap"
  using assms by (auto simp: new_queue_def queue_inv_def queue_list_def split: if_splits)

lemma q_push_full: "q_full q \<Longrightarrow> q_push q src = (1, q)"
  by (simp add: q_push_def)

lemma q_push_null: "q_push q None = (1, q)"
  by (simp add: q_push_def)

lemma q_push_index_bound: "queue_inv q \<Longrightarrow> (q_i q + q_len q) mod q_cap q < length (q_table q)"
  by (simp add: queue_inv_def)

lemma q_push_ok:
  assumes inv: "queue_inv q" and room: "q_len q < q_cap q"
    and push: "q_push q (Some x) = (code, q')"
  shows "code = 0" and "queue_inv q'" and "queue_list q' = queue_list q @ [x]"
    and "q_cap q' = q_cap q"
proof -
  let ?p = "(q_i q + q_len q) mod q_cap q"
  have q': "q' = q\<lparr>q_table := (q_table q)[?p := Some x], q_len := q_len q + 1\<rparr>" and c: "code = 0"
    using push room by (auto simp: q_push_def q_full_def Let_def)
  have same: "rd (q_table q') ((q_i q + k) mod q_cap q) = rd (q_table q) ((q_i q + k) mod q_cap q)"
    if "k < q_len q" for k
    using that room ring_index_inj [of k "q_cap q" "q_len q" "q_i q"] by (auto simp: q')
  have new: "rd (q_table q') ?p = Some x"
    using q_push_index_bound [OF inv] by (simp add: q')
  show "code = 0" by (rule c)
  show "q_cap q' = q_cap q" by (simp add: q')
  show "queue_inv q'"
    using inv room same new by (auto simp: queue_inv_def q' less_Suc_eq)
  have "queue_list q' = map (\<lambda>k. the (rd (q_table q') ((q_i q + k) mod q_cap q))) [0..<q_len q]
          @ [the (rd (q_table q') ?p)]"
    by (simp add: queue_list_def q')
  then show "queue_list q' = queue_list q @ [x]"
    using same new by (auto simp: queue_list_def cong: map_cong)
qed

lemma q_poll_empty: "q_len q = 0 \<Longrightarrow> q_poll q dest = (1, None, q)"
  by (simp add: q_poll_def)

lemma q_poll_ok:
  assumes inv: "queue_inv q" and ne: "q_len q \<noteq> 0"
    and poll: "q_poll q dest = (code, out, q')"
  shows "code = 0" and "queue_inv q'"
    and "queue_list q = the (rd (q_table q) (q_i q)) # queue_list q'"
    and "out = (if dest then Some (the (rd (q_table q) (q_i q))) else None)"
    and "q_cap q' = q_cap q"
proof -
  let ?i' = "if q_i q + 1 = q_cap q then 0 else q_i q + 1"
  have q': "q' = q\<lparr>q_i := ?i', q_len := q_len q - 1\<rparr>" and c: "code = 0"
    and out: "out = (if dest then rd (q_table q) (q_i q) else None)"
    using poll ne by (auto simp: q_poll_def Let_def)
  have shift: "(?i' + k) mod q_cap q = (q_i q + Suc k) mod q_cap q" for k
    using inv ring_index_Suc [of "q_i q" "q_cap q" k] by (simp add: queue_inv_def)
  have first: "rd (q_table q) (q_i q) \<noteq> None"
    using inv ne by (auto simp: queue_inv_def dest: spec [of _ 0])
  show "code = 0" by (rule c)
  show "q_cap q' = q_cap q" by (simp add: q')
  show "out = (if dest then Some (the (rd (q_table q) (q_i q))) else None)"
    using out first by auto
  have filled: "rd (q_table q) ((?i' + k) mod q_cap q) \<noteq> None" if "k < q_len q - 1" for k
  proof -
    have "Suc k < q_len q" using that by simp
    then have "rd (q_table q) ((q_i q + Suc k) mod q_cap q) \<noteq> None"
      using inv unfolding queue_inv_def by blast
    then show ?thesis by (simp only: shift not_False_eq_True)
  qed
  show "queue_inv q'"
    using inv filled by (auto simp: queue_inv_def q')
  have "[0..<q_len q] = 0 # map Suc [0..<q_len q - 1]"
    using ne by (cases "q_len q") (simp_all add: map_Suc_upt upt_conv_Cons del: upt_Suc)
  then have "queue_list q = the (rd (q_table q) (q_i q mod q_cap q))
       # map (\<lambda>k. the (rd (q_table q) ((q_i q + Suc k) mod q_cap q))) [0..<q_len q - 1]"
    by (simp add: queue_list_def)
  moreover have "q_i q mod q_cap q = q_i q" using inv by (simp add: queue_inv_def)
  ultimately show "queue_list q = the (rd (q_table q) (q_i q)) # queue_list q'"
    by (simp add: queue_list_def q' shift [simplified])
qed

lemma q_peek_empty: "q_len q = 0 \<Longrightarrow> q_peek q = None"
  by (simp add: q_peek_def)

lemma q_peek_hd: "queue_inv q \<Longrightarrow> q_len q \<noteq> 0 \<Longrightarrow> q_peek q = Some (hd (queue_list q))"
  using q_poll_ok(3) [of q True "fst (q_poll q True)" "fst (snd (q_poll q True))"
      "snd (snd (q_poll q True))"]
  by (auto simp: q_peek_def queue_inv_def dest: spec [of _ 0])

section \<open>The interface the clients use\<close>

text \<open>
  \<open>contents\<close> lists the elements from the oldest to the newest.  \<open>push\<close> and \<open>poll\<close> have the
  result codes of \<open>q_push\<close> and \<open>q_poll\<close>.
\<close>

locale fifo =
  fixes inv :: "'q \<Rightarrow> bool"
    and contents :: "'q \<Rightarrow> 'a list"
    and capacity :: "'q \<Rightarrow> nat"
    and push :: "'q \<Rightarrow> 'a option \<Rightarrow> int \<times> 'q"
    and poll :: "'q \<Rightarrow> bool \<Rightarrow> int \<times> 'a option \<times> 'q"
  assumes bounded: "inv q \<Longrightarrow> length (contents q) \<le> capacity q \<and> 0 < capacity q"
    and push_room: "inv q \<Longrightarrow> length (contents q) < capacity q \<Longrightarrow>
      \<exists>q'. push q (Some x) = (0, q') \<and> inv q' \<and> contents q' = contents q @ [x] \<and>
           capacity q' = capacity q"
    and push_full: "inv q \<Longrightarrow> length (contents q) = capacity q \<Longrightarrow> push q src = (1, q)"
    and push_null: "push q None = (1, q)"
    and poll_nil: "inv q \<Longrightarrow> contents q = [] \<Longrightarrow> poll q dest = (1, None, q)"
    and poll_cons: "inv q \<Longrightarrow> contents q = x # xs \<Longrightarrow>
      \<exists>q'. poll q dest = (0, (if dest then Some x else None), q') \<and> inv q' \<and>
           contents q' = xs \<and> capacity q' = capacity q"
begin

lemma drain:
  "inv q \<Longrightarrow> length (contents q) < fuel \<Longrightarrow>
   \<exists>q'. poll_all poll fuel q = Some (map Some (contents q), q') \<and> inv q' \<and> contents q' = [] \<and>
        capacity q' = capacity q"
proof (induction fuel arbitrary: q)
  case 0
  then show ?case by simp
next
  case (Suc fuel)
  show ?case
  proof (cases "contents q")
    case Nil
    with Suc.prems show ?thesis by (simp add: poll_nil)
  next
    case (Cons x xs)
    with poll_cons [OF Suc.prems(1), of x xs True] obtain q' where
      q': "poll q True = (0, Some x, q')" "inv q'" "contents q' = xs" "capacity q' = capacity q"
      by auto
    moreover from q' Suc.prems Cons have "length (contents q') < fuel" by simp
    ultimately show ?thesis using Suc.IH [of q'] Cons by auto
  qed
qed

text \<open>Making room by dropping the oldest element, as both channels do in write-over mode.\<close>

lemma evict_push:
  assumes "inv q" "length (contents q) = capacity q"
  shows "\<exists>y q1 q2. poll q True = (0, Some y, q1) \<and> push q1 (Some x) = (0, q2) \<and> inv q2 \<and>
           y = hd (contents q) \<and> contents q2 = tl (contents q) @ [x] \<and> capacity q2 = capacity q"
proof -
  from assms bounded [of q] obtain y ys where ys: "contents q = y # ys"
    by (cases "contents q") auto
  from poll_cons [OF assms(1) ys, of True] obtain q1 where
    q1: "poll q True = (0, Some y, q1)" "inv q1" "contents q1 = ys" "capacity q1 = capacity q"
    by auto
  with assms ys have "length (contents q1) < capacity q1" by simp
  from push_room [OF q1(2) this, of x] q1 ys show ?thesis by auto
qed

text \<open>An element just polled can always be pushed back.\<close>

lemma push_back:
  assumes "inv q" "contents q = x # xs" "poll q dest = (code, out, q1)"
  shows "\<exists>q2. push q1 (Some y) = (0, q2) \<and> inv q2 \<and> contents q2 = xs @ [y] \<and>
              capacity q2 = capacity q"
  using poll_cons [OF assms(1,2), of dest] push_room [of q1 y] bounded [of q] assms by auto

end

interpretation q: fifo queue_inv queue_list q_cap q_push q_poll
proof
  fix q :: "'a queue_t" and x xs src dest
  show "queue_inv q \<Longrightarrow> length (queue_list q) \<le> q_cap q \<and> 0 < q_cap q"
    by (simp add: queue_inv_def)
  show "queue_inv q \<Longrightarrow> length (queue_list q) < q_cap q \<Longrightarrow>
      \<exists>q'. q_push q (Some x) = (0, q') \<and> queue_inv q' \<and> queue_list q' = queue_list q @ [x] \<and>
           q_cap q' = q_cap q"
    using q_push_ok [of q x "fst (q_push q (Some x))" "snd (q_push q (Some x))"]
    by (cases "q_push q (Some x)") simp
  show "queue_inv q \<Longrightarrow> length (queue_list q) = q_cap q \<Longrightarrow> q_push q src = (1, q)"
    by (simp add: q_push_full q_full_def)
  show "q_push q None = (1, q)"
    by (rule q_push_null)
  show "queue_inv q \<Longrightarrow> queue_list q = [] \<Longrightarrow> q_poll q dest = (1, None, q)"
    using length_queue_list [of q] by (simp add: q_poll_empty)
  assume inv: "queue_inv q" and xs: "queue_list q = x # xs"
  then have "q_len q \<noteq> 0" using length_queue_list [of q] by auto
  moreover obtain code out q' where p: "q_poll q dest = (code, out, q')"
    by (rule prod_cases3)
  ultimately show "\<exists>q'. q_poll q dest = (0, if dest then Some x else None, q') \<and> queue_inv q' \<and>
          queue_list q' = xs \<and> q_cap q' = q_cap q"
    using q_poll_ok [OF inv _ p] xs by simp
qed

section \<open>Runs of operations\<close>

text \<open>
  The abstract specification: a list of at most \<open>cap\<close> elements.  A run of the model over
  any sequence of operations returns the result codes and the polled elements of the
  specification.
\<close>

datatype 'a queue_op = Push "'a option" | Poll bool

fun queue_step :: "'a queue_op \<Rightarrow> 'a queue_t \<Rightarrow> (int \<times> 'a option) \<times> 'a queue_t" where
  "queue_step (Push src) q = (case q_push q src of (code, q') \<Rightarrow> ((code, None), q'))"
| "queue_step (Poll dest) q = (case q_poll q dest of (code, out, q') \<Rightarrow> ((code, out), q'))"

fun queue_run :: "'a queue_op list \<Rightarrow> 'a queue_t \<Rightarrow> (int \<times> 'a option) list \<times> 'a queue_t" where
  "queue_run [] q = ([], q)"
| "queue_run (oper # ops) q =
     (case queue_step oper q of (r, q') \<Rightarrow>
        case queue_run ops q' of (rs, q'') \<Rightarrow> (r # rs, q''))"

fun spec_step :: "nat \<Rightarrow> 'a queue_op \<Rightarrow> 'a list \<Rightarrow> (int \<times> 'a option) \<times> 'a list" where
  "spec_step cap (Push None) xs = ((1, None), xs)"
| "spec_step cap (Push (Some x)) xs =
     (if length xs = cap then ((1, None), xs) else ((0, None), xs @ [x]))"
| "spec_step cap (Poll dest) [] = ((1, None), [])"
| "spec_step cap (Poll dest) (x # xs) = ((0, if dest then Some x else None), xs)"

fun spec_run :: "nat \<Rightarrow> 'a queue_op list \<Rightarrow> 'a list \<Rightarrow> (int \<times> 'a option) list \<times> 'a list" where
  "spec_run cap [] xs = ([], xs)"
| "spec_run cap (oper # ops) xs =
     (case spec_step cap oper xs of (r, xs') \<Rightarrow>
        case spec_run cap ops xs' of (rs, xs'') \<Rightarrow> (r # rs, xs''))"

lemma queue_step_refines:
  assumes "queue_inv q"
  shows "\<exists>r q'. queue_step oper q = (r, q') \<and> queue_inv q' \<and> q_cap q' = q_cap q \<and>
           spec_step (q_cap q) oper (queue_list q) = (r, queue_list q')"
proof (cases oper)
  case (Push src)
  show ?thesis
  proof (cases src)
    case None
    then show ?thesis using Push assms by (simp add: q_push_null)
  next
    case (Some x)
    show ?thesis
    proof (cases "length (queue_list q) = q_cap q")
      case True
      with q.push_full [OF assms this, of src] show ?thesis
        using Push Some assms by simp
    next
      case False
      with q.push_room [OF assms, of x] q.bounded [OF assms] show ?thesis
        using Push Some by fastforce
    qed
  qed
next
  case (Poll dest)
  show ?thesis
  proof (cases "queue_list q")
    case Nil
    with q.poll_nil [OF assms Nil, of dest] show ?thesis using Poll assms by simp
  next
    case (Cons x xs)
    with q.poll_cons [OF assms Cons, of dest] show ?thesis using Poll by fastforce
  qed
qed

text \<open>C12. Every sequence of pushes and polls on the cyclic queue returns exactly the result
  codes and elements of a first-in-first-out list bounded by the capacity, and the queue
  ends in the state that abstracts to the final list.\<close>

theorem queue_run_refines:
  assumes "queue_inv q"
  shows "\<exists>q'. queue_run ops q = (fst (spec_run (q_cap q) ops (queue_list q)), q') \<and>
           queue_inv q' \<and> q_cap q' = q_cap q \<and>
           queue_list q' = snd (spec_run (q_cap q) ops (queue_list q))"
  using assms
proof (induction ops arbitrary: q)
  case Nil
  then show ?case by simp
next
  case (Cons oper ops)
  from queue_step_refines [OF Cons.prems, of oper] obtain r q1 where
    s: "queue_step oper q = (r, q1)" "queue_inv q1" "q_cap q1 = q_cap q"
       "spec_step (q_cap q) oper (queue_list q) = (r, queue_list q1)" by blast
  from Cons.IH [OF s(2)] s(3) obtain q2 where
    "queue_run ops q1 = (fst (spec_run (q_cap q) ops (queue_list q1)), q2)"
    "queue_inv q2" "q_cap q2 = q_cap q" "queue_list q2 = snd (spec_run (q_cap q) ops (queue_list q1))"
    by auto
  with s show ?case by (simp split: prod.split)
qed

theorem queue_run_refines_witness:
  "\<exists>q' :: nat queue_t. queue_run [Push (Some 7), Push (Some 8), Push (Some 9), Poll True, Poll True, Poll True]
       \<lparr>q_cap = 2, q_len = 0, q_cell_size = 4, q_i = 1, q_table = [None, None]\<rparr>
     = ([(0, None), (0, None), (1, None), (0, Some 7), (0, Some 8), (1, None)], q') \<and>
       queue_list q' = []"
  using queue_run_refines
    [of "\<lparr>q_cap = 2, q_len = 0, q_cell_size = 4, q_i = 1, q_table = [None, None]\<rparr> :: nat queue_t"
        "[Push (Some 7), Push (Some 8), Push (Some 9), Poll True, Poll True, Poll True]"]
  by (simp add: queue_inv_def queue_list_def) blast

end
