(* ===== verification/Chutil_Array_List.thy ===== *)
theory Chutil_Array_List
  imports Ch_Prelude
begin

text \<open>
  The array list of \<open>chutil/src/list.c\<close> and \<open>chutil/include/chutil/list.h\<close>: a block of
  cells that doubles when it is full.

  Every operation that dereferences memory returns an option whose \<open>None\<close> is undefined
  behaviour of the C (a read or write outside the block, or a read of a cell never
  written); the lemmas show that it does not occur on a well-formed list.
\<close>

section \<open>Array list\<close>

record 'a array_list_t =
  al_cap :: nat
  al_len :: nat
  al_cell_size :: nat
  al_arr :: "'a option list"
  al_iter_ind :: nat

text \<open>\<open>new_array_list\<close> leaves \<open>iter_ind\<close> uninitialised: \<open>junk\<close> is whatever it holds.\<close>

definition new_array_list :: "nat \<Rightarrow> nat \<Rightarrow> 'a array_list_t option" where
  "new_array_list junk cs =
     (if cs = 0 then None
      else Some \<lparr>al_cap = 1, al_len = 0, al_cell_size = cs, al_arr = replicate 1 None,
                 al_iter_ind = junk\<rparr>)"

text \<open>
  \<open>al_get\<close> computes a pointer without a bounds check; the model gives the cell behind it.
  \<open>al_set\<close> copies \<open>src\<close> to that cell.
\<close>

definition al_get :: "'a array_list_t \<Rightarrow> nat \<Rightarrow> 'a option" where
  "al_get al i = rd (al_arr al) i"

definition al_set :: "'a array_list_t \<Rightarrow> nat \<Rightarrow> 'a \<Rightarrow> 'a array_list_t option" where
  "al_set al i src =
     (if i < length (al_arr al) then Some (al\<lparr>al_arr := (al_arr al)[i := Some src]\<rparr>) else None)"

definition al_push :: "'a array_list_t \<Rightarrow> 'a \<Rightarrow> 'a array_list_t option" where
  "al_push al src =
     (let al1 = (if al_len al = al_cap al
                 then let new_cap = al_cap al * 2
                      in al\<lparr>al_arr := cells_realloc (al_arr al) new_cap, al_cap := new_cap\<rparr>
                 else al)
      in case al_set al1 (al_len al1) src of
           None \<Rightarrow> None
         | Some al2 \<Rightarrow> Some (al2\<lparr>al_len := al_len al2 + 1\<rparr>))"

text \<open>
  In \<open>al_pop\<close> and \<open>al_poll\<close>, \<open>dest\<close> says whether the destination pointer is non-NULL, and
  the first component of the result is what is copied to it.
\<close>

definition al_copy_out :: "'a array_list_t \<Rightarrow> nat \<Rightarrow> bool \<Rightarrow> 'a option option" where
  "al_copy_out al i dest =
     (if dest then (case al_get al i of None \<Rightarrow> None | Some x \<Rightarrow> Some (Some x)) else Some None)"

definition al_pop :: "'a array_list_t \<Rightarrow> bool \<Rightarrow> ('a option \<times> 'a array_list_t) option" where
  "al_pop al dest =
     (if al_len al = 0 then Some (None, al)
      else case al_copy_out al (al_len al - 1) dest of
             None \<Rightarrow> None
           | Some out \<Rightarrow> Some (out, al\<lparr>al_len := al_len al - 1\<rparr>))"

text \<open>
  The loop of \<open>al_poll\<close>: every cell from \<open>next\<close> to \<open>end\<close> moves to \<open>cur\<close> (\<open>curr\<close> in the C), one
  to the left. Each \<open>memcpy\<close> is checked: a cell read outside the block or never written, or a
  destination outside the block, is undefined behaviour.
\<close>

function al_shift :: "'a option list \<Rightarrow> nat \<Rightarrow> nat \<Rightarrow> nat \<Rightarrow> 'a option list option" where
  "al_shift arr cur nxt fin =
     (if nxt \<le> fin
      then case rd arr nxt of
             None \<Rightarrow> None
           | Some x \<Rightarrow>
               if cur < length arr then al_shift (arr[cur := Some x]) nxt (nxt + 1) fin else None
      else Some arr)"
  by pat_completeness auto
termination
  by (relation "measure (\<lambda>(arr, cur, nxt, fin). Suc fin - nxt)") auto

declare al_shift.simps [simp del]

definition al_poll :: "'a array_list_t \<Rightarrow> bool \<Rightarrow> ('a option \<times> 'a array_list_t) option" where
  "al_poll al dest =
     (if al_len al = 0 then Some (None, al)
      else case al_copy_out al 0 dest of
             None \<Rightarrow> None
           | Some out \<Rightarrow>
               (case al_shift (al_arr al) 0 1 (al_len al - 1) of
                  None \<Rightarrow> None
                | Some arr \<Rightarrow> Some (out, al\<lparr>al_arr := arr, al_len := al_len al - 1\<rparr>)))"

definition al_reset_iterator :: "'a array_list_t \<Rightarrow> 'a array_list_t" where
  "al_reset_iterator al = al\<lparr>al_iter_ind := 0\<rparr>"

text \<open>\<open>al_next\<close> gives the cell behind the returned pointer, \<open>None\<close> for NULL.\<close>

definition al_next :: "'a array_list_t \<Rightarrow> ('a option \<times> 'a array_list_t) option" where
  "al_next al =
     (if al_iter_ind al < al_len al
      then case al_get al (al_iter_ind al) of
             None \<Rightarrow> None
           | Some x \<Rightarrow> Some (Some x, al\<lparr>al_iter_ind := al_iter_ind al + 1\<rparr>)
      else Some (None, al))"

text \<open>The array handed over; \<open>Some None\<close> is the NULL of an empty list.\<close>

definition delete_and_move_array_list :: "'a array_list_t \<Rightarrow> 'a option list option option" where
  "delete_and_move_array_list al =
     (if al_len al = 0 then Some None
      else Some (Some (cells_realloc (al_arr al) (al_len al))))"

definition al_inv :: "'a array_list_t \<Rightarrow> bool" where [inv_defs]:
  "al_inv al \<longleftrightarrow> 0 < al_cap al \<and> 0 < al_cell_size al \<and> length (al_arr al) = al_cap al \<and>
     filled (al_arr al) (al_len al)"

definition al_list :: "'a array_list_t \<Rightarrow> 'a list" where
  "al_list al = cells (al_arr al) (al_len al)"

lemma length_al_list [simp]: "length (al_list al) = al_len al"
  by (simp add: al_list_def)

lemma al_inv_get: "al_inv al \<Longrightarrow> i < al_len al \<Longrightarrow> al_get al i = Some (al_list al ! i)"
  unfolding al_inv_def al_get_def al_list_def by (blast intro: filled_rd)

lemma al_inv_copy_out:
  "al_inv al \<Longrightarrow> i < al_len al \<Longrightarrow>
   al_copy_out al i dest = Some (if dest then Some (al_list al ! i) else None)"
  by (simp add: al_copy_out_def al_inv_get)

lemma al_invI:
  assumes "0 < al_cap al" "0 < al_cell_size al" "length (al_arr al) = al_cap al"
    "al_len al \<le> al_cap al" "length xs = al_len al"
    "\<And>i. i < al_len al \<Longrightarrow> rd (al_arr al) i = Some (xs ! i)"
  shows "al_inv al \<and> al_list al = xs"
  using assms by (auto simp: al_inv_def al_list_def intro: filledI cells_eqI)

lemma new_array_list_correct:
  "new_array_list junk cs = Some al \<Longrightarrow> al_inv al \<and> al_list al = []"
  by (auto simp: new_array_list_def al_inv_def al_list_def filled_def split: if_splits)

lemma al_push_ok:
  assumes "al_inv al"
  shows "\<exists>al'. al_push al x = Some al' \<and> al_inv al' \<and> al_list al' = al_list al @ [x]"
proof -
  define al1 where "al1 = (if al_len al = al_cap al
     then al\<lparr>al_arr := cells_realloc (al_arr al) (al_cap al * 2), al_cap := al_cap al * 2\<rparr> else al)"
  have al1: "al_len al1 < al_cap al1" "length (al_arr al1) = al_cap al1" "0 < al_cell_size al1"
    "al_len al1 = al_len al"
    using assms by (auto simp: al1_def al_inv_def filled_def)
  have old: "rd (al_arr al1) i = Some (al_list al ! i)" if "i < al_len al" for i
    using that assms al_inv_get [OF assms that] by (auto simp: al1_def al_get_def al_inv_def)
  define al2 where "al2 = al1\<lparr>al_arr := (al_arr al1)[al_len al1 := Some x], al_len := al_len al1 + 1\<rparr>"
  have "al_push al x = (case al_set al1 (al_len al1) x of None \<Rightarrow> None
      | Some al3 \<Rightarrow> Some (al3\<lparr>al_len := al_len al3 + 1\<rparr>))"
    unfolding al_push_def al1_def Let_def ..
  with al1 have "al_push al x = Some al2"
    by (simp add: al_set_def al2_def)
  moreover have "al_inv al2 \<and> al_list al2 = al_list al @ [x]"
    using al1 old by (intro al_invI) (auto simp: al2_def nth_append)
  ultimately show ?thesis by blast
qed

lemma al_pop_ok:
  assumes "al_inv al" "al_list al = xs @ [x]"
  shows "\<exists>al'. al_pop al dest = Some (if dest then Some x else None, al') \<and> al_inv al' \<and>
           al_list al' = xs"
proof -
  have len: "al_len al = Suc (length xs)" using assms(2) length_al_list [of al] by simp
  define al1 where "al1 = al\<lparr>al_len := al_len al - 1\<rparr>"
  have "al_list al ! length xs = x" using assms(2) by simp
  then have "al_pop al dest = Some (if dest then Some x else None, al1)"
    using al_inv_copy_out [OF assms(1), of "length xs" dest] len
    by (simp add: al_pop_def al1_def)
  moreover have "al_inv al1 \<and> al_list al1 = xs"
  proof -
    have "rd (al_arr al1) i = Some (xs ! i)" if "i < al_len al1" for i
      using that len al_inv_get [OF assms(1), of i] assms(2)
      by (simp add: al1_def al_get_def nth_append)
    then show "al_inv al1 \<and> al_list al1 = xs"
      using assms(1) len by (intro al_invI) (auto simp: al1_def al_inv_def filled_def)
  qed
  ultimately show ?thesis by blast
qed

text \<open>
  When every cell from \<open>next\<close> to \<open>end\<close> holds a value the shift is defined, keeps the size of
  the block and moves exactly those cells; one cell past the block it is undefined.
\<close>

lemma al_shift_ok:
  assumes "n = Suc c" "e < length arr" "\<And>i. c < i \<Longrightarrow> i \<le> e \<Longrightarrow> rd arr i \<noteq> None"
  shows "\<exists>arr'. al_shift arr c n e = Some arr' \<and> length arr' = length arr \<and>
           (\<forall>i. rd arr' i = (if c \<le> i \<and> i < e then rd arr (Suc i) else rd arr i))"
  using assms
proof (induction arr c n e rule: al_shift.induct)
  case (1 arr c n e)
  show ?case
  proof (cases "n \<le> e")
    case True
    with "1.prems" obtain x where x: "rd arr n = Some x" by force
    from True "1.prems" have c: "c < length arr" by simp
    have "rd (arr[c := Some x]) i \<noteq> None" if "n < i" "i \<le> e" for i
      using that "1.prems" by simp
    with "1.IH" [OF True x c] "1.prems" obtain arr' where arr':
      "al_shift (arr[c := Some x]) n (n + 1) e = Some arr'" "length arr' = length arr"
      "\<forall>i. rd arr' i = (if n \<le> i \<and> i < e then rd (arr[c := Some x]) (Suc i)
                      else rd (arr[c := Some x]) i)"
      by auto
    with True x c "1.prems" show ?thesis
      by (subst al_shift.simps) auto
  next
    case False
    with "1.prems" show ?thesis by (subst al_shift.simps) auto
  qed
qed

lemma al_shift_past_block:
  "\<lbrakk>c < n; n \<le> length arr; length arr \<le> e\<rbrakk> \<Longrightarrow> al_shift arr c n e = None"
proof (induction arr c n e rule: al_shift.induct)
  case (1 arr c n e)
  then show ?case
    by (subst al_shift.simps) (auto simp: rd_def not_less dest: le_neq_implies_less split: option.splits)
qed

lemma al_poll_ok:
  assumes "al_inv al" "al_list al = x # xs"
  shows "\<exists>al'. al_poll al dest = Some (if dest then Some x else None, al') \<and> al_inv al' \<and>
           al_list al' = xs"
proof -
  have len: "al_len al = Suc (length xs)" using assms(2) length_al_list [of al] by simp
  have get: "rd (al_arr al) i = Some (al_list al ! i)" if "i \<le> length xs" for i
    using al_inv_get [OF assms(1), of i] that len by (simp add: al_get_def)
  have bound: "al_len al - 1 < length (al_arr al)"
    using assms(1) len by (simp add: al_inv_def filled_def)
  obtain arr where arr: "al_shift (al_arr al) 0 1 (al_len al - 1) = Some arr"
    "length arr = length (al_arr al)"
    "\<forall>i. rd arr i = (if 0 \<le> i \<and> i < al_len al - 1 then rd (al_arr al) (Suc i)
                   else rd (al_arr al) i)"
    using al_shift_ok [of 1 0 "al_len al - 1" "al_arr al"] bound get len by auto
  define al1 where "al1 = al\<lparr>al_arr := arr, al_len := al_len al - 1\<rparr>"
  have "al_poll al dest = Some (if dest then Some x else None, al1)"
    using al_inv_copy_out [OF assms(1), of 0 dest] len assms(2) arr(1)
    by (simp add: al_poll_def al1_def)
  moreover have "rd (al_arr al1) i = Some (xs ! i)" if "i < al_len al1" for i
    using that len get [of "Suc i"] assms(2) arr(3) by (simp add: al1_def)
  then have "al_inv al1 \<and> al_list al1 = xs"
    using assms(1) len arr(2) by (intro al_invI) (auto simp: al1_def al_inv_def filled_def)
  ultimately show ?thesis by blast
qed

lemma al_set_ok:
  assumes "al_inv al" "i < al_len al"
  shows "\<exists>al'. al_set al i x = Some al' \<and> al_inv al' \<and> al_list al' = (al_list al)[i := x]"
proof -
  have b: "i < length (al_arr al)" using assms by (simp add: al_inv_def filled_def)
  define al1 where "al1 = al\<lparr>al_arr := (al_arr al)[i := Some x]\<rparr>"
  have "rd (al_arr al1) j = Some ((al_list al)[i := x] ! j)" if "j < al_len al1" for j
    using that b al_inv_get [OF assms(1), of j] by (auto simp: al1_def al_get_def nth_list_update)
  then have "al_inv al1 \<and> al_list al1 = (al_list al)[i := x]"
    using assms(1) by (intro al_invI) (auto simp: al1_def al_inv_def filled_def)
  with b show ?thesis by (simp add: al_set_def al1_def)
qed

end
