(* ===== verification/Chutil_Linked_List.thy ===== *)
theory Chutil_Linked_List
  imports Ch_Prelude "HOL-Library.Monad_Syntax"
begin

text \<open>
  The doubly linked list of \<open>chutil/src/list.c\<close> over an explicit store of nodes: a map from
  addresses to allocated nodes, and the next address the allocator hands out.  Following
  NULL, a freed address or reading a cell never written is undefined behaviour, the value
  \<open>None\<close> of the operations' option results.  The representation predicate \<open>ll_rep\<close> says
  that the store holds exactly the nodes of the list, linked in both directions.
\<close>

section \<open>Store, state and operations\<close>

record 'a ll_node =
  n_prev :: "nat option"
  n_next :: "nat option"
  n_cell :: "'a option"

record 'a linked_list_t =
  ll_cell_size :: nat
  ll_len :: nat
  ll_first :: "nat option"
  ll_last :: "nat option"
  ll_iter :: "nat option"
  ll_mem :: "nat \<rightharpoonup> 'a ll_node"
  ll_brk :: nat

definition upd_node ::
    "(nat \<rightharpoonup> 'a ll_node) \<Rightarrow> nat \<Rightarrow> ('a ll_node \<Rightarrow> 'a ll_node) \<Rightarrow> (nat \<rightharpoonup> 'a ll_node) option" where
  "upd_node mem a f = (case mem a of None \<Rightarrow> None | Some nd \<Rightarrow> Some (mem(a \<mapsto> f nd)))"

text \<open>\<open>iter\<close> is not initialised by the constructor: \<open>junk\<close> is whatever it holds.\<close>

definition new_linked_list :: "nat option \<Rightarrow> nat \<Rightarrow> 'a linked_list_t option" where
  "new_linked_list junk cs =
     (if cs = 0 then None
      else Some \<lparr>ll_cell_size = cs, ll_len = 0, ll_first = None, ll_last = None,
                 ll_iter = junk, ll_mem = Map.empty, ll_brk = 0\<rparr>)"

text \<open>The loop of \<open>delete_linked_list\<close>; the result is the store after the frees.\<close>

partial_function (option) ll_free_loop ::
    "(nat \<rightharpoonup> 'a ll_node) \<Rightarrow> nat option \<Rightarrow> (nat \<rightharpoonup> 'a ll_node) option" where
  "ll_free_loop mem cur =
     (case cur of
        None \<Rightarrow> Some mem
      | Some a \<Rightarrow> do { nd \<leftarrow> mem a; ll_free_loop (mem(a := None)) (n_next nd) })"

definition delete_linked_list :: "'a linked_list_t \<Rightarrow> (nat \<rightharpoonup> 'a ll_node) option" where
  "delete_linked_list ll = ll_free_loop (ll_mem ll) (ll_first ll)"

text \<open>
  The copying loop of \<open>delete_and_move_linked_list\<close>: cell \<open>i\<close> of the new block \<open>res\<close> is
  written; a write past its end is undefined.
\<close>

partial_function (option) ll_copy_loop ::
    "(nat \<rightharpoonup> 'a ll_node) \<Rightarrow> nat option \<Rightarrow> nat \<Rightarrow> 'a option list \<Rightarrow> 'a option list option" where
  "ll_copy_loop mem node i res =
     (case node of
        None \<Rightarrow> Some res
      | Some a \<Rightarrow> do {
          nd \<leftarrow> mem a;
          x \<leftarrow> n_cell nd;
          (if i < length res then ll_copy_loop mem (n_next nd) (i + 1) (res[i := Some x]) else None)
        })"

definition delete_and_move_linked_list ::
    "'a linked_list_t \<Rightarrow> ('a option list option \<times> (nat \<rightharpoonup> 'a ll_node)) option" where
  "delete_and_move_linked_list ll =
     (if ll_len ll = 0 then do { m \<leftarrow> delete_linked_list ll; Some (None, m) }
      else do {
        res \<leftarrow> ll_copy_loop (ll_mem ll) (ll_first ll) 0 (replicate (ll_len ll) None);
        m \<leftarrow> delete_linked_list ll;
        Some (Some res, m)
      })"

text \<open>
  \<open>ll_get\<close>, with the loop condition \<open>node && i < cnt\<close> of the source.  The loop follows
  \<open>next\<close> as long as \<open>i < cnt\<close>, so it may not return on a cyclic list.
\<close>

partial_function (option) ll_get_loop ::
    "(nat \<rightharpoonup> 'a ll_node) \<Rightarrow> nat option \<Rightarrow> nat \<Rightarrow> nat \<Rightarrow> nat option option" where
  "ll_get_loop mem node i cnt =
     (case node of
        None \<Rightarrow> Some None
      | Some a \<Rightarrow>
          if i < cnt then do { nd \<leftarrow> mem a; ll_get_loop mem (n_next nd) i (cnt + 1) }
          else Some (Some a))"

text \<open>The address of the node whose cell \<open>ll_get\<close> points into; \<open>Some None\<close> is NULL.\<close>

definition ll_get :: "'a linked_list_t \<Rightarrow> nat \<Rightarrow> nat option option" where
  "ll_get ll i = ll_get_loop (ll_mem ll) (ll_first ll) i 0"

definition ll_get_copy :: "'a linked_list_t \<Rightarrow> nat \<Rightarrow> 'a option" where
  "ll_get_copy ll i = do { p \<leftarrow> ll_get ll i; a \<leftarrow> p; nd \<leftarrow> ll_mem ll a; n_cell nd }"

definition ll_set :: "'a linked_list_t \<Rightarrow> nat \<Rightarrow> 'a \<Rightarrow> 'a linked_list_t option" where
  "ll_set ll i src =
     do { p \<leftarrow> ll_get ll i; a \<leftarrow> p;
          m \<leftarrow> upd_node (ll_mem ll) a (\<lambda>nd. nd\<lparr>n_cell := Some src\<rparr>);
          Some (ll\<lparr>ll_mem := m\<rparr>) }"

definition ll_push :: "'a linked_list_t \<Rightarrow> 'a \<Rightarrow> 'a linked_list_t option" where
  "ll_push ll src =
     (let a = ll_brk ll;
          mem1 = (ll_mem ll)(a \<mapsto> \<lparr>n_prev = ll_last ll, n_next = None, n_cell = None\<rparr>)
      in do {
        (mem2, fst') \<leftarrow> (case ll_last ll of
            Some l \<Rightarrow> do { m \<leftarrow> upd_node mem1 l (\<lambda>nd. nd\<lparr>n_next := Some a\<rparr>); Some (m, ll_first ll) }
          | None \<Rightarrow> Some (mem1, Some a));
        mem3 \<leftarrow> upd_node mem2 a (\<lambda>nd. nd\<lparr>n_cell := Some src\<rparr>);
        Some (ll\<lparr>ll_first := fst', ll_last := Some a, ll_len := ll_len ll + 1,
                 ll_mem := mem3, ll_brk := a + 1\<rparr>)
      })"

definition ll_copy_out :: "'a ll_node \<Rightarrow> bool \<Rightarrow> 'a option option" where
  "ll_copy_out nd dest =
     (if dest then (case n_cell nd of None \<Rightarrow> None | Some x \<Rightarrow> Some (Some x)) else Some None)"

definition ll_pop :: "'a linked_list_t \<Rightarrow> bool \<Rightarrow> ('a option \<times> 'a linked_list_t) option" where
  "ll_pop ll dest =
     (if ll_len ll = 0 then Some (None, ll)
      else do {
        a \<leftarrow> ll_last ll;
        nd \<leftarrow> ll_mem ll a;
        out \<leftarrow> ll_copy_out nd dest;
        (mem1, fst') \<leftarrow> (case n_prev nd of
            Some l \<Rightarrow> do { m \<leftarrow> upd_node (ll_mem ll) l (\<lambda>n. n\<lparr>n_next := None\<rparr>); Some (m, ll_first ll) }
          | None \<Rightarrow> Some (ll_mem ll, None));
        Some (out, ll\<lparr>ll_last := n_prev nd, ll_first := fst', ll_len := ll_len ll - 1,
                      ll_mem := mem1(a := None)\<rparr>)
      })"

definition ll_poll :: "'a linked_list_t \<Rightarrow> bool \<Rightarrow> ('a option \<times> 'a linked_list_t) option" where
  "ll_poll ll dest =
     (if ll_len ll = 0 then Some (None, ll)
      else do {
        a \<leftarrow> ll_first ll;
        nd \<leftarrow> ll_mem ll a;
        out \<leftarrow> ll_copy_out nd dest;
        (mem1, lst') \<leftarrow> (case n_next nd of
            Some f \<Rightarrow> do { m \<leftarrow> upd_node (ll_mem ll) f (\<lambda>n. n\<lparr>n_prev := None\<rparr>); Some (m, ll_last ll) }
          | None \<Rightarrow> Some (ll_mem ll, None));
        Some (out, ll\<lparr>ll_first := n_next nd, ll_last := lst', ll_len := ll_len ll - 1,
                      ll_mem := mem1(a := None)\<rparr>)
      })"

definition ll_reset_iterator :: "'a linked_list_t \<Rightarrow> 'a linked_list_t" where
  "ll_reset_iterator ll = ll\<lparr>ll_iter := ll_first ll\<rparr>"

definition ll_next :: "'a linked_list_t \<Rightarrow> ('a option \<times> 'a linked_list_t) option" where
  "ll_next ll =
     (case ll_iter ll of
        None \<Rightarrow> Some (None, ll)
      | Some a \<Rightarrow> do { nd \<leftarrow> ll_mem ll a; x \<leftarrow> n_cell nd; Some (Some x, ll\<lparr>ll_iter := n_next nd\<rparr>) })"

section \<open>Representation\<close>

text \<open>\<open>as\<close> are the addresses of the nodes from first to last, \<open>xs\<close> their cells.\<close>

definition ptr :: "nat list \<Rightarrow> nat \<Rightarrow> nat option" where
  "ptr as i = (if i < length as then Some (as ! i) else None)"

definition node :: "nat list \<Rightarrow> 'a list \<Rightarrow> nat \<Rightarrow> 'a ll_node" where
  "node as xs i =
     \<lparr>n_prev = (if i = 0 then None else Some (as ! (i - 1))), n_next = ptr as (Suc i),
      n_cell = Some (xs ! i)\<rparr>"

definition ll_rep :: "'a linked_list_t \<Rightarrow> nat list \<Rightarrow> 'a list \<Rightarrow> bool" where [inv_defs]:
  "ll_rep ll as xs \<longleftrightarrow>
     0 < ll_cell_size ll \<and> distinct as \<and> length as = ll_len ll \<and> length xs = ll_len ll \<and>
     dom (ll_mem ll) = set as \<and> (\<forall>a \<in> set as. a < ll_brk ll) \<and>
     (\<forall>i < ll_len ll. ll_mem ll (as ! i) = Some (node as xs i)) \<and>
     ll_first ll = ptr as 0 \<and>
     ll_last ll = (if as = [] then None else Some (last as))"

definition ll_inv :: "'a linked_list_t \<Rightarrow> bool" where [inv_defs]:
  "ll_inv ll \<longleftrightarrow> (\<exists>as xs. ll_rep ll as xs)"

definition ll_iterating :: "'a linked_list_t \<Rightarrow> bool" where [inv_defs]:
  "ll_iterating ll \<longleftrightarrow> (\<exists>as xs i. ll_rep ll as xs \<and> i \<le> ll_len ll \<and> ll_iter ll = ptr as i)"

fun ll_walk :: "(nat \<rightharpoonup> 'a ll_node) \<Rightarrow> nat \<Rightarrow> nat option \<Rightarrow> 'a list" where
  "ll_walk mem 0 p = []"
| "ll_walk mem (Suc n) p =
     (case p of None \<Rightarrow> []
      | Some a \<Rightarrow> (case mem a of None \<Rightarrow> []
         | Some nd \<Rightarrow> the (n_cell nd) # ll_walk mem n (n_next nd)))"

definition ll_list :: "'a linked_list_t \<Rightarrow> 'a list" where
  "ll_list ll = ll_walk (ll_mem ll) (ll_len ll) (ll_first ll)"

definition ll_remaining :: "'a linked_list_t \<Rightarrow> 'a list" where
  "ll_remaining ll = ll_walk (ll_mem ll) (ll_len ll) (ll_iter ll)"

lemma ptr_in: "i < length as \<Longrightarrow> ptr as i = Some (as ! i)"
  by (simp add: ptr_def)

lemma ptr_out: "length as \<le> i \<Longrightarrow> ptr as i = None"
  by (simp add: ptr_def)

lemma node_sel [simp]:
  "n_next (node as xs i) = ptr as (Suc i)" "n_cell (node as xs i) = Some (xs ! i)"
  "n_prev (node as xs i) = (if i = 0 then None else Some (as ! (i - 1)))"
  by (simp_all add: node_def)

lemma ll_rep_len: "ll_rep ll as xs \<Longrightarrow> length as = ll_len ll \<and> length xs = ll_len ll"
  by (simp add: ll_rep_def)

lemma ll_rep_node: "ll_rep ll as xs \<Longrightarrow> i < ll_len ll \<Longrightarrow> ll_mem ll (as ! i) = Some (node as xs i)"
  by (simp add: ll_rep_def)

lemma ll_walk_rep:
  assumes "ll_rep ll as xs"
  shows "ll_len ll \<le> i + n \<Longrightarrow> ll_walk (ll_mem ll) n (ptr as i) = drop i xs"
proof (induction n arbitrary: i)
  case 0
  with ll_rep_len [OF assms] show ?case by simp
next
  case (Suc n)
  show ?case
  proof (cases "i < ll_len ll")
    case True
    with ll_rep_len [OF assms] ll_rep_node [OF assms True] Suc.IH [of "Suc i"] Suc.prems
    show ?thesis by (simp add: ptr_in Cons_nth_drop_Suc)
  next
    case False
    with ll_rep_len [OF assms] show ?thesis by (simp add: ptr_out)
  qed
qed

lemma ll_list_rep: "ll_rep ll as xs \<Longrightarrow> ll_list ll = xs"
  using ll_walk_rep [of ll as xs 0 "ll_len ll"] by (simp add: ll_list_def ll_rep_def)

lemma ll_remaining_rep:
  "ll_rep ll as xs \<Longrightarrow> ll_iter ll = ptr as i \<Longrightarrow> ll_remaining ll = drop i xs"
  using ll_walk_rep [of ll as xs i "ll_len ll"] by (simp add: ll_remaining_def)

lemma ll_inv_list: "ll_inv ll \<Longrightarrow> length (ll_list ll) = ll_len ll"
  unfolding ll_inv_def using ll_list_rep ll_rep_len by blast

lemma new_linked_list_correct:
  assumes "new_linked_list junk cs = Some ll"
  shows "ll_inv ll \<and> ll_list ll = []"
proof -
  have "ll_rep ll [] []"
    using assms by (auto simp: new_linked_list_def ll_rep_def ptr_def split: if_splits)
  then show ?thesis using ll_list_rep unfolding ll_inv_def by blast
qed

section \<open>The operations keep the representation\<close>

lemma node_snoc:
  "length as = length xs \<Longrightarrow> Suc i < length as \<Longrightarrow> node (as @ [a]) (xs @ [x]) i = node as xs i"
  by (auto simp: node_def ptr_def nth_append)

lemma node_snoc_last:
  "length as = length xs \<Longrightarrow> Suc i = length as \<Longrightarrow>
   node (as @ [a]) (xs @ [x]) i = (node as xs i)\<lparr>n_next := Some a\<rparr>"
  by (auto simp: node_def ptr_def nth_append)

lemma node_snoc_new:
  "length as = length xs \<Longrightarrow>
   node (as @ [a]) (xs @ [x]) (length as) =
     \<lparr>n_prev = (if as = [] then None else Some (last as)), n_next = None, n_cell = Some x\<rparr>"
  by (auto simp: node_def ptr_def nth_append last_conv_nth)

lemma node_butlast_last:
  "length as = length xs \<Longrightarrow> Suc i = length as \<Longrightarrow>
   node as xs i = (node (as @ [a]) (xs @ [x]) i)\<lparr>n_next := None\<rparr>"
  by (auto simp: node_def ptr_def nth_append)

lemma node_tl:
  "0 < i \<Longrightarrow> node (a # as) (x # xs) (Suc i) = node as xs i"
  by (auto simp: node_def ptr_def)

lemma node_tl_first:
  "node as xs 0 = (node (a # as) (x # xs) (Suc 0))\<lparr>n_prev := None\<rparr>"
  by (auto simp: node_def ptr_def)

lemma dom_singleton_upd: "dom m = {a} \<Longrightarrow> m(a := None) = Map.empty"
  by (auto simp: fun_eq_iff dom_def)

lemma ll_push_rep:
  assumes rep: "ll_rep ll as xs"
  shows "\<exists>ll'. ll_push ll x = Some ll' \<and> ll_rep ll' (as @ [ll_brk ll]) (xs @ [x])"
proof -
  let ?a = "ll_brk ll" and ?n = "ll_len ll"
  note len = ll_rep_len [OF rep]
  define new where "new = \<lparr>n_prev = ll_last ll, n_next = None, n_cell = Some x\<rparr>"
  have fresh: "b \<noteq> ?a" if "b \<in> set as" for b
    using that rep by (auto simp: ll_rep_def)
  have new_last: "node (as @ [?a]) (xs @ [x]) ?n = new"
    using node_snoc_new [of as xs ?a x] len rep by (simp add: new_def ll_rep_def)
  show ?thesis
  proof (cases "as = []")
    case True
    with rep have e: "ll_last ll = None" "ll_mem ll = Map.empty" "?n = 0" "xs = []"
      by (auto simp: ll_rep_def)
    define ll' where "ll' = ll\<lparr>ll_first := Some ?a, ll_last := Some ?a, ll_len := 1,
      ll_mem := [?a \<mapsto> new], ll_brk := ?a + 1\<rparr>"
    have "ll_push ll x = Some ll'"
      using e by (simp add: ll_push_def upd_node_def Let_def ll'_def new_def)
    moreover have "ll_rep ll' (as @ [?a]) (xs @ [x])"
      using rep True e by (simp add: ll_rep_def ll'_def new_def node_def ptr_def)
    ultimately show ?thesis by blast
  next
    case False
    then obtain m where m: "?n = Suc m" and last: "last as = as ! m"
      using len by (cases ?n) (auto simp: last_conv_nth)
    define mem' where
      "mem' = (ll_mem ll)(as ! m \<mapsto> (node as xs m)\<lparr>n_next := Some ?a\<rparr>, ?a \<mapsto> new)"
    have l: "ll_last ll = Some (as ! m)" using rep False last by (simp add: ll_rep_def)
    have am: "as ! m \<noteq> ?a" using fresh [of "as ! m"] len m by simp
    have "ll_push ll x = Some (ll\<lparr>ll_last := Some ?a, ll_len := ?n + 1, ll_mem := mem', ll_brk := ?a + 1\<rparr>)"
      using ll_rep_node [OF rep, of m] m l am
      by (simp add: ll_push_def upd_node_def Let_def mem'_def new_def fun_upd_twist)
    moreover have "ll_rep (ll\<lparr>ll_last := Some ?a, ll_len := ?n + 1, ll_mem := mem', ll_brk := ?a + 1\<rparr>)
        (as @ [?a]) (xs @ [x])"
    proof -
      have "mem' ((as @ [?a]) ! i) = Some (node (as @ [?a]) (xs @ [x]) i)" if lt: "i < Suc ?n" for i
      proof -
        consider "i < m" | "i = m" | "i = ?n" using lt m by linarith
        then show ?thesis
        proof cases
          case 1
          then have "as ! i \<noteq> as ! m" "as ! i \<noteq> ?a" "(as @ [?a]) ! i = as ! i"
            using rep m len fresh [of "as ! i"] by (auto simp: ll_rep_def nth_append nth_eq_iff_index_eq)
          with 1 show ?thesis
            using ll_rep_node [OF rep, of i] node_snoc [of as xs i ?a x] len m by (simp add: mem'_def)
        next
          case 2
          have "length as = length xs" "Suc m = length as" using len m by simp_all
          from node_snoc_last [OF this, of ?a x] 2 am show ?thesis
            using len m by (simp add: mem'_def nth_append)
        next
          case 3
          then show ?thesis using new_last len by (simp add: mem'_def nth_append)
        qed
      qed
      moreover have "dom mem' = insert ?a (set as)"
        using rep len m by (auto simp: mem'_def ll_rep_def)
      ultimately show ?thesis
        using rep False fresh by (auto simp: ll_rep_def ptr_def nth_append less_Suc_eq)
    qed
    ultimately show ?thesis by blast
  qed
qed

lemma ll_rep_copy_out: "ll_copy_out (node as xs i) dest = Some (if dest then Some (xs ! i) else None)"
  by (simp add: ll_copy_out_def)

lemma ll_pop_rep:
  assumes rep: "ll_rep ll (as @ [a]) (xs @ [x])"
  shows "\<exists>ll'. ll_pop ll dest = Some (if dest then Some x else None, ll') \<and> ll_rep ll' as xs"
proof -
  note len = ll_rep_len [OF rep]
  have n: "ll_len ll = Suc (length as)" and lx: "length xs = length as" using len by auto
  have nd: "ll_mem ll a = Some (node (as @ [a]) (xs @ [x]) (length as))"
    using ll_rep_node [OF rep, of "length as"] n by simp
  have out: "ll_copy_out (node (as @ [a]) (xs @ [x]) (length as)) dest =
      Some (if dest then Some x else None)"
    using lx by (simp add: ll_rep_copy_out nth_append)
  have la: "ll_last ll = Some a" using rep by (simp add: ll_rep_def)
  have dist: "distinct as" "a \<notin> set as" and dm: "dom (ll_mem ll) = insert a (set as)"
    using rep by (simp_all add: ll_rep_def)
  show ?thesis
  proof (cases "as = []")
    case True
    with rep n lx nd out la show ?thesis
      by (auto simp: ll_pop_def ll_rep_def ptr_def dom_singleton_upd)
  next
    case False
    then obtain m where m: "length as = Suc m" by (cases "length as") auto
    let ?l = "as ! m"
    have la': "?l \<noteq> a" "?l \<in> set as" "last as = ?l"
      using dist(2) m False nth_mem [of m as] last_conv_nth [of as] by auto
    define mem' where
      "mem' = (ll_mem ll)(?l \<mapsto> (node (as @ [a]) (xs @ [x]) m)\<lparr>n_next := None\<rparr>, a := None)"
    define ll' where "ll' = ll\<lparr>ll_last := Some ?l, ll_len := length as, ll_mem := mem'\<rparr>"
    have "ll_mem ll ?l = Some (node (as @ [a]) (xs @ [x]) m)"
      using ll_rep_node [OF rep, of m] n m by (simp add: nth_append)
    moreover have "n_prev (node (as @ [a]) (xs @ [x]) (length as)) = Some ?l"
      using m by (simp add: nth_append)
    ultimately have "ll_pop ll dest = Some (if dest then Some x else None, ll')"
      using n nd out la by (simp add: ll_pop_def upd_node_def ll'_def mem'_def)
    moreover have "ll_rep ll' as xs"
    proof -
      have "mem' (as ! i) = Some (node as xs i)" if "i < length as" for i
      proof (cases "i = m")
        case True
        then show ?thesis
          using node_butlast_last [OF lx [symmetric] m [symmetric], of a x] la'(1) by (simp add: mem'_def)
      next
        case False
        with that m have i: "Suc i < length as" by simp
        have "as ! i \<noteq> ?l"
          using nth_eq_iff_index_eq [of as i m] dist(1) i m by simp
        moreover have "as ! i \<noteq> a"
          using dist(2) nth_mem [of i as] i by (metis Suc_lessD)
        ultimately show ?thesis
          using ll_rep_node [OF rep, of i] n i node_snoc [of as xs i a x] lx
          by (simp add: mem'_def nth_append)
      qed
      moreover have "dom mem' = set as"
        using dist(2) la'(2) dm by (simp add: mem'_def insert_absorb)
      moreover have "ll_first ll = ptr as 0"
        using rep False by (simp add: ll_rep_def ptr_def nth_append)
      ultimately show ?thesis
        using rep la' False lx dist(1) by (simp add: ll_rep_def ll'_def)
    qed
    ultimately show ?thesis by blast
  qed
qed

lemma ll_poll_rep:
  assumes rep: "ll_rep ll (a # as) (x # xs)"
  shows "\<exists>ll'. ll_poll ll dest = Some (if dest then Some x else None, ll') \<and> ll_rep ll' as xs"
proof -
  note len = ll_rep_len [OF rep]
  have n: "ll_len ll = Suc (length as)" and lx: "length xs = length as" using len by auto
  have nd: "ll_mem ll a = Some (node (a # as) (x # xs) 0)"
    using ll_rep_node [OF rep, of 0] n by simp
  have out: "ll_copy_out (node (a # as) (x # xs) 0) dest = Some (if dest then Some x else None)"
    by (simp add: ll_rep_copy_out)
  have la: "ll_first ll = Some a" using rep by (simp add: ll_rep_def ptr_def)
  have dist: "distinct as" "a \<notin> set as" and dm: "dom (ll_mem ll) = insert a (set as)"
    using rep by (simp_all add: ll_rep_def)
  show ?thesis
  proof (cases "as = []")
    case True
    with rep n lx nd out la show ?thesis
      by (auto simp: ll_poll_def ll_rep_def ptr_def dom_singleton_upd)
  next
    case False
    let ?f = "as ! 0"
    have la': "?f \<noteq> a" "?f \<in> set as" "0 < length as"
      using dist False nth_mem [of 0 as] by auto
    define mem' where
      "mem' = (ll_mem ll)(?f \<mapsto> (node (a # as) (x # xs) (Suc 0))\<lparr>n_prev := None\<rparr>, a := None)"
    define ll' where "ll' = ll\<lparr>ll_first := Some ?f, ll_len := length as, ll_mem := mem'\<rparr>"
    have "ll_mem ll ?f = Some (node (a # as) (x # xs) (Suc 0))"
      using ll_rep_node [OF rep, of "Suc 0"] n la' by simp
    moreover have "n_next (node (a # as) (x # xs) 0) = Some ?f"
      using la' by (simp add: ptr_def)
    ultimately have "ll_poll ll dest = Some (if dest then Some x else None, ll')"
      using n nd out la by (simp add: ll_poll_def upd_node_def ll'_def mem'_def)
    moreover have "ll_rep ll' as xs"
    proof -
      have "mem' (as ! i) = Some (node as xs i)" if "i < length as" for i
      proof (cases "i = 0")
        case True
        then show ?thesis
          using node_tl_first [of as xs a x] la' by (simp add: mem'_def)
      next
        case False
        have "as ! i \<noteq> ?f"
          using nth_eq_iff_index_eq [of as i 0] dist(1) that la'(3) False by simp
        moreover have "as ! i \<noteq> a"
          using dist(2) nth_mem [OF that] by metis
        ultimately show ?thesis
          using ll_rep_node [OF rep, of "Suc i"] n that False node_tl [of i a as x xs]
          by (simp add: mem'_def)
      qed
      moreover have "dom mem' = set as"
        using dist(2) la'(2) dm by (simp add: mem'_def insert_absorb)
      moreover have "ll_last ll = Some (last as)"
        using rep False by (simp add: ll_rep_def)
      ultimately show ?thesis
        using rep la' False lx dist(1) by (simp add: ll_rep_def ll'_def ptr_def)
    qed
    ultimately show ?thesis by blast
  qed
qed

section \<open>Contracts\<close>

lemma ll_rep_inv: "ll_rep ll as xs \<Longrightarrow> ll_inv ll \<and> ll_list ll = xs"
  using ll_list_rep unfolding ll_inv_def by blast

lemma ll_repE:
  assumes "ll_inv ll" obtains as where "ll_rep ll as (ll_list ll)"
  using assms ll_list_rep unfolding ll_inv_def by blast

lemma ll_push_ok:
  assumes "ll_inv ll"
  shows "\<exists>ll'. ll_push ll x = Some ll' \<and> ll_inv ll' \<and> ll_list ll' = ll_list ll @ [x]"
proof -
  obtain as where "ll_rep ll as (ll_list ll)" using assms by (rule ll_repE)
  from ll_push_rep [OF this, of x] show ?thesis using ll_rep_inv by blast
qed

lemma ll_pop_ok:
  assumes "ll_inv ll" "ll_list ll = xs @ [x]"
  shows "\<exists>ll'. ll_pop ll dest = Some (if dest then Some x else None, ll') \<and> ll_inv ll' \<and>
    ll_list ll' = xs"
proof -
  obtain as where rep: "ll_rep ll as (xs @ [x])" using assms by (metis ll_repE)
  then obtain bs b where "as = bs @ [b]"
    using ll_rep_len [OF rep] by (metis length_append_singleton length_Suc_conv_rev)
  with rep ll_pop_rep [of ll bs b xs x dest] show ?thesis using ll_rep_inv by blast
qed

lemma ll_poll_ok:
  assumes "ll_inv ll" "ll_list ll = x # xs"
  shows "\<exists>ll'. ll_poll ll dest = Some (if dest then Some x else None, ll') \<and> ll_inv ll' \<and>
    ll_list ll' = xs"
proof -
  obtain as where rep: "ll_rep ll as (x # xs)" using assms by (metis ll_repE)
  then obtain bs b where "as = b # bs"
    using ll_rep_len [OF rep] by (metis length_Cons length_Suc_conv)
  with rep ll_poll_rep [of ll b bs x xs dest] show ?thesis using ll_rep_inv by blast
qed

lemma ll_remove_empty:
  assumes "ll_inv ll" "ll_list ll = []"
  shows "ll_pop ll dest = Some (None, ll)" "ll_poll ll dest = Some (None, ll)"
  using ll_inv_list [OF assms(1)] assms(2) by (simp_all add: ll_pop_def ll_poll_def)

lemma ll_iterating_inv: "ll_iterating ll \<Longrightarrow> ll_inv ll"
  unfolding ll_iterating_def ll_inv_def by blast

lemma ll_reset_iterator_ok:
  assumes "ll_inv ll"
  shows "ll_iterating (ll_reset_iterator ll) \<and> ll_list (ll_reset_iterator ll) = ll_list ll \<and>
    ll_remaining (ll_reset_iterator ll) = ll_list ll"
proof -
  obtain as where rep: "ll_rep ll as (ll_list ll)" using assms by (rule ll_repE)
  let ?l = "ll_reset_iterator ll"
  have r: "ll_rep ?l as (ll_list ll)"
    using rep unfolding ll_rep_def by (simp add: ll_reset_iterator_def)
  moreover have i: "ll_iter ?l = ptr as 0"
    using rep by (simp add: ll_reset_iterator_def ll_rep_def)
  ultimately show ?thesis
    using ll_remaining_rep [OF r i] ll_list_rep [OF r] unfolding ll_iterating_def by auto
qed

lemma ll_next_end: "ll_iterating ll \<Longrightarrow> ll_remaining ll = [] \<Longrightarrow> ll_next ll = Some (None, ll)"
proof -
  assume it: "ll_iterating ll" and rem: "ll_remaining ll = []"
  then obtain as xs i where r: "ll_rep ll as xs" "i \<le> ll_len ll" "ll_iter ll = ptr as i"
    unfolding ll_iterating_def by blast
  with rem ll_remaining_rep [OF r(1,3)] ll_rep_len [OF r(1)] have "ll_iter ll = None"
    by (simp add: ptr_def)
  then show ?thesis by (simp add: ll_next_def)
qed

lemma ll_next_more:
  assumes "ll_iterating ll" "ll_remaining ll = x # xs"
  shows "\<exists>ll'. ll_next ll = Some (Some x, ll') \<and> ll_iterating ll' \<and> ll_list ll' = ll_list ll \<and>
    ll_remaining ll' = xs"
proof -
  obtain as ys i where r: "ll_rep ll as ys" "i \<le> ll_len ll" "ll_iter ll = ptr as i"
    using assms(1) unfolding ll_iterating_def by blast
  note len = ll_rep_len [OF r(1)]
  have d: "drop i ys = x # xs" using assms(2) ll_remaining_rep [OF r(1,3)] by simp
  then have i: "i < ll_len ll" using len by (metis drop_all linorder_not_less list.distinct(1))
  have "drop i ys = ys ! i # drop (Suc i) ys" using i len by (simp add: Cons_nth_drop_Suc)
  with d have yi: "ys ! i = x" "drop (Suc i) ys = xs" by simp_all
  define ll' where "ll' = ll\<lparr>ll_iter := ptr as (Suc i)\<rparr>"
  have r': "ll_rep ll' as ys" using r(1) unfolding ll_rep_def by (simp add: ll'_def)
  have it': "ll_iter ll' = ptr as (Suc i)" by (simp add: ll'_def)
  have "ll_next ll = Some (Some x, ll')"
    using r(3) i len ll_rep_node [OF r(1) i] yi by (simp add: ll_next_def ptr_in ll'_def)
  moreover have "ll_iterating ll'"
    using r' it' i unfolding ll_iterating_def ll'_def by (auto intro!: exI [of _ "Suc i"])
  ultimately show ?thesis
    using ll_remaining_rep [OF r' it'] ll_list_rep [OF r'] ll_list_rep [OF r(1)] yi by simp
qed

section \<open>The loops\<close>

lemma ll_copy_loop_rep:
  assumes rep: "ll_rep ll as xs"
  shows "i \<le> ll_len ll \<Longrightarrow> length res = ll_len ll \<Longrightarrow>
    ll_copy_loop (ll_mem ll) (ptr as i) i res = Some (take i res @ map Some (drop i xs))"
proof (induction "ll_len ll - i" arbitrary: i res)
  case 0
  then show ?case
    using ll_rep_len [OF rep] by (simp add: ptr_out ll_copy_loop.simps)
next
  case (Suc k)
  then have i: "i < ll_len ll" by simp
  note len = ll_rep_len [OF rep]
  have "ll_copy_loop (ll_mem ll) (ptr as i) i res =
      ll_copy_loop (ll_mem ll) (ptr as (Suc i)) (Suc i) (res[i := Some (xs ! i)])"
    using i len ll_rep_node [OF rep i] Suc.prems(2)
    by (subst ll_copy_loop.simps) (simp add: ptr_in)
  also have "\<dots> = Some (take (Suc i) (res[i := Some (xs ! i)]) @ map Some (drop (Suc i) xs))"
    using Suc.hyps(1) [of "Suc i" "res[i := Some (xs ! i)]"] Suc.hyps(2) Suc.prems i by simp
  also have "\<dots> = Some (take i res @ map Some (drop i xs))"
    using i len Suc.prems(2) Cons_nth_drop_Suc [of i xs]
    by (simp add: take_Suc_conv_app_nth flip: list.map(2))
  finally show ?case .
qed

lemma ll_free_loop_rep:
  "length as = n \<Longrightarrow> distinct as \<Longrightarrow> i \<le> n \<Longrightarrow>
   (\<And>j. i \<le> j \<Longrightarrow> j < n \<Longrightarrow> mem (as ! j) = Some (node as xs j)) \<Longrightarrow>
   ll_free_loop mem (ptr as i) = Some (\<lambda>a. if a \<in> set (drop i as) then None else mem a)"
proof (induction "n - i" arbitrary: i mem)
  case 0
  then show ?case by (simp add: ptr_out ll_free_loop.simps)
next
  case (Suc k)
  then have i: "i < n" by simp
  have other: "(mem(as ! i := None)) (as ! j) = Some (node as xs j)" if "Suc i \<le> j" "j < n" for j
    using that i Suc.prems nth_eq_iff_index_eq [of as j i] by simp
  have "ll_free_loop mem (ptr as i) = ll_free_loop (mem(as ! i := None)) (ptr as (Suc i))"
    using i Suc.prems by (subst ll_free_loop.simps) (simp add: ptr_in)
  also have "\<dots> = Some (\<lambda>a. if a \<in> set (drop (Suc i) as) then None else (mem(as ! i := None)) a)"
    using Suc.hyps(1) [of "Suc i" "mem(as ! i := None)"] Suc.hyps(2) Suc.prems i other by simp
  also have "\<dots> = Some (\<lambda>a. if a \<in> set (drop i as) then None else mem a)"
    using i Suc.prems by (auto simp: Cons_nth_drop_Suc [symmetric] fun_eq_iff)
  finally show ?case .
qed

lemma ll_delete_frees_all:
  assumes "ll_inv ll"
  shows "delete_linked_list ll = Some Map.empty"
proof -
  obtain as where rep: "ll_rep ll as (ll_list ll)" using assms by (rule ll_repE)
  have "delete_linked_list ll = ll_free_loop (ll_mem ll) (ptr as 0)"
    using rep by (simp add: delete_linked_list_def ll_rep_def)
  also have "\<dots> = Some (\<lambda>a. if a \<in> set (drop 0 as) then None else ll_mem ll a)"
    by (rule ll_free_loop_rep [where n = "ll_len ll" and xs = "ll_list ll"])
      (use rep in \<open>auto simp: ll_rep_def\<close>)
  also have "\<dots> = Some Map.empty"
    using rep by (auto simp: ll_rep_def fun_eq_iff dom_def)
  finally show ?thesis .
qed

lemma ll_move_out:
  assumes "ll_inv ll"
  shows "delete_and_move_linked_list ll =
    Some (if ll_list ll = [] then None else Some (map Some (ll_list ll)), Map.empty)"
proof -
  obtain as where rep: "ll_rep ll as (ll_list ll)" using assms by (rule ll_repE)
  have "ll_copy_loop (ll_mem ll) (ll_first ll) 0 (replicate (ll_len ll) None) =
      Some (map Some (ll_list ll))"
    using ll_copy_loop_rep [OF rep, of 0] rep by (simp add: ll_rep_def)
  then show ?thesis
    using ll_inv_list [OF assms] ll_delete_frees_all [OF assms]
    by (cases "ll_list ll") (auto simp: delete_and_move_linked_list_def)
qed

text \<open>The loop of \<open>ll_get\<close> never advances, whatever the index.\<close>

lemma ll_get_head: "ll_get ll i = Some (ll_first ll)"
  unfolding ll_get_def by (subst ll_get_loop.simps) (simp split: option.split)

lemma ll_get_copy_head:
  assumes "ll_inv ll" "ll_list ll = x # xs"
  shows "ll_get_copy ll i = Some x"
proof -
  obtain as where rep: "ll_rep ll as (x # xs)" using assms by (metis ll_repE)
  then have "0 < ll_len ll" "ll_first ll = Some (as ! 0)"
    using ll_rep_len [OF rep] by (auto simp: ll_rep_def ptr_def)
  then show ?thesis
    using ll_rep_node [OF rep, of 0] by (simp add: ll_get_copy_def ll_get_head)
qed

end
