(* ===== verification/Chutil_List.thy ===== *)
theory Chutil_List
  imports Chutil_Array_List Chutil_Linked_List
begin

text \<open>
  The abstract list of \<open>chutil/include/chutil/list.h\<close>: \<open>list_impl_t\<close> is the table of
  functions an implementation provides, \<open>list_t\<close> pairs a state with its table, and every
  \<open>l_...\<close> operation dispatches through it.  The locale \<open>list_seq\<close> states what clients rely
  on; the array list and the linked list are its two interpretations.  \<open>list_at\<close> adds
  indexing, which only the array list satisfies.  \<open>l_equals\<close> (\<open>chutil/src/list_helpers.c\<close>) is
  a client of two lists, verified once for every pair of implementations.
\<close>

section \<open>Implementation tables and dispatch\<close>

record ('s, 'a) list_impl_t =
  i_constructor :: "nat \<Rightarrow> 's option"
  i_destructor :: "'s \<Rightarrow> unit option"
  i_move_destructor :: "'s \<Rightarrow> 'a option list option option"
  i_len :: "'s \<Rightarrow> nat"
  i_cell_size :: "'s \<Rightarrow> nat"
  i_get :: "'s \<Rightarrow> nat \<Rightarrow> 'a option option"
  i_get_copy :: "'s \<Rightarrow> nat \<Rightarrow> 'a option"
  i_set :: "'s \<Rightarrow> nat \<Rightarrow> 'a \<Rightarrow> 's option"
  i_push :: "'s \<Rightarrow> 'a \<Rightarrow> 's option"
  i_pop :: "'s \<Rightarrow> bool \<Rightarrow> ('a option \<times> 's) option"
  i_poll :: "'s \<Rightarrow> bool \<Rightarrow> ('a option \<times> 's) option"
  i_reset_iterator :: "'s \<Rightarrow> 's"
  i_next :: "'s \<Rightarrow> ('a option \<times> 's) option"

record ('s, 'a) list_t =
  l_list :: "'s option"
  l_impl :: "('s, 'a) list_impl_t"

text \<open>
  The two tables.  Their parameter is the uninitialised iterator field of the constructor.
  \<open>get\<close> is the cell behind the returned pointer, \<open>Some None\<close> for NULL.
\<close>

definition ARRAY_LIST_IMPL :: "nat \<Rightarrow> ('a array_list_t, 'a) list_impl_t" where
  "ARRAY_LIST_IMPL junk =
     \<lparr>i_constructor = new_array_list junk,
      i_destructor = (\<lambda>al. Some ()),
      i_move_destructor = delete_and_move_array_list,
      i_len = al_len,
      i_cell_size = al_cell_size,
      i_get = (\<lambda>al i. map_option Some (al_get al i)),
      i_get_copy = al_get,
      i_set = al_set,
      i_push = al_push,
      i_pop = al_pop,
      i_poll = al_poll,
      i_reset_iterator = al_reset_iterator,
      i_next = al_next\<rparr>"

definition LINKED_LIST_IMPL :: "nat option \<Rightarrow> ('a linked_list_t, 'a) list_impl_t" where
  "LINKED_LIST_IMPL junk =
     \<lparr>i_constructor = new_linked_list junk,
      i_destructor = (\<lambda>ll. map_option (\<lambda>m. ()) (delete_linked_list ll)),
      i_move_destructor = (\<lambda>ll. map_option fst (delete_and_move_linked_list ll)),
      i_len = ll_len,
      i_cell_size = ll_cell_size,
      i_get = (\<lambda>ll i. do { p \<leftarrow> ll_get ll i;
                 (case p of None \<Rightarrow> Some None | Some a \<Rightarrow> map_option Some (ll_get_copy ll i)) }),
      i_get_copy = ll_get_copy,
      i_set = ll_set,
      i_push = ll_push,
      i_pop = ll_pop,
      i_poll = ll_poll,
      i_reset_iterator = ll_reset_iterator,
      i_next = ll_next\<rparr>"

text \<open>\<open>new_list\<close> does not check the constructor's result, which is NULL for cell size 0.\<close>

definition new_list :: "('s, 'a) list_impl_t \<Rightarrow> nat \<Rightarrow> ('s, 'a) list_t" where
  "new_list impl cs = \<lparr>l_list = i_constructor impl cs, l_impl = impl\<rparr>"

definition delete_list :: "('s, 'a) list_t \<Rightarrow> unit option" where
  "delete_list l = do { s \<leftarrow> l_list l; i_destructor (l_impl l) s }"

definition delete_and_move_list :: "('s, 'a) list_t \<Rightarrow> 'a option list option option" where
  "delete_and_move_list l = do { s \<leftarrow> l_list l; i_move_destructor (l_impl l) s }"

definition l_len :: "('s, 'a) list_t \<Rightarrow> nat option" where
  "l_len l = do { s \<leftarrow> l_list l; Some (i_len (l_impl l) s) }"

definition l_get :: "('s, 'a) list_t \<Rightarrow> nat \<Rightarrow> 'a option option" where
  "l_get l i = do { s \<leftarrow> l_list l; i_get (l_impl l) s i }"

definition l_set :: "('s, 'a) list_t \<Rightarrow> nat \<Rightarrow> 'a \<Rightarrow> ('s, 'a) list_t option" where
  "l_set l i src =
     do { s \<leftarrow> l_list l; s' \<leftarrow> i_set (l_impl l) s i src; Some (l\<lparr>l_list := Some s'\<rparr>) }"

definition l_push :: "('s, 'a) list_t \<Rightarrow> 'a \<Rightarrow> ('s, 'a) list_t option" where
  "l_push l src =
     do { s \<leftarrow> l_list l; s' \<leftarrow> i_push (l_impl l) s src; Some (l\<lparr>l_list := Some s'\<rparr>) }"

definition l_pop :: "('s, 'a) list_t \<Rightarrow> bool \<Rightarrow> ('a option \<times> ('s, 'a) list_t) option" where
  "l_pop l dest =
     do { s \<leftarrow> l_list l; (out, s') \<leftarrow> i_pop (l_impl l) s dest; Some (out, l\<lparr>l_list := Some s'\<rparr>) }"

definition l_poll :: "('s, 'a) list_t \<Rightarrow> bool \<Rightarrow> ('a option \<times> ('s, 'a) list_t) option" where
  "l_poll l dest =
     do { s \<leftarrow> l_list l; (out, s') \<leftarrow> i_poll (l_impl l) s dest; Some (out, l\<lparr>l_list := Some s'\<rparr>) }"

definition l_reset_iterator :: "('s, 'a) list_t \<Rightarrow> ('s, 'a) list_t option" where
  "l_reset_iterator l =
     do { s \<leftarrow> l_list l; Some (l\<lparr>l_list := Some (i_reset_iterator (l_impl l) s)\<rparr>) }"

definition l_next :: "('s, 'a) list_t \<Rightarrow> ('a option \<times> ('s, 'a) list_t) option" where
  "l_next l =
     do { s \<leftarrow> l_list l; (out, s') \<leftarrow> i_next (l_impl l) s; Some (out, l\<lparr>l_list := Some s'\<rparr>) }"

text \<open>
  \<open>l_equals\<close>, for two different list objects.  \<open>l_equals_same\<close> is the same code called with
  \<open>l1\<close> and \<open>l2\<close> the same object, so that both \<open>l_next\<close> calls move the one iterator.
\<close>

partial_function (option) l_equals_loop ::
    "('a \<Rightarrow> 'a \<Rightarrow> bool) \<Rightarrow> ('s, 'a) list_t \<Rightarrow> ('t, 'a) list_t \<Rightarrow>
     (bool \<times> ('s, 'a) list_t \<times> ('t, 'a) list_t) option" where
  "l_equals_loop eq l1 l2 =
     do { (c1, l1') \<leftarrow> l_next l1;
          (case c1 of None \<Rightarrow> Some (True, l1', l2)
           | Some x \<Rightarrow> do { (c2, l2') \<leftarrow> l_next l2;
               (case c2 of None \<Rightarrow> Some (True, l1', l2')
                | Some y \<Rightarrow> if eq x y then l_equals_loop eq l1' l2' else Some (False, l1', l2')) }) }"

definition l_equals ::
    "('a \<Rightarrow> 'a \<Rightarrow> bool) \<Rightarrow> ('s, 'a) list_t \<Rightarrow> ('t, 'a) list_t \<Rightarrow>
     (bool \<times> ('s, 'a) list_t \<times> ('t, 'a) list_t) option" where
  "l_equals eq l1 l2 =
     do { n1 \<leftarrow> l_len l1; n2 \<leftarrow> l_len l2;
          (if n1 \<noteq> n2 then Some (False, l1, l2)
           else do { l1' \<leftarrow> l_reset_iterator l1; l2' \<leftarrow> l_reset_iterator l2;
                     l_equals_loop eq l1' l2' }) }"

partial_function (option) l_equals_same_loop ::
    "('a \<Rightarrow> 'a \<Rightarrow> bool) \<Rightarrow> ('s, 'a) list_t \<Rightarrow> (bool \<times> ('s, 'a) list_t) option" where
  "l_equals_same_loop eq l =
     do { (c1, l') \<leftarrow> l_next l;
          (case c1 of None \<Rightarrow> Some (True, l')
           | Some x \<Rightarrow> do { (c2, l'') \<leftarrow> l_next l';
               (case c2 of None \<Rightarrow> Some (True, l'')
                | Some y \<Rightarrow> if eq x y then l_equals_same_loop eq l'' else Some (False, l'')) }) }"

definition l_equals_same ::
    "('a \<Rightarrow> 'a \<Rightarrow> bool) \<Rightarrow> ('s, 'a) list_t \<Rightarrow> (bool \<times> ('s, 'a) list_t) option" where
  "l_equals_same eq l =
     do { n \<leftarrow> l_len l; l' \<leftarrow> l_reset_iterator l; l'' \<leftarrow> l_reset_iterator l'; l_equals_same_loop eq l'' }"

section \<open>The contract of an implementation\<close>

locale list_seq =
  fixes impl :: "('s, 'a) list_impl_t"
    and inv :: "'s \<Rightarrow> bool" and contents :: "'s \<Rightarrow> 'a list"
    and iterating :: "'s \<Rightarrow> bool" and remaining :: "'s \<Rightarrow> 'a list"
  assumes construct_0: "i_constructor impl 0 = None"
    and construct: "0 < cs \<Longrightarrow> \<exists>s. i_constructor impl cs = Some s \<and> inv s \<and> contents s = []"
    and len: "inv s \<Longrightarrow> i_len impl s = length (contents s)"
    and push: "inv s \<Longrightarrow> \<exists>s'. i_push impl s x = Some s' \<and> inv s' \<and> contents s' = contents s @ [x]"
    and pop: "inv s \<Longrightarrow> contents s = xs @ [x] \<Longrightarrow>
      \<exists>s'. i_pop impl s dest = Some (if dest then Some x else None, s') \<and> inv s' \<and> contents s' = xs"
    and pop_empty: "inv s \<Longrightarrow> contents s = [] \<Longrightarrow> i_pop impl s dest = Some (None, s)"
    and poll: "inv s \<Longrightarrow> contents s = x # xs \<Longrightarrow>
      \<exists>s'. i_poll impl s dest = Some (if dest then Some x else None, s') \<and> inv s' \<and> contents s' = xs"
    and poll_empty: "inv s \<Longrightarrow> contents s = [] \<Longrightarrow> i_poll impl s dest = Some (None, s)"
    and iterating_inv: "iterating s \<Longrightarrow> inv s"
    and reset: "inv s \<Longrightarrow> iterating (i_reset_iterator impl s) \<and>
      contents (i_reset_iterator impl s) = contents s \<and>
      remaining (i_reset_iterator impl s) = contents s"
    and next_end: "iterating s \<Longrightarrow> remaining s = [] \<Longrightarrow> i_next impl s = Some (None, s)"
    and next_more: "iterating s \<Longrightarrow> remaining s = x # xs \<Longrightarrow>
      \<exists>s'. i_next impl s = Some (Some x, s') \<and> iterating s' \<and> contents s' = contents s \<and>
        remaining s' = xs"
    and move: "inv s \<Longrightarrow> i_move_destructor impl s =
      Some (if contents s = [] then None else Some (map Some (contents s)))"

text \<open>Client commands, their run through the dispatchers, and the list specification.\<close>

datatype 'a list_cmd = LPush 'a | LPop bool | LPoll bool | LLen

datatype 'a list_out = ODone | OCell "'a option" | OLen nat

fun list_step :: "('s, 'a) list_t \<Rightarrow> 'a list_cmd \<Rightarrow> ('a list_out \<times> ('s, 'a) list_t) option" where
  "list_step l (LPush x) = do { l' \<leftarrow> l_push l x; Some (ODone, l') }"
| "list_step l (LPop dest) = do { (out, l') \<leftarrow> l_pop l dest; Some (OCell out, l') }"
| "list_step l (LPoll dest) = do { (out, l') \<leftarrow> l_poll l dest; Some (OCell out, l') }"
| "list_step l LLen = do { n \<leftarrow> l_len l; Some (OLen n, l) }"

fun list_run :: "('s, 'a) list_t \<Rightarrow> 'a list_cmd list \<Rightarrow> ('a list_out list \<times> ('s, 'a) list_t) option" where
  "list_run l [] = Some ([], l)"
| "list_run l (c # cs) =
     do { (out, l') \<leftarrow> list_step l c; (outs, l'') \<leftarrow> list_run l' cs; Some (out # outs, l'') }"

fun spec_step :: "'a list \<Rightarrow> 'a list_cmd \<Rightarrow> 'a list_out \<times> 'a list" where
  "spec_step xs (LPush x) = (ODone, xs @ [x])"
| "spec_step xs (LPop dest) =
     (if xs = [] then (OCell None, []) else (OCell (if dest then Some (last xs) else None), butlast xs))"
| "spec_step xs (LPoll dest) =
     (if xs = [] then (OCell None, []) else (OCell (if dest then Some (hd xs) else None), tl xs))"
| "spec_step xs LLen = (OLen (length xs), xs)"

fun spec_list_run :: "'a list \<Rightarrow> 'a list_cmd list \<Rightarrow> 'a list_out list \<times> 'a list" where
  "spec_list_run xs [] = ([], xs)"
| "spec_list_run xs (c # cs) =
     (case spec_step xs c of (out, xs') \<Rightarrow>
        case spec_list_run xs' cs of (outs, xs'') \<Rightarrow> (out # outs, xs''))"

context list_seq begin

definition holds :: "('s, 'a) list_t \<Rightarrow> 'a list \<Rightarrow> bool" where
  "holds l xs \<longleftrightarrow> l_impl l = impl \<and> (\<exists>s. l_list l = Some s \<and> inv s \<and> contents s = xs)"

text \<open>The iterator has \<open>xs\<close> left of the contents \<open>all\<close>.\<close>

definition at_iter :: "('s, 'a) list_t \<Rightarrow> 'a list \<Rightarrow> 'a list \<Rightarrow> bool" where
  "at_iter l xs all \<longleftrightarrow> l_impl l = impl \<and>
     (\<exists>s. l_list l = Some s \<and> iterating s \<and> remaining s = xs \<and> contents s = all)"

lemma at_iter_holds: "at_iter l xs all \<Longrightarrow> holds l all"
  using iterating_inv by (auto simp: holds_def at_iter_def)

lemma new_holds: "0 < cs \<Longrightarrow> holds (new_list impl cs) []"
  using construct [of cs] by (auto simp: holds_def new_list_def)

lemma holds_step:
  assumes "holds l xs"
  shows "\<exists>l'. list_step l c = Some (fst (spec_step xs c), l') \<and> holds l' (snd (spec_step xs c))"
proof -
  obtain s where s: "l_impl l = impl" "l_list l = Some s" "inv s" "contents s = xs"
    using assms by (auto simp: holds_def)
  show ?thesis
  proof (cases c)
    case (LPush x)
    then show ?thesis using push [OF s(3), of x] s by (auto simp: l_push_def holds_def)
  next
    case (LPop dest)
    show ?thesis
    proof (cases xs rule: rev_cases)
      case Nil
      then show ?thesis using LPop pop_empty [OF s(3)] s by (auto simp: l_pop_def holds_def)
    next
      case (snoc ys y)
      then show ?thesis using LPop pop [OF s(3), of ys y dest] s by (auto simp: l_pop_def holds_def)
    qed
  next
    case (LPoll dest)
    show ?thesis
    proof (cases xs)
      case Nil
      then show ?thesis using LPoll poll_empty [OF s(3)] s by (auto simp: l_poll_def holds_def)
    next
      case (Cons y ys)
      then show ?thesis using LPoll poll [OF s(3), of y ys dest] s by (auto simp: l_poll_def holds_def)
    qed
  next
    case LLen
    then show ?thesis using len [OF s(3)] s by (auto simp: l_len_def holds_def)
  qed
qed

lemma holds_run:
  "holds l xs \<Longrightarrow>
   \<exists>l'. list_run l cs = Some (fst (spec_list_run xs cs), l') \<and> holds l' (snd (spec_list_run xs cs))"
proof (induction cs arbitrary: l xs)
  case (Cons c cs)
  obtain out ys where sp: "spec_step xs c = (out, ys)" by fastforce
  with holds_step [OF Cons.prems, of c] obtain l1 where
    l1: "list_step l c = Some (out, l1)" "holds l1 ys" by auto
  with Cons.IH [of l1 ys] sp show ?case by (auto split: prod.split)
qed simp

lemma at_iter_reset:
  "holds l xs \<Longrightarrow> \<exists>l'. l_reset_iterator l = Some l' \<and> at_iter l' xs xs"
  using reset by (auto simp: holds_def at_iter_def l_reset_iterator_def)

lemma at_iter_end: "at_iter l [] all \<Longrightarrow> l_next l = Some (None, l)"
  using next_end by (auto simp: at_iter_def l_next_def)

lemma at_iter_more:
  assumes "at_iter l (x # xs) all"
  shows "\<exists>l'. l_next l = Some (Some x, l') \<and> at_iter l' xs all"
proof -
  obtain s where s: "l_impl l = impl" "l_list l = Some s" "iterating s" "remaining s = x # xs"
    "contents s = all" using assms by (auto simp: at_iter_def)
  with next_more [OF s(3,4)] show ?thesis by (auto simp: at_iter_def l_next_def)
qed

lemma holds_len: "holds l xs \<Longrightarrow> l_len l = Some (length xs)"
  using len by (auto simp: holds_def l_len_def)

lemma holds_move:
  "holds l xs \<Longrightarrow>
   delete_and_move_list l = Some (if xs = [] then None else Some (map Some xs))"
  using move by (auto simp: holds_def delete_and_move_list_def)

lemma same_neq:
  assumes "holds l (x # y # xs)" "\<not> eq x y"
  shows "\<exists>l'. l_equals_same eq l = Some (False, l') \<and> holds l' (x # y # xs)"
proof -
  obtain l0 where l0: "l_reset_iterator l = Some l0" "at_iter l0 (x # y # xs) (x # y # xs)"
    using at_iter_reset [OF assms(1)] by blast
  obtain l1 where l1: "l_reset_iterator l0 = Some l1" "at_iter l1 (x # y # xs) (x # y # xs)"
    using at_iter_reset [OF at_iter_holds [OF l0(2)]] by blast
  obtain l2 where l2: "l_next l1 = Some (Some x, l2)" "at_iter l2 (y # xs) (x # y # xs)"
    using at_iter_more [OF l1(2)] by blast
  obtain l3 where l3: "l_next l2 = Some (Some y, l3)" "at_iter l3 xs (x # y # xs)"
    using at_iter_more [OF l2(2)] by blast
  have "l_equals_same eq l = Some (False, l3)"
    using holds_len [OF assms(1)] l0(1) l1(1) l2(1) l3(1) assms(2)
    by (simp add: l_equals_same_def l_equals_same_loop.simps)
  with at_iter_holds [OF l3(2)] show ?thesis by blast
qed

end

text \<open>Indexing, on top of the sequence operations.\<close>

locale list_at = list_seq +
  assumes get_at: "inv s \<Longrightarrow> i < length (contents s) \<Longrightarrow> i_get impl s i = Some (Some (contents s ! i))"
    and set_at: "inv s \<Longrightarrow> i < length (contents s) \<Longrightarrow>
      \<exists>s'. i_set impl s i x = Some s' \<and> inv s' \<and> contents s' = (contents s)[i := x]"

context list_at begin

lemma holds_get: "holds l xs \<Longrightarrow> i < length xs \<Longrightarrow> l_get l i = Some (Some (xs ! i))"
  using get_at by (auto simp: holds_def l_get_def)

lemma holds_set:
  "holds l xs \<Longrightarrow> i < length xs \<Longrightarrow> \<exists>l'. l_set l i x = Some l' \<and> holds l' (xs[i := x])"
  using set_at [of _ i x] by (fastforce simp: holds_def l_set_def)

lemma holds_get_set:
  assumes "holds l xs" "i < length xs" "j < length xs"
  shows "\<exists>l'. l_set l i x = Some l' \<and> l_get l' j = Some (Some (if j = i then x else xs ! j))"
proof -
  obtain l' where "l_set l i x = Some l'" "holds l' (xs[i := x])"
    using holds_set [OF assms(1,2)] by blast
  moreover from holds_get [OF this(2), of j] assms(3) have
    "l_get l' j = Some (Some (if j = i then x else xs ! j))" by (simp add: nth_list_update)
  ultimately show ?thesis by blast
qed

end

section \<open>Comparing two lists\<close>

locale list_pair =
  l: list_seq impl1 inv1 contents1 iterating1 remaining1 +
  r: list_seq impl2 inv2 contents2 iterating2 remaining2
  for impl1 :: "('s, 'a) list_impl_t" and inv1 contents1 iterating1 remaining1
    and impl2 :: "('t, 'a) list_impl_t" and inv2 contents2 iterating2 remaining2

context list_pair begin

lemma equals_loop:
  "l.at_iter l1 xs all1 \<Longrightarrow> r.at_iter l2 ys all2 \<Longrightarrow> length xs = length ys \<Longrightarrow>
   \<exists>l1' l2'. l_equals_loop eq l1 l2 = Some (list_all2 eq xs ys, l1', l2') \<and>
     l.holds l1' all1 \<and> r.holds l2' all2"
proof (induction xs arbitrary: l1 l2 ys)
  case Nil
  then have "l_equals_loop eq l1 l2 = Some (True, l1, l2)"
    using l.at_iter_end by (subst l_equals_loop.simps) simp
  with Nil show ?case using l.at_iter_holds r.at_iter_holds by auto
next
  case (Cons x xs)
  then obtain y ys' where ys: "ys = y # ys'" by (cases ys) auto
  obtain m1 where m1: "l_next l1 = Some (Some x, m1)" "l.at_iter m1 xs all1"
    using l.at_iter_more [OF Cons.prems(1)] by blast
  obtain m2 where m2: "l_next l2 = Some (Some y, m2)" "r.at_iter m2 ys' all2"
    using r.at_iter_more Cons.prems(2) ys by blast
  have "l_equals_loop eq l1 l2 =
      (if eq x y then l_equals_loop eq m1 m2 else Some (False, m1, m2))"
    using m1 m2 by (subst l_equals_loop.simps) simp
  with Cons.IH [OF m1(2) m2(2)] Cons.prems(3) ys l.at_iter_holds [OF m1(2)] r.at_iter_holds [OF m2(2)]
  show ?case by simp
qed

lemma equals:
  assumes "l.holds l1 xs" "r.holds l2 ys"
  shows "\<exists>l1' l2'. l_equals eq l1 l2 = Some (list_all2 eq xs ys, l1', l2') \<and>
    l.holds l1' xs \<and> r.holds l2' ys"
proof (cases "length xs = length ys")
  case True
  obtain m1 m2 where "l_reset_iterator l1 = Some m1" "l_reset_iterator l2 = Some m2"
    "l.at_iter m1 xs xs" "r.at_iter m2 ys ys"
    using l.at_iter_reset [OF assms(1)] r.at_iter_reset [OF assms(2)] by blast
  with True equals_loop show ?thesis
    by (simp add: l_equals_def l.holds_len [OF assms(1)] r.holds_len [OF assms(2)])
next
  case False
  then have "\<not> list_all2 eq xs ys" by (auto dest: list_all2_lengthD)
  with False assms show ?thesis
    by (simp add: l_equals_def l.holds_len [OF assms(1)] r.holds_len [OF assms(2)])
qed

end

section \<open>The two implementations\<close>

definition al_iterating :: "'a array_list_t \<Rightarrow> bool" where [inv_defs]:
  "al_iterating al \<longleftrightarrow> al_inv al \<and> al_iter_ind al \<le> al_len al"

definition al_remaining :: "'a array_list_t \<Rightarrow> 'a list" where
  "al_remaining al = drop (al_iter_ind al) (al_list al)"

lemma al_list_iter [simp]: "al_list (al\<lparr>al_iter_ind := k\<rparr>) = al_list al"
  by (simp add: al_list_def)

lemma al_inv_iter [simp]: "al_inv (al\<lparr>al_iter_ind := k\<rparr>) = al_inv al"
  by (simp add: al_inv_def)

lemma al_next_more:
  assumes "al_iterating al" "al_remaining al = x # xs"
  shows "\<exists>al'. al_next al = Some (Some x, al') \<and> al_iterating al' \<and> al_list al' = al_list al \<and>
    al_remaining al' = xs"
proof -
  let ?i = "al_iter_ind al"
  have i: "?i < al_len al"
    using assms(2) by (metis al_remaining_def drop_all length_al_list linorder_not_less list.distinct(1))
  then have "al_list al ! ?i # drop (Suc ?i) (al_list al) = x # xs"
    using assms(2) by (simp add: al_remaining_def Cons_nth_drop_Suc)
  then have eqs: "al_list al ! ?i = x" "drop (Suc ?i) (al_list al) = xs" by simp_all
  have inv: "al_inv al" using assms(1) by (simp add: al_iterating_def)
  show ?thesis
    using al_inv_get [OF inv i] i inv eqs
    by (simp add: al_next_def al_iterating_def al_remaining_def)
qed

lemma al_next_end: "al_iterating al \<Longrightarrow> al_remaining al = [] \<Longrightarrow> al_next al = Some (None, al)"
  by (auto simp: al_iterating_def al_remaining_def al_next_def)

lemma al_move_out:
  assumes "al_inv al"
  shows "delete_and_move_array_list al =
    Some (if al_list al = [] then None else Some (map Some (al_list al)))"
proof (cases "al_len al = 0")
  case True
  then have "al_list al = []" by (metis length_0_conv length_al_list)
  with True show ?thesis by (simp add: delete_and_move_array_list_def)
next
  case False
  have n: "al_len al \<le> length (al_arr al)" using assms by (simp add: al_inv_def filled_def)
  have "cells_realloc (al_arr al) (al_len al) = map Some (al_list al)"
  proof (rule nth_equalityI)
    fix i assume "i < length (cells_realloc (al_arr al) (al_len al))"
    then show "cells_realloc (al_arr al) (al_len al) ! i = map Some (al_list al) ! i"
      using n al_inv_get [OF assms, of i] by (simp add: cells_realloc_def al_get_def rd_nth)
  qed simp
  with False show ?thesis using length_al_list [of al]
    by (cases "al_list al") (simp_all add: delete_and_move_array_list_def)
qed

lemma al_remove_empty:
  assumes "al_list al = []"
  shows "al_pop al dest = Some (None, al)" "al_poll al dest = Some (None, al)"
  using length_al_list [of al] assms by (simp_all add: al_pop_def al_poll_def)

lemma al_reset_iterator_ok:
  "al_inv al \<Longrightarrow> al_iterating (al_reset_iterator al) \<and>
    al_list (al_reset_iterator al) = al_list al \<and> al_remaining (al_reset_iterator al) = al_list al"
  by (simp add: al_reset_iterator_def al_iterating_def al_remaining_def)

lemma al_iterating_inv: "al_iterating al \<Longrightarrow> al_inv al"
  by (simp add: al_iterating_def)

lemmas impl_table = ARRAY_LIST_IMPL_def LINKED_LIST_IMPL_def

interpretation al: list_at "ARRAY_LIST_IMPL junk" al_inv al_list al_iterating al_remaining
proof
  show "i_constructor (ARRAY_LIST_IMPL junk) 0 = None"
    by (simp add: impl_table new_array_list_def)
  show "0 < cs \<Longrightarrow> \<exists>s. i_constructor (ARRAY_LIST_IMPL junk) cs = Some s \<and> al_inv s \<and> al_list s = []" for cs
    using new_array_list_correct [of junk cs] by (simp add: impl_table new_array_list_def)
qed (auto simp: impl_table al_push_ok al_pop_ok al_poll_ok al_remove_empty al_next_more al_next_end
      al_move_out al_reset_iterator_ok al_iterating_inv al_inv_get al_set_ok)

interpretation ll: list_seq "LINKED_LIST_IMPL junk" ll_inv ll_list ll_iterating ll_remaining
proof
  show "i_constructor (LINKED_LIST_IMPL junk) 0 = None"
    by (simp add: impl_table new_linked_list_def)
  show "0 < cs \<Longrightarrow> \<exists>s. i_constructor (LINKED_LIST_IMPL junk) cs = Some s \<and> ll_inv s \<and> ll_list s = []" for cs
    using new_linked_list_correct [of junk cs] by (simp add: impl_table new_linked_list_def)
qed (auto simp: impl_table ll_push_ok ll_pop_ok ll_poll_ok ll_remove_empty ll_next_more ll_next_end
      ll_move_out ll_reset_iterator_ok ll_iterating_inv ll_inv_list)

interpretation al_ll: list_pair "ARRAY_LIST_IMPL junk1" al_inv al_list al_iterating al_remaining
    "LINKED_LIST_IMPL junk2" ll_inv ll_list ll_iterating ll_remaining
  ..

section \<open>Properties\<close>

declare list_run.simps [simp del]

text \<open>C10. Both list implementations are the same sequence to a client: whatever pushes, pops,
  polls and length queries are run on a new list, neither touches unowned memory and both
  return what the list specification returns (pop takes the last cell, poll the first, a
  NULL destination copies nothing, an empty list is left as it is).\<close>

theorem list_impls_refine:
  assumes "0 < cs"
  shows "map_option fst (list_run (new_list (ARRAY_LIST_IMPL junk1) cs) cmds) =
      Some (fst (spec_list_run [] cmds)) \<and>
    map_option fst (list_run (new_list (LINKED_LIST_IMPL junk2) cs) cmds) =
      Some (fst (spec_list_run [] cmds))"
  using al.holds_run [OF al.new_holds [OF assms], of junk1 cmds]
    ll.holds_run [OF ll.new_holds [OF assms], of junk2 cmds] by auto

theorem list_impls_refine_witness:
  "map_option fst (list_run (new_list (ARRAY_LIST_IMPL 7) 4)
      [LPush (1::nat), LPush 2, LPush 3, LPoll True, LPop True, LLen]) =
    Some [ODone, ODone, ODone, OCell (Some 1), OCell (Some 3), OLen 1]"
  using list_impls_refine [of 4 7 "[LPush (1::nat), LPush 2, LPush 3, LPoll True, LPop True, LLen]"]
  by simp

text \<open>\<open>l_equals\<close> on an array list and a linked list, each reached by any commands from
  its constructor, terminates and says whether the two have the same length and cells
  pairwise equal under the given comparison.\<close>

theorem l_equals_correct:
  assumes "0 < cs"
    and "list_run (new_list (ARRAY_LIST_IMPL junk1) cs) cmds1 = Some (outs1, l1)"
    and "list_run (new_list (LINKED_LIST_IMPL junk2) cs) cmds2 = Some (outs2, l2)"
  shows "\<exists>l1' l2'. l_equals eq l1 l2 =
    Some (list_all2 eq (snd (spec_list_run [] cmds1)) (snd (spec_list_run [] cmds2)), l1', l2')"
proof -
  have "al.holds junk1 l1 (snd (spec_list_run [] cmds1))"
    "ll.holds junk2 l2 (snd (spec_list_run [] cmds2))"
    using al.holds_run [OF al.new_holds [OF assms(1)], of junk1 cmds1]
      ll.holds_run [OF ll.new_holds [OF assms(1)], of junk2 cmds2] assms(2,3) by auto
  then show ?thesis using al_ll.equals by blast
qed

theorem l_equals_correct_witness:
  "\<exists>outs1 l1 outs2 l2.
     list_run (new_list (ARRAY_LIST_IMPL 0) 8) [LPush (5::nat), LPush 6] = Some (outs1, l1) \<and>
     list_run (new_list (LINKED_LIST_IMPL None) 8) [LPush 4, LPush 5, LPush 6, LPoll False] =
       Some (outs2, l2) \<and>
     map_option fst (l_equals (=) l1 l2) = Some True"
proof -
  let ?r1 = "list_run (new_list (ARRAY_LIST_IMPL 0) 8) [LPush (5::nat), LPush 6]"
  let ?r2 = "list_run (new_list (LINKED_LIST_IMPL None) 8) [LPush (4::nat), LPush 5, LPush 6, LPoll False]"
  have "?r1 \<noteq> None" "?r2 \<noteq> None"
    using al.holds_run [OF al.new_holds, of 8 0 "[LPush (5::nat), LPush 6]"]
      ll.holds_run [OF ll.new_holds, of 8 None "[LPush (4::nat), LPush 5, LPush 6, LPoll False]"]
    by auto
  then obtain outs1 l1 outs2 l2 where r: "?r1 = Some (outs1, l1)" "?r2 = Some (outs2, l2)"
    by auto
  moreover have "map_option fst (l_equals (=) l1 l2) = Some True"
    using l_equals_correct [OF _ r, of "(=)"] by auto
  ultimately show ?thesis by blast
qed

text \<open>On a non-empty linked list \<open>l_get\<close> returns the first cell whatever the index: the
  loop condition of \<open>ll_get\<close> is false from the start.  It never returns NULL and never
  reports an index out of range, where the array list returns the cell at the index.\<close>

theorem linked_list_get_first:
  assumes "0 < cs"
    and "list_run (new_list (LINKED_LIST_IMPL junk) cs) cmds = Some (outs, l)"
    and "snd (spec_list_run [] cmds) = x # xs"
  shows "l_get l i = Some (Some x)"
proof -
  have "ll.holds junk l (x # xs)"
    using ll.holds_run [OF ll.new_holds [OF assms(1)], of junk cmds] assms(2,3) by auto
  then obtain s where s: "l_impl l = LINKED_LIST_IMPL junk" "l_list l = Some s" "ll_inv s"
    "ll_list s = x # xs" by (auto simp: ll.holds_def)
  from s(3) obtain as where rep: "ll_rep s as (x # xs)" using s(4) by (metis ll_repE)
  then have "ll_first s = Some (as ! 0)"
    using ll_rep_len [OF rep] by (auto simp: ll_rep_def ptr_def)
  then show ?thesis
    using s ll_get_copy_head [OF s(3,4), of i] by (simp add: l_get_def impl_table ll_get_head)
qed

theorem linked_list_get_first_witness:
  "\<exists>outs l. list_run (new_list (LINKED_LIST_IMPL None) 8) [LPush (4::nat), LPush 5] = Some (outs, l) \<and>
     l_get l 1 = Some (Some 4)"
proof -
  let ?r = "list_run (new_list (LINKED_LIST_IMPL None) 8) [LPush (4::nat), LPush 5]"
  have "?r \<noteq> None"
    using ll.holds_run [OF ll.new_holds, of 8 None "[LPush (4::nat), LPush 5]"] by auto
  then obtain outs l where r: "?r = Some (outs, l)" by auto
  have "l_get l 1 = Some (Some 4)"
    by (rule linked_list_get_first [OF _ r]) simp_all
  with r show ?thesis by blast
qed

text \<open>On an array list reached by any commands, \<open>l_get\<close> after \<open>l_set\<close> within the length
  gives the new cell at that index and the old ones at every other.\<close>

theorem array_list_get_set:
  assumes "0 < cs"
    and "list_run (new_list (ARRAY_LIST_IMPL junk) cs) cmds = Some (outs, l)"
    and "xs = snd (spec_list_run [] cmds)" and "i < length xs" and "j < length xs"
  shows "\<exists>l'. l_set l i x = Some l' \<and> l_get l' j = Some (Some (if j = i then x else xs ! j))"
proof -
  have "al.holds junk l xs"
    using al.holds_run [OF al.new_holds [OF assms(1)], of junk cmds] assms(2,3) by auto
  then show ?thesis using assms(4,5) by (rule al.holds_get_set)
qed

theorem array_list_get_set_witness:
  "\<exists>outs l l'. list_run (new_list (ARRAY_LIST_IMPL 3) 8) [LPush (4::nat), LPush 5] = Some (outs, l) \<and>
     l_set l 0 9 = Some l' \<and> l_get l' 1 = Some (Some 5)"
proof -
  let ?r = "list_run (new_list (ARRAY_LIST_IMPL 3) 8) [LPush (4::nat), LPush 5]"
  have "?r \<noteq> None"
    using al.holds_run [OF al.new_holds, of 8 3 "[LPush (4::nat), LPush 5]"] by auto
  then obtain outs l where r: "?r = Some (outs, l)" by auto
  have "\<exists>l'. l_set l 0 9 = Some l' \<and> l_get l' 1 = Some (Some 5)"
    using array_list_get_set [OF _ r refl, of 0 1 9] by simp
  with r show ?thesis by blast
qed

text \<open>\<open>l_equals\<close> called with one list object as both arguments compares each cell with
  the one after it, so a list whose first two cells differ is not equal to itself.\<close>

theorem l_equals_same_object:
  assumes "0 < cs"
    and "list_run (new_list (ARRAY_LIST_IMPL junk) cs) cmds = Some (outs, l)"
    and "snd (spec_list_run [] cmds) = x # y # xs" and "\<not> eq x y"
  shows "map_option fst (l_equals_same eq l) = Some False"
proof -
  have "al.holds junk l (x # y # xs)"
    using al.holds_run [OF al.new_holds [OF assms(1)], of junk cmds] assms(2,3) by auto
  from al.same_neq [OF this, of eq] assms(4) show ?thesis by auto
qed

theorem l_equals_same_object_witness:
  "\<exists>outs l. list_run (new_list (ARRAY_LIST_IMPL 3) 8) [LPush (4::nat), LPush 5] = Some (outs, l) \<and>
     map_option fst (l_equals_same (=) l) = Some False"
proof -
  let ?r = "list_run (new_list (ARRAY_LIST_IMPL 3) 8) [LPush (4::nat), LPush 5]"
  have "?r \<noteq> None"
    using al.holds_run [OF al.new_holds, of 8 3 "[LPush (4::nat), LPush 5]"] by auto
  then obtain outs l where r: "?r = Some (outs, l)" by auto
  have "map_option fst (l_equals_same (=) l) = Some False"
    by (rule l_equals_same_object [OF _ r, where x = 4 and y = 5 and xs = "[]"]) simp_all
  with r show ?thesis by blast
qed

end
