(* ===== verification/Chutil_Heap.thy ===== *)
theory Chutil_Heap
  imports Ch_Prelude "HOL-Library.Monad_Syntax"
begin

text \<open>
  The binary min-heap of \<open>chutil/src/heap.c\<close>.  A cell of the table is a header (the priority
  cached when the value was pushed) and the value.  Priorities are \<open>uint32_t\<close>; the code keeps
  them in \<open>size_t\<close> locals, which a \<open>u32\<close> represents.  An operation's \<open>None\<close> is undefined
  behaviour: following the NULL header of an index outside the heap, or reading a cell never
  written.

  The main lemmas follow the two loops with the value being placed kept in a virtual list
  \<open>V\<close>: at every step the table holds \<open>V\<close> except at the current hole.
\<close>

section \<open>State and operations\<close>

record 'a heap_t =
  hp_cell_size :: nat
  hp_val_size :: nat
  hp_cap :: nat
  hp_len :: nat
  hp_table :: "(u32 \<times> 'a) option list"
  hp_priority_func :: "'a \<Rightarrow> u32"
  hp_iter :: nat

text \<open>The priority function pointer may be NULL.\<close>

definition new_heap :: "nat \<Rightarrow> ('a \<Rightarrow> u32) option \<Rightarrow> 'a heap_t option" where
  "new_heap vs pf =
     (case pf of None \<Rightarrow> None
      | Some f \<Rightarrow> if vs = 0 then None
          else Some \<lparr>hp_cell_size = 4 + vs, hp_val_size = vs, hp_cap = 1, hp_len = 0,
                     hp_table = replicate 1 None, hp_priority_func = f, hp_iter = 0\<rparr>)"

text \<open>\<open>hp_get_header\<close>: an index of the table, or NULL; then a read and a write through it.\<close>

definition hp_get_header :: "'a heap_t \<Rightarrow> nat \<Rightarrow> nat option" where
  "hp_get_header hp i = (if hp_len hp \<le> i then None else Some i)"

definition hp_cell :: "'a heap_t \<Rightarrow> nat \<Rightarrow> (u32 \<times> 'a) option" where
  "hp_cell hp i = do { h \<leftarrow> hp_get_header hp i; rd (hp_table hp) h }"

definition hp_write :: "'a heap_t \<Rightarrow> nat \<Rightarrow> u32 \<times> 'a \<Rightarrow> 'a heap_t option" where
  "hp_write hp i c =
     do { h \<leftarrow> hp_get_header hp i;
          (if h < length (hp_table hp) then Some (hp\<lparr>hp_table := (hp_table hp)[h := Some c]\<rparr>)
           else None) }"

text \<open>The pointed-to value; \<open>Some None\<close> is NULL.\<close>

definition hp_peek :: "'a heap_t \<Rightarrow> 'a option option" where
  "hp_peek hp = (if hp_len hp = 0 then Some None else map_option (Some \<circ> snd) (hp_cell hp 0))"

definition hp_parent :: "nat \<Rightarrow> nat" where
  "hp_parent i = (let parent = i div 2 in if i mod 2 = 0 then parent - 1 else parent)"

lemma hp_parent_less: "0 < i \<Longrightarrow> hp_parent i < i"
  by (auto simp: hp_parent_def Let_def)

function hp_bubble_up :: "'a heap_t \<Rightarrow> nat \<Rightarrow> u32 \<Rightarrow> ('a heap_t \<times> nat) option" where
  "hp_bubble_up hp i p =
     (if 0 < i then
        (case hp_cell hp (hp_parent i) of
           None \<Rightarrow> None
         | Some (pp, pv) \<Rightarrow>
             if pp \<le> p then Some (hp, i)
             else (case hp_write hp i (pp, pv) of
                     None \<Rightarrow> None
                   | Some hp' \<Rightarrow> hp_bubble_up hp' (hp_parent i) p))
      else Some (hp, i))"
  by pat_completeness auto
termination
  by (relation "measure (\<lambda>(hp, i, p). i)") (auto simp: hp_parent_less)

declare hp_bubble_up.simps [simp del]

text \<open>\<open>hdr && hdr->priority < p\<close>, and the child chosen by one round of \<open>hp_pop\<close>.\<close>

definition hp_below :: "'a heap_t \<Rightarrow> nat \<Rightarrow> u32 \<Rightarrow> bool option" where
  "hp_below hp i p =
     (case hp_get_header hp i of None \<Rightarrow> Some False
      | Some h \<Rightarrow> do { c \<leftarrow> rd (hp_table hp) h; Some (fst c < p) })"

definition hp_swap_child :: "'a heap_t \<Rightarrow> nat \<Rightarrow> u32 \<Rightarrow> nat option option" where
  "hp_swap_child hp i p =
     do { l \<leftarrow> hp_below hp (i * 2 + 1) p;
          r \<leftarrow> hp_below hp (i * 2 + 2) p;
          (let swap = (if l then Some (i * 2 + 1) else None)
           in if r then
                (case swap of
                   None \<Rightarrow> Some (Some (i * 2 + 2))
                 | Some s \<Rightarrow> do { rc \<leftarrow> hp_cell hp (i * 2 + 2); sc \<leftarrow> hp_cell hp s;
                     Some (if fst rc < fst sc then Some (i * 2 + 2) else swap) })
              else Some swap) }"

lemma hp_swap_child_range: "hp_swap_child hp i p = Some (Some n) \<Longrightarrow> n = i * 2 + 1 \<or> n = i * 2 + 2"
  by (auto simp: hp_swap_child_def Let_def split: Option.bind_splits if_splits)

lemma hp_write_len: "hp_write hp i c = Some hp' \<Longrightarrow> hp_len hp' = hp_len hp"
  by (auto simp: hp_write_def split: Option.bind_splits if_splits)

lemma hp_cell_bound: "hp_cell hp i = Some c \<Longrightarrow> i < hp_len hp"
  by (auto simp: hp_cell_def hp_get_header_def split: if_splits)

text \<open>\<open>lst\<close> is the index of the cell the \<open>last_hdr\<close> pointer of \<open>hp_pop\<close> refers to.\<close>

function hp_bubble_down :: "'a heap_t \<Rightarrow> nat \<Rightarrow> u32 \<Rightarrow> nat \<Rightarrow> 'a heap_t option" where
  "hp_bubble_down hp i p lst =
     (case hp_swap_child hp i p of
        None \<Rightarrow> None
      | Some None \<Rightarrow> do { c \<leftarrow> rd (hp_table hp) lst; hp_write hp i c }
      | Some (Some n) \<Rightarrow>
          (case hp_cell hp n of
             None \<Rightarrow> None
           | Some c \<Rightarrow>
               (case hp_write hp i c of
                  None \<Rightarrow> None
                | Some hp' \<Rightarrow> hp_bubble_down hp' n p lst)))"
  by pat_completeness auto
termination
  by (relation "measure (\<lambda>(hp, i, p, lst). hp_len hp - i)")
    (auto dest!: hp_swap_child_range hp_write_len hp_cell_bound)

declare hp_bubble_down.simps [simp del]

definition hp_pop :: "'a heap_t \<Rightarrow> ('a option \<times> 'a heap_t) option" where
  "hp_pop hp =
     (if hp_len hp = 0 then Some (None, hp)
      else do {
        root \<leftarrow> hp_cell hp 0;
        (if hp_len hp = 1 then Some (Some (snd root), hp\<lparr>hp_len := hp_len hp - 1\<rparr>)
         else do {
           c \<leftarrow> hp_cell hp (hp_len hp - 1);
           hp' \<leftarrow> hp_bubble_down (hp\<lparr>hp_len := hp_len hp - 1\<rparr>) 0 (fst c) (hp_len hp - 1);
           Some (Some (snd root), hp') }) })"

definition hp_push :: "'a heap_t \<Rightarrow> 'a \<Rightarrow> 'a heap_t option" where
  "hp_push hp src =
     (let hp1 = (if hp_len hp = hp_cap hp
                 then hp\<lparr>hp_cap := hp_cap hp * 2,
                         hp_table := cells_realloc (hp_table hp) (hp_cap hp * 2)\<rparr>
                 else hp);
          hp2 = hp1\<lparr>hp_len := hp_len hp1 + 1\<rparr>;
          p = hp_priority_func hp2 src
      in do { (hp3, i) \<leftarrow> hp_bubble_up hp2 (hp_len hp2 - 1) p; hp_write hp3 i (p, src) })"

definition hp_reset_iterator :: "'a heap_t \<Rightarrow> 'a heap_t" where
  "hp_reset_iterator hp = hp\<lparr>hp_iter := 0\<rparr>"

definition hp_next :: "'a heap_t \<Rightarrow> ('a option \<times> 'a heap_t) option" where
  "hp_next hp =
     (case hp_get_header hp (hp_iter hp) of
        None \<Rightarrow> Some (None, hp)
      | Some h \<Rightarrow> do { c \<leftarrow> rd (hp_table hp) h;
          Some (Some (snd c), hp\<lparr>hp_iter := hp_iter hp + 1\<rparr>) })"

text \<open>The two loops of \<open>hp_re_heap\<close>: \<open>n\<close> counts the rounds left of a loop from \<open>i\<close> (or \<open>e\<close>) to \<open>len\<close>.\<close>

fun hp_recalc :: "nat \<Rightarrow> 'a heap_t \<Rightarrow> nat \<Rightarrow> 'a heap_t option" where
  "hp_recalc 0 hp i = Some hp"
| "hp_recalc (Suc n) hp i =
     do { c \<leftarrow> hp_cell hp i;
          hp' \<leftarrow> hp_write hp i (hp_priority_func hp (snd c), snd c);
          hp_recalc n hp' (i + 1) }"

fun hp_rebuild :: "nat \<Rightarrow> 'a heap_t \<Rightarrow> nat \<Rightarrow> 'a heap_t option" where
  "hp_rebuild 0 hp e = Some hp"
| "hp_rebuild (Suc n) hp e =
     do { c \<leftarrow> hp_cell hp e;
          (hp', i) \<leftarrow> hp_bubble_up hp e (fst c);
          hp'' \<leftarrow> (if i \<noteq> e then hp_write hp' i (fst c, snd c) else Some hp');
          hp_rebuild n hp'' (e + 1) }"

definition hp_re_heap :: "'a heap_t \<Rightarrow> 'a heap_t option" where
  "hp_re_heap hp =
     do { hp1 \<leftarrow> hp_recalc (hp_len hp) hp 0; hp_rebuild (hp_len hp1 - 1) hp1 1 }"

section \<open>Heap order on lists of cells\<close>

abbreviation key :: "(u32 \<times> 'a) list \<Rightarrow> nat \<Rightarrow> u32" where "key V i \<equiv> fst (V ! i)"

definition heap_upto :: "(u32 \<times> 'a) list \<Rightarrow> nat \<Rightarrow> bool" where [inv_defs]:
  "heap_upto V m \<longleftrightarrow> (\<forall>j < m. 0 < j \<longrightarrow> key V (hp_parent j) \<le> key V j)"

text \<open>Heap order but for the edge above \<open>i\<close>, or but for the edges below \<open>i\<close>.\<close>

definition up_inv :: "(u32 \<times> 'a) list \<Rightarrow> nat \<Rightarrow> nat \<Rightarrow> bool" where [inv_defs]:
  "up_inv V m i \<longleftrightarrow> i < m \<and> m \<le> length V \<and>
     (\<forall>j < m. 0 < j \<longrightarrow> j \<noteq> i \<longrightarrow> key V (hp_parent j) \<le> key V j) \<and>
     (\<forall>j < m. 0 < j \<longrightarrow> hp_parent j = i \<longrightarrow> 0 < i \<longrightarrow> key V (hp_parent i) \<le> key V j)"

definition down_inv :: "(u32 \<times> 'a) list \<Rightarrow> nat \<Rightarrow> bool" where [inv_defs]:
  "down_inv V i \<longleftrightarrow> i < length V \<and>
     (\<forall>j < length V. 0 < j \<longrightarrow> hp_parent j \<noteq> i \<longrightarrow> key V (hp_parent j) \<le> key V j) \<and>
     (\<forall>j < length V. 0 < j \<longrightarrow> hp_parent j = i \<longrightarrow> 0 < i \<longrightarrow> key V (hp_parent i) \<le> key V j)"

definition swap_at :: "'a list \<Rightarrow> nat \<Rightarrow> nat \<Rightarrow> 'a list" where
  "swap_at V i j = V[i := V ! j, j := V ! i]"

lemma length_swap_at [simp]: "length (swap_at V i j) = length V"
  by (simp add: swap_at_def)

lemma mset_swap_at: "i < length V \<Longrightarrow> j < length V \<Longrightarrow> mset (swap_at V i j) = mset V"
  by (simp add: swap_at_def mset_swap)

lemma nth_swap_at:
  "i < length V \<Longrightarrow> j < length V \<Longrightarrow>
   swap_at V i j ! k = (if k = j then V ! i else if k = i then V ! j else V ! k)"
  by (auto simp: swap_at_def nth_list_update)

lemma hp_parent_child: "0 < j \<Longrightarrow> hp_parent j = i \<longleftrightarrow> j = i * 2 + 1 \<or> j = i * 2 + 2"
  by (auto simp: hp_parent_def Let_def) presburger+

lemma up_inv_done: "up_inv V m i \<Longrightarrow> i = 0 \<or> key V (hp_parent i) \<le> key V i \<Longrightarrow> heap_upto V m"
  by (auto simp: up_inv_def heap_upto_def)

lemma up_inv_step:
  assumes "up_inv V m i" "0 < i" "key V i < key V (hp_parent i)"
  shows "up_inv (swap_at V i (hp_parent i)) m (hp_parent i)"
proof -
  let ?q = "hp_parent i"
  have b: "i < length V" "?q < i" using assms hp_parent_less [of i] by (auto simp: up_inv_def)
  note sw = nth_swap_at [of i V ?q]
  have old: "key V (hp_parent j) \<le> key V j" if "j < m" "0 < j" "j \<noteq> i" for j
    using assms(1) that by (simp add: up_inv_def)
  have grand: "key V ?q \<le> key V j" if "j < m" "0 < j" "hp_parent j = i" for j
    using assms(1,2) that by (simp add: up_inv_def)
  have "key (swap_at V i ?q) (hp_parent j) \<le> key (swap_at V i ?q) j"
    if "j < m" "0 < j" "j \<noteq> ?q" for j
  proof (cases "j = i")
    case True
    with b sw assms(3) show ?thesis by simp
  next
    case False
    with that b sw old [of j] grand [of j] assms(3) hp_parent_less [of j] show ?thesis by auto
  qed
  moreover have "key (swap_at V i ?q) (hp_parent ?q) \<le> key (swap_at V i ?q) j"
    if "j < m" "0 < j" "hp_parent j = ?q" "0 < ?q" for j
  proof -
    have qm: "?q < m" using assms(1) b by (simp add: up_inv_def)
    have "key V (hp_parent ?q) \<le> key V ?q" using old [of ?q] that(4) b qm by simp
    moreover have "hp_parent ?q < ?q" using hp_parent_less that(4) by blast
    moreover have "j \<noteq> ?q" using that hp_parent_less [of j] by auto
    ultimately show ?thesis using b sw that old [of j] by (cases "j = i") auto
  qed
  ultimately show ?thesis using assms(1) b by (simp add: up_inv_def)
qed

lemma down_inv_done:
  "down_inv V i \<Longrightarrow> (\<And>j. j < length V \<Longrightarrow> 0 < j \<Longrightarrow> hp_parent j = i \<Longrightarrow> key V i \<le> key V j) \<Longrightarrow>
   heap_upto V (length V)"
  by (auto simp: down_inv_def heap_upto_def)

lemma down_inv_step:
  assumes "down_inv V i" "n < length V" "0 < n" "hp_parent n = i" "key V n \<le> key V i"
    and least: "\<And>j. j < length V \<Longrightarrow> 0 < j \<Longrightarrow> hp_parent j = i \<Longrightarrow> key V n \<le> key V j"
  shows "down_inv (swap_at V i n) n"
proof -
  have b: "i < length V" "i < n" using assms hp_parent_less [of n] by (auto simp: down_inv_def)
  note sw = nth_swap_at [of i V n]
  have old: "key V (hp_parent j) \<le> key V j" if "j < length V" "0 < j" "hp_parent j \<noteq> i" for j
    using assms(1) that by (simp add: down_inv_def)
  have grand: "key V (hp_parent i) \<le> key V j" if "j < length V" "0 < j" "hp_parent j = i" "0 < i" for j
    using assms(1) that by (simp add: down_inv_def)
  have "key (swap_at V i n) (hp_parent j) \<le> key (swap_at V i n) j"
    if "j < length V" "0 < j" "hp_parent j \<noteq> n" for j
  proof (cases "hp_parent j = i")
    case True
    with that b sw assms least [of j] hp_parent_less [of j] show ?thesis by auto
  next
    case False
    with that assms(4) have "j \<noteq> n" by auto
    moreover have "key V (hp_parent i) \<le> key V n" if "0 < i" using grand assms that by blast
    ultimately show ?thesis
      using False that b sw assms(2) old [of j] hp_parent_less [of i] by (cases "j = i") auto
  qed
  moreover have "key (swap_at V i n) (hp_parent n) \<le> key (swap_at V i n) j"
    if "j < length V" "0 < j" "hp_parent j = n" for j
  proof -
    have "n < j" using that hp_parent_less [of j] by simp
    moreover have "key V n \<le> key V j" using old [of j] that b by simp
    ultimately show ?thesis using b sw assms(2,4) by simp
  qed
  ultimately show ?thesis using assms(2) b by (simp add: down_inv_def)
qed

lemma heap_root_least: "heap_upto V m \<Longrightarrow> j < m \<Longrightarrow> key V 0 \<le> key V j"
proof (induction j rule: less_induct)
  case (less j)
  show ?case
  proof (cases "j = 0")
    case False
    then have "hp_parent j < j" by (simp add: hp_parent_less)
    with less False have "key V 0 \<le> key V (hp_parent j)" by simp
    also have "\<dots> \<le> key V j" using less.prems False by (simp add: heap_upto_def)
    finally show ?thesis .
  qed simp
qed

section \<open>The loops on the table\<close>

text \<open>The table holds \<open>V\<close>, except at the hole \<open>i\<close>.\<close>

definition but_at :: "'a heap_t \<Rightarrow> (u32 \<times> 'a) list \<Rightarrow> nat \<Rightarrow> bool" where
  "but_at hp V i \<longleftrightarrow> hp_len hp = length V \<and> length V \<le> length (hp_table hp) \<and>
     (\<forall>j < length V. j \<noteq> i \<longrightarrow> rd (hp_table hp) j = Some (V ! j))"

definition table_is :: "'a heap_t \<Rightarrow> (u32 \<times> 'a) list \<Rightarrow> bool" where
  "table_is hp V \<longleftrightarrow> hp_len hp = length V \<and> length V \<le> length (hp_table hp) \<and>
     (\<forall>j < length V. rd (hp_table hp) j = Some (V ! j))"

text \<open>Everything but the cells is as before.\<close>

definition same_frame :: "'a heap_t \<Rightarrow> 'a heap_t \<Rightarrow> bool" where
  "same_frame hp hp' \<longleftrightarrow> hp' = hp\<lparr>hp_table := hp_table hp'\<rparr> \<and>
     length (hp_table hp') = length (hp_table hp)"

lemma same_frame_refl [simp]: "same_frame hp hp"
  by (simp add: same_frame_def)

lemma same_frame_trans: "same_frame a b \<Longrightarrow> same_frame b c \<Longrightarrow> same_frame a c"
  by (cases a; cases b; cases c) (simp add: same_frame_def)

lemma same_frame_write: "hp_write hp i c = Some hp' \<Longrightarrow> same_frame hp hp'"
  by (auto simp: hp_write_def same_frame_def split: Option.bind_splits if_splits)

lemma same_frame_sel:
  assumes "same_frame hp hp'"
  shows "hp_len hp' = hp_len hp" "hp_cap hp' = hp_cap hp" "hp_priority_func hp' = hp_priority_func hp"
    "hp_cell_size hp' = hp_cell_size hp" "hp_val_size hp' = hp_val_size hp" "hp_iter hp' = hp_iter hp"
    "length (hp_table hp') = length (hp_table hp)"
  using assms by (cases hp; cases hp'; simp add: same_frame_def)+

lemma but_at_cell: "but_at hp V i \<Longrightarrow> j < length V \<Longrightarrow> j \<noteq> i \<Longrightarrow> hp_cell hp j = Some (V ! j)"
  by (simp add: but_at_def hp_cell_def hp_get_header_def)

lemma table_is_cell: "table_is hp V \<Longrightarrow> j < length V \<Longrightarrow> hp_cell hp j = Some (V ! j)"
  by (simp add: table_is_def hp_cell_def hp_get_header_def)

lemma table_is_but: "table_is hp V \<Longrightarrow> but_at hp V i"
  by (simp add: table_is_def but_at_def)

lemma but_at_fill:
  assumes "but_at hp V i" "i < length V"
  shows "\<exists>hp'. hp_write hp i (V ! i) = Some hp' \<and> table_is hp' V \<and> same_frame hp hp'"
  using assms by (auto simp: but_at_def table_is_def hp_write_def hp_get_header_def same_frame_def)

text \<open>Copying cell \<open>q\<close> into the hole moves the hole to \<open>q\<close>.\<close>

lemma but_at_move:
  assumes "but_at hp V i" "i < length V" "q < length V" "q \<noteq> i"
  shows "\<exists>hp'. hp_write hp i (V ! q) = Some hp' \<and> but_at hp' (swap_at V i q) q \<and> same_frame hp hp'"
  using assms
  by (auto simp: but_at_def hp_write_def hp_get_header_def same_frame_def nth_swap_at)

lemma bubble_up_ok:
  "but_at hp V i \<Longrightarrow> up_inv V m i \<Longrightarrow> fst (V ! i) = p \<Longrightarrow>
   \<exists>hp' i' V'. hp_bubble_up hp i p = Some (hp', i') \<and> same_frame hp hp' \<and> but_at hp' V' i' \<and>
     i' < length V' \<and> V' ! i' = V ! i \<and> (i' = i \<longrightarrow> hp' = hp \<and> V' = V) \<and> i' \<le> i \<and>
     heap_upto V' m \<and> mset V' = mset V \<and> length V' = length V"
proof (induction hp i p arbitrary: V rule: hp_bubble_up.induct)
  case (1 hp i p)
  have i: "i < length V" using "1.prems" by (simp add: up_inv_def)
  let ?q = "hp_parent i"
  show ?case
  proof (cases "i = 0 \<or> fst (V ! ?q) \<le> p")
    case True
    have "hp_bubble_up hp i p = Some (hp, i)"
    proof (cases "i = 0")
      case False
      then have "?q < i" by (simp add: hp_parent_less)
      with False True i but_at_cell [OF "1.prems"(1), of ?q] show ?thesis
        by (cases "V ! ?q") (subst hp_bubble_up.simps, simp)
    qed (simp add: hp_bubble_up.simps)
    moreover have "heap_upto V m" using up_inv_done "1.prems"(2,3) True by blast
    ultimately show ?thesis
      using "1.prems"(1) i by (intro exI [of _ hp] exI [of _ i] exI [of _ V]) simp
  next
    case False
    then have q: "?q < i" "0 < i" "?q < length V" using hp_parent_less [of i] i by auto
    have cell: "hp_cell hp ?q = Some (V ! ?q)" using but_at_cell [OF "1.prems"(1) q(3)] q(1) by simp
    obtain hp1 where hp1: "hp_write hp i (V ! ?q) = Some hp1" "but_at hp1 (swap_at V i ?q) ?q"
      "same_frame hp hp1" using but_at_move [OF "1.prems"(1) i q(3)] q(1) by auto
    have step: "hp_bubble_up hp i p = hp_bubble_up hp1 ?q p"
      using False q cell hp1 by (subst hp_bubble_up.simps) (auto split: prod.split)
    have sw: "swap_at V i ?q ! ?q = V ! i" using i q by (simp add: nth_swap_at)
    have up': "up_inv (swap_at V i ?q) m ?q"
      using up_inv_step [OF "1.prems"(2) q(2)] False "1.prems"(3) by (simp add: not_le)
    obtain hp' i' V' where r: "hp_bubble_up hp1 ?q p = Some (hp', i')" "same_frame hp1 hp'"
      "but_at hp' V' i'" "i' < length V'" "V' ! i' = V ! i" "i' \<le> ?q" "heap_upto V' m"
      "mset V' = mset (swap_at V i ?q)" "length V' = length V"
      using "1.IH" [OF q(2) cell prod.collapse _ _ hp1(2) up'] False hp1(1) sw "1.prems"(3) by auto
    then show ?thesis
      using step same_frame_trans [OF hp1(3) r(2)] mset_swap_at [OF i q(3)] q(1) by auto
  qed
qed

lemma hp_below_ok:
  assumes "but_at hp V i" "j \<noteq> i"
  shows "hp_below hp j p = Some (j < length V \<and> fst (V ! j) < p)"
  using assms by (auto simp: hp_below_def hp_get_header_def but_at_def)

lemma hp_swap_child_ok:
  assumes "but_at hp V i"
  obtains (none) "hp_swap_child hp i p = Some None"
      "\<And>j. j < length V \<Longrightarrow> 0 < j \<Longrightarrow> hp_parent j = i \<Longrightarrow> p \<le> fst (V ! j)"
    | (some) n where "hp_swap_child hp i p = Some (Some n)" "n < length V" "0 < n" "hp_parent n = i"
      "fst (V ! n) < p"
      "\<And>j. j < length V \<Longrightarrow> 0 < j \<Longrightarrow> hp_parent j = i \<Longrightarrow> fst (V ! n) \<le> fst (V ! j)"
proof -
  let ?l = "i * 2 + 1" and ?r = "i * 2 + 2"
  define L where "L \<longleftrightarrow> ?l < length V \<and> fst (V ! ?l) < p"
  define R where "R \<longleftrightarrow> ?r < length V \<and> fst (V ! ?r) < p"
  have bl: "hp_below hp ?l p = Some L" and br: "hp_below hp ?r p = Some R"
    using hp_below_ok [OF assms] by (simp_all add: L_def R_def)
  have cl: "L \<Longrightarrow> hp_cell hp ?l = Some (V ! ?l)" and cr: "R \<Longrightarrow> hp_cell hp ?r = Some (V ! ?r)"
    using but_at_cell [OF assms] by (simp_all add: L_def R_def)
  have res: "hp_swap_child hp i p = Some (
      if R \<and> (\<not> L \<or> fst (V ! ?r) < fst (V ! ?l)) then Some ?r else if L then Some ?l else None)"
    unfolding hp_swap_child_def bl br using cl cr by (cases L; cases R) (simp_all add: Let_def)
  have child: "0 < j \<Longrightarrow> hp_parent j = i \<Longrightarrow> j = ?l \<or> j = ?r" for j
    using hp_parent_child by blast
  have pl: "hp_parent ?l = i" "hp_parent ?r = i" using hp_parent_child by (simp_all add: hp_parent_child)
  show thesis
  proof (cases "L \<or> R")
    case False
    then have "p \<le> fst (V ! j)" if "j < length V" "0 < j" "hp_parent j = i" for j
      using child [OF that(2,3)] that(1) by (auto simp: L_def R_def)
    with False res show thesis using none by simp
  next
    case True
    define n where "n = (if R \<and> (\<not> L \<or> fst (V ! ?r) < fst (V ! ?l)) then ?r else ?l)"
    have "fst (V ! n) \<le> fst (V ! j)" if "j < length V" "0 < j" "hp_parent j = i" for j
      using child [OF that(2,3)] that(1) True by (auto simp: n_def L_def R_def)
    moreover have "hp_swap_child hp i p = Some (Some n)"
      unfolding res n_def using True by (cases L; cases R) simp_all
    moreover have "n < length V" "0 < n" "hp_parent n = i" "fst (V ! n) < p"
      using True pl by (auto simp: n_def L_def R_def)
    ultimately show thesis using some by blast
  qed
qed

text \<open>The cell \<open>x\<close> being placed is read back from the table, past the shrunk heap.\<close>

lemma bubble_down_ok:
  "but_at hp V i \<Longrightarrow> down_inv V i \<Longrightarrow> V ! i = x \<Longrightarrow> fst x = p \<Longrightarrow>
   length V \<le> lst \<Longrightarrow> rd (hp_table hp) lst = Some x \<Longrightarrow>
   \<exists>hp' V'. hp_bubble_down hp i p lst = Some hp' \<and> same_frame hp hp' \<and> table_is hp' V' \<and>
     heap_upto V' (length V') \<and> mset V' = mset V"
proof (induction hp i p lst arbitrary: V rule: hp_bubble_down.induct)
  case (1 hp i p lst)
  have i: "i < length V" using "1.prems"(2) by (simp add: down_inv_def)
  show ?case
  proof (rule hp_swap_child_ok [OF "1.prems"(1), of p])
    assume none: "hp_swap_child hp i p = Some None"
      "\<And>j. j < length V \<Longrightarrow> 0 < j \<Longrightarrow> hp_parent j = i \<Longrightarrow> p \<le> fst (V ! j)"
    obtain hp' where hp': "hp_write hp i x = Some hp'" "table_is hp' V" "same_frame hp hp'"
      using but_at_fill [OF "1.prems"(1) i] "1.prems"(3) by auto
    then have "hp_bubble_down hp i p lst = Some hp'"
      using none(1) "1.prems"(6) by (subst hp_bubble_down.simps) simp
    moreover have "heap_upto V (length V)"
      by (rule down_inv_done [OF "1.prems"(2)]) (use none(2) "1.prems"(3,4) in simp)
    ultimately show ?thesis using hp'(2,3) by (intro exI [of _ hp'] exI [of _ V]) simp
  next
    fix n assume some: "hp_swap_child hp i p = Some (Some n)" "n < length V" "0 < n"
      "hp_parent n = i" "fst (V ! n) < p"
      "\<And>j. j < length V \<Longrightarrow> 0 < j \<Longrightarrow> hp_parent j = i \<Longrightarrow> fst (V ! n) \<le> fst (V ! j)"
    from some(3,4) hp_parent_less [of n] have ni: "n \<noteq> i" by auto
    have cell: "hp_cell hp n = Some (V ! n)" by (rule but_at_cell [OF "1.prems"(1) some(2) ni])
    obtain hp1 where hp1: "hp_write hp i (V ! n) = Some hp1" "but_at hp1 (swap_at V i n) n"
      "same_frame hp hp1" using but_at_move [OF "1.prems"(1) i some(2) ni] by blast
    have step: "hp_bubble_down hp i p lst = hp_bubble_down hp1 n p lst"
      using some(1) cell hp1(1) by (subst hp_bubble_down.simps) simp
    have down: "down_inv (swap_at V i n) n"
      by (rule down_inv_step [OF "1.prems"(2)]) (use some "1.prems"(3,4) in auto)
    have sw: "swap_at V i n ! n = x" using i some(2) "1.prems"(3) by (simp add: nth_swap_at)
    have "rd (hp_table hp1) lst = Some x"
      using hp1(1) "1.prems"(5,6) i
      by (auto simp: hp_write_def hp_get_header_def split: if_splits)
    then obtain hp' V' where "hp_bubble_down hp1 n p lst = Some hp'" "same_frame hp1 hp'"
      "table_is hp' V'" "heap_upto V' (length V')" "mset V' = mset (swap_at V i n)"
      using "1.IH" [OF some(1) refl cell hp1(1) hp1(2) down sw "1.prems"(4)] "1.prems"(5) by auto
    then show ?thesis
      using step same_frame_trans [OF hp1(3)] mset_swap_at [OF i some(2)] by auto
  qed
qed

section \<open>Invariant and contract\<close>

definition hp_cells :: "'a heap_t \<Rightarrow> (u32 \<times> 'a) list" where
  "hp_cells hp = cells (hp_table hp) (hp_len hp)"

definition hp_vals :: "'a heap_t \<Rightarrow> 'a multiset" where
  "hp_vals hp = mset (map snd (hp_cells hp))"

text \<open>
  \<open>hp_block_inv\<close> is what holds when a client has changed values in place; \<open>hp_inv\<close> adds that
  the cached priorities are up to date and in heap order.
\<close>

definition hp_block_inv :: "'a heap_t \<Rightarrow> bool" where [inv_defs]:
  "hp_block_inv hp \<longleftrightarrow> 0 < hp_cap hp \<and> 0 < hp_val_size hp \<and> hp_cell_size hp = 4 + hp_val_size hp \<and>
     length (hp_table hp) = hp_cap hp \<and> filled (hp_table hp) (hp_len hp)"

definition cached :: "('a \<Rightarrow> u32) \<Rightarrow> (u32 \<times> 'a) list \<Rightarrow> bool" where
  "cached f V \<longleftrightarrow> (\<forall>c \<in> set V. fst c = f (snd c))"

definition hp_inv :: "'a heap_t \<Rightarrow> bool" where [inv_defs]:
  "hp_inv hp \<longleftrightarrow> hp_block_inv hp \<and> heap_upto (hp_cells hp) (hp_len hp) \<and>
     cached (hp_priority_func hp) (hp_cells hp)"

lemma table_is_cells: "table_is hp V \<Longrightarrow> hp_cells hp = V"
  by (auto simp: table_is_def hp_cells_def intro: cells_eqI)

lemma cells_table_is: "hp_block_inv hp \<Longrightarrow> table_is hp (hp_cells hp)"
  by (simp add: hp_block_inv_def table_is_def hp_cells_def filled_rd del: nth_cells)
    (simp add: filled_def)

lemma length_hp_cells [simp]: "length (hp_cells hp) = hp_len hp"
  by (simp add: hp_cells_def)

lemma cached_mset: "cached f V \<Longrightarrow> mset V' = mset V \<Longrightarrow> cached f V'"
  by (auto simp: cached_def dest: mset_eq_setD)

lemma block_invI:
  "table_is hp V \<Longrightarrow> 0 < hp_cap hp \<Longrightarrow> 0 < hp_val_size hp \<Longrightarrow> hp_cell_size hp = 4 + hp_val_size hp \<Longrightarrow>
   length (hp_table hp) = hp_cap hp \<Longrightarrow> hp_block_inv hp"
  by (auto simp: hp_block_inv_def table_is_def intro: filledI [of _ _ V])

lemma hp_invI:
  "table_is hp V \<Longrightarrow> hp_block_inv hp \<Longrightarrow> heap_upto V (length V) \<Longrightarrow>
   cached (hp_priority_func hp) V \<Longrightarrow> hp_inv hp \<and> hp_vals hp = mset (map snd V)"
  using table_is_cells [of hp V] by (simp add: hp_inv_def hp_vals_def table_is_def)

lemma same_frame_block:
  "same_frame hp hp' \<Longrightarrow> table_is hp' V \<Longrightarrow> 0 < hp_cap hp \<Longrightarrow> 0 < hp_val_size hp \<Longrightarrow>
   hp_cell_size hp = 4 + hp_val_size hp \<Longrightarrow> length (hp_table hp) = hp_cap hp \<Longrightarrow> hp_block_inv hp'"
  using block_invI [of hp' V] same_frame_sel [of hp hp'] by simp

lemma new_heap_ok:
  "new_heap vs (Some f) = Some hp \<Longrightarrow> hp_inv hp \<and> hp_vals hp = {#} \<and> hp_priority_func hp = f"
  by (auto simp: new_heap_def hp_inv_def hp_block_inv_def hp_vals_def hp_cells_def cached_def
      heap_upto_def filled_def split: if_splits)

lemma hp_push_ok:
  assumes inv: "hp_inv hp"
  shows "\<exists>hp'. hp_push hp x = Some hp' \<and> hp_inv hp' \<and> hp_vals hp' = add_mset x (hp_vals hp) \<and>
    hp_priority_func hp' = hp_priority_func hp"
proof -
  let ?n = "hp_len hp" and ?p = "hp_priority_func hp x"
  define hp1 where "hp1 = (if ?n = hp_cap hp
     then hp\<lparr>hp_cap := hp_cap hp * 2, hp_table := cells_realloc (hp_table hp) (hp_cap hp * 2)\<rparr> else hp)"
  define hp2 where "hp2 = hp1\<lparr>hp_len := hp_len hp1 + 1\<rparr>"
  have tab: "table_is hp (hp_cells hp)" and blk: "hp_block_inv hp"
    using inv cells_table_is [of hp] by (simp_all add: hp_inv_def)
  have hp2: "hp_len hp2 = Suc ?n" "?n < length (hp_table hp2)" "length (hp_table hp2) = hp_cap hp2"
    "0 < hp_cap hp2" "0 < hp_val_size hp2" "hp_cell_size hp2 = 4 + hp_val_size hp2"
    "hp_priority_func hp2 = hp_priority_func hp"
    using blk by (auto simp: hp2_def hp1_def hp_block_inv_def filled_def)
  define V where "V = hp_cells hp @ [(?p, x)]"
  have "rd (hp_table hp2) j = Some (hp_cells hp ! j)" if "j < ?n" for j
    using tab blk that by (simp add: hp2_def hp1_def table_is_def hp_block_inv_def)
  then have but: "but_at hp2 V ?n"
    using hp2 by (auto simp: but_at_def V_def nth_append)
  have up: "up_inv V (Suc ?n) ?n"
  proof -
    have "hp_parent j < ?n" if "j < ?n" "0 < j" for j using hp_parent_less [of j] that by simp
    moreover have "hp_parent j \<noteq> ?n" if "j < Suc ?n" "0 < j" for j
      using hp_parent_less [of j] that by simp
    ultimately show ?thesis
      using inv by (auto simp: up_inv_def V_def nth_append hp_inv_def heap_upto_def less_Suc_eq)
  qed
  obtain hp3 i V' where b: "hp_bubble_up hp2 ?n ?p = Some (hp3, i)" "same_frame hp2 hp3"
    "but_at hp3 V' i" "i < length V'" "V' ! i = (?p, x)" "heap_upto V' (Suc ?n)" "mset V' = mset V"
    "length V' = length V"
    using bubble_up_ok [OF but up, of ?p] by (auto simp: V_def nth_append)
  obtain hp4 where w: "hp_write hp3 i (?p, x) = Some hp4" "table_is hp4 V'" "same_frame hp3 hp4"
    using but_at_fill [OF b(3,4)] b(5) by auto
  have frame: "same_frame hp2 hp4" using b(2) w(3) by (rule same_frame_trans)
  have "hp_push hp x = do { (hp3, i) \<leftarrow> hp_bubble_up hp2 (hp_len hp2 - 1) (hp_priority_func hp2 x);
      hp_write hp3 i (hp_priority_func hp2 x, x) }"
    unfolding hp_push_def hp1_def hp2_def Let_def by (rule refl)
  then have "hp_push hp x = Some hp4"
    using b(1) w(1) hp2 by simp
  moreover have "hp_inv hp4 \<and> hp_vals hp4 = mset (map snd V')"
  proof (rule hp_invI [OF w(2)])
    show "hp_block_inv hp4" using same_frame_block [OF frame w(2)] hp2 by simp
    show "heap_upto V' (length V')" using b(6,8) by (simp add: V_def)
    have "cached (hp_priority_func hp) V" using inv by (auto simp: hp_inv_def cached_def V_def)
    then show "cached (hp_priority_func hp4) V'"
      using cached_mset b(7) same_frame_sel [OF frame] hp2(7) by simp
  qed
  moreover have "mset (map snd V') = add_mset x (hp_vals hp)"
    using b(7) by (simp add: V_def hp_vals_def)
  ultimately show ?thesis using same_frame_sel [OF frame] hp2(7) by simp
qed

lemma hp_vals_empty: "hp_vals hp = {#} \<longleftrightarrow> hp_len hp = 0"
  using length_hp_cells [of hp] by (auto simp: hp_vals_def simp flip: length_0_conv)

lemma hp_pop_empty: "hp_vals hp = {#} \<Longrightarrow> hp_pop hp = Some (None, hp)"
  by (simp add: hp_vals_empty hp_pop_def)

lemma hp_root_least:
  assumes "hp_inv hp" "y \<in># hp_vals hp"
  shows "hp_priority_func hp (snd (hp_cells hp ! 0)) \<le> hp_priority_func hp y"
proof -
  have c: "fst (hp_cells hp ! k) = hp_priority_func hp (snd (hp_cells hp ! k))" if "k < hp_len hp" for k
    using assms(1) that by (simp add: hp_inv_def cached_def)
  obtain j where j: "j < hp_len hp" "y = snd (hp_cells hp ! j)"
    using assms(2) by (auto simp: hp_vals_def in_set_conv_nth)
  then have "fst (hp_cells hp ! 0) \<le> fst (hp_cells hp ! j)"
    using assms(1) heap_root_least [of "hp_cells hp" "hp_len hp" j] by (simp add: hp_inv_def)
  with c j show ?thesis by simp
qed

lemma hp_pop_ok:
  assumes inv: "hp_inv hp" and ne: "hp_vals hp \<noteq> {#}"
  shows "\<exists>x hp'. hp_pop hp = Some (Some x, hp') \<and> x \<in># hp_vals hp \<and>
    (\<forall>y \<in># hp_vals hp. hp_priority_func hp x \<le> hp_priority_func hp y) \<and>
    hp_inv hp' \<and> hp_vals hp' = hp_vals hp - {#x#} \<and> hp_priority_func hp' = hp_priority_func hp"
proof -
  let ?cs = "hp_cells hp" and ?f = "hp_priority_func hp"
  have blk: "hp_block_inv hp" and tab: "table_is hp ?cs"
    using inv cells_table_is [of hp] by (simp_all add: hp_inv_def)
  obtain c0 cs where cs: "?cs = c0 # cs"
    using ne by (cases ?cs) (auto simp: hp_vals_def)
  then have n: "hp_len hp = Suc (length cs)" using length_hp_cells [of hp] by simp
  have root: "hp_cell hp 0 = Some c0" using table_is_cell [OF tab, of 0] cs by simp
  have least: "\<forall>y \<in># hp_vals hp. ?f (snd c0) \<le> ?f y"
    using hp_root_least [OF inv] cs by simp
  have mem: "snd c0 \<in># hp_vals hp" by (simp add: hp_vals_def cs)
  define hp1 where "hp1 = hp\<lparr>hp_len := length cs\<rparr>"
  have goal: ?thesis if "hp_pop hp = Some (Some (snd c0), hp')" "same_frame hp1 hp'"
    "table_is hp' V" "heap_upto V (length V)" "mset V = mset cs" for hp' V
  proof -
    have "cached ?f cs" using inv cs by (simp add: hp_inv_def cached_def)
    then have "hp_inv hp' \<and> hp_vals hp' = mset (map snd V)"
      using blk same_frame_sel [OF that(2)] cached_mset [OF _ that(5)]
      by (intro hp_invI [OF that(3) _ that(4)] same_frame_block [OF that(2,3)])
        (simp_all add: hp1_def hp_block_inv_def)
    moreover have "hp_vals hp - {#snd c0#} = mset (map snd V)"
      using that(5) by (simp add: hp_vals_def cs)
    moreover have "hp_priority_func hp' = ?f"
      using same_frame_sel [OF that(2)] by (simp add: hp1_def)
    ultimately show ?thesis
      using that(1) least mem by (intro exI [of _ "snd c0"] exI [of _ hp']) simp
  qed
  show ?thesis
  proof (cases cs rule: rev_cases)
    case Nil
    then have "hp_pop hp = Some (Some (snd c0), hp1)"
      using n root by (simp add: hp_pop_def hp1_def)
    moreover have "table_is hp1 []" by (simp add: table_is_def hp1_def Nil)
    ultimately show ?thesis using goal [of hp1 "[]"] Nil by (simp add: heap_upto_def)
  next
    case (snoc ys x)
    let ?m = "length ys"
    have n2: "hp_len hp = Suc (Suc ?m)" "hp_len hp1 = Suc ?m" using n snoc by (simp_all add: hp1_def)
    have lastc: "hp_cell hp (Suc ?m) = Some x" "rd (hp_table hp) (Suc ?m) = Some x"
      using table_is_cell [OF tab, of "Suc ?m"] tab cs snoc n2 by (simp_all add: table_is_def)
    define V where "V = x # ys"
    have "rd (hp_table hp) j = Some (V ! j)" if "j < Suc ?m" "j \<noteq> 0" for j
      using tab that n2 by (cases j) (auto simp: table_is_def cs snoc V_def nth_append)
    then have but: "but_at hp1 V 0"
      using n2 tab by (auto simp: but_at_def V_def hp1_def table_is_def cs snoc)
    have keys: "V ! j = ?cs ! j" if "0 < j" "j < Suc ?m" for j
      using that by (cases j) (auto simp: V_def cs snoc nth_append)
    have "key V (hp_parent j) \<le> key V j" if "j < Suc ?m" "0 < j" "hp_parent j \<noteq> 0" for j
      using that keys [of j] keys [of "hp_parent j"] hp_parent_less [of j] inv n2
      by (auto simp: hp_inv_def heap_upto_def)
    then have "down_inv V 0" by (simp add: down_inv_def V_def)
    then obtain hp' V' where b: "hp_bubble_down hp1 0 (fst x) (Suc ?m) = Some hp'"
      "same_frame hp1 hp'" "table_is hp' V'" "heap_upto V' (length V')" "mset V' = mset V"
      using bubble_down_ok [OF but, of x "fst x" "Suc ?m"] lastc(2)
      by (auto simp: V_def hp1_def)
    have "hp_pop hp = Some (Some (snd c0), hp')"
      using root lastc(1) n2 b(1) snoc by (simp add: hp_pop_def hp1_def)
    with b(2-) show ?thesis using goal [of hp' V'] snoc by (simp add: V_def)
  qed
qed

subsection \<open>Restoring the order\<close>

lemma hp_recalc_ok:
  "table_is hp V \<Longrightarrow> i + n = length V \<Longrightarrow>
   \<exists>hp'. hp_recalc n hp i = Some hp' \<and> same_frame hp hp' \<and>
     table_is hp' (take i V @ map (\<lambda>c. (hp_priority_func hp (snd c), snd c)) (drop i V))"
proof (induction n arbitrary: hp V i)
  case (Suc n)
  let ?f = "hp_priority_func hp"
  have i: "i < length V" using Suc.prems by simp
  let ?c = "(?f (snd (V ! i)), snd (V ! i))"
  obtain hp1 where w: "hp_write hp i ?c = Some hp1" "table_is hp1 (V[i := ?c])" "same_frame hp hp1"
    using but_at_fill [of hp "V[i := ?c]" i] Suc.prems(1) i
    by (auto simp: but_at_def table_is_def nth_list_update)
  have f1: "hp_priority_func hp1 = ?f" using same_frame_sel [OF w(3)] by simp
  obtain hp' where "hp_recalc n hp1 (Suc i) = Some hp'" "same_frame hp1 hp'"
    "table_is hp' (take (Suc i) (V[i := ?c]) @
      map (\<lambda>c. (?f (snd c), snd c)) (drop (Suc i) (V[i := ?c])))"
    using Suc.IH [OF w(2), of "Suc i"] Suc.prems i f1 by auto
  moreover have "take (Suc i) (V[i := ?c]) @ map (\<lambda>c. (?f (snd c), snd c)) (drop (Suc i) (V[i := ?c])) =
      take i V @ map (\<lambda>c. (?f (snd c), snd c)) (drop i V)"
    using i by (simp add: take_Suc_conv_app_nth Cons_nth_drop_Suc [OF i, symmetric])
  ultimately show ?case
    using table_is_cell [OF Suc.prems(1) i] w(1) same_frame_trans [OF w(3)] by simp
qed simp

lemma hp_rebuild_ok:
  "table_is hp V \<Longrightarrow> heap_upto V e \<Longrightarrow> 0 < e \<Longrightarrow> e + n = length V \<Longrightarrow>
   \<exists>hp' V'. hp_rebuild n hp e = Some hp' \<and> same_frame hp hp' \<and> table_is hp' V' \<and>
     heap_upto V' (length V') \<and> mset V' = mset V"
proof (induction n arbitrary: hp V e)
  case 0
  then show ?case by (intro exI [of _ hp] exI [of _ V]) simp
next
  case (Suc n)
  have e: "e < length V" using Suc.prems by simp
  have up: "up_inv V (Suc e) e"
  proof -
    have "hp_parent j \<noteq> e" if "j < Suc e" "0 < j" for j using hp_parent_less [of j] that by simp
    then show ?thesis using Suc.prems(2) e by (auto simp: up_inv_def heap_upto_def less_Suc_eq)
  qed
  obtain hp1 i V1 where b: "hp_bubble_up hp e (fst (V ! e)) = Some (hp1, i)" "same_frame hp hp1"
    "but_at hp1 V1 i" "i < length V1" "V1 ! i = V ! e" "i = e \<longrightarrow> hp1 = hp \<and> V1 = V"
    "heap_upto V1 (Suc e)" "mset V1 = mset V" "length V1 = length V"
    using bubble_up_ok [OF table_is_but [OF Suc.prems(1)] up refl] by auto
  obtain hp2 where w: "(if i \<noteq> e then hp_write hp1 i (fst (V ! e), snd (V ! e)) else Some hp1) = Some hp2"
    "table_is hp2 V1" "same_frame hp1 hp2"
  proof (cases "i = e")
    case True
    with b(6) Suc.prems(1) show thesis using that [of hp1] by simp
  next
    case False
    with but_at_fill [OF b(3,4)] b(5) show thesis using that by auto
  qed
  obtain hp' V' where "hp_rebuild n hp2 (Suc e) = Some hp'" "same_frame hp2 hp'" "table_is hp' V'"
    "heap_upto V' (length V')" "mset V' = mset V1"
    using Suc.IH [OF w(2) b(7)] Suc.prems(4) b(9) by auto
  moreover have "same_frame hp hp2" using b(2) w(3) by (rule same_frame_trans)
  ultimately show ?case
    using table_is_cell [OF Suc.prems(1) e] b(1,8) w(1) same_frame_trans [of hp hp2 hp']
    by (intro exI [of _ hp'] exI [of _ V']) simp
qed

lemma hp_re_heap_ok:
  assumes "hp_block_inv hp"
  shows "\<exists>hp'. hp_re_heap hp = Some hp' \<and> hp_inv hp' \<and> hp_vals hp' = hp_vals hp \<and>
    hp_priority_func hp' = hp_priority_func hp"
proof -
  let ?f = "hp_priority_func hp" and ?cs = "hp_cells hp"
  define V where "V = map (\<lambda>c. (?f (snd c), snd c)) ?cs"
  have len: "length V = hp_len hp" by (simp add: V_def)
  obtain hp1 where r: "hp_recalc (hp_len hp) hp 0 = Some hp1" "same_frame hp hp1" "table_is hp1 V"
    using hp_recalc_ok [OF cells_table_is [OF assms], of 0 "hp_len hp"] by (auto simp: V_def)
  have len1: "hp_len hp1 = hp_len hp" using same_frame_sel [OF r(2)] by simp
  obtain hp2 V2 where b: "hp_rebuild (hp_len hp1 - 1) hp1 1 = Some hp2" "same_frame hp1 hp2"
    "table_is hp2 V2" "heap_upto V2 (length V2)" "mset V2 = mset V"
  proof (cases "hp_len hp")
    case 0
    then show thesis using that [of hp1 V] r(3) len len1 by (simp add: heap_upto_def)
  next
    case (Suc k)
    then show thesis using that hp_rebuild_ok [OF r(3), of 1 k] len len1 by (auto simp: heap_upto_def)
  qed
  have frame: "same_frame hp hp2" using r(2) b(2) by (rule same_frame_trans)
  have "cached ?f V" by (simp add: cached_def V_def)
  then have "hp_inv hp2 \<and> hp_vals hp2 = mset (map snd V2)"
    using assms same_frame_sel [OF frame] cached_mset [OF _ b(5)]
    by (intro hp_invI [OF b(3) _ b(4)] same_frame_block [OF frame b(3)])
      (simp_all add: hp_block_inv_def)
  moreover have "mset (map snd V2) = hp_vals hp"
    using b(5) by (simp add: hp_vals_def V_def image_mset.compositionality comp_def)
  ultimately show ?thesis
    using r(1) b(1) same_frame_sel [OF frame] by (simp add: hp_re_heap_def)
qed

section \<open>The priority queue interface\<close>

text \<open>Clients push every element, then pop until the queue is empty.\<close>

fun push_all :: "('s \<Rightarrow> 'a \<Rightarrow> 's option) \<Rightarrow> 's \<Rightarrow> 'a list \<Rightarrow> 's option" where
  "push_all push s [] = Some s"
| "push_all push s (x # xs) = do { s' \<leftarrow> push s x; push_all push s' xs }"

partial_function (option) pop_until_empty ::
    "('s \<Rightarrow> ('a option \<times> 's) option) \<Rightarrow> 's \<Rightarrow> 'a list option" where
  "pop_until_empty pop s =
     do { (out, s') \<leftarrow> pop s;
          (case out of None \<Rightarrow> Some []
           | Some x \<Rightarrow> do { xs \<leftarrow> pop_until_empty pop s'; Some (x # xs) }) }"

locale priority_queue =
  fixes inv :: "'s \<Rightarrow> bool" and vals :: "'s \<Rightarrow> 'a multiset" and prio :: "'s \<Rightarrow> 'a \<Rightarrow> 'p :: linorder"
    and push :: "'s \<Rightarrow> 'a \<Rightarrow> 's option" and pop :: "'s \<Rightarrow> ('a option \<times> 's) option"
  assumes push_law: "inv s \<Longrightarrow> \<exists>s'. push s x = Some s' \<and> inv s' \<and> vals s' = add_mset x (vals s) \<and>
      prio s' = prio s"
    and pop_none: "inv s \<Longrightarrow> vals s = {#} \<Longrightarrow> pop s = Some (None, s)"
    and pop_least: "inv s \<Longrightarrow> vals s \<noteq> {#} \<Longrightarrow> \<exists>x s'. pop s = Some (Some x, s') \<and> x \<in># vals s \<and>
      (\<forall>y \<in># vals s. prio s x \<le> prio s y) \<and> inv s' \<and> vals s' = vals s - {#x#} \<and>
      prio s' = prio s"

context priority_queue begin

lemma push_all_law:
  "inv s \<Longrightarrow> \<exists>s'. push_all push s xs = Some s' \<and> inv s' \<and> vals s' = mset xs + vals s \<and>
    prio s' = prio s"
proof (induction xs arbitrary: s)
  case (Cons x xs)
  obtain s1 where "push s x = Some s1" "inv s1" "vals s1 = add_mset x (vals s)" "prio s1 = prio s"
    using push_law [OF Cons.prems] by blast
  with Cons.IH [of s1] show ?case by auto
qed simp

lemma pop_until_empty_sorts:
  "inv s \<Longrightarrow> \<exists>xs. pop_until_empty pop s = Some xs \<and> mset xs = vals s \<and> sorted (map (prio s) xs)"
proof (induction "size (vals s)" arbitrary: s)
  case 0
  with pop_none [of s] show ?case by (simp add: pop_until_empty.simps)
next
  case (Suc n)
  then have "vals s \<noteq> {#}" by auto
  from pop_least [OF Suc.prems this] obtain x s1 where s1: "pop s = Some (Some x, s1)"
    "x \<in># vals s" "\<forall>y \<in># vals s. prio s x \<le> prio s y" "inv s1" "vals s1 = vals s - {#x#}"
    "prio s1 = prio s" by blast
  then have "n = size (vals s1)" using Suc.hyps(2) by (simp add: size_Diff_singleton)
  from Suc.hyps(1) [OF this s1(4)] obtain xs where xs: "pop_until_empty pop s1 = Some xs"
    "mset xs = vals s1" "sorted (map (prio s1) xs)" by blast
  have "\<forall>y \<in> set xs. prio s x \<le> prio s y"
    using s1(3,5) xs(2) by (metis in_diffD set_mset_mset)
  moreover have "pop_until_empty pop s = Some (x # xs)"
    using s1(1) xs(1) by (subst pop_until_empty.simps) simp
  ultimately show ?case using s1 xs by auto
qed

lemma push_then_pop_sorts:
  assumes "inv s" "vals s = {#}"
  shows "\<exists>s' ys. push_all push s xs = Some s' \<and> pop_until_empty pop s' = Some ys \<and>
    mset ys = mset xs \<and> sorted (map (prio s) ys)"
proof -
  obtain s' where s': "push_all push s xs = Some s'" "inv s'" "vals s' = mset xs" "prio s' = prio s"
    using push_all_law [OF assms(1), of xs] assms(2) by auto
  with pop_until_empty_sorts [OF s'(2)] show ?thesis by auto
qed

end

interpretation heap: priority_queue hp_inv hp_vals hp_priority_func hp_push hp_pop
  by unfold_locales (simp_all add: hp_push_ok hp_pop_empty hp_pop_ok)

section \<open>Properties\<close>

text \<open>C11. The heap is a priority queue: values pushed in any order onto a new heap, whatever
  the resizes, come out of repeated \<open>hp_pop\<close> as a permutation of what was pushed, in
  ascending order of priority, and the popping ends.\<close>

theorem heap_pops_in_order:
  assumes "new_heap vs (Some f) = Some hp"
  shows "\<exists>hp' ys. push_all hp_push hp xs = Some hp' \<and> pop_until_empty hp_pop hp' = Some ys \<and>
    mset ys = mset xs \<and> sorted (map f ys)"
  using heap.push_then_pop_sorts [of hp xs] new_heap_ok [OF assms] by simp

theorem heap_pops_in_order_witness:
  "\<exists>hp hp' ys. new_heap 4 (Some (\<lambda>n. of_nat n)) = Some hp \<and>
     push_all hp_push hp [3, 1, 2 :: nat] = Some hp' \<and> pop_until_empty hp_pop hp' = Some ys \<and>
     mset ys = {#1, 2, 3#}"
proof -
  obtain hp where hp: "new_heap 4 (Some (\<lambda>n. of_nat n :: u32)) = Some (hp :: nat heap_t)"
    by (simp add: new_heap_def)
  from heap_pops_in_order [OF hp, of "[3, 1, 2]"] hp show ?thesis by auto
qed

text \<open>\<open>hp_re_heap\<close> repairs the heap after a client has changed values, or the meaning of
  the priority function, in place: from any table of written cells, whatever the stale
  priorities, it terminates without touching unowned memory, keeps the values, and the heap
  pops them in the order of the current priority function.\<close>

theorem re_heap_restores_order:
  assumes "hp_block_inv hp"
  shows "\<exists>hp' ys. hp_re_heap hp = Some hp' \<and> hp_inv hp' \<and> pop_until_empty hp_pop hp' = Some ys \<and>
    mset ys = hp_vals hp \<and> sorted (map (hp_priority_func hp) ys)"
proof -
  obtain hp' where hp': "hp_re_heap hp = Some hp'" "hp_inv hp'" "hp_vals hp' = hp_vals hp"
    "hp_priority_func hp' = hp_priority_func hp" using hp_re_heap_ok [OF assms] by blast
  with heap.pop_until_empty_sorts [OF hp'(2)] show ?thesis by auto
qed

definition stale_heap :: "nat heap_t" where
  "stale_heap = \<lparr>hp_cell_size = 8, hp_val_size = 4, hp_cap = 4, hp_len = 3,
     hp_table = [Some (0, 9), Some (7, 3), Some (1, 5), None],
     hp_priority_func = (\<lambda>n. of_nat n), hp_iter = 0\<rparr>"

lemma stale_heap_block: "hp_block_inv stale_heap"
  by (simp add: hp_block_inv_def stale_heap_def filled_def rd_def less_Suc_eq numeral_3_eq_3 all_conj_distrib)

theorem re_heap_restores_order_witness:
  "\<exists>hp' ys. hp_re_heap stale_heap = Some hp' \<and> pop_until_empty hp_pop hp' = Some ys \<and>
     mset ys = {#9, 3, 5#}"
proof -
  have "hp_vals stale_heap = {#9, 3, 5#}"
    by (simp add: hp_vals_def hp_cells_def stale_heap_def cells_def rd_def upt_rec)
  with re_heap_restores_order [OF stale_heap_block] show ?thesis by auto
qed

end
