(* ===== verification/Chutil_Map.thy ===== *)
theory Chutil_Map
  imports Ch_Prelude "HOL-Library.Monad_Syntax"
begin

text \<open>
  The chained hash map of \<open>chutil/src/map.c\<close>.  A chain is the list of its key-value headers in
  \<open>next\<close> order (each node belongs to exactly one chain, so a list stands for the linked nodes);
  a pointer to a node inside a chain, as the iterator keeps one, is the rest of the chain from
  that node on, and NULL is the empty list.  The hash and equality functions are the fields
  \<open>hash_func\<close> and \<open>eq_func\<close>, as in the code.

  The locale \<open>hash_key\<close> states what the map needs of them.  Under it the map refines an
  association list: every run of put, get, remove, count and a whole iteration gives the
  outputs of the association list.
\<close>

section \<open>State and operations\<close>

record ('k, 'v) kvh =
  kv_hash :: u32
  kv_key :: 'k
  kv_val :: 'v

record ('k, 'v) hash_map_t =
  hm_key_size :: nat
  hm_value_size :: nat
  hm_hash_func :: "'k \<Rightarrow> u32"
  hm_eq_func :: "'k \<Rightarrow> 'k \<Rightarrow> bool"
  hm_num_keys :: nat
  hm_chains_cap :: nat
  hm_chains :: "('k, 'v) kvh list list"
  hm_iter_chain_ind :: nat
  hm_iter :: "('k, 'v) kvh list"

text \<open>The iterator fields are not initialised by the constructor: \<open>ji\<close>, \<open>jn\<close>.\<close>

definition new_hash_map ::
    "nat \<Rightarrow> ('k, 'v) kvh list \<Rightarrow> nat \<Rightarrow> nat \<Rightarrow> ('k \<Rightarrow> u32) option \<Rightarrow> ('k \<Rightarrow> 'k \<Rightarrow> bool) option \<Rightarrow>
     ('k, 'v) hash_map_t option" where
  "new_hash_map ji jn ks vs hf ef =
     (case (hf, ef) of
        (Some h, Some e) \<Rightarrow>
          if ks = 0 then None
          else Some \<lparr>hm_key_size = ks, hm_value_size = vs, hm_hash_func = h, hm_eq_func = e,
                     hm_num_keys = 0, hm_chains_cap = 8, hm_chains = replicate 8 [],
                     hm_iter_chain_ind = ji, hm_iter = jn\<rparr>
      | _ \<Rightarrow> None)"

definition HM_FILL_FACTOR :: nat where "HM_FILL_FACTOR = 2"

text \<open>One node moved to the front of its new chain; the two loops of \<open>hm_check_resize\<close>.\<close>

definition hm_move_node ::
    "nat \<Rightarrow> ('k, 'v) kvh \<Rightarrow> ('k, 'v) kvh list list \<Rightarrow> ('k, 'v) kvh list list" where
  "hm_move_node new_cap n new_chains =
     (let new_ind = unat (kv_hash n) mod new_cap
      in new_chains[new_ind := n # new_chains ! new_ind])"

definition hm_rehash ::
    "nat \<Rightarrow> ('k, 'v) kvh list list \<Rightarrow> ('k, 'v) kvh list list \<Rightarrow> ('k, 'v) kvh list list" where
  "hm_rehash new_cap css new_chains = fold (fold (hm_move_node new_cap)) css new_chains"

definition hm_check_resize :: "('k, 'v) hash_map_t \<Rightarrow> ('k, 'v) hash_map_t" where
  "hm_check_resize hm =
     (if hm_num_keys hm * HM_FILL_FACTOR \<le> hm_chains_cap hm then hm
      else let new_cap = hm_chains_cap hm * 2;
               new_chains = hm_rehash new_cap (hm_chains hm) (replicate new_cap [])
           in hm\<lparr>hm_chains_cap := new_cap, hm_chains := new_chains\<rparr>)"

definition hm_match :: "('k, 'v) hash_map_t \<Rightarrow> u32 \<Rightarrow> 'k \<Rightarrow> ('k, 'v) kvh \<Rightarrow> bool" where
  "hm_match hm h k n \<longleftrightarrow> kv_hash n = h \<and> hm_eq_func hm (kv_key n) k"

text \<open>The walks along a chain: the first match read, overwritten, or unlinked.\<close>

fun chain_get :: "(('k, 'v) kvh \<Rightarrow> bool) \<Rightarrow> ('k, 'v) kvh list \<Rightarrow> 'v option" where
  "chain_get m [] = None"
| "chain_get m (n # ns) = (if m n then Some (kv_val n) else chain_get m ns)"

fun chain_set ::
    "(('k, 'v) kvh \<Rightarrow> bool) \<Rightarrow> 'v \<Rightarrow> ('k, 'v) kvh list \<Rightarrow> ('k, 'v) kvh list option" where
  "chain_set m v [] = None"
| "chain_set m v (n # ns) =
     (if m n then Some (n\<lparr>kv_val := v\<rparr> # ns) else map_option ((#) n) (chain_set m v ns))"

fun chain_remove :: "(('k, 'v) kvh \<Rightarrow> bool) \<Rightarrow> ('k, 'v) kvh list \<Rightarrow> ('k, 'v) kvh list option" where
  "chain_remove m [] = None"
| "chain_remove m (n # ns) = (if m n then Some ns else map_option ((#) n) (chain_remove m ns))"

definition hm_put :: "('k, 'v) hash_map_t \<Rightarrow> 'k \<Rightarrow> 'v \<Rightarrow> ('k, 'v) hash_map_t" where
  "hm_put hm key val =
     (let h = hm_hash_func hm key;
          ind = unat h mod hm_chains_cap hm;
          chain = hm_chains hm ! ind
      in case chain_set (hm_match hm h key) val chain of
           Some chain' \<Rightarrow> hm\<lparr>hm_chains := (hm_chains hm)[ind := chain']\<rparr>
         | None \<Rightarrow>
             hm_check_resize
               (hm\<lparr>hm_chains :=
                     (hm_chains hm)[ind := \<lparr>kv_hash = h, kv_key = key, kv_val = val\<rparr> # chain],
                   hm_num_keys := hm_num_keys hm + 1\<rparr>))"

definition hm_get :: "('k, 'v) hash_map_t \<Rightarrow> 'k \<Rightarrow> 'v option" where
  "hm_get hm key =
     (let h = hm_hash_func hm key
      in chain_get (hm_match hm h key) (hm_chains hm ! (unat h mod hm_chains_cap hm)))"

definition hm_contains :: "('k, 'v) hash_map_t \<Rightarrow> 'k \<Rightarrow> bool" where
  "hm_contains hm key \<longleftrightarrow> hm_get hm key \<noteq> None"

definition hm_remove :: "('k, 'v) hash_map_t \<Rightarrow> 'k \<Rightarrow> bool \<times> ('k, 'v) hash_map_t" where
  "hm_remove hm key =
     (let h = hm_hash_func hm key;
          ind = unat h mod hm_chains_cap hm
      in case chain_remove (hm_match hm h key) (hm_chains hm ! ind) of
           None \<Rightarrow> (False, hm)
         | Some chain' \<Rightarrow>
             (True, hm\<lparr>hm_chains := (hm_chains hm)[ind := chain'], hm_num_keys := hm_num_keys hm - 1\<rparr>))"

text \<open>The first chain from \<open>i\<close> on that is not empty; the number of chains if there is none.\<close>

function hm_scan :: "('k, 'v) kvh list list \<Rightarrow> nat \<Rightarrow> nat" where
  "hm_scan css i = (if i < length css \<and> css ! i = [] then hm_scan css (i + 1) else i)"
  by pat_completeness auto
termination by (relation "measure (\<lambda>(css, i). length css - i)") auto

declare hm_scan.simps [simp del]

definition hm_reset_iterator :: "('k, 'v) hash_map_t \<Rightarrow> ('k, 'v) hash_map_t" where
  "hm_reset_iterator hm =
     (let i = hm_scan (hm_chains hm) 0
      in if i < hm_chains_cap hm
         then hm\<lparr>hm_iter_chain_ind := i, hm_iter := hm_chains hm ! i\<rparr>
         else hm\<lparr>hm_iter := []\<rparr>)"

definition hm_next_kvp :: "('k, 'v) hash_map_t \<Rightarrow> ('k \<times> 'v) option \<times> ('k, 'v) hash_map_t" where
  "hm_next_kvp hm =
     (case hm_iter hm of
        [] \<Rightarrow> (None, hm)
      | n # rest \<Rightarrow>
          (Some (kv_key n, kv_val n),
           if rest \<noteq> [] then hm\<lparr>hm_iter := rest\<rparr>
           else let i = hm_scan (hm_chains hm) (hm_iter_chain_ind hm + 1)
                in hm\<lparr>hm_iter_chain_ind := i,
                      hm_iter := (if i < hm_chains_cap hm then hm_chains hm ! i else [])\<rparr>))"

text \<open>\<open>hm_equals\<close> moves the iterator of its first argument, which is returned.\<close>

partial_function (option) hm_equals_loop ::
    "('v \<Rightarrow> 'v \<Rightarrow> bool) \<Rightarrow> ('k, 'v) hash_map_t \<Rightarrow> ('k, 'v) hash_map_t \<Rightarrow>
     (bool \<times> ('k, 'v) hash_map_t) option" where
  "hm_equals_loop val_eq hm1 hm2 =
     (case hm_next_kvp hm1 of
        (None, hm1') \<Rightarrow> Some (True, hm1')
      | (Some (key, val), hm1') \<Rightarrow>
          (case hm_get hm2 key of
             None \<Rightarrow> Some (False, hm1')
           | Some val2 \<Rightarrow> if val_eq val val2 then hm_equals_loop val_eq hm1' hm2
                          else Some (False, hm1')))"

definition hm_equals ::
    "('v \<Rightarrow> 'v \<Rightarrow> bool) \<Rightarrow> ('k, 'v) hash_map_t \<Rightarrow> ('k, 'v) hash_map_t \<Rightarrow>
     (bool \<times> ('k, 'v) hash_map_t) option" where
  "hm_equals val_eq hm1 hm2 =
     (if hm_num_keys hm1 \<noteq> hm_num_keys hm2 then Some (False, hm1)
      else hm_equals_loop val_eq (hm_reset_iterator hm1) hm2)"

text \<open>The nodes \<open>delete_hash_map\<close> frees, in order.\<close>

definition delete_hash_map :: "('k, 'v) hash_map_t \<Rightarrow> ('k, 'v) kvh list" where
  "delete_hash_map hm = fold (\<lambda>chain freed. freed @ chain) (hm_chains hm) []"

section \<open>Chains\<close>

declare mset_concat [simp del]

lemma chain_get_Some: "chain_get m ns = Some v \<Longrightarrow> \<exists>n \<in> set ns. m n \<and> kv_val n = v"
  by (induction ns) (auto split: if_splits)

lemma chain_get_None: "chain_get m ns = None \<longleftrightarrow> (\<forall>n \<in> set ns. \<not> m n)"
  by (induction ns) auto

lemma chain_set_None: "chain_set m v ns = None \<longleftrightarrow> (\<forall>n \<in> set ns. \<not> m n)"
  by (induction ns) auto

lemma chain_set_Some:
  "chain_set m v ns = Some ns' \<Longrightarrow>
   \<exists>xs n ys. ns = xs @ n # ys \<and> m n \<and> ns' = xs @ n\<lparr>kv_val := v\<rparr> # ys"
proof (induction ns arbitrary: ns')
  case (Cons n ns)
  show ?case
  proof (cases "m n")
    case True
    with Cons.prems show ?thesis by (intro exI [of _ "[]"]) auto
  next
    case False
    with Cons.prems obtain ms where ms: "chain_set m v ns = Some ms" "ns' = n # ms" by auto
    from Cons.IH [OF ms(1)] obtain xs a ys where
      "ns = xs @ a # ys" "m a" "ms = xs @ a\<lparr>kv_val := v\<rparr> # ys" by blast
    with ms(2) show ?thesis by (intro exI [of _ "n # xs"]) auto
  qed
qed simp

lemma chain_remove_None: "chain_remove m ns = None \<longleftrightarrow> (\<forall>n \<in> set ns. \<not> m n)"
  by (induction ns) auto

lemma chain_remove_Some:
  "chain_remove m ns = Some ns' \<Longrightarrow> \<exists>xs n ys. ns = xs @ n # ys \<and> m n \<and> ns' = xs @ ys"
proof (induction ns arbitrary: ns')
  case (Cons n ns)
  show ?case
  proof (cases "m n")
    case True
    with Cons.prems show ?thesis by (intro exI [of _ "[]"]) auto
  next
    case False
    with Cons.prems obtain ms where ms: "chain_remove m ns = Some ms" "ns' = n # ms" by auto
    from Cons.IH [OF ms(1)] obtain xs a ys where "ns = xs @ a # ys" "m a" "ms = xs @ ys" by blast
    with ms(2) show ?thesis by (intro exI [of _ "n # xs"]) auto
  qed
qed simp

lemma find_map_option: "find p (map f xs) = map_option f (find (p \<circ> f) xs)"
  by (induction xs) auto

lemma mset_concat_update:
  "i < length css \<Longrightarrow>
   mset (concat (css[i := cs])) + mset (css ! i) = mset (concat css) + mset cs"
  by (induction css arbitrary: i) (auto split: nat.split simp: ac_simps)

lemma mset_concat_replicate_Nil [simp]: "concat (replicate n []) = []"
  by (induction n) auto

lemma nth_subset_concat: "i < length css \<Longrightarrow> set (css ! i) \<subseteq> set (concat css)"
proof
  fix x assume "i < length css" "x \<in> set (css ! i)"
  then show "x \<in> set (concat css)" using nth_mem [of i css] by (simp only: set_concat) blast
qed

section \<open>Rehashing\<close>

text \<open>Every node sits in the chain of its hash.\<close>

definition in_place :: "('k, 'v) kvh list list \<Rightarrow> bool" where [inv_defs]:
  "in_place css \<longleftrightarrow> (\<forall>i < length css. \<forall>n \<in> set (css ! i). unat (kv_hash n) mod length css = i)"

lemma in_place_empty [simp]: "in_place (replicate n [])"
  by (simp add: in_place_def)

lemma in_placeD:
  "in_place css \<Longrightarrow> i < length css \<Longrightarrow> n \<in> set (css ! i) \<Longrightarrow> unat (kv_hash n) mod length css = i"
  by (simp add: in_place_def)

lemma hm_move_node_ok:
  assumes "length css = cap" "0 < cap" "in_place css"
  shows "length (hm_move_node cap n css) = cap \<and> in_place (hm_move_node cap n css) \<and>
    mset (concat (hm_move_node cap n css)) = add_mset n (mset (concat css))"
proof -
  let ?i = "unat (kv_hash n) mod cap"
  have i: "?i < length css" using assms by simp
  have "mset (concat (css[?i := n # css ! ?i])) + mset (css ! ?i) =
      add_mset n (mset (concat css)) + mset (css ! ?i)"
    using mset_concat_update [OF i, of "n # css ! ?i"] by (simp add: ac_simps)
  then show ?thesis
    using assms i by (auto simp: hm_move_node_def Let_def in_place_def nth_list_update)
qed

lemma hm_move_chain_ok:
  "length css = cap \<Longrightarrow> 0 < cap \<Longrightarrow> in_place css \<Longrightarrow>
   length (fold (hm_move_node cap) ns css) = cap \<and> in_place (fold (hm_move_node cap) ns css) \<and>
   mset (concat (fold (hm_move_node cap) ns css)) = mset ns + mset (concat css)"
proof (induction ns arbitrary: css)
  case (Cons n ns)
  with hm_move_node_ok [OF Cons.prems, of n] Cons.IH [of "hm_move_node cap n css"]
  show ?case by simp
qed simp

lemma hm_rehash_ok:
  "length css = cap \<Longrightarrow> 0 < cap \<Longrightarrow> in_place css \<Longrightarrow>
   length (hm_rehash cap old css) = cap \<and> in_place (hm_rehash cap old css) \<and>
   mset (concat (hm_rehash cap old css)) = mset (concat old) + mset (concat css)"
  unfolding hm_rehash_def
proof (induction old arbitrary: css)
  case (Cons ns old)
  with hm_move_chain_ok [OF Cons.prems, of ns] Cons.IH [of "fold (hm_move_node cap) ns css"]
  show ?case by (simp add: ac_simps)
qed simp

section \<open>Iteration\<close>

definition hm_remaining :: "('k, 'v) hash_map_t \<Rightarrow> ('k, 'v) kvh list" where
  "hm_remaining hm =
     (if hm_iter hm = [] then []
      else hm_iter hm @ concat (drop (Suc (hm_iter_chain_ind hm)) (hm_chains hm)))"

lemma hm_scan_ok:
  "i \<le> length css \<Longrightarrow> hm_scan css i \<le> length css \<and>
   concat (drop (hm_scan css i) css) = concat (drop i css) \<and>
   (hm_scan css i < length css \<longrightarrow> css ! hm_scan css i \<noteq> [])"
proof (induction css i rule: hm_scan.induct)
  case (1 css i)
  show ?case
  proof (cases "i < length css \<and> css ! i = []")
    case True
    then have "concat (drop i css) = concat (drop (i + 1) css)"
      using Cons_nth_drop_Suc [of i css] by (metis Suc_eq_plus1 append_Nil concat.simps(2))
    moreover have "hm_scan css i = hm_scan css (i + 1)" using True by (simp add: hm_scan.simps [of css i])
    ultimately show ?thesis using "1.IH" [OF True] True by simp
  next
    case False
    then have "hm_scan css i = i" by (subst hm_scan.simps) auto
    with False "1.prems" show ?thesis by auto
  qed
qed

lemma hm_remaining_scan:
  assumes "length (hm_chains hm) = hm_chains_cap hm" "i \<le> hm_chains_cap hm"
  defines "j \<equiv> hm_scan (hm_chains hm) i"
  shows "hm_remaining (hm\<lparr>hm_iter_chain_ind := j,
      hm_iter := (if j < hm_chains_cap hm then hm_chains hm ! j else [])\<rparr>) =
    concat (drop i (hm_chains hm))"
proof -
  have "concat (drop j (hm_chains hm)) = concat (drop i (hm_chains hm))"
    "j < hm_chains_cap hm \<longrightarrow> hm_chains hm ! j \<noteq> []"
    using hm_scan_ok [of i "hm_chains hm"] assms(1,2) by (simp_all add: j_def)
  moreover have "concat (drop j (hm_chains hm)) = hm_chains hm ! j @ concat (drop (Suc j) (hm_chains hm))"
    if "j < hm_chains_cap hm"
    using Cons_nth_drop_Suc [of j "hm_chains hm"] that assms(1) by (metis concat.simps(2))
  ultimately show ?thesis using assms(1) by (auto simp: hm_remaining_def)
qed

lemma hm_reset_remaining:
  assumes "length (hm_chains hm) = hm_chains_cap hm"
  shows "hm_remaining (hm_reset_iterator hm) = concat (hm_chains hm)"
  using hm_remaining_scan [OF assms, of 0]
  by (auto simp: hm_reset_iterator_def Let_def hm_remaining_def split: if_splits)

lemma hm_next_end: "hm_remaining hm = [] \<Longrightarrow> hm_next_kvp hm = (None, hm)"
  by (cases "hm_iter hm") (auto simp: hm_remaining_def hm_next_kvp_def)

definition hm_in_iteration :: "('k, 'v) hash_map_t \<Rightarrow> bool" where
  "hm_in_iteration hm \<longleftrightarrow> length (hm_chains hm) = hm_chains_cap hm \<and>
     (hm_iter hm \<noteq> [] \<longrightarrow> hm_iter_chain_ind hm < hm_chains_cap hm)"

text \<open>Only the iterator fields of the two maps differ.\<close>

definition hm_same :: "('k, 'v) hash_map_t \<Rightarrow> ('k, 'v) hash_map_t \<Rightarrow> bool" where
  "hm_same hm hm' \<longleftrightarrow>
     hm\<lparr>hm_iter_chain_ind := 0, hm_iter := []\<rparr> = hm'\<lparr>hm_iter_chain_ind := 0, hm_iter := []\<rparr>"

lemma hm_same_sel:
  assumes "hm_same hm hm'"
  shows "hm_hash_func hm' = hm_hash_func hm" "hm_eq_func hm' = hm_eq_func hm"
    "hm_num_keys hm' = hm_num_keys hm" "hm_chains_cap hm' = hm_chains_cap hm"
    "hm_chains hm' = hm_chains hm"
  using assms by (cases hm; cases hm'; simp add: hm_same_def)+

lemma hm_same_refl [simp]: "hm_same hm hm"
  by (simp add: hm_same_def)

lemma hm_same_trans: "hm_same a b \<Longrightarrow> hm_same b c \<Longrightarrow> hm_same a c"
  by (simp add: hm_same_def)

lemma hm_same_iter [simp]:
  "hm_same hm (hm\<lparr>hm_iter := ns\<rparr>)" "hm_same hm (hm\<lparr>hm_iter_chain_ind := i, hm_iter := ns\<rparr>)"
  by (simp_all add: hm_same_def)

lemma hm_reset_ok:
  "length (hm_chains hm) = hm_chains_cap hm \<Longrightarrow>
   hm_in_iteration (hm_reset_iterator hm) \<and> hm_same hm (hm_reset_iterator hm)"
  by (simp add: hm_in_iteration_def hm_reset_iterator_def Let_def)

lemma hm_next_more:
  assumes "hm_in_iteration hm" "hm_remaining hm = n # ns"
  shows "\<exists>hm'. hm_next_kvp hm = (Some (kv_key n, kv_val n), hm') \<and> hm_in_iteration hm' \<and>
    hm_same hm hm' \<and> hm_remaining hm' = ns"
proof -
  have len: "length (hm_chains hm) = hm_chains_cap hm" using assms(1) by (simp add: hm_in_iteration_def)
  obtain rest where it: "hm_iter hm = n # rest"
    using assms(2) by (cases "hm_iter hm") (auto simp: hm_remaining_def)
  then have ind: "hm_iter_chain_ind hm + 1 \<le> hm_chains_cap hm"
    and ns: "ns = rest @ concat (drop (Suc (hm_iter_chain_ind hm)) (hm_chains hm))"
    using assms by (auto simp: hm_in_iteration_def hm_remaining_def)
  show ?thesis
  proof (cases "rest = []")
    case False
    then show ?thesis
      using it ns assms(1)
      by (intro exI [of _ "hm\<lparr>hm_iter := rest\<rparr>"])
        (simp add: hm_next_kvp_def hm_in_iteration_def hm_remaining_def)
  next
    case True
    let ?j = "hm_scan (hm_chains hm) (hm_iter_chain_ind hm + 1)"
    let ?hm = "hm\<lparr>hm_iter_chain_ind := ?j,
      hm_iter := (if ?j < hm_chains_cap hm then hm_chains hm ! ?j else [])\<rparr>"
    have "hm_next_kvp hm = (Some (kv_key n, kv_val n), ?hm)"
      using True it by (simp add: hm_next_kvp_def Let_def)
    moreover have "hm_remaining ?hm = ns"
      using hm_remaining_scan [OF len ind] True ns by simp
    moreover have "hm_in_iteration ?hm" using len by (simp add: hm_in_iteration_def)
    ultimately show ?thesis by (intro exI [of _ ?hm]) simp
  qed
qed

text \<open>The loop every client writes: \<open>while ((kvp = hm_next_kvp(hm)) != HASH_MAP_EXHAUSTED)\<close>.\<close>

partial_function (option) hm_collect ::
    "('k, 'v) hash_map_t \<Rightarrow> (('k \<times> 'v) list \<times> ('k, 'v) hash_map_t) option" where
  "hm_collect hm =
     (case hm_next_kvp hm of
        (None, hm') \<Rightarrow> Some ([], hm')
      | (Some p, hm') \<Rightarrow>
          do { (ps, hm'') \<leftarrow> hm_collect hm'; Some (p # ps, hm'') })"

abbreviation pair_of :: "('k, 'v) kvh \<Rightarrow> 'k \<times> 'v" where "pair_of n \<equiv> (kv_key n, kv_val n)"

lemma hm_collect_ok:
  "hm_in_iteration hm \<Longrightarrow>
   \<exists>hm'. hm_collect hm = Some (map pair_of (hm_remaining hm), hm') \<and> hm_same hm hm'"
proof (induction "hm_remaining hm" arbitrary: hm)
  case Nil
  with hm_next_end [of hm] show ?case by (simp add: hm_collect.simps)
next
  case (Cons n ns)
  obtain hm1 where h: "hm_next_kvp hm = (Some (pair_of n), hm1)" "hm_in_iteration hm1"
    "hm_same hm hm1" "hm_remaining hm1 = ns"
    using hm_next_more [OF Cons.prems Cons.hyps(2) [symmetric]] by blast
  obtain hm2 where "hm_collect hm1 = Some (map pair_of ns, hm2)" "hm_same hm1 hm2"
    using Cons.hyps(1) [OF h(4) [symmetric] h(2)] h(4) by auto
  then show ?case
    using h(1,3) hm_same_trans [of hm hm1 hm2] Cons.hyps(2) [symmetric]
    by (subst hm_collect.simps) simp
qed

lemma hm_equals_loop_ok:
  "hm_in_iteration hm1 \<Longrightarrow>
   \<exists>hm1'. hm_equals_loop veq hm1 hm2 =
       Some (\<forall>n \<in> set (hm_remaining hm1). \<exists>v. hm_get hm2 (kv_key n) = Some v \<and> veq (kv_val n) v, hm1') \<and>
     hm_same hm1 hm1'"
proof (induction "hm_remaining hm1" arbitrary: hm1)
  case Nil
  with hm_next_end [of hm1] show ?case by (simp add: hm_equals_loop.simps)
next
  case (Cons n ns)
  obtain h where h: "hm_next_kvp hm1 = (Some (pair_of n), h)" "hm_in_iteration h"
    "hm_same hm1 h" "hm_remaining h = ns"
    using hm_next_more [OF Cons.prems Cons.hyps(2) [symmetric]] by blast
  obtain h' where h': "hm_equals_loop veq h hm2 =
      Some (\<forall>n \<in> set ns. \<exists>v. hm_get hm2 (kv_key n) = Some v \<and> veq (kv_val n) v, h')" "hm_same h h'"
    using Cons.hyps(1) [OF h(4) [symmetric] h(2)] h(4) by auto
  show ?case
  proof (cases "hm_get hm2 (kv_key n)")
    case None
    with h show ?thesis using Cons.hyps(2) [symmetric]
      by (subst hm_equals_loop.simps) simp
  next
    case (Some v)
    show ?thesis
    proof (cases "veq (kv_val n) v")
      case True
      with Some h h' show ?thesis
        using Cons.hyps(2) [symmetric] hm_same_trans [of hm1 h h']
        by (subst hm_equals_loop.simps) simp
    next
      case False
      with Some h show ?thesis
        using Cons.hyps(2) [symmetric] by (subst hm_equals_loop.simps) simp
    qed
  qed
qed

section \<open>The association list specification\<close>

definition alist_get :: "('k \<Rightarrow> 'k \<Rightarrow> bool) \<Rightarrow> ('k \<times> 'v) list \<Rightarrow> 'k \<Rightarrow> 'v option" where
  "alist_get eq al k = map_option snd (find (\<lambda>p. eq (fst p) k) al)"

definition alist_put :: "('k \<Rightarrow> 'k \<Rightarrow> bool) \<Rightarrow> ('k \<times> 'v) list \<Rightarrow> 'k \<Rightarrow> 'v \<Rightarrow> ('k \<times> 'v) list" where
  "alist_put eq al k v =
     (if \<exists>p \<in> set al. eq (fst p) k
      then map (\<lambda>p. if eq (fst p) k then (fst p, v) else p) al else (k, v) # al)"

definition alist_remove :: "('k \<Rightarrow> 'k \<Rightarrow> bool) \<Rightarrow> ('k \<times> 'v) list \<Rightarrow> 'k \<Rightarrow> ('k \<times> 'v) list" where
  "alist_remove eq al k = filter (\<lambda>p. \<not> eq (fst p) k) al"

section \<open>Client runs and their specification\<close>

datatype ('k, 'v) map_cmd = MPut 'k 'v | MGet 'k | MRemove 'k | MCount | MIterate

datatype ('k, 'v) map_out =
  OVoid | OVal "'v option" | ORemoved bool | OCount nat | OPairs "('k \<times> 'v) multiset"

fun map_step :: "('k, 'v) hash_map_t \<Rightarrow> ('k, 'v) map_cmd \<Rightarrow>
    (('k, 'v) map_out \<times> ('k, 'v) hash_map_t) option" where
  "map_step hm (MPut k v) = Some (OVoid, hm_put hm k v)"
| "map_step hm (MGet k) = Some (OVal (hm_get hm k), hm)"
| "map_step hm (MRemove k) = (case hm_remove hm k of (b, hm') \<Rightarrow> Some (ORemoved b, hm'))"
| "map_step hm MCount = Some (OCount (hm_num_keys hm), hm)"
| "map_step hm MIterate =
     do { (ps, hm') \<leftarrow> hm_collect (hm_reset_iterator hm); Some (OPairs (mset ps), hm') }"

fun map_run :: "('k, 'v) hash_map_t \<Rightarrow> ('k, 'v) map_cmd list \<Rightarrow>
    (('k, 'v) map_out list \<times> ('k, 'v) hash_map_t) option" where
  "map_run hm [] = Some ([], hm)"
| "map_run hm (c # cs) =
     do { (out, hm') \<leftarrow> map_step hm c; (outs, hm'') \<leftarrow> map_run hm' cs; Some (out # outs, hm'') }"

fun alist_step :: "('k \<Rightarrow> 'k \<Rightarrow> bool) \<Rightarrow> ('k \<times> 'v) list \<Rightarrow> ('k, 'v) map_cmd \<Rightarrow>
    ('k, 'v) map_out \<times> ('k \<times> 'v) list" where
  "alist_step eq al (MPut k v) = (OVoid, alist_put eq al k v)"
| "alist_step eq al (MGet k) = (OVal (alist_get eq al k), al)"
| "alist_step eq al (MRemove k) = (ORemoved (alist_get eq al k \<noteq> None), alist_remove eq al k)"
| "alist_step eq al MCount = (OCount (length al), al)"
| "alist_step eq al MIterate = (OPairs (mset al), al)"

fun alist_run :: "('k \<Rightarrow> 'k \<Rightarrow> bool) \<Rightarrow> ('k \<times> 'v) list \<Rightarrow> ('k, 'v) map_cmd list \<Rightarrow>
    ('k, 'v) map_out list \<times> ('k \<times> 'v) list" where
  "alist_run eq al [] = ([], al)"
| "alist_run eq al (c # cs) =
     (case alist_step eq al c of (out, al') \<Rightarrow>
        case alist_run eq al' cs of (outs, al'') \<Rightarrow> (out # outs, al''))"

fun cmd_keys :: "('k, 'v) map_cmd \<Rightarrow> 'k set" where
  "cmd_keys (MPut k v) = {k}"
| "cmd_keys (MGet k) = {k}"
| "cmd_keys (MRemove k) = {k}"
| "cmd_keys MCount = {}"
| "cmd_keys MIterate = {}"

section \<open>Keys the map can hold\<close>

definition hm_nodes :: "('k, 'v) hash_map_t \<Rightarrow> ('k, 'v) kvh list" where
  "hm_nodes hm = concat (hm_chains hm)"

definition hm_pairs :: "('k, 'v) hash_map_t \<Rightarrow> ('k \<times> 'v) list" where
  "hm_pairs hm = map pair_of (hm_nodes hm)"

definition apart :: "('k \<Rightarrow> 'k \<Rightarrow> bool) \<Rightarrow> ('k, 'v) kvh multiset \<Rightarrow> bool" where
  "apart eq M \<longleftrightarrow> (\<forall>n \<in># M. \<forall>m \<in># M - {#n#}. \<not> eq (kv_key n) (kv_key m))"

locale hash_key =
  fixes hash :: "'k \<Rightarrow> u32" and eq :: "'k \<Rightarrow> 'k \<Rightarrow> bool" and valid :: "'k \<Rightarrow> bool"
  assumes eq_refl: "valid k \<Longrightarrow> eq k k"
    and eq_sym: "valid k \<Longrightarrow> valid k' \<Longrightarrow> eq k k' \<Longrightarrow> eq k' k"
    and eq_trans: "valid k1 \<Longrightarrow> valid k2 \<Longrightarrow> valid k3 \<Longrightarrow> eq k1 k2 \<Longrightarrow> eq k2 k3 \<Longrightarrow> eq k1 k3"
    and hash_eq: "valid k \<Longrightarrow> valid k' \<Longrightarrow> eq k k' \<Longrightarrow> hash k = hash k'"

context hash_key begin

definition node_ok :: "('k, 'v) kvh \<Rightarrow> bool" where
  "node_ok n \<longleftrightarrow> valid (kv_key n) \<and> kv_hash n = hash (kv_key n)"

definition nodes_inv :: "('k, 'v) kvh multiset \<Rightarrow> bool" where
  "nodes_inv M \<longleftrightarrow> (\<forall>n \<in># M. node_ok n) \<and> apart eq M"

definition inv :: "('k, 'v) hash_map_t \<Rightarrow> bool" where
  "inv hm \<longleftrightarrow> hm_hash_func hm = hash \<and> hm_eq_func hm = eq \<and> 0 < hm_chains_cap hm \<and>
     length (hm_chains hm) = hm_chains_cap hm \<and> in_place (hm_chains hm) \<and>
     hm_num_keys hm = length (hm_nodes hm) \<and> nodes_inv (mset (hm_nodes hm))"

lemma nodes_inv_add:
  "nodes_inv (add_mset n R) \<longleftrightarrow>
   node_ok n \<and> nodes_inv R \<and> (\<forall>r \<in># R. \<not> eq (kv_key n) (kv_key r))"
proof
  assume inv: "nodes_inv (add_mset n R)"
  have "\<not> eq (kv_key a) (kv_key b)" if "a \<in># R" "b \<in># R - {#a#}" for a b
  proof -
    have "b \<in># add_mset n R - {#a#}" using that by (cases "a = n") (auto dest: in_diffD)
    with that inv show ?thesis by (auto simp: nodes_inv_def apart_def)
  qed
  moreover have "\<not> eq (kv_key n) (kv_key r)" if "r \<in># R" for r
    using inv that by (auto simp: nodes_inv_def apart_def)
  ultimately show "node_ok n \<and> nodes_inv R \<and> (\<forall>r \<in># R. \<not> eq (kv_key n) (kv_key r))"
    using inv by (auto simp: nodes_inv_def apart_def)
next
  assume r: "node_ok n \<and> nodes_inv R \<and> (\<forall>r \<in># R. \<not> eq (kv_key n) (kv_key r))"
  have "\<not> eq (kv_key a) (kv_key b)" if "a \<in># add_mset n R" "b \<in># add_mset n R - {#a#}" for a b
  proof (cases "a = n")
    case True
    with r that show ?thesis by auto
  next
    case False
    then have a: "a \<in># R" using that by simp
    then have "b = n \<or> b \<in># R - {#a#}" using that False by auto
    with a r show ?thesis
      using eq_sym [of "kv_key a" "kv_key n"] by (auto simp: nodes_inv_def node_ok_def apart_def)
  qed
  with r show "nodes_inv (add_mset n R)" by (auto simp: nodes_inv_def apart_def)
qed

lemma only_match:
  assumes "nodes_inv (add_mset n R)" "valid k" "eq (kv_key n) k" "r \<in># R"
  shows "\<not> eq (kv_key r) k"
proof
  assume "eq (kv_key r) k"
  moreover have "valid (kv_key r)" "valid (kv_key n)" "\<not> eq (kv_key n) (kv_key r)"
    using assms(1,4) nodes_inv_add [of n R] by (auto simp: nodes_inv_def node_ok_def)
  ultimately show False using eq_trans eq_sym assms(2,3) by blast
qed

lemma match_iff:
  assumes "inv hm" "valid k" "n \<in> set (hm_nodes hm)"
  shows "hm_match hm (hash k) k n \<longleftrightarrow> eq (kv_key n) k"
  using assms hash_eq by (auto simp: hm_match_def inv_def nodes_inv_def node_ok_def)

text \<open>The chain of \<open>k\<close> holds every node whose key equals \<open>k\<close>.\<close>

lemma chain_of:
  assumes "inv hm" "valid k"
  defines "i \<equiv> unat (hash k) mod hm_chains_cap hm"
  shows "i < length (hm_chains hm)" "set (hm_chains hm ! i) \<subseteq> set (hm_nodes hm)"
    "n \<in> set (hm_nodes hm) \<Longrightarrow> eq (kv_key n) k \<Longrightarrow> n \<in> set (hm_chains hm ! i)"
proof -
  show i: "i < length (hm_chains hm)" using assms by (simp add: inv_def)
  then show "set (hm_chains hm ! i) \<subseteq> set (hm_nodes hm)"
    unfolding hm_nodes_def by (rule nth_subset_concat)
  assume n: "n \<in> set (hm_nodes hm)" "eq (kv_key n) k"
  then obtain cs where "cs \<in> set (hm_chains hm)" "n \<in> set cs"
    by (auto simp: hm_nodes_def)
  then obtain j where j: "j < length (hm_chains hm)" "n \<in> set (hm_chains hm ! j)"
    by (metis in_set_conv_nth)
  have "node_ok n" using assms(1) n(1) by (simp add: inv_def nodes_inv_def)
  then have "kv_hash n = hash k" using hash_eq n(2) assms(2) by (simp add: node_ok_def)
  moreover have "unat (kv_hash n) mod length (hm_chains hm) = j"
    using assms(1) in_placeD [OF _ j] by (simp add: inv_def)
  ultimately have "j = i" using assms(1) by (simp add: inv_def i_def)
  with j show "n \<in> set (hm_chains hm ! i)" by simp
qed

lemma get_Some_iff:
  assumes "inv hm" "valid k"
  shows "hm_get hm k = Some v \<longleftrightarrow> (\<exists>n \<in> set (hm_nodes hm). eq (kv_key n) k \<and> kv_val n = v)"
    (is "?get = Some v \<longleftrightarrow> ?ex v")
proof -
  let ?c = "hm_chains hm ! (unat (hash k) mod hm_chains_cap hm)"
  have g: "?get = chain_get (hm_match hm (hash k) k) ?c"
    using assms(1) by (simp add: hm_get_def Let_def inv_def)
  note c = chain_of [OF assms]
  have dir: "?ex w" if "?get = Some w" for w
    using chain_get_Some [of _ ?c w] that g c(2) match_iff [OF assms] by fastforce
  have "?get \<noteq> None" if "?ex v"
  proof -
    from that obtain n where n: "n \<in> set (hm_nodes hm)" "eq (kv_key n) k" by blast
    then show ?thesis using g chain_get_None c(3) match_iff [OF assms n(1)] by metis
  qed
  moreover have "w = v" if ex: "?ex v" "?ex w" for w
  proof -
    obtain n m where n: "n \<in> set (hm_nodes hm)" "eq (kv_key n) k" "kv_val n = v"
      and m: "m \<in> set (hm_nodes hm)" "eq (kv_key m) k" "kv_val m = w" using ex by blast
    obtain R where R: "mset (hm_nodes hm) = add_mset n R"
      using n(1) by (metis mset_add set_mset_mset)
    then have "m = n \<or> m \<in># R" using m(1) by (metis insert_iff set_mset_add_mset_insert set_mset_mset)
    moreover have "m \<notin># R"
      using only_match [of n R k m] assms n(2) m(2) R by (auto simp: inv_def)
    ultimately show ?thesis using n(3) m(3) by simp
  qed
  ultimately show ?thesis using dir by (metis option.exhaust)
qed

definition rel :: "('k, 'v) hash_map_t \<Rightarrow> ('k \<times> 'v) list \<Rightarrow> bool" where
  "rel hm al \<longleftrightarrow> inv hm \<and> mset (hm_pairs hm) = mset al"

lemma rel_set: "rel hm al \<Longrightarrow> set al = pair_of ` set (hm_nodes hm)"
  unfolding rel_def hm_pairs_def by (metis set_map set_mset_mset)

lemma get_refines:
  assumes "rel hm al" "valid k"
  shows "hm_get hm k = alist_get eq al k"
proof -
  have inv: "inv hm" using assms(1) by (simp add: rel_def)
  note iff = get_Some_iff [OF inv assms(2)]
  show ?thesis
  proof (cases "find (\<lambda>p. eq (fst p) k) al")
    case None
    then have "hm_get hm k \<noteq> Some v" for v
      using iff [of v] rel_set [OF assms(1)] by (auto simp: find_None_iff)
    with None show ?thesis by (auto simp: alist_get_def)
  next
    case (Some p)
    then have "p \<in> set al" "eq (fst p) k" by (auto simp: find_Some_iff)
    then have "hm_get hm k = Some (snd p)" using iff rel_set [OF assms(1)] by auto
    with Some show ?thesis by (simp add: alist_get_def)
  qed
qed

lemma check_resize_rel:
  assumes "rel hm al" shows "rel (hm_check_resize hm) al"
proof (cases "hm_num_keys hm * HM_FILL_FACTOR \<le> hm_chains_cap hm")
  case False
  let ?cap = "hm_chains_cap hm * 2"
  have inv: "inv hm" using assms by (simp add: rel_def)
  define css where "css = hm_rehash ?cap (hm_chains hm) (replicate ?cap [])"
  from hm_rehash_ok [of "replicate ?cap []" ?cap "hm_chains hm"] inv
  have r: "length css = ?cap" "in_place css" "mset (concat css) = mset (hm_nodes hm)"
    by (simp_all add: inv_def hm_nodes_def css_def)
  then have "length (concat css) = length (hm_nodes hm)" by (metis size_mset)
  moreover have "hm_check_resize hm = hm\<lparr>hm_chains_cap := ?cap, hm_chains := css\<rparr>"
    using False by (simp add: hm_check_resize_def Let_def css_def)
  ultimately show ?thesis
    using r inv assms by (simp add: rel_def inv_def hm_pairs_def hm_nodes_def)
qed (use assms in \<open>simp add: hm_check_resize_def\<close>)

text \<open>A chain replaced by one whose nodes differ in one node.\<close>

lemma inv_replace_chain:
  assumes "inv hm" "i < length (hm_chains hm)" "in_place ((hm_chains hm)[i := cs])"
    "mset (concat ((hm_chains hm)[i := cs])) = M" "nodes_inv M"
  shows "inv (hm\<lparr>hm_chains := (hm_chains hm)[i := cs], hm_num_keys := size M\<rparr>) \<and>
    mset (hm_pairs (hm\<lparr>hm_chains := (hm_chains hm)[i := cs], hm_num_keys := size M\<rparr>)) =
      image_mset pair_of M"
proof -
  have "length (concat ((hm_chains hm)[i := cs])) = size M" using assms(4) by (metis size_mset)
  with assms show ?thesis by (simp add: inv_def hm_nodes_def hm_pairs_def)
qed

lemma in_place_subset:
  assumes "in_place css" "i < length css"
    "\<And>n. n \<in> set cs \<Longrightarrow> \<exists>m \<in> set (css ! i). kv_hash n = kv_hash m"
  shows "in_place (css[i := cs])"
  using assms(1,2) assms(3) by (fastforce simp: in_place_def nth_list_update)

lemma alist_put_split:
  assumes "mset al = add_mset (k', w) R" "eq k' k" "\<forall>p \<in># R. \<not> eq (fst p) k"
  shows "mset (alist_put eq al k v) = add_mset (k', v) R" "mset (alist_remove eq al k) = R"
proof -
  have "(k', w) \<in> set al" using assms(1) by (metis set_mset_mset union_single_eq_member)
  with assms(2) have ex: "\<exists>p \<in> set al. eq (fst p) k" by force
  have "image_mset (\<lambda>p. if eq (fst p) k then (fst p, v) else p) R = image_mset id R"
    using assms(3) by (intro image_mset_cong) auto
  with ex assms(1,2) show "mset (alist_put eq al k v) = add_mset (k', v) R"
    by (simp add: alist_put_def)
  have "filter_mset (\<lambda>p. \<not> eq (fst p) k) R = R"
    using assms(3) by (simp add: filter_mset_eq_conv)
  with assms(1,2) show "mset (alist_remove eq al k) = R"
    by (simp add: alist_remove_def mset_filter)
qed

lemma found:
  assumes "rel hm al" "valid k"
  defines "i \<equiv> unat (hash k) mod hm_chains_cap hm"
  assumes "hm_chains hm ! i = xs @ n # ys" "hm_match hm (hash k) k n"
  obtains R where "mset (hm_nodes hm) = add_mset n R" "nodes_inv (add_mset n R)"
    "eq (kv_key n) k" "\<forall>r \<in># R. \<not> eq (kv_key r) k" "mset al = add_mset (pair_of n) (image_mset pair_of R)"
    "mset (concat ((hm_chains hm)[i := xs @ ys])) = R"
    "\<forall>n'. mset (concat ((hm_chains hm)[i := xs @ n' # ys])) = add_mset n' R"
proof -
  have inv: "inv hm" using assms(1) by (simp add: rel_def)
  note c = chain_of [OF inv assms(2), folded i_def]
  have n: "n \<in> set (hm_nodes hm)" using c(2) assms(4) by auto
  then have eqn: "eq (kv_key n) k" using match_iff [OF inv assms(2)] assms(5) by blast
  define R where "R = mset (concat ((hm_chains hm)[i := xs @ ys]))"
  have upd: "mset (concat ((hm_chains hm)[i := cs])) + mset (xs @ n # ys) =
      mset (hm_nodes hm) + mset cs" for cs
    using mset_concat_update [OF c(1), of cs] assms(4) by (simp add: hm_nodes_def)
  from upd [of "xs @ ys"] have M: "mset (hm_nodes hm) = add_mset n R"
    by (simp add: R_def)
  have "nodes_inv (add_mset n R)" using inv M by (simp add: inv_def)
  moreover have "\<forall>r \<in># R. \<not> eq (kv_key r) k" using only_match [OF calculation assms(2) eqn] by blast
  moreover have "mset al = add_mset (pair_of n) (image_mset pair_of R)"
    using assms(1) M by (simp add: rel_def hm_pairs_def)
  moreover have "mset (concat ((hm_chains hm)[i := xs @ n' # ys])) = add_mset n' R" for n'
    using upd [of "xs @ n' # ys"] M by simp
  ultimately show thesis using that M eqn R_def by simp
qed

lemma not_found:
  assumes "rel hm al" "valid k"
    "\<forall>n \<in> set (hm_chains hm ! (unat (hash k) mod hm_chains_cap hm)). \<not> hm_match hm (hash k) k n"
  shows "\<forall>p \<in> set al. \<not> eq (fst p) k" "\<forall>n \<in> set (hm_nodes hm). \<not> eq (kv_key n) k"
proof -
  have inv: "inv hm" using assms(1) by (simp add: rel_def)
  show "\<forall>n \<in> set (hm_nodes hm). \<not> eq (kv_key n) k"
    using assms(3) chain_of(3) [OF inv assms(2)] match_iff [OF inv assms(2)] by blast
  then show "\<forall>p \<in> set al. \<not> eq (fst p) k" using rel_set [OF assms(1)] by auto
qed

lemma put_refines:
  assumes "rel hm al" "valid k"
  shows "rel (hm_put hm k v) (alist_put eq al k v)"
proof -
  let ?i = "unat (hash k) mod hm_chains_cap hm"
  let ?c = "hm_chains hm ! ?i"
  have inv: "inv hm" using assms(1) by (simp add: rel_def)
  then have fields: "hm_hash_func hm = hash" by (simp add: inv_def)
  note c = chain_of [OF inv assms(2)]
  have pl: "in_place (hm_chains hm)" using inv by (simp add: inv_def)
  show ?thesis
  proof (cases "chain_set (hm_match hm (hash k) k) v ?c")
    case (Some c')
    then obtain xs n ys where s: "?c = xs @ n # ys" "hm_match hm (hash k) k n"
      "c' = xs @ n\<lparr>kv_val := v\<rparr> # ys" using chain_set_Some [OF Some] by blast
    obtain R where R: "mset (hm_nodes hm) = add_mset n R" "nodes_inv (add_mset n R)"
      "eq (kv_key n) k" "\<forall>r \<in># R. \<not> eq (kv_key r) k"
      "mset al = add_mset (pair_of n) (image_mset pair_of R)"
      "mset (concat ((hm_chains hm)[?i := xs @ ys])) = R"
      "\<forall>n'. mset (concat ((hm_chains hm)[?i := xs @ n' # ys])) = add_mset n' R"
      by (rule found [OF assms s(1,2)])
    have "nodes_inv (add_mset (n\<lparr>kv_val := v\<rparr>) R)"
      using R(2) by (simp add: nodes_inv_add) (simp add: node_ok_def)
    moreover have "in_place ((hm_chains hm)[?i := c'])"
      by (rule in_place_subset [OF pl c(1)]) (auto simp: s(1,3))
    ultimately have "inv (hm\<lparr>hm_chains := (hm_chains hm)[?i := c'], hm_num_keys := size (add_mset n R)\<rparr>) \<and>
      mset (hm_pairs (hm\<lparr>hm_chains := (hm_chains hm)[?i := c'], hm_num_keys := size (add_mset n R)\<rparr>)) =
        add_mset (kv_key n, v) (image_mset pair_of R)"
      using inv_replace_chain [OF inv c(1), of c'] R(7) s(3) by simp
    moreover have "size (add_mset n R) = hm_num_keys hm"
      using inv R(1) by (simp add: inv_def flip: size_mset)
    moreover have "mset (alist_put eq al k v) = add_mset (kv_key n, v) (image_mset pair_of R)"
      using alist_put_split(1) [OF R(5,3)] R(4) by simp
    moreover have "hm_put hm k v = hm\<lparr>hm_chains := (hm_chains hm)[?i := c']\<rparr>"
      using Some fields by (simp add: hm_put_def Let_def)
    ultimately show ?thesis by (simp add: rel_def)
  next
    case None
    then have nf: "\<forall>n \<in> set ?c. \<not> hm_match hm (hash k) k n" by (simp add: chain_set_None)
    let ?n = "\<lparr>kv_hash = hash k, kv_key = k, kv_val = v\<rparr>"
    let ?hm = "hm\<lparr>hm_chains := (hm_chains hm)[?i := ?n # ?c], hm_num_keys := hm_num_keys hm + 1\<rparr>"
    have M: "mset (concat ((hm_chains hm)[?i := ?n # ?c])) = add_mset ?n (mset (hm_nodes hm))"
      using mset_concat_update [OF c(1), of "?n # ?c"] by (simp add: hm_nodes_def)
    have "\<forall>r \<in># mset (hm_nodes hm). \<not> eq k (kv_key r)"
      using not_found(2) [OF assms nf] eq_sym [OF assms(2)] inv
      by (auto simp: inv_def nodes_inv_def node_ok_def)
    then have "nodes_inv (add_mset ?n (mset (hm_nodes hm)))"
      using inv assms(2) by (simp add: nodes_inv_add node_ok_def inv_def)
    moreover have "in_place ((hm_chains hm)[?i := ?n # ?c])"
      using pl c(1) inv by (auto simp: in_place_def nth_list_update inv_def)
    ultimately have "inv ?hm \<and> mset (hm_pairs ?hm) = add_mset (k, v) (mset (hm_pairs hm))"
      using inv_replace_chain [OF inv c(1) _ M] inv by (simp add: inv_def hm_pairs_def)
    moreover have "alist_put eq al k v = (k, v) # al"
      using not_found(1) [OF assms nf] by (simp add: alist_put_def)
    ultimately have "rel ?hm (alist_put eq al k v)" using assms(1) by (simp add: rel_def)
    moreover have "hm_put hm k v = hm_check_resize ?hm"
      using None fields by (simp add: hm_put_def Let_def)
    ultimately show ?thesis using check_resize_rel by simp
  qed
qed

lemma remove_refines:
  assumes "rel hm al" "valid k"
  shows "fst (hm_remove hm k) = (alist_get eq al k \<noteq> None) \<and>
    rel (snd (hm_remove hm k)) (alist_remove eq al k)"
proof -
  let ?i = "unat (hash k) mod hm_chains_cap hm"
  let ?c = "hm_chains hm ! ?i"
  have inv: "inv hm" using assms(1) by (simp add: rel_def)
  then have fields: "hm_hash_func hm = hash" by (simp add: inv_def)
  note c = chain_of [OF inv assms(2)]
  have pl: "in_place (hm_chains hm)" using inv by (simp add: inv_def)
  show ?thesis
  proof (cases "chain_remove (hm_match hm (hash k) k) ?c")
    case (Some c')
    then obtain xs n ys where s: "?c = xs @ n # ys" "hm_match hm (hash k) k n" "c' = xs @ ys"
      using chain_remove_Some [OF Some] by blast
    obtain R where R: "mset (hm_nodes hm) = add_mset n R" "nodes_inv (add_mset n R)"
      "eq (kv_key n) k" "\<forall>r \<in># R. \<not> eq (kv_key r) k"
      "mset al = add_mset (pair_of n) (image_mset pair_of R)"
      "mset (concat ((hm_chains hm)[?i := xs @ ys])) = R"
      "\<forall>n'. mset (concat ((hm_chains hm)[?i := xs @ n' # ys])) = add_mset n' R"
      by (rule found [OF assms s(1,2)])
    have "in_place ((hm_chains hm)[?i := c'])"
      by (rule in_place_subset [OF pl c(1)]) (auto simp: s(1,3))
    then have "inv (hm\<lparr>hm_chains := (hm_chains hm)[?i := c'], hm_num_keys := size R\<rparr>) \<and>
      mset (hm_pairs (hm\<lparr>hm_chains := (hm_chains hm)[?i := c'], hm_num_keys := size R\<rparr>)) =
        image_mset pair_of R"
      using inv_replace_chain [OF inv c(1), of c' R] R(2,6) s(3) by (simp add: nodes_inv_add)
    moreover have "size R = hm_num_keys hm - 1"
      using inv R(1) by (simp add: inv_def flip: size_mset)
    moreover have "mset (alist_remove eq al k) = image_mset pair_of R"
      using alist_put_split(2) [OF R(5,3)] R(4) by simp
    moreover have "hm_remove hm k =
        (True, hm\<lparr>hm_chains := (hm_chains hm)[?i := c'], hm_num_keys := hm_num_keys hm - 1\<rparr>)"
      using Some fields by (simp add: hm_remove_def Let_def)
    moreover have "alist_get eq al k \<noteq> None"
      using get_refines [OF assms] get_Some_iff [OF inv assms(2), of "kv_val n"] R(1,3)
      by (metis option.distinct(1) set_mset_mset union_single_eq_member)
    ultimately show ?thesis by (simp add: rel_def)
  next
    case None
    then have nf: "\<forall>n \<in> set ?c. \<not> hm_match hm (hash k) k n" by (simp add: chain_remove_None)
    have "alist_remove eq al k = al"
      using not_found(1) [OF assms nf] by (simp add: alist_remove_def filter_id_conv)
    moreover have "alist_get eq al k = None"
      using not_found(1) [OF assms nf] by (auto simp: alist_get_def find_None_iff)
    moreover have "hm_remove hm k = (False, hm)"
      using None fields by (simp add: hm_remove_def Let_def)
    ultimately show ?thesis using assms(1) by simp
  qed
qed

lemma new_rel:
  "new_hash_map ji jn ks vs (Some hash) (Some eq) = Some hm \<Longrightarrow> rel hm []"
  by (auto simp: new_hash_map_def rel_def inv_def hm_nodes_def hm_pairs_def nodes_inv_def apart_def
      split: if_splits)

lemma rel_same: "rel hm al \<Longrightarrow> hm_same hm hm' \<Longrightarrow> rel hm' al"
  using hm_same_sel [of hm hm'] by (simp add: rel_def inv_def hm_nodes_def hm_pairs_def)

lemma rel_in_iteration:
  assumes "rel hm al"
  shows "hm_in_iteration (hm_reset_iterator hm)" "rel (hm_reset_iterator hm) al"
    "hm_remaining (hm_reset_iterator hm) = hm_nodes hm"
proof -
  have len: "length (hm_chains hm) = hm_chains_cap hm"
    using assms by (simp add: rel_def inv_def)
  from hm_reset_ok [OF this] show "hm_in_iteration (hm_reset_iterator hm)"
    "rel (hm_reset_iterator hm) al" using rel_same [OF assms] by simp_all
  show "hm_remaining (hm_reset_iterator hm) = hm_nodes hm"
    using hm_reset_remaining [OF len] by (simp add: hm_nodes_def)
qed

lemma collect_refines:
  assumes "rel hm al"
  shows "\<exists>ps hm'. hm_collect (hm_reset_iterator hm) = Some (ps, hm') \<and> rel hm' al \<and> mset ps = mset al"
proof -
  note it = rel_in_iteration [OF assms]
  obtain hm' where "hm_collect (hm_reset_iterator hm) = Some (map pair_of (hm_nodes hm), hm')"
    "hm_same (hm_reset_iterator hm) hm'" using hm_collect_ok [OF it(1)] it(3) by auto
  then show ?thesis using rel_same [OF it(2)] assms by (auto simp: rel_def hm_pairs_def)
qed

lemma num_keys_refines:
  assumes "rel hm al" shows "hm_num_keys hm = length al"
proof -
  have "length (hm_pairs hm) = length al" using assms by (auto simp: rel_def dest: mset_eq_length)
  then show ?thesis using assms by (simp add: rel_def inv_def hm_pairs_def)
qed

text \<open>A map over a list of objects, each with its key and its value.\<close>

lemma objects_get:
  "rel hm (map (\<lambda>u. (key u, val u)) us) \<Longrightarrow> valid k \<Longrightarrow>
   hm_get hm k = map_option val (find (\<lambda>u. eq (key u) k) us)"
  by (simp add: get_refines alist_get_def find_map_option comp_def option.map_comp)

lemma objects_put:
  assumes "rel hm (map (\<lambda>u. (key u, val u)) us)" "valid k" "\<forall>u \<in> set us. \<not> eq (key u) k"
  shows "rel (hm_put hm k v) ((k, v) # map (\<lambda>u. (key u, val u)) us)"
  using put_refines [OF assms(1,2), of v] assms(3) by (simp add: alist_put_def)

lemma objects_remove:
  assumes "rel hm (map (\<lambda>u. (key u, val u)) us)" "valid k"
  shows "rel (snd (hm_remove hm k)) (map (\<lambda>u. (key u, val u)) (filter (\<lambda>u. \<not> eq (key u) k) us))"
  using remove_refines [OF assms] by (simp add: alist_remove_def filter_map comp_def)

text \<open>\<open>hm_equals\<close> decides equality as partial functions: counting keys is enough because
  no two nodes of a map have equal keys.\<close>

lemma node_unique:
  assumes "inv hm" "n \<in> set (hm_nodes hm)" "m \<in> set (hm_nodes hm)" "eq (kv_key n) (kv_key m)"
  shows "n = m"
proof (rule ccontr)
  assume "n \<noteq> m"
  then have "m \<in># mset (hm_nodes hm) - {#n#}" using assms(3) by (simp add: in_diff_count)
  then show False using assms by (auto simp: inv_def nodes_inv_def apart_def)
qed

lemma nodes_distinct:
  assumes "inv hm" shows "distinct (hm_nodes hm)"
proof (rule ccontr)
  assume "\<not> distinct (hm_nodes hm)"
  then obtain xs ys zs n where d: "hm_nodes hm = xs @ [n] @ ys @ [n] @ zs"
    using not_distinct_decomp by blast
  then have "n \<in># mset (hm_nodes hm) - {#n#}" "n \<in># mset (hm_nodes hm)" by simp_all
  then have "\<not> eq (kv_key n) (kv_key n)" "valid (kv_key n)"
    using assms by (auto simp: inv_def nodes_inv_def apart_def node_ok_def)
  then show False using eq_refl by blast
qed

lemma node_valid: "inv hm \<Longrightarrow> n \<in> set (hm_nodes hm) \<Longrightarrow> valid (kv_key n)"
  by (simp add: inv_def nodes_inv_def node_ok_def)

lemma key_injection:
  assumes i1: "inv hm1" and i2: "inv hm2"
    and sub: "\<forall>n \<in> set (hm_nodes hm1). \<exists>m \<in> set (hm_nodes hm2). eq (kv_key m) (kv_key n)"
  obtains f where "inj_on f (set (hm_nodes hm1))"
    "\<forall>n \<in> set (hm_nodes hm1). f n \<in> set (hm_nodes hm2) \<and> eq (kv_key (f n)) (kv_key n)"
proof -
  obtain f where f: "\<And>n. n \<in> set (hm_nodes hm1) \<Longrightarrow>
      f n \<in> set (hm_nodes hm2) \<and> eq (kv_key (f n)) (kv_key n)" using sub by metis
  have "inj_on f (set (hm_nodes hm1))"
  proof (rule inj_onI)
    fix a b assume a: "a \<in> set (hm_nodes hm1)" and b: "b \<in> set (hm_nodes hm1)" and e: "f a = f b"
    have v: "valid (kv_key a)" "valid (kv_key b)" "valid (kv_key (f a))"
      using node_valid [OF i1] node_valid [OF i2] a b f by auto
    have "eq (kv_key (f a)) (kv_key a)" "eq (kv_key (f a)) (kv_key b)" using f [OF a] f [OF b] e by auto
    then have "eq (kv_key a) (kv_key b)" using v eq_sym eq_trans by blast
    then show "a = b" by (rule node_unique [OF i1 a b])
  qed
  then show thesis using that f by blast
qed

lemma card_nodes: "inv hm \<Longrightarrow> card (set (hm_nodes hm)) = hm_num_keys hm"
  using distinct_card [OF nodes_distinct] by (simp add: inv_def)

lemma num_keys_le:
  assumes "inv hm1" "inv hm2"
    "\<forall>n \<in> set (hm_nodes hm1). \<exists>m \<in> set (hm_nodes hm2). eq (kv_key m) (kv_key n)"
  shows "hm_num_keys hm1 \<le> hm_num_keys hm2"
proof (rule key_injection [OF assms])
  fix f assume f: "inj_on f (set (hm_nodes hm1))"
    "\<forall>n \<in> set (hm_nodes hm1). f n \<in> set (hm_nodes hm2) \<and> eq (kv_key (f n)) (kv_key n)"
  then have "f ` set (hm_nodes hm1) \<subseteq> set (hm_nodes hm2)" by blast
  with card_inj_on_le [OF f(1), of "set (hm_nodes hm2)"] show ?thesis
    using card_nodes [OF assms(1)] card_nodes [OF assms(2)] by simp
qed

lemma equal_keys:
  assumes "inv hm1" "inv hm2" "hm_num_keys hm1 = hm_num_keys hm2"
    "\<forall>n \<in> set (hm_nodes hm1). \<exists>m \<in> set (hm_nodes hm2). eq (kv_key m) (kv_key n)"
    and m: "m \<in> set (hm_nodes hm2)"
  shows "\<exists>n \<in> set (hm_nodes hm1). eq (kv_key m) (kv_key n)"
proof (rule key_injection [OF assms(1,2,4)])
  fix f assume f: "inj_on f (set (hm_nodes hm1))"
    "\<forall>n \<in> set (hm_nodes hm1). f n \<in> set (hm_nodes hm2) \<and> eq (kv_key (f n)) (kv_key n)"
  have "card (f ` set (hm_nodes hm1)) = card (set (hm_nodes hm2))"
    using card_nodes [OF assms(1)] card_nodes [OF assms(2)] assms(3) by (simp add: card_image [OF f(1)])
  moreover have "f ` set (hm_nodes hm1) \<subseteq> set (hm_nodes hm2)" using f(2) by blast
  ultimately have "f ` set (hm_nodes hm1) = set (hm_nodes hm2)" by (simp add: card_subset_eq)
  with m obtain n where "n \<in> set (hm_nodes hm1)" "m = f n" by blast
  with f(2) show ?thesis by blast
qed

lemma equals_refines:
  assumes r1: "rel hm1 al1" and r2: "rel hm2 al2"
  shows "\<exists>hm1'. hm_equals veq hm1 hm2 =
      Some (\<forall>k. valid k \<longrightarrow> rel_option veq (hm_get hm1 k) (hm_get hm2 k), hm1') \<and> rel hm1' al1"
proof -
  let ?all = "\<forall>n \<in> set (hm_nodes hm1). \<exists>v. hm_get hm2 (kv_key n) = Some v \<and> veq (kv_val n) v"
  let ?same = "\<forall>k. valid k \<longrightarrow> rel_option veq (hm_get hm1 k) (hm_get hm2 k)"
  have i1: "inv hm1" and i2: "inv hm2" using r1 r2 by (simp_all add: rel_def)
  have self: "hm_get hm (kv_key n) = Some (kv_val n)" if "inv hm" "n \<in> set (hm_nodes hm)" for hm n
    using get_Some_iff [OF that(1) node_valid [OF that]] eq_refl [OF node_valid [OF that]] that(2) by blast
  have same_all: "?all" if ?same
  proof
    fix n assume n: "n \<in> set (hm_nodes hm1)"
    with that node_valid [OF i1 n] have "rel_option veq (Some (kv_val n)) (hm_get hm2 (kv_key n))"
      using self [OF i1 n] by metis
    then show "\<exists>v. hm_get hm2 (kv_key n) = Some v \<and> veq (kv_val n) v"
      by (cases "hm_get hm2 (kv_key n)") auto
  qed
  have sub_of: "\<forall>n \<in> set (hm_nodes hm). \<exists>m \<in> set (hm_nodes hm'). eq (kv_key m) (kv_key n)"
    if "inv hm" "inv hm'" "\<forall>n \<in> set (hm_nodes hm). hm_get hm' (kv_key n) \<noteq> None" for hm hm'
    using that get_Some_iff [OF that(2)] node_valid [OF that(1)] by blast
  have all_same: ?same if all: ?all and n: "hm_num_keys hm1 = hm_num_keys hm2"
  proof (intro allI impI)
    fix k assume k: "valid k"
    have sub: "\<forall>n \<in> set (hm_nodes hm1). \<exists>m \<in> set (hm_nodes hm2). eq (kv_key m) (kv_key n)"
      by (rule sub_of [OF i1 i2]) (use all in auto)
    show "rel_option veq (hm_get hm1 k) (hm_get hm2 k)"
    proof (cases "\<exists>n \<in> set (hm_nodes hm1). eq (kv_key n) k")
      case True
      then obtain n where n1: "n \<in> set (hm_nodes hm1)" "eq (kv_key n) k" by blast
      with all obtain v where v: "hm_get hm2 (kv_key n) = Some v" "veq (kv_val n) v" by blast
      then obtain m where m: "m \<in> set (hm_nodes hm2)" "eq (kv_key m) (kv_key n)" "kv_val m = v"
        using get_Some_iff [OF i2 node_valid [OF i1 n1(1)]] by blast
      have "eq (kv_key m) k"
        using eq_trans [OF node_valid [OF i2 m(1)] node_valid [OF i1 n1(1)] k m(2) n1(2)] .
      then have "hm_get hm1 k = Some (kv_val n)" "hm_get hm2 k = Some v"
        using get_Some_iff [OF i1 k] get_Some_iff [OF i2 k] n1 m by blast+
      with v show ?thesis by simp
    next
      case False
      have "\<not> (\<exists>m \<in> set (hm_nodes hm2). eq (kv_key m) k)"
      proof
        assume "\<exists>m \<in> set (hm_nodes hm2). eq (kv_key m) k"
        then obtain m where m: "m \<in> set (hm_nodes hm2)" "eq (kv_key m) k" by blast
        obtain n where n1: "n \<in> set (hm_nodes hm1)" "eq (kv_key m) (kv_key n)"
          using equal_keys [OF i1 i2 n sub m(1)] by blast
        have "eq (kv_key n) (kv_key m)"
          by (rule eq_sym [OF node_valid [OF i2 m(1)] node_valid [OF i1 n1(1)] n1(2)])
        then have "eq (kv_key n) k"
          by (rule eq_trans [OF node_valid [OF i1 n1(1)] node_valid [OF i2 m(1)] k _ m(2)])
        with False n1 show False by blast
      qed
      with False have "hm_get hm1 k = None" "hm_get hm2 k = None"
        using get_Some_iff [OF i1 k] get_Some_iff [OF i2 k] by (metis option.exhaust)+
      then show ?thesis by simp
    qed
  qed
  have same_num: "hm_num_keys hm1 = hm_num_keys hm2" if ?same
  proof -
    have "\<forall>n \<in> set (hm_nodes hm1). hm_get hm2 (kv_key n) \<noteq> None" using same_all [OF that] by auto
    note s1 = sub_of [OF i1 i2 this]
    have "\<forall>n \<in> set (hm_nodes hm2). hm_get hm1 (kv_key n) \<noteq> None"
    proof
      fix n assume n: "n \<in> set (hm_nodes hm2)"
      with that node_valid [OF i2 n] have "rel_option veq (hm_get hm1 (kv_key n)) (Some (kv_val n))"
        using self [OF i2 n] by metis
      then show "hm_get hm1 (kv_key n) \<noteq> None" by (cases "hm_get hm1 (kv_key n)") auto
    qed
    note s2 = sub_of [OF i2 i1 this]
    show ?thesis using num_keys_le [OF i1 i2 s1] num_keys_le [OF i2 i1 s2] by simp
  qed
  note it = rel_in_iteration [OF r1]
  show ?thesis
  proof (cases "hm_num_keys hm1 = hm_num_keys hm2")
    case True
    obtain hm1' where "hm_equals_loop veq (hm_reset_iterator hm1) hm2 = Some (?all, hm1')"
      "hm_same (hm_reset_iterator hm1) hm1'" 
      using hm_equals_loop_ok [OF it(1), of veq hm2] unfolding it(3) by (elim exE conjE) (rule that)
    moreover have "?all = ?same" using same_all all_same True by blast
    ultimately have "hm_equals veq hm1 hm2 = Some (?same, hm1')" "rel hm1' al1"
      using True rel_same [OF it(2)] by (simp_all add: hm_equals_def)
    then show ?thesis by (intro exI [of _ hm1'] conjI)
  next
    case False
    then have "\<not> ?same" using same_num by blast
    then have "hm_equals veq hm1 hm2 = Some (?same, hm1)" using False by (simp add: hm_equals_def)
    then show ?thesis using r1 by (intro exI [of _ hm1] conjI)
  qed
qed

lemma step_refines:
  assumes "rel hm al" "\<forall>k \<in> cmd_keys c. valid k"
  shows "\<exists>hm'. map_step hm c = Some (fst (alist_step eq al c), hm') \<and> rel hm' (snd (alist_step eq al c))"
proof (cases c)
  case MIterate
  then show ?thesis using collect_refines [OF assms(1)] by auto
next
  case (MRemove k)
  then show ?thesis using remove_refines [OF assms(1), of k] assms(2) by (cases "hm_remove hm k") simp
qed (use assms in \<open>simp_all add: put_refines get_refines num_keys_refines\<close>)

lemma run_refines:
  "rel hm al \<Longrightarrow> \<forall>c \<in> set cs. \<forall>k \<in> cmd_keys c. valid k \<Longrightarrow>
   \<exists>hm'. map_run hm cs = Some (fst (alist_run eq al cs), hm') \<and> rel hm' (snd (alist_run eq al cs))"
proof (induction cs arbitrary: hm al)
  case (Cons c cs)
  obtain out al1 where a: "alist_step eq al c = (out, al1)" by fastforce
  with step_refines [OF Cons.prems(1), of c] Cons.prems(2) obtain hm1 where
    "map_step hm c = Some (out, hm1)" "rel hm1 al1" by auto
  with Cons.IH [of hm1 al1] Cons.prems(2) a show ?case by (auto split: prod.split)
qed simp

lemma run_new_refines:
  assumes "new_hash_map ji jn ks vs (Some hash) (Some eq) = Some hm"
    "\<forall>c \<in> set cs. \<forall>k \<in> cmd_keys c. valid k"
  shows "\<exists>hm'. map_run hm cs = Some (fst (alist_run eq [] cs), hm') \<and>
    rel hm' (snd (alist_run eq [] cs))"
  using run_refines [OF new_rel [OF assms(1)] assms(2)] .

end

end
