(* ===== verification/Chutil_String.thy ===== *)
theory Chutil_String
  imports Chutil_Map
begin

text \<open>
  The reference-counted, copy-on-write strings of \<open>chutil/src/string.c\<close>.  The store maps
  addresses to the shared objects (\<open>shared_string_t\<close> with its buffer, \<open>shared_literal_t\<close> with
  the literal it points to); a \<open>string_t\<close> is a handle on one of them.  An operation's \<open>None\<close> is
  undefined behaviour.

  The main theorem is a refinement: any program over named strings behaves as if every name
  had a byte list of its own, whatever is shared underneath, and the store holds exactly the
  objects some live handle refers to.  \<open>s_hash\<close> and \<open>s_equals\<close> provide the key contract of the
  hash map for strings without an embedded NUL.
\<close>

section \<open>Store and operations\<close>

record shared_string_t =
  ss_ref_count :: nat
  ss_cap :: nat
  ss_len :: nat
  ss_buf :: "byte option list"

record shared_literal_t =
  sl_ref_count :: nat
  sl_len :: nat
  sl_literal :: "byte option list"

datatype shared = Shared shared_string_t | Literal shared_literal_t

record string_t =
  from_literal :: bool
  s_ptr :: nat

record str_store =
  sh_mem :: "nat \<rightharpoonup> shared"
  sh_brk :: nat

definition get_ss :: "str_store \<Rightarrow> nat \<Rightarrow> shared_string_t option" where
  "get_ss st a = (case sh_mem st a of Some (Shared ss) \<Rightarrow> Some ss | _ \<Rightarrow> None)"

definition get_sl :: "str_store \<Rightarrow> nat \<Rightarrow> shared_literal_t option" where
  "get_sl st a = (case sh_mem st a of Some (Literal sl) \<Rightarrow> Some sl | _ \<Rightarrow> None)"

definition put_obj :: "str_store \<Rightarrow> nat \<Rightarrow> shared option \<Rightarrow> str_store" where
  "put_obj st a ob = st\<lparr>sh_mem := (sh_mem st)(a := ob)\<rparr>"

definition alloc_obj :: "str_store \<Rightarrow> shared \<Rightarrow> nat \<times> str_store" where
  "alloc_obj st ob =
     (sh_brk st, st\<lparr>sh_mem := (sh_mem st)(sh_brk st \<mapsto> ob), sh_brk := sh_brk st + 1\<rparr>)"

definition s_len :: "str_store \<Rightarrow> string_t \<Rightarrow> nat option" where
  "s_len st s = (if from_literal s then map_option sl_len (get_sl st (s_ptr s))
                 else map_option ss_len (get_ss st (s_ptr s)))"

definition s_get_cstr :: "str_store \<Rightarrow> string_t \<Rightarrow> byte option list option" where
  "s_get_cstr st s = (if from_literal s then map_option sl_literal (get_sl st (s_ptr s))
                      else map_option ss_buf (get_ss st (s_ptr s)))"

definition s_get_char :: "str_store \<Rightarrow> string_t \<Rightarrow> nat \<Rightarrow> byte option" where
  "s_get_char st s i = do { cs \<leftarrow> s_get_cstr st s; rd cs i }"

text \<open>\<open>cstr\<close> is the block behind the pointer, \<open>None\<close> for NULL.\<close>

definition new_shared_string ::
    "str_store \<Rightarrow> byte option list option \<Rightarrow> nat \<Rightarrow> nat \<Rightarrow> (nat \<times> str_store) option" where
  "new_shared_string st cstr len cap =
     (let len' = (case cstr of None \<Rightarrow> 0 | Some _ \<Rightarrow> len);
          cap' = (case cstr of None \<Rightarrow> 1 | Some _ \<Rightarrow> if cap < len + 1 then len + 1 else cap);
          buf = replicate cap' None
      in do {
        buf1 \<leftarrow> (case cstr of
            None \<Rightarrow> Some buf
          | Some cs \<Rightarrow> if len' > 0 then (if len' \<le> length cs then put_cells buf 0 (take len' cs) else None)
                       else Some buf);
        buf2 \<leftarrow> put_cells buf1 len' [Some 0];
        Some (alloc_obj st (Shared \<lparr>ss_ref_count = 1, ss_cap = cap', ss_len = len', ss_buf = buf2\<rparr>))
      })"

definition new_string :: "str_store \<Rightarrow> (string_t \<times> str_store) option" where
  "new_string st =
     do { (a, st') \<leftarrow> new_shared_string st None 0 1; Some (\<lparr>from_literal = False, s_ptr = a\<rparr>, st') }"

definition new_string_from_cstr ::
    "str_store \<Rightarrow> byte option list option \<Rightarrow> (string_t \<times> str_store) option" where
  "new_string_from_cstr st cstr =
     (case cstr of
        None \<Rightarrow> new_string st
      | Some cs \<Rightarrow> do {
          n \<leftarrow> c_strlen cs;
          (a, st') \<leftarrow> new_shared_string st (Some cs) n (n + 1);
          Some (\<lparr>from_literal = False, s_ptr = a\<rparr>, st') })"

definition new_string_from_literal ::
    "str_store \<Rightarrow> byte option list option \<Rightarrow> (string_t \<times> str_store) option" where
  "new_string_from_literal st lit =
     (case lit of
        None \<Rightarrow> new_string st
      | Some cs \<Rightarrow> do {
          n \<leftarrow> c_strlen cs;
          (let (a, st') = alloc_obj st (Literal \<lparr>sl_ref_count = 1, sl_len = n, sl_literal = cs\<rparr>)
           in Some (\<lparr>from_literal = True, s_ptr = a\<rparr>, st')) })"

definition s_release_shared :: "str_store \<Rightarrow> string_t \<Rightarrow> str_store option" where
  "s_release_shared st s =
     (if from_literal s then do {
        sl \<leftarrow> get_sl st (s_ptr s);
        (let sl' = sl\<lparr>sl_ref_count := sl_ref_count sl - 1\<rparr>
         in Some (put_obj st (s_ptr s) (if sl_ref_count sl' = 0 then None else Some (Literal sl')))) }
      else do {
        ss \<leftarrow> get_ss st (s_ptr s);
        (let ss' = ss\<lparr>ss_ref_count := ss_ref_count ss - 1\<rparr>
         in Some (put_obj st (s_ptr s) (if ss_ref_count ss' = 0 then None else Some (Shared ss')))) })"

definition delete_string :: "str_store \<Rightarrow> string_t \<Rightarrow> str_store option" where
  "delete_string st s = s_release_shared st s"

definition s_equals :: "str_store \<Rightarrow> string_t \<Rightarrow> string_t \<Rightarrow> bool option" where
  "s_equals st s1 s2 = do { c1 \<leftarrow> s_get_cstr st s1; c2 \<leftarrow> s_get_cstr st s2; c_streq c1 c2 }"

text \<open>The loop of \<open>s_hash\<close>; \<open>char\<close> is signed, so the character is sign-extended.\<close>

fun s_hash_loop :: "byte option list \<Rightarrow> nat \<Rightarrow> u32 \<Rightarrow> u32 option" where
  "s_hash_loop cs 0 h = Some h"
| "s_hash_loop [] (Suc n) h = None"
| "s_hash_loop (c # cs) (Suc n) h =
     (case c of None \<Rightarrow> None | Some b \<Rightarrow> s_hash_loop cs n (h * 31 + scast b))"

definition s_hash :: "str_store \<Rightarrow> string_t \<Rightarrow> u32 option" where
  "s_hash st s = do { cs \<leftarrow> s_get_cstr st s; n \<leftarrow> s_len st s; s_hash_loop cs n 23 }"

definition s_copy :: "str_store \<Rightarrow> string_t \<Rightarrow> (string_t \<times> str_store) option" where
  "s_copy st s =
     (if from_literal s then do {
        sl \<leftarrow> get_sl st (s_ptr s);
        Some (\<lparr>from_literal = True, s_ptr = s_ptr s\<rparr>,
              put_obj st (s_ptr s) (Some (Literal (sl\<lparr>sl_ref_count := sl_ref_count sl + 1\<rparr>)))) }
      else do {
        ss \<leftarrow> get_ss st (s_ptr s);
        Some (\<lparr>from_literal = False, s_ptr = s_ptr s\<rparr>,
              put_obj st (s_ptr s) (Some (Shared (ss\<lparr>ss_ref_count := ss_ref_count ss + 1\<rparr>)))) })"

text \<open>\<open>fin\<close> is the C parameter \<open>end\<close>.  The copy starts at \<open>cstr\<close>, not at \<open>cstr + start\<close>.\<close>

definition s_substring ::
    "str_store \<Rightarrow> string_t \<Rightarrow> nat \<Rightarrow> nat \<Rightarrow> (string_t \<times> str_store) option" where
  "s_substring st s start fin =
     do { cstr_len \<leftarrow> s_len st s;
          cstr \<leftarrow> s_get_cstr st s;
          (let fin' = (if fin > cstr_len then cstr_len else fin)
           in if fin' \<le> start then new_string st
              else if start = 0 \<and> fin' = cstr_len then s_copy st s
              else do {
                (a, st') \<leftarrow> new_shared_string st (Some cstr) (fin' - start) (fin' - start + 1);
                Some (\<lparr>from_literal = False, s_ptr = a\<rparr>, st') }) }"

definition s_prepare_modify :: "str_store \<Rightarrow> string_t \<Rightarrow> nat \<Rightarrow> (string_t \<times> str_store) option" where
  "s_prepare_modify st s min_cap =
     do { len \<leftarrow> s_len st s;
          (let min_cap' = (if min_cap < len + 1 then len + 1 else min_cap)
           in if from_literal s then do {
                sl \<leftarrow> get_sl st (s_ptr s);
                (a, st1) \<leftarrow> new_shared_string st (Some (sl_literal sl)) len min_cap';
                st2 \<leftarrow> s_release_shared st1 s;
                Some (\<lparr>from_literal = False, s_ptr = a\<rparr>, st2) }
              else do {
                ss \<leftarrow> get_ss st (s_ptr s);
                (if ss_ref_count ss > 1 then do {
                   (a, st1) \<leftarrow> new_shared_string st (Some (ss_buf ss)) len min_cap';
                   st2 \<leftarrow> s_release_shared st1 s;
                   Some (s\<lparr>s_ptr := a\<rparr>, st2) }
                 else if ss_cap ss \<ge> min_cap' then Some (s, st)
                 else (let new_cap = (if min_cap' > ss_cap ss * 2 then min_cap' else ss_cap ss * 2)
                       in Some (s, put_obj st (s_ptr s)
                                (Some (Shared (ss\<lparr>ss_buf := cells_realloc (ss_buf ss) new_cap,
                                                  ss_cap := new_cap\<rparr>)))))) }) }"

definition s_append_char :: "str_store \<Rightarrow> string_t \<Rightarrow> byte \<Rightarrow> (string_t \<times> str_store) option" where
  "s_append_char st s c =
     do { len \<leftarrow> s_len st s;
          (s', st') \<leftarrow> s_prepare_modify st s (len + 2);
          ss \<leftarrow> get_ss st' (s_ptr s');
          buf1 \<leftarrow> put_cells (ss_buf ss) (ss_len ss) [Some c];
          buf2 \<leftarrow> put_cells buf1 (ss_len ss + 1) [Some 0];
          Some (s', put_obj st' (s_ptr s')
                 (Some (Shared (ss\<lparr>ss_buf := buf2, ss_len := ss_len ss + 1\<rparr>)))) }"

definition s_append_cstr ::
    "str_store \<Rightarrow> string_t \<Rightarrow> byte option list \<Rightarrow> (string_t \<times> str_store) option" where
  "s_append_cstr st s addition =
     do { len \<leftarrow> s_len st s;
          add_len \<leftarrow> c_strlen addition;
          (s', st') \<leftarrow> s_prepare_modify st s (len + add_len + 1);
          ss \<leftarrow> get_ss st' (s_ptr s');
          buf \<leftarrow> put_cells (ss_buf ss) len (take (add_len + 1) addition);
          Some (s', put_obj st' (s_ptr s')
                 (Some (Shared (ss\<lparr>ss_buf := buf, ss_len := len + add_len\<rparr>)))) }"

text \<open>
  \<open>s_append_string\<close>: when \<open>s\<close> is the only user of the very buffer to append, the buffer is
  reallocated under the source pointer, or \<open>strcpy\<close> overlaps: undefined.
\<close>

definition s_append_string ::
    "str_store \<Rightarrow> string_t \<Rightarrow> string_t \<Rightarrow> (string_t \<times> str_store) option" where
  "s_append_string st s addition =
     do { cs \<leftarrow> s_get_cstr st addition;
          (if \<not> from_literal s \<and> s_ptr addition = s_ptr s \<and>
              map_option ss_ref_count (get_ss st (s_ptr s)) = Some 1
           then None
           else s_append_cstr st s cs) }"

definition s_set_char :: "str_store \<Rightarrow> string_t \<Rightarrow> nat \<Rightarrow> byte \<Rightarrow> (string_t \<times> str_store) option" where
  "s_set_char st s i c =
     do { len \<leftarrow> s_len st s;
          (s', st') \<leftarrow> s_prepare_modify st s (len + 1);
          ss \<leftarrow> get_ss st' (s_ptr s');
          buf \<leftarrow> put_cells (ss_buf ss) i [Some c];
          Some (s', put_obj st' (s_ptr s') (Some (Shared (ss\<lparr>ss_buf := buf\<rparr>)))) }"

section \<open>Named strings over the store\<close>

fun obj_rc :: "shared \<Rightarrow> nat" where
  "obj_rc (Shared ss) = ss_ref_count ss"
| "obj_rc (Literal sl) = sl_ref_count sl"

fun is_literal :: "shared \<Rightarrow> bool" where
  "is_literal (Shared ss) = False"
| "is_literal (Literal sl) = True"

text \<open>The object holds the characters \<open>xs\<close>, terminated.\<close>

fun obj_holds :: "shared \<Rightarrow> byte list \<Rightarrow> bool" where
  "obj_holds (Shared ss) xs \<longleftrightarrow> ss_len ss = length xs \<and> ss_cap ss = length (ss_buf ss) \<and>
     (\<exists>rest. ss_buf ss = map Some xs @ Some 0 # rest)"
| "obj_holds (Literal sl) xs \<longleftrightarrow> sl_len sl = length xs \<and> (\<exists>rest. sl_literal sl = map Some xs @ Some 0 # rest)"

type_synonym str_env = "nat \<rightharpoonup> string_t"

definition refs :: "str_env \<Rightarrow> nat \<Rightarrow> nat" where
  "refs env a = card {n \<in> dom env. s_ptr (the (env n)) = a}"

definition str_rep :: "str_store \<Rightarrow> str_env \<Rightarrow> (nat \<rightharpoonup> byte list) \<Rightarrow> bool" where [inv_defs]:
  "str_rep st env m \<longleftrightarrow> finite (dom env) \<and> dom m = dom env \<and>
     (\<forall>n s. env n = Some s \<longrightarrow> (\<exists>ob. sh_mem st (s_ptr s) = Some ob \<and>
        is_literal ob = from_literal s \<and> obj_holds ob (the (m n)))) \<and>
     (\<forall>a ob. sh_mem st a = Some ob \<longrightarrow> obj_rc ob = refs env a \<and> 0 < refs env a \<and> a < sh_brk st)"

lemma str_repI:
  assumes "finite (dom env)" "dom m = dom env"
    and "\<And>n s. env n = Some s \<Longrightarrow> \<exists>ob. sh_mem st (s_ptr s) = Some ob \<and>
      is_literal ob = from_literal s \<and> obj_holds ob (the (m n))"
    and "\<And>a ob. sh_mem st a = Some ob \<Longrightarrow> obj_rc ob = refs env a \<and> 0 < refs env a \<and> a < sh_brk st"
  shows "str_rep st env m"
  unfolding str_rep_def using assms by simp

lemma refs_empty: "refs Map.empty a = 0"
  by (simp add: refs_def)

lemma refs_new:
  assumes "finite (dom env)" "n \<notin> dom env"
  shows "refs (env(n \<mapsto> s)) a = refs env a + (if s_ptr s = a then 1 else 0)"
proof -
  have "{k \<in> dom (env(n \<mapsto> s)). s_ptr (the ((env(n \<mapsto> s)) k)) = a} =
      (if s_ptr s = a then insert n {k \<in> dom env. s_ptr (the (env k)) = a}
       else {k \<in> dom env. s_ptr (the (env k)) = a})"
    using assms(2) by auto
  then show ?thesis using assms by (auto simp: refs_def)
qed

lemma refs_remove:
  assumes "finite (dom env)" "env n = Some s"
  shows "refs env a = refs (env(n := None)) a + (if s_ptr s = a then 1 else 0)"
proof -
  have "env = (env(n := None))(n \<mapsto> s)" using assms(2) by auto
  then show ?thesis using refs_new [of "env(n := None)" n s a] assms(1) by (metis dom_fun_upd
        domIff finite_Diff fun_upd_same)
qed

lemma str_rep_obj:
  assumes "str_rep st env m" "env n = Some s" "m n = Some xs"
  obtains ob where "sh_mem st (s_ptr s) = Some ob" "is_literal ob = from_literal s"
    "obj_holds ob xs" "obj_rc ob = refs env (s_ptr s)" "0 < obj_rc ob" "s_ptr s < sh_brk st"
  using assms by (fastforce simp: str_rep_def)

lemma str_rep_ptr:
  assumes "str_rep st env m" "env n = Some s"
  obtains ob where "sh_mem st (s_ptr s) = Some ob" "is_literal ob = from_literal s"
    "obj_holds ob (the (m n))"
  using assms by (fastforce simp: str_rep_def)

lemma str_rep_get:
  assumes "str_rep st env m" "env n = Some s" "m n = Some xs"
  shows "s_len st s = Some (length xs)"
    and "\<exists>rest. s_get_cstr st s = Some (map Some xs @ Some 0 # rest)"
proof -
  obtain ob where ob: "sh_mem st (s_ptr s) = Some ob" "is_literal ob = from_literal s" "obj_holds ob xs"
    using str_rep_obj [OF assms] by blast
  show "s_len st s = Some (length xs)" using ob
    by (cases ob) (auto simp: s_len_def get_sl_def get_ss_def)
  show "\<exists>rest. s_get_cstr st s = Some (map Some xs @ Some 0 # rest)" using ob
    by (cases ob) (auto simp: s_get_cstr_def get_sl_def get_ss_def)
qed

text \<open>A fresh object under a new name.\<close>

lemma str_rep_new:
  assumes rep: "str_rep st env m" and n: "n \<notin> dom env"
    and a: "alloc_obj st ob = (a, st')" and ob: "obj_rc ob = 1" "obj_holds ob xs"
  shows "str_rep st' (env(n \<mapsto> \<lparr>from_literal = is_literal ob, s_ptr = a\<rparr>)) (m(n \<mapsto> xs))"
proof -
  have fin: "finite (dom env)" and dom: "dom m = dom env" using rep by (simp_all add: str_rep_def)
  have st': "a = sh_brk st" "sh_mem st' = (sh_mem st)(a \<mapsto> ob)" "sh_brk st' = a + 1"
    using a by (auto simp: alloc_obj_def)
  have old: "sh_mem st b = Some ob' \<Longrightarrow> obj_rc ob' = refs env b \<and> 0 < refs env b \<and> b < a" for b ob'
    using rep st'(1) by (simp add: str_rep_def)
  have ptr: "\<exists>ob'. sh_mem st (s_ptr s) = Some ob' \<and> is_literal ob' = from_literal s \<and>
      obj_holds ob' (the (m k))" if "env k = Some s" for k s
    using rep that by (simp add: str_rep_def)
  have "refs env a = 0"
  proof -
    have "s_ptr (the (env k)) \<noteq> a" if "k \<in> dom env" for k
      using that ptr old by (metis domD less_irrefl option.sel)
    then have "{k \<in> dom env. s_ptr (the (env k)) = a} = {}" by blast
    then show ?thesis unfolding refs_def by (metis card.empty)
  qed
  then have rn: "refs (env(n \<mapsto> \<lparr>from_literal = is_literal ob, s_ptr = a\<rparr>)) b =
      (if b = a then 1 else refs env b)" for b
    using refs_new [OF fin n, of "\<lparr>from_literal = is_literal ob, s_ptr = a\<rparr>" b] by simp
  have "obj_rc ob' = refs (env(n \<mapsto> \<lparr>from_literal = is_literal ob, s_ptr = a\<rparr>)) b \<and>
      0 < refs (env(n \<mapsto> \<lparr>from_literal = is_literal ob, s_ptr = a\<rparr>)) b \<and> b < sh_brk st'"
    if "sh_mem st' b = Some ob'" for b ob'
    unfolding rn using that old [of b ob'] ob(1) st' by (cases "b = a") auto
  moreover have "\<exists>ob'. sh_mem st' (s_ptr s) = Some ob' \<and> is_literal ob' = from_literal s \<and>
      obj_holds ob' (the ((m(n \<mapsto> xs)) k))"
    if "(env(n \<mapsto> \<lparr>from_literal = is_literal ob, s_ptr = a\<rparr>)) k = Some s" for k s
  proof (cases "k = n")
    case True
    with that ob(2) st' show ?thesis by auto
  next
    case False
    with that have "env k = Some s" by simp
    from ptr [OF this] obtain ob' where "sh_mem st (s_ptr s) = Some ob'"
      "is_literal ob' = from_literal s" "obj_holds ob' (the (m k))" by blast
    with old [of "s_ptr s" ob'] False st' show ?thesis by auto
  qed
  ultimately show ?thesis using fin dom by (simp add: str_rep_def)
qed

text \<open>One more, or one less, handle on an object; the object leaves the store with the last.\<close>

fun set_rc :: "shared \<Rightarrow> nat \<Rightarrow> shared" where
  "set_rc (Shared ss) k = Shared (ss\<lparr>ss_ref_count := k\<rparr>)"
| "set_rc (Literal sl) k = Literal (sl\<lparr>sl_ref_count := k\<rparr>)"

lemma set_rc_simps [simp]:
  "obj_rc (set_rc ob k) = k" "is_literal (set_rc ob k) = is_literal ob"
  "obj_holds (set_rc ob k) xs = obj_holds ob xs"
  by (cases ob; simp)+

lemma str_rep_copy:
  assumes rep: "str_rep st env m" and n: "n \<notin> dom env" and k: "env k = Some s" "m k = Some xs"
  shows "\<exists>st'. s_copy st s = Some (s, st') \<and> str_rep st' (env(n \<mapsto> s)) (m(n \<mapsto> xs))"
proof -
  have fin: "finite (dom env)" and dom: "dom m = dom env" using rep by (simp_all add: str_rep_def)
  obtain ob where ob: "sh_mem st (s_ptr s) = Some ob" "is_literal ob = from_literal s"
    "obj_holds ob xs" "obj_rc ob = refs env (s_ptr s)" "s_ptr s < sh_brk st"
    using str_rep_obj [OF rep k] by blast
  let ?st = "put_obj st (s_ptr s) (Some (set_rc ob (obj_rc ob + 1)))"
  have "s_copy st s = Some (s, ?st)"
    using ob by (cases ob; cases s) (auto simp: s_copy_def get_sl_def get_ss_def)
  moreover have "str_rep ?st (env(n \<mapsto> s)) (m(n \<mapsto> xs))"
    using rep ob k fin dom refs_new [OF fin n, of s]
    unfolding str_rep_def put_obj_def by (fastforce split: if_splits)
  ultimately show ?thesis by blast
qed

lemma str_rep_release:
  assumes rep: "str_rep st env m" and k: "env k = Some s" "m k = Some xs"
  shows "\<exists>st'. s_release_shared st s = Some st' \<and> str_rep st' (env(k := None)) (m(k := None)) \<and>
    sh_brk st' = sh_brk st"
proof -
  have fin: "finite (dom env)" and dom: "dom m = dom env" using rep by (simp_all add: str_rep_def)
  obtain ob where ob: "sh_mem st (s_ptr s) = Some ob" "is_literal ob = from_literal s"
    "obj_holds ob xs" "obj_rc ob = refs env (s_ptr s)" "s_ptr s < sh_brk st"
    using str_rep_obj [OF rep k] by blast
  let ?ob = "if obj_rc ob - 1 = 0 then None else Some (set_rc ob (obj_rc ob - 1))"
  let ?st = "put_obj st (s_ptr s) ?ob"
  have "s_release_shared st s = Some ?st"
    using ob by (cases ob; cases s) (auto simp: s_release_shared_def get_sl_def get_ss_def Let_def)
  moreover have "str_rep ?st (env(k := None)) (m(k := None))"
  proof -
    note rm = refs_remove [OF fin k(1)]
    have counts: "obj_rc ob' = refs (env(k := None)) a \<and> 0 < refs (env(k := None)) a \<and> a < sh_brk ?st"
      if "sh_mem ?st a = Some ob'" for a ob'
    proof (cases "a = s_ptr s")
      case True
      with that ob(4,5) rm [of a] show ?thesis by (auto simp: put_obj_def split: if_splits)
    next
      case False
      with that have "sh_mem st a = Some ob'" by (simp add: put_obj_def)
      then have "obj_rc ob' = refs env a \<and> 0 < refs env a \<and> a < sh_brk st"
        using rep by (simp add: str_rep_def)
      with rm [of a] False show ?thesis by (simp add: put_obj_def)
    qed
    have points: "\<exists>ob'. sh_mem ?st (s_ptr t) = Some ob' \<and> is_literal ob' = from_literal t \<and>
        obj_holds ob' (the ((m(k := None)) j))" if j: "(env(k := None)) j = Some t" for j t
    proof -
      have jk: "j \<noteq> k" "env j = Some t" using j by (auto split: if_splits)
      obtain ob' where ob': "sh_mem st (s_ptr t) = Some ob'" "is_literal ob' = from_literal t"
        "obj_holds ob' (the (m j))" using str_rep_ptr [OF rep jk(2)] by blast
      show ?thesis
      proof (cases "s_ptr t = s_ptr s")
        case True
        let ?A = "{i \<in> dom (env(k := None)). s_ptr (the ((env(k := None)) i)) = s_ptr s}"
        have "j \<in> ?A" using jk True by auto
        moreover have "finite ?A" by (rule finite_subset [OF _ fin]) auto
        ultimately have "0 < card ?A" by (metis card_gt_0_iff empty_iff)
        then have "0 < refs (env(k := None)) (s_ptr s)" by (simp only: refs_def)
        then have "obj_rc ob - 1 \<noteq> 0" using rm [of "s_ptr s"] ob(4) by simp
        then have "sh_mem ?st (s_ptr t) = Some (set_rc ob (obj_rc ob - 1))"
          using True by (simp add: put_obj_def)
        moreover have "ob' = ob" using ob(1) ob'(1) True by simp
        ultimately show ?thesis using ob' jk(1) by simp
      next
        case False
        with ob' jk show ?thesis by (auto simp: put_obj_def)
      qed
    qed
    show ?thesis
    proof (rule str_repI)
      show "finite (dom (env(k := None)))" "dom (m(k := None)) = dom (env(k := None))"
        using fin dom by simp_all
    qed (rule points, assumption, rule counts, assumption)
  qed
  ultimately show ?thesis by (auto simp: put_obj_def)
qed

text \<open>An object with a single handle changed in place.\<close>

lemma str_rep_own:
  assumes rep: "str_rep st env m" and k: "env k = Some s"
    and ob: "sh_mem st (s_ptr s) = Some ob" "obj_rc ob = 1"
    and ob': "obj_rc ob' = 1" "is_literal ob' = from_literal s" "obj_holds ob' ys"
  shows "str_rep (put_obj st (s_ptr s) (Some ob')) env (m(k \<mapsto> ys))"
proof -
  have fin: "finite (dom env)" and dom: "dom m = dom env" using rep by (simp_all add: str_rep_def)
  have one: "refs env (s_ptr s) = 1" and brk: "s_ptr s < sh_brk st"
    using rep ob by (auto simp: str_rep_def)
  have only: "j = k" if "env j = Some t" "s_ptr t = s_ptr s" for j t
  proof (rule ccontr)
    assume "j \<noteq> k"
    have "{j, k} \<subseteq> {n \<in> dom env. s_ptr (the (env n)) = s_ptr s}" using that k by auto
    then have "card {j, k} \<le> refs env (s_ptr s)" unfolding refs_def by (rule card_mono [rotated]) (use fin in simp)
    with one \<open>j \<noteq> k\<close> show False by simp
  qed
  have "\<exists>ob''. sh_mem (put_obj st (s_ptr s) (Some ob')) (s_ptr t) = Some ob'' \<and>
      is_literal ob'' = from_literal t \<and> obj_holds ob'' (the ((m(k \<mapsto> ys)) j))"
    if j: "env j = Some t" for j t
  proof (cases "j = k")
    case True
    with j k ob' show ?thesis by (simp add: put_obj_def)
  next
    case False
    with only [OF j] have "s_ptr t \<noteq> s_ptr s" by blast
    with False j rep show ?thesis by (simp add: put_obj_def str_rep_def)
  qed
  moreover have "obj_rc ob'' = refs env a \<and> 0 < refs env a \<and> a < sh_brk st"
    if "sh_mem (put_obj st (s_ptr s) (Some ob')) a = Some ob''" for a ob''
    using that rep one brk ob'(1) by (cases "a = s_ptr s") (auto simp: put_obj_def str_rep_def)
  ultimately show ?thesis using fin dom k by (auto simp: str_rep_def put_obj_def)
qed

text \<open>A handle moved from its object to a fresh one: the new object, then the release.\<close>

lemma alloc_release_swap:
  assumes rep: "str_rep st env m" and k: "env k = Some s" "m k = Some xs"
    and a: "alloc_obj st ob = (a, st1)"
  shows "\<exists>st0 st2. s_release_shared st s = Some st0 \<and> s_release_shared st1 s = Some st2 \<and>
    alloc_obj st0 ob = (a, st2)"
proof -
  obtain o1 where o1: "sh_mem st (s_ptr s) = Some o1" "is_literal o1 = from_literal s"
    "s_ptr s < sh_brk st" using str_rep_obj [OF rep k] by blast
  have "sh_mem st1 (s_ptr s) = Some o1" using a o1 by (auto simp: alloc_obj_def)
  with o1 a show ?thesis
    by (cases o1; cases s)
      (auto simp: s_release_shared_def get_sl_def get_ss_def Let_def alloc_obj_def put_obj_def
        fun_upd_twist)
qed

lemma str_rep_move:
  assumes rep: "str_rep st env m" and k: "env k = Some s" "m k = Some xs"
    and a: "alloc_obj st ob = (a, st1)" and ob: "obj_rc ob = 1" "obj_holds ob ys"
  shows "\<exists>st2. s_release_shared st1 s = Some st2 \<and> sh_mem st2 a = Some ob \<and>
    str_rep st2 (env(k \<mapsto> \<lparr>from_literal = is_literal ob, s_ptr = a\<rparr>)) (m(k \<mapsto> ys))"
proof -
  obtain st0 st2 where r: "s_release_shared st s = Some st0" "s_release_shared st1 s = Some st2"
    "alloc_obj st0 ob = (a, st2)" using alloc_release_swap [OF rep k a] by blast
  have "str_rep st0 (env(k := None)) (m(k := None))" using str_rep_release [OF rep k] r(1) by auto
  from str_rep_new [OF this _ r(3) ob, of k] have
    "str_rep st2 (env(k \<mapsto> \<lparr>from_literal = is_literal ob, s_ptr = a\<rparr>)) (m(k \<mapsto> ys))" by simp
  moreover have "sh_mem st2 a = Some ob" using r(3) by (auto simp: alloc_obj_def)
  ultimately show ?thesis using r(2) by blast
qed

section \<open>The operations on named strings\<close>

lemma put_cells_0: "length cs \<le> length mem \<Longrightarrow> put_cells mem 0 cs = Some (cs @ drop (length cs) mem)"
  by (simp add: put_cells_def)

lemma new_shared_ok:
  assumes "cs = map Some xs @ ys"
  shows "\<exists>ss. new_shared_string st (Some cs) (length xs) cap = Some (alloc_obj st (Shared ss)) \<and>
    ss_ref_count ss = 1 \<and> obj_holds (Shared ss) xs \<and> cap \<le> length (ss_buf ss)"
proof -
  define c where "c = (if cap < length xs + 1 then length xs + 1 else cap)"
  then have "length xs < c" "cap \<le> c" by simp_all
  then obtain k where k: "c = length xs + Suc k" by (metis add_Suc_right less_iff_Suc_add)
  have b1: "put_cells (replicate c None) 0 (map Some xs) =
      Some (map Some xs @ replicate (Suc k) None)"
    by (simp add: put_cells_0 k del: replicate_Suc)
  have b2: "put_cells (map Some xs @ replicate (Suc k) None) (length xs) [Some 0] =
      Some (map Some xs @ Some 0 # replicate k None)"
    by (simp add: put_cells_def)
  have rep0: "replicate c None = replicate (Suc k) None" if "xs = []" using that k by simp
  have "new_shared_string st (Some cs) (length xs) cap = Some (alloc_obj st
      (Shared \<lparr>ss_ref_count = 1, ss_cap = c, ss_len = length xs,
               ss_buf = map Some xs @ Some 0 # replicate k None\<rparr>))"
    unfolding new_shared_string_def Let_def option.case c_def [symmetric]
    using assms b1 b2 rep0 by (cases "xs = []") (simp_all del: replicate_Suc)
  then show ?thesis using k \<open>cap \<le> c\<close> by (intro exI conjI) (assumption | simp)+
qed

lemma new_shared_null:
  "\<exists>ss. new_shared_string st None n cap = Some (alloc_obj st (Shared ss)) \<and>
    ss_ref_count ss = 1 \<and> obj_holds (Shared ss) []"
  by (auto simp: new_shared_string_def put_cells_def)

text \<open>What \<open>s_prepare_modify\<close> promises: a private object with room.\<close>

lemma s_prepare_modify_ok:
  assumes rep: "str_rep st env m" and k: "env k = Some s" "m k = Some xs"
  shows "\<exists>s' st' ss. s_prepare_modify st s cap = Some (s', st') \<and> str_rep st' (env(k \<mapsto> s')) m \<and>
    \<not> from_literal s' \<and> sh_mem st' (s_ptr s') = Some (Shared ss) \<and> ss_ref_count ss = 1 \<and>
    cap \<le> length (ss_buf ss) \<and> obj_holds (Shared ss) xs"
proof -
  obtain ob where ob: "sh_mem st (s_ptr s) = Some ob" "is_literal ob = from_literal s"
    "obj_holds ob xs" "0 < obj_rc ob" using str_rep_obj [OF rep k] by blast
  have len: "s_len st s = Some (length xs)" using str_rep_get [OF rep k] by blast
  let ?cap = "if cap < length xs + 1 then length xs + 1 else cap"
  have mk: "m(k \<mapsto> xs) = m" "env(k \<mapsto> s) = env" using k by auto
  have move: "\<exists>st1 a ss st2. new_shared_string st (Some cs) (length xs) ?cap = Some (a, st1) \<and>
      s_release_shared st1 s = Some st2 \<and> sh_mem st2 a = Some (Shared ss) \<and>
      str_rep st2 (env(k \<mapsto> \<lparr>from_literal = False, s_ptr = a\<rparr>)) m \<and> ss_ref_count ss = 1 \<and>
      cap \<le> length (ss_buf ss) \<and> obj_holds (Shared ss) xs" if cs: "cs = map Some xs @ ys" for cs ys
  proof -
    obtain ss where ss: "new_shared_string st (Some cs) (length xs) ?cap = Some (alloc_obj st (Shared ss))"
      "ss_ref_count ss = 1" "obj_holds (Shared ss) xs" "?cap \<le> length (ss_buf ss)"
      using new_shared_ok [OF cs, of st ?cap] by blast
    obtain a st1 where a: "alloc_obj st (Shared ss) = (a, st1)" by fastforce
    from str_rep_move [OF rep k a, of xs] ss(2,3) mk ss(1,4) a show ?thesis
      by (auto split: if_splits)
  qed
  show ?thesis
  proof (cases ob)
    case (Literal sl)
    then obtain ys where "sl_literal sl = map Some xs @ ys" using ob(3) by auto
    from move [OF this] Literal ob len show ?thesis
      by (fastforce simp: s_prepare_modify_def get_sl_def)
  next
    case (Shared ss)
    then obtain ys where ys: "ss_buf ss = map Some xs @ Some 0 # ys"
      "ss_len ss = length xs" "ss_cap ss = length (ss_buf ss)" using ob(3) by auto
    have lit: "\<not> from_literal s" "get_ss st (s_ptr s) = Some ss"
      using ob Shared by (auto simp: get_ss_def)
    consider "1 < ss_ref_count ss" | "ss_ref_count ss = 1" "?cap \<le> ss_cap ss"
      | "ss_ref_count ss = 1" "ss_cap ss < ?cap" using ob(4) Shared by fastforce
    then show ?thesis
    proof cases
      case 1
      from move [OF ys(1)] obtain st1 a ss' st2 where
        "new_shared_string st (Some (ss_buf ss)) (length xs) ?cap = Some (a, st1)"
        "s_release_shared st1 s = Some st2" "sh_mem st2 a = Some (Shared ss')"
        "str_rep st2 (env(k \<mapsto> \<lparr>from_literal = False, s_ptr = a\<rparr>)) m" "ss_ref_count ss' = 1"
        "cap \<le> length (ss_buf ss')" "obj_holds (Shared ss') xs" by blast
      moreover have "s\<lparr>s_ptr := a\<rparr> = \<lparr>from_literal = False, s_ptr = a\<rparr>" using lit by (cases s) simp
      ultimately show ?thesis using 1 lit len
        by (intro exI [of _ "\<lparr>from_literal = False, s_ptr = a\<rparr>"] exI [of _ st2] exI [of _ ss'])
          (simp add: s_prepare_modify_def)
    next
      case 2
      then have "s_prepare_modify st s cap = Some (s, st)"
        using lit len by (simp add: s_prepare_modify_def)
      moreover have "cap \<le> length (ss_buf ss)" using 2 ys(3) by (auto split: if_splits)
      ultimately show ?thesis using rep lit ob Shared 2 mk
        by (intro exI [of _ s] exI [of _ st] exI [of _ ss]) simp
    next
      case 3
      define new_cap where "new_cap = (if ?cap > ss_cap ss * 2 then ?cap else ss_cap ss * 2)"
      define ss' where "ss' = ss\<lparr>ss_buf := cells_realloc (ss_buf ss) new_cap, ss_cap := new_cap\<rparr>"
      have nc: "ss_cap ss \<le> new_cap" "cap \<le> new_cap" using 3 by (auto simp: new_cap_def)
      have "s_prepare_modify st s cap = Some (s, put_obj st (s_ptr s) (Some (Shared ss')))"
        using 3 lit len by (simp add: s_prepare_modify_def ss'_def new_cap_def Let_def)
      moreover have holds: "obj_holds (Shared ss') xs"
        using nc(1) ys by (simp add: ss'_def cells_realloc_def)
      moreover have "str_rep (put_obj st (s_ptr s) (Some (Shared ss'))) env (m(k \<mapsto> xs))"
        by (rule str_rep_own [OF rep k(1) ob(1)]) (use Shared 3 lit holds in \<open>simp_all add: ss'_def\<close>)
      ultimately show ?thesis using lit 3 mk nc(2)
        by (intro exI [of _ s] exI [of _ "put_obj st (s_ptr s) (Some (Shared ss'))"] exI [of _ ss'])
          (simp add: put_obj_def ss'_def)
    qed
  qed
qed

lemma put_cells_mid:
  "length ys \<le> length zs \<Longrightarrow>
   put_cells (map Some xs @ zs) (length xs) ys = Some (map Some xs @ ys @ drop (length ys) zs)"
  by (simp add: put_cells_def)

text \<open>A private shared string rewritten in place.\<close>

lemma str_rep_rewrite:
  assumes "str_rep st (env(k \<mapsto> s)) m" "\<not> from_literal s" "sh_mem st (s_ptr s) = Some (Shared ss)"
    "ss_ref_count ss = 1" "ss_ref_count ss' = 1" "obj_holds (Shared ss') ys"
  shows "str_rep (put_obj st (s_ptr s) (Some (Shared ss'))) (env(k \<mapsto> s)) (m(k \<mapsto> ys))"
  by (rule str_rep_own [OF assms(1) _ assms(3)]) (use assms in simp_all)

lemma s_append_char_ok:
  assumes rep: "str_rep st env m" and k: "env k = Some s" "m k = Some xs"
  shows "\<exists>s' st'. s_append_char st s c = Some (s', st') \<and> str_rep st' (env(k \<mapsto> s')) (m(k \<mapsto> xs @ [c]))"
proof -
  have len: "s_len st s = Some (length xs)" using str_rep_get [OF rep k] by blast
  obtain s' st' ss where p: "s_prepare_modify st s (length xs + 2) = Some (s', st')"
    "str_rep st' (env(k \<mapsto> s')) m" "\<not> from_literal s'" "sh_mem st' (s_ptr s') = Some (Shared ss)"
    "ss_ref_count ss = 1" "length xs + 2 \<le> length (ss_buf ss)" "obj_holds (Shared ss) xs"
    using s_prepare_modify_ok [OF rep k, of "length xs + 2"] by blast
  from p(7) obtain rest where buf: "ss_buf ss = map Some xs @ Some 0 # rest" "ss_len ss = length xs"
    "ss_cap ss = length (ss_buf ss)" by auto
  from p(6) buf(1) obtain r rest' where rest: "rest = r # rest'" by (cases rest) auto
  define buf2 where "buf2 = map Some (xs @ [c]) @ Some 0 # rest'"
  have b1: "put_cells (ss_buf ss) (length xs) [Some c] = Some (map Some (xs @ [c]) @ rest)"
    using put_cells_mid [of "[Some c]" "Some 0 # rest" xs] buf(1) by simp
  have b2: "put_cells (map Some (xs @ [c]) @ rest) (length xs + 1) [Some 0] = Some buf2"
    using put_cells_mid [of "[Some 0]" rest "xs @ [c]"] rest by (simp add: buf2_def)
  define ss' where "ss' = ss\<lparr>ss_buf := buf2, ss_len := length xs + 1\<rparr>"
  have "s_append_char st s c = Some (s', put_obj st' (s_ptr s') (Some (Shared ss')))"
    using len p(1,4) b1 b2 buf(2) by (simp add: s_append_char_def get_ss_def ss'_def)
  moreover have "obj_holds (Shared ss') (xs @ [c])"
    using buf rest by (simp add: ss'_def buf2_def)
  ultimately show ?thesis
    using str_rep_rewrite [OF p(2-5), of ss' "xs @ [c]"] p(5) by (auto simp: ss'_def)
qed

lemma s_append_cstr_ok:
  assumes rep: "str_rep st env m" and k: "env k = Some s" "m k = Some xs"
    and add: "add = map Some ys @ Some 0 # zs" "0 \<notin> set ys"
  shows "\<exists>s' st'. s_append_cstr st s add = Some (s', st') \<and> str_rep st' (env(k \<mapsto> s')) (m(k \<mapsto> xs @ ys))"
proof -
  have len: "s_len st s = Some (length xs)" using str_rep_get [OF rep k] by blast
  have alen: "c_strlen add = Some (length ys)" using add c_strlen_terminated by simp
  obtain s' st' ss where p: "s_prepare_modify st s (length xs + length ys + 1) = Some (s', st')"
    "str_rep st' (env(k \<mapsto> s')) m" "\<not> from_literal s'" "sh_mem st' (s_ptr s') = Some (Shared ss)"
    "ss_ref_count ss = 1" "length xs + length ys + 1 \<le> length (ss_buf ss)" "obj_holds (Shared ss) xs"
    using s_prepare_modify_ok [OF rep k, of "length xs + length ys + 1"] by blast
  from p(7) obtain rest where buf: "ss_buf ss = map Some xs @ Some 0 # rest" "ss_len ss = length xs"
    "ss_cap ss = length (ss_buf ss)" by auto
  define buf2 where "buf2 = map Some (xs @ ys) @ Some 0 # drop (length ys) rest"
  have b: "put_cells (ss_buf ss) (length xs) (take (length ys + 1) add) = Some buf2"
    using put_cells_mid [of "map Some ys @ [Some 0]" "Some 0 # rest" xs] buf(1) p(6) add(1)
    by (simp add: buf2_def)
  define ss' where "ss' = ss\<lparr>ss_buf := buf2, ss_len := length xs + length ys\<rparr>"
  have "s_append_cstr st s add = Some (s', put_obj st' (s_ptr s') (Some (Shared ss')))"
    using len alen p(1,4) b by (simp add: s_append_cstr_def get_ss_def ss'_def)
  moreover have "obj_holds (Shared ss') (xs @ ys)"
    using buf p(6) by (simp add: ss'_def buf2_def)
  ultimately show ?thesis
    using str_rep_rewrite [OF p(2-5), of ss' "xs @ ys"] p(5) by (auto simp: ss'_def)
qed

lemma s_set_char_ok:
  assumes rep: "str_rep st env m" and k: "env k = Some s" "m k = Some xs" and i: "i < length xs"
  shows "\<exists>s' st'. s_set_char st s i c = Some (s', st') \<and> str_rep st' (env(k \<mapsto> s')) (m(k \<mapsto> xs[i := c]))"
proof -
  have len: "s_len st s = Some (length xs)" using str_rep_get [OF rep k] by blast
  obtain s' st' ss where p: "s_prepare_modify st s (length xs + 1) = Some (s', st')"
    "str_rep st' (env(k \<mapsto> s')) m" "\<not> from_literal s'" "sh_mem st' (s_ptr s') = Some (Shared ss)"
    "ss_ref_count ss = 1" "obj_holds (Shared ss) xs"
    using s_prepare_modify_ok [OF rep k, of "length xs + 1"] by blast
  from p(6) obtain rest where buf: "ss_buf ss = map Some xs @ Some 0 # rest" "ss_len ss = length xs"
    "ss_cap ss = length (ss_buf ss)" by auto
  define buf2 where "buf2 = map Some (xs[i := c]) @ Some 0 # rest"
  have "put_cells (ss_buf ss) i [Some c] = Some (map Some (take i xs) @ Some c # map Some (drop (Suc i) xs) @ Some 0 # rest)"
    using i by (simp add: put_cells_def buf(1) take_map drop_map)
  then have b: "put_cells (ss_buf ss) i [Some c] = Some buf2"
    using i by (simp add: buf2_def upd_conv_take_nth_drop)
  define ss' where "ss' = ss\<lparr>ss_buf := buf2\<rparr>"
  have "s_set_char st s i c = Some (s', put_obj st' (s_ptr s') (Some (Shared ss')))"
    using len p(1,4) b by (simp add: s_set_char_def get_ss_def ss'_def)
  moreover have "obj_holds (Shared ss') (xs[i := c])"
    using buf by (simp add: ss'_def buf2_def)
  ultimately show ?thesis
    using str_rep_rewrite [OF p(2-5), of ss' "xs[i := c]"] p(5) by (auto simp: ss'_def)
qed

text \<open>The constructors, under a fresh name.\<close>

lemma new_shared_rep:
  assumes rep: "str_rep st env m" and n: "n \<notin> dom env"
    and new: "new_shared_string st cs len cap = Some (alloc_obj st (Shared ss))"
    and ss: "ss_ref_count ss = 1" "obj_holds (Shared ss) xs"
  shows "\<exists>a st'. new_shared_string st cs len cap = Some (a, st') \<and>
    str_rep st' (env(n \<mapsto> \<lparr>from_literal = False, s_ptr = a\<rparr>)) (m(n \<mapsto> xs))"
proof -
  obtain a st' where "alloc_obj st (Shared ss) = (a, st')" by fastforce
  with str_rep_new [OF rep n this] new ss show ?thesis by auto
qed

lemma new_string_ok:
  assumes "str_rep st env m" "n \<notin> dom env"
  shows "\<exists>s st'. new_string st = Some (s, st') \<and> str_rep st' (env(n \<mapsto> s)) (m(n \<mapsto> []))"
proof -
  obtain ss where "new_shared_string st None 0 1 = Some (alloc_obj st (Shared ss))"
    "ss_ref_count ss = 1" "obj_holds (Shared ss) []" using new_shared_null [of st 0 1] by blast
  from new_shared_rep [OF assms this] show ?thesis by (auto simp: new_string_def)
qed

lemma new_string_from_cstr_ok:
  assumes "str_rep st env m" "n \<notin> dom env" "cs = map Some xs @ Some 0 # ys" "0 \<notin> set xs"
  shows "\<exists>s st'. new_string_from_cstr st (Some cs) = Some (s, st') \<and>
    str_rep st' (env(n \<mapsto> s)) (m(n \<mapsto> xs))"
proof -
  obtain ss where ss: "new_shared_string st (Some cs) (length xs) (length xs + 1) = Some (alloc_obj st (Shared ss))"
    "ss_ref_count ss = 1" "obj_holds (Shared ss) xs" using new_shared_ok [OF assms(3)] by blast
  have "c_strlen cs = Some (length xs)" using assms(3,4) c_strlen_terminated by simp
  with new_shared_rep [OF assms(1,2) ss] show ?thesis by (auto simp: new_string_from_cstr_def)
qed

lemma new_string_from_literal_ok:
  assumes "str_rep st env m" "n \<notin> dom env" "cs = map Some xs @ Some 0 # ys" "0 \<notin> set xs"
  shows "\<exists>s st'. new_string_from_literal st (Some cs) = Some (s, st') \<and>
    str_rep st' (env(n \<mapsto> s)) (m(n \<mapsto> xs))"
proof -
  let ?ob = "Literal \<lparr>sl_ref_count = 1, sl_len = length xs, sl_literal = cs\<rparr>"
  obtain a st' where a: "alloc_obj st ?ob = (a, st')" by fastforce
  have "c_strlen cs = Some (length xs)" using assms(3,4) c_strlen_terminated by simp
  with a str_rep_new [OF assms(1,2) a, of xs] assms(3) show ?thesis
    by (auto simp: new_string_from_literal_def)
qed

text \<open>The substring that comes out is always a prefix.\<close>

lemma s_substring_ok:
  assumes rep: "str_rep st env m" and n: "n \<notin> dom env" and k: "env k = Some s" "m k = Some xs"
  shows "\<exists>s' st'. s_substring st s start fin = Some (s', st') \<and>
    str_rep st' (env(n \<mapsto> s')) (m(n \<mapsto> take (min fin (length xs) - start) xs))"
proof -
  obtain rest where g: "s_len st s = Some (length xs)"
    "s_get_cstr st s = Some (map Some xs @ Some 0 # rest)" using str_rep_get [OF rep k] by blast
  define fin' where "fin' = (if fin > length xs then length xs else fin)"
  have fin': "fin' = min fin (length xs)" by (simp add: fin'_def)
  consider "fin' \<le> start" | "start < fin'" "start = 0 \<and> fin' = length xs"
    | "start < fin'" "\<not> (start = 0 \<and> fin' = length xs)" by linarith
  then show ?thesis
  proof cases
    case 1
    then have "s_substring st s start fin = new_string st"
      using g by (simp add: s_substring_def fin'_def)
    with 1 new_string_ok [OF rep n] fin' show ?thesis by simp
  next
    case 2
    then have "s_substring st s start fin = s_copy st s"
      using g by (simp add: s_substring_def fin'_def)
    with 2 str_rep_copy [OF rep n k] fin' show ?thesis by auto
  next
    case 3
    let ?ys = "take (fin' - start) xs"
    have len: "length ?ys = fin' - start" using fin' 3 by simp
    have eq: "map Some xs @ Some 0 # rest = map Some ?ys @ drop (fin' - start) (map Some xs) @ Some 0 # rest"
      by (simp add: take_map [symmetric])
    obtain ss where ss: "new_shared_string st (Some (map Some xs @ Some 0 # rest)) (fin' - start) (fin' - start + 1) =
        Some (alloc_obj st (Shared ss))" "ss_ref_count ss = 1" "obj_holds (Shared ss) ?ys"
      using new_shared_ok [OF eq, of st "fin' - start + 1"] len by auto
    obtain a st' where "new_shared_string st (Some (map Some xs @ Some 0 # rest)) (fin' - start) (fin' - start + 1) =
        Some (a, st')" "str_rep st' (env(n \<mapsto> \<lparr>from_literal = False, s_ptr = a\<rparr>)) (m(n \<mapsto> ?ys))"
      using new_shared_rep [OF rep n ss] by blast
    then show ?thesis using 3 g fin' by (auto simp: s_substring_def fin'_def [symmetric] Let_def)
  qed
qed

section \<open>Programs over named strings\<close>

text \<open>
  A program keeps its \<open>string_t\<close> pointers in variables.  Making a string in a variable that
  still holds one, using an empty variable, an unterminated C string, an index out of range or
  appending a string object to itself are the program's errors, not modelled further.
\<close>

datatype str_cmd =
    SNew nat | SFromCstr nat "byte list" | SFromLiteral nat "byte list" | SCopy nat nat
  | SSubstring nat nat nat nat | SAppendChar nat byte | SAppendCstr nat "byte list"
  | SAppendString nat nat | SSetChar nat nat byte | SDelete nat

type_synonym str_state = "str_store \<times> str_env"

definition bind_new :: "str_env \<Rightarrow> nat \<Rightarrow> (string_t \<times> str_store) option \<Rightarrow> str_state option" where
  "bind_new env n r = (if n \<in> dom env then None else do { (s, st) \<leftarrow> r; Some (st, env(n \<mapsto> s)) })"

definition bind_upd :: "str_env \<Rightarrow> nat \<Rightarrow> (string_t \<Rightarrow> (string_t \<times> str_store) option) \<Rightarrow> str_state option" where
  "bind_upd env n f = do { s \<leftarrow> env n; (s', st) \<leftarrow> f s; Some (st, env(n \<mapsto> s')) }"

fun str_step :: "str_state \<Rightarrow> str_cmd \<Rightarrow> str_state option" where
  "str_step (st, env) (SNew n) = bind_new env n (new_string st)"
| "str_step (st, env) (SFromCstr n cs) = bind_new env n (new_string_from_cstr st (Some (map Some cs)))"
| "str_step (st, env) (SFromLiteral n cs) = bind_new env n (new_string_from_literal st (Some (map Some cs)))"
| "str_step (st, env) (SCopy n k) = do { s \<leftarrow> env k; bind_new env n (s_copy st s) }"
| "str_step (st, env) (SSubstring n k a b) = do { s \<leftarrow> env k; bind_new env n (s_substring st s a b) }"
| "str_step (st, env) (SAppendChar n c) = bind_upd env n (\<lambda>s. s_append_char st s c)"
| "str_step (st, env) (SAppendCstr n cs) = bind_upd env n (\<lambda>s. s_append_cstr st s (map Some cs))"
| "str_step (st, env) (SAppendString n k) =
     do { t \<leftarrow> env k; bind_upd env n (\<lambda>s. s_append_string st s t) }"
| "str_step (st, env) (SSetChar n i c) = bind_upd env n (\<lambda>s. s_set_char st s i c)"
| "str_step (st, env) (SDelete n) =
     do { s \<leftarrow> env n; st' \<leftarrow> delete_string st s; Some (st', env(n := None)) }"

fun str_run :: "str_state \<Rightarrow> str_cmd list \<Rightarrow> str_state option" where
  "str_run x [] = Some x"
| "str_run x (c # cs) = do { y \<leftarrow> str_step x c; str_run y cs }"

text \<open>The specification: every variable has a byte list of its own.\<close>

definition c_str :: "byte list \<Rightarrow> byte list" where
  "c_str bs = takeWhile (\<lambda>b. b \<noteq> 0) bs"

type_synonym bytes_env = "nat \<rightharpoonup> byte list"

definition spec_new :: "bytes_env \<Rightarrow> nat \<Rightarrow> byte list \<Rightarrow> bytes_env option" where
  "spec_new m n xs = (if n \<in> dom m then None else Some (m(n \<mapsto> xs)))"

fun spec_str_step :: "bytes_env \<Rightarrow> str_cmd \<Rightarrow> bytes_env option" where
  "spec_str_step m (SNew n) = spec_new m n []"
| "spec_str_step m (SFromCstr n cs) = (if 0 \<in> set cs then spec_new m n (c_str cs) else None)"
| "spec_str_step m (SFromLiteral n cs) = (if 0 \<in> set cs then spec_new m n (c_str cs) else None)"
| "spec_str_step m (SCopy n k) = do { xs \<leftarrow> m k; spec_new m n xs }"
| "spec_str_step m (SSubstring n k a b) =
     do { xs \<leftarrow> m k; spec_new m n (take (min b (length xs) - a) xs) }"
| "spec_str_step m (SAppendChar n c) = do { xs \<leftarrow> m n; Some (m(n \<mapsto> xs @ [c])) }"
| "spec_str_step m (SAppendCstr n cs) =
     do { xs \<leftarrow> m n; (if 0 \<in> set cs then Some (m(n \<mapsto> xs @ c_str cs)) else None) }"
| "spec_str_step m (SAppendString n k) =
     do { ys \<leftarrow> m k; xs \<leftarrow> m n; (if n = k then None else Some (m(n \<mapsto> xs @ c_str ys))) }"
| "spec_str_step m (SSetChar n i c) =
     do { xs \<leftarrow> m n; (if i < length xs then Some (m(n \<mapsto> xs[i := c])) else None) }"
| "spec_str_step m (SDelete n) = do { xs \<leftarrow> m n; Some (m(n := None)) }"

fun spec_str_run :: "bytes_env \<Rightarrow> str_cmd list \<Rightarrow> bytes_env option" where
  "spec_str_run m [] = Some m"
| "spec_str_run m (c # cs) = do { m' \<leftarrow> spec_str_step m c; spec_str_run m' cs }"

lemma c_str_split:
  assumes "0 \<in> set cs" obtains ys where "map Some cs = map Some (c_str cs) @ Some 0 # ys" "0 \<notin> set (c_str cs)"
proof -
  obtain d ds where d: "dropWhile (\<lambda>b. b \<noteq> 0) cs = d # ds"
    using assms by (cases "dropWhile (\<lambda>b. b \<noteq> 0) cs") auto
  then have "d = 0" using hd_dropWhile [of "\<lambda>b. b \<noteq> 0" cs] assms by auto
  with d have "cs = c_str cs @ 0 # ds" by (metis c_str_def takeWhile_dropWhile_id)
  then have "map Some cs = map Some (c_str cs) @ Some 0 # map Some ds"
    by (metis list.map(2) map_append)
  moreover have "0 \<notin> set (c_str cs)" by (auto simp: c_str_def dest: set_takeWhileD)
  ultimately show thesis using that by blast
qed

lemma c_str_of_holder:
  "\<exists>zs. map Some xs @ Some 0 # rest = map Some (c_str xs) @ Some 0 # zs"
proof (cases "0 \<in> set xs")
  case True
  then obtain ys where "map Some xs = map Some (c_str xs) @ Some 0 # ys" using c_str_split by metis
  then show ?thesis by auto
next
  case False
  then have "c_str xs = xs" by (auto simp: c_str_def takeWhile_eq_all_conv)
  then show ?thesis by auto
qed

lemma str_rep_dom: "str_rep st env m \<Longrightarrow> dom env = dom m"
  by (simp add: str_rep_def)

lemma str_rep_bound:
  assumes "str_rep st env m" "m k = Some xs" obtains s where "env k = Some s"
proof -
  have "k \<in> dom env" using str_rep_dom [OF assms(1)] assms(2) by auto
  then show thesis using that by auto
qed

lemma bind_new_ok:
  assumes "str_rep st env m" "spec_new m n xs = Some m'"
    "n \<notin> dom env \<Longrightarrow> \<exists>s st'. r = Some (s, st') \<and> str_rep st' (env(n \<mapsto> s)) (m(n \<mapsto> xs))"
  shows "\<exists>st' env'. bind_new env n r = Some (st', env') \<and> str_rep st' env' m'"
proof -
  have "n \<notin> dom env" "m' = m(n \<mapsto> xs)"
    using assms(2) str_rep_dom [OF assms(1)] by (auto simp: spec_new_def split: if_splits)
  with assms(3) show ?thesis by (auto simp: bind_new_def)
qed

lemma s_append_string_ok:
  assumes rep: "str_rep st env m" and n: "env n = Some s" "m n = Some xs"
    and k: "env k = Some t" "m k = Some ys" and ne: "n \<noteq> k"
  shows "\<exists>s' st'. s_append_string st s t = Some (s', st') \<and>
    str_rep st' (env(n \<mapsto> s')) (m(n \<mapsto> xs @ c_str ys))"
proof -
  obtain rest where "s_get_cstr st t = Some (map Some ys @ Some 0 # rest)"
    using str_rep_get [OF rep k] by blast
  then obtain zs where cs: "s_get_cstr st t = Some (map Some (c_str ys) @ Some 0 # zs)"
    using c_str_of_holder by metis
  have "0 \<notin> set (c_str ys)" by (auto simp: c_str_def dest: set_takeWhileD)
  note app = s_append_cstr_ok [OF rep n refl this, of zs]
  have "map_option ss_ref_count (get_ss st (s_ptr s)) \<noteq> Some 1" if same: "s_ptr t = s_ptr s"
  proof
    assume one: "map_option ss_ref_count (get_ss st (s_ptr s)) = Some 1"
    then obtain ss where ss: "sh_mem st (s_ptr s) = Some (Shared ss)" "ss_ref_count ss = 1"
      by (auto simp: get_ss_def split: option.splits shared.splits)
    have fin: "finite (dom env)" using rep by (simp add: str_rep_def)
    have "{n, k} \<subseteq> {j \<in> dom env. s_ptr (the (env j)) = s_ptr s}" using n k same by auto
    then have "card {n, k} \<le> refs env (s_ptr s)"
      unfolding refs_def by (rule card_mono [rotated]) (use fin in simp)
    moreover have "refs env (s_ptr s) = 1" using str_rep_obj [OF rep n] ss by (metis obj_rc.simps(1) option.sel)
    ultimately show False using ne by simp
  qed
  then have "s_append_string st s t = s_append_cstr st s (map Some (c_str ys) @ Some 0 # zs)"
    using cs by (auto simp: s_append_string_def)
  with app show ?thesis by simp
qed

lemma str_step_ok:
  assumes rep: "str_rep st env m" and spec: "spec_str_step m c = Some m'"
  shows "\<exists>st' env'. str_step (st, env) c = Some (st', env') \<and> str_rep st' env' m'"
proof (cases c)
  case (SNew n)
  with spec show ?thesis using bind_new_ok [OF rep] new_string_ok [OF rep] by simp
next
  case (SFromCstr n cs)
  with spec have z: "0 \<in> set cs" "spec_new m n (c_str cs) = Some m'" by (auto split: if_splits)
  obtain ys where "map Some cs = map Some (c_str cs) @ Some 0 # ys" "0 \<notin> set (c_str cs)"
    using c_str_split [OF z(1)] by blast
  with SFromCstr bind_new_ok [OF rep z(2)] new_string_from_cstr_ok [OF rep] show ?thesis by simp
next
  case (SFromLiteral n cs)
  with spec have z: "0 \<in> set cs" "spec_new m n (c_str cs) = Some m'" by (auto split: if_splits)
  obtain ys where "map Some cs = map Some (c_str cs) @ Some 0 # ys" "0 \<notin> set (c_str cs)"
    using c_str_split [OF z(1)] by blast
  with SFromLiteral bind_new_ok [OF rep z(2)] new_string_from_literal_ok [OF rep] show ?thesis by simp
next
  case (SCopy n k)
  with spec obtain xs where xs: "m k = Some xs" "spec_new m n xs = Some m'" by (cases "m k") auto
  obtain s where s: "env k = Some s" using str_rep_bound [OF rep xs(1)] .
  have "\<exists>s' st'. s_copy st s = Some (s', st') \<and> str_rep st' (env(n \<mapsto> s')) (m(n \<mapsto> xs))" if "n \<notin> dom env"
    using str_rep_copy [OF rep that s xs(1)] by blast
  from bind_new_ok [OF rep xs(2) this] SCopy s show ?thesis by simp
next
  case (SSubstring n k a b)
  with spec obtain xs where xs: "m k = Some xs" "spec_new m n (take (min b (length xs) - a) xs) = Some m'"
    by (cases "m k") auto
  obtain s where s: "env k = Some s" using str_rep_bound [OF rep xs(1)] .
  from bind_new_ok [OF rep xs(2) s_substring_ok [OF rep _ s xs(1)]] SSubstring s show ?thesis by simp
next
  case (SAppendChar n ch)
  with spec obtain xs where xs: "m n = Some xs" "m' = m(n \<mapsto> xs @ [ch])" by (cases "m n") auto
  obtain s where s: "env n = Some s" using str_rep_bound [OF rep xs(1)] .
  from s_append_char_ok [OF rep s xs(1), of ch] SAppendChar xs(2) s show ?thesis
    by (auto simp: bind_upd_def)
next
  case (SAppendCstr n cs)
  with spec obtain xs where xs: "m n = Some xs" "0 \<in> set cs" "m' = m(n \<mapsto> xs @ c_str cs)"
    by (cases "m n") (auto split: if_splits)
  obtain s where s: "env n = Some s" using str_rep_bound [OF rep xs(1)] .
  obtain ys where "map Some cs = map Some (c_str cs) @ Some 0 # ys" "0 \<notin> set (c_str cs)"
    using c_str_split [OF xs(2)] by blast
  from s_append_cstr_ok [OF rep s xs(1) this] SAppendCstr xs(3) s show ?thesis
    by (auto simp: bind_upd_def)
next
  case (SAppendString n k)
  with spec obtain xs ys where xs: "m n = Some xs" "m k = Some ys" "n \<noteq> k" "m' = m(n \<mapsto> xs @ c_str ys)"
    by (cases "m n"; cases "m k") (auto split: if_splits)
  obtain s t where s: "env n = Some s" "env k = Some t" using str_rep_bound [OF rep] xs(1,2) by metis
  from s_append_string_ok [OF rep s(1) xs(1) s(2) xs(2,3)] SAppendString xs(4) s(2) s(1) show ?thesis
    by (auto simp: bind_upd_def)
next
  case (SSetChar n i ch)
  with spec obtain xs where xs: "m n = Some xs" "i < length xs" "m' = m(n \<mapsto> xs[i := ch])"
    by (cases "m n") (auto split: if_splits)
  obtain s where s: "env n = Some s" using str_rep_bound [OF rep xs(1)] .
  from s_set_char_ok [OF rep s xs(1,2), of ch] SSetChar xs(3) s show ?thesis
    by (auto simp: bind_upd_def)
next
  case (SDelete n)
  with spec obtain xs where xs: "m n = Some xs" "m' = m(n := None)" by (cases "m n") auto
  obtain s where s: "env n = Some s" using str_rep_bound [OF rep xs(1)] .
  from str_rep_release [OF rep s xs(1)] SDelete s xs(2) show ?thesis by (auto simp: delete_string_def)
qed

definition empty_store :: str_store where
  "empty_store = \<lparr>sh_mem = Map.empty, sh_brk = 0\<rparr>"

lemma str_run_ok:
  "str_rep st env m \<Longrightarrow> spec_str_run m cs = Some m' \<Longrightarrow>
   \<exists>st' env'. str_run (st, env) cs = Some (st', env') \<and> str_rep st' env' m'"
proof (induction cs arbitrary: st env m)
  case (Cons c cs)
  then obtain m1 where m1: "spec_str_step m c = Some m1" "spec_str_run m1 cs = Some m'"
    by (cases "spec_str_step m c") auto
  obtain st1 env1 where "str_step (st, env) c = Some (st1, env1)" "str_rep st1 env1 m1"
    using str_step_ok [OF Cons.prems(1) m1(1)] by blast
  with Cons.IH [OF _ m1(2)] show ?case by simp
qed auto

lemma str_rep_empty: "str_rep empty_store Map.empty Map.empty"
  by (simp add: str_rep_def empty_store_def)

section \<open>Keys of the hash map\<close>

definition str_hash :: "byte list \<Rightarrow> u32" where
  "str_hash xs = fold (\<lambda>b h. h * 31 + scast b) xs 23"

definition str_eq :: "byte list \<Rightarrow> byte list \<Rightarrow> bool" where
  "str_eq xs ys \<longleftrightarrow> c_str xs = c_str ys"

lemma s_hash_loop_ok:
  "s_hash_loop (map Some xs @ cs) (length xs) h = Some (fold (\<lambda>b h. h * 31 + scast b) xs h)"
  by (induction xs arbitrary: h) auto

lemma s_hash_ok:
  assumes "str_rep st env m" "env n = Some s" "m n = Some xs"
  shows "s_hash st s = Some (str_hash xs)"
  using str_rep_get [OF assms] s_hash_loop_ok [of xs] by (auto simp: s_hash_def str_hash_def)

lemma s_equals_ok:
  assumes rep: "str_rep st env m" and "env n = Some s" "m n = Some xs" "env k = Some t" "m k = Some ys"
  shows "s_equals st s t = Some (str_eq xs ys)"
proof -
  obtain r1 where "s_get_cstr st s = Some (map Some xs @ Some 0 # r1)"
    using str_rep_get(2) [OF rep assms(2,3)] by blast
  moreover obtain r2 where "s_get_cstr st t = Some (map Some ys @ Some 0 # r2)"
    using str_rep_get(2) [OF rep assms(4,5)] by blast
  ultimately obtain z1 z2 where "s_get_cstr st s = Some (map Some (c_str xs) @ Some 0 # z1)"
    "s_get_cstr st t = Some (map Some (c_str ys) @ Some 0 # z2)" using c_str_of_holder by metis
  moreover have "0 \<notin> set (c_str xs)" "0 \<notin> set (c_str ys)"
    by (auto simp: c_str_def dest: set_takeWhileD)
  ultimately show ?thesis using c_streq_terminated by (simp add: s_equals_def str_eq_def)
qed

definition no_nul :: "byte list \<Rightarrow> bool" where "no_nul xs \<longleftrightarrow> 0 \<notin> set xs"

lemma c_str_no_nul: "no_nul xs \<Longrightarrow> c_str xs = xs"
  by (auto simp: c_str_def no_nul_def takeWhile_eq_all_conv)

interpretation str_key: hash_key str_hash str_eq no_nul
  by unfold_locales (auto simp: str_eq_def c_str_no_nul)

section \<open>Properties\<close>

declare str_run.simps [simp del]

text \<open>C9. Copy on write is invisible: any program over named strings (constructors, copies,
  substrings, appends, character updates, deletions, in any order) runs without undefined
  behaviour and leaves every variable with the length and characters it would have if it
  owned a private byte list, whatever buffers are shared underneath.  The store holds exactly
  the objects some live variable refers to, so deleting every string frees everything.\<close>

theorem strings_refine_private_lists:
  assumes "spec_str_run Map.empty cmds = Some m"
  shows "\<exists>st env. str_run (empty_store, Map.empty) cmds = Some (st, env) \<and>
    (\<forall>n xs. m n = Some xs \<longrightarrow> (\<exists>s rest. env n = Some s \<and> s_len st s = Some (length xs) \<and>
       s_get_cstr st s = Some (map Some xs @ Some 0 # rest))) \<and>
    (\<forall>a. sh_mem st a \<noteq> None \<longrightarrow> (\<exists>n s. env n = Some s \<and> s_ptr s = a)) \<and>
    (dom m = {} \<longrightarrow> sh_mem st = Map.empty)"
proof -
  obtain st env where r: "str_run (empty_store, Map.empty) cmds = Some (st, env)" "str_rep st env m"
    using str_run_ok [OF str_rep_empty assms] by blast
  have live: "\<exists>n s. env n = Some s \<and> s_ptr s = a" if "sh_mem st a \<noteq> None" for a
  proof -
    have "0 < refs env a" using that r(2) by (auto simp: str_rep_def)
    then have "{n \<in> dom env. s_ptr (the (env n)) = a} \<noteq> {}" by (auto simp: refs_def card_gt_0_iff)
    then show ?thesis by fastforce
  qed
  have "\<exists>s rest. env n = Some s \<and> s_len st s = Some (length xs) \<and>
      s_get_cstr st s = Some (map Some xs @ Some 0 # rest)" if mn: "m n = Some xs" for n xs
  proof -
    obtain s where s: "env n = Some s" using str_rep_bound [OF r(2) mn] .
    with str_rep_get [OF r(2) s mn] show ?thesis by blast
  qed
  moreover have "sh_mem st = Map.empty" if "dom m = {}"
    using live str_rep_dom [OF r(2)] that by (intro ext) (metis domI empty_iff not_None_eq)
  ultimately show ?thesis using r(1) live by blast
qed

theorem strings_refine_private_lists_witness:
  "\<exists>st env s rest. str_run (empty_store, Map.empty)
       [SFromLiteral 0 [104, 105, 0], SCopy 1 0, SAppendChar 1 33, SSetChar 0 0 72] = Some (st, env) \<and>
     env 1 = Some s \<and> s_get_cstr st s = Some (map Some [104, 105, 33] @ Some 0 # rest)"
proof -
  have "spec_str_run Map.empty [SFromLiteral 0 [104, 105, 0], SCopy 1 0, SAppendChar 1 33, SSetChar 0 0 72] =
      Some [0 \<mapsto> [72, 105], 1 \<mapsto> [104, 105, 33]]"
    by (simp add: spec_new_def c_str_def fun_eq_iff)
  from strings_refine_private_lists [OF this] obtain st env where
    "str_run (empty_store, Map.empty)
       [SFromLiteral 0 [104, 105, 0], SCopy 1 0, SAppendChar 1 33, SSetChar 0 0 72] = Some (st, env)"
    "\<forall>n xs. [0 \<mapsto> [72, 105], 1 \<mapsto> [104, 105, 33]] n = Some xs \<longrightarrow>
      (\<exists>s rest. env n = Some s \<and> s_len st s = Some (length xs) \<and>
        s_get_cstr st s = Some (map Some xs @ Some 0 # rest))" by blast
  moreover from this(2) [rule_format, of 1 "[104, 105, 33]"] obtain s rest where
    "env 1 = Some s" "s_get_cstr st s = Some (map Some [104, 105, 33] @ Some 0 # rest)" by auto
  ultimately show ?thesis by blast
qed

text \<open>\<open>s_substring\<close> of any string copies from its beginning: for every \<open>start\<close> and \<open>end\<close> the
  result is the prefix of length \<open>min(end, len) - start\<close>, not the characters from \<open>start\<close> on.\<close>

theorem substring_is_prefix:
  assumes "spec_str_run Map.empty cmds = Some m" "m k = Some xs" "m n = None"
  shows "\<exists>st env s rest. str_run (empty_store, Map.empty) (cmds @ [SSubstring n k start fin]) = Some (st, env) \<and>
    env n = Some s \<and>
    s_get_cstr st s = Some (map Some (take (min fin (length xs) - start) xs) @ Some 0 # rest)"
proof -
  have app: "spec_str_run Map.empty (cs @ [c]) = do { m' \<leftarrow> spec_str_run Map.empty cs; spec_str_step m' c }" for cs c
  proof -
    have "spec_str_run a (cs @ [c]) = do { m' \<leftarrow> spec_str_run a cs; spec_str_step m' c }" for a
      by (induction cs arbitrary: a) (auto split: Option.bind_split)
    then show ?thesis .
  qed
  have n: "n \<notin> dom m" using assms(3) by auto
  let ?ys = "take (min fin (length xs) - start) xs"
  have "spec_str_run Map.empty (cmds @ [SSubstring n k start fin]) = Some (m(n \<mapsto> ?ys))"
    using assms(1,2) n by (simp add: app spec_new_def)
  then obtain st env where r: "str_run (empty_store, Map.empty) (cmds @ [SSubstring n k start fin]) = Some (st, env)"
    "str_rep st env (m(n \<mapsto> ?ys))" using str_run_ok [OF str_rep_empty] by blast
  moreover obtain s where s: "env n = Some s" using str_rep_bound [OF r(2), of n ?ys] by auto
  moreover have "\<exists>rest. s_get_cstr st s = Some (map Some ?ys @ Some 0 # rest)"
    using str_rep_get(2) [OF r(2) s] by simp
  ultimately show ?thesis by blast
qed

theorem substring_is_prefix_witness:
  "\<exists>st env s rest. str_run (empty_store, Map.empty)
       ([SFromCstr 0 [97, 98, 99, 0]] @ [SSubstring 1 0 1 3]) = Some (st, env) \<and>
     env 1 = Some s \<and> s_get_cstr st s = Some (map Some [97, 98] @ Some 0 # rest)"
proof -
  have "spec_str_run Map.empty [SFromCstr 0 [97, 98, 99, 0]] = Some [0 \<mapsto> [97, 98, 99]]"
    by (simp add: spec_new_def c_str_def)
  from substring_is_prefix [OF this, of 0 "[97, 98, 99]" 1 1 3] show ?thesis by simp
qed

text \<open>C8. The hash map keyed by strings (\<open>s_indirect_hash\<close>, \<open>s_indirect_equals\<close>) is a finite
  map: on any run of puts, gets, removes, counts and whole iterations over keys without an
  embedded NUL, through every resize, it returns exactly what an association list returns,
  and every iteration ends having met each binding once.\<close>

theorem string_map_refines:
  assumes "new_hash_map ji jn ks vs (Some str_hash) (Some str_eq) = Some hm"
    and "\<forall>c \<in> set cmds. \<forall>k \<in> cmd_keys c. no_nul k"
  shows "\<exists>hm'. map_run hm cmds = Some (fst (alist_run str_eq [] cmds), hm')"
  using str_key.run_new_refines [OF assms] by blast

theorem string_map_refines_witness:
  "\<exists>hm hm'. new_hash_map 0 [] 8 8 (Some str_hash) (Some str_eq) = Some hm \<and>
     map_run hm [MPut [1] (10::nat), MPut [2] (20::nat), MPut [1] (30::nat), MGet [1], MRemove [2], MCount] =
       Some ([OVoid, OVoid, OVoid, OVal (Some (30::nat)), ORemoved True, OCount 1], hm')"
proof -
  obtain hm where hm: "new_hash_map 0 [] 8 8 (Some str_hash) (Some str_eq) =
      Some (hm :: (byte list, nat) hash_map_t)" by (simp add: new_hash_map_def)
  from string_map_refines [OF hm, of "[MPut [1] (10::nat), MPut [2] (20::nat), MPut [1] (30::nat), MGet [1], MRemove [2], MCount]"]
  have "\<exists>hm'. map_run hm [MPut [1] (10::nat), MPut [2] (20::nat), MPut [1] (30::nat), MGet [1], MRemove [2], MCount] =
      Some ([OVoid, OVoid, OVoid, OVal (Some (30::nat)), ORemoved True, OCount 1], hm')"
    by (simp add: no_nul_def alist_put_def alist_get_def alist_remove_def str_eq_def c_str_def)
  with hm show ?thesis by blast
qed

text \<open>\<open>hm_equals\<close> on two string-keyed maps, each reached by any run, terminates and holds
  exactly when the maps have the same keys with related values, in whatever order and table
  size they are stored.\<close>

theorem string_map_equals:
  assumes "new_hash_map ji1 jn1 ks vs (Some str_hash) (Some str_eq) = Some hm1"
    and "new_hash_map ji2 jn2 ks vs (Some str_hash) (Some str_eq) = Some hm2"
    and "\<forall>c \<in> set cmds1 \<union> set cmds2. \<forall>k \<in> cmd_keys c. no_nul k"
    and "map_run hm1 cmds1 = Some (outs1, hm1')" and "map_run hm2 cmds2 = Some (outs2, hm2')"
  shows "\<exists>hm1''. hm_equals veq hm1' hm2' =
    Some (\<forall>k. no_nul k \<longrightarrow> rel_option veq (alist_get str_eq (snd (alist_run str_eq [] cmds1)) k)
                              (alist_get str_eq (snd (alist_run str_eq [] cmds2)) k), hm1'')"
proof -
  let ?a1 = "snd (alist_run str_eq [] cmds1)" and ?a2 = "snd (alist_run str_eq [] cmds2)"
  have r: "str_key.rel hm1' ?a1" "str_key.rel hm2' ?a2"
    using str_key.run_new_refines [OF assms(1), of cmds1]
      str_key.run_new_refines [OF assms(2), of cmds2] assms(3-5) by auto
  obtain hm1'' where e: "hm_equals veq hm1' hm2' =
      Some (\<forall>k. no_nul k \<longrightarrow> rel_option veq (hm_get hm1' k) (hm_get hm2' k), hm1'')"
    using str_key.equals_refines [OF r, of veq] by blast
  have "(\<forall>k. no_nul k \<longrightarrow> rel_option veq (hm_get hm1' k) (hm_get hm2' k)) =
      (\<forall>k. no_nul k \<longrightarrow> rel_option veq (alist_get str_eq ?a1 k) (alist_get str_eq ?a2 k))"
    using str_key.get_refines [OF r(1)] str_key.get_refines [OF r(2)] by simp
  with e show ?thesis by simp
qed

theorem string_map_equals_witness:
  "\<exists>hm hm1 hm2 o1 o2 b hm3. new_hash_map 0 [] 8 8 (Some str_hash) (Some str_eq) = Some hm \<and>
     map_run hm [MPut [1] (10::nat), MPut [2] (20::nat)] = Some (o1, hm1) \<and>
     map_run hm [MPut [2] (20::nat), MPut [1] (10::nat)] = Some (o2, hm2) \<and>
     hm_equals (=) hm1 hm2 = Some (b, hm3) \<and> b"
proof -
  let ?c1 = "[MPut [1 :: byte] (10::nat), MPut [2] (20::nat)]" and ?c2 = "[MPut [2 :: byte] (20::nat), MPut [1] (10::nat)]"
  obtain hm where hm: "new_hash_map 0 [] 8 8 (Some str_hash) (Some str_eq) =
      Some (hm :: (byte list, nat) hash_map_t)" by (simp add: new_hash_map_def)
  have ok: "\<forall>c \<in> set ?c1 \<union> set ?c2. \<forall>k \<in> cmd_keys c. no_nul k" by (simp add: no_nul_def)
  obtain o1 hm1 o2 hm2 where r: "map_run hm ?c1 = Some (o1, hm1)" "map_run hm ?c2 = Some (o2, hm2)"
    using str_key.run_new_refines [OF hm, of ?c1] str_key.run_new_refines [OF hm, of ?c2] ok by auto
  have same: "rel_option (=) (alist_get str_eq (snd (alist_run str_eq [] ?c1)) k)
      (alist_get str_eq (snd (alist_run str_eq [] ?c2)) k)" for k
  proof -
    have "c_str k \<noteq> c_str [1] \<or> c_str k \<noteq> c_str [2]" by (simp add: c_str_def)
    then show ?thesis by (auto simp: alist_put_def alist_get_def str_eq_def option.rel_eq)
  qed
  from string_map_equals [OF hm hm ok r, of "(=)"] same obtain b hm3 where
    "hm_equals (=) hm1 hm2 = Some (b, hm3)" b by auto
  with hm r show ?thesis by blast
qed

text \<open>With an embedded NUL the key contract fails: two strings that \<open>s_equals\<close> identifies
  hash differently, so a value put under one is not found under the other.\<close>

theorem embedded_nul_breaks_keys:
  "str_eq [1, 0] [1] \<and> str_hash [1, 0] \<noteq> str_hash [1] \<and>
   (\<exists>hm. new_hash_map 0 [] 8 8 (Some str_hash) (Some str_eq) = Some hm \<and>
     hm_get (hm_put hm [1, 0] v) [1] = None)"
  by (simp add: str_eq_def c_str_def str_hash_def new_hash_map_def hm_get_def hm_put_def
      hm_check_resize_def HM_FILL_FACTOR_def hm_match_def Let_def)

end
