(* ===== verification/Chrpc_Type.thy ===== *)
theory Chrpc_Type
  imports Ch_Prelude
begin

text \<open>
  The serializable types of \<open>chrpc/src/serial_type.c\<close>: the type tree, its wire format
  (\<open>chrpc_type_to_buffer\<close>, \<open>chrpc_type_from_buffer\<close>), copying, comparing and deleting.  A buffer
  argument \<open>buf\<close> with its length \<open>buf_len\<close> is the list of its bytes; \<open>buf + k\<close> with
  \<open>buf_len - k\<close> is the list without its first \<open>k\<close> bytes, so no access outside the buffer can
  be expressed.  Out parameters that a branch leaves unset are \<open>None\<close>.

  \<open>type_enc\<close> is the format as a grammar; the lemmas show that the writer produces it, that the
  reader inverts it and accepts nothing else, and that the reader's error paths release every
  block they allocated.
\<close>

section \<open>Statuses and types\<close>

datatype chrpc_status_t =
    CHRPC_SUCCESS | CHRPC_SYNTAX_ERROR | CHRPC_UNEXPECTED_END | CHRPC_BUFFER_TOO_SMALL
  | CHRPC_EMPTY_STRUCT_TYPE | CHRPC_STRUCT_TYPE_TOO_LARGE | CHRPC_MALFORMED_TYPE
  | CHRPC_SERVER_CREATION_ERROR | CHRPC_SERVER_FULL | CHRPC_UKNOWN_ENDPOINT
  | CHRPC_ARGUMENT_MISMATCH | CHRPC_CLIENT_CHANNEL_EMTPY | CHRPC_CLIENT_CHANNEL_ERROR
  | CHRPC_BAD_REQUEST | CHRPC_SERVER_INTERNAL_ERROR | CHRPC_DISCONNECT | CHRPC_BAD_RESPONSE
  | CHRPC_CLIENT_CREATION_ERROR | CHRPC_TOO_MANY_ARGUMENTS

text \<open>The number each status is defined as; the server sends it as the first response byte.\<close>

fun status_code :: "chrpc_status_t \<Rightarrow> byte" where
  "status_code CHRPC_SUCCESS = 0"
| "status_code CHRPC_SYNTAX_ERROR = 1"
| "status_code CHRPC_UNEXPECTED_END = 2"
| "status_code CHRPC_BUFFER_TOO_SMALL = 3"
| "status_code CHRPC_EMPTY_STRUCT_TYPE = 4"
| "status_code CHRPC_STRUCT_TYPE_TOO_LARGE = 5"
| "status_code CHRPC_MALFORMED_TYPE = 6"
| "status_code CHRPC_SERVER_CREATION_ERROR = 7"
| "status_code CHRPC_SERVER_FULL = 8"
| "status_code CHRPC_UKNOWN_ENDPOINT = 9"
| "status_code CHRPC_ARGUMENT_MISMATCH = 10"
| "status_code CHRPC_CLIENT_CHANNEL_EMTPY = 11"
| "status_code CHRPC_CLIENT_CHANNEL_ERROR = 12"
| "status_code CHRPC_BAD_REQUEST = 13"
| "status_code CHRPC_SERVER_INTERNAL_ERROR = 14"
| "status_code CHRPC_DISCONNECT = 15"
| "status_code CHRPC_BAD_RESPONSE = 16"
| "status_code CHRPC_CLIENT_CREATION_ERROR = 17"
| "status_code CHRPC_TOO_MANY_ARGUMENTS = 18"

datatype chrpc_type_t =
    CHRPC_BYTE_T | CHRPC_INT16_T | CHRPC_INT32_T | CHRPC_INT64_T | CHRPC_UINT16_T
  | CHRPC_UINT32_T | CHRPC_UINT64_T | CHRPC_FLOAT32_T | CHRPC_FLOAT64_T | CHRPC_STRING_T
  | Array chrpc_type_t | Struct "chrpc_type_t list"

abbreviation CHRPC_STRUCT_TID :: byte where "CHRPC_STRUCT_TID \<equiv> 10"
abbreviation CHRPC_ARRAY_TID :: byte where "CHRPC_ARRAY_TID \<equiv> 11"

definition CHRPC_MAX_STRUCT_FIELDS :: nat where "CHRPC_MAX_STRUCT_FIELDS = 64"

fun type_id :: "chrpc_type_t \<Rightarrow> byte" where
  "type_id CHRPC_BYTE_T = 0"
| "type_id CHRPC_INT16_T = 1"
| "type_id CHRPC_INT32_T = 2"
| "type_id CHRPC_INT64_T = 3"
| "type_id CHRPC_UINT16_T = 4"
| "type_id CHRPC_UINT32_T = 5"
| "type_id CHRPC_UINT64_T = 6"
| "type_id CHRPC_FLOAT32_T = 7"
| "type_id CHRPC_FLOAT64_T = 8"
| "type_id CHRPC_STRING_T = 9"
| "type_id (Struct ts) = CHRPC_STRUCT_TID"
| "type_id (Array t) = CHRPC_ARRAY_TID"

definition chrpc_type_id_is_primitive :: "byte \<Rightarrow> bool" where
  "chrpc_type_id_is_primitive tid \<longleftrightarrow> tid \<le> 9"

definition chrpc_type_is_primitive :: "chrpc_type_t \<Rightarrow> bool" where
  "chrpc_type_is_primitive ct \<longleftrightarrow> chrpc_type_id_is_primitive (type_id ct)"

definition new_chrpc_primitive_type_from_id :: "byte \<Rightarrow> chrpc_type_t option" where
  "new_chrpc_primitive_type_from_id tid =
     (if tid = 0 then Some CHRPC_BYTE_T else if tid = 1 then Some CHRPC_INT16_T
      else if tid = 2 then Some CHRPC_INT32_T else if tid = 3 then Some CHRPC_INT64_T
      else if tid = 4 then Some CHRPC_UINT16_T else if tid = 5 then Some CHRPC_UINT32_T
      else if tid = 6 then Some CHRPC_UINT64_T else if tid = 7 then Some CHRPC_FLOAT32_T
      else if tid = 8 then Some CHRPC_FLOAT64_T else if tid = 9 then Some CHRPC_STRING_T
      else None)"

text \<open>
  \<open>_new_chrpc_struct_type\<close> with its variable arguments as a list; the array list in between is
  the one of \<open>Chutil_List\<close>.
\<close>

definition new_chrpc_struct_type :: "chrpc_type_t list \<Rightarrow> chrpc_type_t option" where
  "new_chrpc_struct_type ts =
     (if length ts < 1 \<or> CHRPC_MAX_STRUCT_FIELDS < length ts then None else Some (Struct ts))"

section \<open>Deleting, copying, comparing\<close>

text \<open>
  The number of \<open>safe_free\<close> calls of \<open>delete_chrpc_type\<close>: the node, and for a struct its field
  table and field record.  \<open>new_chrpc_type_copy\<close> gives the copy and its \<open>safe_malloc\<close> calls.
\<close>

fun delete_chrpc_type :: "chrpc_type_t \<Rightarrow> nat" where
  "delete_chrpc_type (Array t) = delete_chrpc_type t + 1"
| "delete_chrpc_type (Struct ts) = sum_list (map delete_chrpc_type ts) + 1 + 1 + 1"
| "delete_chrpc_type prim = 0"

fun new_chrpc_type_copy :: "chrpc_type_t \<Rightarrow> chrpc_type_t \<times> nat" where
  "new_chrpc_type_copy (Array t) =
     (case new_chrpc_type_copy t of (c, n) \<Rightarrow> (Array c, n + 1))"
| "new_chrpc_type_copy (Struct ts) =
     (let cs = map new_chrpc_type_copy ts
      in (Struct (map fst cs), 1 + sum_list (map snd cs) + 1 + 1))"
| "new_chrpc_type_copy prim = (prim, 0)"

fun chrpc_type_equals :: "chrpc_type_t \<Rightarrow> chrpc_type_t \<Rightarrow> bool"
  and fields_equal :: "chrpc_type_t list \<Rightarrow> chrpc_type_t list \<Rightarrow> bool" where
  "chrpc_type_equals ct1 ct2 =
     (if type_id ct1 \<noteq> type_id ct2 then False
      else if chrpc_type_id_is_primitive (type_id ct1) then True
      else case (ct1, ct2) of
             (Array t1, Array t2) \<Rightarrow> chrpc_type_equals t1 t2
           | (Struct ts1, Struct ts2) \<Rightarrow>
               if length ts1 \<noteq> length ts2 then False else fields_equal ts1 ts2
           | _ \<Rightarrow> False)"
| "fields_equal (t1 # ts1) (t2 # ts2) =
     (if \<not> chrpc_type_equals t1 t2 then False else fields_equal ts1 ts2)"
| "fields_equal _ _ = True"

declare chrpc_type_equals.simps [simp del]

section \<open>Writing\<close>

text \<open>Result: status, \<open>*written\<close> if set, and the buffer afterwards.\<close>

fun chrpc_type_to_buffer :: "chrpc_type_t \<Rightarrow> byte list \<Rightarrow> chrpc_status_t \<times> nat option \<times> byte list"
  and fields_to_buffer ::
    "chrpc_type_t list \<Rightarrow> nat \<Rightarrow> byte list \<Rightarrow> chrpc_status_t \<times> nat option \<times> byte list" where
  "chrpc_type_to_buffer ct buf =
     (if length buf < 1 then (CHRPC_BUFFER_TOO_SMALL, None, buf)
      else if chrpc_type_is_primitive ct then (CHRPC_SUCCESS, Some 1, buf[0 := type_id ct])
      else case ct of
             Array t \<Rightarrow>
               (case chrpc_type_to_buffer t (drop 1 buf) of (rec_status, w, b) \<Rightarrow>
                  let array_cell_type_written = (case w of None \<Rightarrow> 0 | Some n \<Rightarrow> n)
                  in (rec_status, Some (array_cell_type_written + 1), CHRPC_ARRAY_TID # b))
           | Struct ts \<Rightarrow>
               if length buf < 2 then (CHRPC_BUFFER_TOO_SMALL, None, buf)
               else fields_to_buffer ts 2 (buf[0 := CHRPC_STRUCT_TID, 1 := of_nat (length ts)])
           | _ \<Rightarrow> (CHRPC_SUCCESS, None, buf))"
| "fields_to_buffer [] pos buf = (CHRPC_SUCCESS, Some pos, buf)"
| "fields_to_buffer (t # ts) pos buf =
     (case chrpc_type_to_buffer t (drop pos buf) of (rec_status, w, b) \<Rightarrow>
        let buf' = take pos buf @ b;
            field_type_written = (case w of None \<Rightarrow> 0 | Some n \<Rightarrow> n)
        in if rec_status \<noteq> CHRPC_SUCCESS then (rec_status, None, buf')
           else fields_to_buffer ts (pos + field_type_written) buf')"

declare chrpc_type_to_buffer.simps [simp del]

section \<open>Reading\<close>

text \<open>
  Result: the error, or the type and \<open>*readden\<close>; and the blocks allocated minus the blocks
  freed.  In the struct loop \<open>rest\<close> is \<open>buf + pos\<close> and \<open>acc\<close> the fields read so far.
\<close>

function chrpc_type_from_buffer ::
    "byte list \<Rightarrow> (chrpc_status_t + chrpc_type_t \<times> nat) \<times> int"
  and fields_from_buffer ::
    "nat \<Rightarrow> byte list \<Rightarrow> nat \<Rightarrow> chrpc_type_t list \<Rightarrow> int \<Rightarrow>
     (chrpc_status_t + chrpc_type_t \<times> nat) \<times> int" where
  "chrpc_type_from_buffer buf =
     (case buf of
        [] \<Rightarrow> (Inl CHRPC_UNEXPECTED_END, 0)
      | tid # buf1 \<Rightarrow>
          (case new_chrpc_primitive_type_from_id tid of
             Some prim \<Rightarrow> (Inr (prim, 1), 0)
           | None \<Rightarrow>
               if tid = CHRPC_ARRAY_TID then
                 (case chrpc_type_from_buffer buf1 of
                    (Inl rec_status, live) \<Rightarrow> (Inl rec_status, live)
                  | (Inr (t, n), live) \<Rightarrow> (Inr (Array t, 1 + n), live + 1))
               else if tid = CHRPC_STRUCT_TID then
                 (case buf1 of
                    [] \<Rightarrow> (Inl CHRPC_UNEXPECTED_END, 0)
                  | num_fields # rest \<Rightarrow>
                      if num_fields < 1 then (Inl CHRPC_EMPTY_STRUCT_TYPE, 0)
                      else if unat num_fields > CHRPC_MAX_STRUCT_FIELDS then
                        (Inl CHRPC_STRUCT_TYPE_TOO_LARGE, 0)
                      else fields_from_buffer (unat num_fields) rest 2 [] 1)
               else (Inl CHRPC_SYNTAX_ERROR, 0)))"
| "fields_from_buffer 0 rest pos acc live = (Inr (Struct acc, pos), live + 2)"
| "fields_from_buffer (Suc k) rest pos acc live =
     (case chrpc_type_from_buffer rest of
        (Inl rec_status, l) \<Rightarrow>
          (Inl rec_status, live + l - int (sum_list (map delete_chrpc_type acc)) - 1)
      | (Inr (t, field_readden), l) \<Rightarrow>
          fields_from_buffer k (drop field_readden rest) (pos + field_readden) (acc @ [t]) (live + l))"
  by pat_completeness auto
termination
  by (relation "measures [\<lambda>x. case x of Inl buf \<Rightarrow> length buf | Inr (k, rest, _) \<Rightarrow> length rest,
      \<lambda>x. case x of Inl buf \<Rightarrow> 0 | Inr (k, _) \<Rightarrow> Suc k]") auto

declare chrpc_type_from_buffer.simps [simp del]

section \<open>The wire format\<close>

fun type_enc :: "chrpc_type_t \<Rightarrow> byte list" where
  "type_enc (Array t) = CHRPC_ARRAY_TID # type_enc t"
| "type_enc (Struct ts) = CHRPC_STRUCT_TID # of_nat (length ts) # concat (map type_enc ts)"
| "type_enc prim = [type_id prim]"

fun wf_type :: "chrpc_type_t \<Rightarrow> bool" where
  "wf_type (Array t) = wf_type t"
| "wf_type (Struct ts) \<longleftrightarrow> 1 \<le> length ts \<and> length ts \<le> CHRPC_MAX_STRUCT_FIELDS \<and> (\<forall>t \<in> set ts. wf_type t)"
| "wf_type prim = True"

lemma primitive_cases:
  "chrpc_type_is_primitive ct \<longleftrightarrow> (\<forall>t. ct \<noteq> Array t) \<and> (\<forall>ts. ct \<noteq> Struct ts)"
  by (cases ct) (simp_all add: chrpc_type_is_primitive_def chrpc_type_id_is_primitive_def)

lemma prim_enc:
  "chrpc_type_is_primitive ct \<Longrightarrow>
   type_enc ct = [type_id ct] \<and> wf_type ct \<and> delete_chrpc_type ct = 0 \<and> new_chrpc_type_copy ct = (ct, 0)"
  by (cases ct) (simp_all add: chrpc_type_is_primitive_def chrpc_type_id_is_primitive_def)

lemma type_enc_nonempty [simp]: "type_enc ct \<noteq> []"
  by (cases ct) simp_all

lemma type_enc_pos: "0 < length (type_enc ct)"
  by simp

lemma prim_from_id:
  "new_chrpc_primitive_type_from_id tid = Some ct \<longleftrightarrow> chrpc_type_is_primitive ct \<and> type_id ct = tid"
  by (cases ct) (auto simp: new_chrpc_primitive_type_from_id_def chrpc_type_is_primitive_def
      chrpc_type_id_is_primitive_def)

lemma prim_from_composite [simp]:
  "new_chrpc_primitive_type_from_id CHRPC_ARRAY_TID = None"
  "new_chrpc_primitive_type_from_id CHRPC_STRUCT_TID = None"
  by (simp_all add: new_chrpc_primitive_type_from_id_def)

subsection \<open>The writer\<close>

lemma to_buffer_ok:
  "length (type_enc ct) \<le> length buf \<Longrightarrow>
     chrpc_type_to_buffer ct buf =
       (CHRPC_SUCCESS, Some (length (type_enc ct)), type_enc ct @ drop (length (type_enc ct)) buf)"
  "pos + length (concat (map type_enc ts)) \<le> length buf \<Longrightarrow>
     fields_to_buffer ts pos buf =
       (CHRPC_SUCCESS, Some (pos + length (concat (map type_enc ts))),
        take pos buf @ concat (map type_enc ts) @ drop (pos + length (concat (map type_enc ts))) buf)"
proof (induction ct buf and ts pos buf rule: chrpc_type_to_buffer_fields_to_buffer.induct)
  case (1 ct buf)
  then obtain b bs where buf: "buf = b # bs"
    using type_enc_pos [of ct] by (cases buf) auto
  show ?case
  proof (cases "chrpc_type_is_primitive ct")
    case True
    then show ?thesis using prim_enc [OF True] buf by (simp add: chrpc_type_to_buffer.simps)
  next
    case False
    then consider t where "ct = Array t" | ts where "ct = Struct ts" by (auto simp: primitive_cases)
    then show ?thesis
    proof cases
      case (1 t)
      with "1.IH"(1) [of t] "1.prems" False buf show ?thesis
        by (subst chrpc_type_to_buffer.simps) simp
    next
      case (2 ts)
      have two: "2 \<le> length buf" using "1.prems" 2 by simp
      then obtain c cs where bs: "bs = c # cs" using buf by (cases bs) auto
      with "1.IH"(2) [of ts] "1.prems" 2 False buf show ?thesis
        by (subst chrpc_type_to_buffer.simps) (simp add: not_less)
    qed
  qed
next
  case (3 t ts pos buf)
  have w: "chrpc_type_to_buffer t (drop pos buf) =
      (CHRPC_SUCCESS, Some (length (type_enc t)),
       type_enc t @ drop (length (type_enc t)) (drop pos buf))" using 3 by simp
  with "3.IH"(2) [OF w [symmetric] refl refl refl] "3.prems" show ?case
    by (simp add: ac_simps)
qed simp

lemma to_buffer_small:
  "length buf < length (type_enc ct) \<Longrightarrow> fst (chrpc_type_to_buffer ct buf) = CHRPC_BUFFER_TOO_SMALL"
  "pos \<le> length buf \<Longrightarrow> length buf < pos + length (concat (map type_enc ts)) \<Longrightarrow>
     fst (fields_to_buffer ts pos buf) = CHRPC_BUFFER_TOO_SMALL"
proof (induction ct buf and ts pos buf rule: chrpc_type_to_buffer_fields_to_buffer.induct)
  case (1 ct buf)
  show ?case
  proof (cases buf)
    case Nil
    then show ?thesis by (simp add: chrpc_type_to_buffer.simps)
  next
    case (Cons b bs)
    have False if "chrpc_type_is_primitive ct" using prim_enc [OF that] "1.prems" Cons by simp
    then have np: "\<not> chrpc_type_is_primitive ct" by blast
    then consider t where "ct = Array t" | ts where "ct = Struct ts" by (auto simp: primitive_cases)
    then show ?thesis
    proof cases
      case (1 t)
      with "1.IH"(1) [of t] "1.prems" np Cons show ?thesis
        by (subst chrpc_type_to_buffer.simps) (simp add: split_beta Let_def)
    next
      case (2 ts)
      with "1.IH"(2) [of ts] "1.prems" np Cons show ?thesis
        by (subst chrpc_type_to_buffer.simps) (cases bs; auto simp: not_less)
    qed
  qed
next
  case (3 t ts pos buf)
  show ?case
  proof (cases "length (drop pos buf) < length (type_enc t)")
    case True
    with "3.IH"(1) show ?thesis by (simp add: split_beta Let_def)
  next
    case False
    then have w: "chrpc_type_to_buffer t (drop pos buf) =
      (CHRPC_SUCCESS, Some (length (type_enc t)),
       type_enc t @ drop (length (type_enc t)) (drop pos buf))" using to_buffer_ok(1) by simp
    with "3.IH"(2) [OF w [symmetric] refl refl refl] "3.prems" False show ?thesis by (simp add: w)
  qed
qed simp

lemma to_buffer_length:
  "length (snd (snd (chrpc_type_to_buffer ct buf))) = length buf"
  "length (snd (snd (fields_to_buffer ts pos buf))) = length buf"
proof (induction ct buf and ts pos buf rule: chrpc_type_to_buffer_fields_to_buffer.induct)
  case (1 ct buf)
  show ?case
  proof (cases "length buf < 1 \<or> chrpc_type_is_primitive ct")
    case False
    then obtain b bs where buf: "buf = b # bs" by (cases buf) auto
    from False consider t where "ct = Array t" | ts where "ct = Struct ts" by (auto simp: primitive_cases)
    then show ?thesis
    proof cases
      case (1 t)
      with "1.IH"(1) [of t] False buf show ?thesis
        by (subst chrpc_type_to_buffer.simps) (simp add: split_beta Let_def)
    next
      case (2 ts)
      with "1.IH"(2) [of ts] False show ?thesis
        by (subst chrpc_type_to_buffer.simps) (simp add: not_less)
    qed
  qed (auto simp: chrpc_type_to_buffer.simps)
next
  case (3 t ts pos buf)
  obtain st w b where r: "chrpc_type_to_buffer t (drop pos buf) = (st, w, b)" by (metis prod_cases3)
  with "3.IH"(1) have "length b = length buf - pos" by simp
  with "3.IH"(2) [OF r [symmetric] refl refl refl] r show ?case by (cases "pos \<le> length buf") (auto simp: Let_def)
qed simp

subsection \<open>The reader\<close>

lemma fields_from_buffer_ok:
  assumes "\<And>t rest. t \<in> set ts \<Longrightarrow>
      chrpc_type_from_buffer (type_enc t @ rest) = (Inr (t, length (type_enc t)), int (delete_chrpc_type t))"
  shows "fields_from_buffer (length ts) (concat (map type_enc ts) @ rest) pos acc live =
    (Inr (Struct (acc @ ts), pos + length (concat (map type_enc ts))),
     live + int (sum_list (map delete_chrpc_type ts)) + 2)"
  using assms
proof (induction ts arbitrary: pos acc live)
  case (Cons t ts)
  then have "chrpc_type_from_buffer (type_enc t @ concat (map type_enc ts) @ rest) =
      (Inr (t, length (type_enc t)), int (delete_chrpc_type t))" by simp
  with Cons.IH Cons.prems show ?case by simp
qed simp

lemma from_buffer_ok:
  "wf_type ct \<Longrightarrow>
   chrpc_type_from_buffer (type_enc ct @ rest) =
     (Inr (ct, length (type_enc ct)), int (delete_chrpc_type ct))"
proof (induction ct arbitrary: rest)
  case (Array t)
  then show ?case by (subst chrpc_type_from_buffer.simps) simp
next
  case (Struct ts)
  have len: "1 \<le> length ts" "length ts \<le> 64" using Struct.prems by (simp_all add: CHRPC_MAX_STRUCT_FIELDS_def)
  then have u: "unat (of_nat (length ts) :: byte) = length ts" by (simp add: unat_of_nat)
  then have "\<not> (of_nat (length ts) :: byte) < 1" using len by (auto simp: word_less_nat_alt)
  moreover have "fields_from_buffer (length ts) (concat (map type_enc ts) @ rest) 2 [] 1 =
    (Inr (Struct ([] @ ts), 2 + length (concat (map type_enc ts))),
     1 + int (sum_list (map delete_chrpc_type ts)) + 2)"
    by (rule fields_from_buffer_ok) (use Struct in auto)
  ultimately show ?case using u len
    by (subst chrpc_type_from_buffer.simps) (simp add: CHRPC_MAX_STRUCT_FIELDS_def)
qed (simp_all add: chrpc_type_from_buffer.simps new_chrpc_primitive_type_from_id_def)

text \<open>Whatever the bytes: an accepted prefix is the encoding of the result, and nothing leaks.\<close>

lemma from_buffer_sound:
  "(case chrpc_type_from_buffer buf of
      (Inr (t, n), live) \<Rightarrow> wf_type t \<and> n = length (type_enc t) \<and>
        (\<exists>rest. buf = type_enc t @ rest) \<and> live = int (delete_chrpc_type t)
    | (Inl e, live) \<Rightarrow> live = 0 \<and> e \<in> {CHRPC_UNEXPECTED_END, CHRPC_EMPTY_STRUCT_TYPE,
        CHRPC_STRUCT_TYPE_TOO_LARGE, CHRPC_SYNTAX_ERROR})"
  "live = int (sum_list (map delete_chrpc_type acc)) + 1 \<Longrightarrow>
   (case fields_from_buffer k rest pos acc live of
      (Inr (t, n), live') \<Rightarrow> \<exists>ts rest'. t = Struct (acc @ ts) \<and> length ts = k \<and> (\<forall>t \<in> set ts. wf_type t) \<and>
        n = pos + length (concat (map type_enc ts)) \<and> rest = concat (map type_enc ts) @ rest' \<and>
        live' = int (delete_chrpc_type (Struct (acc @ ts)))
    | (Inl e, live') \<Rightarrow> live' = 0 \<and> e \<in> {CHRPC_UNEXPECTED_END, CHRPC_EMPTY_STRUCT_TYPE,
        CHRPC_STRUCT_TYPE_TOO_LARGE, CHRPC_SYNTAX_ERROR})"
proof (induction buf and k rest pos acc live
    rule: chrpc_type_from_buffer_fields_from_buffer.induct)
  case (1 buf)
  show ?case
  proof (cases buf)
    case Nil
    then show ?thesis by (simp add: chrpc_type_from_buffer.simps)
  next
    case (Cons tid buf1)
    show ?thesis
    proof (cases "new_chrpc_primitive_type_from_id tid")
      case (Some prim)
      then have "chrpc_type_is_primitive prim" "type_id prim = tid" by (simp_all add: prim_from_id)
      with prim_enc [of prim] Some Cons show ?thesis by (simp add: chrpc_type_from_buffer.simps)
    next
      case None
      consider "tid = CHRPC_ARRAY_TID" | "tid = CHRPC_STRUCT_TID"
        | "tid \<noteq> CHRPC_ARRAY_TID" "tid \<noteq> CHRPC_STRUCT_TID" by blast
      then show ?thesis
      proof cases
        case 1
        with "1.IH"(1) [OF Cons None] Cons show ?thesis
          by (subst chrpc_type_from_buffer.simps) (auto split: prod.splits sum.splits)
      next
        case 2
        show ?thesis
        proof (cases buf1)
          case Nil
          with 2 Cons show ?thesis by (simp add: chrpc_type_from_buffer.simps)
        next
          case (Cons nf rest)
          show ?thesis
          proof (cases "nf < 1 \<or> CHRPC_MAX_STRUCT_FIELDS < unat nf")
            case True
            with 2 \<open>buf = tid # buf1\<close> Cons show ?thesis by (auto simp: chrpc_type_from_buffer.simps)
          next
            case False
            then have nf: "1 \<le> unat nf" "unat nf \<le> CHRPC_MAX_STRUCT_FIELDS"
              by (auto simp: word_less_nat_alt)
            have eq: "chrpc_type_from_buffer buf = fields_from_buffer (unat nf) rest 2 [] 1"
              using 2 False Cons \<open>buf = tid # buf1\<close> by (subst chrpc_type_from_buffer.simps) simp
            from "1.IH"(2) [OF \<open>buf = tid # buf1\<close> None _ 2 Cons] 2 False
            have ih: "case fields_from_buffer (unat nf) rest 2 [] 1 of
                (Inr (t, n), live') \<Rightarrow> \<exists>ts rest'. t = Struct ([] @ ts) \<and> length ts = unat nf \<and> (\<forall>t \<in> set ts. wf_type t) \<and>
                  n = 2 + length (concat (map type_enc ts)) \<and> rest = concat (map type_enc ts) @ rest' \<and>
                  live' = int (delete_chrpc_type (Struct ([] @ ts)))
              | (Inl e, live') \<Rightarrow> live' = 0 \<and> e \<in> {CHRPC_UNEXPECTED_END, CHRPC_EMPTY_STRUCT_TYPE,
                  CHRPC_STRUCT_TYPE_TOO_LARGE, CHRPC_SYNTAX_ERROR}"
              by simp
            have nf_nat: "of_nat (unat nf) = nf" by simp
            show ?thesis
            proof (cases "fields_from_buffer (unat nf) rest 2 [] 1")
              case (Pair r live')
              show ?thesis
              proof (cases r)
                case (Inl e)
                with ih Pair eq show ?thesis by simp
              next
                case (Inr p)
                obtain t n where p: "p = (t, n)" by fastforce
                from ih Pair Inr p obtain ts rest' where r: "t = Struct ts" "length ts = unat nf"
                  "\<forall>t \<in> set ts. wf_type t" "n = 2 + length (concat (map type_enc ts))"
                  "rest = concat (map type_enc ts) @ rest'" "live' = int (delete_chrpc_type (Struct ts))"
                  by auto
                then have "buf = type_enc t @ rest'" using 2 Cons \<open>buf = tid # buf1\<close> nf_nat by simp
                moreover have "wf_type t" using r nf by simp
                moreover have "n = length (type_enc t)" using r by simp
                ultimately show ?thesis using eq Pair Inr p r by auto
              qed
            qed
          qed
        qed
      next
        case 3
        with None Cons show ?thesis by (simp add: chrpc_type_from_buffer.simps)
      qed
    qed
  qed
next
  case (2 rest pos acc live)
  then show ?case by simp
next
  case (3 k rest pos acc live)
  show ?case
  proof (cases "chrpc_type_from_buffer rest")
    case (Pair r l)
    show ?thesis
    proof (cases r)
      case (Inl e)
      with "3.IH"(1) "3.prems" Pair show ?thesis by simp
    next
      case (Inr p)
      obtain t n where p: "p = (t, n)" by fastforce
      with "3.IH"(1) Pair Inr obtain rest1 where t: "wf_type t" "n = length (type_enc t)"
        "rest = type_enc t @ rest1" "l = int (delete_chrpc_type t)" by auto
      then have d: "drop n rest = rest1" by simp
      have step: "fields_from_buffer (Suc k) rest pos acc live =
          fields_from_buffer k rest1 (pos + n) (acc @ [t]) (live + l)"
        using Pair Inr p d by simp
      have prem: "live + l = int (sum_list (map delete_chrpc_type (acc @ [t]))) + 1"
        using "3.prems" t by simp
      note ih = "3.IH"(2) [OF Pair [symmetric] Inr p [symmetric] prem, unfolded d]
      show ?thesis
      proof (cases "fields_from_buffer k rest1 (pos + n) (acc @ [t]) (live + l)")
        case (Pair r' live')
        show ?thesis
        proof (cases r')
          case (Inl e)
          with ih Pair step show ?thesis by simp
        next
          case (Inr p')
          obtain t' n' where p': "p' = (t', n')" by fastforce
          with ih Pair Inr obtain ts rest' where r: "t' = Struct ((acc @ [t]) @ ts)" "length ts = k"
            "\<forall>t \<in> set ts. wf_type t" "n' = pos + n + length (concat (map type_enc ts))"
            "rest1 = concat (map type_enc ts) @ rest'"
            "live' = int (delete_chrpc_type (Struct ((acc @ [t]) @ ts)))" by auto
          then show ?thesis using step Pair Inr p' t
            by (auto intro!: exI [of _ "t # ts"])
        qed
      qed
    qed
  qed
qed

subsection \<open>Copies and equality\<close>

lemma copy_ok: "new_chrpc_type_copy ct = (ct, delete_chrpc_type ct)"
proof (induction ct)
  case (Struct ts)
  then have "map fst (map new_chrpc_type_copy ts) = ts"
    "map snd (map new_chrpc_type_copy ts) = map delete_chrpc_type ts"
    by (auto intro: map_idI)
  then show ?case by (simp add: Let_def del: map_map)
qed simp_all

lemma primitive_type_id:
  "chrpc_type_id_is_primitive (type_id ct) \<Longrightarrow> type_id ct' = type_id ct \<Longrightarrow> ct' = ct"
  by (cases ct; cases ct') (simp_all add: chrpc_type_id_is_primitive_def)

lemma equals_ok:
  "chrpc_type_equals ct1 ct2 \<longleftrightarrow> ct1 = ct2"
  "length ts1 = length ts2 \<Longrightarrow> fields_equal ts1 ts2 \<longleftrightarrow> ts1 = ts2"
proof (induction ct1 ct2 and ts1 ts2 rule: chrpc_type_equals_fields_equal.induct)
  case (1 ct1 ct2)
  consider "type_id ct1 \<noteq> type_id ct2"
    | "type_id ct1 = type_id ct2" "chrpc_type_id_is_primitive (type_id ct1)"
    | "type_id ct1 = type_id ct2" "\<not> chrpc_type_id_is_primitive (type_id ct1)" by blast
  then show ?case
  proof cases
    case 2
    then have "ct2 = ct1" by (intro primitive_type_id) simp_all
    with 2 show ?thesis by (subst chrpc_type_equals.simps) simp
  next
    case 3
    have comp: "(\<exists>t. ct = Array t) \<or> (\<exists>ts. ct = Struct ts)"
      if "\<not> chrpc_type_id_is_primitive (type_id ct)" for ct
      using that primitive_cases [of ct] by (auto simp: chrpc_type_is_primitive_def)
    have "(\<exists>t. ct1 = Array t) \<or> (\<exists>ts. ct1 = Struct ts)" "(\<exists>t. ct2 = Array t) \<or> (\<exists>ts. ct2 = Struct ts)"
      using comp [of ct1] comp [of ct2] 3 by simp_all
    then consider t1 t2 where "ct1 = Array t1" "ct2 = Array t2"
      | ts1 ts2 where "ct1 = Struct ts1" "ct2 = Struct ts2" using 3(1) by (elim disjE exE) simp_all
    then show ?thesis
    proof cases
      case (1 t1 t2)
      with 3 "1.IH"(1) show ?thesis
        by (subst chrpc_type_equals.simps) simp
    next
      case (2 ts1 ts2)
      with 3 "1.IH"(2) show ?thesis
        by (subst chrpc_type_equals.simps) auto
    qed
  qed (auto simp: chrpc_type_equals.simps)
qed auto

section \<open>Properties\<close>

text \<open>C15. Serialized types round-trip: a well-formed type written into a buffer with room is
  read back as the same type with the same number of bytes; the bytes after it are not touched.\<close>

theorem type_roundtrip:
  assumes "wf_type ct" "length (type_enc ct) \<le> length buf"
  shows "\<exists>n b live. chrpc_type_to_buffer ct buf = (CHRPC_SUCCESS, Some n, b) \<and>
    chrpc_type_from_buffer b = (Inr (ct, n), live) \<and> length b = length buf \<and> drop n b = drop n buf"
  using to_buffer_ok(1) [OF assms(2)] from_buffer_ok [OF assms(1)] assms(2) by simp

theorem type_roundtrip_witness:
  "\<exists>n b live. chrpc_type_to_buffer (Struct [CHRPC_INT32_T, Array CHRPC_STRING_T]) (replicate 8 0) =
       (CHRPC_SUCCESS, Some n, b) \<and>
     chrpc_type_from_buffer b = (Inr (Struct [CHRPC_INT32_T, Array CHRPC_STRING_T], n), live)"
  using type_roundtrip [of "Struct [CHRPC_INT32_T, Array CHRPC_STRING_T]" "replicate 8 0"]
  by (auto simp: CHRPC_MAX_STRUCT_FIELDS_def)

text \<open>The reader accepts only well-formed types and only their one encoding: whatever
  bytes it accepts, the count it reports lies in the buffer, and writing the type over the
  buffer changes nothing.\<close>

theorem type_reader_canonical:
  assumes "chrpc_type_from_buffer buf = (Inr (ct, n), live)"
  shows "wf_type ct \<and> 0 < n \<and> n \<le> length buf \<and> chrpc_type_to_buffer ct buf = (CHRPC_SUCCESS, Some n, buf)"
proof -
  obtain rest where "wf_type ct" "n = length (type_enc ct)" "buf = type_enc ct @ rest"
    using from_buffer_sound(1) [of buf] assms by auto
  then show ?thesis using to_buffer_ok(1) [of ct buf] by simp
qed

theorem type_reader_canonical_witness:
  "wf_type (Array CHRPC_BYTE_T) \<and> chrpc_type_to_buffer (Array CHRPC_BYTE_T) [11, 0, 9] =
     (CHRPC_SUCCESS, Some 2, [11, 0, 9])"
proof -
  have "chrpc_type_from_buffer [11, 0, 9] = (Inr (Array CHRPC_BYTE_T, 2), 1)"
    by (simp add: chrpc_type_from_buffer.simps new_chrpc_primitive_type_from_id_def)
  from type_reader_canonical [OF this] show ?thesis by blast
qed

text \<open>The reader terminates on every buffer with a type or one of four errors; on an error
  every block it allocated on the way has been freed, and on success exactly the blocks that
  \<open>delete_chrpc_type\<close> of the result frees are live.\<close>

theorem type_reader_leak_free:
  "(\<exists>e. chrpc_type_from_buffer buf = (Inl e, 0) \<and>
      e \<in> {CHRPC_UNEXPECTED_END, CHRPC_EMPTY_STRUCT_TYPE, CHRPC_STRUCT_TYPE_TOO_LARGE, CHRPC_SYNTAX_ERROR}) \<or>
   (\<exists>ct n. chrpc_type_from_buffer buf = (Inr (ct, n), int (delete_chrpc_type ct)))"
  using from_buffer_sound(1) [of buf] by (auto split: prod.splits sum.splits)

text \<open>The writer reports \<open>CHRPC_BUFFER_TOO_SMALL\<close> exactly when the encoding does not fit,
  and success otherwise.\<close>

theorem type_writer_bounds:
  "fst (chrpc_type_to_buffer ct buf) =
     (if length buf < length (type_enc ct) then CHRPC_BUFFER_TOO_SMALL else CHRPC_SUCCESS)"
  using to_buffer_ok(1) [of ct buf] to_buffer_small(1) [of buf ct] by auto

text \<open>\<open>chrpc_type_equals\<close> decides equality of type trees, and \<open>new_chrpc_type_copy\<close> makes an
  equal tree from as many blocks as deleting it frees.\<close>

theorem type_equals_copy:
  "(chrpc_type_equals ct1 ct2 \<longleftrightarrow> ct1 = ct2) \<and>
   new_chrpc_type_copy ct1 = (ct1, delete_chrpc_type ct1)"
  using equals_ok(1) copy_ok by simp

end
