(* ===== verification/Chrpc_Value.thy ===== *)
theory Chrpc_Value
  imports Chrpc_Type "HOL-Library.Monad_Syntax"
begin

text \<open>
  Serialized values (\<open>chrpc/src/serial_value.c\<close>).  An inner value is what its union holds: the
  bytes of a number as they lie in memory, the block behind a string pointer, the blocks of
  numeric, string and composite arrays with \<open>array_len\<close>, and the entries of a struct.
  \<open>safe_malloc(0)\<close> is NULL, so the block of no cells is the NULL pointer and \<open>[]\<close> stands for
  both.  Reading a union member the type does not select, an entry past the end of an array, or
  a string past its block is undefined behaviour, the value \<open>None\<close> of the option results.

  \<open>raw_enc\<close> is the wire format.  The reader inverts it exactly, for every buffer; the writer
  produces it from every well-formed value, after \<open>trim\<close> has dropped the unused ends of its
  blocks.  Strings are read without looking for their terminator, so the reader's results need
  not be well-formed: the last properties state what follows.
\<close>

section \<open>Values\<close>

datatype chrpc_inner_value_t =
    IVNumber "byte list"
  | IVStr "byte list"
  | IVNumArr "byte list" u32
  | IVStrArr "byte list list" u32
  | IVEntries "chrpc_inner_value_t list" u32
  | IVStruct "chrpc_inner_value_t list"

record chrpc_value_t =
  v_type :: chrpc_type_t
  v_value :: chrpc_inner_value_t

definition chrpc_type_is_blockable :: "chrpc_type_t \<Rightarrow> bool" where
  "chrpc_type_is_blockable ct \<longleftrightarrow>
     chrpc_type_id_is_primitive (type_id ct) \<or>
     (case ct of Array cell \<Rightarrow> chrpc_type_id_is_primitive (type_id cell) \<and> cell \<noteq> CHRPC_STRING_T
      | _ \<Rightarrow> False)"

definition chrpc_blockable_type_cell_size :: "chrpc_type_t \<Rightarrow> nat" where
  "chrpc_blockable_type_cell_size ct =
     (let prim_size = (\<lambda>t. case t of
          CHRPC_BYTE_T \<Rightarrow> 1 | CHRPC_INT16_T \<Rightarrow> 2 | CHRPC_INT32_T \<Rightarrow> 4 | CHRPC_INT64_T \<Rightarrow> 8
        | CHRPC_UINT16_T \<Rightarrow> 2 | CHRPC_UINT32_T \<Rightarrow> 4 | CHRPC_UINT64_T \<Rightarrow> 8
        | CHRPC_FLOAT32_T \<Rightarrow> 4 | CHRPC_FLOAT64_T \<Rightarrow> 8 | CHRPC_STRING_T \<Rightarrow> 1 | _ \<Rightarrow> 0)
      in case ct of
           Array cell \<Rightarrow> if chrpc_type_is_primitive cell \<and> cell \<noteq> CHRPC_STRING_T then prim_size cell else 0
         | _ \<Rightarrow> prim_size ct)"

record chrpc_block_value_t =
  b_block :: "byte list"
  b_cell_size :: nat
  b_num_cells :: u32

definition chrpc_inner_array_value_to_block_value ::
    "chrpc_type_t \<Rightarrow> chrpc_inner_value_t \<Rightarrow> chrpc_block_value_t option" where
  "chrpc_inner_array_value_to_block_value ct iv =
     (case (ct, iv) of
        (CHRPC_BYTE_T, IVNumArr b len) \<Rightarrow> Some \<lparr>b_block = b, b_cell_size = 1, b_num_cells = len\<rparr>
      | (CHRPC_INT16_T, IVNumArr b len) \<Rightarrow> Some \<lparr>b_block = b, b_cell_size = 2, b_num_cells = len\<rparr>
      | (CHRPC_INT32_T, IVNumArr b len) \<Rightarrow> Some \<lparr>b_block = b, b_cell_size = 4, b_num_cells = len\<rparr>
      | (CHRPC_INT64_T, IVNumArr b len) \<Rightarrow> Some \<lparr>b_block = b, b_cell_size = 8, b_num_cells = len\<rparr>
      | (CHRPC_UINT16_T, IVNumArr b len) \<Rightarrow> Some \<lparr>b_block = b, b_cell_size = 2, b_num_cells = len\<rparr>
      | (CHRPC_UINT32_T, IVNumArr b len) \<Rightarrow> Some \<lparr>b_block = b, b_cell_size = 4, b_num_cells = len\<rparr>
      | (CHRPC_UINT64_T, IVNumArr b len) \<Rightarrow> Some \<lparr>b_block = b, b_cell_size = 8, b_num_cells = len\<rparr>
      | (CHRPC_FLOAT32_T, IVNumArr b len) \<Rightarrow> Some \<lparr>b_block = b, b_cell_size = 4, b_num_cells = len\<rparr>
      | (CHRPC_FLOAT64_T, IVNumArr b len) \<Rightarrow> Some \<lparr>b_block = b, b_cell_size = 8, b_num_cells = len\<rparr>
      | _ \<Rightarrow> None)"

definition chrpc_inner_value_to_block_value ::
    "chrpc_type_t \<Rightarrow> chrpc_inner_value_t \<Rightarrow> chrpc_block_value_t option" where
  "chrpc_inner_value_to_block_value ct iv =
     (case (ct, iv) of
        (CHRPC_BYTE_T, IVNumber bs) \<Rightarrow> Some \<lparr>b_block = bs, b_cell_size = 1, b_num_cells = 1\<rparr>
      | (CHRPC_INT16_T, IVNumber bs) \<Rightarrow> Some \<lparr>b_block = bs, b_cell_size = 2, b_num_cells = 1\<rparr>
      | (CHRPC_INT32_T, IVNumber bs) \<Rightarrow> Some \<lparr>b_block = bs, b_cell_size = 4, b_num_cells = 1\<rparr>
      | (CHRPC_INT64_T, IVNumber bs) \<Rightarrow> Some \<lparr>b_block = bs, b_cell_size = 8, b_num_cells = 1\<rparr>
      | (CHRPC_UINT16_T, IVNumber bs) \<Rightarrow> Some \<lparr>b_block = bs, b_cell_size = 2, b_num_cells = 1\<rparr>
      | (CHRPC_UINT32_T, IVNumber bs) \<Rightarrow> Some \<lparr>b_block = bs, b_cell_size = 4, b_num_cells = 1\<rparr>
      | (CHRPC_UINT64_T, IVNumber bs) \<Rightarrow> Some \<lparr>b_block = bs, b_cell_size = 8, b_num_cells = 1\<rparr>
      | (CHRPC_FLOAT32_T, IVNumber bs) \<Rightarrow> Some \<lparr>b_block = bs, b_cell_size = 4, b_num_cells = 1\<rparr>
      | (CHRPC_FLOAT64_T, IVNumber bs) \<Rightarrow> Some \<lparr>b_block = bs, b_cell_size = 8, b_num_cells = 1\<rparr>
      | (CHRPC_STRING_T, IVStr s) \<Rightarrow> do {
          n \<leftarrow> c_strlen (map Some s);
          Some \<lparr>b_block = s, b_cell_size = 1, b_num_cells = of_nat (n + 1)\<rparr> }
      | (Array cell, _) \<Rightarrow> chrpc_inner_array_value_to_block_value cell iv
      | _ \<Rightarrow> None)"

text \<open>The bytes \<open>memcpy\<close> or \<open>memcmp\<close> reads from a block.\<close>

definition block_bytes :: "byte list \<Rightarrow> nat \<Rightarrow> byte list option" where
  "block_bytes b n = (if n \<le> length b then Some (take n b) else None)"

section \<open>Deleting and comparing\<close>

text \<open>
  The number of \<open>safe_free\<close> calls that release something; a NULL block, \<open>[]\<close>, is none.
\<close>

definition frees :: "'a list \<Rightarrow> nat" where
  "frees b = (if b = [] then 0 else 1)"

fun delete_chrpc_inner_value :: "chrpc_type_t \<Rightarrow> chrpc_inner_value_t \<Rightarrow> nat option"
  and delete_entries :: "chrpc_type_t list \<Rightarrow> chrpc_inner_value_t list \<Rightarrow> nat option" where
  "delete_chrpc_inner_value t iv =
     (if chrpc_type_is_blockable t then
        (if type_id t = CHRPC_ARRAY_TID \<or> t = CHRPC_STRING_T then do {
           block \<leftarrow> chrpc_inner_value_to_block_value t iv;
           Some (frees (b_block block) + 1) }
         else Some 1)
      else (case (t, iv) of
          (Struct ts, IVStruct ivs) \<Rightarrow> do { n \<leftarrow> delete_entries ts ivs; Some (n + frees ivs + 1) }
        | (Array cell, IVStrArr strs len) \<Rightarrow>
            if cell = CHRPC_STRING_T \<and> unat len \<le> length strs
            then Some (sum_list (map frees (take (unat len) strs)) + frees strs + 1) else None
        | (Array cell, IVEntries ivs len) \<Rightarrow>
            if cell = CHRPC_STRING_T then None
            else do { n \<leftarrow> delete_entries (replicate (unat len) cell) ivs; Some (n + frees ivs + 1) }
        | _ \<Rightarrow> None))"
| "delete_entries [] ivs = Some 0"
| "delete_entries (t # ts) [] = None"
| "delete_entries (t # ts) (iv # ivs) =
     do { n \<leftarrow> delete_chrpc_inner_value t iv; m \<leftarrow> delete_entries ts ivs; Some (n + m) }"

definition delete_chrpc_value :: "chrpc_value_t \<Rightarrow> nat option" where
  "delete_chrpc_value v =
     do { n \<leftarrow> delete_chrpc_inner_value (v_type v) (v_value v);
          Some (n + delete_chrpc_type (v_type v) + 1) }"

fun strs_equal :: "nat \<Rightarrow> byte list list \<Rightarrow> byte list list \<Rightarrow> bool option" where
  "strs_equal 0 ss0 ss1 = Some True"
| "strs_equal (Suc n) (s0 # ss0) (s1 # ss1) =
     do { same \<leftarrow> c_streq (map Some s0) (map Some s1); (if same then strs_equal n ss0 ss1 else Some False) }"
| "strs_equal (Suc n) _ _ = None"

fun chrpc_inner_value_equals ::
    "chrpc_type_t \<Rightarrow> chrpc_inner_value_t \<Rightarrow> chrpc_inner_value_t \<Rightarrow> bool option"
  and entries_equal ::
    "chrpc_type_t list \<Rightarrow> chrpc_inner_value_t list \<Rightarrow> chrpc_inner_value_t list \<Rightarrow> bool option" where
  "chrpc_inner_value_equals ct iv0 iv1 =
     (if chrpc_type_is_blockable ct then do {
        block0 \<leftarrow> chrpc_inner_value_to_block_value ct iv0;
        block1 \<leftarrow> chrpc_inner_value_to_block_value ct iv1;
        (if b_num_cells block0 \<noteq> b_num_cells block1 then Some False
         else do {
           bs0 \<leftarrow> block_bytes (b_block block0) (b_cell_size block0 * unat (b_num_cells block0));
           bs1 \<leftarrow> block_bytes (b_block block1) (b_cell_size block0 * unat (b_num_cells block0));
           Some (bs0 = bs1) }) }
      else (case (ct, iv0, iv1) of
          (Struct ts, IVStruct ivs0, IVStruct ivs1) \<Rightarrow> entries_equal ts ivs0 ivs1
        | (Array cell, IVStrArr ss0 len0, IVStrArr ss1 len1) \<Rightarrow>
            if cell \<noteq> CHRPC_STRING_T then None
            else if len0 \<noteq> len1 then Some False
            else strs_equal (unat len0) ss0 ss1
        | (Array cell, IVEntries ivs0 len0, IVEntries ivs1 len1) \<Rightarrow>
            if cell = CHRPC_STRING_T then None
            else if len0 \<noteq> len1 then Some False
            else entries_equal (replicate (unat len0) cell) ivs0 ivs1
        | _ \<Rightarrow> None))"
| "entries_equal (t # ts) (iv0 # ivs0) (iv1 # ivs1) =
     do { same \<leftarrow> chrpc_inner_value_equals t iv0 iv1;
          (if \<not> same then Some False else entries_equal ts ivs0 ivs1) }"
| "entries_equal [] _ _ = Some True"
| "entries_equal _ _ _ = None"

text \<open>The pointer comparison at the start of \<open>chrpc_value_equals\<close>: NULL pointers are \<open>None\<close>.\<close>

definition chrpc_value_equals :: "bool \<Rightarrow> chrpc_value_t option \<Rightarrow> chrpc_value_t option \<Rightarrow> bool option" where
  "chrpc_value_equals same_ptr cv0 cv1 =
     (if same_ptr then Some True
      else case (cv0, cv1) of
        (Some v0, Some v1) \<Rightarrow>
          if \<not> chrpc_type_equals (v_type v0) (v_type v1) then Some False
          else chrpc_inner_value_equals (v_type v0) (v_value v0) (v_value v1)
      | _ \<Rightarrow> Some False)"

declare delete_chrpc_inner_value.simps [simp del] chrpc_inner_value_equals.simps [simp del]

section \<open>Writing\<close>

type_synonym write_result = "chrpc_status_t \<times> nat option \<times> byte list"

definition chrpc_block_value_to_buffer ::
    "chrpc_block_value_t \<Rightarrow> bool \<Rightarrow> byte list \<Rightarrow> write_result option" where
  "chrpc_block_value_to_buffer block len_prefix buf =
     (if len_prefix \<and> length buf < 4 then Some (CHRPC_BUFFER_TOO_SMALL, None, buf)
      else
        let buf1 = (if len_prefix then u32_le (b_num_cells block) @ drop 4 buf else buf);
            total = (if len_prefix then 4 else 0);
            arr_size = unat (b_num_cells block) * b_cell_size block
        in if length buf < total + arr_size then Some (CHRPC_BUFFER_TOO_SMALL, None, buf1)
           else do {
             bs \<leftarrow> block_bytes (b_block block) arr_size;
             Some (CHRPC_SUCCESS, Some (total + arr_size), take total buf1 @ bs @ drop (total + arr_size) buf1) })"

text \<open>One string of a string array, and the loop over them; \<open>pos\<close> is \<open>total_written\<close>.\<close>

definition str_to_buffer :: "byte list \<Rightarrow> byte list \<Rightarrow> write_result option" where
  "str_to_buffer s buf =
     do { n \<leftarrow> c_strlen (map Some s);
          chrpc_block_value_to_buffer
            \<lparr>b_block = s, b_cell_size = 1, b_num_cells = of_nat (n + 1)\<rparr> True buf }"

fun strs_to_buffer :: "nat \<Rightarrow> byte list list \<Rightarrow> nat \<Rightarrow> byte list \<Rightarrow> write_result option" where
  "strs_to_buffer 0 ss pos buf = Some (CHRPC_SUCCESS, Some pos, buf)"
| "strs_to_buffer (Suc n) [] pos buf = None"
| "strs_to_buffer (Suc n) (s # ss) pos buf =
     do { (status, w, b) \<leftarrow> str_to_buffer s (drop pos buf);
          (if status \<noteq> CHRPC_SUCCESS then Some (status, None, take pos buf @ b)
           else strs_to_buffer n ss (pos + the w) (take pos buf @ b)) }"

fun chrpc_inner_value_to_buffer ::
    "chrpc_type_t \<Rightarrow> chrpc_inner_value_t \<Rightarrow> byte list \<Rightarrow> write_result option"
  and entries_to_buffer ::
    "chrpc_type_t list \<Rightarrow> chrpc_inner_value_t list \<Rightarrow> nat \<Rightarrow> byte list \<Rightarrow> write_result option" where
  "chrpc_inner_value_to_buffer ct iv buf =
     (if chrpc_type_is_blockable ct then do {
        block \<leftarrow> chrpc_inner_value_to_block_value ct iv;
        chrpc_block_value_to_buffer block (ct = CHRPC_STRING_T \<or> type_id ct = CHRPC_ARRAY_TID) buf }
      else (case (ct, iv) of
          (Struct ts, IVStruct ivs) \<Rightarrow> entries_to_buffer ts ivs 0 buf
        | (Array cell, IVStrArr ss len) \<Rightarrow>
            if cell \<noteq> CHRPC_STRING_T then None
            else if length buf < 4 then Some (CHRPC_BUFFER_TOO_SMALL, None, buf)
            else strs_to_buffer (unat len) ss 4 (u32_le len @ drop 4 buf)
        | (Array cell, IVEntries ivs len) \<Rightarrow>
            if cell = CHRPC_STRING_T then None
            else if length buf < 4 then Some (CHRPC_BUFFER_TOO_SMALL, None, buf)
            else entries_to_buffer (replicate (unat len) cell) ivs 4 (u32_le len @ drop 4 buf)
        | _ \<Rightarrow> None))"
| "entries_to_buffer [] ivs pos buf = Some (CHRPC_SUCCESS, Some pos, buf)"
| "entries_to_buffer (t # ts) [] pos buf = None"
| "entries_to_buffer (t # ts) (iv # ivs) pos buf =
     do { (status, w, b) \<leftarrow> chrpc_inner_value_to_buffer t iv (drop pos buf);
          (if status \<noteq> CHRPC_SUCCESS then Some (status, None, take pos buf @ b)
           else entries_to_buffer ts ivs (pos + the w) (take pos buf @ b)) }"

declare chrpc_inner_value_to_buffer.simps [simp del]

text \<open>\<open>*written\<close> is computed from an uninitialised variable when the inner value fails: \<open>None\<close>.\<close>

definition chrpc_value_to_buffer :: "chrpc_value_t \<Rightarrow> byte list \<Rightarrow> write_result option" where
  "chrpc_value_to_buffer v buf =
     (case chrpc_type_to_buffer (v_type v) buf of (status, type_written, buf1) \<Rightarrow>
        if status \<noteq> CHRPC_SUCCESS then Some (status, None, buf1)
        else do {
          (status2, val_written, b) \<leftarrow>
            chrpc_inner_value_to_buffer (v_type v) (v_value v) (drop (the type_written) buf1);
          Some (status2, map_option (\<lambda>w. the type_written + w) val_written,
                take (the type_written) buf1 @ b) })"

definition chrpc_value_to_buffer_with_length ::
    "chrpc_value_t option \<Rightarrow> byte list \<Rightarrow> write_result option" where
  "chrpc_value_to_buffer_with_length v buf =
     (if length buf < 4 then Some (CHRPC_BUFFER_TOO_SMALL, None, buf)
      else case v of
        None \<Rightarrow> Some (CHRPC_SUCCESS, Some 4, u32_le 0 @ drop 4 buf)
      | Some v' \<Rightarrow> do {
          (status, w, b) \<leftarrow> chrpc_value_to_buffer v' (drop 4 buf);
          (if status \<noteq> CHRPC_SUCCESS then Some (status, None, take 4 buf @ b)
           else Some (CHRPC_SUCCESS, Some (4 + the w), u32_le (of_nat (the w)) @ b)) })"

section \<open>Reading\<close>

text \<open>Result: an error, or the value and \<open>*readden\<close>; and the blocks allocated minus freed.\<close>

type_synonym 'a read_result = "(chrpc_status_t + 'a \<times> nat) \<times> int"

definition chrpc_numeric_inner_value_from_buffer ::
    "chrpc_type_t \<Rightarrow> byte list \<Rightarrow> chrpc_inner_value_t read_result option" where
  "chrpc_numeric_inner_value_from_buffer ct buf =
     do { block \<leftarrow> chrpc_inner_value_to_block_value ct (IVNumber []);
          (if length buf < b_cell_size block then Some (Inl CHRPC_UNEXPECTED_END, 1 - 1)
           else Some (Inr (IVNumber (take (b_cell_size block) buf), b_cell_size block), 1)) }"

definition chrpc_block_array_from_buffer ::
    "chrpc_type_t \<Rightarrow> byte list \<Rightarrow> (byte list \<times> u32) read_result" where
  "chrpc_block_array_from_buffer ct buf =
     (if length buf < 4 then (Inl CHRPC_UNEXPECTED_END, 0)
      else
        let num_cells = le_u32 buf;
            cell_size = chrpc_blockable_type_cell_size ct;
            arr_bytes = cell_size * unat num_cells
        in if length buf - 4 < arr_bytes then (Inl CHRPC_UNEXPECTED_END, 0)
           else (Inr ((take arr_bytes (drop 4 buf), num_cells), 4 + arr_bytes),
                 if arr_bytes = 0 then 0 else 1))"

definition chrpc_block_array_inner_value_from_buffer ::
    "chrpc_type_t \<Rightarrow> byte list \<Rightarrow> chrpc_inner_value_t read_result" where
  "chrpc_block_array_inner_value_from_buffer ct buf =
     (case chrpc_block_array_from_buffer ct buf of
        (Inl e, live) \<Rightarrow> (Inl e, live)
      | (Inr ((arr, num_eles), n), live) \<Rightarrow>
          if ct = CHRPC_STRING_T then (Inr (IVStr arr, n), live + 1)
          else (Inr (IVNumArr arr num_eles, n), live + 1))"

text \<open>The loops: \<open>rest\<close> is \<open>buf + bytes_read\<close>, \<open>acc\<close> what has been read.\<close>

fun strs_from_buffer ::
    "chrpc_type_t \<Rightarrow> nat \<Rightarrow> byte list \<Rightarrow> nat \<Rightarrow> byte list list \<Rightarrow> int \<Rightarrow> byte list list read_result" where
  "strs_from_buffer cell 0 rest bytes_read acc live = (Inr (acc, bytes_read), live)"
| "strs_from_buffer cell (Suc k) rest bytes_read acc live =
     (case chrpc_block_array_from_buffer cell rest of
        (Inl e, l) \<Rightarrow> (Inl e, live + l - int (sum_list (map frees acc)) - 1)
      | (Inr ((str, _), n), l) \<Rightarrow>
          strs_from_buffer cell k (drop n rest) (bytes_read + n) (acc @ [str]) (live + l))"

definition chrpc_str_array_inner_value_from_buffer ::
    "chrpc_type_t \<Rightarrow> byte list \<Rightarrow> chrpc_inner_value_t read_result" where
  "chrpc_str_array_inner_value_from_buffer cell buf =
     (if length buf < 4 then (Inl CHRPC_UNEXPECTED_END, 0)
      else let num_eles = le_u32 buf
           in case strs_from_buffer cell (unat num_eles) (drop 4 buf) 4 []
                     (if num_eles = 0 then 0 else 1) of
                (Inl e, live) \<Rightarrow> (Inl e, live)
              | (Inr (strs, n), live) \<Rightarrow> (Inr (IVStrArr strs num_eles, n), live + 1))"

function chrpc_inner_value_from_buffer ::
    "chrpc_type_t \<Rightarrow> byte list \<Rightarrow> chrpc_inner_value_t read_result option"
  and struct_from_buffer ::
    "chrpc_type_t list \<Rightarrow> chrpc_type_t list \<Rightarrow> byte list \<Rightarrow> nat \<Rightarrow> chrpc_inner_value_t list \<Rightarrow> int \<Rightarrow>
     chrpc_inner_value_t list read_result option"
  and cmp_array_from_buffer ::
    "chrpc_type_t \<Rightarrow> nat \<Rightarrow> byte list \<Rightarrow> nat \<Rightarrow> chrpc_inner_value_t list \<Rightarrow> int \<Rightarrow>
     chrpc_inner_value_t list read_result option" where
  "chrpc_inner_value_from_buffer ct buf =
     (if chrpc_type_is_blockable ct then
        (if ct = CHRPC_STRING_T \<or> type_id ct = CHRPC_ARRAY_TID
         then Some (chrpc_block_array_inner_value_from_buffer ct buf)
         else chrpc_numeric_inner_value_from_buffer ct buf)
      else (case ct of
          Struct ts \<Rightarrow>
            if ts = [] then None
            else do {
              (r, live) \<leftarrow> struct_from_buffer ts ts buf 0 [] 1;
              (case r of
                 Inl e \<Rightarrow> Some (Inl e, live)
               | Inr (entries, n) \<Rightarrow> Some (Inr (IVStruct entries, n), live + 1)) }
        | Array cell \<Rightarrow>
            if cell = CHRPC_STRING_T then Some (chrpc_str_array_inner_value_from_buffer cell buf)
            else if length buf < 4 then Some (Inl CHRPC_UNEXPECTED_END, 0)
            else do {
              (r, live) \<leftarrow> cmp_array_from_buffer cell (unat (le_u32 buf)) (drop 4 buf) 4 []
                (if le_u32 buf = 0 then 0 else 1);
              (case r of
                 Inl e \<Rightarrow> Some (Inl e, live)
               | Inr (arr, n) \<Rightarrow> Some (Inr (IVEntries arr (le_u32 buf), n), live + 1)) }
        | _ \<Rightarrow> None))"
| "struct_from_buffer all [] rest bytes_read acc live = Some (Inr (acc, bytes_read), live)"
| "struct_from_buffer all (t # ts) rest bytes_read acc live =
     do { (r, l) \<leftarrow> chrpc_inner_value_from_buffer t rest;
          (case r of
             Inl e \<Rightarrow> do {
               freed \<leftarrow> delete_entries (take (length acc) all) acc;
               Some (Inl e, live + l - int freed - 1) }
           | Inr (iv, n) \<Rightarrow>
               struct_from_buffer all ts (drop n rest) (bytes_read + n) (acc @ [iv]) (live + l)) }"
| "cmp_array_from_buffer cell 0 rest bytes_read acc live = Some (Inr (acc, bytes_read), live)"
| "cmp_array_from_buffer cell (Suc k) rest bytes_read acc live =
     do { (r, l) \<leftarrow> chrpc_inner_value_from_buffer cell rest;
          (case r of
             Inl e \<Rightarrow> do {
               freed \<leftarrow> delete_entries (replicate (length acc) cell) acc;
               Some (Inl e, live + l - int freed - 1) }
           | Inr (iv, n) \<Rightarrow>
               cmp_array_from_buffer cell k (drop n rest) (bytes_read + n) (acc @ [iv]) (live + l)) }"
  by pat_completeness auto
termination
  by (relation "measures
      [\<lambda>x. case x of Inl (ct, _) \<Rightarrow> size ct | Inr (Inl (_, ts, _)) \<Rightarrow> size_list size ts
                   | Inr (Inr (cell, _)) \<Rightarrow> size cell,
       \<lambda>x. case x of Inl _ \<Rightarrow> 0 | Inr (Inl _) \<Rightarrow> 1 | Inr (Inr (_, k, _)) \<Rightarrow> Suc k]") auto

declare chrpc_inner_value_from_buffer.simps [simp del]

definition chrpc_value_from_buffer :: "byte list \<Rightarrow> chrpc_value_t read_result option" where
  "chrpc_value_from_buffer buf =
     (case chrpc_type_from_buffer buf of
        (Inl e, live) \<Rightarrow> Some (Inl e, live)
      | (Inr (ct, type_readden), live) \<Rightarrow> do {
          (r, l) \<leftarrow> chrpc_inner_value_from_buffer ct (drop type_readden buf);
          (case r of
             Inl e \<Rightarrow> Some (Inl e, live + l - int (delete_chrpc_type ct))
           | Inr (iv, val_readden) \<Rightarrow>
               Some (Inr (\<lparr>v_type = ct, v_value = iv\<rparr>, type_readden + val_readden), live + l + 1)) })"

section \<open>The wire format\<close>

definition str_enc :: "byte list \<Rightarrow> byte list" where
  "str_enc s = u32_le (of_nat (length s)) @ s"

fun raw_enc :: "chrpc_inner_value_t \<Rightarrow> byte list" where
  "raw_enc (IVNumber bs) = bs"
| "raw_enc (IVStr s) = str_enc s"
| "raw_enc (IVNumArr b len) = u32_le len @ b"
| "raw_enc (IVStrArr ss len) = u32_le len @ concat (map str_enc ss)"
| "raw_enc (IVEntries ivs len) = u32_le len @ concat (map raw_enc ivs)"
| "raw_enc (IVStruct ivs) = concat (map raw_enc ivs)"

fun iv_blocks :: "chrpc_inner_value_t \<Rightarrow> nat" where
  "iv_blocks (IVNumber bs) = 1"
| "iv_blocks (IVStr s) = frees s + 1"
| "iv_blocks (IVNumArr b len) = frees b + 1"
| "iv_blocks (IVStrArr ss len) = sum_list (map frees ss) + frees ss + 1"
| "iv_blocks (IVEntries ivs len) = sum_list (map iv_blocks ivs) + frees ivs + 1"
| "iv_blocks (IVStruct ivs) = sum_list (map iv_blocks ivs) + frees ivs + 1"

abbreviation cell_size :: "chrpc_type_t \<Rightarrow> nat" where
  "cell_size \<equiv> chrpc_blockable_type_cell_size"

definition numeric :: "chrpc_type_t \<Rightarrow> bool" where
  "numeric ct \<longleftrightarrow> chrpc_type_is_primitive ct \<and> ct \<noteq> CHRPC_STRING_T"

definition composite :: "chrpc_type_t \<Rightarrow> bool" where
  "composite ct \<longleftrightarrow> \<not> chrpc_type_is_primitive ct"

text \<open>The C string a block holds, with its terminator.\<close>

definition cstr :: "byte list \<Rightarrow> byte list" where
  "cstr s = takeWhile (\<lambda>b. b \<noteq> 0) s @ [0]"

definition is_cstr :: "byte list \<Rightarrow> bool" where
  "is_cstr s \<longleftrightarrow> 0 \<in> set s \<and> length (cstr s) < 2 ^ 32"

text \<open>
  \<open>raw_wt\<close>: blocks of exactly the right size, strings arbitrary bytes.  \<open>wt\<close>: the values the
  other functions accept, blocks at least as long as needed and strings terminated.
\<close>

fun raw_wt :: "chrpc_type_t \<Rightarrow> chrpc_inner_value_t \<Rightarrow> bool"
  and raw_wts :: "chrpc_type_t list \<Rightarrow> chrpc_inner_value_t list \<Rightarrow> bool" where
  "raw_wt ct (IVNumber bs) \<longleftrightarrow> numeric ct \<and> length bs = cell_size ct"
| "raw_wt ct (IVStr s) \<longleftrightarrow> ct = CHRPC_STRING_T \<and> length s < 2 ^ 32"
| "raw_wt ct (IVNumArr b len) \<longleftrightarrow>
     (case ct of Array c \<Rightarrow> numeric c \<and> length b = cell_size c * unat len | _ \<Rightarrow> False)"
| "raw_wt ct (IVStrArr ss len) \<longleftrightarrow>
     ct = Array CHRPC_STRING_T \<and> length ss = unat len \<and> (\<forall>s \<in> set ss. length s < 2 ^ 32)"
| "raw_wt ct (IVEntries ivs len) \<longleftrightarrow>
     (case ct of Array c \<Rightarrow> composite c \<and> raw_wts (replicate (unat len) c) ivs | _ \<Rightarrow> False)"
| "raw_wt ct (IVStruct ivs) \<longleftrightarrow> (case ct of Struct ts \<Rightarrow> ts \<noteq> [] \<and> raw_wts ts ivs | _ \<Rightarrow> False)"
| "raw_wts [] ivs \<longleftrightarrow> ivs = []"
| "raw_wts (t # ts) [] \<longleftrightarrow> False"
| "raw_wts (t # ts) (iv # ivs) \<longleftrightarrow> raw_wt t iv \<and> raw_wts ts ivs"

fun wt :: "chrpc_type_t \<Rightarrow> chrpc_inner_value_t \<Rightarrow> bool"
  and wts :: "chrpc_type_t list \<Rightarrow> chrpc_inner_value_t list \<Rightarrow> bool" where
  "wt ct (IVNumber bs) \<longleftrightarrow> numeric ct \<and> length bs = cell_size ct"
| "wt ct (IVStr s) \<longleftrightarrow> ct = CHRPC_STRING_T \<and> is_cstr s"
| "wt ct (IVNumArr b len) \<longleftrightarrow>
     (case ct of Array c \<Rightarrow> numeric c \<and> cell_size c * unat len \<le> length b | _ \<Rightarrow> False)"
| "wt ct (IVStrArr ss len) \<longleftrightarrow>
     ct = Array CHRPC_STRING_T \<and> unat len \<le> length ss \<and> (\<forall>s \<in> set (take (unat len) ss). is_cstr s)"
| "wt ct (IVEntries ivs len) \<longleftrightarrow>
     (case ct of Array c \<Rightarrow> composite c \<and> wts (replicate (unat len) c) ivs | _ \<Rightarrow> False)"
| "wt ct (IVStruct ivs) \<longleftrightarrow> (case ct of Struct ts \<Rightarrow> ts \<noteq> [] \<and> wts ts ivs | _ \<Rightarrow> False)"
| "wts [] ivs \<longleftrightarrow> True"
| "wts (t # ts) [] \<longleftrightarrow> False"
| "wts (t # ts) (iv # ivs) \<longleftrightarrow> wt t iv \<and> wts ts ivs"

fun trim :: "chrpc_type_t \<Rightarrow> chrpc_inner_value_t \<Rightarrow> chrpc_inner_value_t"
  and trims :: "chrpc_type_t list \<Rightarrow> chrpc_inner_value_t list \<Rightarrow> chrpc_inner_value_t list" where
  "trim ct (IVNumber bs) = IVNumber bs"
| "trim ct (IVStr s) = IVStr (cstr s)"
| "trim ct (IVNumArr b len) = IVNumArr (take (cell_size ct * unat len) b) len"
| "trim ct (IVStrArr ss len) = IVStrArr (map cstr (take (unat len) ss)) len"
| "trim ct (IVEntries ivs len) =
     IVEntries (case ct of Array c \<Rightarrow> trims (replicate (unat len) c) ivs | _ \<Rightarrow> ivs) len"
| "trim ct (IVStruct ivs) = IVStruct (case ct of Struct ts \<Rightarrow> trims ts ivs | _ \<Rightarrow> ivs)"
| "trims [] ivs = []"
| "trims (t # ts) [] = []"
| "trims (t # ts) (iv # ivs) = trim t iv # trims ts ivs"

subsection \<open>The kinds of types\<close>

lemma chrpc_type_kinds [case_names number str num_array str_array cmp_array struct]:
  obtains "numeric ct" | "ct = CHRPC_STRING_T"
  | c where "ct = Array c" "numeric c"
  | "ct = Array CHRPC_STRING_T"
  | c where "ct = Array c" "composite c"
  | ts where "ct = Struct ts"
proof (cases ct)
  case (Array c)
  with that show ?thesis by (auto simp: numeric_def composite_def)
qed (use that in \<open>auto simp: numeric_def primitive_cases\<close>)

lemma prim_id: "chrpc_type_id_is_primitive (type_id ct) = chrpc_type_is_primitive ct"
  by (simp add: chrpc_type_is_primitive_def)

lemma prim_ids:
  "chrpc_type_id_is_primitive 9" "\<not> chrpc_type_id_is_primitive CHRPC_ARRAY_TID"
  "\<not> chrpc_type_id_is_primitive CHRPC_STRUCT_TID"
  by (simp_all add: chrpc_type_id_is_primitive_def)

lemma array_tid [simp]: "type_id ct = CHRPC_ARRAY_TID \<longleftrightarrow> (\<exists>c. ct = Array c)"
  by (cases ct) simp_all

lemma prim_simps [simp]:
  "chrpc_type_is_primitive CHRPC_BYTE_T" "chrpc_type_is_primitive CHRPC_INT16_T"
  "chrpc_type_is_primitive CHRPC_INT32_T" "chrpc_type_is_primitive CHRPC_INT64_T"
  "chrpc_type_is_primitive CHRPC_UINT16_T" "chrpc_type_is_primitive CHRPC_UINT32_T"
  "chrpc_type_is_primitive CHRPC_UINT64_T" "chrpc_type_is_primitive CHRPC_FLOAT32_T"
  "chrpc_type_is_primitive CHRPC_FLOAT64_T"
  "chrpc_type_is_primitive CHRPC_STRING_T" "\<not> chrpc_type_is_primitive (Array c)"
  "\<not> chrpc_type_is_primitive (Struct ts)"
  by (simp_all add: primitive_cases)

lemma kind_simps [simp]:
  "numeric ct \<Longrightarrow> ct \<noteq> CHRPC_STRING_T" "numeric ct \<Longrightarrow> ct \<noteq> Array c"
  "\<not> numeric CHRPC_STRING_T" "\<not> numeric (Array c)" "\<not> numeric (Struct ts)"
  "\<not> composite CHRPC_STRING_T" "composite (Array c)" "composite (Struct ts)"
  "composite c \<Longrightarrow> c \<noteq> CHRPC_STRING_T"
  by (auto simp: numeric_def composite_def)

lemma composite_not_numeric [simp]: "composite c \<Longrightarrow> \<not> numeric c"
  by (simp add: composite_def numeric_def)

lemma blockable_simps [simp]:
  "numeric ct \<Longrightarrow> chrpc_type_is_blockable ct"
  "chrpc_type_is_blockable CHRPC_STRING_T"
  "chrpc_type_is_blockable (Array c) \<longleftrightarrow> numeric c"
  "\<not> chrpc_type_is_blockable (Struct ts)"
  by (simp_all add: chrpc_type_is_blockable_def prim_id prim_ids numeric_def)

lemma cell_size_array [simp]: "numeric c \<Longrightarrow> cell_size (Array c) = cell_size c"
  by (cases c) (simp_all add: chrpc_blockable_type_cell_size_def numeric_def Let_def)

lemma cell_size_str [simp]: "cell_size CHRPC_STRING_T = 1"
  by (simp add: chrpc_blockable_type_cell_size_def)

lemma cell_size_pos: "numeric c \<Longrightarrow> 0 < cell_size c"
  by (cases c) (auto simp: chrpc_blockable_type_cell_size_def Let_def)

lemma number_block [simp]:
  "numeric ct \<Longrightarrow> chrpc_inner_value_to_block_value ct (IVNumber bs) =
     Some \<lparr>b_block = bs, b_cell_size = cell_size ct, b_num_cells = 1\<rparr>"
  by (cases ct) (auto simp: chrpc_inner_value_to_block_value_def chrpc_blockable_type_cell_size_def)

lemma num_array_block [simp]:
  "numeric c \<Longrightarrow> chrpc_inner_value_to_block_value (Array c) (IVNumArr b len) =
     Some \<lparr>b_block = b, b_cell_size = cell_size c, b_num_cells = len\<rparr>"
  by (cases c) (auto simp: chrpc_inner_value_to_block_value_def
      chrpc_inner_array_value_to_block_value_def chrpc_blockable_type_cell_size_def)

lemma c_strlen_cstr:
  assumes "0 \<in> set s"
  shows "c_strlen (map Some s) = Some (length (cstr s) - 1)" "take (length (cstr s)) s = cstr s"
    "length (cstr s) \<le> length s" "s = cstr s @ drop (length (cstr s)) s"
proof -
  obtain us vs where s: "s = us @ 0 # vs" "0 \<notin> set us"
    using assms by (meson split_list_first)
  then have "takeWhile (\<lambda>b. b \<noteq> 0) s = us" by (induction us arbitrary: s) auto
  then have c: "cstr s = us @ [0]" by (simp add: cstr_def)
  show "c_strlen (map Some s) = Some (length (cstr s) - 1)" "take (length (cstr s)) s = cstr s"
    "length (cstr s) \<le> length s" "s = cstr s @ drop (length (cstr s)) s"
    using s c by (simp_all add: c_strlen_terminated)
qed

lemma length_cstr_pos [simp]: "0 < length (cstr s)" "cstr s \<noteq> []"
  by (simp_all add: cstr_def)

lemma string_block:
  assumes "is_cstr s"
  shows "chrpc_inner_value_to_block_value CHRPC_STRING_T (IVStr s) =
     Some \<lparr>b_block = s, b_cell_size = 1, b_num_cells = of_nat (length (cstr s))\<rparr>"
proof -
  obtain m where "length (cstr s) = Suc m" by (cases "length (cstr s)") simp_all
  with assms c_strlen_cstr(1) [of s] show ?thesis
    by (simp add: chrpc_inner_value_to_block_value_def is_cstr_def)
qed

subsection \<open>The writer\<close>

definition writes :: "byte list \<Rightarrow> nat \<Rightarrow> byte list \<Rightarrow> write_result option \<Rightarrow> bool" where
  "writes enc pos buf r \<longleftrightarrow>
     (if pos + length enc \<le> length buf
      then r = Some (CHRPC_SUCCESS, Some (pos + length enc),
                     take pos buf @ enc @ drop (pos + length enc) buf)
      else \<exists>b. length b = length buf \<and> r = Some (CHRPC_BUFFER_TOO_SMALL, None, b))"

lemma writes_nil: "pos \<le> length buf \<Longrightarrow> writes [] pos buf (Some (CHRPC_SUCCESS, Some pos, buf))"
  by (simp add: writes_def)

text \<open>The body of a writing loop: write one encoding, then go on behind it.\<close>

lemma writes_seq:
  assumes "pos \<le> length buf" and "writes e1 0 (drop pos buf) r"
    and "\<And>buf'. length buf' = length buf \<Longrightarrow> pos + length e1 \<le> length buf \<Longrightarrow>
       writes e2 (pos + length e1) buf' (k (pos + length e1) buf')"
  shows "writes (e1 @ e2) pos buf
    (do { (status, w, b) \<leftarrow> r;
          (if status \<noteq> CHRPC_SUCCESS then Some (status, None, take pos buf @ b)
           else k (pos + the w) (take pos buf @ b)) })"
proof (cases "pos + length e1 \<le> length buf")
  case True
  then have r: "r = Some (CHRPC_SUCCESS, Some (length e1), e1 @ drop (pos + length e1) buf)"
    using assms(1,2) by (simp add: writes_def add.commute)
  let ?b = "take pos buf @ e1 @ drop (pos + length e1) buf"
  have "writes e2 (pos + length e1) ?b (k (pos + length e1) ?b)"
    by (rule assms(3)) (use True assms(1) in simp_all)
  then show ?thesis using True assms(1)
    by (auto simp: r writes_def ac_simps)
next
  case False
  then obtain b where "length b = length buf - pos" "r = Some (CHRPC_BUFFER_TOO_SMALL, None, b)"
    using assms(1,2) by (auto simp: writes_def split: if_splits)
  with False assms(1) show ?thesis by (simp add: writes_def)
qed

lemma writes_block:
  assumes "unat (b_num_cells block) * b_cell_size block \<le> length (b_block block)"
    and "bs = take (unat (b_num_cells block) * b_cell_size block) (b_block block)"
  shows "writes (if len_prefix then u32_le (b_num_cells block) @ bs else bs) 0 buf
    (chrpc_block_value_to_buffer block len_prefix buf)"
  using assms
  by (auto simp: writes_def chrpc_block_value_to_buffer_def block_bytes_def Let_def add.commute)

lemma writes_str:
  assumes "is_cstr s"
  shows "writes (str_enc (cstr s)) 0 buf (str_to_buffer s buf)"
proof -
  obtain m where m: "length (cstr s) = Suc m" by (cases "length (cstr s)") simp_all
  have s: "0 \<in> set s" "length (cstr s) < 2 ^ 32" using assms by (simp_all add: is_cstr_def)
  then have u: "unat (of_nat (Suc m) :: u32) = Suc m" using m by (simp add: unat_of_nat del: of_nat_Suc)
  let ?block = "\<lparr>b_block = s, b_cell_size = 1, b_num_cells = of_nat (Suc m)\<rparr>"
  have "str_to_buffer s buf = chrpc_block_value_to_buffer ?block True buf"
    using c_strlen_cstr(1) [OF s(1)] m by (simp add: str_to_buffer_def)
  moreover have "writes (if True then u32_le (b_num_cells ?block) @ cstr s else cstr s) 0 buf
      (chrpc_block_value_to_buffer ?block True buf)"
    by (rule writes_block) (use c_strlen_cstr [OF s(1)] m u in \<open>simp_all del: of_nat_Suc\<close>)
  ultimately show ?thesis using m by (simp add: str_enc_def del: of_nat_Suc)
qed

lemma writes_strs:
  "n \<le> length ss \<Longrightarrow> (\<forall>s \<in> set (take n ss). is_cstr s) \<Longrightarrow> pos \<le> length buf \<Longrightarrow>
   writes (concat (map str_enc (map cstr (take n ss)))) pos buf (strs_to_buffer n ss pos buf)"
proof (induction n arbitrary: ss pos buf)
  case (Suc n)
  then obtain s ss' where ss: "ss = s # ss'" by (cases ss) auto
  have "writes (str_enc (cstr s) @ concat (map str_enc (map cstr (take n ss')))) pos buf
      (do { (status, w, b) \<leftarrow> str_to_buffer s (drop pos buf);
          (if status \<noteq> CHRPC_SUCCESS then Some (status, None, take pos buf @ b)
           else strs_to_buffer n ss' (pos + the w) (take pos buf @ b)) })"
    by (rule writes_seq) (use Suc ss in \<open>simp_all add: writes_str\<close>)
  then show ?case by (simp add: ss)
qed (simp add: writes_nil)

text \<open>Behind a length prefix.\<close>

lemma writes_prefix:
  assumes "4 \<le> length buf \<Longrightarrow> writes enc 4 (u32_le len @ drop 4 buf) r"
  shows "writes (u32_le len @ enc) 0 buf
    (if length buf < 4 then Some (CHRPC_BUFFER_TOO_SMALL, None, buf) else r)"
  using assms by (auto simp: writes_def add.commute)

lemma inner_writes:
  "wt ct iv \<Longrightarrow> writes (raw_enc (trim ct iv)) 0 buf (chrpc_inner_value_to_buffer ct iv buf)"
  "wts ts ivs \<Longrightarrow> pos \<le> length buf \<Longrightarrow>
   writes (concat (map raw_enc (trims ts ivs))) pos buf (entries_to_buffer ts ivs pos buf)"
proof (induction ct iv and ts ivs arbitrary: buf and pos buf rule: wt_wts.induct)
  case (1 ct bs)
  then have "writes (if False then u32_le 1 @ bs else bs) 0 buf (chrpc_block_value_to_buffer
      \<lparr>b_block = bs, b_cell_size = cell_size ct, b_num_cells = 1\<rparr> False buf)"
    using writes_block [of "\<lparr>b_block = bs, b_cell_size = cell_size ct, b_num_cells = 1\<rparr>" bs False buf]
    by simp
  with 1 show ?case by (simp add: chrpc_inner_value_to_buffer.simps)
next
  case (2 ct s)
  then have "is_cstr s" "0 \<in> set s" "length (cstr s) < 2 ^ 32" by (simp_all add: is_cstr_def)
  with 2 writes_block [of "\<lparr>b_block = s, b_cell_size = 1, b_num_cells = of_nat (length (cstr s))\<rparr>"
        "cstr s" True buf] c_strlen_cstr [of s]
  show ?case by (simp add: chrpc_inner_value_to_buffer.simps string_block str_enc_def)
next
  case (3 ct b len)
  then obtain c where c: "ct = Array c" "numeric c" "cell_size c * unat len \<le> length b"
    by (auto split: chrpc_type_t.splits)
  with writes_block [of "\<lparr>b_block = b, b_cell_size = cell_size c, b_num_cells = len\<rparr>"
        "take (cell_size c * unat len) b" True buf]
  show ?case by (simp add: chrpc_inner_value_to_buffer.simps mult.commute)
next
  case (4 ct ss len)
  then have "writes (u32_le len @ concat (map str_enc (map cstr (take (unat len) ss)))) 0 buf
      (if length buf < 4 then Some (CHRPC_BUFFER_TOO_SMALL, None, buf)
       else strs_to_buffer (unat len) ss 4 (u32_le len @ drop 4 buf))"
    by (intro writes_prefix writes_strs) auto
  with 4 show ?case by (simp add: chrpc_inner_value_to_buffer.simps)
next
  case (5 ct ivs len)
  then obtain c where c: "ct = Array c" "composite c" "wts (replicate (unat len) c) ivs"
    by (auto split: chrpc_type_t.splits)
  then have "writes (u32_le len @ concat (map raw_enc (trims (replicate (unat len) c) ivs))) 0 buf
      (if length buf < 4 then Some (CHRPC_BUFFER_TOO_SMALL, None, buf)
       else entries_to_buffer (replicate (unat len) c) ivs 4 (u32_le len @ drop 4 buf))"
    by (intro writes_prefix "5.IH") auto
  with c show ?case by (simp add: chrpc_inner_value_to_buffer.simps)
next
  case (6 ct ivs)
  then obtain ts where ts: "ct = Struct ts" "wts ts ivs" by (auto split: chrpc_type_t.splits)
  with "6.IH" [of ts 0 buf] show ?case by (simp add: chrpc_inner_value_to_buffer.simps)
next
  case (9 t ts iv ivs)
  have "writes (raw_enc (trim t iv) @ concat (map raw_enc (trims ts ivs))) pos buf
      (do { (status, w, b) \<leftarrow> chrpc_inner_value_to_buffer t iv (drop pos buf);
          (if status \<noteq> CHRPC_SUCCESS then Some (status, None, take pos buf @ b)
           else entries_to_buffer ts ivs (pos + the w) (take pos buf @ b)) })"
    by (rule writes_seq) (use 9 in simp_all)
  then show ?case by simp
qed (simp_all add: writes_nil)

subsection \<open>Trimmed values, deleting and comparing\<close>

lemma trim_raw_wt:
  "wt ct iv \<Longrightarrow> raw_wt ct (trim ct iv)"
  "wts ts ivs \<Longrightarrow> raw_wts ts (trims ts ivs)"
proof (induction ct iv and ts ivs rule: wt_wts.induct)
  case (3 ct b len)
  then show ?case by (auto split: chrpc_type_t.splits)
next
  case (4 ct ss len)
  then show ?case by (auto simp: is_cstr_def min_def)
next
  case (5 ct ivs len)
  then show ?case by (auto split: chrpc_type_t.splits)
next
  case (6 ct ivs)
  then show ?case by (auto split: chrpc_type_t.splits)
qed (simp_all add: is_cstr_def)

lemma cstr_cstr [simp]: "cstr (cstr s) = cstr s"
  by (induction s) (simp_all add: cstr_def)

lemma is_cstr_cstr [simp]: "is_cstr s \<Longrightarrow> is_cstr (cstr s)"
  unfolding is_cstr_def cstr_cstr by (simp add: cstr_def)

lemma trim_wt:
  "wt ct iv \<Longrightarrow> wt ct (trim ct iv) \<and> trim ct (trim ct iv) = trim ct iv"
  "wts ts ivs \<Longrightarrow> wts ts (trims ts ivs) \<and> trims ts (trims ts ivs) = trims ts ivs"
proof (induction ct iv and ts ivs rule: wt_wts.induct)
  case (3 ct b len)
  then show ?case by (auto split: chrpc_type_t.splits)
next
  case (4 ct ss len)
  then show ?case by (auto simp: min_def)
next
  case (5 ct ivs len)
  then show ?case by (auto split: chrpc_type_t.splits)
next
  case (6 ct ivs)
  then show ?case by (auto split: chrpc_type_t.splits)
qed simp_all

lemma raw_wts_list: "raw_wts ts ivs \<longleftrightarrow> list_all2 raw_wt ts ivs"
proof (induction ts arbitrary: ivs)
  case (Cons t ts)
  then show ?case by (cases ivs) auto
qed auto

lemma wts_length: "wts ts ivs \<Longrightarrow> length ts \<le> length ivs"
proof (induction ts arbitrary: ivs)
  case (Cons t ts)
  then show ?case by (cases ivs) auto
qed simp

lemma delete_wt:
  "wt ct iv \<Longrightarrow> \<exists>n. delete_chrpc_inner_value ct iv = Some n"
  "wts ts ivs \<Longrightarrow> \<exists>n. delete_entries ts ivs = Some n"
proof (induction ct iv and ts ivs rule: wt_wts.induct)
  case (3 ct b len)
  then show ?case by (auto simp: delete_chrpc_inner_value.simps split: chrpc_type_t.splits)
next
  case (5 ct ivs len)
  then show ?case by (auto simp: delete_chrpc_inner_value.simps split: chrpc_type_t.splits)
next
  case (6 ct ivs)
  then show ?case by (auto simp: delete_chrpc_inner_value.simps split: chrpc_type_t.splits)
next
  case (9 t ts iv ivs)
  then show ?case by auto
qed (simp_all add: delete_chrpc_inner_value.simps string_block)

text \<open>What a deletion of a value with exact blocks frees, when it is defined.\<close>

lemma delete_raw_wt:
  "raw_wt ct iv \<Longrightarrow> delete_chrpc_inner_value ct iv = Some m \<Longrightarrow> m = iv_blocks iv"
  "raw_wts ts ivs \<Longrightarrow> delete_entries ts ivs = Some m \<Longrightarrow> m = sum_list (map iv_blocks ivs)"
proof (induction ct iv and ts ivs arbitrary: m and m rule: raw_wt_raw_wts.induct)
  case (2 ct s)
  then show ?case
    by (auto simp: delete_chrpc_inner_value.simps chrpc_inner_value_to_block_value_def
        split: Option.bind_splits)
next
  case (3 ct b len)
  then show ?case by (auto simp: delete_chrpc_inner_value.simps split: chrpc_type_t.splits)
next
  case (5 ct ivs len)
  then show ?case
    by (auto simp: delete_chrpc_inner_value.simps split: chrpc_type_t.splits Option.bind_splits)
next
  case (6 ct ivs)
  then show ?case
    by (auto simp: delete_chrpc_inner_value.simps split: chrpc_type_t.splits Option.bind_splits)
next
  case (9 t ts iv ivs)
  then show ?case by (auto split: Option.bind_splits)
qed (auto simp: delete_chrpc_inner_value.simps)

lemma c_streq_cstr:
  assumes "0 \<in> set s" "0 \<in> set t"
  shows "c_streq (map Some s) (map Some t) = Some (cstr s = cstr t)"
proof -
  have c: "\<exists>us vs. s = us @ 0 # vs \<and> 0 \<notin> set us \<and> cstr s = us @ [0]" if "0 \<in> set s" for s
  proof -
    obtain us vs where s: "s = us @ 0 # vs" "0 \<notin> set us" using \<open>0 \<in> set s\<close> by (meson split_list_first)
    moreover have "takeWhile (\<lambda>b. b \<noteq> 0) s = us" using s by (induction us arbitrary: s) auto
    ultimately show ?thesis by (auto simp: cstr_def)
  qed
  from c [OF assms(1)] c [OF assms(2)] show ?thesis
    by (auto simp: c_streq_terminated)
qed

lemma strs_equal_ok:
  "n \<le> length ss \<Longrightarrow> n \<le> length ts \<Longrightarrow> \<forall>s \<in> set (take n ss). 0 \<in> set s \<Longrightarrow>
   \<forall>s \<in> set (take n ts). 0 \<in> set s \<Longrightarrow>
   strs_equal n ss ts = Some (map cstr (take n ss) = map cstr (take n ts))"
  by (induction n ss ts rule: strs_equal.induct) (simp_all add: c_streq_cstr)

lemma of_nat_u32_eq: "m < 2 ^ 32 \<Longrightarrow> n < 2 ^ 32 \<Longrightarrow> (of_nat m = (of_nat n :: u32)) = (m = n)"
  by (metis unat_of_nat_u32)

lemma equals_wt:
  "wt ct iv \<Longrightarrow> wt ct iv' \<Longrightarrow> chrpc_inner_value_equals ct iv iv' = Some (trim ct iv = trim ct iv')"
  "wts ts ivs \<Longrightarrow> wts ts ivs' \<Longrightarrow> entries_equal ts ivs ivs' = Some (trims ts ivs = trims ts ivs')"
proof (induction ct iv and ts ivs arbitrary: iv' and ivs' rule: wt_wts.induct)
  case (1 ct bs)
  then show ?case
    by (cases iv') (auto simp: chrpc_inner_value_equals.simps block_bytes_def split: chrpc_type_t.splits)
next
  case (2 ct s)
  then obtain s' where iv': "iv' = IVStr s'" "is_cstr s'"
    by (cases iv') (auto split: chrpc_type_t.splits)
  have "is_cstr s" "ct = CHRPC_STRING_T" using 2 by simp_all
  moreover have "0 \<in> set s" "0 \<in> set s'" "length (cstr s) < 2 ^ 32" "length (cstr s') < 2 ^ 32"
    using calculation iv' by (simp_all add: is_cstr_def)
  note 0 = this
  have "block_bytes s (length (cstr s)) = Some (cstr s)" "block_bytes s' (length (cstr s')) = Some (cstr s')"
    using c_strlen_cstr(2,3) 0(1,2) by (simp_all add: block_bytes_def)
  ultimately show ?case using iv' of_nat_u32_eq [OF 0(3,4)] 0(3,4)
    by (cases "length (cstr s) = length (cstr s')")
      (auto simp: chrpc_inner_value_equals.simps string_block)
next
  case (3 ct b len)
  then obtain c where c: "ct = Array c" "numeric c" "cell_size c * unat len \<le> length b"
    by (auto split: chrpc_type_t.splits)
  with 3 obtain b' len' where "iv' = IVNumArr b' len'" "cell_size c * unat len' \<le> length b'"
    by (cases iv') auto
  with c show ?case
    by (auto simp: chrpc_inner_value_equals.simps block_bytes_def)
next
  case (4 ct ss len)
  then obtain ss' len' where iv': "iv' = IVStrArr ss' len'" "unat len' \<le> length ss'"
      "\<forall>s \<in> set (take (unat len') ss'). is_cstr s"
    by (cases iv') auto
  have ct: "ct = Array CHRPC_STRING_T" using 4 by simp
  have "strs_equal (unat len) ss ss' = Some (map cstr (take (unat len) ss) = map cstr (take (unat len) ss'))"
    if "len' = len"
    by (rule strs_equal_ok) (use 4 iv' that in \<open>auto simp: is_cstr_def\<close>)
  then show ?case
    by (auto simp: ct iv'(1) chrpc_inner_value_equals.simps)
next
  case (5 ct ivs len)
  then obtain c where c: "ct = Array c" "composite c" "wts (replicate (unat len) c) ivs"
    by (auto split: chrpc_type_t.splits)
  with 5 obtain ivs' len' where "iv' = IVEntries ivs' len'" "wts (replicate (unat len') c) ivs'"
    by (cases iv') auto
  with c "5.IH" [of c ivs'] show ?case
    by (auto simp: chrpc_inner_value_equals.simps)
next
  case (6 ct ivs)
  then obtain ts where ts: "ct = Struct ts" "wts ts ivs" by (auto split: chrpc_type_t.splits)
  with 6 obtain ivs' where "iv' = IVStruct ivs'" "wts ts ivs'" by (cases iv') auto
  with ts "6.IH" [of ts ivs'] show ?case by (simp add: chrpc_inner_value_equals.simps)
next
  case (9 t ts iv ivs)
  then obtain iv' ivs'' where "ivs' = iv' # ivs''" by (cases ivs') auto
  with 9 show ?case by (auto split: Option.bind_splits)
qed simp_all

subsection \<open>The reader\<close>

lemma block_array_ok:
  "cell_size ct * unat n = length b \<Longrightarrow>
   chrpc_block_array_from_buffer ct (u32_le n @ b @ rest) = (Inr ((b, n), 4 + length b), int (frees b))"
  by (simp add: chrpc_block_array_from_buffer_def Let_def frees_def)

lemma block_array_sound:
  obtains "chrpc_block_array_from_buffer ct buf = (Inl CHRPC_UNEXPECTED_END, 0)"
  | b n rest where "chrpc_block_array_from_buffer ct buf = (Inr ((b, n), 4 + length b), int (frees b))"
      "cell_size ct * unat n = length b" "buf = u32_le n @ b @ rest"
proof (cases "length buf < 4 \<or> length buf - 4 < cell_size ct * unat (le_u32 buf)")
  case True
  then show ?thesis by (intro that(1)) (auto simp: chrpc_block_array_from_buffer_def Let_def)
next
  case False
  define b where "b = take (cell_size ct * unat (le_u32 buf)) (drop 4 buf)"
  have len: "length b = cell_size ct * unat (le_u32 buf)" using False by (simp add: b_def)
  have "u32_le (le_u32 buf) = take 4 buf"
    using u32_le_le_u32 [of "take 4 buf"] False by (simp add: le_u32_take)
  then have "buf = u32_le (le_u32 buf) @ b @ drop (length b) (drop 4 buf)"
    by (metis append_take_drop_id b_def len)
  from that(2) [OF _ _ this] block_array_ok [OF len [symmetric]] this len show ?thesis by metis
qed

lemma strs_from_buffer_ok:
  "\<forall>s \<in> set ss. length s < 2 ^ 32 \<Longrightarrow>
   strs_from_buffer CHRPC_STRING_T (length ss) (concat (map str_enc ss) @ rest) n acc live =
     (Inr (acc @ ss, n + length (concat (map str_enc ss))), live + int (sum_list (map frees ss)))"
proof (induction ss arbitrary: n acc live)
  case (Cons s ss)
  then have "chrpc_block_array_from_buffer CHRPC_STRING_T
      (u32_le (of_nat (length s)) @ s @ concat (map str_enc ss) @ rest) =
      (Inr ((s, of_nat (length s)), 4 + length s), int (frees s))"
    by (intro block_array_ok) simp
  with Cons show ?case by (simp add: str_enc_def [of s])
qed simp

lemma str_unat:
  assumes "unat m = length s"
  shows "m = (of_nat (length s) :: u32) \<and> length s < 2 ^ 32"
proof -
  have "unat m < 2 ^ 32" using unsigned_less [of m] by simp
  then show ?thesis using assms by (simp add: word_unat_eq_iff)
qed

lemma strs_from_buffer_sound:
  "live = int (sum_list (map frees acc)) + 1 \<Longrightarrow>
   strs_from_buffer CHRPC_STRING_T k rest n acc live = (Inl CHRPC_UNEXPECTED_END, 0) \<or>
   (\<exists>ss rest'. length ss = k \<and> (\<forall>s \<in> set ss. length s < 2 ^ 32) \<and>
      rest = concat (map str_enc ss) @ rest')"
proof (induction k arbitrary: rest n acc live)
  case (Suc k)
  show ?case
  proof (rule block_array_sound [of CHRPC_STRING_T rest])
    assume "chrpc_block_array_from_buffer CHRPC_STRING_T rest = (Inl CHRPC_UNEXPECTED_END, 0)"
    then show ?thesis using Suc.prems by simp
  next
    fix s m rest'
    assume r: "chrpc_block_array_from_buffer CHRPC_STRING_T rest =
        (Inr ((s, m), 4 + length s), int (frees s))"
      and m: "cell_size CHRPC_STRING_T * unat m = length s" and rest: "rest = u32_le m @ s @ rest'"
    have enc: "length s < 2 ^ 32" "rest = str_enc s @ rest'"
      using str_unat [of m s] m rest by (simp_all add: str_enc_def)
    have "strs_from_buffer CHRPC_STRING_T k rest' (n + (4 + length s)) (acc @ [s]) (live + int (frees s)) =
        (Inl CHRPC_UNEXPECTED_END, 0) \<or>
      (\<exists>ss rest''. length ss = k \<and> (\<forall>s \<in> set ss. length s < 2 ^ 32) \<and>
        rest' = concat (map str_enc ss) @ rest'')"
      by (rule Suc.IH) (use Suc.prems in simp)
    then show ?thesis
    proof
      assume "strs_from_buffer CHRPC_STRING_T k rest' (n + (4 + length s)) (acc @ [s])
        (live + int (frees s)) = (Inl CHRPC_UNEXPECTED_END, 0)"
      then show ?thesis using r rest by simp
    next
      assume "\<exists>ss rest''. length ss = k \<and> (\<forall>s \<in> set ss. length s < 2 ^ 32) \<and>
        rest' = concat (map str_enc ss) @ rest''"
      then obtain ss rest'' where "length ss = k" "\<forall>s \<in> set ss. length s < 2 ^ 32"
        "rest' = concat (map str_enc ss) @ rest''" by blast
      with enc show ?thesis by (intro disjI2 exI [of _ "s # ss"] exI [of _ rest'']) simp
    qed
  qed
qed simp

text \<open>The reader inverts the wire format, and accounts for every block.\<close>

definition reads :: "chrpc_type_t \<Rightarrow> chrpc_inner_value_t \<Rightarrow> bool" where
  "reads ct iv \<longleftrightarrow> (\<forall>rest. chrpc_inner_value_from_buffer ct (raw_enc iv @ rest) =
     Some (Inr (iv, length (raw_enc iv)), int (iv_blocks iv)))"

lemma struct_from_buffer_ok:
  "list_all2 reads ts ivs \<Longrightarrow>
   struct_from_buffer all ts (concat (map raw_enc ivs) @ rest) n acc live =
     Some (Inr (acc @ ivs, n + length (concat (map raw_enc ivs))),
           live + int (sum_list (map iv_blocks ivs)))"
proof (induction ts ivs arbitrary: n acc live rule: list_all2_induct)
  case (Cons t ts iv ivs)
  then show ?case by (simp add: reads_def)
qed simp

lemma cmp_array_from_buffer_ok:
  "\<forall>iv \<in> set ivs. reads c iv \<Longrightarrow>
   cmp_array_from_buffer c (length ivs) (concat (map raw_enc ivs) @ rest) n acc live =
     Some (Inr (acc @ ivs, n + length (concat (map raw_enc ivs))),
           live + int (sum_list (map iv_blocks ivs)))"
  by (induction ivs arbitrary: n acc live) (simp_all add: reads_def)


lemma raw_wt_reads:
  "raw_wt ct iv \<Longrightarrow> reads ct iv"
  "raw_wts ts ivs \<Longrightarrow> list_all2 reads ts ivs"
proof (induction ct iv and ts ivs rule: raw_wt_raw_wts.induct)
  case (1 ct bs)
  then show ?case
    by (auto simp: reads_def chrpc_inner_value_from_buffer.simps chrpc_numeric_inner_value_from_buffer_def)
next
  case (2 ct s)
  have "chrpc_block_array_from_buffer CHRPC_STRING_T (u32_le (of_nat (length s)) @ s @ rest) =
      (Inr ((s, of_nat (length s)), 4 + length s), int (frees s))" for rest
    using 2 by (intro block_array_ok) simp
  with 2 show ?case
    by (simp add: reads_def chrpc_inner_value_from_buffer.simps str_enc_def
        chrpc_block_array_inner_value_from_buffer_def)
next
  case (3 ct b len)
  then obtain c where c: "ct = Array c" "numeric c" "length b = cell_size c * unat len"
    by (auto split: chrpc_type_t.splits)
  with block_array_ok [of ct len b] show ?case
    by (simp add: reads_def chrpc_inner_value_from_buffer.simps
        chrpc_block_array_inner_value_from_buffer_def)
next
  case (4 ct ss len)
  then have "length ss = unat len" by simp
  then have "len = 0 \<longleftrightarrow> ss = []" by (metis length_0_conv unat_eq_zero)
  with 4 strs_from_buffer_ok [of ss] show ?case
    by (simp add: reads_def chrpc_inner_value_from_buffer.simps Let_def frees_def
        chrpc_str_array_inner_value_from_buffer_def)
next
  case (5 ct ivs len)
  then obtain c where c: "ct = Array c" "composite c" "raw_wts (replicate (unat len) c) ivs"
    by (auto split: chrpc_type_t.splits)
  then have all: "list_all2 reads (replicate (unat len) c) ivs" by (intro "5.IH")
  then have "length ivs = unat len" "\<forall>iv \<in> set ivs. reads c iv"
    by (auto simp: list_all2_conv_all_nth in_set_conv_nth)
  moreover from this have "len = 0 \<longleftrightarrow> ivs = []" by (metis length_0_conv unat_eq_zero)
  ultimately show ?case using c cmp_array_from_buffer_ok [of ivs c]
    by (simp add: reads_def [of "Array c"] chrpc_inner_value_from_buffer.simps frees_def)
next
  case (6 ct ivs)
  then obtain ts where ts: "ct = Struct ts" "ts \<noteq> []" "raw_wts ts ivs"
    by (auto split: chrpc_type_t.splits)
  moreover have "list_all2 reads ts ivs" by (rule "6.IH") (use ts in simp_all)
  moreover from this have "ivs \<noteq> []" using ts by auto
  ultimately show ?case using struct_from_buffer_ok [of ts ivs]
    by (simp add: reads_def [of "Struct ts"] chrpc_inner_value_from_buffer.simps frees_def)
qed simp_all

lemma prefix_split: "4 \<le> length buf \<Longrightarrow> buf = u32_le (le_u32 buf) @ drop 4 buf"
  using u32_le_le_u32 [of "take 4 buf"] by (simp add: le_u32_take)

text \<open>
  For every buffer: what is accepted is the encoding of the result, and a rejection, when it is
  defined, leaks nothing.
\<close>

definition value_or_end ::
    "chrpc_type_t \<Rightarrow> byte list \<Rightarrow> chrpc_status_t + 'a \<Rightarrow> int \<Rightarrow> bool" where
  "value_or_end ct buf r live \<longleftrightarrow>
     r = Inl CHRPC_UNEXPECTED_END \<and> live = 0 \<or> (\<exists>iv rest. raw_wt ct iv \<and> buf = raw_enc iv @ rest)"

definition entries_or_end ::
    "chrpc_type_t list \<Rightarrow> byte list \<Rightarrow> chrpc_status_t + 'a \<Rightarrow> int \<Rightarrow> bool" where
  "entries_or_end ts buf r live \<longleftrightarrow>
     r = Inl CHRPC_UNEXPECTED_END \<and> live = 0 \<or>
     (\<exists>ivs rest. raw_wts ts ivs \<and> buf = concat (map raw_enc ivs) @ rest)"

lemma value_or_endI: "raw_wt ct iv \<Longrightarrow> buf = raw_enc iv @ rest \<Longrightarrow> value_or_end ct buf r live"
  by (auto simp: value_or_end_def)

lemma value_or_end_cases:
  assumes "value_or_end ct buf r live" and "chrpc_inner_value_from_buffer ct buf = Some (r, live)"
  obtains "r = Inl CHRPC_UNEXPECTED_END" "live = 0"
  | iv rest where "raw_wt ct iv" "buf = raw_enc iv @ rest" "r = Inr (iv, length (raw_enc iv))"
      "live = int (iv_blocks iv)"
  using assms raw_wt_reads(1) [of ct] by (fastforce simp: reads_def value_or_end_def)

lemma blockable_sound:
  assumes "chrpc_inner_value_from_buffer ct buf = Some (r, live)" and "chrpc_type_is_blockable ct"
  shows "value_or_end ct buf r live"
proof (cases ct rule: chrpc_type_kinds)
  case number
  show ?thesis
  proof (cases "length buf < cell_size ct")
    case True
    with number assms show ?thesis
      by (simp add: chrpc_inner_value_from_buffer.simps chrpc_numeric_inner_value_from_buffer_def
          value_or_end_def)
  next
    case False
    show ?thesis
      by (rule value_or_endI [where iv = "IVNumber (take (cell_size ct) buf)"
            and rest = "drop (cell_size ct) buf"]) (use number False in simp_all)
  qed
next
  case str
  show ?thesis
  proof (rule block_array_sound [of ct buf])
    assume "chrpc_block_array_from_buffer ct buf = (Inl CHRPC_UNEXPECTED_END, 0)"
    with str assms show ?thesis
      by (simp add: chrpc_inner_value_from_buffer.simps chrpc_block_array_inner_value_from_buffer_def
          value_or_end_def)
  next
    fix b n rest
    assume b: "cell_size ct * unat n = length b" "buf = u32_le n @ b @ rest"
    then have "n = of_nat (length b) \<and> length b < 2 ^ 32" using str by (intro str_unat) simp
    with str b show ?thesis
      by (intro value_or_endI [where iv = "IVStr b" and rest = rest]) (simp_all add: str_enc_def)
  qed
next
  case (num_array c)
  show ?thesis
  proof (rule block_array_sound [of ct buf])
    assume "chrpc_block_array_from_buffer ct buf = (Inl CHRPC_UNEXPECTED_END, 0)"
    with num_array assms show ?thesis
      by (simp add: chrpc_inner_value_from_buffer.simps chrpc_block_array_inner_value_from_buffer_def
          value_or_end_def)
  next
    fix b n rest
    assume "cell_size ct * unat n = length b" "buf = u32_le n @ b @ rest"
    with num_array show ?thesis by (intro value_or_endI [where iv = "IVNumArr b n" and rest = rest]) simp_all
  qed
qed (use assms in auto)

lemma str_array_sound:
  assumes "chrpc_inner_value_from_buffer (Array CHRPC_STRING_T) buf = Some (r, live)"
  shows "value_or_end (Array CHRPC_STRING_T) buf r live"
proof (cases "length buf < 4")
  case True
  with assms show ?thesis
    by (simp add: chrpc_inner_value_from_buffer.simps chrpc_str_array_inner_value_from_buffer_def
        value_or_end_def)
next
  case False
  let ?n = "le_u32 buf"
  consider "strs_from_buffer CHRPC_STRING_T (unat ?n) (drop 4 buf) 4 [] 1 = (Inl CHRPC_UNEXPECTED_END, 0)"
    | ss rest where "length ss = unat ?n" "\<forall>s \<in> set ss. length s < 2 ^ 32"
        "drop 4 buf = concat (map str_enc ss) @ rest"
    using strs_from_buffer_sound [of 1 "[]" "unat ?n" "drop 4 buf" 4] by auto
  then show ?thesis
  proof cases
    case 1
    then have "?n \<noteq> 0" by (cases "unat ?n") auto
    with 1 False assms show ?thesis
      by (simp add: chrpc_inner_value_from_buffer.simps Let_def value_or_end_def
          chrpc_str_array_inner_value_from_buffer_def)
  next
    case (2 ss rest)
    with prefix_split [of buf] False show ?thesis
      by (intro value_or_endI [where iv = "IVStrArr ss ?n" and rest = rest]) simp_all
  qed
qed

lemma cmp_array_sound:
  assumes "chrpc_inner_value_from_buffer (Array c) buf = Some (r, live)" and "composite c"
    and loop: "\<And>r' live'. 4 \<le> length buf \<Longrightarrow>
      cmp_array_from_buffer c (unat (le_u32 buf)) (drop 4 buf) 4 [] 1 = Some (r', live') \<Longrightarrow>
      entries_or_end (replicate (unat (le_u32 buf)) c) (drop 4 buf) r' live'"
  shows "value_or_end (Array c) buf r live"
proof -
  let ?n = "le_u32 buf"
  consider "length buf < 4" | "4 \<le> length buf" "?n = 0" | "4 \<le> length buf" "?n \<noteq> 0" by linarith
  then show ?thesis
  proof cases
    case 1
    with assms show ?thesis by (simp add: chrpc_inner_value_from_buffer.simps value_or_end_def)
  next
    case 2
    with prefix_split [of buf] assms(2) show ?thesis
      by (intro value_or_endI [where iv = "IVEntries [] ?n" and rest = "drop 4 buf"]) simp_all
  next
    case 3
    with assms(1,2) obtain r' live' where
      r': "cmp_array_from_buffer c (unat ?n) (drop 4 buf) 4 [] 1 = Some (r', live')"
        "r' = Inl CHRPC_UNEXPECTED_END \<and> live' = 0 \<longrightarrow> r = Inl CHRPC_UNEXPECTED_END \<and> live = 0"
      by (auto simp: chrpc_inner_value_from_buffer.simps split: Option.bind_splits sum.splits)
    from loop [OF 3(1) r'(1)] consider "r' = Inl CHRPC_UNEXPECTED_END \<and> live' = 0"
      | ivs rest where "raw_wts (replicate (unat ?n) c) ivs" "drop 4 buf = concat (map raw_enc ivs) @ rest"
      by (auto simp: entries_or_end_def)
    then show ?thesis
    proof cases
      case 1
      with r'(2) show ?thesis by (simp add: value_or_end_def)
    next
      case (2 ivs rest)
      with prefix_split [OF 3(1)] assms(2) show ?thesis
        by (intro value_or_endI [where iv = "IVEntries ivs ?n" and rest = rest]) simp_all
    qed
  qed
qed

lemma struct_sound:
  assumes "chrpc_inner_value_from_buffer (Struct ts) buf = Some (r, live)"
    and loop: "\<And>r' live'. ts \<noteq> [] \<Longrightarrow> struct_from_buffer ts ts buf 0 [] 1 = Some (r', live') \<Longrightarrow>
      entries_or_end ts buf r' live'"
  shows "value_or_end (Struct ts) buf r live"
proof -
  from assms(1) have ne: "ts \<noteq> []" by (auto simp: chrpc_inner_value_from_buffer.simps)
  with assms(1) obtain r' live' where
    r': "struct_from_buffer ts ts buf 0 [] 1 = Some (r', live')"
      "r' = Inl CHRPC_UNEXPECTED_END \<and> live' = 0 \<longrightarrow> r = Inl CHRPC_UNEXPECTED_END \<and> live = 0"
    by (auto simp: chrpc_inner_value_from_buffer.simps split: Option.bind_splits sum.splits)
  from loop [OF ne r'(1)] r'(2) ne show ?thesis
    by (auto simp: entries_or_end_def value_or_end_def intro: exI [of _ "IVStruct _"])
qed

text \<open>One round of a reading loop: \<open>us\<close> are the types of the entries read so far.\<close>

lemma entry_sound:
  assumes F: "do { (x, l) \<leftarrow> chrpc_inner_value_from_buffer t buf;
        (case x of
           Inl e \<Rightarrow> do { freed \<leftarrow> delete_entries us acc; Some (Inl e, live0 + l - int freed - 1) }
         | Inr (iv, n) \<Rightarrow> K iv n l) } = Some (r, live)"
    and entry: "\<And>x l. chrpc_inner_value_from_buffer t buf = Some (x, l) \<Longrightarrow> value_or_end t buf x l"
    and acc: "raw_wts us acc" "live0 = int (sum_list (map iv_blocks acc)) + 1"
    and K: "\<And>iv n l. chrpc_inner_value_from_buffer t buf = Some (Inr (iv, n), l) \<Longrightarrow> raw_wt t iv \<Longrightarrow>
      l = int (iv_blocks iv) \<Longrightarrow> K iv n l = Some (r, live) \<Longrightarrow> entries_or_end ts (drop n buf) r live"
  shows "entries_or_end (t # ts) buf r live"
proof -
  from F obtain x l where x: "chrpc_inner_value_from_buffer t buf = Some (x, l)"
    by (auto split: Option.bind_splits)
  from entry [OF x] x show ?thesis
  proof (rule value_or_end_cases)
    assume "x = Inl CHRPC_UNEXPECTED_END" "l = 0"
    with x F obtain freed where "delete_entries us acc = Some freed"
      and "r = Inl CHRPC_UNEXPECTED_END" "live = live0 - int freed - 1"
      by (auto split: Option.bind_splits)
    with delete_raw_wt(2) [OF acc(1)] acc(2) show ?thesis by (simp add: entries_or_end_def)
  next
    fix iv rest
    assume iv: "raw_wt t iv" "buf = raw_enc iv @ rest" "x = Inr (iv, length (raw_enc iv))"
      "l = int (iv_blocks iv)"
    have "entries_or_end ts rest r live"
      using K [of iv "length (raw_enc iv)" l] x iv F by simp
    then consider "r = Inl CHRPC_UNEXPECTED_END \<and> live = 0"
      | ivs rest' where "raw_wts ts ivs" "rest = concat (map raw_enc ivs) @ rest'"
      by (auto simp: entries_or_end_def)
    then show ?thesis
    proof cases
      case (2 ivs rest')
      with iv show ?thesis
        unfolding entries_or_end_def by (intro disjI2 exI [of _ "iv # ivs"] exI [of _ rest']) simp
    qed (simp add: entries_or_end_def)
  qed
qed

lemma reader_sound:
  "chrpc_inner_value_from_buffer ct buf = Some (r, live) \<Longrightarrow> value_or_end ct buf r live"
  "struct_from_buffer all ts rest n acc live0 = Some (r', live') \<Longrightarrow>
   all = us @ ts \<Longrightarrow> raw_wts us acc \<Longrightarrow> live0 = int (sum_list (map iv_blocks acc)) + 1 \<Longrightarrow>
   entries_or_end ts rest r' live'"
  "cmp_array_from_buffer cell k rest n acc live0 = Some (r', live') \<Longrightarrow>
   raw_wts (replicate (length acc) cell) acc \<Longrightarrow> live0 = int (sum_list (map iv_blocks acc)) + 1 \<Longrightarrow>
   entries_or_end (replicate k cell) rest r' live'"
proof (induction ct buf and all ts rest n acc live0 and cell k rest n acc live0
    arbitrary: r live and us r' live' and r' live'
    rule: chrpc_inner_value_from_buffer_struct_from_buffer_cmp_array_from_buffer.induct)
  case (1 ct buf)
  show ?case
  proof (cases ct rule: chrpc_type_kinds)
    case str_array
    with "1.prems" str_array_sound show ?thesis by simp
  next
    case (cmp_array c)
    show ?thesis unfolding cmp_array(1)
    proof (rule cmp_array_sound)
      fix r' live' assume "4 \<le> length buf"
        and "cmp_array_from_buffer c (unat (le_u32 buf)) (drop 4 buf) 4 [] 1 = Some (r', live')"
      with "1.IH"(1) [OF _ cmp_array(1), of r' live'] cmp_array
      show "entries_or_end (replicate (unat (le_u32 buf)) c) (drop 4 buf) r' live'"
        by (cases "le_u32 buf = 0") (simp_all add: entries_or_end_def)
    qed (use "1.prems" cmp_array in simp_all)
  next
    case (struct ts)
    show ?thesis unfolding struct
    proof (rule struct_sound)
      fix r' live' assume "ts \<noteq> []" "struct_from_buffer ts ts buf 0 [] 1 = Some (r', live')"
      with "1.IH"(2) [OF _ struct, of r' live' "[]"] struct
      show "entries_or_end ts buf r' live'" by simp
    qed (use "1.prems" struct in simp)
  qed (use "1.prems" blockable_sound in simp_all)
next
  case (3 all t ts rest n acc live0)
  have us: "length us = length acc" using "3.prems"(3) by (simp add: raw_wts_list list_all2_lengthD)
  then have take: "take (length acc) all = us" using "3.prems"(2) by simp
  show ?case
  proof (rule entry_sound [OF "3.prems"(1) [unfolded struct_from_buffer.simps take] _ "3.prems"(3,4)])
    fix iv m l
    assume iv: "chrpc_inner_value_from_buffer t rest = Some (Inr (iv, m), l)" "raw_wt t iv"
      "l = int (iv_blocks iv)"
      "struct_from_buffer all ts (drop m rest) (n + m) (acc @ [iv]) (live0 + l) = Some (r', live')"
    show "entries_or_end ts (drop m rest) r' live'"
      by (rule "3.IH"(2) [OF iv(1) refl refl refl iv(4), of "us @ [t]"])
        (use iv "3.prems" us in \<open>simp_all add: raw_wts_list list_all2_appendI\<close>)
  qed (rule "3.IH"(1))
next
  case (5 cell k rest n acc live0)
  have "entries_or_end (cell # replicate k cell) rest r' live'"
  proof (rule entry_sound [OF "5.prems"(1) [unfolded cmp_array_from_buffer.simps] _ "5.prems"(2,3)])
    fix iv m l
    assume iv: "chrpc_inner_value_from_buffer cell rest = Some (Inr (iv, m), l)" "raw_wt cell iv"
      "l = int (iv_blocks iv)"
      "cmp_array_from_buffer cell k (drop m rest) (n + m) (acc @ [iv]) (live0 + l) = Some (r', live')"
    have "replicate (length (acc @ [iv])) cell = replicate (length acc) cell @ [cell]"
      by (simp add: replicate_append_same)
    then have "raw_wts (replicate (length (acc @ [iv])) cell) (acc @ [iv])"
      using iv(2) "5.prems"(2) by (simp add: raw_wts_list list_all2_appendI del: replicate_Suc)
    then show "entries_or_end (replicate k cell) (drop m rest) r' live'"
      by (rule "5.IH"(2) [OF iv(1) refl refl refl iv(4)]) (use iv(3) "5.prems"(3) in simp)
  qed (rule "5.IH"(1))
  then show ?case by simp
qed (auto simp: entries_or_end_def)

section \<open>Properties\<close>

definition wf_value :: "chrpc_value_t \<Rightarrow> bool" where
  "wf_value v \<longleftrightarrow> wf_type (v_type v) \<and> wt (v_type v) (v_value v)"

definition value_enc :: "chrpc_value_t \<Rightarrow> byte list" where
  "value_enc v = type_enc (v_type v) @ raw_enc (trim (v_type v) (v_value v))"

definition value_blocks :: "chrpc_value_t \<Rightarrow> nat" where
  "value_blocks v = delete_chrpc_type (v_type v) + iv_blocks (v_value v) + 1"

lemma value_writes:
  assumes "wf_value v"
  shows "writes (value_enc v) 0 buf (chrpc_value_to_buffer v buf)"
proof (cases "length (type_enc (v_type v)) \<le> length buf")
  case True
  let ?n = "length (type_enc (v_type v))"
  have "writes (raw_enc (trim (v_type v) (v_value v))) 0 (drop ?n buf)
      (chrpc_inner_value_to_buffer (v_type v) (v_value v) (drop ?n buf))"
    using assms by (intro inner_writes) (simp add: wf_value_def)
  with True show ?thesis
    by (auto simp: writes_def chrpc_value_to_buffer_def to_buffer_ok value_enc_def add.commute
        split: if_splits)
next
  case False
  then obtain w b where "chrpc_type_to_buffer (v_type v) buf = (CHRPC_BUFFER_TOO_SMALL, w, b)"
    using to_buffer_small(1) [of buf "v_type v"] by (metis linorder_not_le prod.collapse)
  with False to_buffer_length(1) [of "v_type v" buf] show ?thesis
    by (simp add: writes_def chrpc_value_to_buffer_def value_enc_def)
qed

lemma value_reads:
  assumes "wf_type ct" "raw_wt ct iv"
  shows "chrpc_value_from_buffer (type_enc ct @ raw_enc iv @ rest) =
    Some (Inr (\<lparr>v_type = ct, v_value = iv\<rparr>, length (type_enc ct) + length (raw_enc iv)),
          int (value_blocks \<lparr>v_type = ct, v_value = iv\<rparr>))"
  using raw_wt_reads(1) [OF assms(2)] from_buffer_ok [OF assms(1)]
  by (simp add: chrpc_value_from_buffer_def reads_def value_blocks_def)

lemma value_sound:
  assumes "chrpc_value_from_buffer buf = Some (r, live)"
  obtains e where "r = Inl e" "live = 0"
  | v n rest where "r = Inr (v, n)" "live = int (value_blocks v)" "wf_type (v_type v)"
      "raw_wt (v_type v) (v_value v)" "n = length (type_enc (v_type v)) + length (raw_enc (v_value v))"
      "buf = type_enc (v_type v) @ raw_enc (v_value v) @ rest"
proof -
  obtain rt lt where t: "chrpc_type_from_buffer buf = (rt, lt)" by fastforce
  show ?thesis
  proof (cases rt)
    case (Inl e)
    with t from_buffer_sound(1) [of buf] assms that(1) show ?thesis
      by (auto simp: chrpc_value_from_buffer_def)
  next
    case (Inr x)
    then obtain ct k where x: "rt = Inr (ct, k)" by (metis surj_pair)
    with t from_buffer_sound(1) [of buf] obtain rest where ct: "wf_type ct" "k = length (type_enc ct)"
      "buf = type_enc ct @ rest" "lt = int (delete_chrpc_type ct)" by auto
    from assms t x ct obtain r' l where r': "chrpc_inner_value_from_buffer ct rest = Some (r', l)"
      by (auto simp: chrpc_value_from_buffer_def split: Option.bind_splits)
    from reader_sound(1) [OF r'] r' show ?thesis
    proof (rule value_or_end_cases)
      assume "r' = Inl CHRPC_UNEXPECTED_END" "l = 0"
      with that(1) assms t x ct r' show ?thesis by (auto simp: chrpc_value_from_buffer_def)
    next
      fix iv rest'
      assume iv: "raw_wt ct iv" "rest = raw_enc iv @ rest'"
      with value_reads [OF ct(1) iv(1), of rest'] assms ct(1,3)
        that(2) [of "\<lparr>v_type = ct, v_value = iv\<rparr>" _ rest'] show ?thesis by simp
    qed
  qed
qed

lemma raw_enc_inject:
  assumes "raw_wt ct iv" "raw_wt ct iv'" "raw_enc iv = raw_enc iv'"
  shows "iv = iv'"
  using raw_wt_reads(1) [OF assms(1)] raw_wt_reads(1) [OF assms(2)] assms(3)
  by (simp add: reads_def)

lemma type_enc_prefix:
  assumes "wf_type ct" "wf_type ct'" "type_enc ct @ xs = type_enc ct' @ ys"
  shows "ct = ct' \<and> xs = ys"
proof -
  from from_buffer_ok [OF assms(1), of xs] from_buffer_ok [OF assms(2), of ys] assms(3)
  have "ct = ct'" by simp
  with assms(3) show ?thesis by simp
qed

text \<open>Writing a well-formed value puts exactly its type encoding followed by its value encoding
  at the start of the buffer, leaves every later byte alone and reports that length; if the buffer
  is too short by even one byte the result is \<open>CHRPC_BUFFER_TOO_SMALL\<close> and nothing is reported.\<close>

theorem value_writer_exact:
  assumes "wf_value v"
  shows "if length (value_enc v) \<le> length buf
    then chrpc_value_to_buffer v buf =
      Some (CHRPC_SUCCESS, Some (length (value_enc v)), value_enc v @ drop (length (value_enc v)) buf)
    else \<exists>b. length b = length buf \<and> chrpc_value_to_buffer v buf = Some (CHRPC_BUFFER_TOO_SMALL, None, b)"
  using value_writes [OF assms, of buf] by (auto simp: writes_def)

lemma value_writer_exact_witness:
  "chrpc_value_to_buffer \<lparr>v_type = Array CHRPC_STRING_T, v_value = IVStrArr [[104, 105, 0, 7]] 1\<rparr> (replicate 13 255) =
    Some (CHRPC_SUCCESS, Some 13, [11, 9, 1, 0, 0, 0, 3, 0, 0, 0, 104, 105, 0])"
  using value_writer_exact [of "\<lparr>v_type = Array CHRPC_STRING_T, v_value = IVStrArr [[104, 105, 0, 7]] 1\<rparr>"
      "replicate 13 255"]
  by (simp add: wf_value_def is_cstr_def cstr_def value_enc_def str_enc_def u32_le_def)

text \<open>C3. A value that was written reads back as a value of the same type that
  \<open>chrpc_value_equals\<close> finds equal, from exactly the bytes written, whatever follows them; deleting
  it frees exactly the blocks that reading it allocated.\<close>

theorem value_roundtrip:
  assumes "wf_value v" and "chrpc_value_to_buffer v buf = Some (CHRPC_SUCCESS, Some n, buf')"
  shows "\<exists>w. chrpc_value_from_buffer (take n buf' @ rest) = Some (Inr (w, n), int (value_blocks w)) \<and>
    v_type w = v_type v \<and> chrpc_value_equals False (Some v) (Some w) = Some True \<and>
    delete_chrpc_value w = Some (value_blocks w)"
proof -
  let ?w = "\<lparr>v_type = v_type v, v_value = trim (v_type v) (v_value v)\<rparr>"
  have v: "wf_type (v_type v)" "wt (v_type v) (v_value v)" using assms(1) by (simp_all add: wf_value_def)
  note w = trim_wt(1) [OF v(2)] and raw = trim_raw_wt(1) [OF v(2)]
  have enc: "n = length (value_enc v)" "take n buf' = value_enc v"
    using value_writes [OF assms(1), of buf] assms(2) by (auto simp: writes_def split: if_splits)
  then have "chrpc_value_from_buffer (take n buf' @ rest) = Some (Inr (?w, n), int (value_blocks ?w))"
    using value_reads [OF v(1) raw, of rest] by (simp add: value_enc_def)
  moreover have "chrpc_value_equals False (Some v) (Some ?w) = Some True"
    using equals_wt(1) [OF v(2), of "v_value ?w"] w by (simp add: chrpc_value_equals_def equals_ok)
  moreover have "delete_chrpc_value ?w = Some (value_blocks ?w)"
    using delete_wt(1) [OF conjunct1 [OF w]] delete_raw_wt(1) [OF raw]
    by (auto simp: delete_chrpc_value_def value_blocks_def)
  ultimately show ?thesis by (intro exI [of _ ?w]) simp
qed

theorem value_roundtrip_witness:
  "\<exists>w. chrpc_value_from_buffer ([10, 2, 1, 9, 5, 0, 2, 0, 0, 0, 65, 0] @ [9]) = Some (Inr (w, 12), int (value_blocks w)) \<and>
    v_type w = Struct [CHRPC_INT16_T, CHRPC_STRING_T] \<and> delete_chrpc_value w = Some (value_blocks w)"
proof -
  let ?v = "\<lparr>v_type = Struct [CHRPC_INT16_T, CHRPC_STRING_T], v_value = IVStruct [IVNumber [5, 0], IVStr [65, 0]]\<rparr>"
  have wf: "wf_value ?v"
    by (simp add: wf_value_def is_cstr_def cstr_def numeric_def chrpc_blockable_type_cell_size_def
        CHRPC_MAX_STRUCT_FIELDS_def)
  have "chrpc_value_to_buffer ?v (replicate 12 0) =
      Some (CHRPC_SUCCESS, Some 12, [10, 2, 1, 9, 5, 0, 2, 0, 0, 0, 65, 0])"
    using value_writes [OF wf, of "replicate 12 0"]
    by (simp add: writes_def value_enc_def str_enc_def u32_le_def cstr_def)
  from value_roundtrip [OF wf this, of "[9]"] show ?thesis by auto
qed

text \<open>C16. The reader takes any bytes.  What it accepts is a well-formed type followed by the one
  encoding of the value it returns, all of it inside the buffer, and the live blocks are those of
  the value; when it reports an error every block it allocated has been freed.\<close>

theorem value_reader_canonical:
  assumes "chrpc_value_from_buffer buf = Some (r, live)"
  shows "case r of
      Inl e \<Rightarrow> live = 0
    | Inr (v, n) \<Rightarrow> wf_type (v_type v) \<and> raw_wt (v_type v) (v_value v) \<and> n \<le> length buf \<and>
        take n buf = type_enc (v_type v) @ raw_enc (v_value v) \<and> live = int (value_blocks v)"
  using assms by (rule value_sound) auto

theorem value_reader_canonical_witness:
  "chrpc_value_from_buffer [11, 0, 2, 0, 0, 0, 7] = Some (Inl CHRPC_UNEXPECTED_END, 0)"
proof -
  have "numeric CHRPC_BYTE_T"
    by (simp add: numeric_def)
  then have "chrpc_inner_value_from_buffer (Array CHRPC_BYTE_T) [2, 0, 0, 0, 7] = Some (Inl CHRPC_UNEXPECTED_END, 0)"
    by (subst chrpc_inner_value_from_buffer.simps)
      (simp add: chrpc_block_array_inner_value_from_buffer_def chrpc_block_array_from_buffer_def
        chrpc_blockable_type_cell_size_def le_u32_def)
  moreover have "chrpc_type_from_buffer [11, 0, 2, 0, 0, 0, 7] = (Inr (Array CHRPC_BYTE_T, 2), 1)"
    using from_buffer_ok [of "Array CHRPC_BYTE_T" "[2, 0, 0, 0, 7]"] by simp
  ultimately obtain live where
    r: "chrpc_value_from_buffer [11, 0, 2, 0, 0, 0, 7] = Some (Inl CHRPC_UNEXPECTED_END, live)"
    by (simp add: chrpc_value_from_buffer_def)
  with value_reader_canonical [OF r] show ?thesis by simp
qed

text \<open>C28. On well-formed values \<open>chrpc_value_equals\<close> is always defined and says that the types are
  equal and the values have the same serialized bytes: unused ends of blocks and bytes after a
  terminator do not count.\<close>

theorem value_equals_same_bytes:
  assumes "wf_value v" "wf_value w"
  shows "chrpc_value_equals False (Some v) (Some w) = Some (value_enc v = value_enc w)"
proof (cases "v_type v = v_type w")
  case True
  let ?a = "trim (v_type v) (v_value v)" and ?b = "trim (v_type v) (v_value w)"
  have wt: "wt (v_type v) (v_value v)" "wt (v_type v) (v_value w)"
    using assms True by (simp_all add: wf_value_def)
  have "?a = ?b \<longleftrightarrow> raw_enc ?a = raw_enc ?b"
    using raw_enc_inject [OF trim_raw_wt(1) [OF wt(1)] trim_raw_wt(1) [OF wt(2)]] by metis
  then show ?thesis
    using equals_wt(1) [OF wt] by (simp add: True chrpc_value_equals_def equals_ok value_enc_def)
next
  case False
  have "value_enc v \<noteq> value_enc w"
    using type_enc_prefix [of "v_type v" "v_type w"] assms False
    by (auto simp: value_enc_def wf_value_def)
  with False show ?thesis by (simp add: chrpc_value_equals_def equals_ok)
qed

theorem value_equals_same_bytes_witness:
  "chrpc_value_equals False (Some \<lparr>v_type = CHRPC_STRING_T, v_value = IVStr [65, 0, 1]\<rparr>)
     (Some \<lparr>v_type = CHRPC_STRING_T, v_value = IVStr [65, 0, 2, 3]\<rparr>) = Some True"
  using value_equals_same_bytes [of "\<lparr>v_type = CHRPC_STRING_T, v_value = IVStr [65, 0, 1]\<rparr>"
      "\<lparr>v_type = CHRPC_STRING_T, v_value = IVStr [65, 0, 2, 3]\<rparr>"]
  by (simp add: wf_value_def is_cstr_def value_enc_def cstr_def)

text \<open>\<open>chrpc_value_to_buffer_with_length\<close> puts the number of bytes of the serialized value in
  front of it, so that a reader can skip it or take it apart; NULL is four zero bytes.\<close>

theorem value_with_length:
  assumes "wf_value v" "length (value_enc v) + 4 \<le> length buf" "length (value_enc v) < 2 ^ 32"
  shows "\<exists>b. chrpc_value_to_buffer_with_length (Some v) buf =
      Some (CHRPC_SUCCESS, Some (4 + length (value_enc v)), b) \<and>
    unat (le_u32 b) = length (value_enc v) \<and> take (unat (le_u32 b)) (drop 4 b) = value_enc v \<and>
    drop (4 + unat (le_u32 b)) b = drop (4 + length (value_enc v)) buf \<and>
    chrpc_value_to_buffer_with_length None buf = Some (CHRPC_SUCCESS, Some 4, [0, 0, 0, 0] @ drop 4 buf)"
proof -
  have "chrpc_value_to_buffer v (drop 4 buf) = Some (CHRPC_SUCCESS, Some (length (value_enc v)),
      value_enc v @ drop (length (value_enc v) + 4) buf)"
    using value_writes [OF assms(1), of "drop 4 buf"] assms(2) by (simp add: writes_def)
  with assms show ?thesis
    by (simp add: chrpc_value_to_buffer_with_length_def u32_le_def [of 0] add.commute)
qed

theorem value_with_length_witness:
  "\<exists>b. chrpc_value_to_buffer_with_length (Some \<lparr>v_type = CHRPC_BYTE_T, v_value = IVNumber [7]\<rparr>) [1, 1, 1, 1, 1, 1, 1] =
     Some (CHRPC_SUCCESS, Some 6, b) \<and> unat (le_u32 b) = 2"
proof -
  let ?v = "\<lparr>v_type = CHRPC_BYTE_T, v_value = IVNumber [7]\<rparr>"
  have "wf_value ?v" by (simp add: wf_value_def numeric_def chrpc_blockable_type_cell_size_def)
  from value_with_length [OF this, of "[1, 1, 1, 1, 1, 1, 1]"] show ?thesis
    by (auto simp: value_enc_def)
qed

text \<open>The strings of a value all have a terminator inside their block.\<close>

fun terminated :: "chrpc_inner_value_t \<Rightarrow> bool" where
  "terminated (IVNumber bs) \<longleftrightarrow> True"
| "terminated (IVStr s) \<longleftrightarrow> 0 \<in> set s"
| "terminated (IVNumArr b len) \<longleftrightarrow> True"
| "terminated (IVStrArr ss len) \<longleftrightarrow> (\<forall>s \<in> set ss. 0 \<in> set s)"
| "terminated (IVEntries ivs len) \<longleftrightarrow> (\<forall>iv \<in> set ivs. terminated iv)"
| "terminated (IVStruct ivs) \<longleftrightarrow> (\<forall>iv \<in> set ivs. terminated iv)"

lemma raw_wt_terminated:
  "raw_wt ct iv \<Longrightarrow> terminated iv \<Longrightarrow> wt ct iv"
  "raw_wts ts ivs \<Longrightarrow> \<forall>iv \<in> set ivs. terminated iv \<Longrightarrow> wts ts ivs"
proof (induction ct iv and ts ivs rule: raw_wt_raw_wts.induct)
  case (2 ct s)
  then show ?case using c_strlen_cstr(3) [of s] by (simp add: is_cstr_def)
next
  case (4 ct ss len)
  have "is_cstr s" if "s \<in> set ss" for s
    using 4 c_strlen_cstr(3) [of s] that by (fastforce simp: is_cstr_def)
  with 4 show ?case by simp
next
  case (5 ct ivs len)
  then show ?case by (auto split: chrpc_type_t.splits)
next
  case (6 ct ivs)
  then show ?case by (auto split: chrpc_type_t.splits)
qed (simp_all split: chrpc_type_t.splits)

text \<open>C27. A value that was read and whose strings are all terminated is well-formed: it can be
  compared, written and deleted, and deleting it frees exactly what reading it left allocated.\<close>

theorem read_value_usable:
  assumes "chrpc_value_from_buffer buf = Some (Inr (v, n), live)" "terminated (v_value v)"
  shows "wf_value v \<and> (\<exists>k. delete_chrpc_value v = Some k \<and> live = int k)"
proof -
  from assms(1) have v: "wf_type (v_type v)" "raw_wt (v_type v) (v_value v)" "live = int (value_blocks v)"
    by (rule value_sound, simp_all)+
  note wt = raw_wt_terminated(1) [OF v(2) assms(2)]
  obtain k where k: "delete_chrpc_inner_value (v_type v) (v_value v) = Some k"
    using delete_wt(1) [OF wt] by blast
  with delete_raw_wt(1) [OF v(2) k] v wt show ?thesis
    by (simp add: wf_value_def delete_chrpc_value_def value_blocks_def)
qed

theorem read_value_usable_witness:
  "\<exists>v live. chrpc_value_from_buffer [9, 2, 0, 0, 0, 65, 0] = Some (Inr (v, 7), live) \<and>
     (\<exists>k. delete_chrpc_value v = Some k \<and> live = int k)"
proof -
  let ?v = "\<lparr>v_type = CHRPC_STRING_T, v_value = IVStr [65, 0]\<rparr>"
  have "chrpc_value_from_buffer [9, 2, 0, 0, 0, 65, 0] = Some (Inr (?v, 7), int (value_blocks ?v))"
    using value_reads [of CHRPC_STRING_T "IVStr [65, 0]" "[]"] by (simp add: str_enc_def u32_le_def)
  from read_value_usable [OF this] this show ?thesis by auto
qed

text \<open>C26. Strings are read without looking for a terminator.  A string value whose bytes hold no zero is
  accepted, whatever they are and whatever follows them (length zero gives a NULL pointer), and then
  deleting the value, writing it into a buffer with room for its type and comparing it with any other string is
  undefined; and in a struct whose next field is cut off the reader's own clean-up is undefined
  already, so eight bytes from the network are enough.\<close>

theorem unterminated_string_undefined:
  assumes "0 \<notin> set bs" "length bs < 2 ^ 32" "buf \<noteq> []" "numeric t"
    and "length short < chrpc_blockable_type_cell_size t"
  shows "chrpc_value_from_buffer (9 # u32_le (of_nat (length bs)) @ bs @ rest) =
      Some (Inr (\<lparr>v_type = CHRPC_STRING_T, v_value = IVStr bs\<rparr>, 5 + length bs),
            if bs = [] then 2 else 3) \<and>
    delete_chrpc_value \<lparr>v_type = CHRPC_STRING_T, v_value = IVStr bs\<rparr> = None \<and>
    chrpc_value_to_buffer \<lparr>v_type = CHRPC_STRING_T, v_value = IVStr bs\<rparr> buf = None \<and>
    chrpc_value_equals False (Some \<lparr>v_type = CHRPC_STRING_T, v_value = IVStr bs\<rparr>)
      (Some \<lparr>v_type = CHRPC_STRING_T, v_value = other\<rparr>) = None \<and>
    chrpc_value_from_buffer ([10, 2, 9, type_id t] @ u32_le (of_nat (length bs)) @ bs @ short) = None"
proof -
  have strlen: "c_strlen (map Some bs) = None" using assms(1) by (induction bs) auto
  have block: "chrpc_inner_value_to_block_value CHRPC_STRING_T (IVStr bs) = None"
    by (simp add: chrpc_inner_value_to_block_value_def strlen)
  have wt: "raw_wt CHRPC_STRING_T (IVStr bs)" using assms(2) by simp
  have s: "chrpc_value_from_buffer (9 # u32_le (of_nat (length bs)) @ bs @ rest) =
     Some (Inr (\<lparr>v_type = CHRPC_STRING_T, v_value = IVStr bs\<rparr>, 5 + length bs), if bs = [] then 2 else 3)"
    using value_reads [OF _ wt, of rest] by (simp add: str_enc_def value_blocks_def frees_def)
  have d: "delete_chrpc_inner_value CHRPC_STRING_T (IVStr bs) = None"
    by (simp add: delete_chrpc_inner_value.simps block)
  have w: "chrpc_value_to_buffer \<lparr>v_type = CHRPC_STRING_T, v_value = IVStr bs\<rparr> buf = None"
    using assms(3) to_buffer_ok(1) [of CHRPC_STRING_T buf]
    by (cases buf) (simp_all add: chrpc_value_to_buffer_def chrpc_inner_value_to_buffer.simps block)
  have e: "chrpc_value_equals False (Some \<lparr>v_type = CHRPC_STRING_T, v_value = IVStr bs\<rparr>)
      (Some \<lparr>v_type = CHRPC_STRING_T, v_value = other\<rparr>) = None"
    by (simp add: chrpc_value_equals_def equals_ok(1) chrpc_inner_value_equals.simps block)
  have str: "chrpc_inner_value_from_buffer CHRPC_STRING_T (u32_le (of_nat (length bs)) @ bs @ short) =
      Some (Inr (IVStr bs, 4 + length bs), int (iv_blocks (IVStr bs)))"
    using raw_wt_reads(1) [OF wt] by (simp add: reads_def str_enc_def)
  have cut: "chrpc_inner_value_from_buffer t short = Some (Inl CHRPC_UNEXPECTED_END, 0)"
    using assms(4,5) by (subst chrpc_inner_value_from_buffer.simps)
      (cases t; simp add: numeric_def chrpc_numeric_inner_value_from_buffer_def
        chrpc_inner_value_to_block_value_def chrpc_blockable_type_cell_size_def)
  have t: "chrpc_type_from_buffer ([10, 2, 9, type_id t] @ u32_le (of_nat (length bs)) @ bs @ short) =
      (Inr (Struct [CHRPC_STRING_T, t], 4), 3)"
    using from_buffer_ok [of "Struct [CHRPC_STRING_T, t]" "u32_le (of_nat (length bs)) @ bs @ short"]
      prim_enc [of t] assms(4) by (simp add: CHRPC_MAX_STRUCT_FIELDS_def numeric_def)
  have "chrpc_inner_value_from_buffer (Struct [CHRPC_STRING_T, t]) (u32_le (of_nat (length bs)) @ bs @ short) = None"
    by (subst chrpc_inner_value_from_buffer.simps) (simp add: str cut d)
  with s d w e t show ?thesis by (simp add: chrpc_value_from_buffer_def delete_chrpc_value_def)
qed

theorem unterminated_string_undefined_witness:
  "chrpc_value_from_buffer (9 # u32_le 2 @ [65, 66, 1]) =
      Some (Inr (\<lparr>v_type = CHRPC_STRING_T, v_value = IVStr [65, 66]\<rparr>, 7), 3) \<and>
    delete_chrpc_value \<lparr>v_type = CHRPC_STRING_T, v_value = IVStr [65, 66]\<rparr> = None \<and>
    chrpc_value_to_buffer \<lparr>v_type = CHRPC_STRING_T, v_value = IVStr [65, 66]\<rparr> [0] = None \<and>
    chrpc_value_equals False (Some \<lparr>v_type = CHRPC_STRING_T, v_value = IVStr [65, 66]\<rparr>)
      (Some \<lparr>v_type = CHRPC_STRING_T, v_value = IVStr [65, 0]\<rparr>) = None \<and>
    chrpc_value_from_buffer ([10, 2, 9, type_id CHRPC_INT16_T] @ u32_le 2 @ [65, 66, 7]) = None"
  using unterminated_string_undefined [of "[65, 66]" "[0]" CHRPC_INT16_T "[7]" "[1]" "IVStr [65, 0]"]
  by (simp add: numeric_def chrpc_blockable_type_cell_size_def)

end
