(* ===== verification/Chrpc_Construct.thy ===== *)
theory Chrpc_Construct
  imports Chrpc_Value
begin

text \<open>
  The constructors of serialized values (\<open>chrpc/src/serial_value.c\<close>).  A result is the new value
  and the number of blocks allocated minus the number freed by the call; NULL results are
  \<open>None\<close>.  Signed and floating-point numbers are their bit patterns.  A caller's array of numbers
  is the list of its cells, a caller's array of pointers the list of what they point to; the
  variable arguments of a call are a list.  The numeric arguments of a variable argument list
  are read as 64-bit words and truncated; the conversion from \<open>double\<close> to \<open>float\<close> in the
  \<open>f32\<close> version is the parameter \<open>to_float\<close>.
\<close>

section \<open>Numbers\<close>

definition word_bytes :: "nat \<Rightarrow> 'a::len word \<Rightarrow> byte list" where
  "word_bytes n w = map (\<lambda>i. ucast (drop_bit (8 * i) w)) [0..<n]"

definition cells_bytes :: "nat \<Rightarrow> 'a::len word list \<Rightarrow> byte list" where
  "cells_bytes n ws = concat (map (word_bytes n) ws)"

type_synonym new_value = "chrpc_value_t \<times> int"

definition new_chrpc_value_from_pair :: "chrpc_type_t \<Rightarrow> chrpc_inner_value_t \<Rightarrow> new_value" where
  "new_chrpc_value_from_pair ct iv = (\<lparr>v_type = ct, v_value = iv\<rparr>, 1)"

text \<open>\<open>iv_value\<close> also counts the inner value, \<open>iv_array_value\<close> the array type as well.\<close>

definition iv_value :: "chrpc_type_t \<Rightarrow> chrpc_inner_value_t \<Rightarrow> new_value" where
  "iv_value ct iv = (case new_chrpc_value_from_pair ct iv of (v, n) \<Rightarrow> (v, n + 1))"

definition iv_array_value :: "chrpc_type_t \<Rightarrow> chrpc_inner_value_t \<Rightarrow> new_value" where
  "iv_array_value cell iv = (case new_chrpc_value_from_pair (Array cell) iv of (v, n) \<Rightarrow> (v, n + 1 + 1))"

text \<open>The cells that \<open>VA_POPULATE\<close> fills, and the block that holds them.\<close>

definition va_populate :: "(u64 \<Rightarrow> 'a::len word) \<Rightarrow> u64 list \<Rightarrow> 'a word list" where
  "va_populate cast args = map cast (take (unat (of_nat (length args) :: u32)) args)"

definition new_chrpc_b8_value :: "8 word \<Rightarrow> new_value" where
  "new_chrpc_b8_value val = iv_value CHRPC_BYTE_T (IVNumber (word_bytes 1 val))"

definition new_chrpc_b8_array_value :: "8 word list \<Rightarrow> u32 \<Rightarrow> new_value" where
  "new_chrpc_b8_array_value arr len = iv_array_value CHRPC_BYTE_T (IVNumArr (cells_bytes 1 arr) len)"

definition new_chrpc_b8_array_value_va :: "u64 list \<Rightarrow> new_value" where
  "new_chrpc_b8_array_value_va args =
     (let arr = va_populate ucast args
      in case new_chrpc_b8_array_value arr (of_nat (length args)) of
           (v, n) \<Rightarrow> (v, n + int (frees arr)))"

definition new_chrpc_i16_value :: "16 word \<Rightarrow> new_value" where
  "new_chrpc_i16_value val = iv_value CHRPC_INT16_T (IVNumber (word_bytes 2 val))"

definition new_chrpc_i16_array_value :: "16 word list \<Rightarrow> u32 \<Rightarrow> new_value" where
  "new_chrpc_i16_array_value arr len = iv_array_value CHRPC_INT16_T (IVNumArr (cells_bytes 2 arr) len)"

definition new_chrpc_i16_array_value_va :: "u64 list \<Rightarrow> new_value" where
  "new_chrpc_i16_array_value_va args =
     (let arr = va_populate ucast args
      in case new_chrpc_i16_array_value arr (of_nat (length args)) of
           (v, n) \<Rightarrow> (v, n + int (frees arr)))"

definition new_chrpc_i32_value :: "32 word \<Rightarrow> new_value" where
  "new_chrpc_i32_value val = iv_value CHRPC_INT32_T (IVNumber (word_bytes 4 val))"

definition new_chrpc_i32_array_value :: "32 word list \<Rightarrow> u32 \<Rightarrow> new_value" where
  "new_chrpc_i32_array_value arr len = iv_array_value CHRPC_INT32_T (IVNumArr (cells_bytes 4 arr) len)"

definition new_chrpc_i32_array_value_va :: "u64 list \<Rightarrow> new_value" where
  "new_chrpc_i32_array_value_va args =
     (let arr = va_populate ucast args
      in case new_chrpc_i32_array_value arr (of_nat (length args)) of
           (v, n) \<Rightarrow> (v, n + int (frees arr)))"

definition new_chrpc_i64_value :: "64 word \<Rightarrow> new_value" where
  "new_chrpc_i64_value val = iv_value CHRPC_INT64_T (IVNumber (word_bytes 8 val))"

definition new_chrpc_i64_array_value :: "64 word list \<Rightarrow> u32 \<Rightarrow> new_value" where
  "new_chrpc_i64_array_value arr len = iv_array_value CHRPC_INT64_T (IVNumArr (cells_bytes 8 arr) len)"

definition new_chrpc_i64_array_value_va :: "u64 list \<Rightarrow> new_value" where
  "new_chrpc_i64_array_value_va args =
     (let arr = va_populate id args
      in case new_chrpc_i64_array_value arr (of_nat (length args)) of
           (v, n) \<Rightarrow> (v, n + int (frees arr)))"

definition new_chrpc_u16_value :: "16 word \<Rightarrow> new_value" where
  "new_chrpc_u16_value val = iv_value CHRPC_UINT16_T (IVNumber (word_bytes 2 val))"

definition new_chrpc_u16_array_value :: "16 word list \<Rightarrow> u32 \<Rightarrow> new_value" where
  "new_chrpc_u16_array_value arr len = iv_array_value CHRPC_UINT16_T (IVNumArr (cells_bytes 2 arr) len)"

definition new_chrpc_u16_array_value_va :: "u64 list \<Rightarrow> new_value" where
  "new_chrpc_u16_array_value_va args =
     (let arr = va_populate ucast args
      in case new_chrpc_u16_array_value arr (of_nat (length args)) of
           (v, n) \<Rightarrow> (v, n + int (frees arr)))"

definition new_chrpc_u32_value :: "32 word \<Rightarrow> new_value" where
  "new_chrpc_u32_value val = iv_value CHRPC_UINT32_T (IVNumber (word_bytes 4 val))"

definition new_chrpc_u32_array_value :: "32 word list \<Rightarrow> u32 \<Rightarrow> new_value" where
  "new_chrpc_u32_array_value arr len = iv_array_value CHRPC_UINT32_T (IVNumArr (cells_bytes 4 arr) len)"

definition new_chrpc_u32_array_value_va :: "u64 list \<Rightarrow> new_value" where
  "new_chrpc_u32_array_value_va args =
     (let arr = va_populate ucast args
      in case new_chrpc_u32_array_value arr (of_nat (length args)) of
           (v, n) \<Rightarrow> (v, n + int (frees arr)))"

definition new_chrpc_u64_value :: "64 word \<Rightarrow> new_value" where
  "new_chrpc_u64_value val = iv_value CHRPC_UINT64_T (IVNumber (word_bytes 8 val))"

definition new_chrpc_u64_array_value :: "64 word list \<Rightarrow> u32 \<Rightarrow> new_value" where
  "new_chrpc_u64_array_value arr len = iv_array_value CHRPC_UINT64_T (IVNumArr (cells_bytes 8 arr) len)"

definition new_chrpc_u64_array_value_va :: "u64 list \<Rightarrow> new_value" where
  "new_chrpc_u64_array_value_va args =
     (let arr = va_populate id args
      in case new_chrpc_u64_array_value arr (of_nat (length args)) of
           (v, n) \<Rightarrow> (v, n + int (frees arr)))"

definition new_chrpc_f32_value :: "32 word \<Rightarrow> new_value" where
  "new_chrpc_f32_value val = iv_value CHRPC_FLOAT32_T (IVNumber (word_bytes 4 val))"

definition new_chrpc_f32_array_value :: "32 word list \<Rightarrow> u32 \<Rightarrow> new_value" where
  "new_chrpc_f32_array_value arr len = iv_array_value CHRPC_FLOAT32_T (IVNumArr (cells_bytes 4 arr) len)"

definition new_chrpc_f32_array_value_va :: "(u64 \<Rightarrow> u32) \<Rightarrow> u64 list \<Rightarrow> new_value" where
  "new_chrpc_f32_array_value_va to_float args =
     (let arr = va_populate to_float args
      in case new_chrpc_f32_array_value arr (of_nat (length args)) of
           (v, n) \<Rightarrow> (v, n + int (frees arr)))"

definition new_chrpc_f64_value :: "64 word \<Rightarrow> new_value" where
  "new_chrpc_f64_value val = iv_value CHRPC_FLOAT64_T (IVNumber (word_bytes 8 val))"

definition new_chrpc_f64_array_value :: "64 word list \<Rightarrow> u32 \<Rightarrow> new_value" where
  "new_chrpc_f64_array_value arr len = iv_array_value CHRPC_FLOAT64_T (IVNumArr (cells_bytes 8 arr) len)"

definition new_chrpc_f64_array_value_va :: "u64 list \<Rightarrow> new_value" where
  "new_chrpc_f64_array_value_va args =
     (let arr = va_populate id args
      in case new_chrpc_f64_array_value arr (of_nat (length args)) of
           (v, n) \<Rightarrow> (v, n + int (frees arr)))"

section \<open>Strings\<close>

text \<open>\<open>strcpy\<close> into a fresh block of \<open>strlen + 1\<close> bytes; an argument without a terminator is undefined.\<close>

definition dup_cstr :: "byte list \<Rightarrow> byte list option" where
  "dup_cstr s = do { n \<leftarrow> c_strlen (map Some s); Some (take (n + 1) s) }"

definition new_chrpc_str_value :: "byte list \<Rightarrow> new_value option" where
  "new_chrpc_str_value str_val =
     do { new_str \<leftarrow> dup_cstr str_val;
          Some (case iv_value CHRPC_STRING_T (IVStr new_str) of (v, n) \<Rightarrow> (v, n + 1)) }"

definition new_chrpc_str_array_value :: "byte list list \<Rightarrow> u32 \<Rightarrow> new_value" where
  "new_chrpc_str_array_value arr len = iv_array_value CHRPC_STRING_T (IVStrArr arr len)"

fun dup_cstrs :: "byte list list \<Rightarrow> byte list list option" where
  "dup_cstrs [] = Some []"
| "dup_cstrs (s # ss) = do { c \<leftarrow> dup_cstr s; cs \<leftarrow> dup_cstrs ss; Some (c # cs) }"

definition new_chrpc_str_array_value_va :: "byte list list \<Rightarrow> new_value option" where
  "new_chrpc_str_array_value_va args =
     do { arr \<leftarrow> dup_cstrs args;
          Some (case new_chrpc_str_array_value arr (of_nat (length arr)) of
                  (v, n) \<Rightarrow> (v, n + int (length arr) + int (frees arr))) }"

section \<open>Composite values\<close>

text \<open>
  The results of the composite constructors: undefined behaviour, or NULL or the value, with the
  balance of blocks.  When NULL is returned the caller keeps the arguments, except in the \<open>_va\<close>
  versions, which delete them.
\<close>

definition new_chrpc_composite_empty_array_value :: "chrpc_type_t \<Rightarrow> chrpc_value_t option \<times> int" where
  "new_chrpc_composite_empty_array_value t =
     (if type_id t \<noteq> CHRPC_ARRAY_TID \<and> type_id t \<noteq> CHRPC_STRUCT_TID then (None, 0)
      else case iv_array_value t (IVEntries [] 0) of (v, n) \<Rightarrow> (Some v, n))"

definition new_chrpc_composite_nempty_array_value ::
    "chrpc_value_t list \<Rightarrow> u32 \<Rightarrow> (chrpc_value_t option \<times> int) option" where
  "new_chrpc_composite_nempty_array_value entries num_entries =
     (if num_entries = 0 then Some (None, 0)
      else if length entries < unat num_entries then None
      else
        let es = take (unat num_entries) entries;
            cell_type = v_type (es ! 0)
        in if type_id cell_type \<noteq> CHRPC_ARRAY_TID \<and> type_id cell_type \<noteq> CHRPC_STRUCT_TID then Some (None, 0)
           else if \<not> list_all (\<lambda>e. chrpc_type_equals cell_type (v_type e)) (tl es) then Some (None, 0)
           else
             let freed = sum_list (map (delete_chrpc_type \<circ> v_type) (tl es)) + length es + 1
             in case iv_array_value cell_type (IVEntries (map v_value es) num_entries) of
                  (v, n) \<Rightarrow> Some (Some v, n + 1 - int freed))"

fun delete_all :: "chrpc_value_t list \<Rightarrow> nat option" where
  "delete_all [] = Some 0"
| "delete_all (v # vs) = do { n \<leftarrow> delete_chrpc_value v; m \<leftarrow> delete_all vs; Some (n + m) }"

definition new_chrpc_composite_nempty_array_value_va ::
    "chrpc_value_t list \<Rightarrow> (chrpc_value_t option \<times> int) option" where
  "new_chrpc_composite_nempty_array_value_va args =
     (let len = of_nat (length args) :: u32
      in if len = 0 then Some (None, 0)
         else do {
           (ret_val, n) \<leftarrow> new_chrpc_composite_nempty_array_value args len;
           (case ret_val of
              None \<Rightarrow> do { freed \<leftarrow> delete_all (take (unat len) args); Some (None, n + 1 - int freed - 1) }
            | Some v \<Rightarrow> Some (Some v, n + 1)) })"

definition new_chrpc_struct_value ::
    "chrpc_value_t list \<Rightarrow> byte \<Rightarrow> (chrpc_value_t option \<times> int) option" where
  "new_chrpc_struct_value struct_fields num_fields =
     (if num_fields < 1 \<or> CHRPC_MAX_STRUCT_FIELDS < unat num_fields then Some (None, 0)
      else if length struct_fields < unat num_fields then None
      else
        let fs = take (unat num_fields) struct_fields
        in case iv_value (Struct (map v_type fs)) (IVStruct (map v_value fs)) of
             (v, n) \<Rightarrow> Some (Some v, n + 2 + 2 - int (length fs + 1)))"

definition new_chrpc_struct_value_va :: "chrpc_value_t list \<Rightarrow> (chrpc_value_t option \<times> int) option" where
  "new_chrpc_struct_value_va args =
     (let len = length args; list_block = int (frees args)
      in if len < 1 \<or> CHRPC_MAX_STRUCT_FIELDS < len then do {
           freed \<leftarrow> delete_all args; Some (None, list_block - int freed - list_block) }
         else do {
           (ret_val, n) \<leftarrow> new_chrpc_struct_value args (of_nat len);
           Some (ret_val, n + list_block) })"

section \<open>What the constructors make\<close>

text \<open>A well-formed value whose blocks are those the constructor allocated.\<close>

definition sound_value :: "new_value \<Rightarrow> bool" where
  "sound_value r \<longleftrightarrow> wf_value (fst r) \<and> snd r = int (value_blocks (fst r))"

lemma length_word_bytes [simp]: "length (word_bytes n w) = n"
  by (simp add: word_bytes_def)

lemma length_cells_bytes [simp]: "length (cells_bytes n ws) = n * length ws"
  by (induction ws) (simp_all add: cells_bytes_def)

lemma va_populate_all: "length args < 2 ^ 32 \<Longrightarrow> va_populate cast args = map cast args"
  by (simp add: va_populate_def)

lemma frees_length: "length xs = length ys \<Longrightarrow> frees xs = frees ys"
  by (metis frees_def length_0_conv)

lemma frees_cells: "0 < n \<Longrightarrow> frees (cells_bytes n ws) = frees ws"
  using length_cells_bytes [of n ws] by (cases ws) (auto simp: frees_def simp del: length_cells_bytes)

lemma numeric_kinds [simp]:
  "numeric CHRPC_BYTE_T" "numeric CHRPC_INT16_T" "numeric CHRPC_INT32_T" "numeric CHRPC_INT64_T"
  "numeric CHRPC_UINT16_T" "numeric CHRPC_UINT32_T" "numeric CHRPC_UINT64_T"
  "numeric CHRPC_FLOAT32_T" "numeric CHRPC_FLOAT64_T"
  by (simp_all add: numeric_def)

lemma cell_sizes [simp]:
  "cell_size CHRPC_BYTE_T = 1" "cell_size CHRPC_INT16_T = 2" "cell_size CHRPC_INT32_T = 4"
  "cell_size CHRPC_INT64_T = 8" "cell_size CHRPC_UINT16_T = 2" "cell_size CHRPC_UINT32_T = 4"
  "cell_size CHRPC_UINT64_T = 8" "cell_size CHRPC_FLOAT32_T = 4" "cell_size CHRPC_FLOAT64_T = 8"
  by (simp_all add: chrpc_blockable_type_cell_size_def)

lemma numeric_blocks: "numeric ct \<Longrightarrow> delete_chrpc_type ct = 0 \<and> wf_type ct"
  using prim_enc [of ct] by (simp add: numeric_def)

lemma sound_number: "numeric ct \<Longrightarrow> n = cell_size ct \<Longrightarrow> sound_value (iv_value ct (IVNumber (word_bytes n w)))"
  using numeric_blocks [of ct]
  by (simp add: sound_value_def iv_value_def new_chrpc_value_from_pair_def wf_value_def value_blocks_def)

lemma sound_num_array:
  assumes "numeric ct" "n = cell_size ct" "length args < 2 ^ 32"
  shows "sound_value (case iv_array_value ct (IVNumArr (cells_bytes n (va_populate cast args)) (of_nat (length args)))
    of (v, k) \<Rightarrow> (v, k + int (frees (va_populate cast args))))"
  using assms numeric_blocks [of ct] cell_size_pos [of ct]
  by (simp add: sound_value_def iv_array_value_def new_chrpc_value_from_pair_def wf_value_def
      value_blocks_def va_populate_all frees_cells)

lemmas numeric_constructors =
  new_chrpc_b8_value_def new_chrpc_b8_array_value_def new_chrpc_b8_array_value_va_def
  new_chrpc_i16_value_def new_chrpc_i16_array_value_def new_chrpc_i16_array_value_va_def
  new_chrpc_i32_value_def new_chrpc_i32_array_value_def new_chrpc_i32_array_value_va_def
  new_chrpc_i64_value_def new_chrpc_i64_array_value_def new_chrpc_i64_array_value_va_def
  new_chrpc_u16_value_def new_chrpc_u16_array_value_def new_chrpc_u16_array_value_va_def
  new_chrpc_u32_value_def new_chrpc_u32_array_value_def new_chrpc_u32_array_value_va_def
  new_chrpc_u64_value_def new_chrpc_u64_array_value_def new_chrpc_u64_array_value_va_def
  new_chrpc_f32_value_def new_chrpc_f32_array_value_def new_chrpc_f32_array_value_va_def
  new_chrpc_f64_value_def new_chrpc_f64_array_value_def new_chrpc_f64_array_value_va_def

text \<open>Every numeric constructor, from one number or from a variable argument list of any length
  below 2^32 (the empty one gives the NULL block), makes a well-formed value of its type, and the
  blocks it allocates are exactly those of the value.\<close>

theorem numeric_constructors_sound:
  assumes "length args < 2 ^ 32"
  shows "sound_value (new_chrpc_b8_value w_b8) \<and>
   sound_value (new_chrpc_i16_value w_i16) \<and>
   sound_value (new_chrpc_i32_value w_i32) \<and>
   sound_value (new_chrpc_i64_value w_i64) \<and>
   sound_value (new_chrpc_u16_value w_u16) \<and>
   sound_value (new_chrpc_u32_value w_u32) \<and>
   sound_value (new_chrpc_u64_value w_u64) \<and>
   sound_value (new_chrpc_f32_value w_f32) \<and>
   sound_value (new_chrpc_f64_value w_f64) \<and>
   sound_value (new_chrpc_b8_array_value_va args) \<and>
   sound_value (new_chrpc_i16_array_value_va args) \<and>
   sound_value (new_chrpc_i32_array_value_va args) \<and>
   sound_value (new_chrpc_i64_array_value_va args) \<and>
   sound_value (new_chrpc_u16_array_value_va args) \<and>
   sound_value (new_chrpc_u32_array_value_va args) \<and>
   sound_value (new_chrpc_u64_array_value_va args) \<and>
   sound_value (new_chrpc_f32_array_value_va to_float args) \<and>
   sound_value (new_chrpc_f64_array_value_va args)"
  using assms unfolding numeric_constructors Let_def by (intro conjI sound_number sound_num_array) simp_all

theorem numeric_constructors_sound_witness:
  "wf_value (fst (new_chrpc_i16_array_value_va [5, 70000])) \<and>
   v_value (fst (new_chrpc_i16_array_value_va [5, 70000])) = IVNumArr [5, 0, 112, 17] 2"
  using numeric_constructors_sound [of "[5, 70000]" 0 0 0 0 0 0 0 0 0 ucast]
  by (simp add: sound_value_def numeric_constructors va_populate_def iv_array_value_def Let_def
      new_chrpc_value_from_pair_def cells_bytes_def word_bytes_def upt_rec)

subsection \<open>Strings\<close>

lemma dup_cstr_ok: "0 \<in> set s \<Longrightarrow> dup_cstr s = Some (cstr s)"
  using c_strlen_cstr [of s] by (simp add: dup_cstr_def)

lemma dup_cstrs_ok: "\<forall>s \<in> set ss. 0 \<in> set s \<Longrightarrow> dup_cstrs ss = Some (map cstr ss)"
  by (induction ss) (simp_all add: dup_cstr_ok)

lemma sum_frees_cstr: "sum_list (map (frees \<circ> cstr) ss) = length ss"
  by (induction ss) (simp_all add: frees_def)

text \<open>The string constructors copy their arguments up to and including the terminator; the
  argument's own block is not shared, and the blocks allocated are those of the value.\<close>

theorem string_constructors_sound:
  assumes "is_cstr s" "\<forall>t \<in> set ts. is_cstr t" "length ts < 2 ^ 32"
  shows "\<exists>r r'. new_chrpc_str_value s = Some r \<and> sound_value r \<and> v_value (fst r) = IVStr (cstr s) \<and>
    new_chrpc_str_array_value_va ts = Some r' \<and> sound_value r' \<and>
    v_value (fst r') = IVStrArr (map cstr ts) (of_nat (length ts))"
proof -
  have "0 \<in> set s" "\<forall>t \<in> set ts. 0 \<in> set t" using assms by (simp_all add: is_cstr_def)
  moreover have "frees (map cstr ts) = frees ts" by (rule frees_length) simp
  moreover have "frees (cstr s) = 1" by (simp add: frees_def)
  ultimately show ?thesis using assms
    by (simp add: new_chrpc_str_value_def new_chrpc_str_array_value_va_def new_chrpc_str_array_value_def
        dup_cstr_ok dup_cstrs_ok iv_value_def iv_array_value_def new_chrpc_value_from_pair_def
        sound_value_def wf_value_def value_blocks_def sum_frees_cstr)
qed

theorem string_constructors_sound_witness:
  "\<exists>r. new_chrpc_str_value [72, 105, 0, 9] = Some r \<and> v_value (fst r) = IVStr [72, 105, 0]"
  using string_constructors_sound [of "[72, 105, 0, 9]" "[]"] by (simp add: is_cstr_def cstr_def) metis

subsection \<open>Composite values\<close>

abbreviation total_blocks :: "chrpc_value_t list \<Rightarrow> int" where
  "total_blocks vs \<equiv> int (sum_list (map value_blocks vs))"

lemma total_blocks_split:
  "total_blocks vs = int (sum_list (map (delete_chrpc_type \<circ> v_type) vs)) +
     int (sum_list (map (iv_blocks \<circ> v_value) vs)) + int (length vs)"
  by (induction vs) (simp_all add: value_blocks_def)

lemma delete_all_wf: "\<forall>v \<in> set vs. wf_value v \<Longrightarrow> \<exists>n. delete_all vs = Some n"
proof (induction vs)
  case (Cons v vs)
  then show ?case using delete_wt(1) [of "v_type v" "v_value v"]
    by (auto simp: wf_value_def delete_chrpc_value_def)
qed simp

lemma wts_map: "\<forall>v \<in> set vs. wt (v_type v) (v_value v) \<Longrightarrow> wts (map v_type vs) (map v_value vs)"
  by (induction vs) simp_all

lemma struct_tid [simp]: "type_id ct = CHRPC_STRUCT_TID \<longleftrightarrow> (\<exists>ts. ct = Struct ts)"
  by (cases ct) simp_all

lemma composite_tid: "(\<forall>c. ct \<noteq> Array c) \<and> (\<forall>ts. ct \<noteq> Struct ts) \<longleftrightarrow> \<not> composite ct"
  by (cases ct) (simp_all add: composite_def)

text \<open>A non-empty array of composites is made from values exactly when they all have the same
  composite type; it is then well-formed, holds their inner values in order and consists of their
  blocks plus those allocated minus those freed.  Otherwise the result is NULL and the values have
  been deleted.\<close>

theorem composite_array_sound:
  assumes "\<forall>v \<in> set vs. wf_value v" "length vs < 2 ^ 32" "vs \<noteq> []"
  shows "if composite (v_type (hd vs)) \<and> (\<forall>v \<in> set vs. v_type v = v_type (hd vs))
    then \<exists>v n. new_chrpc_composite_nempty_array_value_va vs = Some (Some v, n) \<and> wf_value v \<and>
      v_type v = Array (v_type (hd vs)) \<and> v_value v = IVEntries (map v_value vs) (of_nat (length vs)) \<and>
      int (value_blocks v) = total_blocks vs + n
    else \<exists>k. delete_all vs = Some k \<and>
      new_chrpc_composite_nempty_array_value_va vs = Some (None, - int k)"
proof -
  obtain v0 vs' where vs: "vs = v0 # vs'" using assms(3) by (cases vs) auto
  define L where "L = (of_nat (length vs) :: u32)"
  have u: "unat L = length vs" using assms(2) by (simp add: L_def)
  then have "L \<noteq> 0" using vs by auto
  moreover have "unat L = Suc (length vs')" "of_nat (Suc (length vs')) = L"
    using u vs by (simp_all add: L_def)
  ultimately have len: "L \<noteq> 0" "unat L = Suc (length vs')" "of_nat (Suc (length vs')) = L" by blast+
  have all: "list_all (\<lambda>e. chrpc_type_equals (v_type v0) (v_type e)) vs' \<longleftrightarrow>
      (\<forall>v \<in> set vs'. v_type v = v_type v0)"
    by (auto simp: list_all_iff equals_ok)
  obtain k where k: "delete_all vs = Some k" using delete_all_wf [OF assms(1)] by blast
  show ?thesis
  proof (cases "composite (v_type v0) \<and> (\<forall>v \<in> set vs'. v_type v = v_type v0)")
    case True
    then have "map v_type vs = replicate (length vs) (v_type v0)"
      using vs by (auto simp: map_replicate_const [symmetric] intro: map_cong)
    then have "wts (replicate (length vs) (v_type v0)) (map v_value vs)"
      using wts_map [of vs] assms(1) by (simp add: wf_value_def)
    then show ?thesis using True all assms(1) total_blocks_split [of vs] vs
      by (simp add: new_chrpc_composite_nempty_array_value_va_def wf_value_def value_blocks_def frees_def
          new_chrpc_composite_nempty_array_value_def iv_array_value_def new_chrpc_value_from_pair_def
          Let_def composite_tid len del: of_nat_Suc)
  next
    case False
    note defs = new_chrpc_composite_nempty_array_value_va_def
      new_chrpc_composite_nempty_array_value_def Let_def composite_tid len
    show ?thesis
    proof (cases "composite (v_type v0)")
      case c: True
      then have same: "(\<forall>v \<in> set vs'. v_type v = v_type v0) = False" using False by simp
      show ?thesis using all vs k c by (simp add: defs same del: of_nat_Suc)
    next
      case False
      then show ?thesis using vs k by (simp add: defs del: of_nat_Suc)
    qed
  qed
qed

text \<open>A struct is made from between one and 64 values and then consists of their types, inner
  values and blocks; with any other number of fields (256 and more are not truncated) the result
  is NULL and the values have been deleted.\<close>

theorem struct_sound_account:
  assumes "\<forall>v \<in> set vs. wf_value v"
  shows "if 1 \<le> length vs \<and> length vs \<le> CHRPC_MAX_STRUCT_FIELDS
    then \<exists>v n. new_chrpc_struct_value_va vs = Some (Some v, n) \<and> wf_value v \<and>
      v_type v = Struct (map v_type vs) \<and> v_value v = IVStruct (map v_value vs) \<and>
      int (value_blocks v) = total_blocks vs + n
    else \<exists>k. delete_all vs = Some k \<and> new_chrpc_struct_value_va vs = Some (None, - int k)"
proof (cases "1 \<le> length vs \<and> length vs \<le> CHRPC_MAX_STRUCT_FIELDS")
  case True
  then have u: "unat (of_nat (length vs) :: byte) = length vs"
    by (simp add: unat_of_nat CHRPC_MAX_STRUCT_FIELDS_def)
  then have "\<not> (of_nat (length vs) :: byte) < 1" using True by (auto simp: word_less_nat_alt)
  moreover have "wts (map v_type vs) (map v_value vs)"
    using wts_map [of vs] assms by (simp add: wf_value_def)
  ultimately show ?thesis using True u assms total_blocks_split [of vs]
    by (auto simp: new_chrpc_struct_value_va_def new_chrpc_struct_value_def iv_value_def
        new_chrpc_value_from_pair_def wf_value_def value_blocks_def frees_def comp_def)
next
  case False
  then show ?thesis using delete_all_wf [OF assms]
    by (auto simp: new_chrpc_struct_value_va_def Let_def not_le)
qed

theorem struct_sound_account_witness:
  "new_chrpc_struct_value_va [] = Some (None, 0) \<and>
   (\<exists>v n. new_chrpc_struct_value_va [\<lparr>v_type = CHRPC_BYTE_T, v_value = IVNumber [7]\<rparr>] = Some (Some v, n) \<and>
     v_type v = Struct [CHRPC_BYTE_T])"
  using struct_sound_account [of "[]"]
    struct_sound_account [of "[\<lparr>v_type = CHRPC_BYTE_T, v_value = IVNumber [7]\<rparr>]"]
  by (auto simp: wf_value_def CHRPC_MAX_STRUCT_FIELDS_def)

theorem composite_array_sound_witness:
  "\<exists>k. new_chrpc_composite_nempty_array_value_va
       [\<lparr>v_type = CHRPC_BYTE_T, v_value = IVNumber [7]\<rparr>] = Some (None, k)"
  using composite_array_sound [of "[\<lparr>v_type = CHRPC_BYTE_T, v_value = IVNumber [7]\<rparr>]"]
  by (auto simp: wf_value_def composite_def)

end
