(* ===== verification/Chrpc_Channel.thy ===== *)
theory Chrpc_Channel
  imports Chutil_Queue
begin

text \<open>
  Channels (\<open>chrpc/src/channel.c\<close>, \<open>channel.h\<close>), the in-process channel
  (\<open>chrpc/src/channel_local.c\<close>) and its two-way version (\<open>chrpc/src/channel_local2.c\<close>).  Each
  operation of a channel runs under the channel's mutex from its first access to its last, so
  it is one step on the state; locking itself is not modelled.  A message is the list of the
  bytes between the caller's pointer and length.  Whether \<open>pthread_mutex_init\<close> fails is a
  parameter of the constructors.

  \<open>channel_rx\<close> is what the users of a channel rely on when they receive; the local channel, one
  end of the two-way channel and the file-descriptor channel (\<open>Chrpc_Channel_Fd\<close>) are instances.
\<close>

section \<open>The interface\<close>

datatype channel_status_t =
    CHN_SUCCESS | CHN_INVALID_ARGS | CHN_BUFFER_TOO_SMALL | CHN_INVALID_MSG_SIZE
  | CHN_NO_INCOMING_MSG | CHN_MEM_ERROR | CHN_CHANNEL_FULL | CHN_UNKNOWN_ERROR
  | CHN_CANNOT_WRITE | CHN_CANNOT_READ | CHN_CLOSED

record channel_msg_t =
  msg_size :: nat
  msg_buf :: "byte list"

text \<open>Out parameters that an operation leaves unset are \<open>None\<close>.\<close>

record ('c, 'cfg) channel_impl_t =
  ci_constructor :: "'cfg option \<Rightarrow> channel_status_t \<times> 'c option"
  ci_destructor :: "'c \<Rightarrow> channel_status_t"
  ci_max_msg_size :: "'c \<Rightarrow> channel_status_t \<times> nat option"
  ci_send :: "'c \<Rightarrow> byte list \<Rightarrow> channel_status_t \<times> 'c"
  ci_refresh :: "'c \<Rightarrow> channel_status_t \<times> 'c"
  ci_incoming_len :: "'c \<Rightarrow> channel_status_t \<times> nat option"
  ci_receive :: "'c \<Rightarrow> nat \<Rightarrow> channel_status_t \<times> byte list option \<times> 'c"

record ('c, 'cfg) channel_t =
  ch_channel :: 'c
  ch_impl :: "('c, 'cfg) channel_impl_t"

definition new_channel ::
    "('c, 'cfg) channel_impl_t option \<Rightarrow> bool \<Rightarrow> 'cfg option \<Rightarrow>
     channel_status_t \<times> ('c, 'cfg) channel_t option" where
  "new_channel impl chn arg =
     (case impl of
        None \<Rightarrow> (CHN_INVALID_ARGS, None)
      | Some i \<Rightarrow>
          if \<not> chn then (CHN_INVALID_ARGS, None)
          else (case ci_constructor i arg of (status, inner_chn) \<Rightarrow>
                  if status \<noteq> CHN_SUCCESS then (status, None)
                  else (CHN_SUCCESS, Some \<lparr>ch_channel = the inner_chn, ch_impl = i\<rparr>)))"

definition delete_channel :: "('c, 'cfg) channel_t option \<Rightarrow> channel_status_t" where
  "delete_channel chn =
     (case chn of None \<Rightarrow> CHN_INVALID_ARGS | Some c \<Rightarrow> ci_destructor (ch_impl c) (ch_channel c))"

text \<open>The wrappers: NULL pointers are \<open>None\<close>, a flag says whether an out pointer is non-NULL.\<close>

definition chn_max_msg_size :: "('c, 'cfg) channel_t option \<Rightarrow> bool \<Rightarrow> channel_status_t \<times> nat option" where
  "chn_max_msg_size chn mms =
     (case chn of
        None \<Rightarrow> (CHN_INVALID_ARGS, None)
      | Some c \<Rightarrow> if \<not> mms then (CHN_INVALID_ARGS, None) else ci_max_msg_size (ch_impl c) (ch_channel c))"

definition chn_send ::
    "('c, 'cfg) channel_t option \<Rightarrow> byte list option \<Rightarrow> channel_status_t \<times> ('c, 'cfg) channel_t option" where
  "chn_send chn msg =
     (case (chn, msg) of
        (Some c, Some m) \<Rightarrow>
          (case ci_send (ch_impl c) (ch_channel c) m of (status, c') \<Rightarrow> (status, Some (c\<lparr>ch_channel := c'\<rparr>)))
      | _ \<Rightarrow> (CHN_INVALID_ARGS, chn))"

definition chn_refresh ::
    "('c, 'cfg) channel_t option \<Rightarrow> channel_status_t \<times> ('c, 'cfg) channel_t option" where
  "chn_refresh chn =
     (case chn of
        None \<Rightarrow> (CHN_INVALID_ARGS, None)
      | Some c \<Rightarrow>
          (case ci_refresh (ch_impl c) (ch_channel c) of (status, c') \<Rightarrow> (status, Some (c\<lparr>ch_channel := c'\<rparr>))))"

definition chn_incoming_len :: "('c, 'cfg) channel_t option \<Rightarrow> bool \<Rightarrow> channel_status_t \<times> nat option" where
  "chn_incoming_len chn len =
     (case chn of
        None \<Rightarrow> (CHN_INVALID_ARGS, None)
      | Some c \<Rightarrow> if \<not> len then (CHN_INVALID_ARGS, None) else ci_incoming_len (ch_impl c) (ch_channel c))"

definition chn_receive ::
    "('c, 'cfg) channel_t option \<Rightarrow> bool \<Rightarrow> nat \<Rightarrow> bool \<Rightarrow>
     channel_status_t \<times> byte list option \<times> ('c, 'cfg) channel_t option" where
  "chn_receive chn buf len readden =
     (case chn of
        None \<Rightarrow> (CHN_INVALID_ARGS, None, None)
      | Some c \<Rightarrow>
          if \<not> buf \<or> \<not> readden then (CHN_INVALID_ARGS, None, chn)
          else (case ci_receive (ch_impl c) (ch_channel c) len of
                  (status, out, c') \<Rightarrow> (status, out, Some (c\<lparr>ch_channel := c'\<rparr>))))"

section \<open>The message queue of a channel\<close>

text \<open>
  A receiving channel keeps its messages in a queue.  \<open>store_msg\<close> is the code both channels run
  when a message arrives: drop it when the queue is full, or the oldest one in write-over mode.
  Popped and dropped buffers are freed; the result of \<open>store_msg\<close> says whether it was stored.
\<close>

definition store_msg :: "bool \<Rightarrow> byte list \<Rightarrow> channel_msg_t queue_t \<Rightarrow> bool \<times> channel_msg_t queue_t" where
  "store_msg write_over msg q =
     (if q_len q = q_cap q then
        (if \<not> write_over then (False, q)
         else (case q_poll q True of (_, _, q1) \<Rightarrow>
                 (True, snd (q_push q1 (Some \<lparr>msg_size = length msg, msg_buf = msg\<rparr>)))))
      else (True, snd (q_push q (Some \<lparr>msg_size = length msg, msg_buf = msg\<rparr>))))"

definition peek_len :: "channel_status_t \<Rightarrow> channel_msg_t queue_t \<Rightarrow> channel_status_t \<times> nat option" where
  "peek_len none q =
     (if q_len q = 0 then (none, None) else (CHN_SUCCESS, map_option msg_size (q_peek q)))"

definition take_msg ::
    "channel_status_t \<Rightarrow> channel_msg_t queue_t \<Rightarrow> nat \<Rightarrow>
     channel_status_t \<times> byte list option \<times> channel_msg_t queue_t" where
  "take_msg none q len =
     (if q_len q = 0 then (none, None, q)
      else case q_peek q of
        None \<Rightarrow> (CHN_UNKNOWN_ERROR, None, q)
      | Some msg \<Rightarrow>
          if msg_size msg > len then (CHN_BUFFER_TOO_SMALL, None, q)
          else (case q_poll q True of (_, local_msg, q1) \<Rightarrow>
                  (CHN_SUCCESS, map_option (\<lambda>m. take (msg_size m) (msg_buf m)) local_msg, q1)))"

text \<open>Sizes are right, no message is empty or larger than \<open>mms\<close>.\<close>

definition msgs_inv :: "nat \<Rightarrow> channel_msg_t queue_t \<Rightarrow> bool" where [inv_defs]:
  "msgs_inv mms q \<longleftrightarrow> queue_inv q \<and>
     (\<forall>m \<in> set (queue_list q). msg_size m = length (msg_buf m) \<and> 0 < msg_size m \<and> msg_size m \<le> mms)"

definition msgs :: "channel_msg_t queue_t \<Rightarrow> byte list list" where
  "msgs q = map msg_buf (queue_list q)"

lemma length_msgs [simp]: "length (msgs q) = q_len q"
  by (simp add: msgs_def)

lemma q_len_nil: "q_len q = 0 \<longleftrightarrow> msgs q = []"
  by (metis length_msgs length_0_conv)

lemma msgs_inv_queue: "msgs_inv mms q \<Longrightarrow> queue_inv q"
  by (simp add: msgs_inv_def)

lemma store_msg_ok:
  assumes "msgs_inv mms q" "msg \<noteq> []" "length msg \<le> mms"
  shows "\<exists>q'. store_msg wo msg q = (length (msgs q) < q_cap q \<or> wo, q') \<and> msgs_inv mms q' \<and>
    q_cap q' = q_cap q \<and>
    msgs q' = (if length (msgs q) < q_cap q then msgs q @ [msg]
               else if wo then tl (msgs q) @ [msg] else msgs q)"
proof -
  let ?m = "\<lparr>msg_size = length msg, msg_buf = msg\<rparr>"
  have inv: "queue_inv q" using assms(1) by (rule msgs_inv_queue)
  have m: "msg_size ?m = length (msg_buf ?m) \<and> 0 < msg_size ?m \<and> msg_size ?m \<le> mms"
    using assms(2,3) by simp
  have le: "q_len q \<le> q_cap q" using inv by (simp add: queue_inv_def)
  show ?thesis
  proof (cases "q_len q = q_cap q")
    case False
    then have "length (queue_list q) < q_cap q" using le by simp
    from q.push_room [OF inv this, of ?m] obtain q' where
      "q_push q (Some ?m) = (0, q')" "queue_inv q'" "queue_list q' = queue_list q @ [?m]"
      "q_cap q' = q_cap q" by blast
    with False le m assms(1) show ?thesis by (auto simp: store_msg_def msgs_inv_def msgs_def)
  next
    case True
    show ?thesis
    proof (cases wo)
      case wo: True
      from True have "length (queue_list q) = q_cap q" by simp
      from q.evict_push [OF inv this, of ?m] obtain y q1 q2 where
        q2: "q_poll q True = (0, Some y, q1)" "q_push q1 (Some ?m) = (0, q2)" "queue_inv q2"
        "queue_list q2 = tl (queue_list q) @ [?m]" "q_cap q2 = q_cap q" by blast
      have "set (tl (queue_list q)) \<subseteq> set (queue_list q)" by (cases "queue_list q") auto
      then have "msgs_inv mms q2" using q2 m assms(1) by (auto simp: msgs_inv_def)
      with True wo q2 show ?thesis by (simp add: store_msg_def msgs_def map_tl)
    qed (use True assms(1) in \<open>simp add: store_msg_def\<close>)
  qed
qed

lemma take_msg_nil: "msgs q = [] \<Longrightarrow> peek_len none q = (none, None) \<and> take_msg none q len = (none, None, q)"
  by (simp add: peek_len_def take_msg_def q_len_nil)

lemma take_msg_cons:
  assumes "msgs_inv mms q" "msgs q = m # ms"
  shows "peek_len none q = (CHN_SUCCESS, Some (length m))"
    and "len < length m \<Longrightarrow> take_msg none q len = (CHN_BUFFER_TOO_SMALL, None, q)"
    and "length m \<le> len \<Longrightarrow> \<exists>q'. take_msg none q len = (CHN_SUCCESS, Some m, q') \<and> msgs_inv mms q' \<and>
      msgs q' = ms \<and> q_cap q' = q_cap q"
proof -
  have inv: "queue_inv q" using assms(1) by (rule msgs_inv_queue)
  obtain x xs where xs: "queue_list q = x # xs" "msg_buf x = m" "map msg_buf xs = ms"
    using assms(2) by (auto simp: msgs_def)
  then have ne: "q_len q \<noteq> 0" using assms(2) by (simp add: q_len_nil)
  from q_peek_hd [OF inv ne] xs have peek: "q_peek q = Some x" by simp
  have size: "msg_size x = length m" using assms(1) xs by (auto simp: msgs_inv_def)
  show "peek_len none q = (CHN_SUCCESS, Some (length m))"
    using ne peek size by (simp add: peek_len_def)
  show "len < length m \<Longrightarrow> take_msg none q len = (CHN_BUFFER_TOO_SMALL, None, q)"
    using ne peek size by (simp add: take_msg_def)
  from q.poll_cons [OF inv xs(1), of True] obtain q' where
    "q_poll q True = (0, Some x, q')" "queue_inv q'" "queue_list q' = xs" "q_cap q' = q_cap q" by auto
  then show "length m \<le> len \<Longrightarrow> \<exists>q'. take_msg none q len = (CHN_SUCCESS, Some m, q') \<and> msgs_inv mms q' \<and>
      msgs q' = ms \<and> q_cap q' = q_cap q"
    using ne peek size xs assms(1) by (auto simp: take_msg_def msgs_inv_def msgs_def)
qed

section \<open>What receivers rely on\<close>

text \<open>
  \<open>inbox\<close> lists the messages received and not yet taken, oldest first; \<open>mms\<close> bounds them.
\<close>

fun receive_n ::
    "('c \<Rightarrow> nat \<Rightarrow> channel_status_t \<times> byte list option \<times> 'c) \<Rightarrow> nat \<Rightarrow> nat \<Rightarrow> 'c \<Rightarrow>
     (channel_status_t \<times> byte list option) list \<times> 'c" where
  "receive_n recv len 0 c = ([], c)"
| "receive_n recv len (Suc k) c =
     (case recv c len of (status, out, c') \<Rightarrow>
        case receive_n recv len k c' of (rs, c'') \<Rightarrow> ((status, out) # rs, c''))"

locale channel_rx =
  fixes inv :: "'c \<Rightarrow> bool"
    and inbox :: "'c \<Rightarrow> byte list list"
    and mms :: "'c \<Rightarrow> nat"
    and incoming_len :: "'c \<Rightarrow> channel_status_t \<times> nat option"
    and receive :: "'c \<Rightarrow> nat \<Rightarrow> channel_status_t \<times> byte list option \<times> 'c"
  assumes sizes: "inv c \<Longrightarrow> m \<in> set (inbox c) \<Longrightarrow> 0 < length m \<and> length m \<le> mms c"
    and len_nil: "inv c \<Longrightarrow> inbox c = [] \<Longrightarrow>
      incoming_len c \<in> {(CHN_NO_INCOMING_MSG, None), (CHN_CANNOT_READ, None)}"
    and len_cons: "inv c \<Longrightarrow> inbox c = m # ms \<Longrightarrow> incoming_len c = (CHN_SUCCESS, Some (length m))"
    and receive_nil: "inv c \<Longrightarrow> inbox c = [] \<Longrightarrow> receive c len = (fst (incoming_len c), None, c)"
    and receive_small: "inv c \<Longrightarrow> inbox c = m # ms \<Longrightarrow> len < length m \<Longrightarrow>
      receive c len = (CHN_BUFFER_TOO_SMALL, None, c)"
    and receive_cons: "inv c \<Longrightarrow> inbox c = m # ms \<Longrightarrow> length m \<le> len \<Longrightarrow>
      \<exists>c'. receive c len = (CHN_SUCCESS, Some m, c') \<and> inv c' \<and> inbox c' = ms \<and> mms c' = mms c"
begin

text \<open>A buffer of \<open>mms\<close> bytes is always enough: a receive gives the oldest message.\<close>

lemma receive_mms:
  assumes "inv c" "mms c \<le> len"
  shows "(inbox c = [] \<and> fst (receive c len) \<noteq> CHN_SUCCESS \<and> snd (snd (receive c len)) = c) \<or>
    (\<exists>m ms c'. inbox c = m # ms \<and> receive c len = (CHN_SUCCESS, Some m, c') \<and> inv c' \<and>
      inbox c' = ms \<and> mms c' = mms c)"
proof (cases "inbox c")
  case Nil
  with len_nil [OF assms(1)] receive_nil [OF assms(1)] show ?thesis by auto
next
  case (Cons m ms)
  with sizes [OF assms(1), of m] assms(2) have "length m \<le> len" by auto
  from receive_cons [OF assms(1) Cons this] Cons show ?thesis by auto
qed

text \<open>Receiving as often as there are messages gives all of them, in order.\<close>

lemma receive_all:
  "inv c \<Longrightarrow> mms c \<le> len \<Longrightarrow>
   \<exists>c'. receive_n receive len (length (inbox c)) c = (map (\<lambda>m. (CHN_SUCCESS, Some m)) (inbox c), c') \<and>
     inv c' \<and> inbox c' = [] \<and> mms c' = mms c"
proof (induction "inbox c" arbitrary: c)
  case (Cons m ms)
  with sizes [of c m] have "length m \<le> len" by (metis le_trans list.set_intros(1))
  with receive_cons [of c m ms len] Cons obtain c' where
    c': "receive c len = (CHN_SUCCESS, Some m, c')" "inv c'" "inbox c' = ms" "mms c' = mms c" by metis
  with Cons.hyps(1) [of c'] Cons.prems obtain c'' where
    "receive_n receive len (length ms) c' = (map (\<lambda>m. (CHN_SUCCESS, Some m)) ms, c'')"
    "inv c''" "inbox c'' = []" "mms c'' = mms c" by auto
  with c' show ?case by (simp flip: Cons.hyps(2))
qed simp

end

section \<open>The local channel\<close>

record channel_local_config_t =
  queue_depth :: nat
  write_over :: bool
  max_msg_size :: nat

record channel_local_t =
  l_cfg :: channel_local_config_t
  l_queue :: "channel_msg_t queue_t"

definition new_channel_local ::
    "bool \<Rightarrow> channel_local_config_t option \<Rightarrow> channel_status_t \<times> channel_local_t option" where
  "new_channel_local mutex_fails cfg =
     (case cfg of
        None \<Rightarrow> (CHN_INVALID_ARGS, None)
      | Some c \<Rightarrow>
          if queue_depth c = 0 then (CHN_INVALID_ARGS, None)
          else if mutex_fails then (CHN_UNKNOWN_ERROR, None)
          else (case new_queue (queue_depth c) 16 of
                  None \<Rightarrow> (CHN_SUCCESS, None)
                | Some q \<Rightarrow> (CHN_SUCCESS, Some \<lparr>l_cfg = c, l_queue = q\<rparr>)))"

text \<open>The destructor polls until the queue is empty; the result lists the messages freed.\<close>

definition delete_channel_local :: "channel_local_t \<Rightarrow> channel_status_t \<times> channel_msg_t option list option" where
  "delete_channel_local chn =
     (CHN_SUCCESS, map_option fst (poll_all q_poll (Suc (q_len (l_queue chn))) (l_queue chn)))"

definition chn_l_max_msg_size :: "channel_local_t \<Rightarrow> channel_status_t \<times> nat option" where
  "chn_l_max_msg_size chn = (CHN_SUCCESS, Some (max_msg_size (l_cfg chn)))"

definition chn_l_send :: "channel_local_t \<Rightarrow> byte list \<Rightarrow> channel_status_t \<times> channel_local_t" where
  "chn_l_send chn msg =
     (if length msg = 0 \<or> length msg > max_msg_size (l_cfg chn) then (CHN_INVALID_MSG_SIZE, chn)
      else case store_msg (write_over (l_cfg chn)) msg (l_queue chn) of
             (stored, q) \<Rightarrow> (if stored then CHN_SUCCESS else CHN_CHANNEL_FULL, chn\<lparr>l_queue := q\<rparr>))"

definition chn_l_refresh :: "channel_local_t \<Rightarrow> channel_status_t \<times> channel_local_t" where
  "chn_l_refresh chn = (CHN_SUCCESS, chn)"

definition chn_l_incoming_len :: "channel_local_t \<Rightarrow> channel_status_t \<times> nat option" where
  "chn_l_incoming_len chn = peek_len CHN_NO_INCOMING_MSG (l_queue chn)"

definition chn_l_receive ::
    "channel_local_t \<Rightarrow> nat \<Rightarrow> channel_status_t \<times> byte list option \<times> channel_local_t" where
  "chn_l_receive chn len =
     (case take_msg CHN_NO_INCOMING_MSG (l_queue chn) len of
        (status, out, q) \<Rightarrow> (status, out, chn\<lparr>l_queue := q\<rparr>))"

definition local_inv :: "channel_local_t \<Rightarrow> bool" where [inv_defs]:
  "local_inv chn \<longleftrightarrow> msgs_inv (max_msg_size (l_cfg chn)) (l_queue chn) \<and>
     q_cap (l_queue chn) = queue_depth (l_cfg chn)"

abbreviation local_msgs :: "channel_local_t \<Rightarrow> byte list list" where
  "local_msgs chn \<equiv> msgs (l_queue chn)"

lemma msgs_sizes: "msgs_inv mms q \<Longrightarrow> m \<in> set (msgs q) \<Longrightarrow> 0 < length m \<and> length m \<le> mms"
  by (auto simp: msgs_inv_def msgs_def)

interpretation local: channel_rx local_inv local_msgs "\<lambda>c. max_msg_size (l_cfg c)"
  chn_l_incoming_len chn_l_receive
proof
  fix c m ms len
  assume inv: "local_inv c"
  then have q: "msgs_inv (max_msg_size (l_cfg c)) (l_queue c)" by (simp add: local_inv_def)
  show "m \<in> set (local_msgs c) \<Longrightarrow> 0 < length m \<and> length m \<le> max_msg_size (l_cfg c)"
    using msgs_sizes [OF q] by blast
  show "local_msgs c = [] \<Longrightarrow>
      chn_l_incoming_len c \<in> {(CHN_NO_INCOMING_MSG, None), (CHN_CANNOT_READ, None)}"
    and "local_msgs c = [] \<Longrightarrow> chn_l_receive c len = (fst (chn_l_incoming_len c), None, c)"
    by (simp_all add: chn_l_incoming_len_def chn_l_receive_def take_msg_nil)
  assume m: "local_msgs c = m # ms"
  show "chn_l_incoming_len c = (CHN_SUCCESS, Some (length m))"
    by (simp add: chn_l_incoming_len_def take_msg_cons [OF q m])
  show "len < length m \<Longrightarrow> chn_l_receive c len = (CHN_BUFFER_TOO_SMALL, None, c)"
    by (simp add: chn_l_receive_def take_msg_cons [OF q m])
  show "length m \<le> len \<Longrightarrow> \<exists>c'. chn_l_receive c len = (CHN_SUCCESS, Some m, c') \<and> local_inv c' \<and>
      local_msgs c' = ms \<and> max_msg_size (l_cfg c') = max_msg_size (l_cfg c)"
    using take_msg_cons(3) [OF q m, of len CHN_NO_INCOMING_MSG] inv
    by (auto simp: chn_l_receive_def local_inv_def)
qed

lemma new_channel_local_ok:
  "new_channel_local fails cfg = (CHN_SUCCESS, Some chn) \<Longrightarrow>
   local_inv chn \<and> local_msgs chn = [] \<and> cfg = Some (l_cfg chn)"
  using new_queue_correct
  by (fastforce simp: new_channel_local_def local_inv_def msgs_inv_def msgs_def split: option.splits if_splits)

lemma new_channel_local_status:
  "fst (new_channel_local fails cfg) =
     (case cfg of None \<Rightarrow> CHN_INVALID_ARGS
      | Some c \<Rightarrow> if queue_depth c = 0 then CHN_INVALID_ARGS else if fails then CHN_UNKNOWN_ERROR else CHN_SUCCESS) \<and>
   (fst (new_channel_local fails cfg) = CHN_SUCCESS \<longleftrightarrow> snd (new_channel_local fails cfg) \<noteq> None)"
  by (auto simp: new_channel_local_def new_queue_def split: option.splits)

lemma chn_l_send_ok:
  assumes "local_inv chn"
  shows "\<exists>chn'. chn_l_send chn msg =
      (if msg = [] \<or> max_msg_size (l_cfg chn) < length msg then CHN_INVALID_MSG_SIZE
       else if length (local_msgs chn) < queue_depth (l_cfg chn) \<or> write_over (l_cfg chn)
       then CHN_SUCCESS else CHN_CHANNEL_FULL, chn') \<and>
    local_inv chn' \<and> l_cfg chn' = l_cfg chn \<and>
    local_msgs chn' =
      (if msg = [] \<or> max_msg_size (l_cfg chn) < length msg then local_msgs chn
       else if length (local_msgs chn) < queue_depth (l_cfg chn) then local_msgs chn @ [msg]
       else if write_over (l_cfg chn) then tl (local_msgs chn) @ [msg] else local_msgs chn)"
proof (cases "msg = [] \<or> max_msg_size (l_cfg chn) < length msg")
  case True
  with assms show ?thesis by (simp add: chn_l_send_def)
next
  case False
  with store_msg_ok [of "max_msg_size (l_cfg chn)" "l_queue chn" msg "write_over (l_cfg chn)"] assms
  show ?thesis by (auto simp: chn_l_send_def local_inv_def)
qed

definition CHANNEL_LOCAL_IMPL :: "bool \<Rightarrow> (channel_local_t, channel_local_config_t) channel_impl_t" where
  "CHANNEL_LOCAL_IMPL mutex_fails =
     \<lparr>ci_constructor = new_channel_local mutex_fails,
      ci_destructor = (\<lambda>c. fst (delete_channel_local c)),
      ci_max_msg_size = chn_l_max_msg_size,
      ci_send = chn_l_send,
      ci_refresh = chn_l_refresh,
      ci_incoming_len = chn_l_incoming_len,
      ci_receive = chn_l_receive\<rparr>"

lemma delete_channel_local_ok:
  assumes "local_inv chn"
  shows "delete_channel_local chn = (CHN_SUCCESS, Some (map Some (queue_list (l_queue chn))))"
proof -
  have "queue_inv (l_queue chn)" using assms by (simp add: local_inv_def msgs_inv_def)
  from q.drain [OF this, of "Suc (q_len (l_queue chn))"] show ?thesis
    by (auto simp: delete_channel_local_def)
qed

section \<open>The two-way local channel\<close>

text \<open>
  The two ends share the core; an end is its direction, \<open>True\<close> for the end that sends on \<open>a2b\<close>.
  An operation of an end takes and gives back the core.
\<close>

record channel_local2_core_t =
  a2b :: channel_local_t
  b2a :: channel_local_t

definition new_channel_local2_core ::
    "bool \<Rightarrow> bool \<Rightarrow> bool \<Rightarrow> channel_local_config_t option \<Rightarrow>
     channel_status_t \<times> channel_local2_core_t option" where
  "new_channel_local2_core mutex_fails1 mutex_fails2 chn_l2_c cfg =
     (if \<not> chn_l2_c \<or> cfg = None then (CHN_INVALID_ARGS, None)
      else case new_channel_local mutex_fails1 cfg of (status, x) \<Rightarrow>
        if status \<noteq> CHN_SUCCESS then (status, None)
        else case new_channel_local mutex_fails2 cfg of (status, y) \<Rightarrow>
          if status \<noteq> CHN_SUCCESS then (status, None)
          else (CHN_SUCCESS, Some \<lparr>a2b = the x, b2a = the y\<rparr>))"

definition delete_channel_local2_core ::
    "channel_local2_core_t option \<Rightarrow> channel_status_t \<times> channel_msg_t option list option" where
  "delete_channel_local2_core core =
     (case core of
        None \<Rightarrow> (CHN_INVALID_ARGS, None)
      | Some c \<Rightarrow>
          (case (delete_channel_local (a2b c), delete_channel_local (b2a c)) of
             ((s1, f1), (s2, f2)) \<Rightarrow>
               (if s1 \<noteq> CHN_SUCCESS then s1 else if s2 \<noteq> CHN_SUCCESS then s2 else CHN_SUCCESS,
                case (f1, f2) of (Some xs, Some ys) \<Rightarrow> Some (xs @ ys) | _ \<Rightarrow> None)))"

definition outgoing :: "bool \<Rightarrow> channel_local2_core_t \<Rightarrow> channel_local_t" where
  "outgoing a2b_direction core = (if a2b_direction then a2b core else b2a core)"

definition chn_l2_max_msg_size :: "channel_local2_core_t \<Rightarrow> channel_status_t \<times> nat option" where
  "chn_l2_max_msg_size core = chn_l_max_msg_size (a2b core)"

definition chn_l2_send ::
    "bool \<Rightarrow> channel_local2_core_t \<Rightarrow> byte list \<Rightarrow> channel_status_t \<times> channel_local2_core_t" where
  "chn_l2_send a2b_direction core msg =
     (case chn_l_send (if a2b_direction then a2b core else b2a core) msg of (status, c) \<Rightarrow>
        (status, if a2b_direction then core\<lparr>a2b := c\<rparr> else core\<lparr>b2a := c\<rparr>))"

definition chn_l2_refresh :: "bool \<Rightarrow> channel_local2_core_t \<Rightarrow> channel_status_t \<times> channel_local2_core_t" where
  "chn_l2_refresh a2b_direction core =
     (case chn_l_refresh (if a2b_direction then b2a core else a2b core) of (status, c) \<Rightarrow>
        (status, if a2b_direction then core\<lparr>b2a := c\<rparr> else core\<lparr>a2b := c\<rparr>))"

definition chn_l2_incoming_len :: "bool \<Rightarrow> channel_local2_core_t \<Rightarrow> channel_status_t \<times> nat option" where
  "chn_l2_incoming_len a2b_direction core =
     chn_l_incoming_len (if a2b_direction then b2a core else a2b core)"

definition chn_l2_receive ::
    "bool \<Rightarrow> channel_local2_core_t \<Rightarrow> nat \<Rightarrow> channel_status_t \<times> byte list option \<times> channel_local2_core_t" where
  "chn_l2_receive a2b_direction core len =
     (case chn_l_receive (if a2b_direction then b2a core else a2b core) len of (status, out, c) \<Rightarrow>
        (status, out, if a2b_direction then core\<lparr>b2a := c\<rparr> else core\<lparr>a2b := c\<rparr>))"

definition CHANNEL_LOCAL2_IMPL :: "bool \<Rightarrow> (channel_local2_core_t, channel_local2_core_t) channel_impl_t" where
  "CHANNEL_LOCAL2_IMPL a2b_direction =
     \<lparr>ci_constructor = (\<lambda>cfg. case cfg of None \<Rightarrow> (CHN_INVALID_ARGS, None) | Some core \<Rightarrow> (CHN_SUCCESS, Some core)),
      ci_destructor = (\<lambda>c. CHN_SUCCESS),
      ci_max_msg_size = chn_l2_max_msg_size,
      ci_send = chn_l2_send a2b_direction,
      ci_refresh = chn_l2_refresh a2b_direction,
      ci_incoming_len = chn_l2_incoming_len a2b_direction,
      ci_receive = chn_l2_receive a2b_direction\<rparr>"

text \<open>The core and the two ends; on an error everything made so far is deleted again.\<close>

definition new_channel_local2_pipe ::
    "bool \<Rightarrow> bool \<Rightarrow> channel_local_config_t option \<Rightarrow>
     channel_status_t \<times> (channel_local2_core_t \<times> (channel_local2_core_t, channel_local2_core_t) channel_t \<times>
       (channel_local2_core_t, channel_local2_core_t) channel_t) option" where
  "new_channel_local2_pipe mutex_fails1 mutex_fails2 core_cfg =
     (case new_channel_local2_core mutex_fails1 mutex_fails2 True core_cfg of (status, co) \<Rightarrow>
        if status \<noteq> CHN_SUCCESS then (status, None)
        else case new_channel (Some (CHANNEL_LOCAL2_IMPL True)) True co of (status, a_to_b) \<Rightarrow>
          if status \<noteq> CHN_SUCCESS then (status, None)
          else case new_channel (Some (CHANNEL_LOCAL2_IMPL False)) True co of (status, b_to_a) \<Rightarrow>
            if status \<noteq> CHN_SUCCESS then (status, None)
            else (CHN_SUCCESS, Some (the co, the a_to_b, the b_to_a)))"

definition core_inv :: "channel_local2_core_t \<Rightarrow> bool" where [inv_defs]:
  "core_inv core \<longleftrightarrow> local_inv (a2b core) \<and> local_inv (b2a core) \<and> l_cfg (a2b core) = l_cfg (b2a core)"

interpretation local2: channel_rx core_inv "\<lambda>core. local_msgs (outgoing (\<not> d) core)"
  "\<lambda>core. max_msg_size (l_cfg (a2b core))" "chn_l2_incoming_len d" "chn_l2_receive d" for d
proof
  fix core m ms len
  assume inv: "core_inv core"
  let ?c = "outgoing (\<not> d) core"
  have c: "local_inv ?c" "l_cfg ?c = l_cfg (a2b core)" using inv by (auto simp: core_inv_def outgoing_def)
  have l: "chn_l2_incoming_len d core = chn_l_incoming_len ?c"
    by (simp add: chn_l2_incoming_len_def outgoing_def)
  have r: "chn_l2_receive d core len = (case chn_l_receive ?c len of (status, out, c') \<Rightarrow>
      (status, out, if d then core\<lparr>b2a := c'\<rparr> else core\<lparr>a2b := c'\<rparr>))"
    by (simp add: chn_l2_receive_def outgoing_def)
  have same: "(if d then core\<lparr>b2a := ?c\<rparr> else core\<lparr>a2b := ?c\<rparr>) = core" by (simp add: outgoing_def)
  show "m \<in> set (local_msgs ?c) \<Longrightarrow> 0 < length m \<and> length m \<le> max_msg_size (l_cfg (a2b core))"
    using local.sizes [OF c(1), of m] c(2) by simp
  show "local_msgs ?c = [] \<Longrightarrow>
      chn_l2_incoming_len d core \<in> {(CHN_NO_INCOMING_MSG, None), (CHN_CANNOT_READ, None)}"
    using local.len_nil [OF c(1)] l by simp
  show "local_msgs ?c = [] \<Longrightarrow> chn_l2_receive d core len = (fst (chn_l2_incoming_len d core), None, core)"
    using local.receive_nil [OF c(1), of len] l r same by simp
  assume m: "local_msgs ?c = m # ms"
  show "chn_l2_incoming_len d core = (CHN_SUCCESS, Some (length m))"
    using local.len_cons [OF c(1) m] l by simp
  show "len < length m \<Longrightarrow> chn_l2_receive d core len = (CHN_BUFFER_TOO_SMALL, None, core)"
    using local.receive_small [OF c(1) m, of len] r same by simp
  assume "length m \<le> len"
  from take_msg_cons(3) [of "max_msg_size (l_cfg ?c)" "l_queue ?c" m ms len CHN_NO_INCOMING_MSG] this m c(1)
  obtain q' where q': "take_msg CHN_NO_INCOMING_MSG (l_queue ?c) len = (CHN_SUCCESS, Some m, q')"
    "msgs_inv (max_msg_size (l_cfg ?c)) q'" "msgs q' = ms" "q_cap q' = q_cap (l_queue ?c)"
    by (auto simp: local_inv_def)
  let ?c' = "?c\<lparr>l_queue := q'\<rparr>"
  have "local_inv ?c'" using q' c by (simp add: local_inv_def)
  with q' inv r show "\<exists>core'. chn_l2_receive d core len = (CHN_SUCCESS, Some m, core') \<and> core_inv core' \<and>
      local_msgs (outgoing (\<not> d) core') = ms \<and> max_msg_size (l_cfg (a2b core')) = max_msg_size (l_cfg (a2b core))"
    by (cases d) (simp_all add: chn_l_receive_def core_inv_def outgoing_def)
qed

section \<open>Runs on the two-way channel\<close>

text \<open>
  The abstract channel: two lists of messages, \<open>fst\<close> on the way from the end \<open>True\<close>.
\<close>

datatype chan_op = Send bool "byte list" | Receive bool nat

fun chan_step :: "chan_op \<Rightarrow> channel_local2_core_t \<Rightarrow> (channel_status_t \<times> byte list option) \<times> channel_local2_core_t" where
  "chan_step (Send d msg) core = (case chn_l2_send d core msg of (status, core') \<Rightarrow> ((status, None), core'))"
| "chan_step (Receive d len) core =
     (case chn_l2_receive d core len of (status, out, core') \<Rightarrow> ((status, out), core'))"

definition fifo_send ::
    "channel_local_config_t \<Rightarrow> byte list list \<Rightarrow> byte list \<Rightarrow> channel_status_t \<times> byte list list" where
  "fifo_send cfg ms msg =
     (if msg = [] \<or> max_msg_size cfg < length msg then (CHN_INVALID_MSG_SIZE, ms)
      else if length ms < queue_depth cfg then (CHN_SUCCESS, ms @ [msg])
      else if write_over cfg then (CHN_SUCCESS, tl ms @ [msg]) else (CHN_CHANNEL_FULL, ms))"

fun fifo_receive :: "byte list list \<Rightarrow> nat \<Rightarrow> (channel_status_t \<times> byte list option) \<times> byte list list" where
  "fifo_receive [] len = ((CHN_NO_INCOMING_MSG, None), [])"
| "fifo_receive (m # ms) len =
     (if len < length m then ((CHN_BUFFER_TOO_SMALL, None), m # ms) else ((CHN_SUCCESS, Some m), ms))"

fun chan_spec_step ::
    "channel_local_config_t \<Rightarrow> chan_op \<Rightarrow> byte list list \<times> byte list list \<Rightarrow>
     (channel_status_t \<times> byte list option) \<times> (byte list list \<times> byte list list)" where
  "chan_spec_step cfg (Send d msg) (xs, ys) =
     (case fifo_send cfg (if d then xs else ys) msg of (status, zs) \<Rightarrow>
        ((status, None), if d then (zs, ys) else (xs, zs)))"
| "chan_spec_step cfg (Receive d len) (xs, ys) =
     (case fifo_receive (if d then ys else xs) len of (r, zs) \<Rightarrow> (r, if d then (xs, zs) else (zs, ys)))"

fun run_steps :: "('i \<Rightarrow> 's \<Rightarrow> 'o \<times> 's) \<Rightarrow> 'i list \<Rightarrow> 's \<Rightarrow> 'o list \<times> 's" where
  "run_steps step [] s = ([], s)"
| "run_steps step (x # xs) s =
     (case step x s of (out, s') \<Rightarrow> case run_steps step xs s' of (outs, s'') \<Rightarrow> (out # outs, s''))"

text \<open>A simulation of single steps is one of runs.\<close>

lemma run_steps_refines:
  assumes "\<And>x s. I s \<Longrightarrow> \<exists>out s'. step x s = (out, s') \<and> I s' \<and> spec x (f s) = (out, f s')"
  shows "I s \<Longrightarrow> \<exists>outs s'. run_steps step xs s = (outs, s') \<and> I s' \<and> run_steps spec xs (f s) = (outs, f s')"
proof (induction xs arbitrary: s)
  case (Cons x xs)
  from assms [OF Cons.prems, of x] obtain out s1 where
    1: "step x s = (out, s1)" "I s1" "spec x (f s) = (out, f s1)" by blast
  from Cons.IH [OF 1(2)] obtain outs s2 where
    "run_steps step xs s1 = (outs, s2)" "I s2" "run_steps spec xs (f s1) = (outs, f s2)" by blast
  with 1 show ?case by (intro exI [of _ "out # outs"] exI [of _ s2]) simp
qed simp

definition chan_abs :: "channel_local2_core_t \<Rightarrow> byte list list \<times> byte list list" where
  "chan_abs core = (local_msgs (a2b core), local_msgs (b2a core))"

lemma chn_l_send_fifo:
  assumes "local_inv c"
  shows "\<exists>c'. chn_l_send c msg = (fst (fifo_send (l_cfg c) (local_msgs c) msg), c') \<and> local_inv c' \<and>
    l_cfg c' = l_cfg c \<and> local_msgs c' = snd (fifo_send (l_cfg c) (local_msgs c) msg)"
  using chn_l_send_ok [OF assms, of msg] by (auto simp: fifo_send_def)

lemma chn_l_receive_fifo:
  assumes "local_inv c"
  shows "\<exists>c' status out. chn_l_receive c len = (status, out, c') \<and>
    fifo_receive (local_msgs c) len = ((status, out), local_msgs c') \<and> local_inv c' \<and> l_cfg c' = l_cfg c"
proof (cases "local_msgs c")
  case Nil
  with assms show ?thesis by (simp add: chn_l_receive_def take_msg_nil)
next
  case (Cons m ms)
  have q: "msgs_inv (max_msg_size (l_cfg c)) (l_queue c)" using assms by (simp add: local_inv_def)
  show ?thesis
  proof (cases "len < length m")
    case True
    with take_msg_cons(2) [OF q Cons True] Cons assms show ?thesis by (simp add: chn_l_receive_def)
  next
    case False
    with take_msg_cons(3) [OF q Cons, of len CHN_NO_INCOMING_MSG] Cons assms show ?thesis
      by (auto simp: chn_l_receive_def local_inv_def)
  qed
qed

lemma chan_step_refines:
  assumes "core_inv core"
  shows "\<exists>out core'. chan_step op core = (out, core') \<and> core_inv core' \<and> l_cfg (a2b core') = l_cfg (a2b core) \<and>
    chan_spec_step (l_cfg (a2b core)) op (chan_abs core) = (out, chan_abs core')"
proof -
  have inv: "local_inv (a2b core)" "local_inv (b2a core)" "l_cfg (b2a core) = l_cfg (a2b core)"
    using assms by (simp_all add: core_inv_def)
  show ?thesis
  proof (cases op)
    case (Send d msg)
    with chn_l_send_fifo [OF inv(1), of msg] chn_l_send_fifo [OF inv(2), of msg] inv show ?thesis
      by (cases d) (auto simp: chn_l2_send_def chan_abs_def core_inv_def split: prod.split)
  next
    case (Receive d len)
    with chn_l_receive_fifo [OF inv(1), of len] chn_l_receive_fifo [OF inv(2), of len] inv show ?thesis
      by (cases d) (auto simp: chn_l2_receive_def chan_abs_def core_inv_def)
  qed
qed

text \<open>C13. A pipe made by \<open>new_channel_local2_pipe\<close> is two independent bounded queues, one per
  direction: any interleaving of sends and receives at its two ends returns the statuses and
  messages of two first-in-first-out lists with the configured bound, drop policy and message
  size, and an end never receives what it sent itself.\<close>

theorem local2_pipe_refines:
  assumes "new_channel_local2_pipe fails1 fails2 (Some cfg) = (CHN_SUCCESS, Some (core, a_to_b, b_to_a))"
  shows "\<exists>core'. run_steps chan_step ops core = (fst (run_steps (chan_spec_step cfg) ops ([], [])), core') \<and>
    chan_abs core' = snd (run_steps (chan_spec_step cfg) ops ([], [])) \<and> core_inv core'"
proof -
  from assms have "snd (new_channel_local2_core fails1 fails2 True (Some cfg)) = Some core"
    by (auto simp: new_channel_local2_pipe_def new_channel_local2_core_def split: prod.splits if_splits)
  then obtain x y where "new_channel_local fails1 (Some cfg) = (CHN_SUCCESS, x)"
    "new_channel_local fails2 (Some cfg) = (CHN_SUCCESS, y)" "core = \<lparr>a2b = the x, b2a = the y\<rparr>"
    by (auto simp: new_channel_local2_core_def split: prod.splits if_splits)
  moreover obtain x' y' where "x = Some x'" "y = Some y'"
    using calculation new_channel_local_status [of fails1 "Some cfg"]
      new_channel_local_status [of fails2 "Some cfg"] by auto
  ultimately have core: "core_inv core \<and> l_cfg (a2b core) = cfg" and nil: "chan_abs core = ([], [])"
    using new_channel_local_ok [of fails1 "Some cfg" x'] new_channel_local_ok [of fails2 "Some cfg" y']
    by (simp_all add: core_inv_def chan_abs_def)
  have "\<exists>outs s'. run_steps chan_step ops core = (outs, s') \<and> (core_inv s' \<and> l_cfg (a2b s') = cfg) \<and>
      run_steps (chan_spec_step cfg) ops (chan_abs core) = (outs, chan_abs s')"
  proof (rule run_steps_refines [where I = "\<lambda>c. core_inv c \<and> l_cfg (a2b c) = cfg", OF _ core])
    fix x s assume "core_inv s \<and> l_cfg (a2b s) = cfg"
    with chan_step_refines [of s x]
    show "\<exists>out s'. chan_step x s = (out, s') \<and> (core_inv s' \<and> l_cfg (a2b s') = cfg) \<and>
        chan_spec_step cfg x (chan_abs s) = (out, chan_abs s')" by auto
  qed
  then show ?thesis using nil by auto
qed

theorem local2_pipe_refines_witness:
  "\<exists>core a b. new_channel_local2_pipe False False (Some \<lparr>queue_depth = 1, write_over = True, max_msg_size = 2\<rparr>) =
     (CHN_SUCCESS, Some (core, a, b)) \<and>
   fst (run_steps chan_step [Send True [1], Send True [2, 3], Receive True 9, Receive False 1, Receive False 2,
          Send False [1, 2, 3]] core) =
     [(CHN_SUCCESS, None), (CHN_SUCCESS, None), (CHN_NO_INCOMING_MSG, None), (CHN_BUFFER_TOO_SMALL, None),
      (CHN_SUCCESS, Some [2, 3]), (CHN_INVALID_MSG_SIZE, None)]"
proof -
  let ?cfg = "\<lparr>queue_depth = 1, write_over = True, max_msg_size = 2\<rparr>"
  obtain core a b where p: "new_channel_local2_pipe False False (Some ?cfg) = (CHN_SUCCESS, Some (core, a, b))"
    by (simp add: new_channel_local2_pipe_def new_channel_local2_core_def new_channel_local_def
        new_queue_def new_channel_def CHANNEL_LOCAL2_IMPL_def)
  from local2_pipe_refines [OF this, of "[Send True [1], Send True [2, 3], Receive True 9, Receive False 1,
      Receive False 2, Send False [1, 2, 3]]"] p show ?thesis by (auto simp: fifo_send_def)
qed

end
