(* ===== verification/Chrpc_Channel_Fd.thy ===== *)
theory Chrpc_Channel_Fd
  imports Chrpc_Channel "HOL-Library.Monad_Syntax" "HOL-Library.Sublist"
begin

text \<open>
  The file-descriptor channel (\<open>chrpc/src/channel_fd.c\<close>).  A message travels as a frame: a start
  byte, its length in four bytes, its bytes, an end byte.  \<open>read\<close> delivers the stream in pieces of
  any size, so \<open>_chn_fd_process_single_msg\<close> keeps a partial frame between calls.

  What the kernel does is part of the state: \<open>k_reads\<close> are the results of the coming calls of
  \<open>read\<close> (none left: the call would block), \<open>k_writes\<close> those of the coming calls of \<open>write\<close>
  (none left: everything is written), \<open>k_wire\<close> collects the bytes written.  \<open>fcntl\<close>, \<open>dup\<close> and
  \<open>pthread_mutex_init\<close> failures are parameters of the constructor.  An access outside a buffer or
  to a byte never written is \<open>None\<close>.

  \<open>feed\<close> is the receiver as an automaton over single bytes; the code is shown to follow it
  whatever the pieces, and the automaton to invert the framing.
\<close>

section \<open>State\<close>

record channel_fd_config_t =
  fc_queue_depth :: nat
  fc_write_fd :: int
  fc_read_fd :: int
  fc_write_over :: bool
  fc_max_msg_size :: nat
  fc_read_chunk_size :: nat

datatype read_result = Data "byte list" | Eof | WouldBlock | ReadError

record channel_fd_t =
  f_cfg :: channel_fd_config_t
  f_read_fd :: int
  f_read_chunk :: "byte list"
  f_msg_buf_fill :: nat
  f_msg_buf :: "byte option list"
  f_write_fd :: int
  f_write_buf :: "byte option list"
  f_q :: "channel_msg_t queue_t"
  k_reads :: "read_result list"
  k_writes :: "int list"
  k_wire :: "byte list"

abbreviation CHN_FD_START_MAGIC :: byte where "CHN_FD_START_MAGIC \<equiv> 30"
abbreviation CHN_FD_END_MAGIC :: byte where "CHN_FD_END_MAGIC \<equiv> 42"

definition CHN_FD_MSG_SIZE :: "nat \<Rightarrow> nat" where
  "CHN_FD_MSG_SIZE len = 1 + 4 + len + 1"

text \<open>
  \<open>dup_result\<close> is what \<open>dup\<close> returns, \<open>fcntl_ok\<close> whether \<open>setup_fds\<close> succeeds.  On a failure the
  channel is deleted again.
\<close>

definition new_channel_fd ::
    "bool \<Rightarrow> int \<Rightarrow> bool \<Rightarrow> channel_fd_config_t option \<Rightarrow> channel_status_t \<times> channel_fd_t option" where
  "new_channel_fd mutex_fails dup_result fcntl_ok cfg =
     (case cfg of
        None \<Rightarrow> (CHN_INVALID_ARGS, None)
      | Some c \<Rightarrow>
          if fc_max_msg_size c = 0 \<or> fc_queue_depth c = 0 \<or> fc_write_fd c < 0 \<or> fc_read_chunk_size c = 0
          then (CHN_INVALID_ARGS, None)
          else if mutex_fails then (CHN_UNKNOWN_ERROR, None)
          else
            let read_fd = (if fc_read_fd c < 0 then dup_result else fc_read_fd c)
            in if read_fd < 0 then (CHN_UNKNOWN_ERROR, None)
               else if \<not> fcntl_ok then (CHN_UNKNOWN_ERROR, None)
               else case new_queue (fc_queue_depth c) 16 of
                  None \<Rightarrow> (CHN_SUCCESS, None)
                | Some q \<Rightarrow> (CHN_SUCCESS, Some
                    \<lparr>f_cfg = c, f_read_fd = read_fd, f_read_chunk = [], f_msg_buf_fill = 0,
                     f_msg_buf = replicate (CHN_FD_MSG_SIZE (fc_max_msg_size c)) None,
                     f_write_fd = fc_write_fd c,
                     f_write_buf = replicate (CHN_FD_MSG_SIZE (fc_max_msg_size c)) None,
                     f_q = q, k_reads = [], k_writes = [], k_wire = []\<rparr>))"

text \<open>The descriptors closed and the messages freed by the destructor.\<close>

definition delete_channel_fd ::
    "channel_fd_t \<Rightarrow> channel_status_t \<times> int list \<times> channel_msg_t option list option" where
  "delete_channel_fd chn =
     (CHN_SUCCESS,
      (if f_read_fd chn \<ge> 0 then [f_read_fd chn] else []) @ (if f_write_fd chn \<ge> 0 then [f_write_fd chn] else []),
      map_option fst (poll_all q_poll (Suc (q_len (f_q chn))) (f_q chn)))"

definition chn_fd_max_msg_size :: "channel_fd_t \<Rightarrow> channel_status_t \<times> nat option" where
  "chn_fd_max_msg_size chn = (CHN_SUCCESS, Some (fc_max_msg_size (f_cfg chn)))"

section \<open>Sending\<close>

text \<open>The first \<open>n\<close> bytes of a buffer, all of which must have been written.\<close>

definition read_cells :: "byte option list \<Rightarrow> nat \<Rightarrow> nat \<Rightarrow> byte list option" where
  "read_cells mem i n =
     (if i + n \<le> length mem \<and> list_all (\<lambda>c. c \<noteq> None) (take n (drop i mem))
      then Some (map the (take n (drop i mem))) else None)"

text \<open>
  \<open>read\<close> and \<open>write\<close> transfer at most \<open>MAX_RW_COUNT\<close> bytes in one call (the manual of \<open>write(2)\<close>: at most
  \<open>0x7ffff000\<close> on Linux, whatever the count) and return -1 for an error.  The code stores the result, an
  \<open>ssize_t\<close>, in an \<open>int\<close>.
\<close>

definition MAX_RW_COUNT :: int where "MAX_RW_COUNT = 0x7FFFF000"

definition ssize_to_int :: "int \<Rightarrow> int" where
  "ssize_to_int n = sint (word_of_int n :: 32 word)"

definition k_write :: "byte list \<Rightarrow> channel_fd_t \<Rightarrow> int \<times> channel_fd_t" where
  "k_write bs chn =
     (let most = min MAX_RW_COUNT (int (length bs));
          written = (case k_writes chn of [] \<Rightarrow> most | w # ws \<Rightarrow> if w < 0 then -1 else min w most)
      in (written, chn\<lparr>k_writes := tl (k_writes chn), k_wire := k_wire chn @ take (nat written) bs\<rparr>))"

definition chn_fd_send :: "channel_fd_t \<Rightarrow> byte list \<Rightarrow> (channel_status_t \<times> channel_fd_t) option" where
  "chn_fd_send chn msg =
     (if length msg = 0 \<or> fc_max_msg_size (f_cfg chn) < length msg then Some (CHN_INVALID_MSG_SIZE, chn)
      else if f_write_fd chn < 0 then Some (CHN_CANNOT_WRITE, chn)
      else
        let write_size = CHN_FD_MSG_SIZE (length msg)
        in do {
          b1 \<leftarrow> put_cells (f_write_buf chn) 0 [Some CHN_FD_START_MAGIC];
          b2 \<leftarrow> put_cells b1 1 (map Some (u32_le (of_nat (length msg))));
          b3 \<leftarrow> put_cells b2 5 (map Some msg);
          b4 \<leftarrow> put_cells b3 (5 + length msg) [Some CHN_FD_END_MAGIC];
          bs \<leftarrow> read_cells b4 0 write_size;
          (case k_write bs (chn\<lparr>f_write_buf := b4\<rparr>) of (ret, chn1) \<Rightarrow>
             let written = ssize_to_int ret
             in if written < 0 \<or> nat written \<noteq> write_size
                then Some (CHN_CANNOT_WRITE, chn1\<lparr>f_write_fd := -1\<rparr>)
                else Some (CHN_SUCCESS, chn1)) })"

section \<open>Receiving\<close>

text \<open>The search for a start byte: the new position and whether one was found.\<close>

fun find_start :: "byte list \<Rightarrow> nat \<Rightarrow> nat \<times> bool" where
  "find_start [] pos = (pos, False)"
| "find_start (b # bs) pos = (if b = CHN_FD_START_MAGIC then (pos + 1, True) else find_start bs (pos + 1))"

text \<open>Copy at most \<open>needed\<close> of the bytes left in the chunk to the end of the message buffer.\<close>

definition copy_bytes :: "nat \<Rightarrow> nat \<Rightarrow> channel_fd_t \<Rightarrow> (nat \<times> channel_fd_t) option" where
  "copy_bytes needed pos chn =
     (let bytes_to_read = (if length (f_read_chunk chn) - pos > needed then needed
                           else length (f_read_chunk chn) - pos)
      in do {
        b \<leftarrow> put_cells (f_msg_buf chn) (f_msg_buf_fill chn)
               (map Some (take bytes_to_read (drop pos (f_read_chunk chn))));
        Some (pos + bytes_to_read,
              chn\<lparr>f_msg_buf := b, f_msg_buf_fill := f_msg_buf_fill chn + bytes_to_read\<rparr>) })"

text \<open>The last part: a complete frame is in the buffer.\<close>

definition deliver_msg :: "nat \<Rightarrow> nat \<Rightarrow> channel_fd_t \<Rightarrow> (nat \<times> channel_fd_t) option" where
  "deliver_msg msg_length pos chn =
     (let chn1 = chn\<lparr>f_msg_buf_fill := 0\<rparr>
      in if msg_length = 0 then Some (pos, chn1)
         else if q_len (f_q chn1) = q_cap (f_q chn1) \<and> \<not> fc_write_over (f_cfg chn1) then Some (pos, chn1)
         else do {
           msg \<leftarrow> read_cells (f_msg_buf chn1) 5 msg_length;
           Some (pos, chn1\<lparr>f_q := snd (store_msg (fc_write_over (f_cfg chn1)) msg (f_q chn1))\<rparr>) })"

text \<open>The four blocks of \<open>_chn_fd_process_single_msg\<close>, between its early returns.\<close>

definition seek_start :: "nat \<Rightarrow> channel_fd_t \<Rightarrow> (nat \<times> channel_fd_t) option" where
  "seek_start pos chn =
     (if f_msg_buf_fill chn = 0 then
        (case find_start (drop pos (f_read_chunk chn)) pos of (p, found) \<Rightarrow>
           if found then do {
             b \<leftarrow> put_cells (f_msg_buf chn) 0 [Some CHN_FD_START_MAGIC];
             Some (p, chn\<lparr>f_msg_buf := b, f_msg_buf_fill := f_msg_buf_fill chn + 1\<rparr>) }
           else Some (p, chn))
      else Some (pos, chn))"

definition read_header :: "nat \<Rightarrow> channel_fd_t \<Rightarrow> (nat \<times> channel_fd_t) option" where
  "read_header pos chn =
     (if f_msg_buf_fill chn < 5 then copy_bytes (5 - f_msg_buf_fill chn) pos chn else Some (pos, chn))"

definition read_body :: "nat \<Rightarrow> nat \<Rightarrow> channel_fd_t \<Rightarrow> (nat \<times> channel_fd_t) option" where
  "read_body msg_length pos chn =
     (if f_msg_buf_fill chn < 5 + msg_length
      then copy_bytes (5 + msg_length - f_msg_buf_fill chn) pos chn else Some (pos, chn))"

definition read_end :: "nat \<Rightarrow> nat \<Rightarrow> channel_fd_t \<Rightarrow> (nat \<times> channel_fd_t) option" where
  "read_end msg_length pos chn =
     (if f_msg_buf_fill chn < 5 + msg_length + 1 then
        (if f_read_chunk chn ! pos \<noteq> CHN_FD_END_MAGIC then Some (pos + 1, chn\<lparr>f_msg_buf_fill := 0\<rparr>)
         else do {
           b \<leftarrow> put_cells (f_msg_buf chn) (f_msg_buf_fill chn) [Some CHN_FD_END_MAGIC];
           deliver_msg msg_length (pos + 1)
             (chn\<lparr>f_msg_buf := b, f_msg_buf_fill := f_msg_buf_fill chn + 1\<rparr>) })
      else deliver_msg msg_length pos chn)"

definition chn_fd_process_single_msg :: "nat \<Rightarrow> channel_fd_t \<Rightarrow> (nat \<times> channel_fd_t) option" where
  "chn_fd_process_single_msg pos chn =
     (let readden = length (f_read_chunk chn)
      in if pos \<ge> readden then Some (pos, chn)
      else do {
        (pos, chn) \<leftarrow> seek_start pos chn;
        (if pos \<ge> readden then Some (pos, chn)
         else do {
           (pos, chn) \<leftarrow> read_header pos chn;
           (if pos \<ge> readden then Some (pos, chn)
            else do {
              len \<leftarrow> read_cells (f_msg_buf chn) 1 4;
              (let msg_length = unat (le_u32 len)
               in if msg_length > fc_max_msg_size (f_cfg chn) then Some (pos, chn\<lparr>f_msg_buf_fill := 0\<rparr>)
                  else do {
                    (pos, chn) \<leftarrow> read_body msg_length pos chn;
                    (if pos \<ge> readden then Some (pos, chn) else read_end msg_length pos chn) }) }) }) })"

section \<open>The loops of \<open>chn_fd_refresh\<close>\<close>

text \<open>
  The inner loop over one chunk; a round takes a byte or empties the message buffer, so
  \<open>2 * n + 2\<close> rounds are enough for \<open>n\<close> bytes (\<open>process_chunk_ok\<close>).
\<close>

fun process_chunk :: "nat \<Rightarrow> nat \<Rightarrow> channel_fd_t \<Rightarrow> (nat \<times> channel_fd_t) option" where
  "process_chunk 0 pos chn = None"
| "process_chunk (Suc fuel) pos chn =
     (if pos < length (f_read_chunk chn)
      then do { (pos', chn') \<leftarrow> chn_fd_process_single_msg pos chn; process_chunk fuel pos' chn' }
      else Some (pos, chn))"

text \<open>
  The outer loop; a call of \<open>read\<close> returns at most \<open>read_chunk_size\<close> of the bytes available, and 0
  at the end of the stream.  The result is what ended the loop and the reads left.
\<close>

definition k_read :: "nat \<Rightarrow> byte list \<Rightarrow> int" where
  "k_read n bs = min (int n) (min MAX_RW_COUNT (int (length bs)))"

lemma ssize_to_int_id: "- (2 ^ 31) \<le> n \<Longrightarrow> n < 2 ^ 31 \<Longrightarrow> ssize_to_int n = n"
  by (simp add: ssize_to_int_def sint_sbintrunc' signed_take_bit_int_eq_self)

lemma ssize_to_int_read [simp]: "ssize_to_int (k_read n bs) = k_read n bs"
  by (rule ssize_to_int_id) (auto simp: k_read_def MAX_RW_COUNT_def)

lemma k_read_empty [simp]: "k_read n [] = 0" "ssize_to_int 0 = 0"
  by (simp_all add: k_read_def MAX_RW_COUNT_def ssize_to_int_id)

lemma k_read_bounds [simp]: "0 \<le> k_read n bs" "nat (k_read n bs) \<le> length bs"
  by (auto simp: k_read_def MAX_RW_COUNT_def)

fun read_size :: "read_result \<Rightarrow> nat" where
  "read_size (Data bs) = Suc (length bs)"
| "read_size r = 1"

function refresh_loop ::
    "read_result list \<Rightarrow> channel_fd_t \<Rightarrow> (read_result \<times> read_result list \<times> channel_fd_t) option" where
  "refresh_loop reads chn =
     (case reads of
        [] \<Rightarrow> Some (WouldBlock, [], chn)
      | Data bs # rs \<Rightarrow>
          let readden = ssize_to_int (k_read (fc_read_chunk_size (f_cfg chn)) bs)
          in if readden < 0 then Some (ReadError, rs, chn)
             else if readden = 0 then Some (Eof, rs, chn)
             else do {
               (pos, chn') \<leftarrow> process_chunk (2 * nat readden + 2) 0 (chn\<lparr>f_read_chunk := take (nat readden) bs\<rparr>);
               refresh_loop (if nat readden = length bs then rs else Data (drop (nat readden) bs) # rs) chn' }
      | r # rs \<Rightarrow> Some (r, rs, chn))"
  by pat_completeness auto
termination
  by (relation "measure (\<lambda>(reads, chn). sum_list (map read_size reads))")
    (auto intro!: diff_less split: if_splits)

declare refresh_loop.simps [simp del]

definition chn_fd_refresh :: "channel_fd_t \<Rightarrow> (channel_status_t \<times> channel_fd_t) option" where
  "chn_fd_refresh chn =
     (if f_read_fd chn < 0 then Some (CHN_SUCCESS, chn)
      else do {
        (readden, rest, chn') \<leftarrow> refresh_loop (k_reads chn) chn;
        (if readden = WouldBlock then Some (CHN_SUCCESS, chn'\<lparr>k_reads := rest\<rparr>)
         else Some (CHN_SUCCESS, chn'\<lparr>k_reads := rest, f_read_fd := -1\<rparr>)) })"

definition chn_fd_incoming_len :: "channel_fd_t \<Rightarrow> channel_status_t \<times> nat option" where
  "chn_fd_incoming_len chn =
     peek_len (if f_read_fd chn < 0 then CHN_CANNOT_READ else CHN_NO_INCOMING_MSG) (f_q chn)"

definition chn_fd_receive :: "channel_fd_t \<Rightarrow> nat \<Rightarrow> channel_status_t \<times> byte list option \<times> channel_fd_t" where
  "chn_fd_receive chn len =
     (case take_msg (if f_read_fd chn < 0 then CHN_CANNOT_READ else CHN_NO_INCOMING_MSG) (f_q chn) len of
        (status, out, q) \<Rightarrow> (status, out, chn\<lparr>f_q := q\<rparr>))"

text \<open>
  The implementation table.  Undefined behaviour, which the lemmas below exclude, is shown as
  \<open>CHN_MEM_ERROR\<close>, a status the code never returns.
\<close>

definition or_mem_error :: "channel_fd_t \<Rightarrow> (channel_status_t \<times> channel_fd_t) option \<Rightarrow> channel_status_t \<times> channel_fd_t" where
  "or_mem_error chn r = (case r of None \<Rightarrow> (CHN_MEM_ERROR, chn) | Some x \<Rightarrow> x)"

definition CHANNEL_FD_IMPL ::
    "bool \<Rightarrow> int \<Rightarrow> bool \<Rightarrow> (channel_fd_t, channel_fd_config_t) channel_impl_t" where
  "CHANNEL_FD_IMPL mutex_fails dup_result fcntl_ok =
     \<lparr>ci_constructor = new_channel_fd mutex_fails dup_result fcntl_ok,
      ci_destructor = (\<lambda>c. fst (delete_channel_fd c)),
      ci_max_msg_size = chn_fd_max_msg_size,
      ci_send = (\<lambda>c msg. or_mem_error c (chn_fd_send c msg)),
      ci_refresh = (\<lambda>c. or_mem_error c (chn_fd_refresh c)),
      ci_incoming_len = chn_fd_incoming_len,
      ci_receive = chn_fd_receive\<rparr>"

section \<open>The receiver as an automaton\<close>

definition frame_len :: "byte list \<Rightarrow> nat" where
  "frame_len acc = unat (le_u32 (drop 1 acc))"

text \<open>A frame announcing more than \<open>mms\<close> bytes is forgotten as soon as its length is known.\<close>

definition settle :: "nat \<Rightarrow> byte list \<Rightarrow> byte list" where
  "settle mms acc = (if length acc = 5 \<and> mms < frame_len acc then [] else acc)"

definition feed :: "nat \<Rightarrow> byte list \<Rightarrow> byte \<Rightarrow> byte list \<times> byte list list" where
  "feed mms acc b =
     (if acc = [] then (if b = CHN_FD_START_MAGIC then [b] else [], [])
      else if length acc < 5 then (settle mms (acc @ [b]), [])
      else if length acc < 5 + frame_len acc then (acc @ [b], [])
      else ([], if b = CHN_FD_END_MAGIC \<and> frame_len acc \<noteq> 0 then [drop 5 acc] else []))"

fun feed_all :: "nat \<Rightarrow> byte list \<Rightarrow> byte list \<Rightarrow> byte list \<times> byte list list" where
  "feed_all mms acc [] = (acc, [])"
| "feed_all mms acc (b # bs) =
     (case feed mms acc b of (acc', ms) \<Rightarrow>
        case feed_all mms acc' bs of (acc'', ms') \<Rightarrow> (acc'', ms @ ms'))"

definition store_all :: "bool \<Rightarrow> byte list list \<Rightarrow> channel_msg_t queue_t \<Rightarrow> channel_msg_t queue_t" where
  "store_all wo ms q = fold (\<lambda>m q. snd (store_msg wo m q)) ms q"

lemma feed_all_append:
  "feed_all mms acc (xs @ ys) =
     (case feed_all mms acc xs of (acc', ms) \<Rightarrow>
        case feed_all mms acc' ys of (acc'', ms') \<Rightarrow> (acc'', ms @ ms'))"
  by (induction xs arbitrary: acc) (auto split: prod.split)

lemma store_all_append: "store_all wo (ms @ ms') q = store_all wo ms' (store_all wo ms q)"
  by (simp add: store_all_def)

lemma store_all_simps [simp]:
  "store_all wo [] q = q" "store_all wo [m] q = snd (store_msg wo m q)"
  by (simp_all add: store_all_def)

lemma frame_len_append: "5 \<le> length acc \<Longrightarrow> frame_len (acc @ bs) = frame_len acc"
  by (simp add: frame_len_def le_u32_def nth_append)

lemma settle_short [simp]: "length acc < 5 \<Longrightarrow> settle mms acc = acc"
  by (simp add: settle_def)

lemma settle_nil [simp]: "settle mms [] = []"
  by (simp add: settle_def)

lemma feed_all_header:
  "acc \<noteq> [] \<Longrightarrow> bs \<noteq> [] \<Longrightarrow> length acc + length bs \<le> 5 \<Longrightarrow>
   feed_all mms acc bs = (settle mms (acc @ bs), [])"
proof (induction bs arbitrary: acc)
  case (Cons b bs)
  show ?case
  proof (cases bs)
    case Nil
    with Cons.prems show ?thesis by (simp add: feed_def)
  next
    case (Cons c cs)
    with Cons.IH [of "acc @ [b]"] Cons.prems show ?thesis by (simp add: feed_def)
  qed
qed simp

lemma feed_all_body:
  "5 \<le> length acc \<Longrightarrow> length acc + length bs \<le> 5 + frame_len acc \<Longrightarrow>
   feed_all mms acc bs = (acc @ bs, [])"
proof (induction bs arbitrary: acc)
  case (Cons b bs)
  then have "acc \<noteq> []" by auto
  with Cons.IH [of "acc @ [b]"] Cons.prems show ?case by (simp add: feed_def frame_len_append)
qed simp

section \<open>The code follows the automaton\<close>

text \<open>\<open>acc\<close> is what the message buffer holds; a too long frame may still be in it.\<close>

definition rx_rel :: "channel_fd_t \<Rightarrow> byte list \<Rightarrow> bool" where [inv_defs]:
  "rx_rel chn acc \<longleftrightarrow>
     f_msg_buf_fill chn = length acc \<and> take (length acc) (f_msg_buf chn) = map Some acc \<and>
     length (f_msg_buf chn) = CHN_FD_MSG_SIZE (fc_max_msg_size (f_cfg chn)) \<and>
     (5 < length acc \<longrightarrow> frame_len acc \<le> fc_max_msg_size (f_cfg chn) \<and> length acc \<le> 5 + frame_len acc)"

abbreviation mms_of :: "channel_fd_t \<Rightarrow> nat" where
  "mms_of chn \<equiv> fc_max_msg_size (f_cfg chn)"

definition follows :: "channel_fd_t \<Rightarrow> byte list \<Rightarrow> byte list \<Rightarrow> channel_fd_t \<Rightarrow> byte list \<Rightarrow> bool" where
  "follows chn acc bs chn' acc' \<longleftrightarrow>
     (\<exists>ms b n. feed_all (mms_of chn) (settle (mms_of chn) acc) bs = (settle (mms_of chn) acc', ms) \<and>
        rx_rel chn' acc' \<and>
        chn' = chn\<lparr>f_msg_buf := b, f_msg_buf_fill := n,
                   f_q := store_all (fc_write_over (f_cfg chn)) ms (f_q chn)\<rparr>)"

lemma followsI:
  "feed_all (mms_of chn) (settle (mms_of chn) acc) bs = (settle (mms_of chn) acc', ms) \<Longrightarrow>
   rx_rel chn' acc' \<Longrightarrow>
   chn' = chn\<lparr>f_msg_buf := b, f_msg_buf_fill := n,
              f_q := store_all (fc_write_over (f_cfg chn)) ms (f_q chn)\<rparr> \<Longrightarrow>
   follows chn acc bs chn' acc'"
  unfolding follows_def by blast

lemma follows_cfg: "follows chn acc bs chn' acc' \<Longrightarrow> f_cfg chn' = f_cfg chn \<and> f_read_chunk chn' = f_read_chunk chn"
  by (auto simp: follows_def)

lemma follows_rel: "follows chn acc bs chn' acc' \<Longrightarrow> rx_rel chn' acc'"
  unfolding follows_def by blast

lemma follows_refl: "rx_rel chn acc \<Longrightarrow> follows chn acc [] chn acc"
  unfolding follows_def
  by (intro exI [of _ "[]"] exI [of _ "f_msg_buf chn"] exI [of _ "f_msg_buf_fill chn"]) simp

lemma follows_trans:
  assumes "follows chn acc bs chn1 acc1" "follows chn1 acc1 bs1 chn2 acc2"
  shows "follows chn acc (bs @ bs1) chn2 acc2"
proof -
  from assms(1) obtain ms b n where 1:
    "feed_all (mms_of chn) (settle (mms_of chn) acc) bs = (settle (mms_of chn) acc1, ms)"
    "chn1 = chn\<lparr>f_msg_buf := b, f_msg_buf_fill := n,
                f_q := store_all (fc_write_over (f_cfg chn)) ms (f_q chn)\<rparr>"
    by (auto simp: follows_def)
  from assms(2) 1(2) obtain ms' b' n' where 2:
    "feed_all (mms_of chn) (settle (mms_of chn) acc1) bs1 = (settle (mms_of chn) acc2, ms')"
    "rx_rel chn2 acc2"
    "chn2 = chn1\<lparr>f_msg_buf := b', f_msg_buf_fill := n',
                 f_q := store_all (fc_write_over (f_cfg chn)) ms' (f_q chn1)\<rparr>"
    by (auto simp: follows_def)
  have "chn2 = chn\<lparr>f_msg_buf := b', f_msg_buf_fill := n',
      f_q := store_all (fc_write_over (f_cfg chn)) (ms @ ms') (f_q chn)\<rparr>"
    using 1(2) 2(3) by (simp add: store_all_append)
  with 1(1) 2(1,2) show ?thesis
    unfolding follows_def by (intro exI [of _ "ms @ ms'"] exI [of _ b'] exI [of _ n']) (simp add: feed_all_append)
qed

text \<open>Bytes appended to the message buffer.\<close>

lemma append_bytes:
  assumes "rx_rel chn acc" "length acc + length bs \<le> CHN_FD_MSG_SIZE (mms_of chn)"
  shows "\<exists>b. put_cells (f_msg_buf chn) (length acc) (map Some bs) = Some b \<and>
    length b = length (f_msg_buf chn) \<and> take (length (acc @ bs)) b = map Some (acc @ bs)"
  using assms by (auto simp: rx_rel_def put_cells_def)

lemma copy_follows:
  assumes rel: "rx_rel chn acc" and pos: "pos < length (f_read_chunk chn)" and need: "0 < needed"
    and fit: "(acc \<noteq> [] \<and> length acc + needed = 5) \<or>
      (5 \<le> length acc \<and> frame_len acc \<le> mms_of chn \<and> length acc + needed = 5 + frame_len acc)"
  shows "\<exists>pos' chn' bs. copy_bytes needed pos chn = Some (pos', chn') \<and> pos < pos' \<and>
    pos' \<le> length (f_read_chunk chn) \<and> bs = take (pos' - pos) (drop pos (f_read_chunk chn)) \<and>
    (pos' < length (f_read_chunk chn) \<longrightarrow> length bs = needed) \<and> follows chn acc bs chn' (acc @ bs)"
proof -
  define n where "n = (if length (f_read_chunk chn) - pos > needed then needed else length (f_read_chunk chn) - pos)"
  define bs where "bs = take n (drop pos (f_read_chunk chn))"
  have n: "0 < n" "n \<le> needed" "length bs = n" "pos + n \<le> length (f_read_chunk chn)"
    "pos + n < length (f_read_chunk chn) \<longrightarrow> n = needed"
    using pos need by (auto simp: n_def bs_def)
  then have ne: "bs \<noteq> []" by auto
  have room: "length acc + length bs \<le> CHN_FD_MSG_SIZE (mms_of chn)"
    using n fit by (auto simp: CHN_FD_MSG_SIZE_def)
  from append_bytes [OF rel this] obtain b where
    b: "put_cells (f_msg_buf chn) (length acc) (map Some bs) = Some b"
      "length b = length (f_msg_buf chn)" "take (length (acc @ bs)) b = map Some (acc @ bs)" by blast
  let ?chn = "chn\<lparr>f_msg_buf := b, f_msg_buf_fill := length acc + n\<rparr>"
  have feed: "feed_all (mms_of chn) (settle (mms_of chn) acc) bs = (settle (mms_of chn) (acc @ bs), [])"
    using fit
  proof
    assume "acc \<noteq> [] \<and> length acc + needed = 5"
    with n ne need show ?thesis by (simp add: feed_all_header)
  next
    assume a: "5 \<le> length acc \<and> frame_len acc \<le> mms_of chn \<and> length acc + needed = 5 + frame_len acc"
    moreover from this n have "settle (mms_of chn) acc = acc" "settle (mms_of chn) (acc @ bs) = acc @ bs"
      by (auto simp: settle_def)
    ultimately show ?thesis using n by (simp add: feed_all_body)
  qed
  have "rx_rel ?chn (acc @ bs)"
    using rel b n fit by (auto simp: rx_rel_def frame_len_append)
  with feed have "follows chn acc bs ?chn (acc @ bs)"
    unfolding follows_def by (intro exI [of _ "[]"] exI [of _ b] exI [of _ "length acc + n"]) simp
  moreover have "copy_bytes needed pos chn = Some (pos + n, ?chn)"
    using b(1) rel by (simp add: copy_bytes_def n_def [symmetric] bs_def [symmetric] rx_rel_def Let_def)
  ultimately show ?thesis using n by (intro exI [of _ "pos + n"] exI [of _ ?chn] exI [of _ bs]) (simp add: bs_def)
qed

lemma find_start_spec:
  "find_start bs pos = (p, found) \<Longrightarrow>
   pos + (if bs = [] then 0 else 1) \<le> p \<and> p \<le> pos + length bs \<and>
   feed_all mms [] (take (p - pos) bs) = (if found then [CHN_FD_START_MAGIC] else [], []) \<and>
   (\<not> found \<longrightarrow> p = pos + length bs)"
proof (induction bs arbitrary: pos)
  case (Cons b bs)
  show ?case
  proof (cases "b = CHN_FD_START_MAGIC")
    case True
    with Cons.prems show ?thesis by (auto simp: feed_def)
  next
    case False
    with Cons.prems have "find_start bs (pos + 1) = (p, found)" by simp
    from Cons.IH [OF this] have IH: "pos + 1 \<le> p" "p \<le> pos + 1 + length bs"
      "feed_all mms [] (take (p - (pos + 1)) bs) = (if found then [CHN_FD_START_MAGIC] else [], [])"
      "\<not> found \<longrightarrow> p = pos + 1 + length bs" by (auto split: if_splits)
    then have "p - pos = Suc (p - (pos + 1))" by arith
    then have "take (p - pos) (b # bs) = b # take (p - (pos + 1)) bs" by simp
    with IH False show ?thesis by (simp add: feed_def)
  qed
qed simp

abbreviation slice :: "channel_fd_t \<Rightarrow> nat \<Rightarrow> nat \<Rightarrow> byte list" where
  "slice chn pos pos' \<equiv> take (pos' - pos) (drop pos (f_read_chunk chn))"

lemma slice_append: "pos \<le> p \<Longrightarrow> p \<le> p' \<Longrightarrow> slice chn pos p @ slice chn p p' = slice chn pos p'"
  by (auto simp: le_iff_add take_add add.commute)

text \<open>After each block: the bytes between the two positions were fed to the automaton.\<close>

definition advanced :: "nat \<Rightarrow> channel_fd_t \<Rightarrow> byte list \<Rightarrow> nat \<Rightarrow> channel_fd_t \<Rightarrow> byte list \<Rightarrow> bool" where
  "advanced pos chn acc pos' chn' acc' \<longleftrightarrow>
     pos \<le> pos' \<and> pos' \<le> length (f_read_chunk chn) \<and> follows chn acc (slice chn pos pos') chn' acc'"

lemma advanced_trans:
  assumes "advanced pos chn acc pos1 chn1 acc1" "advanced pos1 chn1 acc1 pos2 chn2 acc2"
  shows "advanced pos chn acc pos2 chn2 acc2"
proof -
  have "f_read_chunk chn1 = f_read_chunk chn" using assms(1) follows_cfg by (auto simp: advanced_def)
  with assms show ?thesis
    using follows_trans [of chn acc "slice chn pos pos1" chn1 acc1 "slice chn1 pos1 pos2" chn2 acc2]
      slice_append [of pos pos1 pos2 chn]
    by (auto simp: advanced_def)
qed

lemma advanced_refl: "rx_rel chn acc \<Longrightarrow> pos \<le> length (f_read_chunk chn) \<Longrightarrow> advanced pos chn acc pos chn acc"
  by (simp add: advanced_def follows_refl)

lemma seek_start_ok:
  assumes rel: "rx_rel chn acc" and pos: "pos < length (f_read_chunk chn)"
  shows "\<exists>pos' chn' acc'. seek_start pos chn = Some (pos', chn') \<and> advanced pos chn acc pos' chn' acc' \<and>
    (pos' < length (f_read_chunk chn) \<longrightarrow> acc' \<noteq> []) \<and> (acc = [] \<longrightarrow> pos < pos')"
proof (cases "acc = []")
  case False
  then have "seek_start pos chn = Some (pos, chn)" using rel by (simp add: seek_start_def rx_rel_def)
  with False advanced_refl [OF rel, of pos] pos show ?thesis by auto
next
  case True
  obtain p found where p: "find_start (drop pos (f_read_chunk chn)) pos = (p, found)" by fastforce
  note spec = find_start_spec [OF p, of "mms_of chn"]
  have fill: "f_msg_buf_fill chn = 0" using rel True by (simp add: rx_rel_def)
  show ?thesis
  proof (cases found)
    case found: False
    have "feed_all (mms_of chn) [] (slice chn pos p) = (if found then [CHN_FD_START_MAGIC] else [], [])"
      using spec by blast
    then have "feed_all (mms_of chn) [] (slice chn pos p) = ([], [])" by (simp only: found if_False)
    then have "follows chn acc (slice chn pos p) chn []"
      by (intro followsI [where ms = "[]" and b = "f_msg_buf chn" and n = "f_msg_buf_fill chn"])
        (use rel True in simp_all)
    with spec found pos fill p show ?thesis
      by (intro exI [of _ p] exI [of _ chn] exI [of _ "[]"]) (auto simp: seek_start_def advanced_def split: if_splits)
  next
    case found: True
    from append_bytes [OF rel, of "[CHN_FD_START_MAGIC]"] True obtain b where
      b: "put_cells (f_msg_buf chn) 0 [Some CHN_FD_START_MAGIC] = Some b" "length b = length (f_msg_buf chn)"
        "take 1 b = [Some CHN_FD_START_MAGIC]" by (auto simp: CHN_FD_MSG_SIZE_def)
    let ?chn = "chn\<lparr>f_msg_buf := b, f_msg_buf_fill := 1\<rparr>"
    have "rx_rel ?chn [CHN_FD_START_MAGIC]" using rel b by (simp add: rx_rel_def)
    then have "follows chn acc (slice chn pos p) ?chn [CHN_FD_START_MAGIC]"
      by (intro followsI [where ms = "[]" and b = b and n = 1]) (use spec found True in simp_all)
    with spec found pos fill p b(1) show ?thesis
      by (intro exI [of _ p] exI [of _ ?chn] exI [of _ "[CHN_FD_START_MAGIC]"])
        (auto simp: seek_start_def advanced_def split: if_splits)
  qed
qed

lemma read_header_ok:
  assumes rel: "rx_rel chn acc" and pos: "pos < length (f_read_chunk chn)" and ne: "acc \<noteq> []"
  shows "\<exists>pos' chn' acc'. read_header pos chn = Some (pos', chn') \<and> advanced pos chn acc pos' chn' acc' \<and>
    (pos' < length (f_read_chunk chn) \<longrightarrow> 5 \<le> length acc') \<and> (length acc < 5 \<longrightarrow> pos < pos')"
proof (cases "length acc < 5")
  case False
  then have "read_header pos chn = Some (pos, chn)" using rel by (simp add: read_header_def rx_rel_def)
  with False advanced_refl [OF rel, of pos] pos show ?thesis by (auto simp: not_less)
next
  case True
  let ?need = "5 - length acc"
  from copy_follows [OF rel pos, of ?need] True ne obtain pos' chn' bs where
    c: "copy_bytes ?need pos chn = Some (pos', chn')" "pos < pos'" "pos' \<le> length (f_read_chunk chn)"
      "bs = slice chn pos pos'" "pos' < length (f_read_chunk chn) \<longrightarrow> length bs = ?need"
      "follows chn acc bs chn' (acc @ bs)" by auto
  moreover have "read_header pos chn = copy_bytes ?need pos chn"
    using rel True by (simp add: read_header_def rx_rel_def)
  ultimately show ?thesis using True
    by (intro exI [of _ pos'] exI [of _ chn'] exI [of _ "acc @ bs"]) (auto simp: advanced_def)
qed

lemma read_body_ok:
  assumes rel: "rx_rel chn acc" and pos: "pos < length (f_read_chunk chn)" and five: "5 \<le> length acc"
    and len: "frame_len acc \<le> mms_of chn"
  shows "\<exists>pos' chn' acc'. read_body (frame_len acc) pos chn = Some (pos', chn') \<and>
    advanced pos chn acc pos' chn' acc' \<and> frame_len acc' = frame_len acc \<and>
    (pos' < length (f_read_chunk chn) \<longrightarrow> length acc' = 5 + frame_len acc)"
proof (cases "length acc < 5 + frame_len acc")
  case False
  then have "read_body (frame_len acc) pos chn = Some (pos, chn)" "length acc = 5 + frame_len acc"
    using rel five by (auto simp: read_body_def rx_rel_def)
  with advanced_refl [OF rel, of pos] pos show ?thesis by auto
next
  case True
  let ?need = "5 + frame_len acc - length acc"
  from copy_follows [OF rel pos, of ?need] True five len obtain pos' chn' bs where
    c: "copy_bytes ?need pos chn = Some (pos', chn')" "pos < pos'" "pos' \<le> length (f_read_chunk chn)"
      "bs = slice chn pos pos'" "pos' < length (f_read_chunk chn) \<longrightarrow> length bs = ?need"
      "follows chn acc bs chn' (acc @ bs)" by auto
  moreover have "read_body (frame_len acc) pos chn = copy_bytes ?need pos chn"
    using rel True by (simp add: read_body_def rx_rel_def)
  ultimately show ?thesis using True
    by (intro exI [of _ pos'] exI [of _ chn'] exI [of _ "acc @ bs"])
      (auto simp: advanced_def frame_len_append [OF five])
qed

lemma read_cells_take:
  "take (i + n) mem = map Some xs \<Longrightarrow> i + n = length xs \<Longrightarrow> i + n \<le> length mem \<Longrightarrow>
   read_cells mem i n = Some (drop i xs)"
proof -
  assume a: "take (i + n) mem = map Some xs" "i + n = length xs" "i + n \<le> length mem"
  have "take n (drop i mem) = drop i (take (i + n) mem)" by (simp add: drop_take)
  with a have "take n (drop i mem) = map Some (drop i xs)" by (simp add: drop_map)
  with a show ?thesis by (simp add: read_cells_def list_all_iff comp_def)
qed

lemma frame_len_cells:
  assumes "rx_rel chn acc" "5 \<le> length acc"
  shows "\<exists>len. read_cells (f_msg_buf chn) 1 4 = Some len \<and> unat (le_u32 len) = frame_len acc"
proof -
  have "take 5 (take (length acc) (f_msg_buf chn)) = take 5 (map Some acc)"
    using assms(1) by (simp only: rx_rel_def)
  then have "take (1 + 4) (f_msg_buf chn) = map Some (take 5 acc)"
    using assms(2) by (simp add: take_map)
  then have "read_cells (f_msg_buf chn) 1 4 = Some (drop 1 (take 5 acc))"
    by (rule read_cells_take) (use assms in \<open>simp_all add: rx_rel_def CHN_FD_MSG_SIZE_def\<close>)
  moreover have "le_u32 (drop 1 (take 5 acc)) = le_u32 (drop 1 acc)"
    using assms(2) by (simp add: le_u32_def)
  ultimately show ?thesis by (simp add: frame_len_def)
qed

lemma deliver_ok:
  assumes len: "length acc = 5 + frame_len acc" "frame_len acc \<le> mms_of chn"
    and buf: "take (length acc) (f_msg_buf chn) = map Some acc"
      "length (f_msg_buf chn) = CHN_FD_MSG_SIZE (mms_of chn)"
  shows "\<exists>chn'. deliver_msg (frame_len acc) pos chn = Some (pos, chn') \<and> rx_rel chn' [] \<and>
    chn' = chn\<lparr>f_msg_buf_fill := 0, f_q := store_all (fc_write_over (f_cfg chn))
       (if frame_len acc = 0 then [] else [drop 5 acc]) (f_q chn)\<rparr>"
proof -
  have "read_cells (f_msg_buf chn) 5 (frame_len acc) = Some (drop 5 acc)"
    by (rule read_cells_take) (use len buf in \<open>simp_all add: CHN_FD_MSG_SIZE_def\<close>)
  then show ?thesis using len buf
    by (auto simp: deliver_msg_def rx_rel_def Let_def store_msg_def)
qed

lemma read_end_ok:
  assumes rel: "rx_rel chn acc" and pos: "pos < length (f_read_chunk chn)"
    and len: "length acc = 5 + frame_len acc" "frame_len acc \<le> mms_of chn"
  shows "\<exists>pos' chn'. read_end (frame_len acc) pos chn = Some (pos', chn') \<and> advanced pos chn acc pos' chn' [] \<and>
    pos < pos'"
proof -
  let ?b = "f_read_chunk chn ! pos"
  have slice: "slice chn pos (pos + 1) = [?b]" using pos by (simp add: take_Suc_conv_app_nth hd_drop_conv_nth take_Suc)
  have settle: "settle (mms_of chn) acc = acc" using len by (simp add: settle_def)
  have fill: "f_msg_buf_fill chn < 5 + frame_len acc + 1" using rel len by (simp add: rx_rel_def)
  have ne: "acc \<noteq> []" using len by auto
  show ?thesis
  proof (cases "?b = CHN_FD_END_MAGIC")
    case False
    let ?chn = "chn\<lparr>f_msg_buf_fill := 0\<rparr>"
    have "rx_rel ?chn []" using rel by (simp add: rx_rel_def)
    then have "follows chn acc [?b] ?chn []"
      by (intro followsI [where ms = "[]" and b = "f_msg_buf chn" and n = 0])
        (use settle len ne False in \<open>simp_all add: feed_def\<close>)
    with fill pos False slice show ?thesis
      by (intro exI [of _ "pos + 1"] exI [of _ ?chn]) (simp add: read_end_def advanced_def)
  next
    case True
    from append_bytes [OF rel, of "[CHN_FD_END_MAGIC]"] len obtain b where
      b: "put_cells (f_msg_buf chn) (length acc) [Some CHN_FD_END_MAGIC] = Some b"
        "length b = length (f_msg_buf chn)" "take (length acc + 1) b = map Some (acc @ [CHN_FD_END_MAGIC])"
      by (auto simp: CHN_FD_MSG_SIZE_def)
    let ?chn = "chn\<lparr>f_msg_buf := b, f_msg_buf_fill := length acc + 1\<rparr>"
    have "take (length acc) b = take (length acc) (take (length acc + 1) b)" by simp
    then have "take (length acc) b = map Some acc" by (simp only: b(3)) simp
    with deliver_ok [of acc ?chn "pos + 1"] len b rel obtain chn' where
      d: "deliver_msg (frame_len acc) (pos + 1) ?chn = Some (pos + 1, chn')" "rx_rel chn' []"
        "chn' = chn\<lparr>f_msg_buf := b, f_msg_buf_fill := 0, f_q := store_all (fc_write_over (f_cfg chn))
           (if frame_len acc = 0 then [] else [drop 5 acc]) (f_q chn)\<rparr>"
      by (auto simp: rx_rel_def)
    have "follows chn acc [?b] chn' []"
      by (rule followsI [OF _ d(2,3)]) (use settle len ne True in \<open>simp add: feed_def\<close>)
    moreover have "read_end (frame_len acc) pos chn = Some (pos + 1, chn')"
      using fill True b(1) d(1) rel by (simp add: read_end_def rx_rel_def)
    ultimately show ?thesis using pos slice
      by (intro exI [of _ "pos + 1"] exI [of _ chn']) (simp add: advanced_def)
  qed
qed

lemma reset_ok:
  assumes rel: "rx_rel chn acc" and acc: "5 \<le> length acc" "mms_of chn < frame_len acc"
    and pos: "pos \<le> length (f_read_chunk chn)"
  shows "advanced pos chn acc pos (chn\<lparr>f_msg_buf_fill := 0\<rparr>) []"
proof -
  have "length acc = 5" using rel acc by (auto simp: rx_rel_def)
  then have "settle (mms_of chn) acc = []" using acc by (simp add: settle_def)
  then have "follows chn acc [] (chn\<lparr>f_msg_buf_fill := 0\<rparr>) []"
    by (intro followsI [where ms = "[]" and b = "f_msg_buf chn" and n = 0]) (use rel in \<open>simp_all add: rx_rel_def\<close>)
  then show ?thesis using pos by (simp add: advanced_def)
qed

lemma advanced_same:
  "advanced pos chn acc pos' chn' acc' \<Longrightarrow>
   rx_rel chn' acc' \<and> f_cfg chn' = f_cfg chn \<and> f_read_chunk chn' = f_read_chunk chn \<and> pos \<le> pos'"
  using follows_cfg follows_rel unfolding advanced_def by blast

text \<open>One call feeds some bytes, or at least gives up a frame that is too long.\<close>

definition progressed :: "nat \<Rightarrow> byte list \<Rightarrow> nat \<Rightarrow> byte list \<Rightarrow> bool" where
  "progressed pos acc pos' acc' \<longleftrightarrow> pos < pos' \<or> pos = pos' \<and> acc \<noteq> [] \<and> acc' = []"

lemma body_and_end_ok:
  assumes rel: "rx_rel chn acc" and pos: "pos < length (f_read_chunk chn)" and five: "5 \<le> length acc"
    and len: "frame_len acc \<le> mms_of chn"
  shows "\<exists>pos' chn' acc'. do { (p, c) \<leftarrow> read_body (frame_len acc) pos chn;
       (if p \<ge> length (f_read_chunk chn) then Some (p, c) else read_end (frame_len acc) p c) } =
      Some (pos', chn') \<and> advanced pos chn acc pos' chn' acc' \<and> pos < pos'"
proof -
  from read_body_ok [OF assms] obtain pos1 chn1 acc1 where
    1: "read_body (frame_len acc) pos chn = Some (pos1, chn1)" "advanced pos chn acc pos1 chn1 acc1"
      "frame_len acc1 = frame_len acc" "pos1 < length (f_read_chunk chn) \<longrightarrow> length acc1 = 5 + frame_len acc"
    by blast
  note same = advanced_same [OF 1(2)]
  show ?thesis
  proof (cases "pos1 < length (f_read_chunk chn)")
    case False
    with 1 same pos show ?thesis
      by (intro exI [of _ pos1] exI [of _ chn1] exI [of _ acc1]) simp
  next
    case True
    with read_end_ok [of chn1 acc1 pos1] 1 same len obtain pos2 chn2 where
      2: "read_end (frame_len acc) pos1 chn1 = Some (pos2, chn2)" "advanced pos1 chn1 acc1 pos2 chn2 []" "pos1 < pos2"
      by auto
    from True 1 2 same advanced_trans [OF 1(2) 2(2)] show ?thesis
      by (intro exI [of _ pos2] exI [of _ chn2] exI [of _ "[]"]) simp
  qed
qed

lemma after_header_ok:
  assumes rel: "rx_rel chn acc" and pos: "pos < length (f_read_chunk chn)" and five: "5 \<le> length acc"
  shows "\<exists>pos' chn' acc'. do {
       len \<leftarrow> read_cells (f_msg_buf chn) 1 4;
       (let msg_length = unat (le_u32 len)
        in if msg_length > fc_max_msg_size (f_cfg chn) then Some (pos, chn\<lparr>f_msg_buf_fill := 0\<rparr>)
           else do {
             (p, c) \<leftarrow> read_body msg_length pos chn;
             (if p \<ge> length (f_read_chunk chn) then Some (p, c) else read_end msg_length p c) }) } =
      Some (pos', chn') \<and> advanced pos chn acc pos' chn' acc' \<and> progressed pos acc pos' acc'"
proof -
  from frame_len_cells [OF rel five] obtain len where
    len: "read_cells (f_msg_buf chn) 1 4 = Some len" "unat (le_u32 len) = frame_len acc" by blast
  show ?thesis
  proof (cases "mms_of chn < frame_len acc")
    case True
    have "acc \<noteq> []" using five by auto
    with True len reset_ok [OF rel five True, of pos] pos show ?thesis
      by (intro exI [of _ pos] exI [of _ "chn\<lparr>f_msg_buf_fill := 0\<rparr>"] exI [of _ "[]"])
        (simp add: progressed_def)
  next
    case False
    then have le: "frame_len acc \<le> mms_of chn" by simp
    from body_and_end_ok [OF rel pos five le] obtain pos' chn' acc' where
      "do { (p, c) \<leftarrow> read_body (frame_len acc) pos chn;
       (if p \<ge> length (f_read_chunk chn) then Some (p, c) else read_end (frame_len acc) p c) } =
      Some (pos', chn')" "advanced pos chn acc pos' chn' acc'" "pos < pos'" by blast
    with False len show ?thesis
      by (intro exI [of _ pos'] exI [of _ chn'] exI [of _ acc']) (simp add: progressed_def)
  qed
qed

lemma process_single_msg_ok:
  assumes rel: "rx_rel chn acc" and pos: "pos < length (f_read_chunk chn)"
  shows "\<exists>pos' chn' acc'. chn_fd_process_single_msg pos chn = Some (pos', chn') \<and>
    advanced pos chn acc pos' chn' acc' \<and> progressed pos acc pos' acc'"
proof -
  let ?n = "length (f_read_chunk chn)"
  from seek_start_ok [OF rel pos] obtain pos1 chn1 acc1 where
    1: "seek_start pos chn = Some (pos1, chn1)" "advanced pos chn acc pos1 chn1 acc1"
      "pos1 < ?n \<longrightarrow> acc1 \<noteq> []" "acc = [] \<longrightarrow> pos < pos1" by blast
  note same1 = advanced_same [OF 1(2)]
  show ?thesis
  proof (cases "pos1 < ?n")
    case False
    with 1 same1 pos show ?thesis
      by (intro exI [of _ pos1] exI [of _ chn1] exI [of _ acc1])
        (simp add: chn_fd_process_single_msg_def progressed_def)
  next
    case True
    with read_header_ok [of chn1 acc1 pos1] 1 same1 obtain pos2 chn2 acc2 where
      2: "read_header pos1 chn1 = Some (pos2, chn2)" "advanced pos1 chn1 acc1 pos2 chn2 acc2"
        "pos2 < ?n \<longrightarrow> 5 \<le> length acc2" "length acc1 < 5 \<longrightarrow> pos1 < pos2" by auto
    note same2 = advanced_same [OF 2(2)] and tr = advanced_trans [OF 1(2) 2(2)]
    show ?thesis
    proof (cases "pos2 < ?n")
      case False
      with True 1 2 same1 same2 pos tr show ?thesis
        by (intro exI [of _ pos2] exI [of _ chn2] exI [of _ acc2])
          (simp add: chn_fd_process_single_msg_def progressed_def)
    next
      case more: True
      have n2: "length (f_read_chunk chn2) = ?n" using same1 same2 by simp
      have "pos2 < length (f_read_chunk chn2)" "5 \<le> length acc2" using n2 more 2(3) by simp_all
      from after_header_ok [OF conjunct1 [OF same2] this, unfolded n2] obtain pos3 chn3 acc3 where
        3: "do {
         len \<leftarrow> read_cells (f_msg_buf chn2) 1 4;
         (let msg_length = unat (le_u32 len)
          in if msg_length > fc_max_msg_size (f_cfg chn2) then Some (pos2, chn2\<lparr>f_msg_buf_fill := 0\<rparr>)
             else do {
               (pos, chn) \<leftarrow> read_body msg_length pos2 chn2;
               (if pos \<ge> ?n then Some (pos, chn) else read_end msg_length pos chn) }) } =
          Some (pos3, chn3)" "advanced pos2 chn2 acc2 pos3 chn3 acc3" "progressed pos2 acc2 pos3 acc3"
        by blast
      have "chn_fd_process_single_msg pos chn = Some (pos3, chn3)"
        using pos True more 1(1) 2(1) 3(1) by (simp add: chn_fd_process_single_msg_def)
      moreover have "progressed pos acc pos3 acc3"
        using 3(3) 1(4) same1 same2 by (auto simp: progressed_def)
      ultimately show ?thesis using advanced_trans [OF tr 3(2)] by blast
    qed
  qed
qed

section \<open>The loops\<close>

lemma process_chunk_ok:
  "rx_rel chn acc \<Longrightarrow> pos \<le> length (f_read_chunk chn) \<Longrightarrow>
   2 * (length (f_read_chunk chn) - pos) + (if acc = [] then 0 else 1) < fuel \<Longrightarrow>
   \<exists>chn' acc'. process_chunk fuel pos chn = Some (length (f_read_chunk chn), chn') \<and>
     advanced pos chn acc (length (f_read_chunk chn)) chn' acc'"
proof (induction fuel arbitrary: pos chn acc)
  case (Suc fuel)
  show ?case
  proof (cases "pos < length (f_read_chunk chn)")
    case False
    with Suc.prems advanced_refl [OF Suc.prems(1,2)] show ?thesis by auto
  next
    case True
    from process_single_msg_ok [OF Suc.prems(1) True] obtain pos1 chn1 acc1 where
      1: "chn_fd_process_single_msg pos chn = Some (pos1, chn1)" "advanced pos chn acc pos1 chn1 acc1"
        "progressed pos acc pos1 acc1" by blast
    note same = advanced_same [OF 1(2)]
    have le: "pos1 \<le> length (f_read_chunk chn)" using 1(2) by (simp add: advanced_def)
    have "2 * (length (f_read_chunk chn1) - pos1) + (if acc1 = [] then 0 else 1) < fuel"
      using 1(3) Suc.prems(3) same le True by (auto simp: progressed_def split: if_splits)
    with Suc.IH [of chn1 acc1 pos1] same le obtain chn2 acc2 where
      2: "process_chunk fuel pos1 chn1 = Some (length (f_read_chunk chn), chn2)"
        "advanced pos1 chn1 acc1 (length (f_read_chunk chn)) chn2 acc2" by auto
    from advanced_trans [OF 1(2) 2(2)] 1(1) 2(1) True show ?thesis by auto
  qed
qed simp

declare process_chunk.simps [simp del]

text \<open>The bytes that the coming reads deliver before one of them returns nothing.\<close>

fun available :: "read_result list \<Rightarrow> byte list" where
  "available (Data bs # rs) = (if bs = [] then [] else bs @ available rs)"
| "available _ = []"

lemma rx_rel_chunk [simp]: "rx_rel (chn\<lparr>f_read_chunk := c\<rparr>) acc = rx_rel chn acc"
  by (simp add: rx_rel_def)

definition same_rx :: "channel_fd_t \<Rightarrow> channel_fd_t \<Rightarrow> bool" where
  "same_rx chn chn' \<longleftrightarrow> f_cfg chn' = f_cfg chn \<and> f_read_fd chn' = f_read_fd chn \<and>
     f_write_fd chn' = f_write_fd chn \<and> f_write_buf chn' = f_write_buf chn \<and> k_wire chn' = k_wire chn \<and>
     k_writes chn' = k_writes chn"

lemma follows_same_rx: "follows (chn\<lparr>f_read_chunk := c\<rparr>) acc bs chn' acc' \<Longrightarrow> same_rx chn chn'"
  by (auto simp: follows_def same_rx_def)

lemma refresh_loop_ok:
  "rx_rel chn acc \<Longrightarrow> 0 < fc_read_chunk_size (f_cfg chn) \<Longrightarrow>
   \<exists>r rest chn' acc' ms. refresh_loop reads chn = Some (r, rest, chn') \<and> rx_rel chn' acc' \<and>
     feed_all (mms_of chn) (settle (mms_of chn) acc) (available reads) = (settle (mms_of chn) acc', ms) \<and>
     f_q chn' = store_all (fc_write_over (f_cfg chn)) ms (f_q chn) \<and> same_rx chn chn'"
proof (induction reads chn arbitrary: acc rule: refresh_loop.induct)
  case (1 reads chn)
  have stop: ?case if "available reads = []" "refresh_loop reads chn = Some (r, rest, chn)" for r rest
    using that 1(2) by (intro exI [of _ r] exI [of _ rest] exI [of _ chn] exI [of _ acc] exI [of _ "[]"])
      (simp add: same_rx_def)
  show ?case
  proof (cases reads)
    case Nil
    then show ?thesis by (intro stop) (simp_all add: refresh_loop.simps)
  next
    case (Cons r rs)
    show ?thesis
    proof (cases "\<exists>bs. r = Data bs \<and> bs \<noteq> []")
      case False
      then have "available reads = []" using Cons by (cases r) auto
      moreover have "refresh_loop reads chn = Some (if r = Data [] then Eof else r, rs, chn)"
        using False Cons by (cases r) (auto simp: refresh_loop.simps Let_def)
      ultimately show ?thesis by (rule stop)
    next
      case True
      then obtain bs where bs: "r = Data bs" "bs \<noteq> []" by blast
      define readden where "readden = ssize_to_int (k_read (fc_read_chunk_size (f_cfg chn)) bs)"
      define n where "n = nat readden"
      define rs' where "rs' = (if n = length bs then rs else Data (drop n bs) # rs)"
      have r: "0 < readden" using bs 1(3) unfolding readden_def ssize_to_int_read
        by (simp add: k_read_def MAX_RW_COUNT_def)
      have n: "0 < n" "n \<le> length bs" using r by (simp_all add: n_def) (simp add: readden_def)
      let ?chn = "chn\<lparr>f_read_chunk := take n bs\<rparr>"
      have avail: "available reads = take n bs @ available rs'"
        using Cons bs n by (simp add: rs'_def)
      have len: "length (f_read_chunk ?chn) = n" using n by simp
      have "rx_rel ?chn acc" "2 * (length (f_read_chunk ?chn) - 0) + (if acc = [] then 0 else 1) < 2 * n + 2"
        using 1(2) n by auto
      from process_chunk_ok [OF this(1) _ this(2), unfolded len] obtain chn1 acc1 where
        c: "process_chunk (2 * n + 2) 0 ?chn = Some (n, chn1)" "advanced 0 ?chn acc n chn1 acc1"
        by blast
      from c(2) n have f: "follows ?chn acc (take n bs) chn1 acc1" by (simp add: advanced_def)
      then obtain ms where ms: "feed_all (mms_of chn) (settle (mms_of chn) acc) (take n bs) =
          (settle (mms_of chn) acc1, ms)" "rx_rel chn1 acc1"
        "f_q chn1 = store_all (fc_write_over (f_cfg chn)) ms (f_q chn)"
        by (auto simp: follows_def)
      have same: "same_rx chn chn1" using f by (rule follows_same_rx)
      have step: "refresh_loop reads chn = refresh_loop rs' chn1"
        by (subst refresh_loop.simps, simp only: Cons bs(1) list.case read_result.case flip: readden_def)
          (use r c(1) in \<open>simp add: rs'_def flip: n_def\<close>)
      have ex: "\<exists>r rest chn' acc' ms. refresh_loop rs' chn1 = Some (r, rest, chn') \<and> rx_rel chn' acc' \<and>
          feed_all (mms_of chn1) (settle (mms_of chn1) acc1) (available rs') = (settle (mms_of chn1) acc', ms) \<and>
          f_q chn' = store_all (fc_write_over (f_cfg chn1)) ms (f_q chn1) \<and> same_rx chn1 chn'"
        unfolding rs'_def n_def
        by (rule 1(1) [OF Cons bs(1) readden_def]) (use r c(1) ms(2) same 1(3) in \<open>auto simp: same_rx_def n_def\<close>)
      then obtain r2 rest chn2 acc2 ms2 where
        2: "refresh_loop rs' chn1 = Some (r2, rest, chn2)" "rx_rel chn2 acc2"
          "feed_all (mms_of chn1) (settle (mms_of chn1) acc1) (available rs') = (settle (mms_of chn1) acc2, ms2)"
          "f_q chn2 = store_all (fc_write_over (f_cfg chn1)) ms2 (f_q chn1)" "same_rx chn1 chn2"
        by blast
      have cfg: "f_cfg chn1 = f_cfg chn" using same by (simp add: same_rx_def)
      show ?thesis
        using 2 ms same step
        by (intro exI [of _ r2] exI [of _ rest] exI [of _ chn2] exI [of _ acc2] exI [of _ "ms @ ms2"])
          (simp add: cfg avail feed_all_append store_all_append same_rx_def)
    qed
  qed
qed

section \<open>Invariant and interface\<close>

definition fd_inv :: "channel_fd_t \<Rightarrow> bool" where [inv_defs]:
  "fd_inv chn \<longleftrightarrow> (\<exists>acc. rx_rel chn acc) \<and> msgs_inv (mms_of chn) (f_q chn) \<and>
     q_cap (f_q chn) = fc_queue_depth (f_cfg chn) \<and>
     length (f_write_buf chn) = CHN_FD_MSG_SIZE (mms_of chn) \<and> 0 < fc_read_chunk_size (f_cfg chn)"

abbreviation fd_msgs :: "channel_fd_t \<Rightarrow> byte list list" where
  "fd_msgs chn \<equiv> msgs (f_q chn)"

interpretation fd: channel_rx fd_inv fd_msgs mms_of chn_fd_incoming_len chn_fd_receive
proof
  fix c m ms len
  assume inv: "fd_inv c"
  then have q: "msgs_inv (mms_of c) (f_q c)" by (simp add: fd_inv_def)
  show "m \<in> set (fd_msgs c) \<Longrightarrow> 0 < length m \<and> length m \<le> mms_of c"
    using msgs_sizes [OF q] by blast
  show "fd_msgs c = [] \<Longrightarrow> chn_fd_incoming_len c \<in> {(CHN_NO_INCOMING_MSG, None), (CHN_CANNOT_READ, None)}"
    and "fd_msgs c = [] \<Longrightarrow> chn_fd_receive c len = (fst (chn_fd_incoming_len c), None, c)"
    by (simp_all add: chn_fd_incoming_len_def chn_fd_receive_def take_msg_nil)
  assume m: "fd_msgs c = m # ms"
  show "chn_fd_incoming_len c = (CHN_SUCCESS, Some (length m))"
    by (simp add: chn_fd_incoming_len_def take_msg_cons [OF q m])
  show "len < length m \<Longrightarrow> chn_fd_receive c len = (CHN_BUFFER_TOO_SMALL, None, c)"
    by (simp add: chn_fd_receive_def take_msg_cons [OF q m])
  show "length m \<le> len \<Longrightarrow> \<exists>c'. chn_fd_receive c len = (CHN_SUCCESS, Some m, c') \<and> fd_inv c' \<and>
      fd_msgs c' = ms \<and> mms_of c' = mms_of c"
    using take_msg_cons(3) [OF q m, of len "if f_read_fd c < 0 then CHN_CANNOT_READ else CHN_NO_INCOMING_MSG"] inv
    by (auto simp: chn_fd_receive_def fd_inv_def rx_rel_def)
qed

text \<open>The messages the automaton emits are never empty or too long.\<close>

definition settled :: "nat \<Rightarrow> byte list \<Rightarrow> bool" where
  "settled mms acc \<longleftrightarrow> (5 \<le> length acc \<longrightarrow> frame_len acc \<le> mms \<and> length acc \<le> 5 + frame_len acc)"

lemma settled_settle: "rx_rel chn acc \<Longrightarrow> settled (mms_of chn) (settle (mms_of chn) acc)"
  by (auto simp: settled_def settle_def rx_rel_def)

lemma feed_settled:
  assumes "settled mms acc"
  shows "settled mms (fst (feed mms acc b))"
    and "m \<in> set (snd (feed mms acc b)) \<Longrightarrow> 0 < length m \<and> length m \<le> mms"
proof -
  consider "length acc < 5" | "5 \<le> length acc" by linarith
  then show "settled mms (fst (feed mms acc b))"
    by cases (use assms in \<open>auto simp: feed_def settled_def settle_def frame_len_append\<close>)
  show "m \<in> set (snd (feed mms acc b)) \<Longrightarrow> 0 < length m \<and> length m \<le> mms"
    using assms by (auto simp: feed_def settled_def split: if_splits)
qed

lemma feed_all_settled:
  "settled mms acc \<Longrightarrow> feed_all mms acc bs = (acc', ms) \<Longrightarrow>
   settled mms acc' \<and> (\<forall>m \<in> set ms. 0 < length m \<and> length m \<le> mms)"
proof (induction bs arbitrary: acc acc' ms)
  case (Cons b bs)
  obtain acc1 ms1 where 1: "feed mms acc b = (acc1, ms1)" by fastforce
  obtain acc2 ms2 where 2: "feed_all mms acc1 bs = (acc2, ms2)" by fastforce
  from feed_settled(1) [OF Cons.prems(1), of b] 1 have "settled mms acc1" by simp
  from Cons.IH [OF this 2] have IH: "settled mms acc2" "\<forall>m \<in> set ms2. 0 < length m \<and> length m \<le> mms"
    by simp_all
  have "\<forall>m \<in> set ms1. 0 < length m \<and> length m \<le> mms"
    using feed_settled(2) [OF Cons.prems(1), of _ b] 1 by simp
  moreover have "acc' = acc2" "ms = ms1 @ ms2" using Cons.prems(2) 1 2 by simp_all
  ultimately show ?case using IH by (simp only: set_append ball_Un simp_thms)
qed simp

definition fifo_store :: "nat \<Rightarrow> bool \<Rightarrow> byte list list \<Rightarrow> byte list \<Rightarrow> byte list list" where
  "fifo_store cap wo ms m =
     (if length ms < cap then ms @ [m] else if wo then tl ms @ [m] else ms)"

lemma store_all_ok:
  "msgs_inv mms q \<Longrightarrow> \<forall>m \<in> set ms. 0 < length m \<and> length m \<le> mms \<Longrightarrow>
   msgs_inv mms (store_all wo ms q) \<and> q_cap (store_all wo ms q) = q_cap q \<and>
   msgs (store_all wo ms q) = foldl (fifo_store (q_cap q) wo) (msgs q) ms"
proof (induction ms arbitrary: q)
  case (Cons m ms)
  from Cons.prems(2) have "m \<noteq> []" "length m \<le> mms" by auto
  from store_msg_ok [OF Cons.prems(1) this, of wo] obtain q' where
    q': "snd (store_msg wo m q) = q'" "msgs_inv mms q'" "q_cap q' = q_cap q"
      "msgs q' = fifo_store (q_cap q) wo (msgs q) m" by (auto simp: fifo_store_def)
  from Cons.IH [OF q'(2)] Cons.prems(2) q' show ?case by (simp add: store_all_def)
qed simp

definition rx_acc :: "channel_fd_t \<Rightarrow> byte list" where
  "rx_acc chn = settle (mms_of chn) (map the (take (f_msg_buf_fill chn) (f_msg_buf chn)))"

lemma rx_acc_rel: "rx_rel chn acc \<Longrightarrow> rx_acc chn = settle (mms_of chn) acc"
  by (simp add: rx_acc_def rx_rel_def comp_def)

lemma chn_fd_refresh_ok:
  assumes "fd_inv chn" "0 \<le> f_read_fd chn"
    and "feed_all (mms_of chn) (rx_acc chn) (available (k_reads chn)) = (acc', ms)"
  shows "\<exists>chn'. chn_fd_refresh chn = Some (CHN_SUCCESS, chn') \<and> fd_inv chn' \<and> rx_acc chn' = acc' \<and>
    f_cfg chn' = f_cfg chn \<and>
    fd_msgs chn' = foldl (fifo_store (fc_queue_depth (f_cfg chn)) (fc_write_over (f_cfg chn))) (fd_msgs chn) ms"
proof -
  from assms(1) obtain acc where acc: "rx_rel chn acc" by (auto simp: fd_inv_def)
  have chunk: "0 < fc_read_chunk_size (f_cfg chn)" using assms(1) by (simp add: fd_inv_def)
  from refresh_loop_ok [OF acc chunk, of "k_reads chn"] obtain r rest chn1 acc1 ms1 where
    1: "refresh_loop (k_reads chn) chn = Some (r, rest, chn1)" "rx_rel chn1 acc1"
      "feed_all (mms_of chn) (settle (mms_of chn) acc) (available (k_reads chn)) = (settle (mms_of chn) acc1, ms1)"
      "f_q chn1 = store_all (fc_write_over (f_cfg chn)) ms1 (f_q chn)" "same_rx chn chn1" by blast
  have ms: "ms1 = ms" "settle (mms_of chn) acc1 = acc'" using assms(3) 1(3) by (simp_all add: rx_acc_rel [OF acc])
  have sizes: "\<forall>m \<in> set ms. 0 < length m \<and> length m \<le> mms_of chn"
    using feed_all_settled [OF settled_settle [OF acc] 1(3)] ms by simp
  have q: "msgs_inv (mms_of chn) (f_q chn)" "q_cap (f_q chn) = fc_queue_depth (f_cfg chn)"
    using assms(1) by (simp_all add: fd_inv_def)
  define chn2 where "chn2 = (if r = WouldBlock then chn1\<lparr>k_reads := rest\<rparr> else chn1\<lparr>k_reads := rest, f_read_fd := -1\<rparr>)"
  have 2: "f_q chn2 = f_q chn1" "f_cfg chn2 = f_cfg chn" "rx_rel chn2 acc1" "f_write_buf chn2 = f_write_buf chn"
    using 1(2,5) by (simp_all add: chn2_def same_rx_def rx_rel_def)
  have "chn_fd_refresh chn = Some (CHN_SUCCESS, chn2)"
    using assms(2) 1(1) by (simp add: chn_fd_refresh_def chn2_def)
  moreover have "fd_inv chn2"
    using 2 1(4) ms(1) store_all_ok [OF q(1) sizes, of "fc_write_over (f_cfg chn)"] q(2) assms(1)
    by (auto simp: fd_inv_def)
  moreover have "rx_acc chn2 = acc'" using rx_acc_rel [OF 2(3)] 2(2) ms(2) by simp
  ultimately show ?thesis
    using 2 1(4) ms(1) store_all_ok [OF q(1) sizes, of "fc_write_over (f_cfg chn)"] q(2) by auto
qed

section \<open>Frames\<close>

definition frame :: "byte list \<Rightarrow> byte list" where
  "frame msg = CHN_FD_START_MAGIC # u32_le (of_nat (length msg)) @ msg @ [CHN_FD_END_MAGIC]"

lemma length_frame [simp]: "length (frame msg) = CHN_FD_MSG_SIZE (length msg)"
  by (simp add: frame_def CHN_FD_MSG_SIZE_def)

text \<open>Up to the last byte nothing is emitted; with it the message is.\<close>

lemma feed_frame_butlast:
  assumes "length msg \<le> mms" "length msg < 2 ^ 32"
  shows "feed_all mms [] (CHN_FD_START_MAGIC # u32_le (of_nat (length msg)) @ msg) =
    (CHN_FD_START_MAGIC # u32_le (of_nat (length msg)) @ msg, [])"
proof -
  let ?h = "CHN_FD_START_MAGIC # u32_le (of_nat (length msg))"
  have len: "frame_len ?h = length msg" using assms(2) by (simp add: frame_len_def)
  have "feed_all mms [CHN_FD_START_MAGIC] (u32_le (of_nat (length msg))) = (settle mms ?h, [])"
    by (subst feed_all_header) (auto simp: u32_le_def)
  moreover have "settle mms ?h = ?h" using len assms(1) by (simp add: settle_def)
  moreover have "feed_all mms ?h msg = (?h @ msg, [])"
    by (rule feed_all_body) (use len in simp_all)
  ultimately show ?thesis by (simp add: feed_def feed_all_append)
qed

lemma feed_frame:
  assumes "msg \<noteq> []" "length msg \<le> mms" "length msg < 2 ^ 32"
  shows "feed_all mms [] (frame msg) = ([], [msg])"
proof -
  let ?f = "CHN_FD_START_MAGIC # u32_le (of_nat (length msg)) @ msg"
  have "frame_len ?f = length msg"
    using assms(3) by (simp add: frame_len_def)
  then have "feed mms ?f CHN_FD_END_MAGIC = ([], [msg])"
    using assms(1) by (simp add: feed_def)
  moreover have "frame msg = ?f @ [CHN_FD_END_MAGIC]" by (simp add: frame_def)
  ultimately show ?thesis using feed_frame_butlast [OF assms(2,3)]
    by (simp only: feed_all_append feed_all.simps prod.case append_Nil append_Nil2)
qed

lemma feed_frames:
  "\<forall>m \<in> set ms. m \<noteq> [] \<and> length m \<le> mms \<and> length m < 2 ^ 32 \<Longrightarrow>
   feed_all mms [] (concat (map frame ms)) = ([], ms)"
  by (induction ms) (simp_all add: feed_all_append feed_frame)

text \<open>A frame that breaks off emits nothing.\<close>

lemma feed_all_silent: "feed_all mms acc (xs @ ys) = (acc', []) \<Longrightarrow> snd (feed_all mms acc xs) = []"
  by (auto simp: feed_all_append split: prod.splits)

lemma feed_partial:
  assumes "length msg \<le> mms" "length msg < 2 ^ 32" "n < length (frame msg)"
  shows "snd (feed_all mms [] (take n (frame msg))) = []"
proof -
  let ?f = "CHN_FD_START_MAGIC # u32_le (of_nat (length msg)) @ msg"
  have "take n (frame msg) = take n ?f" using assms(3) by (simp add: frame_def CHN_FD_MSG_SIZE_def take_Cons')
  moreover have "feed_all mms [] (take n ?f @ drop n ?f) = (?f, [])"
    unfolding append_take_drop_id by (rule feed_frame_butlast [OF assms(1,2)])
  ultimately show ?thesis using feed_all_silent by metis
qed

section \<open>The sender\<close>

lemma k_write_int:
  assumes "k_write bs chn = (written, chn1)"
  shows "ssize_to_int written = written"
proof (rule ssize_to_int_id)
  show "- (2 ^ 31) \<le> written" "written < 2 ^ 31"
    using assms by (auto simp: k_write_def MAX_RW_COUNT_def Let_def split: list.splits if_splits)
qed

lemma chn_fd_send_ok:
  assumes inv: "fd_inv chn" and len: "msg \<noteq> []" "length msg \<le> mms_of chn" and wfd: "0 \<le> f_write_fd chn"
  shows "\<exists>b. length b = length (f_write_buf chn) \<and> chn_fd_send chn msg =
    (case k_write (frame msg) (chn\<lparr>f_write_buf := b\<rparr>) of (written, chn1) \<Rightarrow>
       Some (if written < 0 \<or> nat written \<noteq> length (frame msg) then (CHN_CANNOT_WRITE, chn1\<lparr>f_write_fd := -1\<rparr>)
             else (CHN_SUCCESS, chn1)))"
proof -
  have lb: "length (f_write_buf chn) = 6 + mms_of chn"
    using inv by (simp add: fd_inv_def CHN_FD_MSG_SIZE_def)
  let ?b = "map Some (frame msg) @ drop (CHN_FD_MSG_SIZE (length msg)) (f_write_buf chn)"
  have fl: "length (frame msg) \<le> length (f_write_buf chn)" using lb len by (simp add: CHN_FD_MSG_SIZE_def)
  have "list_all (\<lambda>c. c \<noteq> None) (map Some (frame msg))" by (simp add: list_all_iff)
  then have rc: "read_cells ?b 0 (CHN_FD_MSG_SIZE (length msg)) = Some (frame msg)"
    using fl by (simp add: read_cells_def comp_def)
  let ?w = "f_write_buf chn" and ?l = "u32_le (of_nat (length msg))"
  have b1: "put_cells ?w 0 [Some CHN_FD_START_MAGIC] = Some (map Some [CHN_FD_START_MAGIC] @ drop 1 ?w)"
    using put_cells_append [of "[CHN_FD_START_MAGIC]" ?w 0 "[]"] lb by simp
  have b2: "put_cells (map Some [CHN_FD_START_MAGIC] @ drop 1 ?w) 1 (map Some ?l) =
      Some (map Some (CHN_FD_START_MAGIC # ?l) @ drop 5 ?w)"
    using put_cells_append [of ?l "drop 1 ?w" 1 "[CHN_FD_START_MAGIC]"] lb by simp
  have "length msg \<le> length (drop 5 ?w)" "length [CHN_FD_END_MAGIC] \<le> length (drop (length msg + 5) ?w)"
    using lb len(2) by simp_all
  note room = this
  have b3: "put_cells (map Some (CHN_FD_START_MAGIC # ?l) @ drop 5 ?w) 5 (map Some msg) =
      Some (map Some ((CHN_FD_START_MAGIC # ?l) @ msg) @ drop (length msg + 5) ?w)"
    using put_cells_append [OF room(1), of 5 "CHN_FD_START_MAGIC # ?l"] by (simp only: drop_drop) simp
  have "5 + length msg = length ((CHN_FD_START_MAGIC # ?l) @ msg)" by simp
  from put_cells_append [OF room(2) this]
  have b4: "put_cells (map Some ((CHN_FD_START_MAGIC # ?l) @ msg) @ drop (length msg + 5) ?w) (5 + length msg)
      [Some CHN_FD_END_MAGIC] = Some ?b"
    by (simp add: frame_def CHN_FD_MSG_SIZE_def)
  from b1 b2 b3 b4 obtain c1 c2 c3 where c: "put_cells ?w 0 [Some CHN_FD_START_MAGIC] = Some c1"
    "put_cells c1 1 (map Some ?l) = Some c2" "put_cells c2 5 (map Some msg) = Some c3"
    "put_cells c3 (5 + length msg) [Some CHN_FD_END_MAGIC] = Some ?b" by (metis append_Cons)
  have "chn_fd_send chn msg =
    (case k_write (frame msg) (chn\<lparr>f_write_buf := ?b\<rparr>) of (written, chn1) \<Rightarrow>
       Some (if written < 0 \<or> nat written \<noteq> length (frame msg) then (CHN_CANNOT_WRITE, chn1\<lparr>f_write_fd := -1\<rparr>)
             else (CHN_SUCCESS, chn1)))"
    using len wfd by (auto simp: chn_fd_send_def c [unfolded One_nat_def] rc Let_def dest: k_write_int simp del: map_append split: prod.split)
  then show ?thesis using fl by (intro exI [of _ ?b]) simp
qed


text \<open>A run of sends, and which of the messages were sent.\<close>

fun sends :: "byte list list \<Rightarrow> channel_fd_t \<Rightarrow> (byte list list \<times> channel_fd_t) option" where
  "sends [] chn = Some ([], chn)"
| "sends (m # ms) chn = do {
     (status, chn1) \<leftarrow> chn_fd_send chn m;
     (sent, chn2) \<leftarrow> sends ms chn1;
     Some (if status = CHN_SUCCESS then m # sent else sent, chn2) }"

definition sendable :: "nat \<Rightarrow> byte list \<Rightarrow> bool" where
  "sendable mms m \<longleftrightarrow> m \<noteq> [] \<and> length m \<le> mms"

text \<open>The wire holds the frames sent; after a failed write part of one more, and the sender is closed.\<close>

definition tail_ok :: "channel_fd_t \<Rightarrow> byte list \<Rightarrow> bool" where
  "tail_ok chn t \<longleftrightarrow> (if 0 \<le> f_write_fd chn then t = []
     else \<exists>m n. t = take n (frame m) \<and> n < length (frame m) \<and> length m \<le> mms_of chn)"

lemma fd_inv_write [simp]:
  "length b = length (f_write_buf chn) \<Longrightarrow> fd_inv (chn\<lparr>f_write_buf := b\<rparr>) = fd_inv chn"
  "fd_inv (chn\<lparr>f_write_fd := d\<rparr>) = fd_inv chn"
  "fd_inv (chn\<lparr>k_writes := ws\<rparr>) = fd_inv chn"
  "fd_inv (chn\<lparr>k_reads := rs\<rparr>) = fd_inv chn"
  "fd_inv (chn\<lparr>k_wire := bs\<rparr>) = fd_inv chn"
  by (simp_all add: fd_inv_def rx_rel_def)

lemma k_write_simps:
  "k_write bs chn = (written, chn1) \<Longrightarrow> f_cfg chn1 = f_cfg chn \<and> f_write_fd chn1 = f_write_fd chn \<and>
   fd_inv chn1 = fd_inv chn \<and> k_wire chn1 = k_wire chn @ take (nat written) bs \<and>
   k_writes chn1 = tl (k_writes chn) \<and> written \<le> int (length bs) \<and>
   (k_writes chn = [] \<and> int (length bs) \<le> MAX_RW_COUNT \<longrightarrow> written = int (length bs))"
  by (cases "k_writes chn") (auto simp: k_write_def Let_def)

text \<open>A frame of the longest message can be written by one call.\<close>

definition one_write :: "nat \<Rightarrow> bool" where
  "one_write mms \<longleftrightarrow> int (CHN_FD_MSG_SIZE mms) \<le> MAX_RW_COUNT"

lemma chn_fd_send_cases:
  assumes inv: "fd_inv chn" and wfd: "0 \<le> f_write_fd chn"
  obtains
    (refused) "\<not> sendable (mms_of chn) msg" "chn_fd_send chn msg = Some (CHN_INVALID_MSG_SIZE, chn)"
  | (sent) chn' where "sendable (mms_of chn) msg" "chn_fd_send chn msg = Some (CHN_SUCCESS, chn')" "fd_inv chn'"
      "f_cfg chn' = f_cfg chn" "0 \<le> f_write_fd chn'" "k_wire chn' = k_wire chn @ frame msg"
      "k_writes chn' = tl (k_writes chn)"
  | (broken) chn' n where "sendable (mms_of chn) msg" "chn_fd_send chn msg = Some (CHN_CANNOT_WRITE, chn')"
      "fd_inv chn'" "f_cfg chn' = f_cfg chn" "f_write_fd chn' = -1"
      "k_wire chn' = k_wire chn @ take n (frame msg)" "n < length (frame msg)"
      "k_writes chn \<noteq> [] \<or> \<not> one_write (mms_of chn)"
proof (cases "sendable (mms_of chn) msg")
  case False
  then show ?thesis by (intro refused) (auto simp: chn_fd_send_def sendable_def)
next
  case True
  then have s: "msg \<noteq> []" "length msg \<le> mms_of chn" by (simp_all add: sendable_def)
  from chn_fd_send_ok [OF inv s wfd] obtain b where b: "length b = length (f_write_buf chn)" "chn_fd_send chn msg =
    (case k_write (frame msg) (chn\<lparr>f_write_buf := b\<rparr>) of (written, chn1) \<Rightarrow>
       Some (if written < 0 \<or> nat written \<noteq> length (frame msg) then (CHN_CANNOT_WRITE, chn1\<lparr>f_write_fd := -1\<rparr>)
             else (CHN_SUCCESS, chn1)))" by blast
  obtain w chn1 where w: "k_write (frame msg) (chn\<lparr>f_write_buf := b\<rparr>) = (w, chn1)" by fastforce
  note k = k_write_simps [OF w]
  have inv1: "fd_inv chn1" using k inv b(1) by simp
  show ?thesis
  proof (cases "w < 0 \<or> nat w \<noteq> length (frame msg)")
    case False
    show ?thesis by (rule sent [of chn1]) (use True False b(2) w k inv1 wfd in simp_all)
  next
    case broke: True
    have "nat w < length (frame msg)" using broke k by (simp add: CHN_FD_MSG_SIZE_def) linarith
    moreover have "k_writes chn \<noteq> [] \<or> \<not> one_write (mms_of chn)"
      using broke k s(2) by (auto simp: one_write_def CHN_FD_MSG_SIZE_def)
    moreover have "fd_inv (chn1\<lparr>f_write_fd := -1\<rparr>)" using inv1 by simp
    moreover have "chn_fd_send chn msg = Some (CHN_CANNOT_WRITE, chn1\<lparr>f_write_fd := -1\<rparr>)"
      using broke b(2) w by (simp del: length_frame)
    ultimately show ?thesis
      by (intro broken [of "chn1\<lparr>f_write_fd := -1\<rparr>" "nat w"]) (use True k in simp_all)
  qed
qed

lemma sends_closed:
  "f_write_fd chn < 0 \<Longrightarrow> sends ms chn = Some ([], chn)"
  by (induction ms) (auto simp: chn_fd_send_def)

lemma sends_ok:
  "fd_inv chn \<Longrightarrow> 0 \<le> f_write_fd chn \<Longrightarrow>
   \<exists>sent chn' t. sends ms chn = Some (sent, chn') \<and> subseq sent ms \<and> list_all (sendable (mms_of chn)) sent \<and>
     (k_writes chn = [] \<and> one_write (mms_of chn) \<longrightarrow> sent = filter (sendable (mms_of chn)) ms) \<and>
     k_wire chn' = k_wire chn @ concat (map frame sent) @ t \<and> f_cfg chn' = f_cfg chn \<and> tail_ok chn' t"
proof (induction ms arbitrary: chn)
  case (Cons m ms)
  from Cons.prems show ?case
  proof (cases rule: chn_fd_send_cases [where msg = m])
    case refused
    with Cons.IH [OF Cons.prems] show ?thesis by (auto intro: list_emb_Cons)
  next
    case (sent chn1)
    from Cons.IH [OF sent(3,5)] sent(4) obtain ok chn' t where
      "sends ms chn1 = Some (ok, chn')" "subseq ok ms" "list_all (sendable (mms_of chn)) ok"
      "k_writes chn1 = [] \<and> one_write (mms_of chn) \<longrightarrow> ok = filter (sendable (mms_of chn)) ms"
      "k_wire chn' = k_wire chn1 @ concat (map frame ok) @ t" "f_cfg chn' = f_cfg chn" "tail_ok chn' t"
      by auto
    with sent show ?thesis by auto
  next
    case (broken chn1 n)
    then have "tail_ok chn1 (take n (frame m))" by (auto simp: tail_ok_def sendable_def)
    with broken sends_closed [of chn1 ms] show ?thesis by auto
  qed
qed (simp add: tail_ok_def)

lemma feed_wire:
  assumes "list_all (sendable (mms_of chn)) sent" "tail_ok chn t" "mms_of chn \<le> mms" "mms_of chn < 2 ^ 32"
  shows "feed_all mms [] (concat (map frame sent) @ t) = (fst (feed_all mms [] t), sent)"
proof -
  have "\<forall>m \<in> set sent. m \<noteq> [] \<and> length m \<le> mms \<and> length m < 2 ^ 32"
    using assms(1,3,4) by (fastforce simp: list_all_iff sendable_def)
  note 1 = feed_frames [OF this]
  have "snd (feed_all mms [] t) = []"
  proof (cases "0 \<le> f_write_fd chn")
    case False
    with assms(2) obtain m n where "t = take n (frame m)" "n < length (frame m)" "length m \<le> mms_of chn"
      by (auto simp: tail_ok_def simp del: length_frame)
    with feed_partial [of m mms n] assms(3,4) show ?thesis by simp
  qed (use assms(2) in \<open>simp add: tail_ok_def\<close>)
  then show ?thesis by (simp add: feed_all_append 1 split: prod.split) (metis prod.collapse fst_conv snd_conv)
qed

lemma fifo_store_all:
  "length ms + length ms' \<le> cap \<Longrightarrow> foldl (fifo_store cap wo) ms ms' = ms @ ms'"
  by (induction ms' arbitrary: ms) (simp_all add: fifo_store_def)

section \<open>Properties\<close>

lemma new_channel_fd_ok:
  assumes "new_channel_fd fails dup_result fcntl_ok (Some c) = (CHN_SUCCESS, Some chn)"
  shows "fd_inv chn" "rx_acc chn = []" "fd_msgs chn = []" "f_cfg chn = c" "0 \<le> f_read_fd chn"
    "0 \<le> f_write_fd chn" "k_wire chn = []"
proof -
  from assms obtain q where q: "new_queue (fc_queue_depth c) 16 = Some q" "f_q chn = q"
    "0 < fc_queue_depth c" "0 < fc_read_chunk_size c"
    by (auto simp: new_channel_fd_def Let_def split: if_splits option.splits)
  from assms have s: "f_msg_buf chn = replicate (CHN_FD_MSG_SIZE (fc_max_msg_size c)) None"
    "f_write_buf chn = replicate (CHN_FD_MSG_SIZE (fc_max_msg_size c)) None" "f_msg_buf_fill chn = 0"
    and e: "f_cfg chn = c" "0 \<le> f_read_fd chn" "0 \<le> f_write_fd chn" "k_wire chn = []"
    by (auto simp: new_channel_fd_def Let_def split: if_splits option.splits)
  from q(1) have m: "msgs_inv (mms_of chn) q" "q_cap q = fc_queue_depth c" "msgs q = []"
    using new_queue_correct [OF q(1)] by (auto simp: msgs_inv_def msgs_def)
  show "fd_inv chn" using m q(2,4) s e(1) by (auto simp: fd_inv_def rx_rel_def intro!: exI [of _ "[]"])
  show "rx_acc chn = []" using s by (simp add: rx_acc_def)
  show "fd_msgs chn = []" using m q(2) by simp
  show "f_cfg chn = c" "0 \<le> f_read_fd chn" "0 \<le> f_write_fd chn" "k_wire chn = []" by (fact e)+
qed


text \<open>C14. A refresh always ends without an access outside a buffer, keeps the invariant, and its effect
  depends only on the bytes the reads deliver, not on how they are cut into pieces or chunks: the
  messages queued are those the byte automaton emits from the part of a frame kept from earlier
  refreshes, and the part of a frame at the end is kept for the next.\<close>

theorem fd_refresh_pieces:
  assumes "fd_inv chn" "0 \<le> f_read_fd chn"
    and "feed_all (mms_of chn) (rx_acc chn) (available (k_reads chn)) = (acc', ms)"
  shows "\<exists>chn'. chn_fd_refresh chn = Some (CHN_SUCCESS, chn') \<and> fd_inv chn' \<and> rx_acc chn' = acc' \<and>
    f_cfg chn' = f_cfg chn \<and>
    fd_msgs chn' = foldl (fifo_store (fc_queue_depth (f_cfg chn)) (fc_write_over (f_cfg chn))) (fd_msgs chn) ms"
  by (rule chn_fd_refresh_ok [OF assms])

text \<open>Junk before a frame, a frame cut in three, and the first two bytes of another.\<close>

theorem fd_refresh_pieces_witness:
  "\<exists>chn chn'. new_channel_fd False 7 True (Some \<lparr>fc_queue_depth = 4, fc_write_fd = 5, fc_read_fd = -1,
       fc_write_over = False, fc_max_msg_size = 8, fc_read_chunk_size = 3\<rparr>) = (CHN_SUCCESS, Some chn) \<and>
     chn_fd_refresh (chn\<lparr>k_reads := [Data [9, 30, 2], Data [0, 0, 0, 30, 7], Data [42, 30, 5]]\<rparr>) =
       Some (CHN_SUCCESS, chn') \<and> fd_msgs chn' = [[30, 7]] \<and> rx_acc chn' = [30, 5]"
proof -
  let ?cfg = "\<lparr>fc_queue_depth = 4, fc_write_fd = 5, fc_read_fd = -1, fc_write_over = False,
    fc_max_msg_size = 8, fc_read_chunk_size = 3\<rparr>"
  let ?reads = "[Data [9, 30, 2], Data [0, 0, 0, 30, 7], Data [42, 30, 5]]"
  obtain chn where n: "new_channel_fd False 7 True (Some ?cfg) = (CHN_SUCCESS, Some chn)"
    by (simp add: new_channel_fd_def new_queue_def)
  note c = new_channel_fd_ok [OF n]
  let ?c = "chn\<lparr>k_reads := ?reads\<rparr>"
  have acc: "rx_acc ?c = []" using c(2) by (simp add: rx_acc_def)
  have "feed_all (mms_of ?c) (rx_acc ?c) (available (k_reads ?c)) = ([30, 5], [[30, 7]])"
    unfolding acc using c(4) by (simp add: feed_def settle_def frame_len_def le_u32_def)
  from fd_refresh_pieces [of ?c, OF _ _ this] c n show ?thesis by (auto simp: fifo_store_def)
qed

text \<open>C4. What a file-descriptor channel sends, a new channel at the other end, whose messages may be at
  least as long, receives with one refresh: whatever the calls of \<open>write\<close> return, however the bytes on
  the wire are cut into reads and chunks, its queue then holds, unchanged and in order, what a FIFO of
  its depth (which drops the new message or the oldest one when it is full, as configured) keeps of
  the messages whose send returned \<open>CHN_SUCCESS\<close>, which are all of these when they are not more than
  the queue is deep.  The messages sent are all messages of a legal size when no write fails and a frame
  can be written by one call.\<close>

theorem fd_stream_roundtrip:
  assumes tx: "new_channel_fd f1 d1 o1 (Some tc) = (CHN_SUCCESS, Some tx)"
    and rx: "new_channel_fd f2 d2 o2 (Some rc) = (CHN_SUCCESS, Some rx)"
    and sizes: "fc_max_msg_size tc \<le> fc_max_msg_size rc" "fc_max_msg_size tc < 2 ^ 32"
  shows "\<exists>sent tx' got. sends ms (tx\<lparr>k_writes := ws\<rparr>) = Some (sent, tx') \<and> subseq sent ms \<and>
    (ws = [] \<and> one_write (fc_max_msg_size tc) \<longrightarrow> sent = filter (sendable (fc_max_msg_size tc)) ms) \<and>
    got = foldl (fifo_store (fc_queue_depth rc) (fc_write_over rc)) [] sent \<and>
    (length sent \<le> fc_queue_depth rc \<longrightarrow> got = sent) \<and>
    (\<forall>reads. available reads = k_wire tx' \<longrightarrow>
       (\<exists>rx' rx''. chn_fd_refresh (rx\<lparr>k_reads := reads\<rparr>) = Some (CHN_SUCCESS, rx') \<and>
          receive_n chn_fd_receive (fc_max_msg_size rc) (length got) rx' =
            (map (\<lambda>m. (CHN_SUCCESS, Some m)) got, rx'') \<and> fd_msgs rx'' = []))"
proof -
  note t = new_channel_fd_ok [OF tx] and r = new_channel_fd_ok [OF rx]
  from sends_ok [of "tx\<lparr>k_writes := ws\<rparr>" ms] t obtain sent tx' tl where
    s: "sends ms (tx\<lparr>k_writes := ws\<rparr>) = Some (sent, tx')" "subseq sent ms"
      "list_all (sendable (fc_max_msg_size tc)) sent"
      "ws = [] \<and> one_write (fc_max_msg_size tc) \<longrightarrow> sent = filter (sendable (fc_max_msg_size tc)) ms"
      "k_wire tx' = concat (map frame sent) @ tl" "f_cfg tx' = tc" "tail_ok tx' tl" by auto
  let ?got = "foldl (fifo_store (fc_queue_depth rc) (fc_write_over rc)) [] sent"
  have "\<exists>rx' rx''. chn_fd_refresh (rx\<lparr>k_reads := reads\<rparr>) = Some (CHN_SUCCESS, rx') \<and>
      receive_n chn_fd_receive (fc_max_msg_size rc) (length ?got) rx' =
        (map (\<lambda>m. (CHN_SUCCESS, Some m)) ?got, rx'') \<and> fd_msgs rx'' = []"
    if reads: "available reads = k_wire tx'" for reads
  proof -
    let ?r = "rx\<lparr>k_reads := reads\<rparr>"
    have "feed_all (fc_max_msg_size rc) [] (k_wire tx') = (fst (feed_all (fc_max_msg_size rc) [] tl), sent)"
      using feed_wire [of tx' sent tl "fc_max_msg_size rc"] s(3,5,6,7) sizes by simp
    moreover have "rx_acc ?r = []" using r(2) by (simp add: rx_acc_def)
    ultimately obtain rx' where rx': "chn_fd_refresh ?r = Some (CHN_SUCCESS, rx')" "fd_inv rx'" "f_cfg rx' = rc"
      "fd_msgs rx' = ?got"
      using chn_fd_refresh_ok [of ?r] r reads by auto
    with fd.receive_all [OF rx'(2), of "fc_max_msg_size rc"] show ?thesis by auto
  qed
  moreover have "length sent \<le> fc_queue_depth rc \<longrightarrow> ?got = sent" by (simp add: fifo_store_all)
  ultimately show ?thesis using s(1,2,4) by blast
qed

text \<open>The second write stops after nine of ten bytes; the wire is read in two pieces.\<close>

theorem fd_stream_roundtrip_witness:
  "\<exists>tx tx' rx rx' rx''. let cfg = \<lparr>fc_queue_depth = 4, fc_write_fd = 5, fc_read_fd = 6, fc_write_over = False,
       fc_max_msg_size = 4, fc_read_chunk_size = 2\<rparr> in
     new_channel_fd False 0 True (Some cfg) = (CHN_SUCCESS, Some tx) \<and>
     sends [[1, 30], [2, 3, 4, 5], [6]] (tx\<lparr>k_writes := [8, 9]\<rparr>) = Some ([[1, 30]], tx') \<and>
     k_wire tx' = [30, 2, 0, 0, 0, 1, 30, 42, 30, 4, 0, 0, 0, 2, 3, 4, 5] \<and>
     chn_fd_refresh (rx\<lparr>k_reads := [Data (take 5 (k_wire tx')), Data (drop 5 (k_wire tx'))]\<rparr>) =
       Some (CHN_SUCCESS, rx') \<and>
     receive_n chn_fd_receive 4 1 rx' = ([(CHN_SUCCESS, Some [1, 30])], rx'')"
proof -
  let ?cfg = "\<lparr>fc_queue_depth = 4, fc_write_fd = 5, fc_read_fd = 6, fc_write_over = False,
    fc_max_msg_size = 4, fc_read_chunk_size = 2\<rparr>"
  let ?ms = "[[1, 30], [2, 3, 4, 5], [6]] :: byte list list"
  obtain tx where n: "new_channel_fd False 0 True (Some ?cfg) = (CHN_SUCCESS, Some tx)"
    and tx: "tx = \<lparr>f_cfg = ?cfg, f_read_fd = 6, f_read_chunk = [], f_msg_buf_fill = 0,
      f_msg_buf = replicate 10 None, f_write_fd = 5, f_write_buf = replicate 10 None,
      f_q = the (new_queue 4 16), k_reads = [], k_writes = [], k_wire = []\<rparr>"
    by (simp add: new_channel_fd_def new_queue_def CHN_FD_MSG_SIZE_def)
  define sx where "sx = sends ?ms (tx\<lparr>k_writes := [8, 9]\<rparr>)"
  have sx: "map_option fst sx = Some [[1, 30]] \<and> map_option (k_wire \<circ> snd) sx =
      Some [30, 2, 0, 0, 0, 1, 30, 42, 30, 4, 0, 0, 0, 2, 3, 4, 5]"
    unfolding sx_def tx by code_simp
  from fd_stream_roundtrip [OF n n, of ?ms "[8, 9]"] obtain sent tx' where
    s: "sx = Some (sent, tx')" and r: "\<forall>reads. available reads = k_wire tx' \<longrightarrow>
       (\<exists>rx' rx''. chn_fd_refresh (tx\<lparr>k_reads := reads\<rparr>) = Some (CHN_SUCCESS, rx') \<and>
          receive_n chn_fd_receive 4 (length sent) rx' =
            (map (\<lambda>m. (CHN_SUCCESS, Some m)) sent, rx'') \<and> fd_msgs rx'' = [])"
    unfolding sx_def by auto
  from s sx have w: "sent = [[1, 30]]" "k_wire tx' = [30, 2, 0, 0, 0, 1, 30, 42, 30, 4, 0, 0, 0, 2, 3, 4, 5]"
    by simp_all
  then have "available [Data (take 5 (k_wire tx')), Data (drop 5 (k_wire tx'))] = k_wire tx'" by simp
  with r w(1) obtain rx' rx'' where
    "chn_fd_refresh (tx\<lparr>k_reads := [Data (take 5 (k_wire tx')), Data (drop 5 (k_wire tx'))]\<rparr>) =
       Some (CHN_SUCCESS, rx')"
    "receive_n chn_fd_receive 4 1 rx' = ([(CHN_SUCCESS, Some [1, 30])], rx'')" by fastforce
  with n s w show ?thesis unfolding sx_def Let_def by blast
qed

end
