(* ===== verification/Chrpc_Endpoint.thy ===== *)
theory Chrpc_Endpoint
  imports Chrpc_Construct Chutil_String
begin

text \<open>
  Endpoints and endpoint sets (\<open>chrpc/src/rpc_server.c\<close>, first part).  The name of an endpoint is
  a string object that is never modified after its creation, so it is the list of its characters
  (\<open>Chutil_String\<close> justifies this: programs over string objects behave like programs over private
  lists).  The endpoint functions are the user's: they take the channel id, the server state and
  the arguments and give a command, the return value (\<open>None\<close> is NULL) and the new server state.
  The name map's values, pointers to the endpoints, are indices into the endpoint array.
\<close>

section \<open>Endpoints\<close>

datatype chrpc_server_command_t = CHRPC_SC_DISCONNECT | CHRPC_SC_KEEP_ALIVE

type_synonym channel_id_t = u64

type_synonym 'st chrpc_endpoint_ft =
  "channel_id_t \<Rightarrow> 'st \<Rightarrow> chrpc_value_t list \<Rightarrow> chrpc_server_command_t \<times> chrpc_value_t option \<times> 'st"

text \<open>\<open>ep_args_block\<close> says whether the argument array pointer is non-NULL.\<close>

record 'st chrpc_endpoint_t =
  ep_name :: "byte list"
  ep_ret :: "chrpc_type_t option"
  ep_args :: "chrpc_type_t list"
  ep_args_block :: bool
  ep_func :: "'st chrpc_endpoint_ft"

definition CHRPC_ENDPOINT_MAX_ARGS :: nat where "CHRPC_ENDPOINT_MAX_ARGS = 10"
definition CHRPC_ENDPOINT_SET_MAX_SIZE :: nat where "CHRPC_ENDPOINT_SET_MAX_SIZE = 300"

definition chrpc_channel_id_hash_func :: "channel_id_t \<Rightarrow> u32" where
  "chrpc_channel_id_hash_func chn_id = ucast ((chn_id * 12342343 + 7) * 3)"

text \<open>
  The characters of the string object made from a C string: \<open>new_string_from_cstr\<close> and
  \<open>new_string_from_literal\<close>, for which NULL, the empty block, is the empty string.
\<close>

definition string_chars :: "byte list \<Rightarrow> byte list option" where
  "string_chars cs = (if cs = [] then Some [] else do { n \<leftarrow> c_strlen (map Some cs); Some (take n cs) })"

definition new_chrpc_endpoint ::
    "byte list \<Rightarrow> 'st chrpc_endpoint_ft \<Rightarrow> chrpc_type_t option \<Rightarrow> bool \<Rightarrow> chrpc_type_t list \<Rightarrow>
     'st chrpc_endpoint_t option option" where
  "new_chrpc_endpoint n f rt args_block args =
     (if CHRPC_ENDPOINT_MAX_ARGS < length args then Some None
      else do {
        name \<leftarrow> string_chars n;
        Some (Some \<lparr>ep_name = name, ep_ret = rt, ep_args = args, ep_args_block = args_block, ep_func = f\<rparr>) })"

text \<open>
  The variable arguments are collected in an array list, whose block is never NULL.  On a failure
  that block is freed; the second component counts the blocks the function itself allocated and
  did not free.
\<close>

definition new_chrpc_endpoint_va ::
    "byte list \<Rightarrow> 'st chrpc_endpoint_ft \<Rightarrow> chrpc_type_t option \<Rightarrow> chrpc_type_t list \<Rightarrow>
     ('st chrpc_endpoint_t option \<times> int) option" where
  "new_chrpc_endpoint_va n f rt args =
     do { ep \<leftarrow> new_chrpc_endpoint n f rt True args;
          Some (case ep of None \<Rightarrow> (None, 1 - 1) | Some e \<Rightarrow> (Some e, 1 + 4)) }"

definition new_chrpc_endpoint_argless ::
    "byte list \<Rightarrow> 'st chrpc_endpoint_ft \<Rightarrow> chrpc_type_t option \<Rightarrow>
     ('st chrpc_endpoint_t option \<times> int) option" where
  "new_chrpc_endpoint_argless n f rt = new_chrpc_endpoint_va n f rt []"

text \<open>The number of \<open>safe_free\<close> calls; the name is three blocks.\<close>

definition delete_chrpc_endpoint :: "'st chrpc_endpoint_t \<Rightarrow> nat" where
  "delete_chrpc_endpoint ep =
     3 + (case ep_ret ep of None \<Rightarrow> 0 | Some t \<Rightarrow> delete_chrpc_type t)
       + sum_list (map delete_chrpc_type (ep_args ep)) + (if ep_args_block ep then 1 else 0) + 1"

section \<open>Endpoint sets\<close>

record 'st chrpc_endpoint_set_t =
  name_map :: "(byte list, nat) hash_map_t"
  endpoints :: "'st chrpc_endpoint_t list"

fun add_endpoints ::
    "'st chrpc_endpoint_t list \<Rightarrow> nat \<Rightarrow> (byte list, nat) hash_map_t \<Rightarrow> (byte list, nat) hash_map_t option" where
  "add_endpoints [] i hm = Some hm"
| "add_endpoints (ep # eps) i hm =
     (if hm_contains hm (ep_name ep) then None
      else add_endpoints eps (i + 1) (hm_put hm (ep_name ep) i))"

text \<open>\<open>ji\<close> and \<open>jn\<close> are the indeterminate iterator fields of a new hash map.\<close>

definition new_chrpc_endpoint_set ::
    "nat \<Rightarrow> (byte list, nat) kvh list \<Rightarrow> 'st chrpc_endpoint_t list \<Rightarrow> 'st chrpc_endpoint_set_t option" where
  "new_chrpc_endpoint_set ji jn eps =
     (if length eps < 1 \<or> CHRPC_ENDPOINT_SET_MAX_SIZE < length eps then None
      else do {
        hm \<leftarrow> new_hash_map ji jn 8 8 (Some str_hash) (Some str_eq);
        hm' \<leftarrow> add_endpoints eps 0 hm;
        Some \<lparr>name_map = hm', endpoints = eps\<rparr> })"

text \<open>Again with the blocks of the collected array: freed on a failure, else owned by the set.\<close>

definition new_chrpc_endpoint_set_va ::
    "nat \<Rightarrow> (byte list, nat) kvh list \<Rightarrow> 'st chrpc_endpoint_t list \<Rightarrow> 'st chrpc_endpoint_set_t option \<times> int" where
  "new_chrpc_endpoint_set_va ji jn eps =
     (case new_chrpc_endpoint_set ji jn eps of None \<Rightarrow> (None, 1 - 1) | Some ep_set \<Rightarrow> (Some ep_set, 1))"

text \<open>The frees outside the hash map: the endpoints, their array and the record.\<close>

definition delete_chrpc_endpoint_set :: "'st chrpc_endpoint_set_t \<Rightarrow> nat" where
  "delete_chrpc_endpoint_set ep_set = sum_list (map delete_chrpc_endpoint (endpoints ep_set)) + 1 + 1"

definition chrpc_endpoint_set_lookup ::
    "'st chrpc_endpoint_set_t \<Rightarrow> byte list \<Rightarrow> 'st chrpc_endpoint_t option option" where
  "chrpc_endpoint_set_lookup ep_set name =
     do { temp_key \<leftarrow> string_chars name;
          Some (map_option (\<lambda>i. endpoints ep_set ! i) (hm_get (name_map ep_set) temp_key)) }"

section \<open>Lemmas\<close>

lemma string_chars_cstr: "0 \<in> set cs \<Longrightarrow> string_chars cs = Some (takeWhile (\<lambda>b. b \<noteq> 0) cs)"
proof -
  assume z: "0 \<in> set cs"
  obtain ys zs where y: "cs = ys @ 0 # zs" "0 \<notin> set ys" using split_list_first [OF z] by blast
  then have "takeWhile (\<lambda>b. b \<noteq> 0) cs = ys" by (simp add: takeWhile_append)
  then show ?thesis using y c_strlen_terminated [of ys "map Some zs"] by (simp add: string_chars_def)
qed

lemma string_chars_no_nul: "string_chars cs = Some n \<Longrightarrow> no_nul n"
proof (cases "cs = []")
  case False
  assume "string_chars cs = Some n"
  with False obtain k where "c_strlen (map Some cs) = Some k" "n = take k cs"
    by (cases "c_strlen (map Some cs)") (auto simp: string_chars_def)
  with c_strlen_SomeD obtain bs rest where "map Some cs = map Some bs @ Some 0 # rest" "0 \<notin> set bs"
    "length bs = k" by metis
  moreover from this have "take k cs = bs"
    by (metis append_eq_conv_conj length_map list.inj_map_strong option.inject take_map)
  ultimately show ?thesis using \<open>n = take k cs\<close> by (simp add: no_nul_def)
qed (simp add: string_chars_def no_nul_def)

lemma new_chrpc_endpoint_no_nul:
  "new_chrpc_endpoint n f rt ab args = Some (Some ep) \<Longrightarrow> no_nul (ep_name ep)"
  using string_chars_no_nul by (auto simp: new_chrpc_endpoint_def split: if_splits bind_splits)

lemma new_chrpc_endpoint_set_of_va:
  "fst (new_chrpc_endpoint_set_va ji jn eps) = new_chrpc_endpoint_set ji jn eps"
  by (simp add: new_chrpc_endpoint_set_va_def split: option.split)

text \<open>The association list of the map after the endpoints named \<open>names\<close> have been put.\<close>

definition name_alist :: "byte list list \<Rightarrow> (byte list \<times> nat) list" where
  "name_alist names = rev (zip names [0..<length names])"

lemma name_alist_snoc: "name_alist (names @ [n]) = (n, length names) # name_alist names"
  by (simp add: name_alist_def)

lemma set_name_alist: "(n, i) \<in> set (name_alist names) \<longleftrightarrow> i < length names \<and> names ! i = n"
  by (auto simp: name_alist_def in_set_zip)

lemma alist_get_names:
  assumes "\<forall>m \<in> set names. no_nul m" "no_nul n" "distinct names"
  shows "alist_get str_eq (name_alist names) n = Some i \<longleftrightarrow> i < length names \<and> names ! i = n"
proof -
  have eq: "str_eq m n \<longleftrightarrow> m = n" if "m \<in> set names" for m
    using that assms(1,2) by (simp add: str_eq_def c_str_no_nul)
  have keys: "fst p \<in> set names" if "p \<in> set (name_alist names)" for p
    using that by (metis nth_mem prod.collapse set_name_alist)
  show ?thesis
  proof (cases "find (\<lambda>p. str_eq (fst p) n) (name_alist names)")
    case None
    have "\<not> (i < length names \<and> names ! i = n)"
    proof
      assume i: "i < length names \<and> names ! i = n"
      then have "(n, i) \<in> set (name_alist names)" "str_eq n n"
        using eq [of n] nth_mem [of i names] by (auto simp: set_name_alist)
      with None show False by (auto simp: find_None_iff)
    qed
    with None show ?thesis by (simp add: alist_get_def)
  next
    case (Some p)
    then have "p \<in> set (name_alist names)" "str_eq (fst p) n" by (auto simp: find_Some_iff)
    then have "snd p < length names" "names ! snd p = n"
      using eq [OF keys] set_name_alist [of "fst p" "snd p" names] by auto
    with Some assms(3) show ?thesis by (auto simp: alist_get_def nth_eq_iff_index_eq)
  qed
qed

lemma alist_get_names_None:
  assumes "\<forall>m \<in> set names. no_nul m" "no_nul n" "distinct names"
  shows "alist_get str_eq (name_alist names) n = None \<longleftrightarrow> n \<notin> set names"
  using alist_get_names [OF assms] by (metis in_set_conv_nth not_Some_eq)

lemma alist_put_names:
  assumes "\<forall>m \<in> set names. no_nul m" "no_nul n" "n \<notin> set names"
  shows "alist_put str_eq (name_alist names) n (length names) = name_alist (names @ [n])"
  using assms set_name_alist [of _ _ names]
  by (auto simp: alist_put_def name_alist_snoc str_eq_def c_str_no_nul)

lemma add_endpoints_ok:
  "str_key.rel hm (name_alist names) \<Longrightarrow> distinct names \<Longrightarrow>
   \<forall>m \<in> set names \<union> ep_name ` set eps. no_nul m \<Longrightarrow>
   case add_endpoints eps (length names) hm of
     None \<Rightarrow> \<not> distinct (names @ map ep_name eps)
   | Some hm' \<Rightarrow> distinct (names @ map ep_name eps) \<and> str_key.rel hm' (name_alist (names @ map ep_name eps))"
proof (induction eps arbitrary: names hm)
  case (Cons ep eps)
  let ?n = "ep_name ep"
  have nn: "no_nul ?n" "\<forall>m \<in> set names. no_nul m" using Cons.prems(3) by auto
  have get: "hm_contains hm ?n \<longleftrightarrow> ?n \<in> set names"
    using str_key.get_refines [OF Cons.prems(1) nn(1)] alist_get_names_None [OF nn(2,1) Cons.prems(2)]
    by (simp add: hm_contains_def)
  show ?case
  proof (cases "?n \<in> set names")
    case False
    have "str_key.rel (hm_put hm ?n (length names)) (name_alist (names @ [?n]))"
      using str_key.put_refines [OF Cons.prems(1) nn(1), of "length names"] alist_put_names [OF nn(2,1) False]
      by simp
    from Cons.IH [OF this] False Cons.prems get show ?thesis by (simp split: option.splits)
  qed (use get in simp)
qed simp

text \<open>A set is made exactly from 1 to 300 endpoints with different names.\<close>

lemma new_endpoint_set_ok:
  assumes "\<forall>ep \<in> set eps. no_nul (ep_name ep)"
  shows "case new_chrpc_endpoint_set ji jn eps of
      None \<Rightarrow> eps = [] \<or> 300 < length eps \<or> \<not> distinct (map ep_name eps)
    | Some s \<Rightarrow> 1 \<le> length eps \<and> length eps \<le> 300 \<and> distinct (map ep_name eps) \<and>
        endpoints s = eps \<and> str_key.rel (name_map s) (name_alist (map ep_name eps))"
proof (cases "eps = [] \<or> 300 < length eps")
  case False
  obtain hm where hm: "new_hash_map ji jn 8 8 (Some str_hash) (Some str_eq) = Some (hm :: (byte list, nat) hash_map_t)"
    by (simp add: new_hash_map_def)
  have "str_key.rel hm (name_alist [])" using str_key.new_rel [OF hm] by (simp add: name_alist_def)
  note add = add_endpoints_ok [OF this, of eps]
  from False have "1 \<le> length eps" by (cases eps) simp_all
  with add assms False hm show ?thesis
    by (cases "add_endpoints eps 0 hm")
      (simp_all add: new_chrpc_endpoint_set_def CHRPC_ENDPOINT_SET_MAX_SIZE_def)
qed (auto simp: new_chrpc_endpoint_set_def CHRPC_ENDPOINT_SET_MAX_SIZE_def)

definition set_inv :: "'st chrpc_endpoint_set_t \<Rightarrow> bool" where [inv_defs]:
  "set_inv s \<longleftrightarrow> (\<forall>ep \<in> set (endpoints s). no_nul (ep_name ep)) \<and> distinct (map ep_name (endpoints s)) \<and>
     str_key.rel (name_map s) (name_alist (map ep_name (endpoints s)))"

lemma lookup_ok:
  assumes "set_inv s" "string_chars name = Some n"
  shows "chrpc_endpoint_set_lookup s name = Some (find (\<lambda>ep. ep_name ep = n) (endpoints s))"
proof -
  let ?names = "map ep_name (endpoints s)"
  have nn: "\<forall>m \<in> set ?names. no_nul m" "no_nul n" "distinct ?names"
    using assms string_chars_no_nul by (auto simp: set_inv_def)
  have get: "hm_get (name_map s) n = alist_get str_eq (name_alist ?names) n"
    using assms(1) nn(2) by (intro str_key.get_refines) (simp_all add: set_inv_def)
  show ?thesis
  proof (cases "find (\<lambda>ep. ep_name ep = n) (endpoints s)")
    case None
    then have "n \<notin> set ?names" by (auto simp: find_None_iff)
    then show ?thesis using get None assms(2) alist_get_names_None [OF nn]
      by (simp add: chrpc_endpoint_set_lookup_def)
  next
    case (Some ep)
    then obtain i where "i < length (endpoints s)" "endpoints s ! i = ep" "ep_name ep = n"
      by (auto simp: find_Some_iff)
    then show ?thesis using get Some assms(2) alist_get_names [OF nn, of i]
      by (simp add: chrpc_endpoint_set_lookup_def)
  qed
qed

section \<open>Property\<close>

text \<open>C29. An endpoint set is made exactly from 1 to 300 endpoints with pairwise different names, and a
  lookup in it gives the endpoint with that name, or NULL when there is none.\<close>

theorem endpoint_set_lookup:
  assumes "\<forall>ep \<in> set eps. no_nul (ep_name ep)" "string_chars name = Some n"
  shows "case fst (new_chrpc_endpoint_set_va ji jn eps) of
      None \<Rightarrow> eps = [] \<or> 300 < length eps \<or> \<not> distinct (map ep_name eps)
    | Some s \<Rightarrow> eps \<noteq> [] \<and> length eps \<le> 300 \<and> distinct (map ep_name eps) \<and>
        chrpc_endpoint_set_lookup s name = Some (find (\<lambda>ep. ep_name ep = n) eps)"
  using new_endpoint_set_ok [OF assms(1), of ji jn] lookup_ok [OF _ assms(2)] assms(1)
  by (auto simp: new_chrpc_endpoint_set_of_va set_inv_def split: option.splits)

theorem endpoint_set_lookup_witness:
  "let f = \<lambda>_ (st :: nat) _. (CHRPC_SC_KEEP_ALIVE, None, st + 1) in
   \<exists>e1 e2 s. new_chrpc_endpoint [97, 0] f None False [] = Some (Some e1) \<and>
     new_chrpc_endpoint [98, 0] f None False [CHRPC_BYTE_T] = Some (Some e2) \<and>
     fst (new_chrpc_endpoint_set_va 0 [] [e1, e2]) = Some s \<and> chrpc_endpoint_set_lookup s [98, 0, 1] = Some (Some e2)"
proof -
  let ?f = "\<lambda>_ (st :: nat) _. (CHRPC_SC_KEEP_ALIVE, None, st + 1)"
  obtain e1 e2 where e: "new_chrpc_endpoint [97, 0] ?f None False [] = Some (Some e1)" "ep_name e1 = [97]"
    "new_chrpc_endpoint [98, 0] ?f None False [CHRPC_BYTE_T] = Some (Some e2)" "ep_name e2 = [98]"
    by (simp add: new_chrpc_endpoint_def CHRPC_ENDPOINT_MAX_ARGS_def string_chars_def)
  have "string_chars [98, 0, 1] = Some [98]" by (simp add: string_chars_def)
  from endpoint_set_lookup [OF _ this, of "[e1, e2]" 0 "[]"] e show ?thesis
    by (auto simp: no_nul_def split: option.splits)
qed

end
