(* ===== verification/Chrpc_Server.thy ===== *)
theory Chrpc_Server
  imports Chrpc_Endpoint Chrpc_Channel
begin

text \<open>
  Serving one request (\<open>chrpc/src/rpc_server.c\<close>: \<open>chrpc_send_error_response\<close> to
  \<open>chrpc_poll_channel\<close>).  A handler works on a connection: the channel it was given, the server
  state the endpoints may change, the worker's message buffer and a count of the blocks allocated
  minus the blocks freed.  The result \<open>None\<close> is undefined behaviour.

  Log output is left out.

  The lemmas relate the handlers to \<open>reply_bytes\<close> and \<open>request_bytes\<close>, the two message formats
  documented in \<open>rpc_server.h\<close>.
\<close>

section \<open>Connections\<close>

definition CHRPC_SERVER_BUF_MIN_SIZE :: nat where "CHRPC_SERVER_BUF_MIN_SIZE = 128"

text \<open>The two message types, made in \<open>new_chrpc_server\<close> and \<open>new_chrpc_client\<close>.\<close>

definition req_type :: chrpc_type_t where
  "req_type = the (new_chrpc_struct_type [CHRPC_STRING_T, Array (Array CHRPC_BYTE_T)])"

definition resp_type :: chrpc_type_t where
  "resp_type = the (new_chrpc_struct_type [CHRPC_BYTE_T, Array CHRPC_BYTE_T])"

record ('c, 'cfg, 'st) conn =
  cn_chn :: "('c, 'cfg) channel_t"
  cn_state :: 'st
  cn_buf :: "byte list"
  cn_live :: int

text \<open>\<open>chn_send(chn, buf, n)\<close> on the connection's channel and buffer.\<close>

definition conn_send :: "nat \<Rightarrow> ('c, 'cfg, 'st) conn \<Rightarrow> channel_status_t \<times> ('c, 'cfg, 'st) conn" where
  "conn_send n cn =
     (case chn_send (Some (cn_chn cn)) (Some (take n (cn_buf cn))) of
        (chn_status, chn') \<Rightarrow> (chn_status, cn\<lparr>cn_chn := the chn'\<rparr>))"

text \<open>Deleting a list of values, and a value that may be NULL.\<close>

definition free_values :: "chrpc_value_t list \<Rightarrow> ('c, 'cfg, 'st) conn \<Rightarrow> ('c, 'cfg, 'st) conn option" where
  "free_values vs cn = do { n \<leftarrow> delete_all vs; Some (cn\<lparr>cn_live := cn_live cn - int n\<rparr>) }"

section \<open>Responses\<close>

definition chrpc_send_error_response ::
    "chrpc_status_t \<Rightarrow> ('c, 'cfg, 'st) conn \<Rightarrow> (chrpc_status_t \<times> ('c, 'cfg, 'st) conn) option" where
  "chrpc_send_error_response err cn =
     (case (new_chrpc_b8_value (status_code err), new_chrpc_b8_array_value [] 0) of
        ((err_code, n1), (ret, n2)) \<Rightarrow> do {
          (err_val, n3) \<leftarrow> new_chrpc_struct_value_va [err_code, ret];
          v \<leftarrow> err_val;
          (rpc_status, written, b) \<leftarrow> chrpc_value_to_buffer v (cn_buf cn);
          cn1 \<leftarrow> free_values [v] (cn\<lparr>cn_buf := b, cn_live := cn_live cn + n1 + n2 + n3\<rparr>);
          (if rpc_status \<noteq> CHRPC_SUCCESS then Some (rpc_status, cn1)
           else case conn_send (the written) cn1 of
                  (chn_status, cn2) \<Rightarrow>
                    Some (if chn_status \<noteq> CHN_SUCCESS then CHRPC_CLIENT_CHANNEL_ERROR else CHRPC_SUCCESS, cn2)) })"

definition chrpc_type_equals_wrapper :: "chrpc_type_t option \<Rightarrow> chrpc_value_t option \<Rightarrow> bool" where
  "chrpc_type_equals_wrapper ct cv =
     (case (ct, cv) of
        (None, None) \<Rightarrow> True
      | (Some t, Some v) \<Rightarrow> chrpc_type_equals t (v_type v)
      | _ \<Rightarrow> False)"

text \<open>
  The response is serialized piece by piece: its type, the status byte, the return value with its
  length.  The result is the status, \<open>total_written\<close> and the buffer; after a failed step the rest
  is skipped and \<open>total_written\<close> is not used again.
\<close>

definition write_response :: "chrpc_value_t option \<Rightarrow> byte list \<Rightarrow> write_result option" where
  "write_response ret_val buf =
     (let mms = length buf
      in case chrpc_type_to_buffer resp_type buf of (status, w, b1) \<Rightarrow>
        if status \<noteq> CHRPC_SUCCESS then Some (status, None, b1)
        else let total1 = the w
             in if mms - total1 < 1 then Some (CHRPC_BUFFER_TOO_SMALL, None, b1)
                else let b2 = b1[total1 := status_code CHRPC_SUCCESS]; total2 = total1 + 1
                     in do {
                       (status2, w2, b3) \<leftarrow> chrpc_value_to_buffer_with_length ret_val (drop total2 b2);
                       Some (status2, map_option (\<lambda>n. total2 + n) w2, take total2 b2 @ b3) })"

text \<open>The blocks of the endpoint's return value are live from the call on.\<close>

definition chrpc_send_response ::
    "'st chrpc_endpoint_t \<Rightarrow> chrpc_value_t list \<Rightarrow> channel_id_t \<Rightarrow> ('c, 'cfg, 'st) conn \<Rightarrow>
     (chrpc_status_t \<times> ('c, 'cfg, 'st) conn) option" where
  "chrpc_send_response ep args chn_id cn =
     (case ep_func ep chn_id (cn_state cn) args of (cmd, ret_val, st) \<Rightarrow>
        let ret_vals = (case ret_val of None \<Rightarrow> [] | Some v \<Rightarrow> [v]);
            cn1 = cn\<lparr>cn_state := st, cn_live := cn_live cn + int (sum_list (map value_blocks ret_vals))\<rparr>
        in if \<not> chrpc_type_equals_wrapper (ep_ret ep) ret_val then do {
             cn2 \<leftarrow> free_values ret_vals cn1;
             Some (CHRPC_SERVER_INTERNAL_ERROR, cn2) }
           else do {
             (status, total_written, b) \<leftarrow> write_response ret_val (cn_buf cn1);
             cn2 \<leftarrow> free_values ret_vals (cn1\<lparr>cn_buf := b\<rparr>);
             (if status \<noteq> CHRPC_SUCCESS then chrpc_send_error_response status cn2
              else case conn_send (the total_written) cn2 of (chn_status, cn3) \<Rightarrow>
                if chn_status = CHN_INVALID_MSG_SIZE then chrpc_send_error_response CHRPC_BUFFER_TOO_SMALL cn3
                else if chn_status \<noteq> CHN_SUCCESS then Some (CHRPC_CLIENT_CHANNEL_ERROR, cn3)
                else if cmd = CHRPC_SC_DISCONNECT then Some (CHRPC_DISCONNECT, cn3)
                else Some (CHRPC_SUCCESS, cn3)) })"

section \<open>Requests\<close>

text \<open>The loop over the arguments: the status, the values parsed so far and their blocks.\<close>

fun parse_args ::
    "chrpc_type_t list \<Rightarrow> chrpc_inner_value_t list \<Rightarrow> chrpc_value_t list \<Rightarrow> int \<Rightarrow>
     (chrpc_status_t \<times> chrpc_value_t list \<times> int) option" where
  "parse_args [] ivs given_args live = Some (CHRPC_SUCCESS, given_args, live)"
| "parse_args (t # ts) (IVNumArr field_buf field_buf_len # ivs) given_args live =
     do { bs \<leftarrow> block_bytes field_buf (unat field_buf_len);
          (r, l) \<leftarrow> chrpc_value_from_buffer bs;
          (case r of
             Inl e \<Rightarrow> Some (e, given_args, live + l)
           | Inr (field, readden) \<Rightarrow>
               if \<not> chrpc_type_equals t (v_type field)
               then Some (CHRPC_ARGUMENT_MISMATCH, given_args @ [field], live + l)
               else parse_args ts ivs (given_args @ [field]) (live + l)) }"
| "parse_args _ _ _ _ = None"

definition chrpc_handle_request ::
    "'st chrpc_endpoint_set_t \<Rightarrow> chrpc_value_t \<Rightarrow> channel_id_t \<Rightarrow> ('c, 'cfg, 'st) conn \<Rightarrow>
     (chrpc_status_t \<times> ('c, 'cfg, 'st) conn) option" where
  "chrpc_handle_request ep_set req chn_id cn =
     (if \<not> chrpc_type_equals req_type (v_type req) then chrpc_send_error_response CHRPC_BAD_REQUEST cn
      else case v_value req of
        IVStruct [IVStr endpoint_name, IVEntries arg_arrays array_len] \<Rightarrow> do {
          found \<leftarrow> chrpc_endpoint_set_lookup ep_set endpoint_name;
          (case found of
             None \<Rightarrow> chrpc_send_error_response CHRPC_UKNOWN_ENDPOINT cn
           | Some ep \<Rightarrow>
               if length (ep_args ep) \<noteq> unat array_len
               then chrpc_send_error_response CHRPC_ARGUMENT_MISMATCH cn
               else do {
                 (status, given_args, live) \<leftarrow> parse_args (ep_args ep) arg_arrays [] 0;
                 let cn1 = cn\<lparr>cn_live := cn_live cn + live\<rparr>;
                 (status', cn2) \<leftarrow>
                   (if status \<noteq> CHRPC_SUCCESS then chrpc_send_error_response status cn1
                    else chrpc_send_response ep given_args chn_id cn1);
                 cn3 \<leftarrow> free_values given_args cn2;
                 Some (status', cn3) }) }
      | _ \<Rightarrow> None)"

definition chrpc_poll_channel ::
    "'st chrpc_endpoint_set_t \<Rightarrow> channel_id_t \<Rightarrow> ('c, 'cfg, 'st) conn \<Rightarrow>
     (chrpc_status_t \<times> ('c, 'cfg, 'st) conn) option" where
  "chrpc_poll_channel ep_set chn_id cn =
     (case chn_refresh (Some (cn_chn cn)) of (refresh_status, chn1) \<Rightarrow>
        let cn1 = cn\<lparr>cn_chn := the chn1\<rparr>
        in if refresh_status \<noteq> CHN_SUCCESS then Some (CHRPC_CLIENT_CHANNEL_ERROR, cn1)
           else case chn_receive (Some (cn_chn cn1)) True (length (cn_buf cn1)) True of
             (chn_status, msg, chn2) \<Rightarrow>
               let cn2 = cn1\<lparr>cn_chn := the chn2\<rparr>
               in if chn_status = CHN_NO_INCOMING_MSG then Some (CHRPC_CLIENT_CHANNEL_EMTPY, cn2)
                  else if chn_status \<noteq> CHN_SUCCESS then Some (CHRPC_CLIENT_CHANNEL_ERROR, cn2)
                  else do {
                    m \<leftarrow> msg;
                    let cn3 = cn2\<lparr>cn_buf := m @ drop (length m) (cn_buf cn2)\<rparr>;
                    (r, live) \<leftarrow> chrpc_value_from_buffer (take (length m) (cn_buf cn3));
                    (case r of
                       Inl e \<Rightarrow> chrpc_send_error_response e (cn3\<lparr>cn_live := cn_live cn3 + live\<rparr>)
                     | Inr (req, readden) \<Rightarrow> do {
                         (rpc_status, cn4) \<leftarrow>
                           chrpc_handle_request ep_set req chn_id (cn3\<lparr>cn_live := cn_live cn3 + live\<rparr>);
                         cn5 \<leftarrow> free_values [req] cn4;
                         Some (rpc_status, cn5) }) })"

section \<open>The message formats\<close>

definition reply_bytes :: "chrpc_status_t \<Rightarrow> byte list \<Rightarrow> byte list" where
  "reply_bytes status ret =
     type_enc resp_type @ [status_code status] @ u32_le (of_nat (length ret)) @ ret"

definition ret_enc :: "chrpc_value_t option \<Rightarrow> byte list" where
  "ret_enc ret = (case ret of None \<Rightarrow> [] | Some v \<Rightarrow> value_enc v)"

definition arg_enc :: "chrpc_value_t \<Rightarrow> byte list" where
  "arg_enc v = u32_le (of_nat (length (value_enc v))) @ value_enc v"

definition request_bytes :: "byte list \<Rightarrow> chrpc_value_t list \<Rightarrow> byte list" where
  "request_bytes name args =
     type_enc req_type @ str_enc (cstr name) @ u32_le (of_nat (length args)) @ concat (map arg_enc args)"

lemma msg_types:
  "resp_type = Struct [CHRPC_BYTE_T, Array CHRPC_BYTE_T]"
  "req_type = Struct [CHRPC_STRING_T, Array (Array CHRPC_BYTE_T)]"
  by (simp_all add: resp_type_def req_type_def new_chrpc_struct_type_def CHRPC_MAX_STRUCT_FIELDS_def)

lemma wf_msg_types [simp]: "wf_type resp_type" "wf_type req_type"
  by (simp_all add: msg_types CHRPC_MAX_STRUCT_FIELDS_def)

lemma type_enc_msg_types: "type_enc resp_type = [10, 2, 0, 11, 0]" "type_enc req_type = [10, 2, 9, 11, 11, 0]"
  by (simp_all add: msg_types)

lemma length_resp_type: "length (type_enc resp_type) = 5"
  by (simp add: type_enc_msg_types)

lemma length_reply_bytes [simp]: "length (reply_bytes status ret) = 10 + length ret"
  by (simp add: reply_bytes_def type_enc_msg_types)

section \<open>What the handlers do\<close>

text \<open>The outcome of a handler: nothing leaked, and the buffer holds anything of the same size.\<close>

definition outcome ::
    "(chrpc_status_t \<times> ('c, 'cfg, 'st) conn) option \<Rightarrow> ('c, 'cfg, 'st) conn \<Rightarrow>
     chrpc_status_t \<times> ('c, 'cfg) channel_t \<times> 'st \<Rightarrow> bool" where
  "outcome r cn res \<longleftrightarrow> (case res of (status, chn, st) \<Rightarrow>
     \<exists>b. length b = length (cn_buf cn) \<and> r = Some (status, cn\<lparr>cn_chn := chn, cn_state := st, cn_buf := b\<rparr>))"

lemma outcomeI:
  "r = Some (status, cn\<lparr>cn_chn := chn, cn_state := st, cn_buf := b\<rparr>) \<Longrightarrow> length b = length (cn_buf cn) \<Longrightarrow>
   outcome r cn (status, chn, st)"
  unfolding outcome_def by blast

lemma outcomeE:
  assumes "outcome r cn res"
  obtains b where "length b = length (cn_buf cn)"
    "r = Some (fst res, cn\<lparr>cn_chn := fst (snd res), cn_state := snd (snd res), cn_buf := b\<rparr>)"
  using assms by (cases res) (auto simp: outcome_def)

definition send_bytes ::
    "byte list \<Rightarrow> ('c, 'cfg) channel_t \<Rightarrow> channel_status_t \<times> ('c, 'cfg) channel_t" where
  "send_bytes bs chn = (case chn_send (Some chn) (Some bs) of (s, c) \<Rightarrow> (s, the c))"

definition error_reply ::
    "chrpc_status_t \<Rightarrow> ('c, 'cfg) channel_t \<Rightarrow> 'st \<Rightarrow> chrpc_status_t \<times> ('c, 'cfg) channel_t \<times> 'st" where
  "error_reply err chn st = (case send_bytes (reply_bytes err []) chn of (s, c) \<Rightarrow>
     (if s \<noteq> CHN_SUCCESS then CHRPC_CLIENT_CHANNEL_ERROR else CHRPC_SUCCESS, c, st))"

text \<open>What an endpoint may return: a well-formed value that deleting frees completely.\<close>

definition ret_ok :: "chrpc_value_t option \<Rightarrow> bool" where
  "ret_ok ret \<longleftrightarrow> (\<forall>v. ret = Some v \<longrightarrow>
     wf_value v \<and> delete_chrpc_value v = Some (value_blocks v) \<and> length (value_enc v) < 2 ^ 32)"

definition serve_endpoint ::
    "nat \<Rightarrow> 'st chrpc_endpoint_t \<Rightarrow> chrpc_value_t list \<Rightarrow> channel_id_t \<Rightarrow> ('c, 'cfg) channel_t \<Rightarrow> 'st \<Rightarrow>
     chrpc_status_t \<times> ('c, 'cfg) channel_t \<times> 'st" where
  "serve_endpoint mms ep args chn_id chn st =
     (case ep_func ep chn_id st args of (cmd, ret, st') \<Rightarrow>
        if map_option v_type ret \<noteq> ep_ret ep then (CHRPC_SERVER_INTERNAL_ERROR, chn, st')
        else let bs = reply_bytes CHRPC_SUCCESS (ret_enc ret)
             in if mms < length bs then error_reply CHRPC_BUFFER_TOO_SMALL chn st'
                else case send_bytes bs chn of (s, c) \<Rightarrow>
                  if s = CHN_INVALID_MSG_SIZE then error_reply CHRPC_BUFFER_TOO_SMALL c st'
                  else (if s \<noteq> CHN_SUCCESS then CHRPC_CLIENT_CHANNEL_ERROR
                        else if cmd = CHRPC_SC_DISCONNECT then CHRPC_DISCONNECT else CHRPC_SUCCESS, c, st'))"

lemma conn_send_prefix:
  "take n b = bs \<Longrightarrow> conn_send n (cn\<lparr>cn_buf := b\<rparr>) =
     (case send_bytes bs (cn_chn cn) of (s, c) \<Rightarrow> (s, cn\<lparr>cn_buf := b, cn_chn := c\<rparr>))"
  by (simp add: conn_send_def send_bytes_def split: prod.split)

text \<open>A value as the reader makes it is deleted completely when its strings are terminated.\<close>

lemma delete_exact:
  assumes "raw_wt (v_type v) (v_value v)" "terminated (v_value v)"
  shows "delete_chrpc_value v = Some (value_blocks v)"
  using delete_wt(1) [OF raw_wt_terminated(1) [OF assms]] delete_raw_wt(1) [OF assms(1)]
  by (auto simp: delete_chrpc_value_def value_blocks_def)

text \<open>The struct the error response is built from.\<close>

definition err_value :: "byte \<Rightarrow> chrpc_value_t" where
  "err_value c = \<lparr>v_type = resp_type, v_value = IVStruct [IVNumber [c], IVNumArr [] 0]\<rparr>"

lemma word_bytes_1 [simp]: "word_bytes (Suc 0) (w :: byte) = [w]"
  by (simp add: word_bytes_def)

lemma err_value_made:
  "new_chrpc_struct_value_va [fst (new_chrpc_b8_value c), fst (new_chrpc_b8_array_value [] 0)] =
     Some (Some (err_value c),
           int (value_blocks (err_value c)) - (snd (new_chrpc_b8_value c) + snd (new_chrpc_b8_array_value [] 0)))"
  by (simp add: new_chrpc_b8_value_def new_chrpc_b8_array_value_def iv_value_def iv_array_value_def
      new_chrpc_value_from_pair_def new_chrpc_struct_value_va_def Let_def new_chrpc_struct_value_def
      CHRPC_MAX_STRUCT_FIELDS_def frees_def cells_bytes_def err_value_def value_blocks_def msg_types)

lemma err_value_ok:
  "wf_value (err_value c)" "value_enc (err_value c) = type_enc resp_type @ [c, 0, 0, 0, 0]"
  "delete_chrpc_value (err_value c) = Some (value_blocks (err_value c))"
proof -
  have raw: "raw_wt resp_type (v_value (err_value c))" "terminated (v_value (err_value c))"
    by (simp_all add: err_value_def msg_types chrpc_blockable_type_cell_size_def)
  then show "delete_chrpc_value (err_value c) = Some (value_blocks (err_value c))"
    by (intro delete_exact) (simp_all add: err_value_def)
  show "wf_value (err_value c)" using raw_wt_terminated(1) [OF raw] by (simp add: wf_value_def err_value_def)
  show "value_enc (err_value c) = type_enc resp_type @ [c, 0, 0, 0, 0]"
    by (simp add: err_value_def value_enc_def msg_types u32_le_def)
qed

lemma conn_same_live [simp]: "cn\<lparr>cn_buf := b, cn_live := cn_live cn\<rparr> = cn\<lparr>cn_buf := b\<rparr>"
  by (cases cn) simp

lemma error_response_ok:
  assumes "10 \<le> length (cn_buf cn)"
  shows "outcome (chrpc_send_error_response err cn) cn (error_reply err (cn_chn cn) (cn_state cn))"
proof -
  let ?c = "status_code err" let ?v = "err_value ?c" and ?bs = "reply_bytes err []"
  obtain x1 n1 where e1: "new_chrpc_b8_value ?c = (x1, n1)" by fastforce
  obtain x2 n2 where e2: "new_chrpc_b8_array_value [] 0 = (x2, n2)" by fastforce
  have made: "new_chrpc_struct_value_va [x1, x2] = Some (Some ?v, int (value_blocks ?v) - (n1 + n2))"
    using err_value_made [of ?c] by (simp add: e1 e2)
  have enc: "value_enc ?v = ?bs" by (simp add: err_value_ok reply_bytes_def u32_le_def)
  then have w: "chrpc_value_to_buffer ?v (cn_buf cn) = Some (CHRPC_SUCCESS, Some 10, ?bs @ drop 10 (cn_buf cn))"
    using value_writes [OF err_value_ok(1), of ?c "cn_buf cn"] assms by (simp add: writes_def)
  obtain s c where s: "send_bytes ?bs (cn_chn cn) = (s, c)" by fastforce
  have "chrpc_send_error_response err cn = Some (fst (error_reply err (cn_chn cn) (cn_state cn)),
      cn\<lparr>cn_chn := c, cn_buf := ?bs @ drop 10 (cn_buf cn)\<rparr>)"
    using w s conn_send_prefix [of 10 "?bs @ drop 10 (cn_buf cn)" ?bs cn]
    by (simp add: chrpc_send_error_response_def e1 e2 made err_value_ok free_values_def error_reply_def)
  then show ?thesis using assms s
    unfolding outcome_def error_reply_def by (auto intro!: exI [of _ "?bs @ drop 10 (cn_buf cn)"])
qed

lemma with_length_writes:
  assumes "wf_value v" "length (value_enc v) < 2 ^ 32"
  shows "writes (arg_enc v) 0 buf (chrpc_value_to_buffer_with_length (Some v) buf)"
  using value_writes [OF assms(1), of "drop 4 buf"] assms(2)
  by (auto simp: writes_def chrpc_value_to_buffer_with_length_def arg_enc_def add.commute split: if_splits)

lemma with_length_null: "writes (u32_le 0) 0 buf (chrpc_value_to_buffer_with_length None buf)"
  by (simp add: writes_def chrpc_value_to_buffer_with_length_def)

lemma write_response_ok:
  assumes "ret_ok ret"
  shows "writes (reply_bytes CHRPC_SUCCESS (ret_enc ret)) 0 buf (write_response ret buf)"
proof -
  let ?e = "u32_le (of_nat (length (ret_enc ret))) @ ret_enc ret"
  have e: "writes ?e 0 b (chrpc_value_to_buffer_with_length ret b)" for b
    using assms with_length_writes with_length_null
    by (cases ret) (simp_all add: ret_ok_def ret_enc_def arg_enc_def)
  have bs: "reply_bytes CHRPC_SUCCESS (ret_enc ret) = type_enc resp_type @ [0] @ ?e"
    by (simp add: reply_bytes_def)
  consider "length buf < 5" | "length buf = 5" | "6 \<le> length buf" by linarith
  then show ?thesis
  proof cases
    case 1
    then have "fst (chrpc_type_to_buffer resp_type buf) = CHRPC_BUFFER_TOO_SMALL"
      using to_buffer_small(1) [of buf resp_type] by (simp add: type_enc_msg_types)
    then show ?thesis using 1 to_buffer_length(1) [of resp_type buf]
      by (cases "chrpc_type_to_buffer resp_type buf") (auto simp: writes_def write_response_def bs type_enc_msg_types)
  next
    case 2
    then show ?thesis using to_buffer_ok(1) [of resp_type buf]
      by (auto simp: writes_def write_response_def Let_def bs type_enc_msg_types)
  next
    case 3
    let ?b = "(type_enc resp_type @ drop 5 buf)[5 := 0]"
    obtain x xs where d: "drop 5 buf = x # xs" using 3 by (cases "drop 5 buf") auto
    have "drop 6 buf = drop 1 (drop 5 buf)" by (simp only: drop_drop) simp
    then have b: "take 6 ?b = type_enc resp_type @ [0]" "drop 6 ?b = drop 6 buf"
      by (simp_all add: d type_enc_msg_types)
    have "write_response ret buf = do {
        (status2, w2, b3) \<leftarrow> chrpc_value_to_buffer_with_length ret (drop 6 ?b);
        Some (status2, map_option (\<lambda>n. 6 + n) w2, take 6 ?b @ b3) }"
      using to_buffer_ok(1) [of resp_type buf] 3 by (simp add: write_response_def Let_def length_resp_type)
    then show ?thesis using e [of "drop 6 buf"] 3 unfolding b bs
      by (auto simp: writes_def type_enc_msg_types split: if_splits)
  qed
qed

lemma outcome_weaken:
  assumes "outcome r cn1 res" "length (cn_buf cn1) = length (cn_buf cn)" "cn_live cn1 = cn_live cn"
  shows "outcome r cn res"
proof -
  obtain status chn st where res: "res = (status, chn, st)" by (cases res)
  with assms(1) obtain b where b: "length b = length (cn_buf cn1)"
    "r = Some (status, cn1\<lparr>cn_chn := chn, cn_state := st, cn_buf := b\<rparr>)" by (auto elim!: outcomeE)
  have "cn1\<lparr>cn_chn := chn, cn_state := st, cn_buf := b\<rparr> = cn\<lparr>cn_chn := chn, cn_state := st, cn_buf := b\<rparr>"
    using assms(3) by (cases cn; cases cn1) simp
  then show ?thesis unfolding res using b assms(2) by (intro outcomeI [where b = b]) simp_all
qed

lemma error_response_at:
  assumes "10 \<le> length (cn_buf cn)" "length (cn_buf cn1) = length (cn_buf cn)" "cn_live cn1 = cn_live cn"
    and "cn_chn cn1 = c" "cn_state cn1 = st"
  shows "outcome (chrpc_send_error_response err cn1) cn (error_reply err c st)"
  using outcome_weaken [OF error_response_ok [of cn1 err] assms(2,3)] assms by simp

lemma type_equals_wrapper_ok: "chrpc_type_equals_wrapper ct cv \<longleftrightarrow> map_option v_type cv = ct"
  by (cases ct; cases cv) (auto simp: chrpc_type_equals_wrapper_def equals_ok)

lemma send_response_ok:
  assumes len: "10 \<le> length (cn_buf cn)"
    and contract: "ret_ok (fst (snd (ep_func ep chn_id (cn_state cn) args)))"
  shows "outcome (chrpc_send_response ep args chn_id cn) cn
    (serve_endpoint (length (cn_buf cn)) ep args chn_id (cn_chn cn) (cn_state cn))"
proof -
  obtain cmd ret st where call: "ep_func ep chn_id (cn_state cn) args = (cmd, ret, st)" by (metis surj_pair)
  then have ok: "ret_ok ret" using contract by simp
  define rv where "rv = (case ret of None \<Rightarrow> [] | Some v \<Rightarrow> [v])"
  define cn1 where "cn1 = cn\<lparr>cn_state := st, cn_live := cn_live cn + int (sum_list (map value_blocks rv))\<rparr>"
  have fv: "free_values rv (cn1\<lparr>cn_buf := b\<rparr>) = Some (cn\<lparr>cn_state := st, cn_buf := b\<rparr>)" for b
    using ok by (cases ret; cases cn) (simp_all add: free_values_def rv_def cn1_def ret_ok_def)
  have buf1: "cn_buf cn1 = cn_buf cn" by (simp add: cn1_def)
  let ?bs = "reply_bytes CHRPC_SUCCESS (ret_enc ret)"
  note w = write_response_ok [OF ok, of "cn_buf cn"]
  have code: "chrpc_send_response ep args chn_id cn =
    (if \<not> chrpc_type_equals_wrapper (ep_ret ep) ret then do {
       cn2 \<leftarrow> free_values rv cn1; Some (CHRPC_SERVER_INTERNAL_ERROR, cn2) }
     else do {
       (status, total_written, b) \<leftarrow> write_response ret (cn_buf cn);
       cn2 \<leftarrow> free_values rv (cn1\<lparr>cn_buf := b\<rparr>);
       (if status \<noteq> CHRPC_SUCCESS then chrpc_send_error_response status cn2
        else case conn_send (the total_written) cn2 of (chn_status, cn3) \<Rightarrow>
          if chn_status = CHN_INVALID_MSG_SIZE then chrpc_send_error_response CHRPC_BUFFER_TOO_SMALL cn3
          else if chn_status \<noteq> CHN_SUCCESS then Some (CHRPC_CLIENT_CHANNEL_ERROR, cn3)
          else if cmd = CHRPC_SC_DISCONNECT then Some (CHRPC_DISCONNECT, cn3)
          else Some (CHRPC_SUCCESS, cn3)) })"
    unfolding buf1 [symmetric]
    by (simp add: chrpc_send_response_def call Let_def rv_def [symmetric] cn1_def [symmetric])
  consider "map_option v_type ret \<noteq> ep_ret ep"
    | "map_option v_type ret = ep_ret ep" "length (cn_buf cn) < length ?bs"
    | "map_option v_type ret = ep_ret ep" "length ?bs \<le> length (cn_buf cn)" by linarith
  then show ?thesis
  proof cases
    case 1
    have "cn1\<lparr>cn_buf := cn_buf cn\<rparr> = cn1" "cn\<lparr>cn_state := st, cn_buf := cn_buf cn\<rparr> = cn\<lparr>cn_state := st\<rparr>"
      by (cases cn; simp add: cn1_def)+
    with fv [of "cn_buf cn"] have "free_values rv cn1 = Some (cn\<lparr>cn_state := st\<rparr>)" by simp
    moreover have "outcome (Some (CHRPC_SERVER_INTERNAL_ERROR, cn\<lparr>cn_state := st\<rparr>)) cn
        (CHRPC_SERVER_INTERNAL_ERROR, cn_chn cn, st)"
      by (rule outcomeI [where b = "cn_buf cn"]) (cases cn, simp_all)
    ultimately show ?thesis using 1 by (simp add: code type_equals_wrapper_ok serve_endpoint_def call)
  next
    case 2
    with w obtain b where b: "length b = length (cn_buf cn)"
      "write_response ret (cn_buf cn) = Some (CHRPC_BUFFER_TOO_SMALL, None, b)"
      by (auto simp: writes_def split: if_splits)
    with 2 fv have "chrpc_send_response ep args chn_id cn =
        chrpc_send_error_response CHRPC_BUFFER_TOO_SMALL (cn\<lparr>cn_state := st, cn_buf := b\<rparr>)"
      by (simp add: code type_equals_wrapper_ok)
    moreover have "outcome (chrpc_send_error_response CHRPC_BUFFER_TOO_SMALL (cn\<lparr>cn_state := st, cn_buf := b\<rparr>)) cn
        (error_reply CHRPC_BUFFER_TOO_SMALL (cn_chn cn) st)"
      by (rule error_response_at) (use b len in simp_all)
    ultimately show ?thesis using 2 by (simp add: serve_endpoint_def call Let_def)
  next
    case 3
    let ?b = "?bs @ drop (length ?bs) (cn_buf cn)"
    obtain s c where s: "send_bytes ?bs (cn_chn cn) = (s, c)" by fastforce
    have b: "length ?b = length (cn_buf cn)" using 3(2) by simp
    have wr: "write_response ret (cn_buf cn) = Some (CHRPC_SUCCESS, Some (length ?bs), ?b)"
      using w 3(2) by (simp add: writes_def)
    have send: "conn_send (length ?bs) (cn\<lparr>cn_state := st, cn_buf := ?b\<rparr>) =
        (s, cn\<lparr>cn_chn := c, cn_state := st, cn_buf := ?b\<rparr>)"
      using conn_send_prefix [of "length ?bs" ?b ?bs "cn\<lparr>cn_state := st\<rparr>"] s by simp
    have code3: "chrpc_send_response ep args chn_id cn =
        (if s = CHN_INVALID_MSG_SIZE
         then chrpc_send_error_response CHRPC_BUFFER_TOO_SMALL (cn\<lparr>cn_chn := c, cn_state := st, cn_buf := ?b\<rparr>)
         else Some (if s \<noteq> CHN_SUCCESS then CHRPC_CLIENT_CHANNEL_ERROR
                    else if cmd = CHRPC_SC_DISCONNECT then CHRPC_DISCONNECT else CHRPC_SUCCESS,
                    cn\<lparr>cn_chn := c, cn_state := st, cn_buf := ?b\<rparr>))"
      using 3(1) wr fv [of ?b] send by (simp add: code type_equals_wrapper_ok del: length_reply_bytes)
    have "outcome (chrpc_send_error_response CHRPC_BUFFER_TOO_SMALL (cn\<lparr>cn_chn := c, cn_state := st, cn_buf := ?b\<rparr>)) cn
        (error_reply CHRPC_BUFFER_TOO_SMALL c st)"
      by (rule error_response_at) (use b len in simp_all)
    with code3 3 s b show ?thesis
      by (auto simp: serve_endpoint_def call Let_def intro: outcomeI)
  qed
qed

subsection \<open>The arguments\<close>

text \<open>Bytes the reader is defined on, and whose strings it finds terminated.\<close>

definition readable :: "byte list \<Rightarrow> bool" where
  "readable bs \<longleftrightarrow> (case chrpc_value_from_buffer bs of
     None \<Rightarrow> False
   | Some (r, live) \<Rightarrow> (case r of Inl e \<Rightarrow> True | Inr (v, n) \<Rightarrow> terminated (v_value v)))"

lemma reader_error:
  assumes "chrpc_value_from_buffer bs = Some (Inl e, live)" shows "e \<noteq> CHRPC_SUCCESS"
proof -
  obtain rt lt where t: "chrpc_type_from_buffer bs = (rt, lt)" by fastforce
  show ?thesis
  proof (cases rt)
    case (Inl e')
    with t from_buffer_sound(1) [of bs] assms show ?thesis by (auto simp: chrpc_value_from_buffer_def)
  next
    case (Inr x)
    then obtain ct k where x: "rt = Inr (ct, k)" by (metis surj_pair)
    with assms t obtain l where inner: "chrpc_inner_value_from_buffer ct (drop k bs) = Some (Inl e, l)"
      by (auto simp: chrpc_value_from_buffer_def split: Option.bind_splits sum.splits)
    show ?thesis by (rule value_or_end_cases [OF reader_sound(1) [OF inner] inner]) simp_all
  qed
qed

lemma readable_cases:
  assumes "readable bs"
  obtains (bad) e where "chrpc_value_from_buffer bs = Some (Inl e, 0)" "e \<noteq> CHRPC_SUCCESS"
  | (good) v n where "chrpc_value_from_buffer bs = Some (Inr (v, n), int (value_blocks v))"
      "wf_type (v_type v)" "raw_wt (v_type v) (v_value v)" "terminated (v_value v)"
      "delete_chrpc_value v = Some (value_blocks v)"
proof -
  from assms obtain r live where r: "chrpc_value_from_buffer bs = Some (r, live)"
    by (auto simp: readable_def split: option.splits)
  then show ?thesis
  proof (cases rule: value_sound)
    case (1 e)
    with r reader_error [of bs e] bad show ?thesis by simp
  next
    case (2 v n rest)
    moreover from this r assms have "terminated (v_value v)" by (simp add: readable_def)
    ultimately show ?thesis using good [of v n] r delete_exact [of v] by simp
  qed
qed

fun decode_args ::
    "chrpc_type_t list \<Rightarrow> chrpc_inner_value_t list \<Rightarrow> chrpc_status_t + chrpc_value_t list" where
  "decode_args (t # ts) (IVNumArr bs n # ivs) =
     (case chrpc_value_from_buffer bs of
        Some (Inr (v, _), _) \<Rightarrow>
          if v_type v \<noteq> t then Inl CHRPC_ARGUMENT_MISMATCH
          else (case decode_args ts ivs of Inl e \<Rightarrow> Inl e | Inr vs \<Rightarrow> Inr (v # vs))
      | Some (Inl e, _) \<Rightarrow> Inl e
      | None \<Rightarrow> Inr [])"
| "decode_args _ _ = Inr []"

abbreviation blocks :: "chrpc_value_t list \<Rightarrow> nat" where
  "blocks vs \<equiv> sum_list (map value_blocks vs)"

lemma parse_args_ok:
  "length ivs = length ts \<Longrightarrow> \<forall>iv \<in> set ivs. \<exists>bs n. iv = IVNumArr bs n \<and> length bs = unat n \<and> readable bs \<Longrightarrow>
   \<exists>status vs. parse_args ts ivs given live = Some (status, given @ vs, live + int (blocks vs)) \<and>
     delete_all vs = Some (blocks vs) \<and>
     decode_args ts ivs = (if status = CHRPC_SUCCESS then Inr vs else Inl status)"
proof (induction ts arbitrary: ivs given live)
  case (Cons t ts)
  then obtain bs n ivs' where ivs: "ivs = IVNumArr bs n # ivs'" "length bs = unat n" "readable bs"
    by (cases ivs) auto
  have block: "block_bytes bs (unat n) = Some bs" using ivs(2) by (simp add: block_bytes_def)
  from ivs(3) show ?case
  proof (cases rule: readable_cases)
    case (bad e)
    then show ?thesis using ivs(1) block by (intro exI [of _ e] exI [of _ "[]"]) simp
  next
    case (good v m)
    show ?thesis
    proof (cases "v_type v = t")
      case False
      with good block ivs(1) show ?thesis
        by (intro exI [of _ CHRPC_ARGUMENT_MISMATCH] exI [of _ "[v]"]) (simp add: equals_ok)
    next
      case True
      from Cons.IH [of ivs' "given @ [v]" "live + int (value_blocks v)"] Cons.prems ivs(1)
      obtain status vs where "parse_args ts ivs' (given @ [v]) (live + int (value_blocks v)) =
          Some (status, given @ v # vs, live + int (value_blocks v) + int (blocks vs))"
        "delete_all vs = Some (blocks vs)" "decode_args ts ivs' = (if status = CHRPC_SUCCESS then Inr vs else Inl status)"
        by auto
      with good block ivs(1) True show ?thesis
        by (intro exI [of _ status] exI [of _ "v # vs"]) (simp add: equals_ok)
    qed
  qed
qed simp

subsection \<open>The whole request\<close>

text \<open>
  The meaning of a request, without buffers and memory.  The two last branches cannot be reached
  with a value the reader made.
\<close>

definition serve_request ::
    "'st chrpc_endpoint_t list \<Rightarrow> nat \<Rightarrow> chrpc_value_t \<Rightarrow> channel_id_t \<Rightarrow> ('c, 'cfg) channel_t \<Rightarrow> 'st \<Rightarrow>
     chrpc_status_t \<times> ('c, 'cfg) channel_t \<times> 'st" where
  "serve_request eps mms req chn_id chn st =
     (if v_type req \<noteq> req_type then error_reply CHRPC_BAD_REQUEST chn st
      else case v_value req of
        IVStruct [IVStr name, IVEntries arg_arrays n] \<Rightarrow>
          (case find (\<lambda>ep. Some (ep_name ep) = string_chars name) eps of
             None \<Rightarrow> error_reply CHRPC_UKNOWN_ENDPOINT chn st
           | Some ep \<Rightarrow>
               if length (ep_args ep) \<noteq> length arg_arrays then error_reply CHRPC_ARGUMENT_MISMATCH chn st
               else case decode_args (ep_args ep) arg_arrays of
                 Inl e \<Rightarrow> error_reply e chn st
               | Inr args \<Rightarrow> serve_endpoint mms ep args chn_id chn st)
      | _ \<Rightarrow> error_reply CHRPC_BAD_REQUEST chn st)"

text \<open>The shape of a request value, and which bytes its arguments are read from.\<close>

definition args_readable :: "chrpc_value_t \<Rightarrow> bool" where
  "args_readable req \<longleftrightarrow> (\<forall>name arrs n. v_value req = IVStruct [name, IVEntries arrs n] \<longrightarrow>
     (\<forall>bs k. IVNumArr bs k \<in> set arrs \<longrightarrow> readable bs))"

lemma raw_wt_byte_array:
  "raw_wt (Array CHRPC_BYTE_T) iv \<Longrightarrow> \<exists>bs n. iv = IVNumArr bs n \<and> length bs = unat n"
  by (cases iv) (auto simp: chrpc_blockable_type_cell_size_def composite_def)

lemma request_shape:
  assumes "v_type req = req_type" "raw_wt (v_type req) (v_value req)"
  obtains name arrs n where "v_value req = IVStruct [IVStr name, IVEntries arrs n]" "length arrs = unat n"
    "\<forall>iv \<in> set arrs. \<exists>bs k. iv = IVNumArr bs k \<and> length bs = unat k"
proof -
  from assms obtain iv1 iv2 where iv: "v_value req = IVStruct [iv1, iv2]" "raw_wt CHRPC_STRING_T iv1"
    "raw_wt (Array (Array CHRPC_BYTE_T)) iv2"
    by (cases "v_value req") (auto simp: msg_types raw_wts_list list_all2_Cons1 split: chrpc_type_t.splits)
  from iv(2) obtain name where 1: "iv1 = IVStr name" by (cases iv1) auto
  from iv(3) obtain arrs n where 2: "iv2 = IVEntries arrs n" "raw_wts (replicate (unat n) (Array CHRPC_BYTE_T)) arrs"
    by (cases iv2) auto
  then have "list_all2 raw_wt (replicate (unat n) (Array CHRPC_BYTE_T)) arrs" by (simp add: raw_wts_list)
  then have "length arrs = unat n" "\<forall>iv \<in> set arrs. raw_wt (Array CHRPC_BYTE_T) iv"
    by (auto simp: list_all2_conv_all_nth in_set_conv_nth)
  with raw_wt_byte_array that iv(1) 1 2(1) show ?thesis by blast
qed

text \<open>The contract of the endpoints in a state, and in every state.\<close>

definition eps_ok_at :: "'st \<Rightarrow> 'st chrpc_endpoint_t list \<Rightarrow> bool" where
  "eps_ok_at st eps \<longleftrightarrow> (\<forall>ep \<in> set eps. \<forall>chn_id args. ret_ok (fst (snd (ep_func ep chn_id st args))))"

definition eps_ok :: "'st chrpc_endpoint_t list \<Rightarrow> bool" where
  "eps_ok eps \<longleftrightarrow> (\<forall>ep \<in> set eps. \<forall>chn_id st args. ret_ok (fst (snd (ep_func ep chn_id st args))))"

lemma eps_ok_at: "eps_ok eps \<Longrightarrow> eps_ok_at st eps"
  by (simp add: eps_ok_def eps_ok_at_def)

lemma outcome_free:
  assumes "outcome r cn res" "delete_all vs = Some k"
  shows "outcome (do { (status, cn2) \<leftarrow> r; cn3 \<leftarrow> free_values vs cn2; Some (status, cn3) })
    (cn\<lparr>cn_live := cn_live cn - int k\<rparr>) res"
proof -
  obtain status chn st where res: "res = (status, chn, st)" by (cases res)
  from assms(1) obtain b where b: "length b = length (cn_buf cn)"
    "r = Some (status, cn\<lparr>cn_chn := chn, cn_state := st, cn_buf := b\<rparr>)" by (auto simp: res elim!: outcomeE)
  then show ?thesis unfolding res using assms(2)
    by (intro outcomeI [where b = b]) (simp_all add: free_values_def)
qed

lemma handle_request_ok:
  assumes s: "set_inv ep_set" "eps_ok_at (cn_state cn) (endpoints ep_set)" and len: "10 \<le> length (cn_buf cn)"
    and req: "raw_wt (v_type req) (v_value req)" "terminated (v_value req)" "args_readable req"
  shows "outcome (chrpc_handle_request ep_set req chn_id cn) cn
    (serve_request (endpoints ep_set) (length (cn_buf cn)) req chn_id (cn_chn cn) (cn_state cn))"
proof (cases "v_type req = req_type")
  case False
  then show ?thesis using error_response_ok [OF len]
    by (auto simp: chrpc_handle_request_def serve_request_def equals_ok)
next
  case True
  then obtain name arrs n where v: "v_value req = IVStruct [IVStr name, IVEntries arrs n]"
    "length arrs = unat n" "\<forall>iv \<in> set arrs. \<exists>bs k. iv = IVNumArr bs k \<and> length bs = unat k"
    by (rule request_shape [OF _ req(1)])
  from req(2) v(1) have "0 \<in> set name" by simp
  then obtain chars where chars: "string_chars name = Some chars" using string_chars_cstr by blast
  note lookup = lookup_ok [OF s(1) chars]
  show ?thesis
  proof (cases "find (\<lambda>ep. ep_name ep = chars) (endpoints ep_set)")
    case None
    then show ?thesis using error_response_ok [OF len] True v chars lookup
      by (simp add: chrpc_handle_request_def serve_request_def equals_ok)
  next
    case (Some ep)
    then have ep: "ep \<in> set (endpoints ep_set)" by (auto simp: find_Some_iff)
    show ?thesis
    proof (cases "length (ep_args ep) = unat n")
      case False
      then show ?thesis using error_response_ok [OF len] True v chars lookup Some
        by (simp add: chrpc_handle_request_def serve_request_def equals_ok)
    next
      case nargs: True
      have "\<forall>iv \<in> set arrs. \<exists>bs k. iv = IVNumArr bs k \<and> length bs = unat k \<and> readable bs"
        using v(3) req(3) v(1) by (fastforce simp: args_readable_def)
      from parse_args_ok [OF _ this, of "ep_args ep" "[]" 0] nargs v(2) obtain status vs where
        p: "parse_args (ep_args ep) arrs [] 0 = Some (status, vs, int (blocks vs))"
          "delete_all vs = Some (blocks vs)"
          "decode_args (ep_args ep) arrs = (if status = CHRPC_SUCCESS then Inr vs else Inl status)" by auto
      define cn1 where "cn1 = cn\<lparr>cn_live := cn_live cn + int (blocks vs)\<rparr>"
      define r where "r = (if status \<noteq> CHRPC_SUCCESS then chrpc_send_error_response status cn1
                    else chrpc_send_response ep vs chn_id cn1)"
      define res where "res = (if status \<noteq> CHRPC_SUCCESS then error_reply status (cn_chn cn) (cn_state cn)
                    else serve_endpoint (length (cn_buf cn)) ep vs chn_id (cn_chn cn) (cn_state cn))"
      have "outcome r cn1 res"
        using error_response_ok [of cn1 status] send_response_ok [of cn1 ep chn_id vs] len s(2) ep
        by (auto simp: r_def res_def cn1_def eps_ok_at_def)
      from outcome_free [OF this p(2)]
      have "outcome (do { (status, cn2) \<leftarrow> r; cn3 \<leftarrow> free_values vs cn2; Some (status, cn3) }) cn res"
        by (simp add: cn1_def free_values_def p(2))
      then show ?thesis using True v chars lookup Some nargs p
        by (auto simp: chrpc_handle_request_def serve_request_def equals_ok r_def res_def cn1_def)
    qed
  qed
qed

subsection \<open>Polling\<close>

definition serve_message ::
    "'st chrpc_endpoint_t list \<Rightarrow> nat \<Rightarrow> byte list \<Rightarrow> channel_id_t \<Rightarrow> ('c, 'cfg) channel_t \<Rightarrow> 'st \<Rightarrow>
     chrpc_status_t \<times> ('c, 'cfg) channel_t \<times> 'st" where
  "serve_message eps mms m chn_id chn st =
     (case chrpc_value_from_buffer m of
        Some (Inr (req, n), live) \<Rightarrow> serve_request eps mms req chn_id chn st
      | Some (Inl e, live) \<Rightarrow> error_reply e chn st
      | None \<Rightarrow> (CHRPC_SERVER_INTERNAL_ERROR, chn, st))"

text \<open>Every string in the message, and in the values nested in it as bytes, is terminated.\<close>

definition safe_message :: "byte list \<Rightarrow> bool" where
  "safe_message m \<longleftrightarrow> readable m \<and>
     (\<forall>req n live. chrpc_value_from_buffer m = Some (Inr (req, n), live) \<longrightarrow> args_readable req)"

lemma new_set_inv:
  assumes "fst (new_chrpc_endpoint_set_va ji jn eps) = Some ep_set" "\<forall>ep \<in> set eps. no_nul (ep_name ep)"
  shows "set_inv ep_set \<and> endpoints ep_set = eps"
  using new_endpoint_set_ok [OF assms(2), of ji jn] assms
  by (auto simp: new_chrpc_endpoint_set_of_va set_inv_def)

lemma poll_message_ok:
  assumes s: "set_inv ep_set" "eps_ok_at (cn_state cn) (endpoints ep_set)" and len: "CHRPC_SERVER_BUF_MIN_SIZE \<le> length (cn_buf cn)"
    and chn: "chn_refresh (Some (cn_chn cn)) = (CHN_SUCCESS, Some c1)"
      "chn_receive (Some c1) True (length (cn_buf cn)) True = (CHN_SUCCESS, Some m, Some c2)"
    and m: "length m \<le> length (cn_buf cn)" "safe_message m"
  shows "outcome (chrpc_poll_channel ep_set chn_id cn) cn
    (serve_message (endpoints ep_set) (length (cn_buf cn)) m chn_id c2 (cn_state cn))"
proof -
  let ?b = "m @ drop (length m) (cn_buf cn)"
  define cn3 where "cn3 = cn\<lparr>cn_chn := c2, cn_buf := ?b\<rparr>"
  have cn3: "length (cn_buf cn3) = length (cn_buf cn)" "cn_live cn3 = cn_live cn" "cn_chn cn3 = c2"
    "cn_state cn3 = cn_state cn" using m(1) by (simp_all add: cn3_def)
  have len10: "10 \<le> length (cn_buf cn)" using len by (simp add: CHRPC_SERVER_BUF_MIN_SIZE_def)
  have code: "chrpc_poll_channel ep_set chn_id cn = do {
      (r, live) \<leftarrow> chrpc_value_from_buffer m;
      (case r of
         Inl e \<Rightarrow> chrpc_send_error_response e (cn3\<lparr>cn_live := cn_live cn + live\<rparr>)
       | Inr (req, readden) \<Rightarrow> do {
           (rpc_status, cn4) \<leftarrow>
             chrpc_handle_request ep_set req chn_id (cn3\<lparr>cn_live := cn_live cn + live\<rparr>);
           cn5 \<leftarrow> free_values [req] cn4;
           Some (rpc_status, cn5) }) }"
    using chn m(1) by (simp add: chrpc_poll_channel_def cn3_def Let_def cong: sum.case_cong)
  have read: "readable m" using m(2) by (simp add: safe_message_def)
  then show ?thesis
  proof (cases rule: readable_cases)
    case (bad e)
    have "cn3\<lparr>cn_live := cn_live cn\<rparr> = cn3" by (cases cn; simp add: cn3_def)
    with bad code error_response_at [OF len10 cn3, of e] show ?thesis by (simp add: serve_message_def)
  next
    case (good req n)
    define cn4 where "cn4 = cn3\<lparr>cn_live := cn_live cn + int (value_blocks req)\<rparr>"
    have "args_readable req" using m(2) good(1) by (simp add: safe_message_def)
    from handle_request_ok [OF s(1) _ _ good(3,4) this, of cn4 chn_id] s(2) len10 cn3
    have "outcome (chrpc_handle_request ep_set req chn_id cn4) cn4
        (serve_message (endpoints ep_set) (length (cn_buf cn)) m chn_id c2 (cn_state cn))"
      by (simp add: cn4_def serve_message_def good(1))
    from outcome_free [OF this, of "[req]"] good(5)
    have "outcome (chrpc_poll_channel ep_set chn_id cn) (cn4\<lparr>cn_live := cn_live cn4 - int (value_blocks req)\<rparr>)
        (serve_message (endpoints ep_set) (length (cn_buf cn)) m chn_id c2 (cn_state cn))"
      by (simp add: code good(1) cn4_def)
    then show ?thesis by (rule outcome_weaken) (use cn3 in \<open>simp_all add: cn4_def\<close>)
  qed
qed

subsection \<open>Well-formed requests\<close>

text \<open>The value the reader makes of the bytes of a value.\<close>

definition received :: "chrpc_value_t \<Rightarrow> chrpc_value_t" where
  "received v = \<lparr>v_type = v_type v, v_value = trim (v_type v) (v_value v)\<rparr>"

definition args_ok :: "chrpc_value_t list \<Rightarrow> bool" where
  "args_ok args \<longleftrightarrow> length args < 2 ^ 32 \<and> (\<forall>v \<in> set args. wf_value v \<and> length (value_enc v) < 2 ^ 32)"

definition arg_iv :: "chrpc_value_t \<Rightarrow> chrpc_inner_value_t" where
  "arg_iv v = IVNumArr (value_enc v) (of_nat (length (value_enc v)))"

definition request_value :: "byte list \<Rightarrow> chrpc_value_t list \<Rightarrow> chrpc_value_t" where
  "request_value name args =
     \<lparr>v_type = req_type, v_value = IVStruct [IVStr (cstr name), IVEntries (map arg_iv args) (of_nat (length args))]\<rparr>"

lemma received_reads:
  assumes "wf_value v"
  shows "chrpc_value_from_buffer (value_enc v @ rest) =
    Some (Inr (received v, length (value_enc v)), int (value_blocks (received v)))"
  using value_reads [of "v_type v" "trim (v_type v) (v_value v)" rest] trim_raw_wt(1) assms
  by (simp add: wf_value_def value_enc_def received_def)

lemma wt_terminated:
  "wt ct iv \<Longrightarrow> terminated (trim ct iv)"
  "wts ts ivs \<Longrightarrow> \<forall>iv \<in> set (trims ts ivs). terminated iv"
proof (induction ct iv and ts ivs rule: wt_wts.induct)
  case (5 ct ivs len)
  then show ?case by (auto split: chrpc_type_t.splits)
next
  case (6 ct ivs)
  then show ?case by (auto split: chrpc_type_t.splits)
qed (auto simp: cstr_def)

lemma received_readable: "wf_value v \<Longrightarrow> readable (value_enc v)"
  using received_reads [of v "[]"] wt_terminated(1) [of "v_type v" "v_value v"]
  by (simp add: readable_def wf_value_def received_def)

lemma request_value_ok:
  assumes "is_cstr name" "args_ok args"
  shows "raw_wt req_type (v_value (request_value name args))" "terminated (v_value (request_value name args))"
    "request_bytes name args = type_enc req_type @ raw_enc (v_value (request_value name args))"
    "args_readable (request_value name args)"
proof -
  have n: "unat (of_nat (length args) :: u32) = length args" using assms(2) by (simp add: args_ok_def)
  have "\<forall>v \<in> set args. raw_wt (Array CHRPC_BYTE_T) (arg_iv v)"
    using assms(2) by (auto simp: args_ok_def arg_iv_def chrpc_blockable_type_cell_size_def)
  then have "list_all2 raw_wt (replicate (length args) (Array CHRPC_BYTE_T)) (map arg_iv args)"
    by (simp add: list_all2_conv_all_nth)
  then show "raw_wt req_type (v_value (request_value name args))"
    using assms(1) n by (simp add: request_value_def msg_types raw_wts_list is_cstr_def)
  show "terminated (v_value (request_value name args))"
    by (auto simp: request_value_def cstr_def arg_iv_def)
  show "request_bytes name args = type_enc req_type @ raw_enc (v_value (request_value name args))"
    by (simp add: request_bytes_def request_value_def arg_iv_def arg_enc_def [abs_def] comp_def)
  show "args_readable (request_value name args)"
    using assms(2) received_readable
    by (auto simp: args_readable_def request_value_def arg_iv_def args_ok_def)
qed

lemma request_reads:
  assumes "is_cstr name" "args_ok args"
  shows "chrpc_value_from_buffer (request_bytes name args @ rest) =
    Some (Inr (request_value name args, length (request_bytes name args)), int (value_blocks (request_value name args)))"
  using value_reads [OF wf_msg_types(2) request_value_ok(1) [OF assms], of rest] request_value_ok(3) [OF assms]
  by (simp add: request_value_def)

lemma request_safe: "is_cstr name \<Longrightarrow> args_ok args \<Longrightarrow> safe_message (request_bytes name args)"
  using request_reads [of name args "[]"] request_value_ok [of name args]
  by (simp add: safe_message_def readable_def)

lemma decode_args_ok:
  "\<forall>v \<in> set args. wf_value v \<Longrightarrow> decode_args (map v_type args) (map arg_iv args) = Inr (map received args)"
  using received_reads [of _ "[]"]
  by (induction args) (simp_all add: arg_iv_def received_def)

lemma decode_args_mismatch:
  "\<forall>v \<in> set args. wf_value v \<Longrightarrow> length ts = length args \<Longrightarrow> ts \<noteq> map v_type args \<Longrightarrow>
   decode_args ts (map arg_iv args) = Inl CHRPC_ARGUMENT_MISMATCH"
proof (induction args arbitrary: ts)
  case (Cons v args)
  then obtain t ts' where "ts = t # ts'" by (cases ts) auto
  with Cons received_reads [of v "[]"] show ?case by (auto simp: arg_iv_def received_def)
qed simp

lemma string_chars_trim: "is_cstr name \<Longrightarrow> string_chars (cstr name) = string_chars name"
proof -
  assume "is_cstr name"
  moreover have "takeWhile (\<lambda>b. b \<noteq> 0) (cstr name) = takeWhile (\<lambda>b. b \<noteq> 0) name"
    using cstr_cstr [of name] by (simp only: cstr_def append1_eq_conv)
  ultimately show ?thesis
    using string_chars_cstr [of name] string_chars_cstr [of "cstr name"]
    by (simp add: is_cstr_def) (simp add: cstr_def)
qed

lemma serve_message_request:
  assumes "is_cstr name" "args_ok args"
  shows "serve_message eps mms (request_bytes name args) chn_id chn st =
    (case find (\<lambda>ep. Some (ep_name ep) = string_chars name) eps of
       None \<Rightarrow> error_reply CHRPC_UKNOWN_ENDPOINT chn st
     | Some ep \<Rightarrow> if ep_args ep \<noteq> map v_type args then error_reply CHRPC_ARGUMENT_MISMATCH chn st
                  else serve_endpoint mms ep (map received args) chn_id chn st)"
proof -
  have wf: "\<forall>v \<in> set args. wf_value v" using assms(2) by (simp add: args_ok_def)
  have read: "serve_message eps mms (request_bytes name args) chn_id chn st =
      (case find (\<lambda>ep. Some (ep_name ep) = string_chars name) eps of
         None \<Rightarrow> error_reply CHRPC_UKNOWN_ENDPOINT chn st
       | Some ep \<Rightarrow>
           if length (ep_args ep) \<noteq> length args then error_reply CHRPC_ARGUMENT_MISMATCH chn st
           else (case decode_args (ep_args ep) (map arg_iv args) of
             Inl e \<Rightarrow> error_reply e chn st
           | Inr vs \<Rightarrow> serve_endpoint mms ep vs chn_id chn st))"
    using request_reads [OF assms, of "[]"] string_chars_trim [OF assms(1)]
    by (cases "find (\<lambda>ep. Some (ep_name ep) = string_chars name) eps")
      (simp_all add: serve_message_def serve_request_def request_value_def)
  show ?thesis
  proof (cases "find (\<lambda>ep. Some (ep_name ep) = string_chars name) eps")
    case (Some ep)
    show ?thesis
    proof (cases "ep_args ep = map v_type args")
      case True
      with Some read decode_args_ok [OF wf] show ?thesis by simp
    next
      case False
      with Some read decode_args_mismatch [OF wf, of "ep_args ep"] show ?thesis by simp
    qed
  qed (use read in simp)
qed

section \<open>Properties\<close>

text \<open>C5. A worker that takes a message whose strings are terminated serves it without undefined
  behaviour and without leaking a block, and does what the memory-free specification
  \<open>serve_message\<close> says: exactly one response, the endpoint's value or the error's status, and the
  endpoint called only with arguments of its declared types.\<close>

theorem server_serves_message:
  assumes "fst (new_chrpc_endpoint_set_va ji jn eps) = Some ep_set"
    and "\<forall>ep \<in> set eps. no_nul (ep_name ep)" "eps_ok eps"
    and "CHRPC_SERVER_BUF_MIN_SIZE \<le> length (cn_buf cn)"
    and "chn_refresh (Some (cn_chn cn)) = (CHN_SUCCESS, Some c1)"
    and "chn_receive (Some c1) True (length (cn_buf cn)) True = (CHN_SUCCESS, Some m, Some c2)"
    and "length m \<le> length (cn_buf cn)" "safe_message m"
  shows "case serve_message eps (length (cn_buf cn)) m chn_id c2 (cn_state cn) of (status, chn, st) \<Rightarrow>
    \<exists>b. length b = length (cn_buf cn) \<and>
      chrpc_poll_channel ep_set chn_id cn = Some (status, cn\<lparr>cn_chn := chn, cn_state := st, cn_buf := b\<rparr>)"
  using poll_message_ok [of ep_set cn c1 m c2 chn_id] new_set_inv [OF assms(1,2)]
    eps_ok_at [OF assms(3)] assms(4-)
  by (simp add: outcome_def)

text \<open>A local channel holding one message, as the worker finds it.\<close>

lemma local_chn_ops:
  assumes "new_channel_local False (Some cfg) = (CHN_SUCCESS, Some c0)" "m \<noteq> []" "length m \<le> max_msg_size cfg"
    "length m \<le> len"
  obtains c1 c2 where "chn_refresh (Some \<lparr>ch_channel = c1, ch_impl = CHANNEL_LOCAL_IMPL False\<rparr>) =
      (CHN_SUCCESS, Some \<lparr>ch_channel = c1, ch_impl = CHANNEL_LOCAL_IMPL False\<rparr>)"
    "chn_receive (Some \<lparr>ch_channel = c1, ch_impl = CHANNEL_LOCAL_IMPL False\<rparr>) True len True =
      (CHN_SUCCESS, Some m, Some \<lparr>ch_channel = c2, ch_impl = CHANNEL_LOCAL_IMPL False\<rparr>)"
    "local_inv c2" "local_msgs c2 = []" "l_cfg c2 = cfg"
proof -
  from new_channel_local_ok [OF assms(1)] have c0: "local_inv c0" "local_msgs c0 = []" "l_cfg c0 = cfg" by simp_all
  have cap: "0 < queue_depth cfg" using assms(1) by (auto simp: new_channel_local_def split: if_splits)
  obtain c1 where c1: "chn_l_send c0 m = (fst (fifo_send cfg [] m), c1)" "local_inv c1" "l_cfg c1 = cfg"
    "local_msgs c1 = snd (fifo_send cfg [] m)" using chn_l_send_fifo [OF c0(1), of m] c0(2,3) by auto
  then have "local_msgs c1 = [m]" using assms(2,3) cap by (simp add: fifo_send_def)
  with chn_l_receive_fifo [OF c1(2), of len] assms(4) c1(3) obtain c2 where
    "chn_l_receive c1 len = (CHN_SUCCESS, Some m, c2)" "local_inv c2" "local_msgs c2 = []" "l_cfg c2 = cfg"
    by auto
  then show thesis
    by (intro that [of c1 c2]) (simp_all add: chn_refresh_def chn_receive_def CHANNEL_LOCAL_IMPL_def chn_l_refresh_def)
qed

text \<open>A request for an endpoint that does not exist is answered with status 9.\<close>

theorem server_serves_message_witness:
  "\<exists>ep_set (cn :: (channel_local_t, channel_local_config_t, nat) conn) cn' ep. fst (new_chrpc_endpoint_set_va 0 [] [ep]) = Some ep_set \<and> ep_name ep = [98] \<and>
     chrpc_poll_channel ep_set 0 cn = Some (CHRPC_SUCCESS, cn') \<and> cn_live cn' = cn_live cn \<and>
     cn_state cn' = (0 :: nat) \<and>
     local_msgs (ch_channel (cn_chn cn')) = [[10, 2, 0, 11, 0, 9, 0, 0, 0, 0]]"
proof -
  let ?ep = "\<lparr>ep_name = [98], ep_ret = None, ep_args = [], ep_args_block = False,
    ep_func = \<lambda>_ (st :: nat) _. (CHRPC_SC_KEEP_ALIVE, None, st + 1)\<rparr>"
  let ?cfg = "\<lparr>queue_depth = 2, write_over = False, max_msg_size = 128\<rparr>"
  let ?m = "request_bytes [97, 0] []"
  obtain ep_set where s: "fst (new_chrpc_endpoint_set_va 0 [] [?ep]) = Some ep_set"
    using new_endpoint_set_ok [of "[?ep]" 0 "[]"]
    by (auto simp: new_chrpc_endpoint_set_of_va no_nul_def split: option.splits)
  have m: "is_cstr [97, 0 :: byte]" "args_ok []" by (simp_all add: is_cstr_def cstr_def args_ok_def)
  have len: "length ?m = 16" by (simp add: request_bytes_def type_enc_msg_types str_enc_def cstr_def)
  obtain c0 where "new_channel_local False (Some ?cfg) = (CHN_SUCCESS, Some c0)"
    by (simp add: new_channel_local_def new_queue_def)
  then obtain c1 c2 where c: "chn_refresh (Some \<lparr>ch_channel = c1, ch_impl = CHANNEL_LOCAL_IMPL False\<rparr>) =
      (CHN_SUCCESS, Some \<lparr>ch_channel = c1, ch_impl = CHANNEL_LOCAL_IMPL False\<rparr>)"
    "chn_receive (Some \<lparr>ch_channel = c1, ch_impl = CHANNEL_LOCAL_IMPL False\<rparr>) True 128 True =
      (CHN_SUCCESS, Some ?m, Some \<lparr>ch_channel = c2, ch_impl = CHANNEL_LOCAL_IMPL False\<rparr>)"
    "local_inv c2" "local_msgs c2 = []" "l_cfg c2 = ?cfg"
    by (rule local_chn_ops [where m = ?m and len = 128]) (use len in auto)
  let ?cn = "\<lparr>cn_chn = \<lparr>ch_channel = c1, ch_impl = CHANNEL_LOCAL_IMPL False\<rparr>, cn_state = 0 :: nat,
    cn_buf = replicate 128 0, cn_live = 0\<rparr>"
  let ?c2 = "\<lparr>ch_channel = c2, ch_impl = CHANNEL_LOCAL_IMPL False\<rparr>"
  obtain c3 where c3: "chn_l_send c2 (reply_bytes CHRPC_UKNOWN_ENDPOINT []) = (CHN_SUCCESS, c3)"
    "local_msgs c3 = [reply_bytes CHRPC_UKNOWN_ENDPOINT []]"
    using chn_l_send_fifo [OF c(3), of "reply_bytes CHRPC_UKNOWN_ENDPOINT []"] c(4,5)
    by (auto simp: fifo_send_def simp flip: length_0_conv)
  have "serve_message [?ep] 128 ?m 0 ?c2 0 = error_reply CHRPC_UKNOWN_ENDPOINT ?c2 0"
    using request_reads [OF m, of "[]"]
    by (simp add: serve_message_def serve_request_def request_value_def string_chars_def cstr_def)
  also have "\<dots> = (CHRPC_SUCCESS, ?c2\<lparr>ch_channel := c3\<rparr>, 0)"
    using c3 by (simp add: error_reply_def send_bytes_def chn_send_def CHANNEL_LOCAL_IMPL_def)
  finally have "serve_message [?ep] 128 ?m 0 ?c2 0 = (CHRPC_SUCCESS, ?c2\<lparr>ch_channel := c3\<rparr>, 0)" .
  with server_serves_message [OF s, of ?cn "\<lparr>ch_channel = c1, ch_impl = CHANNEL_LOCAL_IMPL False\<rparr>" ?m ?c2 0]
    c(1,2) request_safe [OF m] len
  obtain b where "chrpc_poll_channel ep_set 0 ?cn =
      Some (CHRPC_SUCCESS, ?cn\<lparr>cn_chn := ?c2\<lparr>ch_channel := c3\<rparr>, cn_state := 0, cn_buf := b\<rparr>)"
    by (auto simp: no_nul_def eps_ok_def ret_ok_def CHRPC_SERVER_BUF_MIN_SIZE_def)
  moreover have "reply_bytes CHRPC_UKNOWN_ENDPOINT [] = [10, 2, 0, 11, 0, 9, 0, 0, 0, 0]"
    by (simp add: reply_bytes_def type_enc_msg_types u32_le_def)
  ultimately show ?thesis using s c3(2)
    by (intro exI [of _ ep_set] exI [of _ ?cn] exI [of _ "?cn\<lparr>cn_chn := ?c2\<lparr>ch_channel := c3\<rparr>, cn_state := 0, cn_buf := b\<rparr>"]
        exI [of _ ?ep]) simp
qed

text \<open>C30. Nothing protects the server from a string without a terminator: the 14 bytes of a request
  whose endpoint name has length zero make any server that receives them run into undefined
  behaviour, whatever its endpoints.\<close>

theorem empty_name_undefined:
  assumes "chn_refresh (Some (cn_chn cn)) = (CHN_SUCCESS, Some c1)"
    and "chn_receive (Some c1) True (length (cn_buf cn)) True =
      (CHN_SUCCESS, Some [10, 2, 9, 11, 11, 0, 0, 0, 0, 0, 0, 0, 0, 0], Some c2)"
  shows "chrpc_poll_channel ep_set chn_id cn = None"
proof -
  let ?iv = "IVStruct [IVStr [], IVEntries [] 0]" and ?m = "[10, 2, 9, 11, 11, 0, 0, 0, 0, 0, 0, 0, 0, 0] :: byte list"
  have raw: "raw_wt req_type ?iv" by (simp add: msg_types)
  have m: "?m = type_enc req_type @ raw_enc ?iv @ []" by (simp add: type_enc_msg_types str_enc_def u32_le_def)
  have read: "chrpc_value_from_buffer ?m = Some (Inr (\<lparr>v_type = req_type, v_value = ?iv\<rparr>, 14),
      int (value_blocks \<lparr>v_type = req_type, v_value = ?iv\<rparr>))"
    unfolding m by (subst value_reads [OF wf_msg_types(2) raw])
      (simp add: type_enc_msg_types str_enc_def u32_le_def)
  have "delete_chrpc_value \<lparr>v_type = req_type, v_value = ?iv\<rparr> = None"
    by (simp add: delete_chrpc_value_def delete_chrpc_inner_value.simps msg_types chrpc_inner_value_to_block_value_def)
  then have free: "free_values [\<lparr>v_type = req_type, v_value = ?iv\<rparr>] cn' = None" for cn' :: "('a, 'b, 'c) conn"
    by (simp add: free_values_def)
  have none: "do { (a, b) \<leftarrow> x; (y :: 'z) \<leftarrow> None; k a b y } = None" for x :: "('x \<times> 'y) option" and k :: "'x \<Rightarrow> 'y \<Rightarrow> 'z \<Rightarrow> 'w option"
    by (cases x) auto
  show ?thesis using assms read free none
    by (auto simp: chrpc_poll_channel_def Let_def split: Option.bind_splits)
qed

theorem empty_name_undefined_witness:
  "\<exists>cn :: (channel_local_t, channel_local_config_t, unit) conn. \<forall>ep_set. chrpc_poll_channel ep_set 0 cn = None"
proof -
  let ?cfg = "\<lparr>queue_depth = 2, write_over = False, max_msg_size = 128\<rparr>"
  let ?m = "[10, 2, 9, 11, 11, 0, 0, 0, 0, 0, 0, 0, 0, 0] :: byte list"
  obtain c0 where "new_channel_local False (Some ?cfg) = (CHN_SUCCESS, Some c0)"
    by (simp add: new_channel_local_def new_queue_def)
  then obtain c1 c2 where c: "chn_refresh (Some \<lparr>ch_channel = c1, ch_impl = CHANNEL_LOCAL_IMPL False\<rparr>) =
      (CHN_SUCCESS, Some \<lparr>ch_channel = c1, ch_impl = CHANNEL_LOCAL_IMPL False\<rparr>)"
    "chn_receive (Some \<lparr>ch_channel = c1, ch_impl = CHANNEL_LOCAL_IMPL False\<rparr>) True 128 True =
      (CHN_SUCCESS, Some ?m, Some \<lparr>ch_channel = c2, ch_impl = CHANNEL_LOCAL_IMPL False\<rparr>)"
    by (rule local_chn_ops [where m = ?m and len = 128]) auto
  let ?cn = "\<lparr>cn_chn = \<lparr>ch_channel = c1, ch_impl = CHANNEL_LOCAL_IMPL False\<rparr>, cn_state = (),
    cn_buf = replicate 128 0, cn_live = 0\<rparr>"
  have "chrpc_poll_channel ep_set 0 ?cn = None" for ep_set
    by (rule empty_name_undefined [of ?cn "\<lparr>ch_channel = c1, ch_impl = CHANNEL_LOCAL_IMPL False\<rparr>"
          "\<lparr>ch_channel = c2, ch_impl = CHANNEL_LOCAL_IMPL False\<rparr>"]) (use c in simp_all)
  then show ?thesis by blast
qed

end
