(* ===== verification/Chrpc_Worker.thy ===== *)
theory Chrpc_Worker
  imports Chrpc_Server
begin

text \<open>
  The server around the handlers of \<open>Chrpc_Server\<close> (\<open>chrpc/src/rpc_server.c\<close>, from
  \<open>chrpc_server_worker_routine\<close> on): creation, accepting channels, the workers and deletion.

  Workers run concurrently.  What they share is accessed under \<open>q_mut\<close> and \<open>should_exit_mut\<close>, so
  \<open>worker_step\<close> moves one worker from one such access to the next, and \<open>server_step\<close> interleaves
  the workers with the callers of the server's functions in any order.  The user's server state is
  synchronized by the user, as \<open>rpc_server.h\<close> demands: one call of an endpoint is one step.  The
  peer may change a channel at any time: a worker finds any channel state \<open>c\<close> when it polls.
  \<open>time\<close> is a parameter of the steps, \<open>usleep\<close> has no effect on the state.
\<close>

section \<open>State\<close>

record ('c, 'cfg) chrpc_queue_ele_t =
  ele_id :: channel_id_t
  since_last_req :: int
  ele_chn :: "('c, 'cfg) channel_t"

record 'st chrpc_server_attrs_t =
  sa_max_msg_size :: nat
  max_connections :: nat
  num_workers :: nat
  worker_usleep_amt :: u32
  idle_timeout :: int
  on_disconnect :: "(channel_id_t \<Rightarrow> 'st \<Rightarrow> 'st) option"

record ('c, 'cfg, 'st) chrpc_server_t =
  server_state :: 'st
  sv_attrs :: "'st chrpc_server_attrs_t"
  id_counter :: channel_id_t
  num_channels :: nat
  sv_q :: "('c, 'cfg) chrpc_queue_ele_t queue_t"
  should_exit :: bool
  sv_ep_set :: "'st chrpc_endpoint_set_t"
  sv_req_type :: chrpc_type_t
  sv_resp_type :: chrpc_type_t

text \<open>\<open>server\<close> says whether the out pointer is non-NULL.\<close>

definition new_chrpc_server ::
    "bool \<Rightarrow> 'st \<Rightarrow> 'st chrpc_server_attrs_t \<Rightarrow> 'st chrpc_endpoint_set_t \<Rightarrow>
     chrpc_status_t \<times> ('c, 'cfg, 'st) chrpc_server_t option" where
  "new_chrpc_server server ss attrs eps =
     (if \<not> server \<or> max_connections attrs = 0 \<or> num_workers attrs = 0 \<or>
         sa_max_msg_size attrs < CHRPC_SERVER_BUF_MIN_SIZE
      then (CHRPC_SERVER_CREATION_ERROR, None)
      else if max_connections attrs < num_workers attrs then (CHRPC_SERVER_CREATION_ERROR, None)
      else (CHRPC_SUCCESS,
            map_option (\<lambda>q. \<lparr>server_state = ss, sv_attrs = attrs, id_counter = 0, num_channels = 0, sv_q = q,
              should_exit = False, sv_ep_set = eps, sv_req_type = req_type, sv_resp_type = resp_type\<rparr>)
              (new_queue (max_connections attrs) 24)))"

definition chrpc_server_state :: "('c, 'cfg, 'st) chrpc_server_t \<Rightarrow> 'st" where
  "chrpc_server_state server = server_state server"

definition chrpc_server_give_channel ::
    "('c, 'cfg, 'st) chrpc_server_t \<Rightarrow> ('c, 'cfg) channel_t option \<Rightarrow> int \<Rightarrow>
     chrpc_status_t \<times> ('c, 'cfg, 'st) chrpc_server_t" where
  "chrpc_server_give_channel server chn now =
     (case chn of
        None \<Rightarrow> (CHRPC_ARGUMENT_MISMATCH, server)
      | Some c \<Rightarrow>
          (case chn_max_msg_size chn True of (status, mms) \<Rightarrow>
             if status \<noteq> CHN_SUCCESS \<or> the mms < CHRPC_SERVER_BUF_MIN_SIZE \<or>
                sa_max_msg_size (sv_attrs server) < the mms
             then (CHRPC_BUFFER_TOO_SMALL, server)
             else if num_channels server = q_cap (sv_q server) then (CHRPC_SERVER_FULL, server)
             else if id_counter server = - 1 then (CHRPC_SERVER_FULL, server)
             else
               let ele = \<lparr>ele_id = id_counter server, since_last_req = now, ele_chn = c\<rparr>
               in (CHRPC_SUCCESS, server\<lparr>id_counter := id_counter server + 1,
                     sv_q := snd (q_push (sv_q server) (Some ele)), num_channels := num_channels server + 1\<rparr>)))"

section \<open>The worker routine\<close>

text \<open>Where a worker is in its loop, and the queue element it holds there.\<close>

datatype ('c, 'cfg) worker_t =
    AtTop
  | AtPoll
  | Serving "('c, 'cfg) chrpc_queue_ele_t"
  | Served "('c, 'cfg) chrpc_queue_ele_t" chrpc_status_t
  | PushBack "('c, 'cfg) chrpc_queue_ele_t"
  | Disconnecting "('c, 'cfg) chrpc_queue_ele_t"
  | Uncount channel_id_t
  | Notify channel_id_t
  | Exited

text \<open>What the status of a poll leads to: disconnect, pause, and the element with its new time.\<close>

definition after_poll ::
    "'st chrpc_server_attrs_t \<Rightarrow> int \<Rightarrow> ('c, 'cfg) chrpc_queue_ele_t \<Rightarrow> chrpc_status_t \<Rightarrow>
     bool \<times> bool \<times> ('c, 'cfg) chrpc_queue_ele_t" where
  "after_poll attrs now ele status =
     (if status = CHRPC_CLIENT_CHANNEL_EMTPY then
        (idle_timeout attrs > 0 \<and> now - since_last_req ele > idle_timeout attrs, True, ele)
      else if status = CHRPC_SUCCESS then (False, False, ele\<lparr>since_last_req := now\<rparr>)
      else (True, False, ele))"

text \<open>
  One step of a worker: server and worker before and after, and the channels it destroys.  A poll
  with undefined behaviour has no step.
\<close>

inductive worker_step ::
    "('c, 'cfg, 'st) chrpc_server_t \<Rightarrow> ('c, 'cfg) worker_t \<Rightarrow>
     ('c, 'cfg, 'st) chrpc_server_t \<Rightarrow> ('c, 'cfg) worker_t \<Rightarrow> channel_id_t list \<Rightarrow> bool" where
  exits: "should_exit s \<Longrightarrow> worker_step s AtTop s Exited []"
| continues: "\<not> should_exit s \<Longrightarrow> worker_step s AtTop s AtPoll []"
| no_work: "q_poll (sv_q s) True = (e, out, q) \<Longrightarrow> e \<noteq> 0 \<Longrightarrow> worker_step s AtPoll (s\<lparr>sv_q := q\<rparr>) AtTop []"
| takes: "q_poll (sv_q s) True = (0, Some ele, q) \<Longrightarrow> worker_step s AtPoll (s\<lparr>sv_q := q\<rparr>) (Serving ele) []"
| serves: "length buf = sa_max_msg_size (sv_attrs s) \<Longrightarrow>
    chrpc_poll_channel (sv_ep_set s) (ele_id ele)
      \<lparr>cn_chn = (ele_chn ele)\<lparr>ch_channel := c\<rparr>, cn_state = server_state s, cn_buf = buf, cn_live = 0\<rparr> =
      Some (status, cn') \<Longrightarrow>
    worker_step s (Serving ele) (s\<lparr>server_state := cn_state cn'\<rparr>) (Served (ele\<lparr>ele_chn := cn_chn cn'\<rparr>) status) []"
| decides: "after_poll (sv_attrs s) now ele status = (disconnect, pause, ele') \<Longrightarrow>
    worker_step s (Served ele status) s (if disconnect then Disconnecting ele' else PushBack ele') []"
| destroys: "worker_step s (Disconnecting ele) s (Uncount (ele_id ele)) [ele_id ele]"
| uncounts: "worker_step s (Uncount i) (s\<lparr>num_channels := num_channels s - 1\<rparr>) (Notify i) []"
| notifies: "worker_step s (Notify i)
    (s\<lparr>server_state := (case on_disconnect (sv_attrs s) of None \<Rightarrow> server_state s | Some f \<Rightarrow> f i (server_state s))\<rparr>)
    AtTop []"
| pushes: "q_push (sv_q s) (Some ele) = (e, q) \<Longrightarrow> worker_step s (PushBack ele) (s\<lparr>sv_q := q\<rparr>) AtTop []"

inductive_cases worker_stepE: "worker_step s w s' w' ds"

section \<open>The server\<close>

text \<open>The state with its workers, and the ids of the channels destroyed so far.\<close>

type_synonym ('c, 'cfg, 'st) system =
  "('c, 'cfg, 'st) chrpc_server_t \<times> ('c, 'cfg) worker_t list \<times> channel_id_t list"

inductive work_step :: "('c, 'cfg, 'st) system \<Rightarrow> ('c, 'cfg, 'st) system \<Rightarrow> bool" where
  "i < length ws \<Longrightarrow> worker_step s (ws ! i) s' w' ds \<Longrightarrow>
    work_step (s, ws, destroyed) (s', ws[i := w'], destroyed @ ds)"

inductive server_step :: "('c, 'cfg, 'st) system \<Rightarrow> ('c, 'cfg, 'st) system \<Rightarrow> bool" where
  work: "work_step sys sys' \<Longrightarrow> server_step sys sys'"
| give: "chrpc_server_give_channel s chn now = (status, s') \<Longrightarrow>
    server_step (s, ws, destroyed) (s', ws, destroyed)"
| stop: "server_step (s, ws, destroyed) (s\<lparr>should_exit := True\<rparr>, ws, destroyed)"

inductive reachable :: "('c, 'cfg, 'st) chrpc_server_t \<Rightarrow> ('c, 'cfg, 'st) system \<Rightarrow> bool" where
  created: "reachable s0 (s0, replicate (num_workers (sv_attrs s0)) AtTop, [])"
| step: "reachable s0 sys \<Longrightarrow> server_step sys sys' \<Longrightarrow> reachable s0 sys'"

text \<open>
  After the workers are joined \<open>delete_chrpc_server\<close> destroys the channels still queued; the
  result lists their ids.  (The loop takes one element per round, so one round more than the
  queue is long is enough.)
\<close>

definition delete_chrpc_server :: "('c, 'cfg, 'st) chrpc_server_t \<Rightarrow> channel_id_t list option" where
  "delete_chrpc_server server =
     do { (eles, q) \<leftarrow> poll_all q_poll (Suc (q_len (sv_q server))) (sv_q server);
          Some (map (\<lambda>ele. ele_id (the ele)) eles) }"

section \<open>The invariant\<close>

text \<open>The channel a worker has taken off the queue, and whether it is still counted.\<close>

fun held :: "('c, 'cfg) worker_t \<Rightarrow> channel_id_t list" where
  "held (Serving ele) = [ele_id ele]"
| "held (Served ele status) = [ele_id ele]"
| "held (PushBack ele) = [ele_id ele]"
| "held (Disconnecting ele) = [ele_id ele]"
| "held w = []"

fun counted :: "('c, 'cfg) worker_t \<Rightarrow> nat" where
  "counted (Uncount i) = 1"
| "counted w = length (held w)"

abbreviation queued :: "('c, 'cfg, 'st) chrpc_server_t \<Rightarrow> channel_id_t list" where
  "queued s \<equiv> map ele_id (queue_list (sv_q s))"

text \<open>The ids given out so far.\<close>

definition given_ids :: "channel_id_t \<Rightarrow> channel_id_t list" where
  "given_ids n = map of_nat [0..<unat n]"

definition server_inv :: "('c, 'cfg, 'st) system \<Rightarrow> bool" where [inv_defs]:
  "server_inv sys \<longleftrightarrow> (case sys of (s, ws, destroyed) \<Rightarrow>
     queue_inv (sv_q s) \<and> q_cap (sv_q s) = max_connections (sv_attrs s) \<and>
     num_channels s = length (queued s) + sum_list (map counted ws) \<and>
     num_channels s \<le> max_connections (sv_attrs s) \<and>
     mset (queued s) + mset (concat (map held ws)) + mset destroyed = mset (given_ids (id_counter s)))"

lemma sum_list_update_nat:
  "i < length ws \<Longrightarrow> sum_list (map f (ws[i := w])) + f (ws ! i) = sum_list (map f ws) + (f w :: nat)"
  by (induction ws arbitrary: i) (auto split: nat.splits simp: nth_Cons')

lemma mset_concat_worker:
  "i < length ws \<Longrightarrow> mset (concat (map f (ws[i := w]))) + mset (f (ws ! i)) = mset (concat (map f ws)) + mset (f w)"
  by (induction ws arbitrary: i) (auto split: nat.splits simp: nth_Cons')

lemma after_poll_id: "after_poll attrs now ele status = (disconnect, pause, ele') \<Longrightarrow> ele_id ele' = ele_id ele"
  by (auto simp: after_poll_def split: if_splits)

text \<open>What a step does to one worker and the shared state; \<open>r\<close> counts the other workers' channels.\<close>

lemma worker_step_ok:
  assumes "worker_step s w s' w' ds" and inv: "queue_inv (sv_q s)"
    and n: "num_channels s = length (queued s) + counted w + r" "num_channels s \<le> q_cap (sv_q s)"
  shows "queue_inv (sv_q s')" "q_cap (sv_q s') = q_cap (sv_q s)" "sv_attrs s' = sv_attrs s"
    "id_counter s' = id_counter s" "should_exit s' = should_exit s"
    "num_channels s' = length (queued s') + counted w' + r" "num_channels s' \<le> q_cap (sv_q s')"
    "mset (queued s') + mset (held w') + mset ds = mset (queued s) + mset (held w)"
proof -
  have "queue_inv (sv_q s') \<and> q_cap (sv_q s') = q_cap (sv_q s) \<and> sv_attrs s' = sv_attrs s \<and>
    id_counter s' = id_counter s \<and> should_exit s' = should_exit s \<and>
    num_channels s' = length (queued s') + counted w' + r \<and> num_channels s' \<le> q_cap (sv_q s') \<and>
    mset (queued s') + mset (held w') + mset ds = mset (queued s) + mset (held w)"
    using assms(1)
  proof (cases rule: worker_step.cases)
    case (no_work e out q)
    with q.poll_nil [OF inv, of True] q.poll_cons [OF inv, of _ _ True] inv n show ?thesis
      by (cases "queue_list (sv_q s)") fastforce+
  next
    case (takes ele q)
    then obtain x xs where xs: "queue_list (sv_q s) = x # xs"
      using q.poll_nil [OF inv, of True] by (cases "queue_list (sv_q s)") auto
    with q.poll_cons [OF inv xs, of True] takes inv n show ?thesis by auto
  next
    case (decides now ele status disconnect pause ele')
    with after_poll_id [OF decides(5)] inv n show ?thesis by auto
  next
    case (pushes ele e q)
    then have "length (queue_list (sv_q s)) < q_cap (sv_q s)" using n by simp
    from q.push_room [OF inv this, of ele] pushes inv n show ?thesis by auto
  qed (use inv n in auto)
  then show "queue_inv (sv_q s')" "q_cap (sv_q s') = q_cap (sv_q s)" "sv_attrs s' = sv_attrs s"
    "id_counter s' = id_counter s" "should_exit s' = should_exit s"
    "num_channels s' = length (queued s') + counted w' + r" "num_channels s' \<le> q_cap (sv_q s')"
    "mset (queued s') + mset (held w') + mset ds = mset (queued s) + mset (held w)" by blast+
qed

lemma given_ids_Suc:
  assumes "n \<noteq> - 1" shows "given_ids (n + 1) = given_ids n @ [n]"
proof -
  have "1 + n \<noteq> 0" using assms by (simp add: eq_neg_iff_add_eq_0 add.commute)
  then have "unat (n + 1) = Suc (unat n)" by (simp add: unatSuc add.commute)
  then show ?thesis by (simp add: given_ids_def)
qed

lemma distinct_given_ids: "distinct (given_ids n)"
proof -
  have "unat n < 2 ^ LENGTH(64)" by (rule unsigned_less)
  then have "unat (of_nat x :: channel_id_t) = x" if "x < unat n" for x
    using that by (simp add: unat_of_nat)
  then have "inj_on (of_nat :: nat \<Rightarrow> channel_id_t) {0..<unat n}"
    by (intro inj_on_inverseI [where g = unat]) simp
  then show ?thesis by (simp add: given_ids_def distinct_map)
qed

lemma give_channel_ok:
  assumes give: "chrpc_server_give_channel s chn now = (status, s')" and inv: "queue_inv (sv_q s)"
    and n: "num_channels s = length (queued s) + r" "num_channels s \<le> q_cap (sv_q s)"
  shows "s' = s \<and> status \<noteq> CHRPC_SUCCESS \<or>
    status = CHRPC_SUCCESS \<and> queue_inv (sv_q s') \<and> q_cap (sv_q s') = q_cap (sv_q s) \<and> sv_attrs s' = sv_attrs s \<and>
    should_exit s' = should_exit s \<and> queued s' = queued s @ [id_counter s] \<and>
    given_ids (id_counter s') = given_ids (id_counter s) @ [id_counter s] \<and>
    num_channels s' = length (queued s') + r \<and> num_channels s' \<le> q_cap (sv_q s')"
proof (cases "s' = s \<and> status \<noteq> CHRPC_SUCCESS")
  case False
  obtain c where chn: "chn = Some c" using give False by (cases chn) (auto simp: chrpc_server_give_channel_def)
  let ?ele = "\<lparr>ele_id = id_counter s, since_last_req = now, ele_chn = c\<rparr>"
  obtain st mms where m: "chn_max_msg_size chn True = (st, mms)" by fastforce
  have c: "num_channels s \<noteq> q_cap (sv_q s)" "id_counter s \<noteq> - 1" "status = CHRPC_SUCCESS"
    and s': "s' = s\<lparr>id_counter := id_counter s + 1, sv_q := snd (q_push (sv_q s) (Some ?ele)),
       num_channels := num_channels s + 1\<rparr>"
    using give False m by (simp_all add: chrpc_server_give_channel_def chn Let_def split: if_splits)
  from c n have "length (queue_list (sv_q s)) < q_cap (sv_q s)" by simp
  from q.push_room [OF inv this, of ?ele] obtain q' where
    "snd (q_push (sv_q s) (Some ?ele)) = q'" "queue_inv q'" "queue_list q' = queue_list (sv_q s) @ [?ele]"
    "q_cap q' = q_cap (sv_q s)" by auto
  with c n given_ids_Suc [OF c(2)] show ?thesis unfolding s' by simp
qed simp

lemma work_step_inv:
  assumes "work_step sys sys'" "server_inv sys"
  shows "server_inv sys'"
  using assms
proof (induction rule: work_step.induct)
  case work: (1 i ws s s' w' ds destroyed)
  define r where "r = sum_list (map counted ws) - counted (ws ! i)"
  have le: "counted (ws ! i) \<le> sum_list (map counted ws)" using work(1) by (simp add: member_le_sum_list)
  have upd: "sum_list (map counted (ws[i := w'])) = counted w' + r"
    using sum_list_update_nat [OF work(1), of counted w'] le by (simp add: r_def)
  have ids: "mset (concat (map held (ws[i := w']))) + mset (held (ws ! i)) = mset (concat (map held ws)) + mset (held w')"
    by (rule mset_concat_worker [OF work(1)])
  have inv: "queue_inv (sv_q s)" "num_channels s = length (queued s) + counted (ws ! i) + r"
    "num_channels s \<le> q_cap (sv_q s)" using work(3) le by (simp_all add: server_inv_def r_def)
  note step = worker_step_ok [OF work(2) inv]
  let ?b = "mset (concat (map held ws))" and ?b' = "mset (concat (map held (ws[i := w'])))"
  have "mset (queued s') + ?b' + mset (destroyed @ ds) + mset (held (ws ! i)) =
      mset (queued s') + mset ds + mset destroyed + (?b' + mset (held (ws ! i)))" by (simp add: ac_simps)
  also have "\<dots> = (mset (queued s') + mset (held w') + mset ds) + ?b + mset destroyed"
    unfolding ids by (simp add: ac_simps)
  also have "\<dots> = mset (queued s) + ?b + mset destroyed + mset (held (ws ! i))"
    unfolding step(8) by (simp add: ac_simps)
  finally have "mset (queued s') + ?b' + mset (destroyed @ ds) = mset (queued s) + ?b + mset destroyed"
    by (simp only: add_right_cancel)
  with step upd work(3) show ?case by (simp add: server_inv_def)
qed

lemma server_step_inv:
  assumes "server_step sys sys'" "server_inv sys"
  shows "server_inv sys'"
  using assms
proof (induction rule: server_step.induct)
  case (work sys sys')
  with work_step_inv show ?case by blast
next
  case (give s chn now status s' ws destroyed)
  from give_channel_ok [OF give(1), of "sum_list (map counted ws)"] give(2)
  show ?case by (auto simp: server_inv_def simp del: mset_map)
next
  case (stop s ws destroyed)
  then show ?case by (simp add: server_inv_def)
qed

lemma new_server_inv:
  assumes "new_chrpc_server True ss attrs eps = (CHRPC_SUCCESS, Some s0)"
  shows "server_inv (s0, replicate k AtTop, []) \<and> sv_attrs s0 = attrs \<and> id_counter s0 = 0 \<and> \<not> should_exit s0"
proof -
  from assms obtain q where q: "new_queue (max_connections attrs) 24 = Some q" "sv_q s0 = q" "sv_attrs s0 = attrs"
    "id_counter s0 = 0" "num_channels s0 = 0" "\<not> should_exit s0"
    by (auto simp: new_chrpc_server_def split: if_splits)
  moreover have "concat (map held (replicate k AtTop)) = []" "sum_list (map counted (replicate k AtTop)) = 0"
    by (simp_all add: sum_list_replicate)
  moreover have "q_len q = 0" using q(1) by (auto simp: new_queue_def split: if_splits)
  ultimately show ?thesis using new_queue_correct [OF q(1)] by (simp add: server_inv_def given_ids_def)
qed

lemma reachable_inv:
  assumes "reachable s0 sys" "new_chrpc_server True ss attrs eps = (CHRPC_SUCCESS, Some s0)"
  shows "server_inv sys"
  using assms
proof (induction rule: reachable.induct)
  case (created s0)
  show ?case using new_server_inv [OF created] by simp
next
  case (step s0 sys sys')
  with server_step_inv show ?case by blast
qed

lemma reachable_work:
  "reachable s0 (s, ws, destroyed) \<Longrightarrow> i < length ws \<Longrightarrow> worker_step s (ws ! i) s' w' ds \<Longrightarrow>
   reachable s0 (s', ws[i := w'], destroyed @ ds)"
  by (rule reachable.step [OF _ server_step.work [OF work_step.intros]])

lemma reachable_give:
  "reachable s0 (s, ws, destroyed) \<Longrightarrow> chrpc_server_give_channel s chn now = (status, s') \<Longrightarrow>
   reachable s0 (s', ws, destroyed)"
  by (rule reachable.step [OF _ server_step.give])

section \<open>Shutting down\<close>

text \<open>How many steps a worker can still take once it is told to exit.\<close>

fun rank :: "('c, 'cfg) worker_t \<Rightarrow> nat" where
  "rank AtPoll = 7"
| "rank (Serving ele) = 6"
| "rank (Served ele status) = 5"
| "rank (Disconnecting ele) = 4"
| "rank (Uncount i) = 3"
| "rank (Notify i) = 2"
| "rank (PushBack ele) = 2"
| "rank AtTop = 1"
| "rank Exited = 0"

lemma rank_decreases: "worker_step s w s' w' ds \<Longrightarrow> should_exit s \<Longrightarrow> rank w' < rank w \<and> should_exit s'"
  by (induction rule: worker_step.induct) auto

text \<open>Whether the next poll of a worker is defined, whatever the peer has done to the channel.\<close>

definition poll_defined :: "('c, 'cfg, 'st) chrpc_server_t \<Rightarrow> ('c, 'cfg) worker_t \<Rightarrow> bool" where
  "poll_defined s w \<longleftrightarrow> (\<forall>ele c buf. w = Serving ele \<longrightarrow>
     chrpc_poll_channel (sv_ep_set s) (ele_id ele)
      \<lparr>cn_chn = (ele_chn ele)\<lparr>ch_channel := c\<rparr>, cn_state = server_state s, cn_buf = buf, cn_live = 0\<rparr> \<noteq> None)"

lemma worker_progress:
  assumes "w \<noteq> Exited" "poll_defined s w" "queue_inv (sv_q s)"
  shows "\<exists>s' w' ds. worker_step s w s' w' ds"
proof (cases w)
  case AtTop
  then show ?thesis using worker_step.exits worker_step.continues by blast
next
  case AtPoll
  show ?thesis
  proof (cases "queue_list (sv_q s)")
    case Nil
    with q.poll_nil [OF assms(3) Nil, of True] worker_step.no_work [of s 1] AtPoll show ?thesis by fastforce
  next
    case (Cons x xs)
    with q.poll_cons [OF assms(3) Cons, of True] worker_step.takes [of s x] AtPoll show ?thesis by auto
  qed
next
  case (Serving ele)
  let ?cn = "\<lparr>cn_chn = (ele_chn ele)\<lparr>ch_channel := undefined\<rparr>, cn_state = server_state s,
    cn_buf = replicate (sa_max_msg_size (sv_attrs s)) 0, cn_live = 0\<rparr>"
  from assms(2) Serving obtain status cn' where
    "chrpc_poll_channel (sv_ep_set s) (ele_id ele) ?cn = Some (status, cn')" by (fastforce simp: poll_defined_def)
  with Serving worker_step.serves [of "replicate (sa_max_msg_size (sv_attrs s)) 0" s ele undefined status cn']
  show ?thesis by auto
next
  case (Served ele status)
  obtain d p e where "after_poll (sv_attrs s) 0 ele status = (d, p, e)" by (metis surj_pair)
  with Served worker_step.decides show ?thesis by blast
next
  case (PushBack ele)
  obtain e q where "q_push (sv_q s) (Some ele) = (e, q)" by fastforce
  with PushBack worker_step.pushes show ?thesis by blast
next
  case (Disconnecting ele)
  then show ?thesis using worker_step.destroys by blast
next
  case (Uncount i)
  then show ?thesis using worker_step.uncounts by blast
next
  case (Notify i)
  then show ?thesis using worker_step.notifies by blast
qed (use assms(1) in simp)

lemma work_step_rank:
  assumes "work_step sys sys'" "should_exit (fst sys)"
  shows "sum_list (map rank (fst (snd sys'))) < sum_list (map rank (fst (snd sys))) \<and> should_exit (fst sys')"
  using assms
proof (induction rule: work_step.induct)
  case (1 i ws s s' w' ds destroyed)
  with rank_decreases [OF 1(2)] sum_list_update_nat [OF 1(1), of rank w'] show ?case by simp
qed

lemma work_steps_rank:
  "(work_step ^^ k) sys sys' \<Longrightarrow> should_exit (fst sys) \<Longrightarrow>
   sum_list (map rank (fst (snd sys'))) + k \<le> sum_list (map rank (fst (snd sys))) \<and> should_exit (fst sys')"
proof (induction k arbitrary: sys')
  case (Suc k)
  then obtain sys1 where "(work_step ^^ k) sys sys1" "work_step sys1 sys'" by auto
  with Suc.IH [of sys1] Suc.prems(2) work_step_rank [of sys1 sys'] show ?case by auto
qed simp

lemma work_steps_inv: "(work_step ^^ k) sys sys' \<Longrightarrow> server_inv sys \<Longrightarrow> server_inv sys'"
proof (induction k arbitrary: sys')
  case (Suc k)
  then obtain sys1 where 1: "(work_step ^^ k) sys sys1" "work_step sys1 sys'" by auto
  show ?case by (rule work_step_inv [OF 1(2) Suc.IH [OF 1(1) Suc.prems(2)]])
qed simp

lemma rank_le: "rank w \<le> 7"
  by (cases w) simp_all

section \<open>What the endpoints and the disconnect handler keep\<close>

text \<open>Polling a channel changes the user's state by at most one call of an endpoint of the set.\<close>

definition one_call :: "'st chrpc_endpoint_t list \<Rightarrow> channel_id_t \<Rightarrow> 'st \<Rightarrow> 'st \<Rightarrow> bool" where
  "one_call eps i st st' \<longleftrightarrow> st' = st \<or> (\<exists>ep \<in> set eps. \<exists>args. st' = snd (snd (ep_func ep i st args)))"

lemma one_callI [simp]:
  "one_call eps i st st" "ep \<in> set eps \<Longrightarrow> one_call eps i st (snd (snd (ep_func ep i st args)))"
  by (auto simp: one_call_def)

lemma error_response_state: "chrpc_send_error_response err cn = Some (status, cn') \<Longrightarrow> cn_state cn' = cn_state cn"
  by (auto simp: chrpc_send_error_response_def conn_send_def free_values_def split: prod.splits if_splits bind_splits)

lemma send_response_state:
  "chrpc_send_response ep args i cn = Some (status, cn') \<Longrightarrow> cn_state cn' = snd (snd (ep_func ep i (cn_state cn) args))"
  by (auto simp: chrpc_send_response_def conn_send_def free_values_def Let_def dest!: error_response_state
      split: prod.splits if_splits bind_splits)

lemma lookup_member:
  assumes "set_inv ep_set" "chrpc_endpoint_set_lookup ep_set name = Some (Some ep)"
  shows "ep \<in> set (endpoints ep_set)"
proof -
  obtain n where "string_chars name = Some n" using assms(2) by (auto simp: chrpc_endpoint_set_lookup_def split: bind_splits)
  from lookup_ok [OF assms(1) this] assms(2) have "find (\<lambda>ep. ep_name ep = n) (endpoints ep_set) = Some ep" by simp
  then show ?thesis by (auto simp: find_Some_iff)
qed

lemma handle_request_state:
  assumes "set_inv ep_set" "chrpc_handle_request ep_set req i cn = Some (status, cn')"
  shows "one_call (endpoints ep_set) i (cn_state cn) (cn_state cn')"
  using assms(2)
  by (auto simp: chrpc_handle_request_def free_values_def Let_def dest!: error_response_state send_response_state
      lookup_member [OF assms(1)]
      split: prod.splits if_splits bind_splits chrpc_inner_value_t.splits list.splits option.splits)

lemma poll_channel_state:
  assumes "set_inv ep_set" "chrpc_poll_channel ep_set i cn = Some (status, cn')"
  shows "one_call (endpoints ep_set) i (cn_state cn) (cn_state cn')"
  using assms(2)
  by (auto simp: chrpc_poll_channel_def free_values_def Let_def dest!: error_response_state
      dest: handle_request_state [OF assms(1)]
      split: prod.splits if_splits bind_splits sum.splits)

text \<open>A property of the user's state that every endpoint keeps, on any arguments, and the handler too.\<close>

locale state_contract =
  fixes good :: "'st \<Rightarrow> bool" and eps :: "'st chrpc_endpoint_t list"
    and handler :: "(channel_id_t \<Rightarrow> 'st \<Rightarrow> 'st) option"
  assumes endpoint_keeps: "ep \<in> set eps \<Longrightarrow> good st \<Longrightarrow> good (snd (snd (ep_func ep i st args)))"
    and handler_keeps: "handler = Some f \<Longrightarrow> good st \<Longrightarrow> good (f i st)"
begin

definition system_good :: "('c, 'cfg, 'st) chrpc_server_t \<Rightarrow> bool" where
  "system_good s \<longleftrightarrow> good (server_state s) \<and> set_inv (sv_ep_set s) \<and> endpoints (sv_ep_set s) = eps \<and>
     on_disconnect (sv_attrs s) = handler"

lemma worker_step_good:
  assumes "worker_step s w s' w' ds" "system_good s"
  shows "system_good s'"
  using assms
proof (cases rule: worker_step.cases)
  case (serves buf ele c status cn')
  have s: "good (server_state s)" "set_inv (sv_ep_set s)" "endpoints (sv_ep_set s) = eps"
    using assms(2) by (simp_all add: system_good_def)
  have "good (cn_state cn')" using poll_channel_state [OF s(2) serves(6)] endpoint_keeps s(1,3) by (auto simp: one_call_def)
  with serves(2) assms(2) show ?thesis by (simp add: system_good_def)
next
  case (notifies i)
  then show ?thesis using assms(2) handler_keeps by (auto simp: system_good_def split: option.splits)
qed (auto simp: system_good_def)

lemma server_step_good: "server_step sys sys' \<Longrightarrow> system_good (fst sys) \<Longrightarrow> system_good (fst sys')"
proof (induction rule: server_step.induct)
  case (work sys sys')
  then show ?case using worker_step_good by (cases rule: work_step.cases) auto
next
  case (give s chn now status s' ws destroyed)
  then show ?case
    by (auto simp: chrpc_server_give_channel_def system_good_def Let_def split: option.splits prod.splits if_splits)
next
  case (stop s ws destroyed)
  then show ?case by (simp add: system_good_def)
qed

lemma reachable_good: "reachable s0 sys \<Longrightarrow> system_good s0 \<Longrightarrow> system_good (fst sys)"
  by (induction rule: reachable.induct) (simp_all add: server_step_good)

end

lemma reachable_attrs: "reachable s0 sys \<Longrightarrow> sv_attrs (fst sys) = sv_attrs s0"
proof (induction rule: reachable.induct)
  case (step s0 sys sys')
  from step(2) have "sv_attrs (fst sys') = sv_attrs (fst sys)"
  proof (cases rule: server_step.cases)
    case work
    then show ?thesis by (auto elim!: work_step.cases worker_step.cases)
  next
    case give
    then show ?thesis
      by (auto simp: chrpc_server_give_channel_def Let_def split: option.splits prod.splits if_splits)
  qed simp
  with step(3) show ?case by simp
qed simp

lemma server_delete_ok:
  assumes "new_chrpc_server True ss attrs eps = (CHRPC_SUCCESS, Some s0)"
    and "reachable s0 (s, ws, destroyed)" "\<forall>w \<in> set ws. w = Exited"
  shows "\<exists>ids. delete_chrpc_server s = Some ids \<and> distinct (destroyed @ ids) \<and>
    mset (destroyed @ ids) = mset (given_ids (id_counter s))"
proof -
  have inv: "server_inv (s, ws, destroyed)" by (rule reachable_inv [OF assms(2,1)])
  have "concat (map held ws) = []" using assms(3) by auto
  with inv have ids: "mset (destroyed @ queued s) = mset (given_ids (id_counter s))"
    by (simp add: server_inv_def ac_simps)
  have "queue_inv (sv_q s)" using inv by (simp add: server_inv_def)
  from q.drain [OF this, of "Suc (q_len (sv_q s))"] obtain q' where
    "poll_all q_poll (Suc (q_len (sv_q s))) (sv_q s) = Some (map Some (queue_list (sv_q s)), q')" by auto
  then have "delete_chrpc_server s = Some (queued s)" by (simp add: delete_chrpc_server_def comp_def)
  moreover have "distinct (destroyed @ queued s)"
    using mset_eq_imp_distinct_iff [OF ids] distinct_given_ids by simp
  ultimately show ?thesis using ids by blast
qed

section \<open>Properties\<close>

text \<open>C7. In every reachable state of a server, with any number of workers, clients and interleavings:
  \<open>num_channels\<close> counts the queued channels and those held by workers and never exceeds
  \<open>max_connections\<close>; every id ever given out belongs to exactly one place, the queue, one worker or
  the destroyed channels; and a worker that pushes a channel back always finds room.\<close>

theorem server_conserves_channels:
  assumes "new_chrpc_server True ss attrs eps = (CHRPC_SUCCESS, Some s0)"
    and "reachable s0 (s, ws, destroyed)"
  shows "num_channels s = length (queued s) + sum_list (map counted ws) \<and>
    num_channels s \<le> max_connections (sv_attrs s) \<and>
    distinct (queued s @ concat (map held ws) @ destroyed) \<and>
    set (queued s @ concat (map held ws) @ destroyed) = set (given_ids (id_counter s)) \<and>
    (\<forall>ele. PushBack ele \<in> set ws \<longrightarrow> fst (q_push (sv_q s) (Some ele)) = 0)"
proof -
  have inv: "server_inv (s, ws, destroyed)" by (rule reachable_inv [OF assms(2,1)])
  then have ids: "mset (queued s @ concat (map held ws) @ destroyed) = mset (given_ids (id_counter s))"
    by (simp add: server_inv_def add.assoc)
  from mset_eq_setD [OF ids] mset_eq_imp_distinct_iff [OF ids] distinct_given_ids
  have 1: "distinct (queued s @ concat (map held ws) @ destroyed)"
    "set (queued s @ concat (map held ws) @ destroyed) = set (given_ids (id_counter s))" by simp_all
  have "fst (q_push (sv_q s) (Some ele)) = 0" if "PushBack ele \<in> set ws" for ele
  proof -
    have "counted (PushBack ele) \<in> set (map counted ws)" unfolding set_map by (rule imageI) (rule that)
    then have "counted (PushBack ele) \<le> sum_list (map counted ws)" by (rule member_le_sum_list) simp
    then have "length (queue_list (sv_q s)) < q_cap (sv_q s)" using inv by (simp add: server_inv_def)
    with q.push_room [of "sv_q s" ele] inv show ?thesis by (auto simp: server_inv_def)
  qed
  with 1 inv show ?thesis by (simp add: server_inv_def del: length_map distinct_append set_append)
qed

text \<open>A server with one worker that has been given a channel.\<close>

type_synonym local_server = "(channel_local_t, channel_local_config_t, nat) chrpc_server_t"

lemma example_server:
  obtains attrs eps and s0 s1 :: local_server and ele where
    "new_chrpc_server True 0 attrs eps = (CHRPC_SUCCESS, Some s0)" "reachable s0 (s1, [AtTop], [])"
    "\<not> should_exit s1" "queue_inv (sv_q s1)" "queue_list (sv_q s1) = [ele]" "ele_id ele = 0"
    "id_counter s1 = 1" "num_channels s1 = 1"
proof -
  let ?attrs = "\<lparr>sa_max_msg_size = 128, max_connections = 2, num_workers = 1, worker_usleep_amt = 5,
    idle_timeout = 0, on_disconnect = None\<rparr> :: nat chrpc_server_attrs_t"
  let ?cfg = "\<lparr>queue_depth = 2, write_over = False, max_msg_size = 128\<rparr>"
  obtain c where c: "new_channel_local False (Some ?cfg) = (CHN_SUCCESS, Some c)" "l_cfg c = ?cfg"
    by (auto simp: new_channel_local_def new_queue_def)
  let ?chn = "\<lparr>ch_channel = c, ch_impl = CHANNEL_LOCAL_IMPL False\<rparr>"
  let ?eps = "the (fst (new_chrpc_endpoint_set_va 0 [] [\<lparr>ep_name = [98], ep_ret = None, ep_args = [],
    ep_args_block = False, ep_func = \<lambda>_ (st :: nat) _. (CHRPC_SC_KEEP_ALIVE, None, st + 1)\<rparr>]))"
  obtain q0 :: "(channel_local_t, channel_local_config_t) chrpc_queue_ele_t queue_t" where
    q0: "new_queue 2 24 = Some q0" by (simp add: new_queue_def)
  define s0 where "s0 = \<lparr>server_state = 0, sv_attrs = ?attrs, id_counter = 0, num_channels = 0, sv_q = q0,
    should_exit = False, sv_ep_set = ?eps, sv_req_type = req_type, sv_resp_type = resp_type\<rparr>"
  have s0: "new_chrpc_server True 0 ?attrs ?eps = (CHRPC_SUCCESS, Some s0)"
    "num_channels s0 = 0" "id_counter s0 = 0" "sv_attrs s0 = ?attrs" "\<not> should_exit s0" "sv_q s0 = q0"
    using q0 by (simp_all add: s0_def new_chrpc_server_def CHRPC_SERVER_BUF_MIN_SIZE_def)
  let ?ele = "\<lparr>ele_id = 0, since_last_req = 7, ele_chn = ?chn\<rparr>"
  from new_queue_correct [OF q0] s0(6) have
    q: "queue_inv (sv_q s0)" "queue_list (sv_q s0) = []" "q_cap (sv_q s0) = 2" by simp_all
  from q.push_room [OF q(1), of ?ele] q obtain q1 where q1: "q_push (sv_q s0) (Some ?ele) = (0, q1)" "queue_inv q1"
    "queue_list q1 = [?ele]" by auto
  let ?s1 = "s0\<lparr>id_counter := 1, sv_q := q1, num_channels := 1\<rparr>"
  have "chrpc_server_give_channel s0 (Some ?chn) 7 = (CHRPC_SUCCESS, ?s1)"
    using q1 q(3) s0 c(2) by (simp add: chrpc_server_give_channel_def chn_max_msg_size_def CHANNEL_LOCAL_IMPL_def
        chn_l_max_msg_size_def CHRPC_SERVER_BUF_MIN_SIZE_def Let_def)
  moreover have "reachable s0 (s0, [AtTop], [])" using reachable.created [of s0] s0(4) by simp
  ultimately have "reachable s0 (?s1, [AtTop], [])" by (rule reachable_give [rotated])
  from that [OF s0(1) this] show thesis using q1 s0(5) by simp
qed

theorem server_conserves_channels_witness:
  "\<exists>(s0 :: local_server) s ele. reachable s0 (s, [Serving ele], []) \<and>
     ele_id ele = 0 \<and> num_channels s = 1 \<and> queued s = [] \<and> set (given_ids (id_counter s)) = {0}"
proof -
  obtain attrs eps and s0 s1 :: local_server and ele where
    new: "new_chrpc_server True 0 attrs eps = (CHRPC_SUCCESS, Some s0)"
    and s1: "reachable s0 (s1, [AtTop], [])" "\<not> should_exit s1" "queue_inv (sv_q s1)"
      "queue_list (sv_q s1) = [ele]" "ele_id ele = 0" "id_counter s1 = 1" "num_channels s1 = 1" by (rule example_server)
  from q.poll_cons [OF s1(3,4), of True] obtain q2 where q2: "q_poll (sv_q s1) True = (0, Some ele, q2)"
    "queue_list q2 = []" by auto
  have "worker_step s1 ([AtTop] ! 0) s1 AtPoll []" using s1(2) worker_step.continues [of s1] by simp
  from reachable_work [OF s1(1) _ this] have r2: "reachable s0 (s1, [AtPoll], [])" by simp
  have "worker_step s1 ([AtPoll] ! 0) (s1\<lparr>sv_q := q2\<rparr>) (Serving ele) []"
    using worker_step.takes [of s1 ele q2] q2(1) by simp
  from reachable_work [OF r2 _ this] have r: "reachable s0 (s1\<lparr>sv_q := q2\<rparr>, [Serving ele], [])" by simp
  from server_conserves_channels [OF new r] q2(2) s1(5) have "set (given_ids (id_counter (s1\<lparr>sv_q := q2\<rparr>))) = {0}"
    by simp
  with r q2(2) s1(5,7) show ?thesis by (intro exI [of _ s0] exI [of _ "s1\<lparr>sv_q := q2\<rparr>"] exI [of _ ele]) simp
qed

lemma example_stopped:
  assumes "reachable s0 (s1, [AtTop], [])"
  shows "reachable s0 (s1\<lparr>should_exit := True\<rparr>, [AtTop], [])"
    "work_step (s1\<lparr>should_exit := True\<rparr>, [AtTop], []) (s1\<lparr>should_exit := True\<rparr>, [Exited], [])"
    "reachable s0 (s1\<lparr>should_exit := True\<rparr>, [Exited], [])"
proof -
  show r: "reachable s0 (s1\<lparr>should_exit := True\<rparr>, [AtTop], [])"
    by (rule reachable.step [OF assms server_step.stop])
  have w: "worker_step (s1\<lparr>should_exit := True\<rparr>) ([AtTop] ! 0) (s1\<lparr>should_exit := True\<rparr>) Exited []"
    using worker_step.exits [of "s1\<lparr>should_exit := True\<rparr>"] by simp
  from work_step.intros [OF _ w, of "[]"]
  show "work_step (s1\<lparr>should_exit := True\<rparr>, [AtTop], []) (s1\<lparr>should_exit := True\<rparr>, [Exited], [])" by simp
  from reachable_work [OF r _ w] show "reachable s0 (s1\<lparr>should_exit := True\<rparr>, [Exited], [])" by simp
qed

text \<open>C20. Deleting a server destroys every channel it ever accepted exactly once: those its workers
  disconnected and, once they have exited, those still queued.\<close>

theorem server_delete_complete:
  assumes "new_chrpc_server True ss attrs eps = (CHRPC_SUCCESS, Some s0)"
    and "reachable s0 (s, ws, destroyed)" "\<forall>w \<in> set ws. w = Exited"
  shows "\<exists>ids. delete_chrpc_server s = Some ids \<and> distinct (destroyed @ ids) \<and>
    mset (destroyed @ ids) = mset (given_ids (id_counter s))"
  by (rule server_delete_ok [OF assms])

theorem server_delete_complete_witness:
  "\<exists>(s0 :: local_server) s. reachable s0 (s, [Exited], []) \<and> delete_chrpc_server s = Some [0]"
proof -
  obtain attrs eps and s0 s1 :: local_server and ele where
    new: "new_chrpc_server True 0 attrs eps = (CHRPC_SUCCESS, Some s0)"
    and s1: "reachable s0 (s1, [AtTop], [])" "\<not> should_exit s1" "queue_inv (sv_q s1)"
      "queue_list (sv_q s1) = [ele]" "ele_id ele = 0" "id_counter s1 = 1" "num_channels s1 = 1" by (rule example_server)
  from server_delete_complete [OF new example_stopped(3) [OF s1(1)]] s1(6)
  have "delete_chrpc_server (s1\<lparr>should_exit := True\<rparr>) = Some [0]" by (auto simp: given_ids_def)
  with example_stopped(3) [OF s1(1)] show ?thesis by blast
qed

text \<open>C21. A server that is told to exit does: with \<open>k\<close> workers at most \<open>7 * k\<close> worker steps are left,
  in whatever order, and when none is possible every worker has exited or is stuck in a poll that
  is undefined.\<close>

theorem server_shutdown_terminates:
  assumes "new_chrpc_server True ss attrs eps = (CHRPC_SUCCESS, Some s0)"
    and "reachable s0 (s, ws, destroyed)" "should_exit s"
    and "(work_step ^^ n) (s, ws, destroyed) (s', ws', destroyed')"
  shows "n \<le> 7 * length ws \<and>
    ((\<nexists>sys. work_step (s', ws', destroyed') sys) \<longrightarrow> (\<forall>w \<in> set ws'. w = Exited \<or> \<not> poll_defined s' w))"
proof -
  have "sum_list (map rank ws) \<le> 7 * length ws"
    by (induction ws) (simp_all add: add_mono rank_le)
  with work_steps_rank [OF assms(4)] assms(3) have n: "n \<le> 7 * length ws" by simp
  have "server_inv (s', ws', destroyed')"
    by (rule work_steps_inv [OF assms(4) reachable_inv [OF assms(2,1)]])
  then have q: "queue_inv (sv_q s')" by (simp add: server_inv_def)
  have "w = Exited \<or> \<not> poll_defined s' w" if w: "w \<in> set ws'" and stuck: "\<nexists>sys. work_step (s', ws', destroyed') sys" for w
  proof (rule ccontr)
    assume "\<not> (w = Exited \<or> \<not> poll_defined s' w)"
    with worker_progress [OF _ _ q, of w] obtain s2 w2 ds where "worker_step s' w s2 w2 ds" by auto
    moreover obtain i where "i < length ws'" "ws' ! i = w" using w by (auto simp: in_set_conv_nth)
    ultimately have "work_step (s', ws', destroyed') (s2, ws'[i := w2], destroyed' @ ds)"
      by (intro work_step.intros) simp_all
    with stuck show False by blast
  qed
  with n show ?thesis by blast
qed

theorem server_shutdown_terminates_witness:
  "\<exists>s :: local_server. (work_step ^^ 1) (s, [AtTop], []) (s, [Exited], []) \<and> 1 \<le> 7 * length [AtTop :: (channel_local_t, channel_local_config_t) worker_t]"
proof -
  obtain attrs eps and s0 s1 :: local_server and ele where
    new: "new_chrpc_server True 0 attrs eps = (CHRPC_SUCCESS, Some s0)"
    and s1: "reachable s0 (s1, [AtTop], [])" "\<not> should_exit s1" "queue_inv (sv_q s1)"
      "queue_list (sv_q s1) = [ele]" "ele_id ele = 0" "id_counter s1 = 1" "num_channels s1 = 1" by (rule example_server)
  have step: "(work_step ^^ 1) (s1\<lparr>should_exit := True\<rparr>, [AtTop], []) (s1\<lparr>should_exit := True\<rparr>, [Exited], [])"
    using example_stopped(2) [OF s1(1)] by auto
  from server_shutdown_terminates [OF new example_stopped(1) [OF s1(1)] _ step] step show ?thesis by auto
qed

end
