(* ===== verification/Chrpc_Client.thy ===== *)
theory Chrpc_Client
  imports Chrpc_Worker
begin

text \<open>
  The client (\<open>chrpc/src/rpc_client.c\<close>).  A client owns one channel; after a fatal error the
  channel is destroyed and the pointer is NULL, \<open>None\<close>.  While the client waits, the other end of
  its channel works: \<open>peer k\<close> is what happens to the channel during the client's \<open>k\<close>-th \<open>usleep\<close>.
  Status results are bytes, as \<open>chrpc_status_t\<close> is: the server's status byte is handed on unchecked.

  The last section composes the client with a worker of the server over a two-way local channel.
\<close>

section \<open>The client\<close>

record chrpc_client_attrs_t =
  cadence :: u32
  timeout :: u32

record ('c, 'cfg) chrpc_client_t =
  cl_attrs :: chrpc_client_attrs_t
  cl_chn :: "('c, 'cfg) channel_t option"
  cl_buf :: "byte list"
  cl_req_type :: chrpc_type_t
  cl_resp_type :: chrpc_type_t

definition CHRPC_DEFAULT_CLIENT_ATTRS :: chrpc_client_attrs_t where
  "CHRPC_DEFAULT_CLIENT_ATTRS = \<lparr>cadence = 50000, timeout = 5000000\<rparr>"

definition new_chrpc_client ::
    "('c, 'cfg) channel_t option \<Rightarrow> chrpc_client_attrs_t \<Rightarrow> chrpc_status_t \<times> ('c, 'cfg) chrpc_client_t option" where
  "new_chrpc_client chn attrs =
     (if chn = None \<or> cadence attrs = 0 \<or> cadence attrs = 0 then (CHRPC_CLIENT_CREATION_ERROR, None)
      else case chn_max_msg_size chn True of (chn_status, mms) \<Rightarrow>
        if chn_status \<noteq> CHN_SUCCESS then (CHRPC_CLIENT_CHANNEL_ERROR, None)
        else (CHRPC_SUCCESS, Some \<lparr>cl_attrs = attrs, cl_chn = chn, cl_buf = replicate (the mms) 0,
                cl_req_type = req_type, cl_resp_type = resp_type\<rparr>))"

definition new_chrpc_default_client ::
    "('c, 'cfg) channel_t option \<Rightarrow> chrpc_status_t \<times> ('c, 'cfg) chrpc_client_t option" where
  "new_chrpc_default_client chn = new_chrpc_client chn CHRPC_DEFAULT_CLIENT_ATTRS"

text \<open>Whether the channel is still to be destroyed, and the \<open>safe_free\<close> calls.\<close>

definition delete_chrpc_client :: "('c, 'cfg) chrpc_client_t \<Rightarrow> bool \<times> nat" where
  "delete_chrpc_client client =
     (cl_chn client \<noteq> None,
      frees (cl_buf client) + delete_chrpc_type (cl_req_type client) + delete_chrpc_type (cl_resp_type client) + 1)"

section \<open>Sending a request\<close>

text \<open>The loop over the arguments; \<open>pos\<close> is \<open>total_written\<close>.\<close>

fun write_args :: "chrpc_value_t list \<Rightarrow> nat \<Rightarrow> byte list \<Rightarrow> write_result option" where
  "write_args [] pos buf = Some (CHRPC_SUCCESS, Some pos, buf)"
| "write_args (v # vs) pos buf =
     do { (rpc_status, written, b) \<leftarrow> chrpc_value_to_buffer_with_length (Some v) (drop pos buf);
          (if rpc_status \<noteq> CHRPC_SUCCESS then Some (rpc_status, None, take pos buf @ b)
           else write_args vs (pos + the written) (take pos buf @ b)) }"

text \<open>The name is a C string; \<open>num_args\<close>, a \<open>uint8_t\<close>, is the number of arguments.\<close>

definition write_request :: "byte list \<Rightarrow> chrpc_value_t list \<Rightarrow> byte list \<Rightarrow> write_result option" where
  "write_request name args buf =
     (case chrpc_type_to_buffer req_type buf of (rpc_status, written, b1) \<Rightarrow>
        if rpc_status \<noteq> CHRPC_SUCCESS then Some (rpc_status, None, b1)
        else do {
          n \<leftarrow> c_strlen (map Some name);
          let total1 = the written;
          let name_len = n + 1;
          let num_args = (of_nat (length args) :: byte);
          (if length buf - total1 < 4 + name_len then Some (CHRPC_BUFFER_TOO_SMALL, None, b1)
           else
             let total2 = total1 + 4 + name_len;
                 b2 = take total1 b1 @ u32_le (of_nat name_len) @ take name_len name @ drop total2 b1
             in if length buf - total2 < 4 then Some (CHRPC_BUFFER_TOO_SMALL, None, b2)
                else write_args (take (unat num_args) args) (total2 + 4)
                       (take total2 b2 @ u32_le (ucast num_args) @ drop (total2 + 4) b2)) })"

section \<open>Waiting for the response\<close>

text \<open>
  \<open>time_waited\<close> has 32 bits and wraps around, so the loop need not end.  The result is the last
  channel status, the message if one was received, and the channel.
\<close>

partial_function (option) poll_response ::
    "(nat \<Rightarrow> ('c, 'cfg) channel_t \<Rightarrow> ('c, 'cfg) channel_t) \<Rightarrow> chrpc_client_attrs_t \<Rightarrow> nat \<Rightarrow> nat \<Rightarrow> u32 \<Rightarrow>
     channel_status_t \<Rightarrow> ('c, 'cfg) channel_t \<Rightarrow>
     (channel_status_t \<times> byte list option \<times> ('c, 'cfg) channel_t) option" where
  "poll_response peer attrs buf_len k time_waited chn_status chn =
     (if time_waited < timeout attrs then
        case chn_refresh (Some chn) of (refresh_status, chn1) \<Rightarrow>
          if refresh_status \<noteq> CHN_SUCCESS then Some (refresh_status, None, the chn1)
          else case chn_receive chn1 True buf_len True of (receive_status, msg, chn2) \<Rightarrow>
            if receive_status = CHN_SUCCESS then Some (CHN_SUCCESS, msg, the chn2)
            else if receive_status \<noteq> CHN_NO_INCOMING_MSG then Some (receive_status, None, the chn2)
            else poll_response peer attrs buf_len (k + 1) (time_waited + cadence attrs) receive_status
                   (peer k (the chn2))
      else Some (chn_status, None, chn))"

text \<open>
  Taking the response apart: the status, the return value (\<open>None\<close> is NULL), and the blocks
  allocated minus the blocks freed.  \<open>ret\<close> says whether the caller wants the return value.
\<close>

definition read_response :: "bool \<Rightarrow> byte list \<Rightarrow> (byte \<times> chrpc_value_t option \<times> int) option" where
  "read_response ret buf =
     do { (r, live) \<leftarrow> chrpc_value_from_buffer buf;
          (case r of
             Inl e \<Rightarrow> Some (status_code CHRPC_BAD_RESPONSE, None, live)
           | Inr (resp, readden) \<Rightarrow>
               if \<not> chrpc_type_equals resp_type (v_type resp) then do {
                 freed \<leftarrow> delete_chrpc_value resp;
                 Some (status_code CHRPC_BAD_RESPONSE, None, live - int freed) }
               else (case v_value resp of
                   IVStruct [IVNumber [rpc_status], IVNumArr serial_ret_val serial_len] \<Rightarrow> do {
                     (status, ret_val, live1) \<leftarrow>
                       (if rpc_status \<noteq> status_code CHRPC_SUCCESS \<or> serial_len = 0 then Some (rpc_status, None, 0)
                        else do {
                          bs \<leftarrow> block_bytes serial_ret_val (unat serial_len);
                          (r1, l1) \<leftarrow> chrpc_value_from_buffer bs;
                          Some (case r1 of
                                  Inl e \<Rightarrow> (status_code e, None, l1)
                                | Inr (v, readden) \<Rightarrow> (status_code CHRPC_SUCCESS, Some v, l1)) });
                     (given, live2) \<leftarrow>
                       (case ret_val of
                          None \<Rightarrow> Some (None, 0)
                        | Some v \<Rightarrow>
                            if ret then Some (Some v, 0)
                            else do { freed \<leftarrow> delete_chrpc_value v; Some (None, - int freed) });
                     freed \<leftarrow> delete_chrpc_value resp;
                     Some (status, given, live + live1 + live2 - int freed) }
                 | _ \<Rightarrow> None)) }"

definition chrpc_client_send_request ::
    "(nat \<Rightarrow> ('c, 'cfg) channel_t \<Rightarrow> ('c, 'cfg) channel_t) \<Rightarrow> ('c, 'cfg) chrpc_client_t \<Rightarrow> byte list \<Rightarrow>
     bool \<Rightarrow> chrpc_value_t list \<Rightarrow> (byte \<times> chrpc_value_t option \<times> ('c, 'cfg) chrpc_client_t \<times> int) option" where
  "chrpc_client_send_request peer client name ret args =
     (case cl_chn client of
        None \<Rightarrow> Some (status_code CHRPC_CLIENT_CHANNEL_ERROR, None, client, 0)
      | Some chn \<Rightarrow> do {
          (rpc_status, total_written, b) \<leftarrow> write_request name args (cl_buf client);
          (if rpc_status \<noteq> CHRPC_SUCCESS then Some (status_code rpc_status, None, client\<lparr>cl_buf := b\<rparr>, 0)
           else case chn_send (Some chn) (Some (take (the total_written) b)) of (chn_status, chn1) \<Rightarrow>
             if chn_status \<noteq> CHN_SUCCESS
             then Some (status_code CHRPC_CLIENT_CHANNEL_ERROR, None, client\<lparr>cl_buf := b, cl_chn := None\<rparr>, 0)
             else do {
               (chn_status2, msg, chn2) \<leftarrow>
                 poll_response peer (cl_attrs client) (length b) 0 0 chn_status (the chn1);
               (case msg of
                  None \<Rightarrow>
                    Some (status_code (if chn_status2 = CHN_NO_INCOMING_MSG then CHRPC_DISCONNECT
                                       else CHRPC_CLIENT_CHANNEL_ERROR),
                          None, client\<lparr>cl_buf := b, cl_chn := None\<rparr>, 0)
                | Some m \<Rightarrow> do {
                    let b2 = m @ drop (length m) b;
                    (status, ret_val, live) \<leftarrow> read_response ret b2;
                    Some (status, ret_val, client\<lparr>cl_buf := b2, cl_chn := Some chn2\<rparr>, live) }) }) })"

definition chrpc_client_send_argless_request ::
    "(nat \<Rightarrow> ('c, 'cfg) channel_t \<Rightarrow> ('c, 'cfg) channel_t) \<Rightarrow> ('c, 'cfg) chrpc_client_t \<Rightarrow> byte list \<Rightarrow>
     bool \<Rightarrow> (byte \<times> chrpc_value_t option \<times> ('c, 'cfg) chrpc_client_t \<times> int) option" where
  "chrpc_client_send_argless_request peer client name ret = chrpc_client_send_request peer client name ret []"

definition chrpc_client_send_request_va ::
    "(nat \<Rightarrow> ('c, 'cfg) channel_t \<Rightarrow> ('c, 'cfg) channel_t) \<Rightarrow> ('c, 'cfg) chrpc_client_t \<Rightarrow> byte list \<Rightarrow>
     bool \<Rightarrow> chrpc_value_t list \<Rightarrow> (byte \<times> chrpc_value_t option \<times> ('c, 'cfg) chrpc_client_t \<times> int) option" where
  "chrpc_client_send_request_va peer client name ret args =
     (if CHRPC_ENDPOINT_MAX_ARGS < length args then Some (status_code CHRPC_TOO_MANY_ARGUMENTS, None, client, 0)
      else chrpc_client_send_request peer client name ret args)"

section \<open>A client of a server in the same process\<close>

text \<open>On an error what was made so far is deleted again; a full server keeps its state.\<close>

definition new_chrpc_local_client ::
    "bool \<Rightarrow> bool \<Rightarrow> int \<Rightarrow> (channel_local2_core_t, channel_local2_core_t, 'st) chrpc_server_t \<Rightarrow>
     channel_local_config_t option \<Rightarrow> chrpc_client_attrs_t \<Rightarrow>
     chrpc_status_t \<times> (channel_local2_core_t, channel_local2_core_t, 'st) chrpc_server_t \<times>
     (channel_local2_core_t \<times> (channel_local2_core_t, channel_local2_core_t) chrpc_client_t) option" where
  "new_chrpc_local_client mutex_fails1 mutex_fails2 now server cfg attrs =
     (case new_channel_local2_pipe mutex_fails1 mutex_fails2 cfg of
        (CHN_SUCCESS, Some (co, a_to_b, b_to_a)) \<Rightarrow>
          (case new_chrpc_client (Some a_to_b) attrs of (rpc_status, cl) \<Rightarrow>
             if rpc_status \<noteq> CHRPC_SUCCESS then (rpc_status, server, None)
             else case chrpc_server_give_channel server (Some b_to_a) now of (rpc_status, server') \<Rightarrow>
               if rpc_status \<noteq> CHRPC_SUCCESS then (rpc_status, server', None)
               else (CHRPC_SUCCESS, server', Some (co, the cl)))
      | _ \<Rightarrow> (CHRPC_CLIENT_CHANNEL_ERROR, server, None))"

section \<open>The request on the wire\<close>

lemma write_args_ok:
  "\<forall>v \<in> set vs. wf_value v \<and> length (value_enc v) < 2 ^ 32 \<Longrightarrow> pos \<le> length buf \<Longrightarrow>
   writes (concat (map arg_enc vs)) pos buf (write_args vs pos buf)"
proof (induction vs arbitrary: pos buf)
  case (Cons v vs)
  have "writes (arg_enc v @ concat (map arg_enc vs)) pos buf
      (do { (status, w, b) \<leftarrow> chrpc_value_to_buffer_with_length (Some v) (drop pos buf);
          (if status \<noteq> CHRPC_SUCCESS then Some (status, None, take pos buf @ b)
           else write_args vs (pos + the w) (take pos buf @ b)) })"
    by (rule writes_seq) (use Cons with_length_writes in simp_all)
  then show ?case by simp
qed (simp add: writes_nil)

lemma write_request_ok:
  assumes "is_cstr name" "args_ok args" "length args < 256"
  shows "writes (request_bytes name args) 0 buf (write_request name args buf)"
proof (cases "length buf < 6")
  case True
  then have "fst (chrpc_type_to_buffer req_type buf) = CHRPC_BUFFER_TOO_SMALL"
    using to_buffer_small(1) [of buf req_type] by (simp add: type_enc_msg_types)
  with True to_buffer_length(1) [of req_type buf] show ?thesis
    by (cases "chrpc_type_to_buffer req_type buf")
      (auto simp: writes_def write_request_def request_bytes_def type_enc_msg_types)
next
  case False
  let ?h = "type_enc req_type" and ?n = "length (cstr name)" and ?args = "concat (map arg_enc args)"
  have h: "length ?h = 6" by (simp add: type_enc_msg_types)
  have t: "chrpc_type_to_buffer req_type buf = (CHRPC_SUCCESS, Some 6, ?h @ drop 6 buf)"
    using to_buffer_ok(1) [of req_type buf] False h by simp
  have "0 \<in> set name" using assms(1) by (simp add: is_cstr_def)
  note c = c_strlen_cstr [OF this]
  obtain k where k: "length (cstr name) = Suc k" by (cases "length (cstr name)") simp_all
  have n: "c_strlen (map Some name) = Some k" "take (Suc k) name = cstr name" using c k by simp_all
  have num: "unat (of_nat (length args) :: byte) = length args" using assms(3) by (simp add: unat_of_nat)
  then have num32: "ucast (of_nat (length args) :: byte) = (of_nat (length args) :: u32)"
    by (metis of_nat_unat)
  have bs: "request_bytes name args = (?h @ u32_le (of_nat ?n) @ cstr name) @ u32_le (of_nat (length args)) @ ?args"
    by (simp add: request_bytes_def str_enc_def)
  have code: "write_request name args buf =
    (if length buf - 6 < 4 + ?n then Some (CHRPC_BUFFER_TOO_SMALL, None, ?h @ drop 6 buf)
     else let b2 = ?h @ u32_le (of_nat ?n) @ cstr name @ drop (4 + ?n) (drop 6 buf)
          in if length buf - (10 + ?n) < 4 then Some (CHRPC_BUFFER_TOO_SMALL, None, b2)
             else write_args args (14 + ?n)
               (take (10 + ?n) b2 @ u32_le (of_nat (length args)) @ drop (14 + ?n) b2))"
    using t n num num32 h by (simp add: write_request_def Let_def k)
  let ?p = "?h @ u32_le (of_nat ?n) @ cstr name"
  have p: "length ?p = 10 + ?n" using h by simp
  consider "length buf < 10 + ?n" | "10 + ?n \<le> length buf" "length buf < 14 + ?n" | "14 + ?n \<le> length buf"
    by linarith
  then show ?thesis
  proof cases
    case 1
    then have "write_request name args buf = Some (CHRPC_BUFFER_TOO_SMALL, None, ?h @ drop 6 buf)"
      using False unfolding code by simp
    with 1 False h p show ?thesis unfolding bs by (simp add: writes_def)
  next
    case 2
    then have "write_request name args buf = Some (CHRPC_BUFFER_TOO_SMALL, None, ?p @ drop (4 + ?n) (drop 6 buf))"
      using False unfolding code Let_def by (simp, linarith)
    with 2 False h p show ?thesis unfolding bs by (simp add: writes_def)
  next
    case 3
    let ?b2 = "?h @ u32_le (of_nat ?n) @ cstr name @ drop (4 + ?n) (drop 6 buf)"
    let ?b3 = "?p @ u32_le (of_nat (length args)) @ drop (14 + ?n) buf"
    have d: "drop (14 + ?n) ?b2 = drop (14 + ?n) buf" "take (10 + ?n) ?b2 = ?p"
      using h by (simp_all add: drop_append take_append)
    have "\<not> length buf - 6 < 4 + ?n" "\<not> length buf - (10 + ?n) < 4" using 3 by linarith+
    then have w: "write_request name args buf = write_args args (14 + ?n) ?b3"
      unfolding code Let_def by (simp only: if_False d append_assoc)
    have "writes ?args (14 + ?n) ?b3 (write_args args (14 + ?n) ?b3)"
      by (rule write_args_ok) (use assms(2) 3 h in \<open>simp_all add: args_ok_def\<close>)
    with 3 p h show ?thesis unfolding w bs by (auto simp: writes_def ac_simps split: if_splits)
  qed
qed

section \<open>How long the client waits\<close>

text \<open>The same loop, counting its rounds instead of the time.\<close>

fun wait_for ::
    "(nat \<Rightarrow> ('c, 'cfg) channel_t \<Rightarrow> ('c, 'cfg) channel_t) \<Rightarrow> nat \<Rightarrow> nat \<Rightarrow> nat \<Rightarrow> channel_status_t \<Rightarrow>
     ('c, 'cfg) channel_t \<Rightarrow> channel_status_t \<times> byte list option \<times> ('c, 'cfg) channel_t" where
  "wait_for peer len 0 k st chn = (st, None, chn)"
| "wait_for peer len (Suc n) k st chn =
     (case chn_refresh (Some chn) of (refresh_status, chn1) \<Rightarrow>
        if refresh_status \<noteq> CHN_SUCCESS then (refresh_status, None, the chn1)
        else case chn_receive chn1 True len True of (receive_status, msg, chn2) \<Rightarrow>
          if receive_status = CHN_SUCCESS then (CHN_SUCCESS, msg, the chn2)
          else if receive_status \<noteq> CHN_NO_INCOMING_MSG then (receive_status, None, the chn2)
          else wait_for peer len n (Suc k) receive_status (peer k (the chn2)))"

text \<open>The time still to wait, in rounds, rounded up.\<close>

definition rounds_left :: "chrpc_client_attrs_t \<Rightarrow> nat \<Rightarrow> nat" where
  "rounds_left attrs waited = (unat (timeout attrs) - waited + unat (cadence attrs) - 1) div unat (cadence attrs)"

definition no_wrap :: "chrpc_client_attrs_t \<Rightarrow> bool" where
  "no_wrap attrs \<longleftrightarrow> 0 < cadence attrs \<and> unat (timeout attrs) + unat (cadence attrs) \<le> 2 ^ 32"

lemma rounds_left_0: "0 < unat (cadence attrs) \<Longrightarrow> unat (timeout attrs) \<le> w \<Longrightarrow> rounds_left attrs w = 0"
  by (simp add: rounds_left_def)

lemma rounds_left_Suc:
  assumes "0 < unat (cadence attrs)" "w < unat (timeout attrs)"
  shows "rounds_left attrs w = Suc (rounds_left attrs (w + unat (cadence attrs)))"
proof -
  define t c where "t = unat (timeout attrs)" and "c = unat (cadence attrs)"
  have c: "0 < c" "w < t" using assms by (simp_all add: t_def c_def)
  have "t - w + c - 1 = (t - w - 1) + c" using c by simp
  then have 1: "(t - w + c - 1) div c = Suc ((t - w - 1) div c)" using c by (simp only: div_add_self2)
  have "(t - (w + c) + c - 1) div c = (t - w - 1) div c"
  proof (cases "w + c \<le> t")
    case True
    then have "t - (w + c) + c - 1 = t - w - 1" using c by simp
    then show ?thesis by simp
  next
    case False
    then show ?thesis using c by simp
  qed
  with 1 show ?thesis by (simp add: rounds_left_def t_def c_def)
qed

lemma poll_response_rounds:
  assumes "no_wrap attrs"
  shows "poll_response peer attrs len k waited st chn =
    Some (wait_for peer len (rounds_left attrs (unat waited)) k st chn)"
proof (induction "unat (timeout attrs) - unat waited" arbitrary: k waited st chn rule: less_induct)
  case less
  have c: "0 < unat (cadence attrs)" using assms by (simp add: no_wrap_def word_less_nat_alt)
  show ?case
  proof (cases "waited < timeout attrs")
    case False
    then have "unat (timeout attrs) \<le> unat waited" by (simp add: word_less_nat_alt)
    with False rounds_left_0 [OF c] show ?thesis by (subst poll_response.simps) simp
  next
    case True
    then have lt: "unat waited < unat (timeout attrs)" by (simp add: word_less_nat_alt)
    then have "unat waited + unat (cadence attrs) < 2 ^ 32" using assms by (simp add: no_wrap_def)
    then have add: "unat (waited + cadence attrs) = unat waited + unat (cadence attrs)"
      by (simp add: unat_word_ariths)
    have "unat (timeout attrs) - unat (waited + cadence attrs) < unat (timeout attrs) - unat waited"
      using lt c add by simp
    note IH = less.hyps [OF this]
    show ?thesis
      using True rounds_left_Suc [OF c lt] by (subst poll_response.simps) (simp add: IH add split: prod.split)
  qed
qed

text \<open>A channel on which nothing arrives.\<close>

definition silent :: "nat \<Rightarrow> ('c, 'cfg) channel_t \<Rightarrow> bool" where
  "silent len chn \<longleftrightarrow> chn_refresh (Some chn) = (CHN_SUCCESS, Some chn) \<and>
     chn_receive (Some chn) True len True = (CHN_NO_INCOMING_MSG, None, Some chn)"

lemma wait_for_silent:
  assumes "silent len chn" "\<forall>j \<ge> k. peer j chn = chn"
  shows "wait_for peer len n k st chn = (if n = 0 then st else CHN_NO_INCOMING_MSG, None, chn)"
  using assms
proof (induction n arbitrary: k st)
  case (Suc n)
  then show ?case using Suc.IH [of "Suc k" CHN_NO_INCOMING_MSG] by (simp add: silent_def)
qed simp

lemma silent_forever:
  fixes chn :: "('c, 'cfg) channel_t"
  assumes "silent len chn" "\<forall>j. of_nat j * cadence attrs < timeout attrs"
  shows "poll_response (\<lambda>_ c. c) attrs len k (of_nat k * cadence attrs) st chn = None"
proof (rule ccontr)
  define P where "P = (\<lambda>(peer :: nat \<Rightarrow> ('c, 'cfg) channel_t \<Rightarrow> ('c, 'cfg) channel_t) attrs' len' k waited (st :: channel_status_t) c
    (r :: channel_status_t \<times> byte list option \<times> ('c, 'cfg) channel_t).
    \<not> (peer = (\<lambda>_ c. c) \<and> attrs' = attrs \<and> len' = len \<and> waited = of_nat k * cadence attrs \<and> c = chn))"
  assume "\<not> ?thesis"
  then obtain r where "poll_response (\<lambda>_ c. c) attrs len k (of_nat k * cadence attrs) st chn = Some r" by auto
  then have "P (\<lambda>_ c. c) attrs len k (of_nat k * cadence attrs) st chn r"
  proof (rule poll_response.raw_induct [where P = P, rotated])
    fix poll peer attrs' len' k waited st c r
    assume IH: "\<And>peer attrs' len' k waited st c r. poll peer attrs' len' k waited st c = Some r \<Longrightarrow>
        P peer attrs' len' k waited st c r"
      and run: "(if waited < timeout attrs' then
        case chn_refresh (Some c) of (refresh_status, chn1) \<Rightarrow>
          if refresh_status \<noteq> CHN_SUCCESS then Some (refresh_status, None, the chn1)
          else case chn_receive chn1 True len' True of (receive_status, msg, chn2) \<Rightarrow>
            if receive_status = CHN_SUCCESS then Some (CHN_SUCCESS, msg, the chn2)
            else if receive_status \<noteq> CHN_NO_INCOMING_MSG then Some (receive_status, None, the chn2)
            else poll peer attrs' len' (k + 1) (waited + cadence attrs') receive_status (peer k (the chn2))
      else Some (st, None, c)) = Some r"
    show "P peer attrs' len' k waited st c r"
      unfolding P_def
    proof
      assume *: "peer = (\<lambda>_ c. c) \<and> attrs' = attrs \<and> len' = len \<and> waited = of_nat k * cadence attrs \<and> c = chn"
      have "of_nat k * cadence attrs < timeout attrs" using assms(2) by blast
      then have "poll peer attrs' len' (k + 1) (waited + cadence attrs) CHN_NO_INCOMING_MSG chn = Some r"
        using run assms(1) * by (simp add: silent_def)
      from IH [OF this] * show False by (simp add: P_def algebra_simps)
    qed
  qed
  then show False by (simp add: P_def)
qed

section \<open>Taking a response apart\<close>

definition reply_value :: "chrpc_status_t \<Rightarrow> byte list \<Rightarrow> chrpc_value_t" where
  "reply_value status bs =
     \<lparr>v_type = resp_type, v_value = IVStruct [IVNumber [status_code status], IVNumArr bs (of_nat (length bs))]\<rparr>"

lemma reply_value_ok:
  assumes "length bs < 2 ^ 32"
  shows "chrpc_value_from_buffer (reply_bytes status bs @ rest) =
      Some (Inr (reply_value status bs, length (reply_bytes status bs)), int (value_blocks (reply_value status bs)))"
    and "delete_chrpc_value (reply_value status bs) = Some (value_blocks (reply_value status bs))"
proof -
  let ?iv = "v_value (reply_value status bs)"
  have raw: "raw_wt resp_type ?iv" "terminated ?iv"
    using assms by (simp_all add: reply_value_def msg_types chrpc_blockable_type_cell_size_def)
  show "delete_chrpc_value (reply_value status bs) = Some (value_blocks (reply_value status bs))"
    by (rule delete_exact) (use raw in \<open>simp_all add: reply_value_def\<close>)
  have "reply_bytes status bs = type_enc resp_type @ raw_enc ?iv"
    by (simp add: reply_bytes_def reply_value_def)
  then show "chrpc_value_from_buffer (reply_bytes status bs @ rest) =
      Some (Inr (reply_value status bs, length (reply_bytes status bs)), int (value_blocks (reply_value status bs)))"
    using value_reads [OF wf_msg_types(1) raw(1), of rest] by (simp add: reply_value_def)
qed

text \<open>What is handed to the caller, who may not want it.\<close>

definition given_value :: "bool \<Rightarrow> chrpc_value_t option \<Rightarrow> chrpc_value_t option" where
  "given_value want ret = (if want then map_option received ret else None)"

definition opt_blocks :: "chrpc_value_t option \<Rightarrow> nat" where
  "opt_blocks v = (case v of None \<Rightarrow> 0 | Some v \<Rightarrow> value_blocks v)"

lemma received_deletes: "wf_value v \<Longrightarrow> delete_chrpc_value (received v) = Some (value_blocks (received v))"
  using trim_raw_wt(1) wt_terminated(1) by (intro delete_exact) (auto simp: received_def wf_value_def)

lemma read_error_response:
  assumes "status \<noteq> CHRPC_SUCCESS"
  shows "read_response want (reply_bytes status [] @ rest) = Some (status_code status, None, 0)"
proof -
  have "status_code status \<noteq> status_code CHRPC_SUCCESS" using assms by (cases status) simp_all
  with reply_value_ok(1) [of "[]" status rest] reply_value_ok(2) [of "[]" status] show ?thesis
    by (simp add: read_response_def reply_value_def equals_ok)
qed

lemma read_value_response:
  assumes "ret_ok ret"
  shows "read_response want (reply_bytes CHRPC_SUCCESS (ret_enc ret) @ rest) =
    Some (status_code CHRPC_SUCCESS, given_value want ret, int (opt_blocks (given_value want ret)))"
proof -
  have len: "length (ret_enc ret) < 2 ^ 32" using assms by (cases ret) (simp_all add: ret_ok_def ret_enc_def)
  note r = reply_value_ok(1) [OF len, of CHRPC_SUCCESS rest] reply_value_ok(2) [OF len, of CHRPC_SUCCESS]
  show ?thesis
  proof (cases ret)
    case None
    with r show ?thesis
      by (simp add: read_response_def reply_value_def equals_ok ret_enc_def given_value_def opt_blocks_def)
  next
    case (Some v)
    then have v: "wf_value v" "length (value_enc v) < 2 ^ 32" using assms by (simp_all add: ret_ok_def)
    let ?n = "of_nat (length (value_enc v)) :: u32"
    have n: "unat ?n = length (value_enc v)" using v(2) by simp
    moreover have "0 < length (value_enc v)" by (simp add: value_enc_def)
    ultimately have nz: "?n \<noteq> 0" by (metis unat_0 less_irrefl)
    have "block_bytes (value_enc v) (unat ?n) = Some (value_enc v)" unfolding n by (simp add: block_bytes_def)
    with r received_reads [OF v(1), of "[]"] received_deletes [OF v(1)] nz Some show ?thesis
      by (simp add: read_response_def reply_value_def equals_ok ret_enc_def given_value_def opt_blocks_def)
  qed
qed

section \<open>The ends of a two-way local channel\<close>

abbreviation chn_end :: "bool \<Rightarrow> channel_local2_core_t \<Rightarrow> (channel_local2_core_t, channel_local2_core_t) channel_t" where
  "chn_end d core \<equiv> \<lparr>ch_channel = core, ch_impl = CHANNEL_LOCAL2_IMPL d\<rparr>"

lemma end_refresh: "chn_refresh (Some (chn_end d core)) = (CHN_SUCCESS, Some (chn_end d core))"
  by (simp add: chn_refresh_def CHANNEL_LOCAL2_IMPL_def chn_l2_refresh_def chn_l_refresh_def)

lemma end_send:
  assumes "core_inv core" and spec: "chan_spec_step (l_cfg (a2b core)) (Send d msg) (chan_abs core) = ((status, None), qs)"
  shows "\<exists>core'. chn_send (Some (chn_end d core)) (Some msg) = (status, Some (chn_end d core')) \<and> core_inv core' \<and>
    l_cfg (a2b core') = l_cfg (a2b core) \<and> chan_abs core' = qs"
proof -
  from chan_step_refines [OF assms(1), of "Send d msg"] spec obtain core' where
    "chan_step (Send d msg) core = ((status, None), core')" "core_inv core'"
    "l_cfg (a2b core') = l_cfg (a2b core)" "chan_abs core' = qs" by fastforce
  then show ?thesis by (auto simp: chn_send_def CHANNEL_LOCAL2_IMPL_def split: prod.splits)
qed

lemma end_receive:
  assumes "core_inv core" and spec: "chan_spec_step (l_cfg (a2b core)) (Receive d len) (chan_abs core) = ((status, out), qs)"
  shows "\<exists>core'. chn_receive (Some (chn_end d core)) True len True = (status, out, Some (chn_end d core')) \<and>
    core_inv core' \<and> l_cfg (a2b core') = l_cfg (a2b core) \<and> chan_abs core' = qs"
proof -
  from chan_step_refines [OF assms(1), of "Receive d len"] spec obtain core' where
    "chan_step (Receive d len) core = ((status, out), core')" "core_inv core'"
    "l_cfg (a2b core') = l_cfg (a2b core)" "chan_abs core' = qs" by fastforce
  then show ?thesis by (auto simp: chn_receive_def CHANNEL_LOCAL2_IMPL_def split: prod.splits)
qed

lemma end_silent: "core_inv core \<Longrightarrow> local_msgs (outgoing (\<not> d) core) = [] \<Longrightarrow> silent len (chn_end d core)"
  using local2.receive_nil [of core d len] local2.len_nil [of core d]
  unfolding silent_def end_refresh
  by (auto simp: chn_receive_def CHANNEL_LOCAL2_IMPL_def chn_l2_incoming_len_def
      chn_l_incoming_len_def peek_len_def outgoing_def split: if_splits)

section \<open>A call over a local channel\<close>

text \<open>
  What a call means: the status and the return value of the response, \<open>None\<close> when the server sends
  none, and the server's new state.  \<open>mms\<close> is the largest message the channel takes.
\<close>

definition call_result ::
    "'st chrpc_endpoint_t list \<Rightarrow> nat \<Rightarrow> byte list \<Rightarrow> chrpc_value_t list \<Rightarrow> channel_id_t \<Rightarrow> 'st \<Rightarrow>
     (chrpc_status_t \<times> chrpc_value_t option) option \<times> 'st" where
  "call_result eps mms name args chn_id st =
     (case find (\<lambda>ep. Some (ep_name ep) = string_chars name) eps of
        None \<Rightarrow> (Some (CHRPC_UKNOWN_ENDPOINT, None), st)
      | Some ep \<Rightarrow>
          if ep_args ep \<noteq> map v_type args then (Some (CHRPC_ARGUMENT_MISMATCH, None), st)
          else case ep_func ep chn_id st (map received args) of (cmd, ret, st') \<Rightarrow>
            (if map_option v_type ret \<noteq> ep_ret ep then None
             else if mms < length (reply_bytes CHRPC_SUCCESS (ret_enc ret)) then Some (CHRPC_BUFFER_TOO_SMALL, None)
             else Some (CHRPC_SUCCESS, ret), st'))"

fun response_bytes :: "chrpc_status_t \<times> chrpc_value_t option \<Rightarrow> byte list" where
  "response_bytes (status, ret) = reply_bytes status (if status = CHRPC_SUCCESS then ret_enc ret else [])"

lemma error_reply_end:
  assumes "core_inv core" "chan_abs core = ([], [])" "l_cfg (a2b core) = cfg" "0 < queue_depth cfg" "10 \<le> max_msg_size cfg"
  shows "\<exists>core'. error_reply err (chn_end False core) st = (CHRPC_SUCCESS, chn_end False core', st) \<and>
    core_inv core' \<and> l_cfg (a2b core') = cfg \<and> chan_abs core' = ([], [reply_bytes err []])"
proof -
  have "chan_spec_step (l_cfg (a2b core)) (Send False (reply_bytes err [])) (chan_abs core) =
      ((CHN_SUCCESS, None), ([], [reply_bytes err []]))"
    using assms by (auto simp: fifo_send_def simp flip: length_0_conv)
  from end_send [OF assms(1) this] assms(3) show ?thesis by (auto simp: error_reply_def send_bytes_def)
qed

lemma serve_endpoint_end:
  assumes core: "core_inv core" "chan_abs core = ([], [])" "l_cfg (a2b core) = cfg" "0 < queue_depth cfg"
      "10 \<le> max_msg_size cfg"
    and "max_msg_size cfg \<le> mms" and call: "ep_func ep chn_id st args = (cmd, ret, st')"
  shows "\<exists>status core'. serve_endpoint mms ep args chn_id (chn_end False core) st = (status, chn_end False core', st') \<and>
    core_inv core' \<and> l_cfg (a2b core') = cfg \<and>
    chan_abs core' = ([],
      if map_option v_type ret \<noteq> ep_ret ep then []
      else if max_msg_size cfg < length (reply_bytes CHRPC_SUCCESS (ret_enc ret)) then [reply_bytes CHRPC_BUFFER_TOO_SMALL []]
      else [reply_bytes CHRPC_SUCCESS (ret_enc ret)])"
proof -
  let ?bs = "reply_bytes CHRPC_SUCCESS (ret_enc ret)"
  have ne: "?bs \<noteq> []" by (simp flip: length_0_conv)
  note err = error_reply_end [OF core, of CHRPC_BUFFER_TOO_SMALL st']
  consider "map_option v_type ret \<noteq> ep_ret ep"
    | "map_option v_type ret = ep_ret ep" "mms < length ?bs"
    | "map_option v_type ret = ep_ret ep" "\<not> mms < length ?bs" "max_msg_size cfg < length ?bs"
    | "map_option v_type ret = ep_ret ep" "\<not> mms < length ?bs" "\<not> max_msg_size cfg < length ?bs" by blast
  then show ?thesis
  proof cases
    case 1
    with core show ?thesis by (simp add: serve_endpoint_def call)
  next
    case 2
    with err assms(6) show ?thesis by (auto simp: serve_endpoint_def call Let_def simp del: length_reply_bytes)
  next
    case 3
    then have "chan_spec_step (l_cfg (a2b core)) (Send False ?bs) (chan_abs core) = ((CHN_INVALID_MSG_SIZE, None), ([], []))"
      using core by (simp add: fifo_send_def del: length_reply_bytes)
    from end_send [OF core(1) this] obtain core1 where c1: "chn_send (Some (chn_end False core)) (Some ?bs) =
        (CHN_INVALID_MSG_SIZE, Some (chn_end False core1))" "core_inv core1" "l_cfg (a2b core1) = cfg" "chan_abs core1 = ([], [])"
      using core(3) by auto
    from error_reply_end [OF c1(2,4,3) core(4,5), of CHRPC_BUFFER_TOO_SMALL st'] 3 c1(1)
    show ?thesis by (auto simp: serve_endpoint_def call Let_def send_bytes_def simp del: length_reply_bytes)
  next
    case 4
    then have "chan_spec_step (l_cfg (a2b core)) (Send False ?bs) (chan_abs core) = ((CHN_SUCCESS, None), ([], [?bs]))"
      using core ne by (simp add: fifo_send_def del: length_reply_bytes)
    from end_send [OF core(1) this] obtain core1 where c1: "chn_send (Some (chn_end False core)) (Some ?bs) =
        (CHN_SUCCESS, Some (chn_end False core1))" "core_inv core1" "l_cfg (a2b core1) = cfg" "chan_abs core1 = ([], [?bs])"
      using core(3) by auto
    with 4 show ?thesis by (auto simp: serve_endpoint_def call Let_def send_bytes_def simp del: length_reply_bytes)
  qed
qed

lemma serve_request_end:
  assumes "is_cstr name" "args_ok args"
    and core: "core_inv core" "chan_abs core = ([], [])" "l_cfg (a2b core) = cfg" "0 < queue_depth cfg"
      "10 \<le> max_msg_size cfg" "max_msg_size cfg \<le> mms"
    and "call_result eps (max_msg_size cfg) name args chn_id st = (res, st')"
  shows "\<exists>status core'. serve_message eps mms (request_bytes name args) chn_id (chn_end False core) st =
      (status, chn_end False core', st') \<and> core_inv core' \<and> l_cfg (a2b core') = cfg \<and>
    chan_abs core' = ([], case res of None \<Rightarrow> [] | Some r \<Rightarrow> [response_bytes r])"
proof (cases "find (\<lambda>ep. Some (ep_name ep) = string_chars name) eps")
  case None
  with error_reply_end [OF core(1-5), of CHRPC_UKNOWN_ENDPOINT st] assms(9) show ?thesis
    by (auto simp: serve_message_request [OF assms(1,2)] call_result_def)
next
  case (Some ep)
  show ?thesis
  proof (cases "ep_args ep = map v_type args")
    case False
    with Some error_reply_end [OF core(1-5), of CHRPC_ARGUMENT_MISMATCH st] assms(9) show ?thesis
      by (auto simp: serve_message_request [OF assms(1,2)] call_result_def)
  next
    case True
    obtain cmd ret st1 where call: "ep_func ep chn_id st (map received args) = (cmd, ret, st1)" by (metis surj_pair)
    from serve_endpoint_end [OF core(1-6) call] True Some assms(9) call show ?thesis
      by (auto simp: serve_message_request [OF assms(1,2)] call_result_def simp del: length_reply_bytes)
  qed
qed

lemma read_call_response:
  assumes "eps_ok_at st eps" "call_result eps mms name args chn_id st = (Some (status, ret), st')"
  shows "read_response want (response_bytes (status, ret) @ rest) =
    Some (status_code status, given_value want ret, int (opt_blocks (given_value want ret)))"
proof -
  have "status = CHRPC_SUCCESS \<and> ret_ok ret \<or> status \<noteq> CHRPC_SUCCESS \<and> ret = None"
  proof (cases "find (\<lambda>ep. Some (ep_name ep) = string_chars name) eps")
    case (Some ep)
    then have "ep \<in> set eps" by (auto simp: find_Some_iff)
    with assms(1) have "ret_ok (fst (snd (ep_func ep chn_id st (map received args))))" by (simp add: eps_ok_at_def)
    with Some assms(2) show ?thesis by (auto simp: call_result_def split: if_splits prod.splits)
  qed (use assms(2) in \<open>simp add: call_result_def\<close>)
  with read_value_response read_error_response [of status want rest] show ?thesis
    by (auto simp: given_value_def opt_blocks_def)
qed

lemma response_fits:
  assumes "call_result eps mms name args chn_id st = (Some r, st')" "10 \<le> mms"
  shows "length (response_bytes r) \<le> mms"
  using assms by (cases r) (auto simp: call_result_def split: option.splits if_splits prod.splits)

text \<open>The worker polls the other end of the client's channel while the client sleeps for the first time.\<close>

definition worker_poll ::
    "'st chrpc_endpoint_set_t \<Rightarrow> channel_id_t \<Rightarrow> 'st \<Rightarrow> byte list \<Rightarrow> channel_local2_core_t \<Rightarrow>
     (chrpc_status_t \<times> (channel_local2_core_t, channel_local2_core_t, 'st) conn) option" where
  "worker_poll ep_set chn_id st buf core =
     chrpc_poll_channel ep_set chn_id \<lparr>cn_chn = chn_end False core, cn_state = st, cn_buf = buf, cn_live = 0\<rparr>"

definition worker_peer ::
    "'st chrpc_endpoint_set_t \<Rightarrow> channel_id_t \<Rightarrow> 'st \<Rightarrow> byte list \<Rightarrow> nat \<Rightarrow>
     (channel_local2_core_t, channel_local2_core_t) channel_t \<Rightarrow>
     (channel_local2_core_t, channel_local2_core_t) channel_t" where
  "worker_peer ep_set chn_id st buf k chn =
     (if k \<noteq> 0 then chn
      else case worker_poll ep_set chn_id st buf (ch_channel chn) of
             None \<Rightarrow> chn
           | Some (status, cn') \<Rightarrow> chn\<lparr>ch_channel := ch_channel (cn_chn cn')\<rparr>)"

text \<open>The worker takes the request and leaves the response.\<close>

lemma worker_poll_request:
  assumes s: "set_inv ep_set" "endpoints ep_set = eps" "eps_ok_at st eps" and req: "is_cstr name" "args_ok args"
    and core: "core_inv core" "chan_abs core = ([request_bytes name args], [])" "l_cfg (a2b core) = cfg"
      "0 < queue_depth cfg" "length (request_bytes name args) \<le> max_msg_size cfg"
      "CHRPC_SERVER_BUF_MIN_SIZE \<le> max_msg_size cfg" "max_msg_size cfg \<le> length buf"
    and "call_result eps (max_msg_size cfg) name args chn_id st = (res, st')"
  shows "\<exists>status core' b. worker_poll ep_set chn_id st buf core =
      Some (status, \<lparr>cn_chn = chn_end False core', cn_state = st', cn_buf = b, cn_live = 0\<rparr>) \<and> core_inv core' \<and>
    l_cfg (a2b core') = cfg \<and> chan_abs core' = ([], case res of None \<Rightarrow> [] | Some r \<Rightarrow> [response_bytes r])"
proof -
  let ?m = "request_bytes name args"
  let ?cn = "\<lparr>cn_chn = chn_end False core, cn_state = st, cn_buf = buf, cn_live = 0\<rparr>"
  have "chan_spec_step (l_cfg (a2b core)) (Receive False (length buf)) (chan_abs core) = ((CHN_SUCCESS, Some ?m), ([], []))"
    using core by simp
  from end_receive [OF core(1) this] core(3) obtain c2 where
    c2: "chn_receive (Some (chn_end False core)) True (length buf) True = (CHN_SUCCESS, Some ?m, Some (chn_end False c2))"
      "core_inv c2" "l_cfg (a2b c2) = cfg" "chan_abs c2 = ([], [])" by auto
  have "10 \<le> max_msg_size cfg" using core(6) by (simp add: CHRPC_SERVER_BUF_MIN_SIZE_def)
  from serve_request_end [OF req c2(2,4,3) core(4) this core(7) assms(13)] obtain status core' where
    r: "serve_message eps (length buf) ?m chn_id (chn_end False c2) st = (status, chn_end False core', st')"
      "core_inv core'" "l_cfg (a2b core') = cfg" "chan_abs core' = ([], case res of None \<Rightarrow> [] | Some r \<Rightarrow> [response_bytes r])"
    by blast
  have "outcome (chrpc_poll_channel ep_set chn_id ?cn) ?cn (serve_message eps (length buf) ?m chn_id (chn_end False c2) st)"
    using poll_message_ok [of ep_set ?cn "chn_end False core" ?m "chn_end False c2" chn_id] s core c2(1)
      request_safe [OF req] end_refresh [of core False] by simp
  then show ?thesis using r by (auto simp: worker_poll_def elim!: outcomeE)
qed

lemma pipe_ends:
  assumes "new_channel_local2_pipe fails1 fails2 (Some cfg) = (CHN_SUCCESS, Some (core, a, b))"
  shows "a = chn_end True core" "b = chn_end False core" "core_inv core" "chan_abs core = ([], [])"
    "l_cfg (a2b core) = cfg" "0 < queue_depth cfg"
proof -
  from assms show "a = chn_end True core" "b = chn_end False core" "0 < queue_depth cfg"
    by (auto simp: new_channel_local2_pipe_def new_channel_local2_core_def new_channel_local_def new_channel_def
        CHANNEL_LOCAL2_IMPL_def split: prod.splits if_splits)
  then obtain x y where "new_channel_local fails1 (Some cfg) = (CHN_SUCCESS, Some x)"
    "new_channel_local fails2 (Some cfg) = (CHN_SUCCESS, Some y)" "core = \<lparr>a2b = x, b2a = y\<rparr>"
    using assms new_channel_local_status [of fails1 "Some cfg"] new_channel_local_status [of fails2 "Some cfg"]
    by (auto simp: new_channel_local2_pipe_def new_channel_local2_core_def new_channel_def CHANNEL_LOCAL2_IMPL_def
        split: prod.splits if_splits)
  with new_channel_local_ok [of fails1 "Some cfg" x] new_channel_local_ok [of fails2 "Some cfg" y]
  show "core_inv core" "chan_abs core = ([], [])" "l_cfg (a2b core) = cfg" by (simp_all add: core_inv_def chan_abs_def)
qed

lemma new_client_end:
  assumes "new_chrpc_client (Some (chn_end True core)) attrs = (CHRPC_SUCCESS, Some client)"
  shows "cl_chn client = Some (chn_end True core)" "cl_attrs client = attrs"
    "length (cl_buf client) = max_msg_size (l_cfg (a2b core))" "0 < cadence attrs"
  using assms by (auto simp: new_chrpc_client_def chn_max_msg_size_def CHANNEL_LOCAL2_IMPL_def chn_l2_max_msg_size_def
      chn_l_max_msg_size_def word_neq_0_conv split: if_splits)

lemma new_local_client_ok:
  assumes "new_chrpc_local_client fails1 fails2 now server (Some cfg) attrs = (CHRPC_SUCCESS, server', Some (core, client))"
  shows "core_inv core" "chan_abs core = ([], [])" "l_cfg (a2b core) = cfg" "0 < queue_depth cfg"
    "cl_chn client = Some (chn_end True core)" "cl_attrs client = attrs"
    "length (cl_buf client) = max_msg_size cfg" "0 < cadence attrs"
    "CHRPC_SERVER_BUF_MIN_SIZE \<le> max_msg_size cfg" "max_msg_size cfg \<le> sa_max_msg_size (sv_attrs server)"
proof -
  from assms obtain a b where pipe: "new_channel_local2_pipe fails1 fails2 (Some cfg) = (CHN_SUCCESS, Some (core, a, b))"
    and cl: "new_chrpc_client (Some a) attrs = (CHRPC_SUCCESS, Some client)"
    and give: "chrpc_server_give_channel server (Some b) now = (CHRPC_SUCCESS, server')"
    by (auto simp: new_chrpc_local_client_def new_chrpc_client_def
        split: prod.splits channel_status_t.splits option.splits if_splits)
  note p = pipe_ends [OF pipe]
  show "core_inv core" "chan_abs core = ([], [])" "l_cfg (a2b core) = cfg" "0 < queue_depth cfg" by (fact p)+
  from new_client_end [OF cl [unfolded p(1)]] p(5)
  show "cl_chn client = Some (chn_end True core)" "cl_attrs client = attrs"
    "length (cl_buf client) = max_msg_size cfg" "0 < cadence attrs" by simp_all
  from give p(2,5) show "CHRPC_SERVER_BUF_MIN_SIZE \<le> max_msg_size cfg" "max_msg_size cfg \<le> sa_max_msg_size (sv_attrs server)"
    by (auto simp: chrpc_server_give_channel_def chn_max_msg_size_def CHANNEL_LOCAL2_IMPL_def chn_l2_max_msg_size_def
        chn_l_max_msg_size_def split: if_splits)
qed

text \<open>The request goes out; what comes back is what \<open>wait_for\<close> finds.\<close>

lemma client_sends:
  assumes "cl_chn client = Some (chn_end True core)" "no_wrap (cl_attrs client)"
    and core: "core_inv core" "chan_abs core = ([], [])" "l_cfg (a2b core) = cfg" "0 < queue_depth cfg"
    and req: "is_cstr name" "args_ok args" "length args < 256"
    and len: "length (request_bytes name args) \<le> max_msg_size cfg" "length (cl_buf client) = max_msg_size cfg"
  obtains core1 b where "core_inv core1" "chan_abs core1 = ([request_bytes name args], [])" "l_cfg (a2b core1) = cfg"
    "chn_l2_send True core (request_bytes name args) = (CHN_SUCCESS, core1)" "length b = max_msg_size cfg"
    "chrpc_client_send_request peer client name want args =
      (case wait_for peer (max_msg_size cfg) (rounds_left (cl_attrs client) 0) 0 CHN_SUCCESS (chn_end True core1) of
         (st, None, chn) \<Rightarrow>
           Some (status_code (if st = CHN_NO_INCOMING_MSG then CHRPC_DISCONNECT else CHRPC_CLIENT_CHANNEL_ERROR),
             None, client\<lparr>cl_buf := b, cl_chn := None\<rparr>, 0)
       | (st, Some m, chn) \<Rightarrow> do {
           (status, ret_val, live) \<leftarrow> read_response want (m @ drop (length m) b);
           Some (status, ret_val, client\<lparr>cl_buf := m @ drop (length m) b, cl_chn := Some chn\<rparr>, live) })"
proof -
  let ?m = "request_bytes name args"
  let ?b = "?m @ drop (length ?m) (cl_buf client)"
  have "?m \<noteq> []" by (simp add: request_bytes_def)
  then have "chan_spec_step (l_cfg (a2b core)) (Send True ?m) (chan_abs core) = ((CHN_SUCCESS, None), ([?m], []))"
    using core len(1) by (simp add: fifo_send_def)
  from end_send [OF core(1) this] core(3) obtain core1 where
    c1: "chn_send (Some (chn_end True core)) (Some ?m) = (CHN_SUCCESS, Some (chn_end True core1))"
      "core_inv core1" "l_cfg (a2b core1) = cfg" "chan_abs core1 = ([?m], [])" by auto
  have w: "write_request name args (cl_buf client) = Some (CHRPC_SUCCESS, Some (length ?m), ?b)"
    using write_request_ok [OF req, of "cl_buf client"] len by (simp add: writes_def)
  have b: "length ?b = max_msg_size cfg" using len by simp
  have send: "chn_l2_send True core ?m = (CHN_SUCCESS, core1)"
    using c1(1) by (auto simp: chn_send_def CHANNEL_LOCAL2_IMPL_def split: prod.splits)
  have "chrpc_client_send_request peer client name want args =
      (case wait_for peer (max_msg_size cfg) (rounds_left (cl_attrs client) 0) 0 CHN_SUCCESS (chn_end True core1) of
         (st, None, chn) \<Rightarrow>
           Some (status_code (if st = CHN_NO_INCOMING_MSG then CHRPC_DISCONNECT else CHRPC_CLIENT_CHANNEL_ERROR),
             None, client\<lparr>cl_buf := ?b, cl_chn := None\<rparr>, 0)
       | (st, Some m, chn) \<Rightarrow> do {
           (status, ret_val, live) \<leftarrow> read_response want (m @ drop (length m) ?b);
           Some (status, ret_val, client\<lparr>cl_buf := m @ drop (length m) ?b, cl_chn := Some chn\<rparr>, live) })"
    using assms(1) w c1(1) poll_response_rounds [OF assms(2), of peer "max_msg_size cfg" 0 0 CHN_SUCCESS "chn_end True core1"] b
    by (cases "wait_for peer (max_msg_size cfg) (rounds_left (cl_attrs client) 0) 0 CHN_SUCCESS (chn_end True core1)")
      (simp add: chrpc_client_send_request_def Let_def split: option.split)
  with that c1(2-4) send b show thesis by blast
qed

section \<open>Properties\<close>

text \<open>C39. Unless \<open>time_waited\<close> can wrap around, the client's wait returns: it polls the channel at most
  \<open>timeout / cadence\<close> times, rounded up, for any behaviour of the other end, and what it returns is
  what that many polls find.\<close>

theorem client_wait_returns:
  assumes "0 < cadence attrs" "unat (timeout attrs) + unat (cadence attrs) \<le> 2 ^ 32"
  shows "poll_response peer attrs len 0 0 st chn =
    Some (wait_for peer len ((unat (timeout attrs) + unat (cadence attrs) - 1) div unat (cadence attrs)) 0 st chn)"
  using poll_response_rounds [of attrs peer len 0 0 st chn] assms by (simp add: no_wrap_def rounds_left_def)

theorem client_wait_returns_witness:
  "\<exists>core :: channel_local2_core_t. \<forall>peer. (\<forall>k chn. peer k chn = chn) \<longrightarrow>
     poll_response peer CHRPC_DEFAULT_CLIENT_ATTRS 128 0 0 CHN_SUCCESS (chn_end True core) =
       Some (CHN_NO_INCOMING_MSG, None, chn_end True core)"
proof -
  let ?cfg = "\<lparr>queue_depth = 1, write_over = False, max_msg_size = 128\<rparr>"
  obtain core a b where "new_channel_local2_pipe False False (Some ?cfg) = (CHN_SUCCESS, Some (core, a, b))"
    by (simp add: new_channel_local2_pipe_def new_channel_local2_core_def new_channel_local_def
        new_queue_def new_channel_def CHANNEL_LOCAL2_IMPL_def)
  from pipe_ends [OF this] have "silent 128 (chn_end True core)"
    by (intro end_silent) (simp_all add: chan_abs_def outgoing_def)
  from wait_for_silent [OF this] have "poll_response peer CHRPC_DEFAULT_CLIENT_ATTRS 128 0 0 CHN_SUCCESS (chn_end True core) =
       Some (CHN_NO_INCOMING_MSG, None, chn_end True core)" if "\<forall>k chn. peer k chn = chn" for peer
    using that client_wait_returns [of CHRPC_DEFAULT_CLIENT_ATTRS peer 128 CHN_SUCCESS "chn_end True core"]
    by (simp add: CHRPC_DEFAULT_CLIENT_ATTRS_def)
  then show ?thesis by blast
qed

text \<open>C40. When no multiple of the cadence modulo $2^{32}$ reaches the timeout, a client whose server is silent
  waits forever.\<close>

theorem client_wait_diverges:
  assumes "chn_refresh (Some chn) = (CHN_SUCCESS, Some chn)"
    and "chn_receive (Some chn) True len True = (CHN_NO_INCOMING_MSG, None, Some chn)"
    and "\<forall>j. of_nat j * cadence attrs < timeout attrs"
  shows "poll_response (\<lambda>k chn. chn) attrs len 0 0 st chn = None"
  using silent_forever [of len chn attrs 0 st] assms by (simp add: silent_def)

lemma half_range_multiples: "of_nat j * (0x80000000 :: u32) < 0xFFFFFFFF"
proof -
  have "of_nat j * (0x80000000 :: u32) \<in> {0, 0x80000000}"
  proof (induction j)
    case (Suc j)
    have "of_nat (Suc j) * (0x80000000 :: u32) = of_nat j * 0x80000000 + 0x80000000" by (simp add: distrib_right)
    moreover have "(0x80000000 :: u32) + 0x80000000 = 0" by (simp only: numeral_plus_numeral) simp
    ultimately show ?case using Suc.IH by auto
  qed simp
  then show ?thesis by auto
qed

theorem client_wait_diverges_witness:
  "\<exists>core :: channel_local2_core_t. poll_response (\<lambda>k chn. chn) \<lparr>cadence = 0x80000000, timeout = 0xFFFFFFFF\<rparr> 128 0 0
     CHN_SUCCESS (chn_end True core) = None"
proof -
  let ?cfg = "\<lparr>queue_depth = 1, write_over = False, max_msg_size = 128\<rparr>"
  obtain core a b where "new_channel_local2_pipe False False (Some ?cfg) = (CHN_SUCCESS, Some (core, a, b))"
    by (simp add: new_channel_local2_pipe_def new_channel_local2_core_def new_channel_local_def
        new_queue_def new_channel_def CHANNEL_LOCAL2_IMPL_def)
  from pipe_ends [OF this] have "silent 128 (chn_end True core)"
    by (intro end_silent) (simp_all add: chan_abs_def outgoing_def)
  with client_wait_diverges [of "chn_end True core" 128 "\<lparr>cadence = 0x80000000, timeout = 0xFFFFFFFF\<rparr>" CHN_SUCCESS]
    half_range_multiples show ?thesis by (intro exI [of _ core]) (simp add: silent_def)
qed

text \<open>
  A client ready for a call over an empty local channel.  The call, under the contract of the endpoints
  in the state the server is in, leaves it ready for the next one if the server responds.
\<close>

definition client_ready ::
    "channel_local_config_t \<Rightarrow> (channel_local2_core_t, channel_local2_core_t) chrpc_client_t \<Rightarrow>
     channel_local2_core_t \<Rightarrow> bool" where [inv_defs]:
  "client_ready cfg client core \<longleftrightarrow>
     cl_chn client = Some (chn_end True core) \<and> core_inv core \<and> chan_abs core = ([], []) \<and> l_cfg (a2b core) = cfg \<and>
     0 < queue_depth cfg \<and> CHRPC_SERVER_BUF_MIN_SIZE \<le> max_msg_size cfg \<and> length (cl_buf client) = max_msg_size cfg \<and>
     no_wrap (cl_attrs client) \<and> cadence (cl_attrs client) < timeout (cl_attrs client)"

lemma remote_call_step:
  assumes ready: "client_ready cfg client core"
    and s: "set_inv ep_set" "endpoints ep_set = eps" "eps_ok_at st eps"
    and req: "is_cstr name" "args_ok args" "length args < 256" "length (request_bytes name args) \<le> max_msg_size cfg"
    and buf: "max_msg_size cfg \<le> length buf"
    and spec: "call_result eps (max_msg_size cfg) name args chn_id st = (res, st')"
  shows "\<exists>client' core1 status cn'.
    chrpc_client_send_request (worker_peer ep_set chn_id st buf) client name want args =
      (case res of
         None \<Rightarrow> Some (status_code CHRPC_DISCONNECT, None, client', 0)
       | Some (rpc_status, ret) \<Rightarrow>
           Some (status_code rpc_status, given_value want ret, client', int (opt_blocks (given_value want ret)))) \<and>
    (if res = None then cl_chn client' = None else \<exists>core'. client_ready cfg client' core') \<and>
    chn_l2_send True core (request_bytes name args) = (CHN_SUCCESS, core1) \<and>
    worker_poll ep_set chn_id st buf core1 = Some (status, cn') \<and> cn_state cn' = st' \<and> cn_live cn' = 0"
proof -
  let ?mms = "max_msg_size cfg" and ?peer = "worker_peer ep_set chn_id st buf"
  from ready have cl: "cl_chn client = Some (chn_end True core)" "core_inv core" "chan_abs core = ([], [])"
      "l_cfg (a2b core) = cfg" "0 < queue_depth cfg" "CHRPC_SERVER_BUF_MIN_SIZE \<le> max_msg_size cfg"
      "length (cl_buf client) = max_msg_size cfg" "cadence (cl_attrs client) < timeout (cl_attrs client)"
    and wrap: "no_wrap (cl_attrs client)" by (simp_all add: client_ready_def)
  obtain core1 b1 where c1: "core_inv core1" "chan_abs core1 = ([request_bytes name args], [])" "l_cfg (a2b core1) = cfg"
    and sent: "chn_l2_send True core (request_bytes name args) = (CHN_SUCCESS, core1)" and b1: "length b1 = ?mms"
    and run: "chrpc_client_send_request ?peer client name want args =
      (case wait_for ?peer ?mms (rounds_left (cl_attrs client) 0) 0 CHN_SUCCESS (chn_end True core1) of
         (st, None, chn) \<Rightarrow>
           Some (status_code (if st = CHN_NO_INCOMING_MSG then CHRPC_DISCONNECT else CHRPC_CLIENT_CHANNEL_ERROR),
             None, client\<lparr>cl_buf := b1, cl_chn := None\<rparr>, 0)
       | (st, Some m, chn) \<Rightarrow> do {
           (status, ret_val, live) \<leftarrow> read_response want (m @ drop (length m) b1);
           Some (status, ret_val, client\<lparr>cl_buf := m @ drop (length m) b1, cl_chn := Some chn\<rparr>, live) })"
    by (rule client_sends [OF cl(1) wrap cl(2-5) req cl(7)])
  from worker_poll_request [OF s req(1,2) c1 cl(5) req(4) cl(6) buf spec] obtain status core2 b2 where
    poll: "worker_poll ep_set chn_id st buf core1 =
        Some (status, \<lparr>cn_chn = chn_end False core2, cn_state = st', cn_buf = b2, cn_live = 0\<rparr>)"
      and c2: "core_inv core2" "l_cfg (a2b core2) = cfg" "chan_abs core2 = ([], case res of None \<Rightarrow> [] | Some r \<Rightarrow> [response_bytes r])"
    by blast
  have rounds: "\<exists>n. rounds_left (cl_attrs client) 0 = Suc (Suc n)"
    using rounds_left_Suc [of "cl_attrs client" 0] rounds_left_Suc [of "cl_attrs client" "unat (cadence (cl_attrs client))"]
      cl(8) wrap by (simp add: word_less_nat_alt no_wrap_def)
  then obtain n where n: "rounds_left (cl_attrs client) 0 = Suc (Suc n)" ..
  have "silent ?mms (chn_end True core1)" by (rule end_silent [OF c1(1)]) (use c1(2) in \<open>simp add: chan_abs_def outgoing_def\<close>)
  then have wait: "wait_for ?peer ?mms (rounds_left (cl_attrs client) 0) 0 CHN_SUCCESS (chn_end True core1) =
      wait_for ?peer ?mms (Suc n) 1 CHN_NO_INCOMING_MSG (chn_end True core2)"
    unfolding n by (simp add: silent_def worker_peer_def poll del: wait_for.simps(2) add: wait_for.simps(2) [of _ _ "Suc n"])
  show ?thesis
  proof (cases res)
    case None
    have "silent ?mms (chn_end True core2)"
      by (rule end_silent [OF c2(1)]) (use c2(3) None in \<open>simp add: chan_abs_def outgoing_def\<close>)
    from wait_for_silent [OF this, of 1 ?peer "Suc n" CHN_NO_INCOMING_MSG]
    have "wait_for ?peer ?mms (Suc n) 1 CHN_NO_INCOMING_MSG (chn_end True core2) = (CHN_NO_INCOMING_MSG, None, chn_end True core2)"
      by (simp add: worker_peer_def)
    then show ?thesis using run wait sent poll None
      by (intro exI [of _ "client\<lparr>cl_buf := b1, cl_chn := None\<rparr>"] exI [of _ core1] exI [of _ status]
          exI [of _ "\<lparr>cn_chn = chn_end False core2, cn_state = st', cn_buf = b2, cn_live = 0\<rparr>"]) simp
  next
    case (Some r)
    obtain rs ret where r: "r = (rs, ret)" by (cases r)
    let ?m = "response_bytes r"
    have "length ?m \<le> ?mms"
      using response_fits [OF spec [unfolded Some]] cl(6) by (simp add: CHRPC_SERVER_BUF_MIN_SIZE_def)
    then have "chan_spec_step (l_cfg (a2b core2)) (Receive True ?mms) (chan_abs core2) = ((CHN_SUCCESS, Some ?m), ([], []))"
      using c2(3) Some by simp
    from end_receive [OF c2(1) this] obtain core3 where
      c3: "chn_receive (Some (chn_end True core2)) True ?mms True = (CHN_SUCCESS, Some ?m, Some (chn_end True core3))"
        "core_inv core3" "l_cfg (a2b core3) = l_cfg (a2b core2)" "chan_abs core3 = ([], [])" by blast
    then have "wait_for ?peer ?mms (Suc n) 1 CHN_NO_INCOMING_MSG (chn_end True core2) = (CHN_SUCCESS, Some ?m, chn_end True core3)"
      by (simp add: end_refresh)
    with run wait read_call_response [OF s(3) spec [unfolded Some r], of want "drop (length ?m) b1"]
    have "chrpc_client_send_request ?peer client name want args =
        Some (status_code rs, given_value want ret, client\<lparr>cl_buf := ?m @ drop (length ?m) b1, cl_chn := Some (chn_end True core3)\<rparr>,
          int (opt_blocks (given_value want ret)))"
      by (simp add: r del: response_bytes.simps)
    moreover have "client_ready cfg (client\<lparr>cl_buf := ?m @ drop (length ?m) b1, cl_chn := Some (chn_end True core3)\<rparr>) core3"
      using c2(2) c3 cl wrap \<open>length ?m \<le> ?mms\<close> b1 by (simp add: client_ready_def del: response_bytes.simps)
    ultimately show ?thesis using sent poll Some r
      by (intro exI [of _ "client\<lparr>cl_buf := ?m @ drop (length ?m) b1, cl_chn := Some (chn_end True core3)\<rparr>"]
          exI [of _ core1] exI [of _ status]
          exI [of _ "\<lparr>cn_chn = chn_end False core2, cn_state = st', cn_buf = b2, cn_live = 0\<rparr>"])
        (auto simp del: response_bytes.simps)
  qed
qed

lemma new_local_client_ready:
  assumes "new_chrpc_local_client fails1 fails2 now server (Some cfg) attrs = (CHRPC_SUCCESS, server', Some (core, client))"
    and "cadence attrs < timeout attrs" "unat (timeout attrs) + unat (cadence attrs) \<le> 2 ^ 32"
  shows "client_ready cfg client core \<and> max_msg_size cfg \<le> sa_max_msg_size (sv_attrs server)"
  using new_local_client_ok [OF assms(1)] assms(2,3) by (simp add: client_ready_def no_wrap_def)

lemma remote_call_at:
  assumes client: "new_chrpc_local_client fails1 fails2 now server (Some cfg) attrs = (CHRPC_SUCCESS, server', Some (core, client))"
    and time: "cadence attrs < timeout attrs" "unat (timeout attrs) + unat (cadence attrs) \<le> 2 ^ 32"
    and eps: "fst (new_chrpc_endpoint_set_va ji jn eps) = Some (sv_ep_set server)" "\<forall>ep \<in> set eps. no_nul (ep_name ep)" "eps_ok_at st eps"
    and req: "is_cstr name" "args_ok args" "length args < 256" "length (request_bytes name args) \<le> max_msg_size cfg"
    and buf: "length buf = sa_max_msg_size (sv_attrs server)"
    and spec: "call_result eps (max_msg_size cfg) name args chn_id st = (res, st')"
  shows "\<exists>client' core1 status cn'.
    chrpc_client_send_request (worker_peer (sv_ep_set server) chn_id st buf) client name want args =
      (case res of
         None \<Rightarrow> Some (status_code CHRPC_DISCONNECT, None, client', 0)
       | Some (rpc_status, ret) \<Rightarrow>
           Some (status_code rpc_status, given_value want ret, client', int (opt_blocks (given_value want ret)))) \<and>
    (cl_chn client' = None \<longleftrightarrow> res = None) \<and>
    chn_l2_send True core (request_bytes name args) = (CHN_SUCCESS, core1) \<and>
    worker_poll (sv_ep_set server) chn_id st buf core1 = Some (status, cn') \<and> cn_state cn' = st' \<and> cn_live cn' = 0"
proof -
  note ready = new_local_client_ready [OF client time]
  have "set_inv (sv_ep_set server)" "endpoints (sv_ep_set server) = eps" using new_set_inv [OF eps(1,2)] by simp_all
  from remote_call_step [OF conjunct1 [OF ready] this eps(3) req _ spec, of buf want] ready buf
  obtain client' core1 status cn' where
    "chrpc_client_send_request (worker_peer (sv_ep_set server) chn_id st buf) client name want args =
      (case res of
         None \<Rightarrow> Some (status_code CHRPC_DISCONNECT, None, client', 0)
       | Some (rpc_status, ret) \<Rightarrow>
           Some (status_code rpc_status, given_value want ret, client', int (opt_blocks (given_value want ret))))"
    "if res = None then cl_chn client' = None else \<exists>core'. client_ready cfg client' core'"
    "chn_l2_send True core (request_bytes name args) = (CHN_SUCCESS, core1)"
    "worker_poll (sv_ep_set server) chn_id st buf core1 = Some (status, cn')" "cn_state cn' = st'" "cn_live cn' = 0" by auto
  moreover from this(2) have "cl_chn client' = None \<longleftrightarrow> res = None" by (auto simp: client_ready_def split: if_splits)
  ultimately show ?thesis
    by (intro exI [of _ client'] exI [of _ core1] exI [of _ status] exI [of _ cn'] conjI)
qed

text \<open>C1. A remote call over a local channel is a local call: the client returns the status and the value
  \<open>call_result\<close> gives for the endpoint registered under the name, called with the arguments as
  sent, and hands over exactly the blocks of the value; the channel survives unless the server does not
  respond; the server's state is the endpoint's, and the worker leaks nothing.  \<open>call_result\<close> covers an unknown
  name, arguments of other types, a return value of another type and one that is too large.\<close>

theorem remote_call:
  assumes client: "new_chrpc_local_client fails1 fails2 now server (Some cfg) attrs = (CHRPC_SUCCESS, server', Some (core, client))"
    and time: "cadence attrs < timeout attrs" "unat (timeout attrs) + unat (cadence attrs) \<le> 2 ^ 32"
    and eps: "fst (new_chrpc_endpoint_set_va ji jn eps) = Some (sv_ep_set server)" "\<forall>ep \<in> set eps. no_nul (ep_name ep)" "eps_ok eps"
    and req: "is_cstr name" "args_ok args" "length args < 256" "length (request_bytes name args) \<le> max_msg_size cfg"
    and buf: "length buf = sa_max_msg_size (sv_attrs server)"
    and spec: "call_result eps (max_msg_size cfg) name args chn_id st = (res, st')"
  shows "\<exists>client' core1 status cn'.
    chrpc_client_send_request (worker_peer (sv_ep_set server) chn_id st buf) client name want args =
      (case res of
         None \<Rightarrow> Some (status_code CHRPC_DISCONNECT, None, client', 0)
       | Some (rpc_status, ret) \<Rightarrow>
           Some (status_code rpc_status, given_value want ret, client', int (opt_blocks (given_value want ret)))) \<and>
    (cl_chn client' = None \<longleftrightarrow> res = None) \<and>
    chn_l2_send True core (request_bytes name args) = (CHN_SUCCESS, core1) \<and>
    worker_poll (sv_ep_set server) chn_id st buf core1 = Some (status, cn') \<and> cn_state cn' = st' \<and> cn_live cn' = 0"
  by (rule remote_call_at [OF client time eps(1,2) eps_ok_at [OF eps(3)] req buf spec])

text \<open>An endpoint with a byte as its argument, which counts its calls and returns the byte 5.\<close>

lemma example_local_client:
  fixes state :: 'st and mms :: nat
  assumes "CHRPC_SERVER_BUF_MIN_SIZE \<le> mms"
  obtains server server' core client where
    "new_chrpc_local_client False False 0 server (Some \<lparr>queue_depth = 2, write_over = False, max_msg_size = mms\<rparr>)
       CHRPC_DEFAULT_CLIENT_ATTRS = (CHRPC_SUCCESS, server', Some (core, client))"
    "sv_ep_set server = ep_set" "sa_max_msg_size (sv_attrs server) = mms" "server_state server = state"
proof -
  let ?attrs = "\<lparr>sa_max_msg_size = mms, max_connections = 2, num_workers = 1, worker_usleep_amt = 5,
    idle_timeout = 0, on_disconnect = None\<rparr> :: 'st chrpc_server_attrs_t"
  let ?cfg = "\<lparr>queue_depth = 2, write_over = False, max_msg_size = mms\<rparr>"
  obtain core a b where pipe: "new_channel_local2_pipe False False (Some ?cfg) = (CHN_SUCCESS, Some (core, a, b))"
    by (simp add: new_channel_local2_pipe_def new_channel_local2_core_def new_channel_local_def
        new_queue_def new_channel_def CHANNEL_LOCAL2_IMPL_def)
  obtain client where client: "new_chrpc_client (Some a) CHRPC_DEFAULT_CLIENT_ATTRS = (CHRPC_SUCCESS, Some client)"
    using pipe_ends(1) [OF pipe] assms by (simp add: new_chrpc_client_def CHRPC_DEFAULT_CLIENT_ATTRS_def chn_max_msg_size_def
        CHANNEL_LOCAL2_IMPL_def chn_l2_max_msg_size_def chn_l_max_msg_size_def)
  obtain q :: "(channel_local2_core_t, channel_local2_core_t) chrpc_queue_ele_t queue_t" where q: "new_queue 2 24 = Some q" by (simp add: new_queue_def)
  define server :: "(channel_local2_core_t, channel_local2_core_t, 'st) chrpc_server_t" where
    "server = \<lparr>server_state = state, sv_attrs = ?attrs, id_counter = 0, num_channels = 0, sv_q = q,
      should_exit = False, sv_ep_set = ep_set, sv_req_type = req_type, sv_resp_type = resp_type\<rparr>"
  have "q_cap q = 2" using new_queue_correct [OF q] by simp
  then have "fst (chrpc_server_give_channel server (Some b) 0) = CHRPC_SUCCESS"
    using pipe_ends(2,5) [OF pipe] assms by (simp add: chrpc_server_give_channel_def server_def chn_max_msg_size_def
        CHANNEL_LOCAL2_IMPL_def chn_l2_max_msg_size_def chn_l_max_msg_size_def CHRPC_SERVER_BUF_MIN_SIZE_def Let_def)
  then obtain server' where "chrpc_server_give_channel server (Some b) 0 = (CHRPC_SUCCESS, server')"
    by (cases "chrpc_server_give_channel server (Some b) 0") auto
  with pipe client have "new_chrpc_local_client False False 0 server (Some ?cfg) CHRPC_DEFAULT_CLIENT_ATTRS =
      (CHRPC_SUCCESS, server', Some (core, client))" by (simp add: new_chrpc_local_client_def)
  then show thesis by (rule that) (simp_all add: server_def)
qed

theorem remote_call_witness:
  "\<exists>(client :: (channel_local2_core_t, channel_local2_core_t) chrpc_client_t) peer client'.
     chrpc_client_send_request peer client [98, 0] True [\<lparr>v_type = CHRPC_BYTE_T, v_value = IVNumber [7]\<rparr>] =
       Some (0, Some \<lparr>v_type = CHRPC_BYTE_T, v_value = IVNumber [5]\<rparr>, client', 2) \<and> cl_chn client' \<noteq> None"
proof -
  let ?v = "\<lambda>b :: byte. \<lparr>v_type = CHRPC_BYTE_T, v_value = IVNumber [b]\<rparr>"
  let ?ep = "\<lparr>ep_name = [98], ep_ret = Some CHRPC_BYTE_T, ep_args = [CHRPC_BYTE_T], ep_args_block = False,
    ep_func = \<lambda>_ (st :: nat) _. (CHRPC_SC_KEEP_ALIVE, Some (?v 5), st + 1)\<rparr>"
  let ?cfg = "\<lparr>queue_depth = 2, write_over = False, max_msg_size = 128\<rparr>"
  obtain ep_set where s: "fst (new_chrpc_endpoint_set_va 0 [] [?ep]) = Some ep_set"
    using new_endpoint_set_ok [of "[?ep]" 0 "[]"]
    by (auto simp: new_chrpc_endpoint_set_of_va no_nul_def split: option.splits)
  have v: "wf_value (?v x)" "raw_wt CHRPC_BYTE_T (IVNumber [x])" "value_enc (?v x) = [0, x]" "received (?v x) = ?v x" for x
    by (simp_all add: wf_value_def value_enc_def received_def chrpc_blockable_type_cell_size_def)
  have size: "CHRPC_SERVER_BUF_MIN_SIZE \<le> 128" by (simp add: CHRPC_SERVER_BUF_MIN_SIZE_def)
  obtain server server' core client where
    local: "new_chrpc_local_client False False 0 server (Some ?cfg) CHRPC_DEFAULT_CLIENT_ATTRS =
        (CHRPC_SUCCESS, server', Some (core, client))"
      "sv_ep_set server = ep_set" "sa_max_msg_size (sv_attrs server) = 128"
      by (rule example_local_client [OF size, where state = "0 :: nat"])
  have "eps_ok [?ep]" using v delete_exact [of "?v 5"] by (simp add: eps_ok_def ret_ok_def)
  moreover have "args_ok [?v 7]" "is_cstr [98, 0 :: byte]" using v by (simp_all add: args_ok_def is_cstr_def cstr_def)
  moreover have "length (request_bytes [98, 0] [?v 7]) \<le> 128"
    using v by (simp add: request_bytes_def type_enc_msg_types str_enc_def cstr_def arg_enc_def)
  moreover have "call_result [?ep] 128 [98, 0] [?v 7] 0 0 = (Some (CHRPC_SUCCESS, Some (?v 5)), 1)"
    using v by (simp add: call_result_def string_chars_def ret_enc_def)
  ultimately show ?thesis
    using remote_call [OF local(1) _ _ s [folded local(2)], of "[98, 0]" "[?v 7]" "replicate 128 0" 0 0
        "Some (CHRPC_SUCCESS, Some (?v 5))" 1 True] v local(3)
    by (auto simp: CHRPC_DEFAULT_CLIENT_ATTRS_def no_nul_def CHRPC_SERVER_BUF_MIN_SIZE_def given_value_def
        opt_blocks_def value_blocks_def)
qed

end
