(* ===== verification/Chat_Room.thy ===== *)
theory Chat_Room
  imports Chrpc_Endpoint Chutil_List
begin

text \<open>
  The chatroom example's state (\<open>chrpc/examples/chatroom/chatroom.c\<close>): an id map from channel ids
  to user names, a mailbox map from user names to mailboxes, and the mailboxes, each a linked list
  of messages.  A user name is one string object both maps point to: it is a handle, an address
  with the characters behind it, and the state keeps the set of live string objects, so that a
  use or a deletion of a dead one is undefined (\<open>None\<close>).  The texts of messages are private
  copies: they are byte lists.  Every operation runs under the lock it takes from beginning to
  end and is one atomic step.

  The main theorem is a refinement: the two maps, the mailboxes and the string objects behave as a
  list of sessions, and deleting the state frees every object.
\<close>

section \<open>Status codes and messages\<close>

datatype chatroom_status_t =
    CHATROOM_SUCCESS
  | CHATROOM_CHANNEL_ALREADY_REGISTERED
  | CHATROOM_USERNAME_TAKEN
  | CHATROOM_INVALID_USERNAME
  | CHATROOM_CHANNEL_NOT_REGISTERED
  | CHATROOM_INVALID_MESSAGE_LEN
  | CHATROOM_UNKNOWN_RECEIVER

definition literal :: "string \<Rightarrow> byte list" where
  "literal s = map of_char s @ [0]"

fun chatroom_status_as_literal :: "chatroom_status_t \<Rightarrow> byte list" where
  "chatroom_status_as_literal CHATROOM_SUCCESS = literal ''Success''"
| "chatroom_status_as_literal CHATROOM_CHANNEL_ALREADY_REGISTERED =
     literal ''Channel is already registered''"
| "chatroom_status_as_literal CHATROOM_USERNAME_TAKEN = literal ''Username is taken''"
| "chatroom_status_as_literal CHATROOM_INVALID_USERNAME = literal ''Given username is invalid''"
| "chatroom_status_as_literal CHATROOM_CHANNEL_NOT_REGISTERED = literal ''Channel is not registered''"
| "chatroom_status_as_literal CHATROOM_INVALID_MESSAGE_LEN = literal ''Invalid message length''"
| "chatroom_status_as_literal CHATROOM_UNKNOWN_RECEIVER = literal ''Unknown receiver''"

record chatroom_message_t =
  general_msg :: bool
  cm_user :: "byte list"
  cm_msg :: "byte list"

definition new_chatroom_message :: "bool \<Rightarrow> byte list \<Rightarrow> byte list \<Rightarrow> chatroom_message_t" where
  "new_chatroom_message general_message user m =
     \<lparr>general_msg = general_message, cm_user = user, cm_msg = m\<rparr>"

section \<open>Mailboxes\<close>

type_synonym chatroom_mailbox_t =
  "(chatroom_message_t linked_list_t, chatroom_message_t) list_t"

text \<open>\<open>junk\<close> is the iterator field that the list's constructor leaves uninitialised.\<close>

definition new_chatroom_mailbox :: "nat option \<Rightarrow> chatroom_mailbox_t" where
  "new_chatroom_mailbox junk = new_list (LINKED_LIST_IMPL junk) 8"

text \<open>The messages deleted by the iteration, then the list itself.\<close>

partial_function (option) delete_messages_loop ::
    "chatroom_mailbox_t \<Rightarrow> (chatroom_message_t list \<times> chatroom_mailbox_t) option" where
  "delete_messages_loop mb =
     do { (iter, mb') \<leftarrow> l_next mb;
          (case iter of
             None \<Rightarrow> Some ([], mb')
           | Some cm \<Rightarrow> do { (cms, mb'') \<leftarrow> delete_messages_loop mb'; Some (cm # cms, mb'') }) }"

definition delete_chatroom_mailbox :: "chatroom_mailbox_t \<Rightarrow> chatroom_message_t list option" where
  "delete_chatroom_mailbox mb =
     do { mb1 \<leftarrow> l_reset_iterator mb;
          (cms, mb2) \<leftarrow> delete_messages_loop mb1;
          u \<leftarrow> delete_list mb2;
          Some cms }"

definition chatroom_mailbox_push ::
    "chatroom_mailbox_t \<Rightarrow> chatroom_message_t \<Rightarrow> chatroom_mailbox_t option" where
  "chatroom_mailbox_push mb m = l_push mb m"

fun mailbox_poll_loop ::
    "nat \<Rightarrow> chatroom_mailbox_t \<Rightarrow> (chatroom_message_t list \<times> chatroom_mailbox_t) option" where
  "mailbox_poll_loop 0 mb = Some ([], mb)"
| "mailbox_poll_loop (Suc n) mb =
     do { (out, mb') \<leftarrow> l_pop mb True;
          m \<leftarrow> out;
          (ms, mb'') \<leftarrow> mailbox_poll_loop n mb';
          Some (m # ms, mb'') }"

definition chatroom_mailbox_poll ::
    "chatroom_mailbox_t \<Rightarrow> u32 \<Rightarrow> (chatroom_message_t list \<times> chatroom_mailbox_t) option" where
  "chatroom_mailbox_poll mb out_buf_len =
     do { n \<leftarrow> l_len mb;
          (let mb_len = (of_nat n :: u32);
               pop_amt = (if mb_len < out_buf_len then mb_len else out_buf_len)
           in mailbox_poll_loop (unat pop_amt) mb) }"

section \<open>The state\<close>

record username_t =
  un_ptr :: nat
  un_chars :: "byte list"

definition s_indirect_hash :: "username_t \<Rightarrow> u32" where
  "s_indirect_hash s = str_hash (un_chars s)"

definition s_indirect_equals :: "username_t \<Rightarrow> username_t \<Rightarrow> bool" where
  "s_indirect_equals s1 s2 = str_eq (un_chars s1) (un_chars s2)"

definition chrpc_channel_id_equals_func :: "channel_id_t \<Rightarrow> channel_id_t \<Rightarrow> bool" where
  "chrpc_channel_id_equals_func i1 i2 \<longleftrightarrow> i1 = i2"

record chatroom_state_t =
  id_map :: "(channel_id_t, username_t) hash_map_t"
  mailboxes :: "(username_t, nat) hash_map_t"
  live_strs :: "nat set"
  live_mbs :: "nat \<rightharpoonup> chatroom_mailbox_t"
  next_addr :: nat

definition alloc_str :: "byte list \<Rightarrow> chatroom_state_t \<Rightarrow> username_t \<times> chatroom_state_t" where
  "alloc_str xs cs =
     (\<lparr>un_ptr = next_addr cs, un_chars = xs\<rparr>,
      cs\<lparr>live_strs := insert (next_addr cs) (live_strs cs), next_addr := next_addr cs + 1\<rparr>)"

definition free_str :: "username_t \<Rightarrow> chatroom_state_t \<Rightarrow> chatroom_state_t option" where
  "free_str s cs =
     (if un_ptr s \<in> live_strs cs then Some (cs\<lparr>live_strs := live_strs cs - {un_ptr s}\<rparr>) else None)"

text \<open>The characters of a string object, which must be live (\<open>s_copy\<close>).\<close>

definition copy_str :: "chatroom_state_t \<Rightarrow> username_t \<Rightarrow> byte list option" where
  "copy_str cs s = (if un_ptr s \<in> live_strs cs then Some (un_chars s) else None)"

text \<open>
  A call on the mailbox map reads string objects: the key it is given, which is hashed, and the stored
  keys it is compared with, those of the same hash up to the first match.  One that is dead makes the
  call undefined.
\<close>

fun keys_compared :: "u32 \<Rightarrow> (username_t \<Rightarrow> bool) \<Rightarrow> (username_t, nat) kvh list \<Rightarrow> username_t list" where
  "keys_compared h m [] = []"
| "keys_compared h m (n # ns) =
     (if kv_hash n \<noteq> h then keys_compared h m ns
      else kv_key n # (if m (kv_key n) then [] else keys_compared h m ns))"

definition names_read :: "(username_t, nat) hash_map_t \<Rightarrow> username_t \<Rightarrow> username_t list" where
  "names_read hm name =
     (let h = hm_hash_func hm name
      in name # keys_compared h (\<lambda>k. hm_eq_func hm k name) (hm_chains hm ! (unat h mod hm_chains_cap hm)))"

definition names_live :: "chatroom_state_t \<Rightarrow> username_t \<Rightarrow> bool" where
  "names_live cs name \<longleftrightarrow> list_all (\<lambda>s. un_ptr s \<in> live_strs cs) (names_read (mailboxes cs) name)"

definition mb_get :: "chatroom_state_t \<Rightarrow> username_t \<Rightarrow> nat option option" where
  "mb_get cs name = (if names_live cs name then Some (hm_get (mailboxes cs) name) else None)"

definition mb_contains :: "chatroom_state_t \<Rightarrow> username_t \<Rightarrow> bool option" where
  "mb_contains cs name = (if names_live cs name then Some (hm_contains (mailboxes cs) name) else None)"

definition mb_put :: "username_t \<Rightarrow> nat \<Rightarrow> chatroom_state_t \<Rightarrow> chatroom_state_t option" where
  "mb_put name a cs =
     (if names_live cs name then Some (cs\<lparr>mailboxes := hm_put (mailboxes cs) name a\<rparr>) else None)"

definition mb_remove :: "username_t \<Rightarrow> chatroom_state_t \<Rightarrow> chatroom_state_t option" where
  "mb_remove name cs =
     (if names_live cs name then Some (cs\<lparr>mailboxes := snd (hm_remove (mailboxes cs) name)\<rparr>) else None)"

definition free_mb :: "nat \<Rightarrow> chatroom_state_t \<Rightarrow> chatroom_state_t option" where
  "free_mb a cs =
     do { mb \<leftarrow> live_mbs cs a;
          cms \<leftarrow> delete_chatroom_mailbox mb;
          Some (cs\<lparr>live_mbs := (live_mbs cs)(a := None)\<rparr>) }"

definition push_mb :: "nat \<Rightarrow> chatroom_message_t \<Rightarrow> chatroom_state_t \<Rightarrow> chatroom_state_t option" where
  "push_mb a m cs =
     do { mb \<leftarrow> live_mbs cs a;
          mb' \<leftarrow> chatroom_mailbox_push mb m;
          Some (cs\<lparr>live_mbs := (live_mbs cs)(a \<mapsto> mb')\<rparr>) }"

text \<open>The maps' iterator fields start as \<open>ji\<close> and \<open>jn\<close>.\<close>

definition new_chatroom_state ::
    "nat \<Rightarrow> (channel_id_t, username_t) kvh list \<Rightarrow> (username_t, nat) kvh list \<Rightarrow> chatroom_state_t option" where
  "new_chatroom_state ji jn1 jn2 =
     do { m1 \<leftarrow> new_hash_map ji jn1 8 8 (Some chrpc_channel_id_hash_func) (Some chrpc_channel_id_equals_func);
          m2 \<leftarrow> new_hash_map ji jn2 8 8 (Some s_indirect_hash) (Some s_indirect_equals);
          Some \<lparr>id_map = m1, mailboxes = m2, live_strs = {}, live_mbs = Map.empty, next_addr = 0\<rparr> }"

partial_function (option) delete_users_loop :: "chatroom_state_t \<Rightarrow> chatroom_state_t option" where
  "delete_users_loop cs =
     (case hm_next_kvp (mailboxes cs) of
        (None, hm) \<Rightarrow> Some (cs\<lparr>mailboxes := hm\<rparr>)
      | (Some (name, a), hm) \<Rightarrow>
          do { cs1 \<leftarrow> free_str name (cs\<lparr>mailboxes := hm\<rparr>);
               cs2 \<leftarrow> free_mb a cs1;
               delete_users_loop cs2 })"

text \<open>What is left of the state's objects, and the numbers of nodes freed with the two maps.\<close>

definition delete_chatroom_state ::
    "chatroom_state_t \<Rightarrow> (nat set \<times> (nat \<rightharpoonup> chatroom_mailbox_t) \<times> nat \<times> nat) option" where
  "delete_chatroom_state cs =
     do { cs1 \<leftarrow> delete_users_loop (cs\<lparr>mailboxes := hm_reset_iterator (mailboxes cs)\<rparr>);
          Some (live_strs cs1, live_mbs cs1, length (delete_hash_map (id_map cs)),
                length (delete_hash_map (mailboxes cs1))) }"

section \<open>Operations\<close>

text \<open>The checks on a user name; \<open>char\<close> is signed.\<close>

definition name_char :: "byte \<Rightarrow> bool" where
  "name_char c \<longleftrightarrow>
     97 \<le> sint c \<and> sint c \<le> 122 \<or> 65 \<le> sint c \<and> sint c \<le> 90 \<or> 48 \<le> sint c \<and> sint c \<le> 57"

fun name_chars_loop :: "byte list \<Rightarrow> nat \<Rightarrow> nat \<Rightarrow> bool" where
  "name_chars_loop username i 0 = True"
| "name_chars_loop username i (Suc n) =
     (if \<not> name_char (username ! i) then False else name_chars_loop username (i + 1) n)"

definition chatroom_login ::
    "nat option \<Rightarrow> chatroom_state_t \<Rightarrow> channel_id_t \<Rightarrow> byte list \<Rightarrow>
     (chatroom_status_t \<times> chatroom_state_t) option" where
  "chatroom_login junk cs chn_id username =
     do { username_len \<leftarrow> c_strlen (map Some username);
          (if username_len = 0 \<or> username_len > 20 then Some (CHATROOM_INVALID_USERNAME, cs)
           else if username ! 0 = 36 then Some (CHATROOM_INVALID_USERNAME, cs)
           else if \<not> name_chars_loop username 0 username_len then Some (CHATROOM_INVALID_USERNAME, cs)
           else if hm_contains (id_map cs) chn_id then Some (CHATROOM_CHANNEL_ALREADY_REGISTERED, cs)
           else (case alloc_str (take username_len username) cs of (new_username, cs1) \<Rightarrow>
             do { taken \<leftarrow> mb_contains cs1 new_username;
                  (if taken then
                     do { cs2 \<leftarrow> free_str new_username cs1; Some (CHATROOM_USERNAME_TAKEN, cs2) }
                   else
                     let cs2 = cs1\<lparr>id_map := hm_put (id_map cs1) chn_id new_username\<rparr>;
                         mb = next_addr cs2;
                         cs3 = cs2\<lparr>live_mbs := (live_mbs cs2)(mb \<mapsto> new_chatroom_mailbox junk),
                                   next_addr := mb + 1\<rparr>
                     in do { cs4 \<leftarrow> mb_put new_username mb cs3; Some (CHATROOM_SUCCESS, cs4) }) })) }"

definition chatroom_logout ::
    "chatroom_state_t \<Rightarrow> channel_id_t \<Rightarrow> (chatroom_status_t \<times> chatroom_state_t) option" where
  "chatroom_logout cs chn_id =
     (case hm_get (id_map cs) chn_id of
        Some username \<Rightarrow>
          let cs1 = cs\<lparr>id_map := snd (hm_remove (id_map cs) chn_id)\<rparr>
          in do { found \<leftarrow> mb_get cs1 username;
                  mb \<leftarrow> found;
                  cs2 \<leftarrow> mb_remove username cs1;
                  cs3 \<leftarrow> free_str username cs2;
                  cs4 \<leftarrow> free_mb mb cs3;
                  Some (CHATROOM_SUCCESS, cs4) }
      | None \<Rightarrow> Some (CHATROOM_CHANNEL_NOT_REGISTERED, cs))"

text \<open>The returned string's characters, \<open>None\<close> for NULL.\<close>

definition chatroom_get_username ::
    "chatroom_state_t \<Rightarrow> channel_id_t \<Rightarrow> byte list option option" where
  "chatroom_get_username cs chn_id =
     (case hm_get (id_map cs) chn_id of
        Some username \<Rightarrow> map_option Some (copy_str cs username)
      | None \<Rightarrow> Some None)"

definition CHATROOM_MAX_MESSAGE_LEN :: nat where "CHATROOM_MAX_MESSAGE_LEN = 0x100"

partial_function (option) send_global_loop ::
    "byte list \<Rightarrow> byte list \<Rightarrow> chatroom_state_t \<Rightarrow> chatroom_state_t option" where
  "send_global_loop sender m cs =
     (case hm_next_kvp (mailboxes cs) of
        (None, hm) \<Rightarrow> Some (cs\<lparr>mailboxes := hm\<rparr>)
      | (Some (name, mb), hm) \<Rightarrow>
          do { cs1 \<leftarrow> push_mb mb (new_chatroom_message True sender m) (cs\<lparr>mailboxes := hm\<rparr>);
               send_global_loop sender m cs1 })"

definition send_global_msg ::
    "chatroom_state_t \<Rightarrow> byte list \<Rightarrow> byte list \<Rightarrow> chatroom_state_t option" where
  "send_global_msg cs sender m =
     send_global_loop sender m (cs\<lparr>mailboxes := hm_reset_iterator (mailboxes cs)\<rparr>)"

definition chatroom_send_global_msg_from_id ::
    "chatroom_state_t \<Rightarrow> channel_id_t \<Rightarrow> byte list \<Rightarrow> (chatroom_status_t \<times> chatroom_state_t) option" where
  "chatroom_send_global_msg_from_id cs chn_id m =
     (if length m = 0 \<or> length m > CHATROOM_MAX_MESSAGE_LEN then Some (CHATROOM_INVALID_MESSAGE_LEN, cs)
      else case hm_get (id_map cs) chn_id of
        Some sender \<Rightarrow>
          do { xs \<leftarrow> copy_str cs sender;
               cs1 \<leftarrow> send_global_msg cs xs m;
               Some (CHATROOM_SUCCESS, cs1) }
      | None \<Rightarrow> Some (CHATROOM_CHANNEL_NOT_REGISTERED, cs))"

definition chatroom_send_global_msg ::
    "chatroom_state_t \<Rightarrow> byte list \<Rightarrow> byte list \<Rightarrow> (chatroom_status_t \<times> chatroom_state_t) option" where
  "chatroom_send_global_msg cs sender m =
     (if length m = 0 \<or> length m > CHATROOM_MAX_MESSAGE_LEN then Some (CHATROOM_INVALID_MESSAGE_LEN, cs)
      else do { cs1 \<leftarrow> send_global_msg cs sender m; Some (CHATROOM_SUCCESS, cs1) })"

text \<open>The string made for the lookup is deleted right after it.\<close>

definition send_private_msg ::
    "chatroom_state_t \<Rightarrow> byte list \<Rightarrow> byte list \<Rightarrow> byte list \<Rightarrow>
     (chatroom_status_t \<times> chatroom_state_t) option" where
  "send_private_msg cs receiver sender m =
     do { xs \<leftarrow> string_chars receiver;
          (case alloc_str xs cs of (receiver_str, cs1) \<Rightarrow>
             do { mb \<leftarrow> mb_get cs1 receiver_str;
                  cs2 \<leftarrow> free_str receiver_str cs1;
                  (case mb of
                     None \<Rightarrow> Some (CHATROOM_UNKNOWN_RECEIVER, cs2)
                   | Some a \<Rightarrow>
                       do { cs3 \<leftarrow> push_mb a (new_chatroom_message False sender m) cs2;
                            Some (CHATROOM_SUCCESS, cs3) }) }) }"

definition chatroom_send_private_msg_from_id ::
    "chatroom_state_t \<Rightarrow> byte list \<Rightarrow> channel_id_t \<Rightarrow> byte list \<Rightarrow>
     (chatroom_status_t \<times> chatroom_state_t) option" where
  "chatroom_send_private_msg_from_id cs receiver chn_id m =
     (if length m = 0 \<or> length m > CHATROOM_MAX_MESSAGE_LEN then Some (CHATROOM_INVALID_MESSAGE_LEN, cs)
      else case hm_get (id_map cs) chn_id of
        Some sender \<Rightarrow> do { xs \<leftarrow> copy_str cs sender; send_private_msg cs receiver xs m }
      | None \<Rightarrow> Some (CHATROOM_CHANNEL_NOT_REGISTERED, cs))"

definition chatroom_send_private_msg ::
    "chatroom_state_t \<Rightarrow> byte list \<Rightarrow> byte list \<Rightarrow> byte list \<Rightarrow>
     (chatroom_status_t \<times> chatroom_state_t) option" where
  "chatroom_send_private_msg cs receiver sender m =
     (if length m = 0 \<or> length m > CHATROOM_MAX_MESSAGE_LEN then Some (CHATROOM_INVALID_MESSAGE_LEN, cs)
      else send_private_msg cs receiver sender m)"

text \<open>The messages written to \<open>out_buf\<close>; \<open>None\<close> when \<open>*written\<close> is not assigned.\<close>

definition chatroom_poll ::
    "chatroom_state_t \<Rightarrow> channel_id_t \<Rightarrow> u32 \<Rightarrow>
     (chatroom_status_t \<times> chatroom_message_t list option \<times> chatroom_state_t) option" where
  "chatroom_poll cs chn_id out_buf_len =
     (if out_buf_len = 0 then Some (CHATROOM_SUCCESS, Some [], cs)
      else case hm_get (id_map cs) chn_id of
        Some username \<Rightarrow>
          do { found \<leftarrow> mb_get cs username;
               a \<leftarrow> found;
               mb \<leftarrow> live_mbs cs a;
               (ms, mb') \<leftarrow> chatroom_mailbox_poll mb out_buf_len;
               Some (CHATROOM_SUCCESS, Some ms, cs\<lparr>live_mbs := (live_mbs cs)(a \<mapsto> mb')\<rparr>) }
      | None \<Rightarrow> Some (CHATROOM_CHANNEL_NOT_REGISTERED, None, cs))"

section \<open>Client runs\<close>

datatype chat_cmd =
    CLogin channel_id_t "byte list"
  | CLogout channel_id_t
  | CGetUsername channel_id_t
  | CSendGlobalFromId channel_id_t "byte list"
  | CSendGlobal "byte list" "byte list"
  | CSendPrivateFromId "byte list" channel_id_t "byte list"
  | CSendPrivate "byte list" "byte list" "byte list"
  | CPoll channel_id_t u32

datatype chat_out =
    CStatus chatroom_status_t
  | CName "byte list option"
  | CPolled chatroom_status_t "chatroom_message_t list option"

definition with_status ::
    "(chatroom_status_t \<times> chatroom_state_t) option \<Rightarrow> (chat_out \<times> chatroom_state_t) option" where
  "with_status r = map_option (\<lambda>(status, cs). (CStatus status, cs)) r"

fun chat_step ::
    "nat option \<Rightarrow> chatroom_state_t \<Rightarrow> chat_cmd \<Rightarrow> (chat_out \<times> chatroom_state_t) option" where
  "chat_step junk cs (CLogin chn_id name) = with_status (chatroom_login junk cs chn_id name)"
| "chat_step junk cs (CLogout chn_id) = with_status (chatroom_logout cs chn_id)"
| "chat_step junk cs (CGetUsername chn_id) =
     map_option (\<lambda>name. (CName name, cs)) (chatroom_get_username cs chn_id)"
| "chat_step junk cs (CSendGlobalFromId chn_id m) =
     with_status (chatroom_send_global_msg_from_id cs chn_id m)"
| "chat_step junk cs (CSendGlobal sender m) = with_status (chatroom_send_global_msg cs sender m)"
| "chat_step junk cs (CSendPrivateFromId receiver chn_id m) =
     with_status (chatroom_send_private_msg_from_id cs receiver chn_id m)"
| "chat_step junk cs (CSendPrivate receiver sender m) =
     with_status (chatroom_send_private_msg cs receiver sender m)"
| "chat_step junk cs (CPoll chn_id n) =
     map_option (\<lambda>(status, ms, cs'). (CPolled status ms, cs')) (chatroom_poll cs chn_id n)"

fun chat_run ::
    "nat option \<Rightarrow> chatroom_state_t \<Rightarrow> chat_cmd list \<Rightarrow> (chat_out list \<times> chatroom_state_t) option" where
  "chat_run junk cs [] = Some ([], cs)"
| "chat_run junk cs (c # cmds) =
     do { (out, cs') \<leftarrow> chat_step junk cs c;
          (outs, cs'') \<leftarrow> chat_run junk cs' cmds;
          Some (out # outs, cs'') }"

section \<open>Specification: a list of sessions\<close>

record session =
  ses_id :: channel_id_t
  ses_name :: "byte list"
  ses_msgs :: "chatroom_message_t list"

definition by_id :: "session list \<Rightarrow> channel_id_t \<Rightarrow> session option" where
  "by_id ss i = find (\<lambda>s. ses_id s = i) ss"

definition by_name :: "session list \<Rightarrow> byte list \<Rightarrow> session option" where
  "by_name ss n = find (\<lambda>s. ses_name s = n) ss"

definition valid_name :: "byte list \<Rightarrow> bool" where
  "valid_name n \<longleftrightarrow> n \<noteq> [] \<and> length n \<le> 20 \<and> list_all name_char n"

definition valid_msg :: "byte list \<Rightarrow> bool" where
  "valid_msg m \<longleftrightarrow> m \<noteq> [] \<and> length m \<le> 256"

definition deliver :: "chatroom_message_t \<Rightarrow> session \<Rightarrow> session" where
  "deliver m s = s\<lparr>ses_msgs := ses_msgs s @ [m]\<rparr>"

definition spec_global :: "session list \<Rightarrow> byte list \<Rightarrow> byte list \<Rightarrow> session list" where
  "spec_global ss sender m = map (deliver \<lparr>general_msg = True, cm_user = sender, cm_msg = m\<rparr>) ss"

definition spec_private ::
    "session list \<Rightarrow> byte list \<Rightarrow> byte list \<Rightarrow> byte list \<Rightarrow> chatroom_status_t \<times> session list" where
  "spec_private ss receiver sender m =
     (if by_name ss receiver = None then (CHATROOM_UNKNOWN_RECEIVER, ss)
      else (CHATROOM_SUCCESS,
            map (\<lambda>s. if ses_name s = receiver
                     then deliver \<lparr>general_msg = False, cm_user = sender, cm_msg = m\<rparr> s else s) ss))"

definition spec_login ::
    "session list \<Rightarrow> channel_id_t \<Rightarrow> byte list \<Rightarrow> chatroom_status_t \<times> session list" where
  "spec_login ss i n =
     (if \<not> valid_name n then (CHATROOM_INVALID_USERNAME, ss)
      else if by_id ss i \<noteq> None then (CHATROOM_CHANNEL_ALREADY_REGISTERED, ss)
      else if by_name ss n \<noteq> None then (CHATROOM_USERNAME_TAKEN, ss)
      else (CHATROOM_SUCCESS, \<lparr>ses_id = i, ses_name = n, ses_msgs = []\<rparr> # ss))"

text \<open>How many messages one poll takes: the length is converted to 32 bits first.\<close>

definition poll_amount :: "u32 \<Rightarrow> 'a list \<Rightarrow> nat" where
  "poll_amount n ms = min (length ms mod 2 ^ 32) (unat n)"

fun spec_chat_step :: "session list \<Rightarrow> chat_cmd \<Rightarrow> chat_out \<times> session list" where
  "spec_chat_step ss (CLogin i name) = apfst CStatus (spec_login ss i (c_str name))"
| "spec_chat_step ss (CLogout i) =
     (if by_id ss i = None then (CStatus CHATROOM_CHANNEL_NOT_REGISTERED, ss)
      else (CStatus CHATROOM_SUCCESS, filter (\<lambda>s. ses_id s \<noteq> i) ss))"
| "spec_chat_step ss (CGetUsername i) = (CName (map_option ses_name (by_id ss i)), ss)"
| "spec_chat_step ss (CSendGlobalFromId i m) =
     (if \<not> valid_msg m then (CStatus CHATROOM_INVALID_MESSAGE_LEN, ss)
      else case by_id ss i of
        None \<Rightarrow> (CStatus CHATROOM_CHANNEL_NOT_REGISTERED, ss)
      | Some s \<Rightarrow> (CStatus CHATROOM_SUCCESS, spec_global ss (ses_name s) m))"
| "spec_chat_step ss (CSendGlobal sender m) =
     (if \<not> valid_msg m then (CStatus CHATROOM_INVALID_MESSAGE_LEN, ss)
      else (CStatus CHATROOM_SUCCESS, spec_global ss sender m))"
| "spec_chat_step ss (CSendPrivateFromId receiver i m) =
     (if \<not> valid_msg m then (CStatus CHATROOM_INVALID_MESSAGE_LEN, ss)
      else case by_id ss i of
        None \<Rightarrow> (CStatus CHATROOM_CHANNEL_NOT_REGISTERED, ss)
      | Some s \<Rightarrow> apfst CStatus (spec_private ss (c_str receiver) (ses_name s) m))"
| "spec_chat_step ss (CSendPrivate receiver sender m) =
     (if \<not> valid_msg m then (CStatus CHATROOM_INVALID_MESSAGE_LEN, ss)
      else apfst CStatus (spec_private ss (c_str receiver) sender m))"
| "spec_chat_step ss (CPoll i n) =
     (if n = 0 then (CPolled CHATROOM_SUCCESS (Some []), ss)
      else case by_id ss i of
        None \<Rightarrow> (CPolled CHATROOM_CHANNEL_NOT_REGISTERED None, ss)
      | Some s \<Rightarrow>
          let k = poll_amount n (ses_msgs s); keep = length (ses_msgs s) - k
          in (CPolled CHATROOM_SUCCESS (Some (rev (drop keep (ses_msgs s)))),
              map (\<lambda>s. if ses_id s = i then s\<lparr>ses_msgs := take keep (ses_msgs s)\<rparr> else s) ss))"

fun spec_chat_run :: "session list \<Rightarrow> chat_cmd list \<Rightarrow> chat_out list \<times> session list" where
  "spec_chat_run ss [] = ([], ss)"
| "spec_chat_run ss (c # cmds) =
     (case spec_chat_step ss c of (out, ss') \<Rightarrow>
        case spec_chat_run ss' cmds of (outs, ss'') \<Rightarrow> (out # outs, ss''))"

text \<open>The C strings given to the operations are terminated.\<close>

fun cmd_ok :: "chat_cmd \<Rightarrow> bool" where
  "cmd_ok (CLogin i name) \<longleftrightarrow> 0 \<in> set name"
| "cmd_ok (CSendPrivateFromId receiver i m) \<longleftrightarrow> 0 \<in> set receiver"
| "cmd_ok (CSendPrivate receiver sender m) \<longleftrightarrow> 0 \<in> set receiver"
| "cmd_ok c \<longleftrightarrow> True"

section \<open>Keys\<close>

lemma name_char_0 [simp]: "\<not> name_char 0"
  by (simp add: name_char_def)

lemma name_char_dollar [simp]: "\<not> name_char 36"
  by (simp add: name_char_def)

lemma valid_name_no_nul: "valid_name n \<Longrightarrow> no_nul n"
  by (auto simp: valid_name_def no_nul_def list_all_iff)

interpretation id_key: hash_key chrpc_channel_id_hash_func chrpc_channel_id_equals_func "\<lambda>_. True"
  by unfold_locales (auto simp: chrpc_channel_id_equals_func_def)

interpretation name_key: hash_key s_indirect_hash s_indirect_equals "\<lambda>s. no_nul (un_chars s)"
  by unfold_locales (auto simp: s_indirect_hash_def s_indirect_equals_def str_eq_def c_str_no_nul)

lemma names_equal:
  "no_nul (un_chars s) \<Longrightarrow> no_nul (un_chars t) \<Longrightarrow> s_indirect_equals s t \<longleftrightarrow> un_chars s = un_chars t"
  by (simp add: s_indirect_equals_def str_eq_def c_str_no_nul)

lemma c_string:
  assumes "0 \<in> set cs"
  shows "c_strlen (map Some cs) = Some (length (c_str cs))" "take (length (c_str cs)) cs = c_str cs"
    "string_chars cs = Some (c_str cs)" "no_nul (c_str cs)"
proof -
  obtain ys zs where y: "cs = ys @ 0 # zs" "0 \<notin> set ys" using split_list_first [OF assms] by blast
  then have "c_str cs = ys" by (simp add: c_str_def takeWhile_append)
  then show "c_strlen (map Some cs) = Some (length (c_str cs))" "take (length (c_str cs)) cs = c_str cs"
    "no_nul (c_str cs)"
    using y c_strlen_terminated [of ys "map Some zs"] by (simp_all add: no_nul_def)
  show "string_chars cs = Some (c_str cs)"
    using string_chars_cstr [OF assms] by (simp add: c_str_def)
qed

lemma name_chars_loop_ok:
  "i + n \<le> length cs \<Longrightarrow> name_chars_loop cs i n = list_all name_char (take n (drop i cs))"
proof (induction n arbitrary: i)
  case (Suc n)
  then have "drop i cs = cs ! i # drop (i + 1) cs" using Cons_nth_drop_Suc [of i cs] by simp
  with Suc show ?case by simp
qed simp

text \<open>The three checks of \<open>chatroom_login\<close> on the name are \<open>valid_name\<close>.\<close>

lemma login_checks:
  assumes "0 \<in> set name"
  defines "n \<equiv> length (c_str name)"
  shows "(n = 0 \<or> n > 20 \<or> name ! 0 = 36 \<or> \<not> name_chars_loop name 0 n) \<longleftrightarrow> \<not> valid_name (c_str name)"
proof -
  have take: "take n name = c_str name" using c_string(2) [OF assms(1)] by (simp add: n_def)
  then have le: "n \<le> length name" by (metis length_take min.cobounded1 n_def)
  have loop: "name_chars_loop name 0 n = list_all name_char (c_str name)"
    using name_chars_loop_ok [of 0 n name] le take by simp
  have "\<not> list_all name_char (c_str name)" if "name ! 0 = 36" "n \<noteq> 0"
  proof -
    have "c_str name ! 0 = 36" using that take nth_take [of 0 n name] by simp
    moreover have "0 < length (c_str name)" using that(2) by (simp add: n_def)
    ultimately have "36 \<in> set (c_str name)" using nth_mem [of 0 "c_str name"] by simp
    then show ?thesis using name_char_dollar unfolding list_all_iff by blast
  qed
  then show ?thesis using loop by (auto simp: valid_name_def n_def)
qed

section \<open>Mailboxes hold messages\<close>

definition mailbox_holds :: "nat option \<Rightarrow> chatroom_mailbox_t \<Rightarrow> chatroom_message_t list \<Rightarrow> bool" where
  "mailbox_holds junk mb ms \<longleftrightarrow> ll.holds junk mb ms"

lemma mailbox_new: "mailbox_holds junk (new_chatroom_mailbox junk) []"
  by (simp add: mailbox_holds_def new_chatroom_mailbox_def ll.new_holds)

lemma mailbox_push:
  "mailbox_holds junk mb ms \<Longrightarrow>
   \<exists>mb'. chatroom_mailbox_push mb m = Some mb' \<and> mailbox_holds junk mb' (ms @ [m])"
  using ll.holds_step [of junk mb ms "LPush m"]
  by (auto simp: mailbox_holds_def chatroom_mailbox_push_def split: bind_splits)

lemma poll_loop_ok:
  "mailbox_holds junk mb ms \<Longrightarrow> n \<le> length ms \<Longrightarrow>
   \<exists>mb'. mailbox_poll_loop n mb = Some (rev (drop (length ms - n) ms), mb') \<and>
     mailbox_holds junk mb' (take (length ms - n) ms)"
proof (induction n arbitrary: mb ms)
  case (Suc n)
  then obtain ms0 m where ms: "ms = ms0 @ [m]" by (cases ms rule: rev_cases) auto
  with ll.holds_step [of junk mb ms "LPop True"] Suc.prems(1) obtain mb1 where
    "l_pop mb True = Some (Some m, mb1)" "mailbox_holds junk mb1 ms0"
    by (auto simp: mailbox_holds_def split: bind_splits)
  with Suc.IH [of mb1 ms0] Suc.prems(2) ms show ?case by (auto simp: Suc_diff_le)
qed simp

lemma mailbox_poll:
  fixes n :: u32
  assumes "mailbox_holds junk mb ms"
  defines "k \<equiv> poll_amount n ms"
  shows "\<exists>mb'. chatroom_mailbox_poll mb n = Some (rev (drop (length ms - k) ms), mb') \<and>
    mailbox_holds junk mb' (take (length ms - k) ms)"
proof -
  have len: "l_len mb = Some (length ms)"
    using assms(1) ll.holds_len by (auto simp: mailbox_holds_def)
  let ?l = "of_nat (length ms) :: u32"
  have "unat (if ?l < n then ?l else n) = k"
    by (simp add: k_def poll_amount_def unat_of_nat word_less_nat_alt)
  moreover have "k \<le> length ms" unfolding k_def poll_amount_def by (simp add: min.coboundedI1)
  ultimately show ?thesis using poll_loop_ok [OF assms(1), of k] len
    by (simp add: chatroom_mailbox_poll_def Let_def)
qed

lemma delete_messages_ok:
  "ll.at_iter junk mb ms all \<Longrightarrow>
   \<exists>mb'. delete_messages_loop mb = Some (ms, mb') \<and> mailbox_holds junk mb' all"
proof (induction ms arbitrary: mb)
  case Nil
  then show ?case using ll.at_iter_end [of junk mb all] ll.at_iter_holds [of junk mb "[]" all]
    by (subst delete_messages_loop.simps) (simp add: mailbox_holds_def)
next
  case (Cons m ms)
  obtain mb1 where "l_next mb = Some (Some m, mb1)" "ll.at_iter junk mb1 ms all"
    using ll.at_iter_more [OF Cons.prems] by blast
  with Cons.IH [of mb1] show ?case by (subst delete_messages_loop.simps) auto
qed

lemma mailbox_delete:
  assumes "mailbox_holds junk mb ms"
  shows "delete_chatroom_mailbox mb = Some ms"
proof -
  obtain mb1 where mb1: "l_reset_iterator mb = Some mb1" "ll.at_iter junk mb1 ms ms"
    using ll.at_iter_reset [of junk mb ms] assms unfolding mailbox_holds_def by blast
  obtain mb2 where mb2: "delete_messages_loop mb1 = Some (ms, mb2)" "mailbox_holds junk mb2 ms"
    using delete_messages_ok [OF mb1(2)] by blast
  then obtain s where "l_impl mb2 = LINKED_LIST_IMPL junk" "l_list mb2 = Some s" "ll_inv s"
    by (auto simp: mailbox_holds_def ll.holds_def)
  then have "delete_list mb2 = Some ()"
    using ll_delete_frees_all [of s] by (auto simp: delete_list_def LINKED_LIST_IMPL_def)
  with mb1(1) mb2(1) show ?thesis by (simp add: delete_chatroom_mailbox_def)
qed

section \<open>The objects of a list of sessions\<close>

text \<open>A user: a session, the address of the name's string object and that of the mailbox.\<close>

type_synonym user = "session \<times> nat \<times> nat"

definition handle :: "user \<Rightarrow> username_t" where
  "handle u = \<lparr>un_ptr = fst (snd u), un_chars = ses_name (fst u)\<rparr>"

abbreviation user_id :: "user \<Rightarrow> channel_id_t" where "user_id u \<equiv> ses_id (fst u)"
abbreviation user_name :: "user \<Rightarrow> byte list" where "user_name u \<equiv> ses_name (fst u)"
abbreviation user_msgs :: "user \<Rightarrow> chatroom_message_t list" where "user_msgs u \<equiv> ses_msgs (fst u)"
abbreviation user_ptr :: "user \<Rightarrow> nat" where "user_ptr u \<equiv> fst (snd u)"
abbreviation user_mb :: "user \<Rightarrow> nat" where "user_mb u \<equiv> snd (snd u)"

definition users_ok :: "user list \<Rightarrow> bool" where [inv_defs]:
  "users_ok us \<longleftrightarrow> distinct (map user_id us) \<and> distinct (map user_name us) \<and>
     distinct (map user_ptr us) \<and> distinct (map user_mb us) \<and> (\<forall>u \<in> set us. valid_name (user_name u))"

definition maps_ok :: "chatroom_state_t \<Rightarrow> user list \<Rightarrow> bool" where [inv_defs]:
  "maps_ok cs us \<longleftrightarrow>
     id_key.rel (id_map cs) (map (\<lambda>u. (user_id u, handle u)) us) \<and>
     name_key.rel (mailboxes cs) (map (\<lambda>u. (handle u, user_mb u)) us)"

definition objects_ok :: "nat option \<Rightarrow> chatroom_state_t \<Rightarrow> user list \<Rightarrow> bool" where [inv_defs]:
  "objects_ok junk cs us \<longleftrightarrow>
     live_strs cs = user_ptr ` set us \<and> dom (live_mbs cs) = user_mb ` set us \<and>
     (\<forall>u \<in> set us. user_ptr u < next_addr cs \<and> user_mb u < next_addr cs \<and>
        (\<exists>mb. live_mbs cs (user_mb u) = Some mb \<and> mailbox_holds junk mb (user_msgs u)))"

definition chat_rep :: "nat option \<Rightarrow> chatroom_state_t \<Rightarrow> user list \<Rightarrow> bool" where [inv_defs]:
  "chat_rep junk cs us \<longleftrightarrow> users_ok us \<and> maps_ok cs us \<and> objects_ok junk cs us"

lemma chat_repD:
  assumes "chat_rep junk cs us"
  shows "users_ok us" "id_key.rel (id_map cs) (map (\<lambda>u. (user_id u, handle u)) us)"
    "name_key.rel (mailboxes cs) (map (\<lambda>u. (handle u, user_mb u)) us)" "objects_ok junk cs us"
  using assms by (simp_all add: chat_rep_def maps_ok_def)

lemma handle_chars [simp]: "un_chars (handle u) = user_name u" "un_ptr (handle u) = user_ptr u"
  by (simp_all add: handle_def)

lemma users_no_nul: "users_ok us \<Longrightarrow> u \<in> set us \<Longrightarrow> no_nul (user_name u)"
  by (simp add: users_ok_def valid_name_no_nul)

lemma user_of_id: "users_ok us \<Longrightarrow> u \<in> set us \<Longrightarrow> v \<in> set us \<Longrightarrow> user_id u = user_id v \<Longrightarrow> u = v"
  by (auto simp: users_ok_def distinct_map dest: inj_onD)

lemma user_of_name:
  "users_ok us \<Longrightarrow> u \<in> set us \<Longrightarrow> v \<in> set us \<Longrightarrow> user_name u = user_name v \<Longrightarrow> u = v"
  by (auto simp: users_ok_def distinct_map dest: inj_onD)

lemma user_of_mb:
  "users_ok us \<Longrightarrow> u \<in> set us \<Longrightarrow> v \<in> set us \<Longrightarrow> user_mb u = user_mb v \<Longrightarrow> u = v"
  by (auto simp: users_ok_def distinct_map dest: inj_onD)

lemma user_of_ptr:
  "users_ok us \<Longrightarrow> u \<in> set us \<Longrightarrow> v \<in> set us \<Longrightarrow> user_ptr u = user_ptr v \<Longrightarrow> u = v"
  by (auto simp: users_ok_def distinct_map dest: inj_onD)

lemma find_unique:
  assumes "u \<in> set us" "P u" and only: "\<And>v. v \<in> set us \<Longrightarrow> P v \<Longrightarrow> v = u"
  shows "find P us = Some u"
proof (cases "find P us")
  case None
  with assms(1,2) show ?thesis by (auto simp: find_None_iff)
next
  case (Some v)
  then have "v \<in> set us" "P v" by (auto simp: find_Some_iff)
  with only [of v] Some show ?thesis by blast
qed

lemma by_id_users: "by_id (map fst us) i = map_option fst (find (\<lambda>u. user_id u = i) us)"
  by (simp add: by_id_def find_map_option comp_def)

lemma by_name_users: "by_name (map fst us) n = map_option fst (find (\<lambda>u. user_name u = n) us)"
  by (simp add: by_name_def find_map_option comp_def)

lemma get_id:
  "chat_rep junk cs us \<Longrightarrow> hm_get (id_map cs) i = map_option handle (find (\<lambda>u. user_id u = i) us)"
  using id_key.objects_get [of "id_map cs" user_id handle us i]
  by (simp add: chat_repD chrpc_channel_id_equals_func_def)

lemma get_name:
  assumes "chat_rep junk cs us" "no_nul (un_chars n)"
  shows "hm_get (mailboxes cs) n = map_option user_mb (find (\<lambda>u. user_name u = un_chars n) us)"
proof -
  have "find (\<lambda>u. s_indirect_equals (handle u) n) us = find (\<lambda>u. user_name u = un_chars n) us"
    using names_equal [of _ n] users_no_nul [OF chat_repD(1) [OF assms(1)]] assms(2)
    by (intro find_cong) auto
  then show ?thesis
    using name_key.objects_get [of "mailboxes cs" handle user_mb us n] assms by (simp add: chat_repD)
qed

lemma get_user:
  assumes "chat_rep junk cs us" "u \<in> set us"
  shows "find (\<lambda>v. user_name v = user_name u) us = Some u" "find (\<lambda>v. user_id v = user_id u) us = Some u"
    "hm_get (mailboxes cs) (handle u) = Some (user_mb u)"
    "copy_str cs (handle u) = Some (user_name u)"
proof -
  note ok = chat_repD(1) [OF assms(1)]
  show 1: "find (\<lambda>v. user_name v = user_name u) us = Some u"
    using user_of_name [OF ok _ assms(2)] assms(2) by (intro find_unique) auto
  show "find (\<lambda>v. user_id v = user_id u) us = Some u"
    using user_of_id [OF ok _ assms(2)] assms(2) by (intro find_unique) auto
  show "hm_get (mailboxes cs) (handle u) = Some (user_mb u)"
    using get_name [OF assms(1), of "handle u"] users_no_nul [OF ok assms(2)] 1 by simp
  show "copy_str cs (handle u) = Some (user_name u)"
    using chat_repD(4) [OF assms(1)] assms(2) by (auto simp: copy_str_def objects_ok_def)
qed

lemma live_user:
  assumes "chat_rep junk cs us" "u \<in> set us" shows "un_ptr (handle u) \<in> live_strs cs"
  using chat_repD(4) [OF assms(1)] assms(2) by (simp add: objects_ok_def)

text \<open>Every key a call on the mailbox map reads is a live object.\<close>

lemma keys_compared_in: "s \<in> set (keys_compared h m ns) \<Longrightarrow> s \<in> kv_key ` set ns"
  by (induction ns) (auto split: if_splits)

lemma names_live_ok:
  assumes rep: "chat_rep junk cs us" and "mailboxes cs1 = mailboxes cs"
    "live_strs cs \<subseteq> live_strs cs1" "un_ptr name \<in> live_strs cs1"
  shows "names_live cs1 name"
proof -
  let ?hm = "mailboxes cs"
  have inv: "length (hm_chains ?hm) = hm_chains_cap ?hm" "0 < hm_chains_cap ?hm"
    and pairs: "mset (hm_pairs ?hm) = mset (map (\<lambda>u. (handle u, user_mb u)) us)"
    using chat_repD(3) [OF rep] by (simp_all add: name_key.rel_def name_key.inv_def)
  have live: "un_ptr s \<in> live_strs cs" if "s \<in> kv_key ` set (hm_nodes ?hm)" for s
  proof -
    have "s \<in> fst ` set (hm_pairs ?hm)" using that by (force simp: hm_pairs_def)
    then have "s \<in> handle ` set us" unfolding mset_eq_setD [OF pairs] by force
    then obtain u where "u \<in> set us" "s = handle u" by blast
    then show ?thesis using live_user [OF rep] by blast
  qed
  have "un_ptr s \<in> live_strs cs1"
    if "s \<in> set (keys_compared h m (hm_chains ?hm ! (unat h mod hm_chains_cap ?hm)))" for s h m
  proof -
    have "unat h mod hm_chains_cap ?hm < length (hm_chains ?hm)" using inv by simp
    with keys_compared_in [OF that] have "s \<in> kv_key ` set (hm_nodes ?hm)"
      using nth_subset_concat unfolding hm_nodes_def by blast
    with live assms(3) show ?thesis by blast
  qed
  then show ?thesis using assms(2,4) by (auto simp: names_live_def names_read_def Let_def list_all_iff)
qed

lemma mb_calls:
  assumes "names_live cs name"
  shows "mb_get cs name = Some (hm_get (mailboxes cs) name)"
    "mb_contains cs name = Some (hm_contains (mailboxes cs) name)"
    "mb_put name a cs = Some (cs\<lparr>mailboxes := hm_put (mailboxes cs) name a\<rparr>)"
    "mb_remove name cs = Some (cs\<lparr>mailboxes := snd (hm_remove (mailboxes cs) name)\<rparr>)"
  using assms by (simp_all add: mb_get_def mb_contains_def mb_put_def mb_remove_def)

text \<open>Moving the iterators or the next address changes nothing.\<close>

lemma chat_rep_iter:
  assumes "chat_rep junk cs us" "hm_same (mailboxes cs) hm" "next_addr cs \<le> n"
  shows "chat_rep junk (cs\<lparr>mailboxes := hm, next_addr := n\<rparr>) us"
  using assms name_key.rel_same [OF _ assms(2)]
  by (fastforce simp: chat_rep_def maps_ok_def objects_ok_def)

text \<open>A mailbox's messages changed.\<close>

definition touch ::
    "nat \<Rightarrow> (chatroom_message_t list \<Rightarrow> chatroom_message_t list) \<Rightarrow> user list \<Rightarrow> user list" where
  "touch a g us =
     map (\<lambda>u. if user_mb u = a then ((fst u)\<lparr>ses_msgs := g (user_msgs u)\<rparr>, snd u) else u) us"

lemma touch_maps [simp]:
  "map user_id (touch a g us) = map user_id us" "map user_name (touch a g us) = map user_name us"
  "map user_ptr (touch a g us) = map user_ptr us" "map user_mb (touch a g us) = map user_mb us"
  "map (\<lambda>u. (user_id u, handle u)) (touch a g us) = map (\<lambda>u. (user_id u, handle u)) us"
  "map (\<lambda>u. (handle u, user_mb u)) (touch a g us) = map (\<lambda>u. (handle u, user_mb u)) us"
  by (auto simp: touch_def handle_def)

lemma touch_images [simp]:
  "user_ptr ` set (touch a g us) = user_ptr ` set us" "user_mb ` set (touch a g us) = user_mb ` set us"
  "user_name ` set (touch a g us) = user_name ` set us"
  by (metis list.set_map touch_maps(3), metis list.set_map touch_maps(4),
      metis list.set_map touch_maps(2))

lemma users_ok_touch [simp]: "users_ok (touch a g us) = users_ok us"
proof -
  have "(\<forall>u \<in> set (touch a g us). valid_name (user_name u)) \<longleftrightarrow>
      (\<forall>n \<in> user_name ` set (touch a g us). valid_name n)" by blast
  then show ?thesis by (simp add: users_ok_def)
qed

lemma chat_rep_touch:
  assumes rep: "chat_rep junk cs us" and u: "u \<in> set us" and mb: "mailbox_holds junk mb (g (user_msgs u))"
  shows "chat_rep junk (cs\<lparr>live_mbs := (live_mbs cs)(user_mb u \<mapsto> mb)\<rparr>) (touch (user_mb u) g us)"
proof -
  let ?cs = "cs\<lparr>live_mbs := (live_mbs cs)(user_mb u \<mapsto> mb)\<rparr>"
  have ob: "objects_ok junk cs us" using chat_repD(4) [OF rep] .
  have "insert (user_mb u) (dom (live_mbs cs)) = user_mb ` set us"
    using ob u by (auto simp: objects_ok_def)
  moreover have "user_ptr v < next_addr cs \<and> user_mb v < next_addr cs \<and>
      (\<exists>b. live_mbs ?cs (user_mb v) = Some b \<and> mailbox_holds junk b (user_msgs v))"
    if v: "v \<in> set (touch (user_mb u) g us)" for v
  proof -
    from v obtain w where w: "w \<in> set us"
      "v = (if user_mb w = user_mb u then ((fst w)\<lparr>ses_msgs := g (user_msgs w)\<rparr>, snd w) else w)"
      unfolding touch_def set_map image_iff by blast
    show ?thesis
    proof (cases "user_mb w = user_mb u")
      case True
      then have "w = u" using user_of_mb [OF chat_repD(1) [OF rep] w(1) u] by simp
      with w ob u mb show ?thesis by (simp add: objects_ok_def)
    next
      case False
      with w ob show ?thesis by (simp add: objects_ok_def)
    qed
  qed
  ultimately have "objects_ok junk ?cs (touch (user_mb u) g us)"
    using ob by (simp add: objects_ok_def)
  with rep show ?thesis by (simp add: chat_rep_def maps_ok_def)
qed

lemma touch_fst:
  assumes "users_ok us" "u \<in> set us"
  shows "map fst (touch (user_mb u) g us) =
      map (\<lambda>s. if ses_id s = user_id u then s\<lparr>ses_msgs := g (ses_msgs s)\<rparr> else s) (map fst us)"
    "map fst (touch (user_mb u) g us) =
      map (\<lambda>s. if ses_name s = user_name u then s\<lparr>ses_msgs := g (ses_msgs s)\<rparr> else s) (map fst us)"
proof -
  have "user_mb w = user_mb u \<longleftrightarrow> user_id w = user_id u" "user_mb w = user_mb u \<longleftrightarrow> user_name w = user_name u"
    if "w \<in> set us" for w
    using user_of_mb [OF assms(1) that assms(2)] user_of_id [OF assms(1) that assms(2)]
      user_of_name [OF assms(1) that assms(2)] by metis+
  then show "map fst (touch (user_mb u) g us) =
      map (\<lambda>s. if ses_id s = user_id u then s\<lparr>ses_msgs := g (ses_msgs s)\<rparr> else s) (map fst us)"
    "map fst (touch (user_mb u) g us) =
      map (\<lambda>s. if ses_name s = user_name u then s\<lparr>ses_msgs := g (ses_msgs s)\<rparr> else s) (map fst us)"
    by (simp_all add: touch_def comp_def if_distrib [of fst] cong: map_cong)
qed

section \<open>Every operation on the represented sessions\<close>

lemma new_state_rep:
  "\<exists>cs. new_chatroom_state ji jn1 jn2 = Some cs \<and> chat_rep junk cs []"
proof -
  obtain m1 where m1: "new_hash_map ji jn1 8 8 (Some chrpc_channel_id_hash_func)
      (Some chrpc_channel_id_equals_func) = Some (m1 :: (channel_id_t, username_t) hash_map_t)"
    by (simp add: new_hash_map_def)
  obtain m2 where m2: "new_hash_map ji jn2 8 8 (Some s_indirect_hash) (Some s_indirect_equals) =
      Some (m2 :: (username_t, nat) hash_map_t)" by (simp add: new_hash_map_def)
  from m1 m2 show ?thesis
    using id_key.new_rel [OF m1] name_key.new_rel [OF m2]
    by (simp add: new_chatroom_state_def chat_rep_def users_ok_def maps_ok_def objects_ok_def)
qed

lemma push_ok:
  assumes rep: "chat_rep junk cs us" and u: "u \<in> set us"
  shows "\<exists>cs'. push_mb (user_mb u) m cs = Some cs' \<and> mailboxes cs' = mailboxes cs \<and>
    chat_rep junk cs' (touch (user_mb u) (\<lambda>ms. ms @ [m]) us)"
proof -
  obtain mb where mb: "live_mbs cs (user_mb u) = Some mb" "mailbox_holds junk mb (user_msgs u)"
    using chat_repD(4) [OF rep] u by (auto simp: objects_ok_def)
  obtain mb' where mb': "chatroom_mailbox_push mb m = Some mb'" "mailbox_holds junk mb' (user_msgs u @ [m])"
    using mailbox_push [OF mb(2)] by blast
  show ?thesis using chat_rep_touch [OF rep u, of mb' "\<lambda>ms. ms @ [m]"] mb mb' by (simp add: push_mb_def)
qed

text \<open>The loop over all mailboxes.\<close>

lemma global_loop_ok:
  "chat_rep junk cs us \<Longrightarrow> hm_in_iteration (mailboxes cs) \<Longrightarrow>
   \<forall>n \<in> set (hm_remaining (mailboxes cs)). kv_val n \<in> user_mb ` set us \<Longrightarrow>
   \<exists>cs'. send_global_loop sender m cs = Some cs' \<and>
     chat_rep junk cs' (fold (\<lambda>a. touch a (\<lambda>ms. ms @ [new_chatroom_message True sender m]))
       (map kv_val (hm_remaining (mailboxes cs))) us)"
proof (induction "hm_remaining (mailboxes cs)" arbitrary: cs us)
  case Nil
  then show ?case by (subst send_global_loop.simps) (simp add: hm_next_end)
next
  case (Cons n ns)
  let ?m = "new_chatroom_message True sender m"
  obtain hm where hm: "hm_next_kvp (mailboxes cs) = (Some (pair_of n), hm)" "hm_in_iteration hm"
    "hm_same (mailboxes cs) hm" "hm_remaining hm = ns"
    using hm_next_more [OF Cons.prems(2) Cons.hyps(2) [symmetric]] by blast
  have rep: "chat_rep junk (cs\<lparr>mailboxes := hm\<rparr>) us"
    using chat_rep_iter [OF Cons.prems(1) hm(3), of "next_addr cs"] by simp
  obtain u where u: "u \<in> set us" "kv_val n = user_mb u"
    using Cons.prems(3) Cons.hyps(2) by (metis imageE list.set_intros(1))
  obtain cs1 where cs1: "push_mb (kv_val n) ?m (cs\<lparr>mailboxes := hm\<rparr>) = Some cs1" "mailboxes cs1 = hm"
    "chat_rep junk cs1 (touch (kv_val n) (\<lambda>ms. ms @ [?m]) us)"
    using push_ok [OF rep u(1), of ?m] u(2) by auto
  have "\<forall>k \<in> set (hm_remaining (mailboxes cs1)).
      kv_val k \<in> user_mb ` set (touch (kv_val n) (\<lambda>ms. ms @ [?m]) us)"
    using Cons.prems(3) cs1(2) hm(4) Cons.hyps(2) [symmetric] by simp
  from Cons.hyps(1) [OF _ cs1(3) _ this] cs1 hm obtain cs' where
    "send_global_loop sender m cs1 = Some cs'"
    "chat_rep junk cs' (fold (\<lambda>a. touch a (\<lambda>ms. ms @ [?m])) (map kv_val ns)
       (touch (kv_val n) (\<lambda>ms. ms @ [?m]) us))" by auto
  with hm(1) cs1(1) Cons.hyps(2) [symmetric] show ?case by (subst send_global_loop.simps) simp
qed

lemma touch_all:
  "distinct as \<Longrightarrow> fold (\<lambda>a. touch a g) as us =
   map (\<lambda>u. if user_mb u \<in> set as then ((fst u)\<lparr>ses_msgs := g (user_msgs u)\<rparr>, snd u) else u) us"
proof (induction as arbitrary: us)
  case (Cons a as)
  have "fold (\<lambda>a. touch a g) as (touch a g us) =
      map (\<lambda>u. if user_mb u \<in> set as then ((fst u)\<lparr>ses_msgs := g (user_msgs u)\<rparr>, snd u) else u) (touch a g us)"
    using Cons by simp
  also have "\<dots> = map (\<lambda>u. if user_mb u \<in> set (a # as)
      then ((fst u)\<lparr>ses_msgs := g (user_msgs u)\<rparr>, snd u) else u) us"
    using Cons.prems unfolding touch_def map_map by (intro map_cong) auto
  finally show ?case by simp
qed simp

lemma mailbox_nodes:
  assumes "chat_rep junk cs us"
  shows "mset (map pair_of (hm_nodes (mailboxes cs))) = mset (map (\<lambda>u. (handle u, user_mb u)) us)"
    "mset (map kv_val (hm_nodes (mailboxes cs))) = mset (map user_mb us)"
    "mset (map (un_ptr \<circ> kv_key) (hm_nodes (mailboxes cs))) = mset (map user_ptr us)"
proof -
  show 1: "mset (map pair_of (hm_nodes (mailboxes cs))) = mset (map (\<lambda>u. (handle u, user_mb u)) us)"
    using chat_repD(3) [OF assms] by (simp add: name_key.rel_def hm_pairs_def)
  from arg_cong [OF this, of "image_mset snd"] show "mset (map kv_val (hm_nodes (mailboxes cs))) = mset (map user_mb us)"
    by (simp add: image_mset.compositionality comp_def)
  from arg_cong [OF 1, of "image_mset (un_ptr \<circ> fst)"]
  show "mset (map (un_ptr \<circ> kv_key) (hm_nodes (mailboxes cs))) = mset (map user_ptr us)"
    by (simp add: image_mset.compositionality comp_def)
qed

lemma send_global_ok:
  assumes rep: "chat_rep junk cs us"
  shows "\<exists>cs' us'. send_global_msg cs sender m = Some cs' \<and> chat_rep junk cs' us' \<and>
    map fst us' = spec_global (map fst us) sender m"
proof -
  let ?hm = "hm_reset_iterator (mailboxes cs)"
  let ?g = "\<lambda>ms. ms @ [new_chatroom_message True sender m]"
  note it = name_key.rel_in_iteration [OF chat_repD(3) [OF rep]]
  have len: "length (hm_chains (mailboxes cs)) = hm_chains_cap (mailboxes cs)"
    using chat_repD(3) [OF rep] by (simp add: name_key.rel_def name_key.inv_def)
  have rep': "chat_rep junk (cs\<lparr>mailboxes := ?hm\<rparr>) us"
    using chat_rep_iter [OF rep, of ?hm "next_addr cs"] hm_reset_ok [OF len] by simp
  let ?as = "map kv_val (hm_nodes (mailboxes cs))"
  have as: "set ?as = user_mb ` set us" "distinct ?as"
    using mailbox_nodes(2) [OF rep] chat_repD(1) [OF rep]
    by (metis set_mset_mset list.set_map, metis mset_eq_imp_distinct_iff users_ok_def)
  have "\<forall>n \<in> set (hm_remaining ?hm). kv_val n \<in> user_mb ` set us"
    using as(1) it(3) by auto
  then obtain cs' where cs': "send_global_loop sender m (cs\<lparr>mailboxes := ?hm\<rparr>) = Some cs'"
    "chat_rep junk cs' (fold (\<lambda>a. touch a ?g) ?as us)"
    using global_loop_ok [OF rep', of sender m] it by auto
  moreover have "map fst (fold (\<lambda>a. touch a ?g) ?as us) = spec_global (map fst us) sender m"
    using as by (auto simp: touch_all spec_global_def deliver_def new_chatroom_message_def)
  ultimately show ?thesis unfolding send_global_msg_def by blast
qed

lemma alloc_then_free:
  assumes "chat_rep junk cs us" "alloc_str xs cs = (s, cs1)"
  shows "s = \<lparr>un_ptr = next_addr cs, un_chars = xs\<rparr>" "id_map cs1 = id_map cs" "mailboxes cs1 = mailboxes cs"
    "free_str s cs1 = Some (cs\<lparr>next_addr := next_addr cs + 1\<rparr>)"
    "chat_rep junk (cs\<lparr>next_addr := next_addr cs + 1\<rparr>) us"
    "live_strs cs1 = insert (un_ptr s) (live_strs cs)"
proof -
  show "live_strs cs1 = insert (un_ptr s) (live_strs cs)" using assms(2) by (auto simp: alloc_str_def)
  show "s = \<lparr>un_ptr = next_addr cs, un_chars = xs\<rparr>" "id_map cs1 = id_map cs" "mailboxes cs1 = mailboxes cs"
    using assms(2) by (auto simp: alloc_str_def)
  have "next_addr cs \<notin> live_strs cs"
    using chat_repD(4) [OF assms(1)] by (auto simp: objects_ok_def)
  then show "free_str s cs1 = Some (cs\<lparr>next_addr := next_addr cs + 1\<rparr>)"
    using assms(2) by (cases cs) (auto simp: alloc_str_def free_str_def)
  show "chat_rep junk (cs\<lparr>next_addr := next_addr cs + 1\<rparr>) us"
    using chat_rep_iter [OF assms(1) hm_same_refl, of "next_addr cs + 1"] by simp
qed

lemma login_ok:
  assumes rep: "chat_rep junk cs us" and name: "0 \<in> set name"
  shows "\<exists>cs' us'. chatroom_login junk cs i name = Some (fst (spec_login (map fst us) i (c_str name)), cs') \<and>
    chat_rep junk cs' us' \<and> map fst us' = snd (spec_login (map fst us) i (c_str name))"
proof -
  let ?n = "length (c_str name)"
  note cstr = c_string [OF name]
  obtain s cs1 where al: "alloc_str (c_str name) cs = (s, cs1)" by fastforce
  note af = alloc_then_free [OF rep al]
  have live: "names_live cs1 s" by (rule names_live_ok [OF rep af(3)]) (auto simp: af(6))
  have live3: "names_live cs3 s" if "mailboxes cs3 = mailboxes cs1" "live_strs cs3 = live_strs cs1" for cs3
    by (rule names_live_ok [OF rep]) (use that in \<open>auto simp: af(3,6)\<close>)
  have has_id: "hm_contains (id_map cs) i \<longleftrightarrow> by_id (map fst us) i \<noteq> None"
    using get_id [OF rep] by (auto simp: hm_contains_def by_id_users)
  have has_name: "hm_contains (mailboxes cs1) s \<longleftrightarrow> by_name (map fst us) (c_str name) \<noteq> None"
    using get_name [OF rep, of s] cstr(4) af(1,3) by (auto simp: hm_contains_def by_name_users)
  have bad: "chatroom_login junk cs i name = Some (CHATROOM_INVALID_USERNAME, cs)" if "\<not> valid_name (c_str name)"
    using that login_checks [OF name] cstr(1) unfolding chatroom_login_def by auto
  have good: "chatroom_login junk cs i name =
      (if hm_contains (id_map cs) i then Some (CHATROOM_CHANNEL_ALREADY_REGISTERED, cs)
       else if hm_contains (mailboxes cs1) s then
         map_option (Pair CHATROOM_USERNAME_TAKEN) (free_str s cs1)
       else
         let cs2 = cs1\<lparr>id_map := hm_put (id_map cs1) i s\<rparr>;
             mb = next_addr cs2;
             cs3 = cs2\<lparr>live_mbs := (live_mbs cs2)(mb \<mapsto> new_chatroom_mailbox junk), next_addr := mb + 1\<rparr>
         in Some (CHATROOM_SUCCESS, cs3\<lparr>mailboxes := hm_put (mailboxes cs3) s mb\<rparr>))"
    if "valid_name (c_str name)"
    using that login_checks [OF name] cstr(1,2) al mb_calls(2) [OF live] live3
    unfolding chatroom_login_def by (auto simp: Let_def map_option_case mb_calls(3) split: option.split)
  consider "\<not> valid_name (c_str name)" | "valid_name (c_str name)" "by_id (map fst us) i \<noteq> None"
    | "valid_name (c_str name)" "by_id (map fst us) i = None" "by_name (map fst us) (c_str name) \<noteq> None"
    | "valid_name (c_str name)" "by_id (map fst us) i = None" "by_name (map fst us) (c_str name) = None" by blast
  then show ?thesis
  proof cases
    case 1
    with rep bad show ?thesis by (auto simp: spec_login_def)
  next
    case 2
    with rep good has_id show ?thesis by (auto simp: spec_login_def)
  next
    case 3
    with good has_id has_name af(4,5) show ?thesis by (auto simp: spec_login_def)
  next
    case 4
    let ?u = "(\<lparr>ses_id = i, ses_name = c_str name, ses_msgs = []\<rparr>, next_addr cs, next_addr cs + 1)"
    let ?cs = "cs\<lparr>id_map := hm_put (id_map cs) i s, live_strs := insert (next_addr cs) (live_strs cs),
      live_mbs := (live_mbs cs)(next_addr cs + 1 \<mapsto> new_chatroom_mailbox junk),
      next_addr := next_addr cs + 2, mailboxes := hm_put (mailboxes cs) s (next_addr cs + 1)\<rparr>"
    have "cs1 = cs\<lparr>live_strs := insert (next_addr cs) (live_strs cs), next_addr := next_addr cs + 1\<rparr>"
      using al by (simp add: alloc_str_def)
    then have code: "chatroom_login junk cs i name = Some (CHATROOM_SUCCESS, ?cs)"
      using good [OF 4(1)] 4 has_id has_name by (cases cs) (simp add: Let_def)
    have ids: "\<forall>u \<in> set us. user_id u \<noteq> i" 
      using 4(2) unfolding by_id_users option.map_disc_iff find_None_iff by blast
    have names: "\<forall>u \<in> set us. user_name u \<noteq> c_str name"
      using 4(3) unfolding by_name_users option.map_disc_iff find_None_iff by blast
    have handle: "handle ?u = s" using af(1) by (simp add: handle_def)
    have ob: "objects_ok junk cs us" using chat_repD(4) [OF rep] .
    have lt: "user_ptr u < next_addr cs" "user_mb u < next_addr cs" if "u \<in> set us" for u
      using ob that by (simp_all add: objects_ok_def)
    have fresh: "next_addr cs \<notin> user_ptr ` set us" "Suc (next_addr cs) \<notin> user_mb ` set us"
      using lt by fastforce+
    have "users_ok (?u # us)"
      using chat_repD(1) [OF rep] ids names fresh 4(1) by (auto simp: users_ok_def)
    moreover have "id_key.rel (id_map ?cs) (map (\<lambda>u. (user_id u, handle u)) (?u # us))"
      using id_key.objects_put [OF chat_repD(2) [OF rep], of i s] ids handle
      by (simp add: chrpc_channel_id_equals_func_def)
    moreover have "name_key.rel (mailboxes ?cs) (map (\<lambda>u. (handle u, user_mb u)) (?u # us))"
    proof -
      have "\<forall>u \<in> set us. \<not> s_indirect_equals (handle u) s"
        using names names_equal [of _ s] cstr(4) af(1) users_no_nul [OF chat_repD(1) [OF rep]] by simp
      with name_key.objects_put [OF chat_repD(3) [OF rep], of s "next_addr cs + 1"] cstr(4) af(1)
      have "name_key.rel (mailboxes ?cs) ((handle ?u, user_mb ?u) # map (\<lambda>u. (handle u, user_mb u)) us)"
        unfolding handle by simp
      then show ?thesis by simp
    qed
    moreover have "objects_ok junk ?cs (?u # us)"
      using ob lt mailbox_new [of junk] by (fastforce simp: objects_ok_def)
    ultimately have "chat_rep junk ?cs (?u # us)" unfolding chat_rep_def maps_ok_def by blast
    moreover have "spec_login (map fst us) i (c_str name) = (CHATROOM_SUCCESS, map fst (?u # us))"
      using 4 by (simp add: spec_login_def)
    ultimately show ?thesis using code by (metis fst_conv snd_conv)
  qed
qed

lemma logout_ok:
  assumes rep: "chat_rep junk cs us"
  shows "\<exists>cs' us'. with_status (chatroom_logout cs i) =
      Some (fst (spec_chat_step (map fst us) (CLogout i)), cs') \<and>
    chat_rep junk cs' us' \<and> map fst us' = snd (spec_chat_step (map fst us) (CLogout i))"
proof (cases "find (\<lambda>u. user_id u = i) us")
  case None
  with rep get_id [OF rep, of i] show ?thesis
    by (auto simp: chatroom_logout_def with_status_def by_id_users)
next
  case (Some u)
  then have u: "u \<in> set us" "user_id u = i" by (auto simp: find_Some_iff)
  let ?us = "filter (\<lambda>v. user_id v \<noteq> i) us"
  have ok: "users_ok us" using chat_repD(1) [OF rep] .
  have ob: "objects_ok junk cs us" using chat_repD(4) [OF rep] .
  have only: "v = u" if "v \<in> set us" "user_id v = i" for v
    using user_of_id [OF ok that(1) u(1)] that u(2) by metis
  then have mem: "set ?us = set us - {u}" using u unfolding set_filter by blast
  have names: "filter (\<lambda>v. \<not> s_indirect_equals (handle v) (handle u)) us = ?us"
  proof (rule filter_cong [OF refl])
    fix v assume v: "v \<in> set us"
    have "s_indirect_equals (handle v) (handle u) \<longleftrightarrow> user_name v = user_name u"
      using names_equal users_no_nul [OF ok v] users_no_nul [OF ok u(1)] by simp
    then show "(\<not> s_indirect_equals (handle v) (handle u)) = (user_id v \<noteq> i)"
      using user_of_name [OF ok v u(1)] only [OF v] u(2) by blast
  qed
  obtain mb where mb: "live_mbs cs (user_mb u) = Some mb" "mailbox_holds junk mb (user_msgs u)"
    using ob u(1) by (auto simp: objects_ok_def)
  let ?cs = "cs\<lparr>id_map := snd (hm_remove (id_map cs) i),
    mailboxes := snd (hm_remove (mailboxes cs) (handle u)), live_strs := live_strs cs - {user_ptr u},
    live_mbs := (live_mbs cs)(user_mb u := None)\<rparr>"
  let ?cs1 = "cs\<lparr>id_map := snd (hm_remove (id_map cs) i)\<rparr>"
  have "names_live ?cs1 (handle u)"
    by (rule names_live_ok [OF rep]) (use live_user [OF rep u(1)] in simp_all)
  note calls = mb_calls [OF this]
  have "user_ptr u \<in> live_strs cs" using ob u(1) by (simp add: objects_ok_def)
  then have code: "chatroom_logout cs i = Some (CHATROOM_SUCCESS, ?cs)"
    using get_id [OF rep, of i] Some get_user(3) [OF rep u(1)] mb mailbox_delete [OF mb(2)]
    by (simp add: chatroom_logout_def calls free_str_def free_mb_def Let_def)
  have "users_ok ?us" using ok by (simp add: users_ok_def distinct_map_filter)
  moreover have "id_key.rel (id_map ?cs) (map (\<lambda>u. (user_id u, handle u)) ?us)"
    using id_key.objects_remove [OF chat_repD(2) [OF rep], of i] by (simp add: chrpc_channel_id_equals_func_def)
  moreover have "name_key.rel (mailboxes ?cs) (map (\<lambda>u. (handle u, user_mb u)) ?us)"
    using name_key.objects_remove [OF chat_repD(3) [OF rep], of "handle u"] names users_no_nul [OF ok u(1)] by simp
  moreover have "objects_ok junk ?cs ?us"
  proof -
    have "inj_on user_ptr (set us)" "inj_on user_mb (set us)"
      using ok by (simp_all add: users_ok_def distinct_map)
    then have ptrs: "user_ptr ` (set us - {u}) = user_ptr ` set us - {user_ptr u}"
      and mbs: "user_mb ` (set us - {u}) = user_mb ` set us - {user_mb u}"
      using u(1) by (simp_all add: inj_on_image_set_diff [of _ "set us"])
    have "live_strs ?cs = user_ptr ` set ?us"
      unfolding mem using ob ptrs by (simp add: objects_ok_def)
    moreover have "dom (live_mbs ?cs) = user_mb ` set ?us"
      unfolding mem using ob mbs by (simp add: objects_ok_def)
    moreover have "live_mbs ?cs (user_mb v) = live_mbs cs (user_mb v)" if "v \<in> set ?us" for v
      using that user_of_mb [OF ok _ u(1), of v] unfolding mem by auto
    ultimately show ?thesis using ob unfolding objects_ok_def by simp
  qed
  ultimately have "chat_rep junk ?cs ?us" unfolding chat_rep_def maps_ok_def by blast
  moreover have "spec_chat_step (map fst us) (CLogout i) = (CStatus CHATROOM_SUCCESS, map fst ?us)"
    using Some by (simp add: by_id_users filter_map comp_def)
  ultimately show ?thesis using code by (auto simp: with_status_def)
qed

lemma private_ok:
  assumes rep: "chat_rep junk cs us" and recv: "0 \<in> set receiver"
  shows "\<exists>cs' us'. send_private_msg cs receiver sender m =
      Some (fst (spec_private (map fst us) (c_str receiver) sender m), cs') \<and>
    chat_rep junk cs' us' \<and> map fst us' = snd (spec_private (map fst us) (c_str receiver) sender m)"
proof -
  obtain s cs1 where al: "alloc_str (c_str receiver) cs = (s, cs1)" by fastforce
  note af = alloc_then_free [OF rep al]
  note cstr = c_string [OF recv]
  let ?cs2 = "cs\<lparr>next_addr := next_addr cs + 1\<rparr>"
  have get: "hm_get (mailboxes cs1) s = map_option user_mb (find (\<lambda>u. user_name u = c_str receiver) us)"
    using get_name [OF rep, of s] cstr(4) af(1,3) by simp
  have "names_live cs1 s" by (rule names_live_ok [OF rep af(3)]) (auto simp: af(6))
  note get = get mb_calls(1) [OF this]
  show ?thesis
  proof (cases "find (\<lambda>u. user_name u = c_str receiver) us")
    case None
    with af(4,5) get cstr(3) al show ?thesis
      by (auto simp: send_private_msg_def spec_private_def by_name_users)
  next
    case (Some u)
    then have u: "u \<in> set us" "user_name u = c_str receiver" by (auto simp: find_Some_iff)
    let ?m = "new_chatroom_message False sender m"
    obtain cs' where cs': "push_mb (user_mb u) ?m ?cs2 = Some cs'"
      "chat_rep junk cs' (touch (user_mb u) (\<lambda>ms. ms @ [?m]) us)"
      using push_ok [OF af(5) u(1), of ?m] by blast
    have "map fst (touch (user_mb u) (\<lambda>ms. ms @ [?m]) us) =
        snd (spec_private (map fst us) (c_str receiver) sender m)"
      using touch_fst(2) [OF chat_repD(1) [OF rep] u(1)] Some u(2)
      by (simp add: spec_private_def by_name_users deliver_def new_chatroom_message_def)
    moreover have "send_private_msg cs receiver sender m = Some (CHATROOM_SUCCESS, cs')"
      using get Some cs'(1) af(4) cstr(3) al by (simp add: send_private_msg_def)
    ultimately show ?thesis using cs'(2) Some by (auto simp: spec_private_def by_name_users)
  qed
qed

lemma poll_ok:
  assumes rep: "chat_rep junk cs us"
  shows "\<exists>cs' us'. chat_step junk cs (CPoll i n) = Some (fst (spec_chat_step (map fst us) (CPoll i n)), cs') \<and>
    chat_rep junk cs' us' \<and> map fst us' = snd (spec_chat_step (map fst us) (CPoll i n))"
proof (cases "n = 0 \<or> find (\<lambda>u. user_id u = i) us = None")
  case True
  with rep get_id [OF rep, of i] show ?thesis by (auto simp: chatroom_poll_def by_id_users)
next
  case False
  then obtain u where f: "n \<noteq> 0" "find (\<lambda>u. user_id u = i) us = Some u" by auto
  then have u: "u \<in> set us" "user_id u = i" by (auto simp: find_Some_iff)
  obtain mb where mb: "live_mbs cs (user_mb u) = Some mb" "mailbox_holds junk mb (user_msgs u)"
    using chat_repD(4) [OF rep] u(1) by (auto simp: objects_ok_def)
  let ?k = "length (user_msgs u) - poll_amount n (user_msgs u)"
  obtain mb' where mb': "chatroom_mailbox_poll mb n = Some (rev (drop ?k (user_msgs u)), mb')"
    "mailbox_holds junk mb' (take ?k (user_msgs u))"
    using mailbox_poll [OF mb(2), of n] by blast
  have "chatroom_poll cs i n = Some (CHATROOM_SUCCESS, Some (rev (drop ?k (user_msgs u))),
      cs\<lparr>live_mbs := (live_mbs cs)(user_mb u \<mapsto> mb')\<rparr>)"
    using f get_id [OF rep, of i] get_user(3) [OF rep u(1)] mb(1) mb'(1)
      mb_calls(1) [OF names_live_ok [OF rep refl subset_refl live_user [OF rep u(1)]]]
    by (simp add: chatroom_poll_def)
  moreover have "chat_rep junk (cs\<lparr>live_mbs := (live_mbs cs)(user_mb u \<mapsto> mb')\<rparr>)
      (touch (user_mb u) (take ?k) us)" 
    using chat_rep_touch [OF rep u(1), of mb' "take ?k"] mb'(2) by simp
  moreover have "map fst (touch (user_mb u) (take ?k) us) = snd (spec_chat_step (map fst us) (CPoll i n))"
    using touch_fst(1) [OF chat_repD(1) [OF rep] u(1), of "take ?k"] f u(2)
    by (simp add: by_id_users Let_def)
  ultimately show ?thesis using f by (auto simp: by_id_users Let_def)
qed

lemma valid_msg_iff: "valid_msg m \<longleftrightarrow> \<not> (length m = 0 \<or> length m > CHATROOM_MAX_MESSAGE_LEN)"
  by (auto simp: valid_msg_def CHATROOM_MAX_MESSAGE_LEN_def)

lemma chat_step_ok:
  assumes rep: "chat_rep junk cs us" and c: "cmd_ok c"
  shows "\<exists>cs' us'. chat_step junk cs c = Some (fst (spec_chat_step (map fst us) c), cs') \<and>
    chat_rep junk cs' us' \<and> map fst us' = snd (spec_chat_step (map fst us) c)"
proof -
  have user: "copy_str cs (handle u) = Some (user_name u)" if "find (\<lambda>u. user_id u = i) us = Some u" for i u
  proof -
    from that have "u \<in> set us" by (auto simp: find_Some_iff)
    then show ?thesis by (rule get_user(4) [OF rep])
  qed
  show ?thesis
  proof (cases c)
    case (CLogin i name)
    with login_ok [OF rep, of name i] c show ?thesis by (auto simp: with_status_def)
  next
    case (CLogout i)
    with logout_ok [OF rep, of i] show ?thesis by simp
  next
    case (CGetUsername i)
    with rep user get_id [OF rep, of i] show ?thesis
      by (cases "find (\<lambda>u. user_id u = i) us") (auto simp: chatroom_get_username_def by_id_users)
  next
    case (CSendGlobalFromId i m)
    show ?thesis
    proof (cases "find (\<lambda>u. user_id u = i) us")
      case None
      with rep get_id [OF rep, of i] CSendGlobalFromId show ?thesis
        by (auto simp: chatroom_send_global_msg_from_id_def with_status_def by_id_users valid_msg_iff)
    next
      case (Some u)
      with rep get_id [OF rep, of i] CSendGlobalFromId user [OF Some]
        send_global_ok [OF rep, of "user_name u" m] show ?thesis
        by (cases "valid_msg m")
          (auto simp: chatroom_send_global_msg_from_id_def with_status_def by_id_users valid_msg_iff)
    qed
  next
    case (CSendGlobal sender m)
    with rep send_global_ok [OF rep, of sender m] show ?thesis
      by (cases "valid_msg m") (auto simp: chatroom_send_global_msg_def with_status_def valid_msg_iff)
  next
    case (CSendPrivateFromId receiver i m)
    show ?thesis
    proof (cases "find (\<lambda>u. user_id u = i) us")
      case None
      with rep get_id [OF rep, of i] CSendPrivateFromId show ?thesis
        by (auto simp: chatroom_send_private_msg_from_id_def with_status_def by_id_users valid_msg_iff)
    next
      case (Some u)
      with rep get_id [OF rep, of i] CSendPrivateFromId user [OF Some] c
        private_ok [OF rep, of receiver "user_name u" m] show ?thesis
        by (cases "valid_msg m")
          (auto simp: chatroom_send_private_msg_from_id_def with_status_def by_id_users valid_msg_iff)
    qed
  next
    case (CSendPrivate receiver sender m)
    with rep private_ok [OF rep, of receiver sender m] c show ?thesis
      by (cases "valid_msg m") (auto simp: chatroom_send_private_msg_def with_status_def valid_msg_iff)
  next
    case (CPoll i n)
    with poll_ok [OF rep, of i n] show ?thesis by simp
  qed
qed

lemma chat_run_ok:
  "chat_rep junk cs us \<Longrightarrow> \<forall>c \<in> set cmds. cmd_ok c \<Longrightarrow>
   \<exists>cs' us'. chat_run junk cs cmds = Some (fst (spec_chat_run (map fst us) cmds), cs') \<and>
     chat_rep junk cs' us' \<and> map fst us' = snd (spec_chat_run (map fst us) cmds)"
proof (induction cmds arbitrary: cs us)
  case (Cons c cmds)
  obtain out ss where sp: "spec_chat_step (map fst us) c = (out, ss)" by fastforce
  obtain cs1 us1 where s1: "chat_step junk cs c = Some (out, cs1)" "chat_rep junk cs1 us1" "map fst us1 = ss"
    using chat_step_ok [OF Cons.prems(1), of c] Cons.prems(2) sp by auto
  with Cons.IH [OF s1(2)] Cons.prems(2) sp show ?case by (auto split: prod.split)
qed auto

section \<open>Deleting the state\<close>

text \<open>The objects left while the loop runs: those of the nodes not yet visited.\<close>

lemma delete_loop_ok:
  "hm_in_iteration (mailboxes cs) \<Longrightarrow>
   distinct (map (un_ptr \<circ> kv_key) (hm_remaining (mailboxes cs))) \<Longrightarrow>
   distinct (map kv_val (hm_remaining (mailboxes cs))) \<Longrightarrow>
   live_strs cs = set (map (un_ptr \<circ> kv_key) (hm_remaining (mailboxes cs))) \<Longrightarrow>
   dom (live_mbs cs) = set (map kv_val (hm_remaining (mailboxes cs))) \<Longrightarrow>
   \<forall>mb \<in> ran (live_mbs cs). \<exists>ms. mailbox_holds junk mb ms \<Longrightarrow>
   \<exists>hm. delete_users_loop cs = Some (cs\<lparr>mailboxes := hm, live_strs := {}, live_mbs := Map.empty\<rparr>) \<and>
     hm_same (mailboxes cs) hm"
proof (induction "hm_remaining (mailboxes cs)" arbitrary: cs)
  case Nil
  then show ?case by (subst delete_users_loop.simps) (intro exI [of _ "mailboxes cs"], cases cs, simp add: hm_next_end)
next
  case (Cons n ns)
  note rem = Cons.hyps(2) [symmetric]
  obtain hm where hm: "hm_next_kvp (mailboxes cs) = (Some (pair_of n), hm)" "hm_in_iteration hm"
    "hm_same (mailboxes cs) hm" "hm_remaining hm = ns"
    using hm_next_more [OF Cons.prems(1) rem] by blast
  let ?p = "un_ptr (kv_key n)"
  define cs2 where "cs2 = cs\<lparr>mailboxes := hm, live_strs := live_strs cs - {?p},
    live_mbs := (live_mbs cs)(kv_val n := None)\<rparr>"
  have "kv_val n \<in> dom (live_mbs cs)" using Cons.prems(5) rem by simp
  then obtain mb where mb: "live_mbs cs (kv_val n) = Some mb" by blast
  then obtain ms where "mailbox_holds junk mb ms" using Cons.prems(6) by (meson ranI)
  then have free: "delete_chatroom_mailbox mb = Some ms" by (rule mailbox_delete)
  have "free_str (kv_key n) (cs\<lparr>mailboxes := hm\<rparr>) = Some (cs\<lparr>mailboxes := hm, live_strs := live_strs cs - {?p}\<rparr>)"
    using Cons.prems(4) rem by (simp add: free_str_def)
  with free mb hm(1) have code: "delete_users_loop cs = delete_users_loop cs2"
    by (subst delete_users_loop.simps) (simp add: free_mb_def cs2_def)
  have sel: "mailboxes cs2 = hm" "live_strs cs2 = live_strs cs - {?p}"
    "live_mbs cs2 = (live_mbs cs)(kv_val n := None)" by (simp_all add: cs2_def)
  have "\<exists>hm'. delete_users_loop cs2 = Some (cs2\<lparr>mailboxes := hm', live_strs := {}, live_mbs := Map.empty\<rparr>) \<and>
      hm_same (mailboxes cs2) hm'"
  proof (rule Cons.hyps(1))
    show "\<forall>mb \<in> ran (live_mbs cs2). \<exists>ms. mailbox_holds junk mb ms"
      using Cons.prems(6) unfolding sel by (auto simp: ran_def)
  qed (use Cons.prems rem hm in \<open>auto simp: sel\<close>)
  then obtain hm' where "delete_users_loop cs2 = Some (cs2\<lparr>mailboxes := hm', live_strs := {}, live_mbs := Map.empty\<rparr>)"
    "hm_same hm hm'" by (auto simp: sel)
  then have "delete_users_loop cs = Some (cs\<lparr>mailboxes := hm', live_strs := {}, live_mbs := Map.empty\<rparr>)"
    "hm_same (mailboxes cs) hm'"
    using code hm_same_trans [OF hm(3)] by (simp_all add: cs2_def)
  then show ?case by blast
qed

lemma delete_nodes: "delete_hash_map hm = hm_nodes hm"
proof -
  have "fold (\<lambda>chain freed. freed @ chain) css ns = ns @ concat css" for css and ns :: "('a, 'b) kvh list"
    by (induction css arbitrary: ns) auto
  then show ?thesis by (simp add: delete_hash_map_def hm_nodes_def)
qed

lemma delete_state_ok:
  assumes rep: "chat_rep junk cs us"
  shows "delete_chatroom_state cs = Some ({}, Map.empty, length us, length us)"
proof -
  let ?hm = "hm_reset_iterator (mailboxes cs)"
  let ?cs = "cs\<lparr>mailboxes := ?hm\<rparr>"
  have ok: "users_ok us" and ob: "objects_ok junk cs us" using chat_repD(1,4) [OF rep] by simp_all
  note it = name_key.rel_in_iteration [OF chat_repD(3) [OF rep]]
  note nodes = mailbox_nodes [OF rep]
  have len: "length (hm_nodes hm) = length us" if "hm_same (mailboxes cs) hm" for hm
  proof -
    have "length (hm_nodes (mailboxes cs)) = length us" using nodes(2) by (metis size_mset length_map)
    then show ?thesis using hm_same_sel(5) [OF that] by (simp add: hm_nodes_def)
  qed
  have "length (hm_nodes (id_map cs)) = length us"
    using id_key.num_keys_refines [OF chat_repD(2) [OF rep]] chat_repD(2) [OF rep]
    by (simp add: id_key.rel_def id_key.inv_def)
  moreover have "\<exists>hm. delete_users_loop ?cs = Some (?cs\<lparr>mailboxes := hm, live_strs := {}, live_mbs := Map.empty\<rparr>) \<and>
      hm_same (mailboxes ?cs) hm"
  proof (rule delete_loop_ok)
    show "\<forall>mb \<in> ran (live_mbs ?cs). \<exists>ms. mailbox_holds junk mb ms"
    proof
      fix mb assume "mb \<in> ran (live_mbs ?cs)"
      then obtain a where a: "live_mbs cs a = Some mb" by (auto simp: ran_def)
      then obtain u where u: "u \<in> set us" "a = user_mb u" using ob by (force simp: objects_ok_def)
      then obtain mb' where "live_mbs cs (user_mb u) = Some mb'" "mailbox_holds junk mb' (user_msgs u)"
        using ob by (auto simp: objects_ok_def)
      with a u(2) show "\<exists>ms. mailbox_holds junk mb ms" by auto
    qed
    show "distinct (map (un_ptr \<circ> kv_key) (hm_remaining (mailboxes ?cs)))"
      "distinct (map kv_val (hm_remaining (mailboxes ?cs)))"
      using ok mset_eq_imp_distinct_iff [OF nodes(2)] mset_eq_imp_distinct_iff [OF nodes(3)] it(3)
      by (simp_all add: users_ok_def)
    show "live_strs ?cs = set (map (un_ptr \<circ> kv_key) (hm_remaining (mailboxes ?cs)))"
      "dom (live_mbs ?cs) = set (map kv_val (hm_remaining (mailboxes ?cs)))"
      using mset_eq_setD [OF nodes(2)] mset_eq_setD [OF nodes(3)] ob it(3)
      by (simp_all add: objects_ok_def)
  qed (use it(1) in simp)
  then obtain hm where "delete_users_loop ?cs = Some (?cs\<lparr>mailboxes := hm, live_strs := {}, live_mbs := Map.empty\<rparr>)"
    "hm_same ?hm hm" by auto
  moreover have "hm_same (mailboxes cs) hm"
    using hm_same_trans [OF _ \<open>hm_same ?hm hm\<close>] hm_reset_ok [of "mailboxes cs"] chat_repD(3) [OF rep]
    by (simp add: name_key.rel_def name_key.inv_def)
  ultimately show ?thesis using len by (simp add: delete_chatroom_state_def delete_nodes)
qed

section \<open>Properties\<close>

fun push_all ::
    "chatroom_mailbox_t \<Rightarrow> chatroom_message_t list \<Rightarrow> chatroom_mailbox_t option" where
  "push_all mb [] = Some mb"
| "push_all mb (m # ms) = do { mb' \<leftarrow> chatroom_mailbox_push mb m; push_all mb' ms }"

lemma push_all_ok:
  "mailbox_holds junk mb ms0 \<Longrightarrow> \<exists>mb'. push_all mb ms = Some mb' \<and> mailbox_holds junk mb' (ms0 @ ms)"
proof (induction ms arbitrary: mb ms0)
  case (Cons m ms)
  obtain mb1 where "chatroom_mailbox_push mb m = Some mb1" "mailbox_holds junk mb1 (ms0 @ [m])"
    using mailbox_push [OF Cons.prems] by blast
  with Cons.IH [of mb1 "ms0 @ [m]"] show ?case by simp
qed simp

text \<open>A mailbox is a stack: after any messages have been pushed on a new one, a poll for \<open>n\<close> returns the
  newest of them, the last pushed first, and leaves the older ones for later polls.\<close>

theorem mailbox_newest_first:
  "\<exists>mb mb'. push_all (new_chatroom_mailbox junk) ms = Some mb \<and>
     chatroom_mailbox_poll mb n = Some (rev (drop (length ms - poll_amount n ms) ms), mb')"
proof -
  obtain mb where "push_all (new_chatroom_mailbox junk) ms = Some mb" "mailbox_holds junk mb ms"
    using push_all_ok [OF mailbox_new, of junk ms] by auto
  with mailbox_poll [of junk mb ms n] show ?thesis by blast
qed

text \<open>C31. The chatroom refines a list of sessions: whatever commands the clients send, in whatever
  order, every operation ends without undefined behaviour and answers what the specification
  answers: a login takes a valid name that no session has, messages reach every session or the
  one named, a poll takes the newest messages first, and only registered channels are served.
  Deleting the state afterwards frees every name and mailbox, and one node of each map for every
  session.\<close>

theorem chatroom_refines:
  assumes "new_chatroom_state ji jn1 jn2 = Some cs" "\<forall>c \<in> set cmds. cmd_ok c"
  shows "\<exists>cs'. chat_run junk cs cmds = Some (fst (spec_chat_run [] cmds), cs') \<and>
    delete_chatroom_state cs' =
      Some ({}, Map.empty, length (snd (spec_chat_run [] cmds)), length (snd (spec_chat_run [] cmds)))"
proof -
  have "chat_rep junk cs []" using new_state_rep [of ji jn1 jn2 junk] assms(1) by simp
  from chat_run_ok [OF this assms(2)] obtain cs' us where
    "chat_run junk cs cmds = Some (fst (spec_chat_run [] cmds), cs')" "chat_rep junk cs' us"
    "map fst us = snd (spec_chat_run [] cmds)" by auto
  with delete_state_ok [of junk cs' us] show ?thesis by (metis length_map)
qed

theorem chatroom_refines_witness:
  "\<exists>cs cs'. new_chatroom_state 3 [] [] = Some cs \<and>
     chat_run None cs [CLogin 1 [97, 98, 0], CLogin 2 [97, 98, 0], CLogin 2 [99, 0],
       CSendGlobalFromId 1 [104], CSendPrivateFromId [99, 0] 1 [105], CLogout 1, CPoll 2 5] =
     Some ([CStatus CHATROOM_SUCCESS, CStatus CHATROOM_USERNAME_TAKEN, CStatus CHATROOM_SUCCESS,
       CStatus CHATROOM_SUCCESS, CStatus CHATROOM_SUCCESS, CStatus CHATROOM_SUCCESS,
       CPolled CHATROOM_SUCCESS (Some [\<lparr>general_msg = False, cm_user = [97, 98], cm_msg = [105]\<rparr>,
         \<lparr>general_msg = True, cm_user = [97, 98], cm_msg = [104]\<rparr>])], cs') \<and>
     delete_chatroom_state cs' = Some ({}, Map.empty, 1, 1)"
proof -
  let ?cmds = "[CLogin 1 [97, 98, 0], CLogin 2 [97, 98, 0], CLogin 2 [99, 0],
       CSendGlobalFromId 1 [104], CSendPrivateFromId [99, 0] 1 [105], CLogout 1, CPoll 2 5]"
  obtain cs where cs: "new_chatroom_state 3 [] [] = Some cs" using new_state_rep by blast
  have "spec_chat_run [] ?cmds = ([CStatus CHATROOM_SUCCESS, CStatus CHATROOM_USERNAME_TAKEN,
      CStatus CHATROOM_SUCCESS, CStatus CHATROOM_SUCCESS, CStatus CHATROOM_SUCCESS, CStatus CHATROOM_SUCCESS,
      CPolled CHATROOM_SUCCESS (Some [\<lparr>general_msg = False, cm_user = [97, 98], cm_msg = [105]\<rparr>,
        \<lparr>general_msg = True, cm_user = [97, 98], cm_msg = [104]\<rparr>])],
      [\<lparr>ses_id = 2, ses_name = [99], ses_msgs = []\<rparr>])"
    by (simp add: spec_login_def valid_name_def name_char_def c_str_def by_id_def by_name_def valid_msg_def
        spec_global_def spec_private_def deliver_def poll_amount_def Let_def)
  with chatroom_refines [OF cs, of ?cmds None] cs show ?thesis by auto
qed

end
