(* ===== verification/Chat_Server.thy ===== *)
theory Chat_Server
  imports Chat_Room Chrpc_Client
begin

text \<open>
  The chatroom example's server (\<open>chrpc/examples/chatroom/server.c\<close>): the four endpoints, the
  disconnect handler and the endpoint set.  An endpoint function gives the command, the return
  value, the blocks allocated minus those freed for it, and the new chatroom state; \<open>None\<close> is
  undefined behaviour.  To the server, whose endpoints are total functions, the state is an
  option: it becomes \<open>None\<close> when an endpoint's behaviour is undefined, and stays so.

  The theorems compose the parts: a client's call over a channel, the worker that serves it, the
  endpoint and the chatroom's maps and mailboxes together behave as one step of the list of
  sessions of \<open>Chat_Room\<close>, and every reply fits into the server's messages.
\<close>

section \<open>Return values\<close>

definition new_status_struct :: "byte \<Rightarrow> byte list \<Rightarrow> (chrpc_value_t option \<times> int) option" where
  "new_status_struct code m =
     (case new_chrpc_b8_value code of (b, n0) \<Rightarrow> do {
        (s, n1) \<leftarrow> new_chrpc_str_value m;
        (v, n2) \<leftarrow> new_chrpc_struct_value_va [b, s];
        Some (v, n0 + n1 + n2) })"

definition new_chatroom_server_success :: "(chrpc_value_t option \<times> int) option" where
  "new_chatroom_server_success = new_status_struct 0 (literal '''')"

definition new_chatroom_server_error :: "byte list \<Rightarrow> (chrpc_value_t option \<times> int) option" where
  "new_chatroom_server_error m = new_status_struct 1 m"

section \<open>Endpoints\<close>

type_synonym endpoint_result =
  "(chrpc_server_command_t \<times> chrpc_value_t option \<times> int \<times> chatroom_state_t) option"

text \<open>\<open>args[i]->value->str\<close>.\<close>

definition arg_str :: "chrpc_value_t list \<Rightarrow> nat \<Rightarrow> byte list option" where
  "arg_str args i =
     (if i < length args then (case v_value (args ! i) of IVStr s \<Rightarrow> Some s | _ \<Rightarrow> None) else None)"

text \<open>\<open>s_append_cstr\<close> on the characters of a string.\<close>

definition append_cstr :: "byte list \<Rightarrow> byte list \<Rightarrow> byte list option" where
  "append_cstr xs c = do { n \<leftarrow> c_strlen (map Some c); Some (xs @ take n c) }"

definition reply_status :: "chatroom_status_t \<Rightarrow> chatroom_state_t \<Rightarrow> endpoint_result" where
  "reply_status status cs =
     do { (ret, n) \<leftarrow> (if status = CHATROOM_SUCCESS then new_chatroom_server_success
                      else new_chatroom_server_error (chatroom_status_as_literal status));
          Some (CHRPC_SC_KEEP_ALIVE, ret, n, cs) }"

definition chatroom_login_ep ::
    "nat option \<Rightarrow> channel_id_t \<Rightarrow> chatroom_state_t \<Rightarrow> chrpc_value_t list \<Rightarrow> endpoint_result" where
  "chatroom_login_ep junk chn_id cs args =
     do { username \<leftarrow> arg_str args 0;
          (status, cs1) \<leftarrow> chatroom_login junk cs chn_id username;
          (if status = CHATROOM_SUCCESS then
             do { root_sender \<leftarrow> string_chars (literal ''$ROOT'');
                  login_msg1 \<leftarrow> append_cstr [] username;
                  login_msg \<leftarrow> append_cstr login_msg1 (literal '' has logged in'');
                  (sent, cs2) \<leftarrow> chatroom_send_global_msg cs1 root_sender login_msg;
                  reply_status status cs2 }
           else reply_status status cs1) }"

definition chatroom_send_global_msg_ep ::
    "channel_id_t \<Rightarrow> chatroom_state_t \<Rightarrow> chrpc_value_t list \<Rightarrow> endpoint_result" where
  "chatroom_send_global_msg_ep chn_id cs args =
     do { msg_cstr \<leftarrow> arg_str args 0;
          m \<leftarrow> string_chars msg_cstr;
          (status, cs1) \<leftarrow> chatroom_send_global_msg_from_id cs chn_id m;
          reply_status status cs1 }"

definition chatroom_send_private_msg_ep ::
    "channel_id_t \<Rightarrow> chatroom_state_t \<Rightarrow> chrpc_value_t list \<Rightarrow> endpoint_result" where
  "chatroom_send_private_msg_ep chn_id cs args =
     do { receiver_cstr \<leftarrow> arg_str args 0;
          msg_cstr \<leftarrow> arg_str args 1;
          m \<leftarrow> string_chars msg_cstr;
          (status, cs1) \<leftarrow> chatroom_send_private_msg_from_id cs receiver_cstr chn_id m;
          reply_status status cs1 }"

text \<open>The values of the messages; a message's strings are \<open>s_get_cstr\<close>.\<close>

fun message_values :: "chatroom_message_t list \<Rightarrow> (chrpc_value_t list \<times> int) option" where
  "message_values [] = Some ([], 0)"
| "message_values (m # ms) =
     (case new_chrpc_b8_value (if general_msg m then 1 else 0) of (b, n0) \<Rightarrow> do {
        (u, n1) \<leftarrow> new_chrpc_str_value (cm_user m @ [0]);
        (t, n2) \<leftarrow> new_chrpc_str_value (cm_msg m @ [0]);
        (v, n3) \<leftarrow> new_chrpc_struct_value_va [b, u, t];
        v' \<leftarrow> v;
        (vs, n4) \<leftarrow> message_values ms;
        Some (v' # vs, n0 + n1 + n2 + n3 + n4) })"

text \<open>The block \<open>rpc_msg_buf\<close> is handed to the array; \<open>msg_buf\<close> is freed.\<close>

definition chatroom_poll_ep ::
    "channel_id_t \<Rightarrow> chatroom_state_t \<Rightarrow> chrpc_value_t list \<Rightarrow> endpoint_result" where
  "chatroom_poll_ep chn_id cs args =
     do { (status, written, cs1) \<leftarrow> chatroom_poll cs chn_id 5;
          (if status = CHATROOM_SUCCESS \<and> the written \<noteq> [] then
             do { (rpc_msg_buf, n) \<leftarrow> message_values (the written);
                  (ret, n') \<leftarrow> new_chrpc_composite_nempty_array_value rpc_msg_buf (of_nat (length rpc_msg_buf));
                  Some (CHRPC_SC_KEEP_ALIVE, ret, n + 1 + n', cs1) }
           else
             do { t \<leftarrow> new_chrpc_struct_type [CHRPC_BYTE_T, CHRPC_STRING_T, CHRPC_STRING_T];
                  (case new_chrpc_composite_empty_array_value t of (ret, n) \<Rightarrow>
                     Some (CHRPC_SC_KEEP_ALIVE, ret, int (delete_chrpc_type t) + n, cs1)) }) }"

definition chatroom_on_disconnect :: "channel_id_t \<Rightarrow> chatroom_state_t \<Rightarrow> chatroom_state_t option" where
  "chatroom_on_disconnect chn_id cs =
     do { username \<leftarrow> chatroom_get_username cs chn_id;
          (status, cs1) \<leftarrow> chatroom_logout cs chn_id;
          (case username of
             None \<Rightarrow> Some cs1
           | Some u \<Rightarrow>
               if status = CHATROOM_SUCCESS then
                 do { root_sender \<leftarrow> string_chars (literal ''$ROOT'');
                      logout_msg \<leftarrow> append_cstr ([] @ u) (literal '' has logged out'');
                      (sent, cs2) \<leftarrow> chatroom_send_global_msg cs1 root_sender logout_msg;
                      Some cs2 }
               else Some cs1) }"

section \<open>The server\<close>

text \<open>The endpoints and the handler as the server sees them.\<close>

definition chat_ep ::
    "(channel_id_t \<Rightarrow> chatroom_state_t \<Rightarrow> chrpc_value_t list \<Rightarrow> endpoint_result) \<Rightarrow>
     chatroom_state_t option chrpc_endpoint_ft" where
  "chat_ep ep chn_id st args =
     (case do { cs \<leftarrow> st; ep chn_id cs args } of
        None \<Rightarrow> (CHRPC_SC_KEEP_ALIVE, None, None)
      | Some (cmd, ret, n, cs') \<Rightarrow> (cmd, ret, Some cs'))"

definition run_chat_server_attrs :: "chatroom_state_t option chrpc_server_attrs_t" where
  "run_chat_server_attrs =
     \<lparr>sa_max_msg_size = 0x1000, max_connections = 20, num_workers = 4, worker_usleep_amt = 1000,
      idle_timeout = 10,
      on_disconnect = Some (\<lambda>chn_id st. do { cs \<leftarrow> st; chatroom_on_disconnect chn_id cs })\<rparr>"

definition run_chat_server_eps :: "nat option \<Rightarrow> chatroom_state_t option chrpc_endpoint_t list option" where
  "run_chat_server_eps junk =
     do { (login, n1) \<leftarrow> new_chrpc_endpoint_va (literal ''login'') (chat_ep (chatroom_login_ep junk))
            (new_chrpc_struct_type [CHRPC_BYTE_T, CHRPC_STRING_T]) [CHRPC_STRING_T];
          (send_global, n2) \<leftarrow> new_chrpc_endpoint_va (literal ''send_global_message'')
            (chat_ep chatroom_send_global_msg_ep)
            (new_chrpc_struct_type [CHRPC_BYTE_T, CHRPC_STRING_T]) [CHRPC_STRING_T];
          (send_private, n3) \<leftarrow> new_chrpc_endpoint_va (literal ''send_private_message'')
            (chat_ep chatroom_send_private_msg_ep)
            (new_chrpc_struct_type [CHRPC_BYTE_T, CHRPC_STRING_T]) [CHRPC_STRING_T, CHRPC_STRING_T];
          (poll, n4) \<leftarrow> new_chrpc_endpoint_argless (literal ''poll'') (chat_ep chatroom_poll_ep)
            (map_option Array (new_chrpc_struct_type [CHRPC_BYTE_T, CHRPC_STRING_T, CHRPC_STRING_T]));
          e1 \<leftarrow> login; e2 \<leftarrow> send_global; e3 \<leftarrow> send_private; e4 \<leftarrow> poll;
          Some [e1, e2, e3, e4] }"

section \<open>The values made\<close>

definition status_value :: "byte \<Rightarrow> byte list \<Rightarrow> chrpc_value_t" where
  "status_value code m = \<lparr>v_type = Struct [CHRPC_BYTE_T, CHRPC_STRING_T],
     v_value = IVStruct [IVNumber [code], IVStr (m @ [0])]\<rparr>"

definition status_reply :: "chatroom_status_t \<Rightarrow> chrpc_value_t" where
  "status_reply status =
     (if status = CHATROOM_SUCCESS then status_value 0 []
      else status_value 1 (c_str (chatroom_status_as_literal status)))"

definition message_type :: chrpc_type_t where
  "message_type = Struct [CHRPC_BYTE_T, CHRPC_STRING_T, CHRPC_STRING_T]"

definition message_iv :: "chatroom_message_t \<Rightarrow> chrpc_inner_value_t" where
  "message_iv m = IVStruct [IVNumber [if general_msg m then 1 else 0], IVStr (cm_user m @ [0]), IVStr (cm_msg m @ [0])]"

definition poll_value :: "chatroom_message_t list \<Rightarrow> chrpc_value_t" where
  "poll_value ms = \<lparr>v_type = Array message_type, v_value = IVEntries (map message_iv ms) (of_nat (length ms))\<rparr>"

lemma cstr_c_str: "cstr s = c_str s @ [0]"
  by (simp add: cstr_def c_str_def)

lemma new_str_value_ok:
  "0 \<in> set s \<Longrightarrow> new_chrpc_str_value s = Some (\<lparr>v_type = CHRPC_STRING_T, v_value = IVStr (c_str s @ [0])\<rparr>, 3)"
  by (simp add: new_chrpc_str_value_def dup_cstr_ok cstr_c_str iv_value_def new_chrpc_value_from_pair_def)

lemma new_status_struct_ok:
  assumes "0 \<in> set m"
  shows "new_status_struct code m =
    Some (Some (status_value code (c_str m)), int (value_blocks (status_value code (c_str m))))"
  by (simp add: new_status_struct_def new_str_value_ok [OF assms] new_chrpc_b8_value_def iv_value_def
      new_chrpc_value_from_pair_def new_chrpc_struct_value_va_def Let_def new_chrpc_struct_value_def
      CHRPC_MAX_STRUCT_FIELDS_def frees_def status_value_def value_blocks_def)

lemma literal_terminated [simp]: "0 \<in> set (literal s)"
  by (simp add: literal_def)

lemma status_literal_terminated [simp]: "0 \<in> set (chatroom_status_as_literal status)"
  by (cases status) simp_all

lemma reply_status_ok:
  "reply_status status cs =
   Some (CHRPC_SC_KEEP_ALIVE, Some (status_reply status), int (value_blocks (status_reply status)), cs)"
  by (simp add: reply_status_def new_chatroom_server_success_def new_chatroom_server_error_def
      new_status_struct_ok status_reply_def) (simp add: c_str_def literal_def)

definition msg_ok :: "chatroom_message_t \<Rightarrow> bool" where
  "msg_ok m \<longleftrightarrow> no_nul (cm_user m) \<and> no_nul (cm_msg m) \<and> length (cm_user m) \<le> 20 \<and> length (cm_msg m) \<le> 256"

lemma c_str_terminated [simp]: "no_nul s \<Longrightarrow> c_str (s @ [0]) = s"
  by (simp add: c_str_def no_nul_def takeWhile_append)

lemma message_values_ok:
  "\<forall>m \<in> set ms. msg_ok m \<Longrightarrow>
   message_values ms = Some (map (\<lambda>m. \<lparr>v_type = message_type, v_value = message_iv m\<rparr>) ms,
     int (sum_list (map (\<lambda>m. value_blocks \<lparr>v_type = message_type, v_value = message_iv m\<rparr>) ms)))"
proof (induction ms)
  case (Cons m ms)
  then have "no_nul (cm_user m)" "no_nul (cm_msg m)" by (simp_all add: msg_ok_def)
  with Cons show ?case
    by (simp add: new_str_value_ok new_chrpc_b8_value_def iv_value_def new_chrpc_value_from_pair_def
      new_chrpc_struct_value_va_def Let_def new_chrpc_struct_value_def
      CHRPC_MAX_STRUCT_FIELDS_def frees_def message_type_def message_iv_def value_blocks_def)
qed simp

lemma sum_message_blocks:
  "sum_list (map value_blocks (map (\<lambda>m. \<lparr>v_type = message_type, v_value = message_iv m\<rparr>) ms)) =
   sum_list (map (iv_blocks \<circ> message_iv) ms) + length ms * (delete_chrpc_type message_type + 1)"
  by (induction ms) (simp_all add: value_blocks_def)

lemma poll_array_ok:
  fixes ms :: "chatroom_message_t list"
  assumes "ms \<noteq> []" "length ms < 2 ^ 32"
  defines "vs \<equiv> map (\<lambda>m. \<lparr>v_type = message_type, v_value = message_iv m\<rparr>) ms"
  shows "\<exists>n. new_chrpc_composite_nempty_array_value vs (of_nat (length vs)) = Some (Some (poll_value ms), n) \<and>
    int (sum_list (map value_blocks vs)) + 1 + n = int (value_blocks (poll_value ms))"
proof -
  define L where "L = (of_nat (length vs) :: u32)"
  have u: "unat L = length ms" using assms(2) by (simp add: L_def vs_def)
  have "L \<noteq> 0" using u assms(1) by auto
  obtain m ms' where ms: "ms = m # ms'" using assms(1) by (cases ms) auto
  have all: "list_all (\<lambda>e. chrpc_type_equals message_type (v_type e)) (tl vs)"
    by (auto simp: vs_def ms list_all_iff equals_ok)
  have len: "length vs = length ms" by (simp add: vs_def)
  have sum: "sum_list (map value_blocks vs) = sum_list (map (iv_blocks \<circ> message_iv) ms) +
      length ms * (delete_chrpc_type message_type + 1)"
    unfolding vs_def by (rule sum_message_blocks)
  have del: "sum_list (map (delete_chrpc_type \<circ> v_type) (tl vs)) = (length ms - 1) * delete_chrpc_type message_type"
    by (simp add: vs_def ms comp_def sum_list_triv)
  have made: "new_chrpc_composite_nempty_array_value vs L = Some (Some (poll_value ms),
      3 + 1 - int (sum_list (map (delete_chrpc_type \<circ> v_type) (tl vs)) + length ms + 1))"
    using \<open>L \<noteq> 0\<close> all u len
    by (simp add: new_chrpc_composite_nempty_array_value_def Let_def iv_array_value_def
        new_chrpc_value_from_pair_def poll_value_def L_def)
      (simp add: vs_def ms message_type_def)
  have blocks: "int (value_blocks (poll_value ms)) =
      int (delete_chrpc_type message_type) + 1 + int (sum_list (map (iv_blocks \<circ> message_iv) ms)) + 1 + 1 + 1"
    by (simp add: value_blocks_def poll_value_def frees_def ms comp_def)
  have split: "length ms * (delete_chrpc_type message_type + 1) =
      (length ms - 1) * delete_chrpc_type message_type + delete_chrpc_type message_type + length ms"
    by (simp add: ms)
  show ?thesis
    unfolding L_def [symmetric] sum del split
    by (rule exI, rule conjI, rule made) (simp add: blocks del)
qed

text \<open>They keep the contract of return values, and they are small.\<close>

lemma status_value_ok:
  assumes "no_nul m" "length m < 256"
  shows "ret_ok (Some (status_value code m))" "length (value_enc (status_value code m)) = 10 + length m"
    "received (status_value code m) = status_value code m"
proof -
  have cstr: "cstr (m @ [0]) = m @ [0]" using assms(1) by (simp add: cstr_c_str)
  have raw: "raw_wt (v_type (status_value code m)) (v_value (status_value code m))"
    "terminated (v_value (status_value code m))"
    using assms(2) by (simp_all add: status_value_def chrpc_blockable_type_cell_size_def)
  show "received (status_value code m) = status_value code m"
    by (simp add: received_def status_value_def cstr)
  show enc: "length (value_enc (status_value code m)) = 10 + length m"
    by (simp add: value_enc_def status_value_def cstr str_enc_def)
  then show "ret_ok (Some (status_value code m))"
    using delete_exact [OF raw] raw_wt_terminated(1) [OF raw] assms(2)
    by (simp add: ret_ok_def wf_value_def) (simp add: status_value_def CHRPC_MAX_STRUCT_FIELDS_def)
qed

lemma status_text: "no_nul (c_str (chatroom_status_as_literal status))"
  "length (c_str (chatroom_status_as_literal status)) \<le> 29"
  using c_string(4) status_literal_terminated by (simp, cases status) (simp_all add: c_str_def literal_def)

lemma status_reply_ok:
  "ret_ok (Some (status_reply status))" "length (value_enc (status_reply status)) \<le> 39"
  "received (status_reply status) = status_reply status"
  using status_value_ok [OF status_text(1), of status] status_text(2) [of status]
    status_value_ok [of "[]"] by (simp_all add: status_reply_def no_nul_def)

lemma message_iv_ok:
  assumes "msg_ok m"
  shows "raw_wt message_type (message_iv m)" "terminated (message_iv m)"
    "trim message_type (message_iv m) = message_iv m" "length (raw_enc (message_iv m)) \<le> 287"
proof -
  have c: "cstr (cm_user m @ [0]) = cm_user m @ [0]" "cstr (cm_msg m @ [0]) = cm_msg m @ [0]"
    using assms by (simp_all add: msg_ok_def cstr_c_str)
  show "raw_wt message_type (message_iv m)" "terminated (message_iv m)"
    using assms by (simp_all add: msg_ok_def message_type_def message_iv_def chrpc_blockable_type_cell_size_def)
  show "trim message_type (message_iv m) = message_iv m" "length (raw_enc (message_iv m)) \<le> 287"
    using assms by (simp_all add: message_iv_def message_type_def str_enc_def c msg_ok_def)
qed

lemma poll_value_ok:
  assumes ok: "\<forall>m \<in> set ms. msg_ok m" and len: "length ms \<le> 5"
  shows "ret_ok (Some (poll_value ms))" "length (value_enc (poll_value ms)) \<le> 1445"
    "received (poll_value ms) = poll_value ms"
proof -
  have u: "unat (of_nat (length ms) :: u32) = length ms" using len by simp
  have "list_all2 raw_wt (replicate (length ms) message_type) (map message_iv ms)"
    using ok message_iv_ok(1) by (simp add: list_all2_conv_all_nth)
  then have raw: "raw_wt (v_type (poll_value ms)) (v_value (poll_value ms))" "terminated (v_value (poll_value ms))"
    using ok message_iv_ok(2) u
    by (auto simp: poll_value_def raw_wts_list composite_def message_type_def chrpc_type_is_primitive_def
        chrpc_type_id_is_primitive_def)
  have trims: "trims (replicate (length ms) message_type) (map message_iv ms) = map message_iv ms"
    using ok message_iv_ok(3) by (induction ms) simp_all
  have "length (concat (map (raw_enc \<circ> message_iv) ms)) \<le> length ms * 287"
    using ok message_iv_ok(4) by (induction ms) fastforce+
  then have "length (value_enc (poll_value ms)) \<le> 10 + length ms * 287"
    by (simp add: value_enc_def poll_value_def u trims comp_def) (simp add: message_type_def)
  then show enc: "length (value_enc (poll_value ms)) \<le> 1445" using len by simp
  show "received (poll_value ms) = poll_value ms" by (simp add: received_def poll_value_def u trims)
  show "ret_ok (Some (poll_value ms))"
    using delete_exact [OF raw] raw_wt_terminated(1) [OF raw] enc
    by (simp add: ret_ok_def wf_value_def) (simp add: poll_value_def message_type_def CHRPC_MAX_STRUCT_FIELDS_def)
qed

section \<open>Specification: requests on the list of sessions\<close>

definition chars :: "string \<Rightarrow> byte list" where
  "chars s = map of_char s"

datatype chat_request = Login "byte list" | SendGlobal "byte list" | SendPrivate "byte list" "byte list" | Poll

fun serve_chat :: "session list \<Rightarrow> channel_id_t \<Rightarrow> chat_request \<Rightarrow> chrpc_value_t \<times> session list" where
  "serve_chat ss i (Login name) =
     (case spec_login ss i name of (status, ss') \<Rightarrow>
        (status_reply status,
         if status = CHATROOM_SUCCESS then spec_global ss' (chars ''$ROOT'') (name @ chars '' has logged in'')
         else ss'))"
| "serve_chat ss i (SendGlobal m) =
     (if \<not> valid_msg m then (status_reply CHATROOM_INVALID_MESSAGE_LEN, ss)
      else case by_id ss i of
        None \<Rightarrow> (status_reply CHATROOM_CHANNEL_NOT_REGISTERED, ss)
      | Some s \<Rightarrow> (status_reply CHATROOM_SUCCESS, spec_global ss (ses_name s) m))"
| "serve_chat ss i (SendPrivate receiver m) =
     (if \<not> valid_msg m then (status_reply CHATROOM_INVALID_MESSAGE_LEN, ss)
      else case by_id ss i of
        None \<Rightarrow> (status_reply CHATROOM_CHANNEL_NOT_REGISTERED, ss)
      | Some s \<Rightarrow> apfst status_reply (spec_private ss receiver (ses_name s) m))"
| "serve_chat ss i Poll =
     (case by_id ss i of
        None \<Rightarrow> (poll_value [], ss)
      | Some s \<Rightarrow>
          let k = poll_amount 5 (ses_msgs s); keep = length (ses_msgs s) - k
          in (poll_value (rev (drop keep (ses_msgs s))),
              map (\<lambda>s. if ses_id s = i then s\<lparr>ses_msgs := take keep (ses_msgs s)\<rparr> else s) ss))"

definition chat_disconnect :: "session list \<Rightarrow> channel_id_t \<Rightarrow> session list" where
  "chat_disconnect ss i =
     (case by_id ss i of
        None \<Rightarrow> ss
      | Some s \<Rightarrow> spec_global (filter (\<lambda>s. ses_id s \<noteq> i) ss) (chars ''$ROOT'')
                    (ses_name s @ chars '' has logged out''))"

text \<open>The messages of a session fit into replies.\<close>

definition msgs_ok :: "session list \<Rightarrow> bool" where [inv_defs]:
  "msgs_ok ss \<longleftrightarrow> (\<forall>s \<in> set ss. \<forall>m \<in> set (ses_msgs s). msg_ok m)"

definition chat_ok :: "nat option \<Rightarrow> chatroom_state_t option \<Rightarrow> session list \<Rightarrow> bool" where [inv_defs]:
  "chat_ok junk st ss \<longleftrightarrow> (\<exists>cs us. st = Some cs \<and> chat_rep junk cs us \<and> map fst us = ss) \<and> msgs_ok ss"

lemma msgs_ok_global:
  "msgs_ok ss \<Longrightarrow> no_nul sender \<Longrightarrow> no_nul m \<Longrightarrow> length sender \<le> 20 \<Longrightarrow> length m \<le> 256 \<Longrightarrow>
   msgs_ok (spec_global ss sender m)"
  by (auto simp: msgs_ok_def spec_global_def deliver_def msg_ok_def)

lemma msgs_ok_private:
  "msgs_ok ss \<Longrightarrow> spec_private ss receiver sender m = (status, ss') \<Longrightarrow> no_nul sender \<Longrightarrow> no_nul m \<Longrightarrow>
   length sender \<le> 20 \<Longrightarrow> length m \<le> 256 \<Longrightarrow> msgs_ok ss'"
  by (auto simp: msgs_ok_def spec_private_def deliver_def msg_ok_def split: if_splits)

lemma msgs_ok_login: "msgs_ok ss \<Longrightarrow> msgs_ok (snd (spec_login ss i n))"
  by (auto simp: msgs_ok_def spec_login_def)

lemma msgs_ok_poll:
  "msgs_ok ss \<Longrightarrow> msgs_ok (map (\<lambda>s. if ses_id s = i then s\<lparr>ses_msgs := take k (ses_msgs s)\<rparr> else s) ss)"
  by (fastforce simp: msgs_ok_def dest: in_set_takeD)

lemma msgs_ok_filter: "msgs_ok ss \<Longrightarrow> msgs_ok (filter P ss)"
  by (auto simp: msgs_ok_def)

lemma chars_ok:
  "string_chars (literal ''$ROOT'') = Some (chars ''$ROOT'')" "no_nul (chars ''$ROOT'')"
  "length (chars ''$ROOT'') = 5"
  by (simp_all add: string_chars_def literal_def chars_def no_nul_def)

lemma append_chars:
  "append_cstr xs (literal '' has logged in'') = Some (xs @ chars '' has logged in'')"
  "append_cstr xs (literal '' has logged out'') = Some (xs @ chars '' has logged out'')"
  "no_nul (chars '' has logged in'')" "no_nul (chars '' has logged out'')"
  "length (chars '' has logged in'') = 14" "length (chars '' has logged out'') = 15"
  by (simp_all add: append_cstr_def literal_def chars_def no_nul_def)

lemma append_cstr_ok: "0 \<in> set c \<Longrightarrow> append_cstr xs c = Some (xs @ c_str c)"
  using c_string(1,2) [of c] by (simp add: append_cstr_def)

lemma no_nul_append [simp]: "no_nul (xs @ ys) \<longleftrightarrow> no_nul xs \<and> no_nul ys"
  by (auto simp: no_nul_def)

text \<open>A name announced by the server.\<close>

lemma announce_ok:
  assumes "chat_rep junk cs us" "valid_name n" "no_nul t" "length t \<le> 15"
  shows "\<exists>cs' us'. chatroom_send_global_msg cs (chars ''$ROOT'') (n @ t) = Some (CHATROOM_SUCCESS, cs') \<and>
    chat_rep junk cs' us' \<and> map fst us' = spec_global (map fst us) (chars ''$ROOT'') (n @ t)"
    "msgs_ok ss \<Longrightarrow> msgs_ok (spec_global ss (chars ''$ROOT'') (n @ t))"
proof -
  have v: "valid_msg (n @ t)" "length (n @ t) \<le> 256" "no_nul n"
    using assms(2,4) valid_name_no_nul by (auto simp: valid_msg_def valid_name_def)
  then show "\<exists>cs' us'. chatroom_send_global_msg cs (chars ''$ROOT'') (n @ t) = Some (CHATROOM_SUCCESS, cs') \<and>
      chat_rep junk cs' us' \<and> map fst us' = spec_global (map fst us) (chars ''$ROOT'') (n @ t)"
    using chat_step_ok [OF assms(1), of "CSendGlobal (chars ''$ROOT'') (n @ t)"]
    by (auto simp: with_status_def)
  show "msgs_ok (spec_global ss (chars ''$ROOT'') (n @ t))" if "msgs_ok ss"
    using msgs_ok_global [OF that] v assms(3) chars_ok by simp
qed

lemma rep_by_id:
  assumes "chat_rep junk cs us" "by_id (map fst us) i = Some s"
  shows "valid_name (ses_name s)"
proof -
  from assms(2) obtain u where u: "find (\<lambda>u. user_id u = i) us = Some u" "s = fst u"
    unfolding by_id_users by (auto simp del: surj_pair)
  from u(1) have "u \<in> set us" by (auto simp: find_Some_iff)
  with u(2) have "u \<in> set us" "s = fst u" by simp_all
  then show ?thesis using chat_repD(1) [OF assms(1)] by (simp add: users_ok_def)
qed

section \<open>The endpoints serve requests\<close>

text \<open>The result of an endpoint that keeps the channel alive.\<close>

abbreviation kept :: "chrpc_value_t \<Rightarrow> chatroom_state_t \<Rightarrow> endpoint_result" where
  "kept v cs \<equiv> Some (CHRPC_SC_KEEP_ALIVE, Some v, int (value_blocks v), cs)"

lemma login_ep_ok:
  assumes rep: "chat_rep junk cs us" and ok: "msgs_ok (map fst us)" and arg: "arg_str args 0 = Some name" "0 \<in> set name"
  shows "\<exists>cs' us'. chatroom_login_ep junk i cs args = kept (fst (serve_chat (map fst us) i (Login (c_str name)))) cs' \<and>
    chat_rep junk cs' us' \<and> map fst us' = snd (serve_chat (map fst us) i (Login (c_str name))) \<and> msgs_ok (map fst us')"
proof -
  obtain status ss where sp: "spec_login (map fst us) i (c_str name) = (status, ss)" by fastforce
  obtain cs1 us1 where l: "chatroom_login junk cs i name = Some (status, cs1)" "chat_rep junk cs1 us1" "map fst us1 = ss"
    using login_ok [OF rep arg(2), of i] sp by auto
  have ok1: "msgs_ok ss" using msgs_ok_login [OF ok, of i "c_str name"] sp by simp
  show ?thesis
  proof (cases "status = CHATROOM_SUCCESS")
    case True
    then have "valid_name (c_str name)" using sp by (auto simp: spec_login_def split: if_splits)
    note an = announce_ok [OF l(2) this append_chars(3)]
    obtain cs2 us2 where g: "chatroom_send_global_msg cs1 (chars ''$ROOT'') (c_str name @ chars '' has logged in'') =
        Some (CHATROOM_SUCCESS, cs2)" "chat_rep junk cs2 us2"
        "map fst us2 = spec_global ss (chars ''$ROOT'') (c_str name @ chars '' has logged in'')"
      using an(1) l(3) append_chars(5) by auto
    have "msgs_ok (map fst us2)" using an(2) [OF _ ok1] g(3) append_chars(5) by simp
    moreover have "chatroom_login_ep junk i cs args = kept (status_reply status) cs2"
      using True l(1) g(1) arg append_cstr_ok [OF arg(2), of "[]"]
      by (simp add: chatroom_login_ep_def chars_ok append_chars reply_status_ok)
    ultimately show ?thesis using True g(2,3) sp by auto
  next
    case False
    then show ?thesis using l sp ok1 arg by (auto simp: chatroom_login_ep_def reply_status_ok)
  qed
qed

lemma send_global_ep_ok:
  assumes rep: "chat_rep junk cs us" and ok: "msgs_ok (map fst us)" and arg: "arg_str args 0 = Some m" "0 \<in> set m"
  shows "\<exists>cs' us'. chatroom_send_global_msg_ep i cs args = kept (fst (serve_chat (map fst us) i (SendGlobal (c_str m)))) cs' \<and>
    chat_rep junk cs' us' \<and> map fst us' = snd (serve_chat (map fst us) i (SendGlobal (c_str m))) \<and> msgs_ok (map fst us')"
proof -
  obtain out ss where sp: "spec_chat_step (map fst us) (CSendGlobalFromId i (c_str m)) = (out, ss)" by fastforce
  obtain cs1 us1 where s: "chat_step junk cs (CSendGlobalFromId i (c_str m)) = Some (out, cs1)"
    "chat_rep junk cs1 us1" "map fst us1 = ss"
    using chat_step_ok [OF rep, of "CSendGlobalFromId i (c_str m)"] unfolding sp by auto
  from s(1) obtain status where st: "out = CStatus status"
    "chatroom_send_global_msg_from_id cs i (c_str m) = Some (status, cs1)"
    by (auto simp: with_status_def)
  have "serve_chat (map fst us) i (SendGlobal (c_str m)) = (status_reply status, ss)"
    using sp st(1) by (auto split: option.splits if_splits)
  moreover have "msgs_ok ss"
    using sp ok rep_by_id [OF rep, of i] c_string(4) [OF arg(2)] valid_name_no_nul
    by (auto simp: valid_name_def valid_msg_def split: option.splits if_splits intro!: msgs_ok_global)
  ultimately show ?thesis using s(2,3) st(2) arg c_string(3) [OF arg(2)]
    by (auto simp: chatroom_send_global_msg_ep_def reply_status_ok)
qed

lemma send_private_ep_ok:
  assumes rep: "chat_rep junk cs us" and ok: "msgs_ok (map fst us)"
    and arg: "arg_str args 0 = Some r" "0 \<in> set r" "arg_str args 1 = Some m" "0 \<in> set m"
  shows "\<exists>cs' us'. chatroom_send_private_msg_ep i cs args =
      kept (fst (serve_chat (map fst us) i (SendPrivate (c_str r) (c_str m)))) cs' \<and>
    chat_rep junk cs' us' \<and> map fst us' = snd (serve_chat (map fst us) i (SendPrivate (c_str r) (c_str m))) \<and>
    msgs_ok (map fst us')"
proof -
  obtain out ss where sp: "spec_chat_step (map fst us) (CSendPrivateFromId r i (c_str m)) = (out, ss)" by fastforce
  obtain cs1 us1 where s: "chat_step junk cs (CSendPrivateFromId r i (c_str m)) = Some (out, cs1)"
    "chat_rep junk cs1 us1" "map fst us1 = ss"
    using chat_step_ok [OF rep, of "CSendPrivateFromId r i (c_str m)"] arg(2) unfolding sp by auto
  from s(1) obtain status where st: "out = CStatus status"
    "chatroom_send_private_msg_from_id cs r i (c_str m) = Some (status, cs1)"
    by (auto simp: with_status_def)
  have "serve_chat (map fst us) i (SendPrivate (c_str r) (c_str m)) = (status_reply status, ss)"
    using sp st(1) by (auto simp: apfst_def map_prod_def split: option.splits if_splits prod.splits)
  moreover have "msgs_ok ss"
    using sp ok rep_by_id [OF rep, of i] c_string(4) [OF arg(4)] valid_name_no_nul
    by (auto simp: valid_name_def valid_msg_def apfst_def map_prod_def split: option.splits if_splits prod.splits
        intro: msgs_ok_private [OF ok])
  ultimately show ?thesis using s(2,3) st(2) arg c_string(3) [OF arg(4)]
    by (auto simp: chatroom_send_private_msg_ep_def reply_status_ok)
qed

lemma poll_ep_ok:
  assumes rep: "chat_rep junk cs us" and ok: "msgs_ok (map fst us)"
  shows "\<exists>cs' us'. chatroom_poll_ep i cs args = kept (fst (serve_chat (map fst us) i Poll)) cs' \<and>
    chat_rep junk cs' us' \<and> map fst us' = snd (serve_chat (map fst us) i Poll) \<and> msgs_ok (map fst us') \<and>
    ret_ok (Some (fst (serve_chat (map fst us) i Poll))) \<and>
    length (value_enc (fst (serve_chat (map fst us) i Poll))) \<le> 1445 \<and>
    received (fst (serve_chat (map fst us) i Poll)) = fst (serve_chat (map fst us) i Poll)"
proof -
  have empty: "(do { t \<leftarrow> new_chrpc_struct_type [CHRPC_BYTE_T, CHRPC_STRING_T, CHRPC_STRING_T];
      (case new_chrpc_composite_empty_array_value t of (ret, n) \<Rightarrow>
         Some (CHRPC_SC_KEEP_ALIVE, ret, int (delete_chrpc_type t) + n, cs1)) }) = kept (poll_value []) cs1" for cs1
    by (simp add: new_chrpc_struct_type_def CHRPC_MAX_STRUCT_FIELDS_def new_chrpc_composite_empty_array_value_def
        iv_array_value_def new_chrpc_value_from_pair_def poll_value_def message_type_def value_blocks_def frees_def)
  obtain out ss where sp: "spec_chat_step (map fst us) (CPoll i 5) = (out, ss)" by fastforce
  obtain cs1 us1 where s: "chat_step junk cs (CPoll i 5) = Some (out, cs1)" "chat_rep junk cs1 us1" "map fst us1 = ss"
    using chat_step_ok [OF rep, of "CPoll i 5"] unfolding sp by auto
  from s(1) obtain status written where st: "out = CPolled status written"
    "chatroom_poll cs i 5 = Some (status, written, cs1)" by auto
  show ?thesis
  proof (cases "by_id (map fst us) i")
    case None
    then have "chatroom_poll_ep i cs args = kept (poll_value []) cs1" using sp st empty by (simp add: chatroom_poll_ep_def)
    then show ?thesis using None sp s(2,3) ok poll_value_ok [of "[]"] by auto
  next
    case (Some x)
    define keep where "keep = length (ses_msgs x) - poll_amount 5 (ses_msgs x)"
    define ms where "ms = rev (drop keep (ses_msgs x))"
    have sv: "serve_chat (map fst us) i Poll = (poll_value ms, ss)"
      using Some sp by (simp add: Let_def keep_def ms_def)
    have w: "status = CHATROOM_SUCCESS" "written = Some ms"
      using Some sp st(1) by (simp_all add: Let_def keep_def ms_def)
    have "x \<in> set (map fst us)" using Some by (auto simp: by_id_def find_Some_iff)
    then have msgs: "\<forall>m \<in> set ms. msg_ok m" using ok by (auto simp: msgs_ok_def ms_def dest: in_set_dropD)
    have "poll_amount 5 (ses_msgs x) \<le> 5" "poll_amount 5 (ses_msgs x) \<le> length (ses_msgs x)"
      by (simp_all add: poll_amount_def min.coboundedI1)
    then have len: "length ms \<le> 5" by (simp add: ms_def keep_def)
    note pv = poll_value_ok [OF msgs len]
    have "msgs_ok ss" using Some sp msgs_ok_poll [OF ok, of i keep] unfolding keep_def by (auto simp: Let_def)
    moreover have "chatroom_poll_ep i cs args = kept (poll_value ms) cs1"
    proof (cases "ms = []")
      case True
      then show ?thesis using w st(2) empty by (simp add: chatroom_poll_ep_def)
    next
      case False
      have lt: "length ms < 2 ^ 32" using len by simp
      obtain n where n: "new_chrpc_composite_nempty_array_value
          (map (\<lambda>m. \<lparr>v_type = message_type, v_value = message_iv m\<rparr>) ms)
          (of_nat (length (map (\<lambda>m. \<lparr>v_type = message_type, v_value = message_iv m\<rparr>) ms))) = Some (Some (poll_value ms), n)"
        "int (sum_list (map value_blocks (map (\<lambda>m. \<lparr>v_type = message_type, v_value = message_iv m\<rparr>) ms))) + 1 + n =
          int (value_blocks (poll_value ms))"
        using poll_array_ok [OF False lt] by blast
      from n(2) show ?thesis using w st(2) False n(1) message_values_ok [OF msgs]
        by (simp add: chatroom_poll_ep_def comp_def)
    qed
    ultimately show ?thesis using s(2,3) sv pv by auto
  qed
qed

lemma disconnect_ok:
  assumes "chat_ok junk st ss"
  shows "chat_ok junk (do { cs \<leftarrow> st; chatroom_on_disconnect i cs }) (chat_disconnect ss i)"
proof -
  obtain cs us where st: "st = Some cs" and rep: "chat_rep junk cs us" and ss: "ss = map fst us" and ok: "msgs_ok ss"
    using assms by (auto simp: chat_ok_def)
  let ?name = "map_option ses_name (by_id ss i)"
  have get: "chatroom_get_username cs i = Some ?name"
    using chat_step_ok [OF rep, of "CGetUsername i"] ss by auto
  show ?thesis
  proof (cases "by_id ss i")
    case None
    obtain cs1 us1 where "chat_step junk cs (CLogout i) = Some (CStatus CHATROOM_CHANNEL_NOT_REGISTERED, cs1)"
      "chat_rep junk cs1 us1" "map fst us1 = ss" using chat_step_ok [OF rep, of "CLogout i"] ss None by auto
    then show ?thesis using get None st ok
      by (auto simp: chatroom_on_disconnect_def with_status_def chat_disconnect_def chat_ok_def)
  next
    case (Some x)
    let ?ss = "filter (\<lambda>s. ses_id s \<noteq> i) ss"
    obtain cs1 us1 where l: "chat_step junk cs (CLogout i) = Some (CStatus CHATROOM_SUCCESS, cs1)"
      "chat_rep junk cs1 us1" "map fst us1 = ?ss" using chat_step_ok [OF rep, of "CLogout i"] ss Some by auto
    have ok1: "msgs_ok ?ss" using msgs_ok_filter [OF ok] .
    have name: "valid_name (ses_name x)" using rep_by_id [OF rep] Some ss by simp
    note an = announce_ok [OF l(2) name append_chars(4)]
    obtain cs2 us2 where g: "chatroom_send_global_msg cs1 (chars ''$ROOT'') (ses_name x @ chars '' has logged out'') =
        Some (CHATROOM_SUCCESS, cs2)" "chat_rep junk cs2 us2"
        "map fst us2 = spec_global ?ss (chars ''$ROOT'') (ses_name x @ chars '' has logged out'')"
      using an(1) l(3) append_chars(6) by auto
    have "msgs_ok (map fst us2)" using an(2) [OF _ ok1] g(3) append_chars(6) by simp
    moreover have "chatroom_on_disconnect i cs = Some cs2"
      using get Some l(1) g(1) by (auto simp: chatroom_on_disconnect_def with_status_def chars_ok append_chars)
    ultimately show ?thesis using st Some g(2,3) by (auto simp: chat_disconnect_def chat_ok_def)
  qed
qed

section \<open>The endpoint set\<close>

fun request_name :: "chat_request \<Rightarrow> byte list" where
  "request_name (Login n) = literal ''login''"
| "request_name (SendGlobal m) = literal ''send_global_message''"
| "request_name (SendPrivate r m) = literal ''send_private_message''"
| "request_name Poll = literal ''poll''"

definition str_value :: "byte list \<Rightarrow> chrpc_value_t" where
  "str_value s = \<lparr>v_type = CHRPC_STRING_T, v_value = IVStr (s @ [0])\<rparr>"

fun request_args :: "chat_request \<Rightarrow> chrpc_value_t list" where
  "request_args (Login n) = [str_value n]"
| "request_args (SendGlobal m) = [str_value m]"
| "request_args (SendPrivate r m) = [str_value r, str_value m]"
| "request_args Poll = []"

fun request_ok :: "chat_request \<Rightarrow> bool" where
  "request_ok (Login n) \<longleftrightarrow> no_nul n \<and> length n < 2 ^ 31"
| "request_ok (SendGlobal m) \<longleftrightarrow> no_nul m \<and> length m < 2 ^ 31"
| "request_ok (SendPrivate r m) \<longleftrightarrow> no_nul r \<and> no_nul m \<and> length r < 2 ^ 31 \<and> length m < 2 ^ 31"
| "request_ok Poll \<longleftrightarrow> True"

fun request_ep :: "nat option \<Rightarrow> chat_request \<Rightarrow> channel_id_t \<Rightarrow> chatroom_state_t \<Rightarrow> chrpc_value_t list \<Rightarrow> endpoint_result" where
  "request_ep junk (Login n) = chatroom_login_ep junk"
| "request_ep junk (SendGlobal m) = chatroom_send_global_msg_ep"
| "request_ep junk (SendPrivate r m) = chatroom_send_private_msg_ep"
| "request_ep junk Poll = chatroom_poll_ep"

definition reply_type :: "chat_request \<Rightarrow> chrpc_type_t" where
  "reply_type req = (if req = Poll then Array message_type else Struct [CHRPC_BYTE_T, CHRPC_STRING_T])"

definition request_endpoint :: "nat option \<Rightarrow> chat_request \<Rightarrow> chatroom_state_t option chrpc_endpoint_t" where
  "request_endpoint junk req = \<lparr>ep_name = c_str (request_name req), ep_ret = Some (reply_type req),
     ep_args = map v_type (request_args req), ep_args_block = True, ep_func = chat_ep (request_ep junk req)\<rparr>"

lemma eps_eq:
  "run_chat_server_eps junk = Some (map (request_endpoint junk) [Login [], SendGlobal [], SendPrivate [] [], Poll])"
  by (simp add: run_chat_server_eps_def new_chrpc_endpoint_argless_def new_chrpc_endpoint_va_def
      new_chrpc_endpoint_def CHRPC_ENDPOINT_MAX_ARGS_def new_chrpc_struct_type_def CHRPC_MAX_STRUCT_FIELDS_def
      c_string(3) request_endpoint_def reply_type_def message_type_def str_value_def)

lemma find_endpoint:
  assumes "run_chat_server_eps junk = Some eps"
  shows "find (\<lambda>ep. Some (ep_name ep) = string_chars (request_name req)) eps = Some (request_endpoint junk req)"
proof -
  have "string_chars (request_name req) = Some (c_str (request_name req))"
    by (cases req) (simp_all add: c_string(3))
  then show ?thesis using assms
    by (cases req) (auto simp: eps_eq request_endpoint_def reply_type_def str_value_def c_str_def literal_def)
qed

lemma arg_str_args:
  "arg_str [str_value s] 0 = Some (s @ [0])" "arg_str [str_value r, str_value s] 0 = Some (r @ [0])"
  "arg_str [str_value r, str_value s] 1 = Some (s @ [0])"
  by (simp_all add: arg_str_def str_value_def)

text \<open>Every request on the represented sessions.\<close>

lemma request_ep_ok:
  assumes rep: "chat_rep junk cs us" and ok: "msgs_ok (map fst us)" and req: "request_ok req"
  shows "\<exists>cs' us'. request_ep junk req i cs (request_args req) = kept (fst (serve_chat (map fst us) i req)) cs' \<and>
    chat_rep junk cs' us' \<and> map fst us' = snd (serve_chat (map fst us) i req) \<and> msgs_ok (map fst us')"
proof (cases req)
  case (Login n)
  then have "c_str (n @ [0]) = n" using req by simp
  with Login login_ep_ok [OF rep ok arg_str_args(1), of n i] show ?thesis by simp
next
  case (SendGlobal m)
  then have "c_str (m @ [0]) = m" using req by simp
  with SendGlobal send_global_ep_ok [OF rep ok arg_str_args(1), of m i] show ?thesis by simp
next
  case (SendPrivate r m)
  then have "c_str (m @ [0]) = m" "c_str (r @ [0]) = r" using req by simp_all
  with SendPrivate send_private_ep_ok [OF rep ok arg_str_args(2) _ arg_str_args(3), of r m i] show ?thesis by simp
next
  case Poll
  with poll_ep_ok [OF rep ok, of i "[]"] show ?thesis by auto
qed

lemma serve_chat_reply:
  fixes i :: channel_id_t and req :: chat_request
  assumes rep: "chat_rep junk cs us" and ok: "msgs_ok (map fst us)"
  defines "v \<equiv> fst (serve_chat (map fst us) i req)"
  shows "v_type v = reply_type req" "length (value_enc v) \<le> 1445" "ret_ok (Some v)" "received v = v"
proof -
  have poll: "v_type v = reply_type req \<and> length (value_enc v) \<le> 1445 \<and> ret_ok (Some v) \<and> received v = v" if "req = Poll"
    using that poll_ep_ok [OF rep ok, of i "[]"]
    by (auto simp: v_def reply_type_def poll_value_def Let_def split: option.split)
  have status: "\<exists>status. v = status_reply status" if "req \<noteq> Poll"
    using that by (cases req) (auto simp: v_def Let_def apfst_def map_prod_def split: prod.split option.split)
  have type: "v_type (status_reply status) = Struct [CHRPC_BYTE_T, CHRPC_STRING_T]" for status
    by (simp add: status_reply_def status_value_def)
  have all: "v_type v = reply_type req \<and> length (value_enc v) \<le> 1445 \<and> ret_ok (Some v) \<and> received v = v"
  proof (cases "req = Poll")
    case False
    then obtain status where v: "v = status_reply status" using status by blast
    have "length (value_enc v) \<le> 1445" unfolding v by (rule le_trans [OF status_reply_ok(2)]) simp
    with v False type status_reply_ok(1,3) [of status] show ?thesis by (simp add: reply_type_def)
  qed (rule poll)
  then show "v_type v = reply_type req" "length (value_enc v) \<le> 1445" "ret_ok (Some v)" "received v = v" by blast+
qed

text \<open>The endpoints keep their contract, whatever the arguments.\<close>

lemma status_eps:
  "chatroom_login_ep junk i cs args = Some (cmd, ret, n, cs') \<Longrightarrow> \<exists>status. ret = Some (status_reply status)"
  "chatroom_send_global_msg_ep i cs args = Some (cmd, ret, n, cs') \<Longrightarrow> \<exists>status. ret = Some (status_reply status)"
  "chatroom_send_private_msg_ep i cs args = Some (cmd, ret, n, cs') \<Longrightarrow> \<exists>status. ret = Some (status_reply status)"
  by (auto simp: chatroom_login_ep_def chatroom_send_global_msg_ep_def chatroom_send_private_msg_ep_def
      chars_ok append_chars reply_status_ok split: bind_splits if_splits; blast)+

lemma chat_eps_ok:
  assumes st: "chat_ok junk st ss" and eps: "run_chat_server_eps junk = Some eps"
  shows "eps_ok_at st eps" "\<forall>ep \<in> set eps. no_nul (ep_name ep)"
proof -
  obtain cs us where cs: "st = Some cs" "chat_rep junk cs us" "msgs_ok (map fst us)"
    using st by (auto simp: chat_ok_def)
  have none: "ret_ok None" by (simp add: ret_ok_def)
  have "ret_ok (fst (snd (chat_ep (request_ep junk req) i st args)))" for req i args
  proof (cases "request_ep junk req i cs args")
    case None
    then show ?thesis using cs(1) none by (simp add: chat_ep_def)
  next
    case (Some r)
    obtain cmd ret n cs' where r: "r = (cmd, ret, n, cs')" by (cases r)
    have "ret_ok ret"
    proof (cases "req = Poll")
      case True
      then show ?thesis using poll_ep_ok [OF cs(2,3), of i args] Some r by auto
    next
      case False
      then have "\<exists>status. ret = Some (status_reply status)"
        using Some unfolding r by (cases req) (simp_all, (erule status_eps)+)
      then show ?thesis using status_reply_ok(1) by auto
    qed
    then show ?thesis using cs(1) Some r by (simp add: chat_ep_def)
  qed
  then show "eps_ok_at st eps" using eps
    unfolding eps_ok_at_def eps_eq by (auto simp: request_endpoint_def simp del: request_ep.simps)
  show "\<forall>ep \<in> set eps. no_nul (ep_name ep)"
    using eps by (auto simp: eps_eq request_endpoint_def c_string(4))
qed

lemma received_args:
  assumes "request_ok req"
  shows "map received (request_args req) = request_args req" "args_ok (request_args req)"
    "length (request_args req) < 256"
proof -
  have str: "received (str_value s) = str_value s" "wf_value (str_value s)" "length (value_enc (str_value s)) < 2 ^ 32"
    if "no_nul s" "length s < 2 ^ 31" for s
    using that by (simp_all add: received_def str_value_def cstr_c_str wf_value_def is_cstr_def value_enc_def str_enc_def)
  show "map received (request_args req) = request_args req" "args_ok (request_args req)"
    "length (request_args req) < 256"
    using assms str by (cases req; simp add: args_ok_def)+
qed

lemma chat_call_result:
  assumes st: "chat_ok junk st ss" and eps: "run_chat_server_eps junk = Some eps" and req: "request_ok req"
    and mms: "1455 \<le> mms"
  shows "\<exists>st'. call_result eps mms (request_name req) (request_args req) i st =
      (Some (CHRPC_SUCCESS, Some (fst (serve_chat ss i req))), st') \<and> chat_ok junk st' (snd (serve_chat ss i req))"
proof -
  obtain cs us where cs: "st = Some cs" "chat_rep junk cs us" "ss = map fst us" "msgs_ok (map fst us)"
    using st by (auto simp: chat_ok_def)
  obtain cs' us' where r: "request_ep junk req i cs (request_args req) = kept (fst (serve_chat ss i req)) cs'"
    "chat_rep junk cs' us'" "map fst us' = snd (serve_chat ss i req)" "msgs_ok (map fst us')"
    using request_ep_ok [OF cs(2,4) req, of i] cs(3) by auto
  note v = serve_chat_reply [OF cs(2,4), of i req]
  have "chat_ok junk (Some cs') (snd (serve_chat ss i req))" using r(2-4) by (auto simp: chat_ok_def)
  then show ?thesis
    using find_endpoint [OF eps, of req] r(1) v cs(1,3) mms received_args(1) [OF req]
    by (simp add: call_result_def request_endpoint_def chat_ep_def ret_enc_def)
qed

section \<open>Properties\<close>

lemma chat_ok_new:
  assumes "new_chatroom_state ji jn1 jn2 = Some cs"
  shows "chat_ok junk (Some cs) []"
  using new_state_rep [of ji jn1 jn2 junk] assms by (auto simp: chat_ok_def msgs_ok_def)

text \<open>C2. The chatroom over the network: a client that sends a request to the chat server over a local
  channel, while a worker polls the other end, always receives the value \<open>serve_chat\<close> gives for the
  list of sessions (never an error status, and no reply is too large), takes over exactly its blocks
  and keeps its channel; the worker leaks nothing and leaves the server in the sessions \<open>serve_chat\<close>
  gives.  So requests of any channels can be served one after another, from the empty chatroom on.\<close>

theorem chat_remote_call:
  assumes "chat_ok junk st ss" "run_chat_server_eps junk = Some eps" "request_ok req"
    and "new_chrpc_local_client fails1 fails2 now server (Some cfg) attrs = (CHRPC_SUCCESS, server', Some (core, client))"
    and "cadence attrs < timeout attrs" "unat (timeout attrs) + unat (cadence attrs) \<le> 2 ^ 32"
    and "fst (new_chrpc_endpoint_set_va ji jn eps) = Some (sv_ep_set server)"
    and "1455 \<le> max_msg_size cfg" "length (request_bytes (request_name req) (request_args req)) \<le> max_msg_size cfg"
    and "length buf = sa_max_msg_size (sv_attrs server)"
  shows "\<exists>client' core1 status cn'.
    chrpc_client_send_request (worker_peer (sv_ep_set server) i st buf) client (request_name req) True (request_args req) =
      Some (0, Some (fst (serve_chat ss i req)), client', int (value_blocks (fst (serve_chat ss i req)))) \<and>
    cl_chn client' \<noteq> None \<and>
    chn_l2_send True core (request_bytes (request_name req) (request_args req)) = (CHN_SUCCESS, core1) \<and>
    worker_poll (sv_ep_set server) i st buf core1 = Some (status, cn') \<and> cn_live cn' = 0 \<and>
    chat_ok junk (cn_state cn') (snd (serve_chat ss i req))"
proof -
  obtain st' where r: "call_result eps (max_msg_size cfg) (request_name req) (request_args req) i st =
      (Some (CHRPC_SUCCESS, Some (fst (serve_chat ss i req))), st')" "chat_ok junk st' (snd (serve_chat ss i req))"
    using chat_call_result [OF assms(1-3,8), of i] by blast
  have name: "is_cstr (request_name req)" by (cases req) (simp_all add: is_cstr_def cstr_def literal_def)
  have "received (fst (serve_chat ss i req)) = fst (serve_chat ss i req)"
    using serve_chat_reply(4) assms(1) by (auto simp: chat_ok_def)
  then show ?thesis
    using remote_call_at [OF assms(4-7) chat_eps_ok(2,1) [OF assms(1,2)] name received_args(2,3) [OF assms(3)]
        assms(9,10) r(1), of True] r(2)
    by (auto simp: given_value_def opt_blocks_def)
qed

text \<open>A first client logs in as \<open>a\<close>.\<close>

theorem chat_remote_call_witness:
  "\<exists>(client :: (channel_local2_core_t, channel_local2_core_t) chrpc_client_t) peer client' n.
     chrpc_client_send_request peer client (literal ''login'') True [str_value [97]] =
       Some (0, Some (status_value 0 []), client', n)"
proof -
  let ?cfg = "\<lparr>queue_depth = 2, write_over = False, max_msg_size = 4096\<rparr>"
  define eps where "eps = map (request_endpoint None) [Login [], SendGlobal [], SendPrivate [] [], Poll]"
  have eps: "run_chat_server_eps None = Some eps" by (simp add: eps_eq eps_def)
  obtain cs where cs: "new_chatroom_state 0 [] [] = Some cs" using new_state_rep by blast
  note ok = chat_ok_new [OF cs, of None]
  have "distinct (map ep_name eps)"
    by (simp add: eps_def request_endpoint_def c_str_def literal_def)
  moreover have "length eps = 4" by (simp add: eps_def)
  ultimately obtain ep_set where s: "fst (new_chrpc_endpoint_set_va 0 [] eps) = Some ep_set"
    using new_endpoint_set_ok [OF chat_eps_ok(2) [OF ok eps], of 0 "[]"]
    by (auto simp: new_chrpc_endpoint_set_of_va split: option.splits)
  have size: "CHRPC_SERVER_BUF_MIN_SIZE \<le> 4096" by (simp add: CHRPC_SERVER_BUF_MIN_SIZE_def)
  obtain server server' core client where
    local: "new_chrpc_local_client False False 0 server (Some ?cfg) CHRPC_DEFAULT_CLIENT_ATTRS =
        (CHRPC_SUCCESS, server', Some (core, client))"
      "sv_ep_set server = ep_set" "sa_max_msg_size (sv_attrs server) = 4096"
    by (rule example_local_client [OF size, where state = "Some cs"])
  have "length (request_bytes (request_name (Login [97])) (request_args (Login [97]))) \<le> 4096"
    by (simp add: request_bytes_def type_enc_msg_types str_enc_def cstr_def arg_enc_def literal_def str_value_def value_enc_def)
  moreover have "request_ok (Login [97])" by (simp add: no_nul_def)
  moreover have "fst (serve_chat [] 1 (Login [97])) = status_value 0 []"
    by (simp add: spec_login_def valid_name_def name_char_def by_id_def by_name_def status_reply_def)
  ultimately show ?thesis
    using chat_remote_call [OF ok eps _ local(1) _ _ s [folded local(2)], of "Login [97]" "replicate 4096 0" 1] local(3)
    by (auto simp: CHRPC_DEFAULT_CLIENT_ATTRS_def)
qed

text \<open>C32. The disconnect handler on any connection, logged in or not, runs without undefined behaviour and
  leaves the sessions without the connection's, every other mailbox told that the user has left;
  the next requests are served from there.\<close>

theorem chat_disconnect_refines:
  assumes "chat_ok junk st ss" "on_disconnect run_chat_server_attrs = Some handler"
  shows "chat_ok junk (handler i st) (chat_disconnect ss i)"
  using disconnect_ok [OF assms(1), of i] assms(2) by (auto simp: run_chat_server_attrs_def)

theorem chat_disconnect_refines_witness:
  "\<exists>cs cs1 handler cs2 cs3. new_chatroom_state 0 [] [] = Some cs \<and>
     chat_run None cs [CLogin 7 [97, 0], CLogin 8 [98, 0]] =
       Some ([CStatus CHATROOM_SUCCESS, CStatus CHATROOM_SUCCESS], cs1) \<and>
     on_disconnect run_chat_server_attrs = Some handler \<and> handler 7 (Some cs1) = Some cs2 \<and>
     chat_run None cs2 [CGetUsername 7, CPoll 8 5] =
       Some ([CName None, CPolled CHATROOM_SUCCESS (Some [\<lparr>general_msg = True, cm_user = chars ''$ROOT'',
         cm_msg = [97] @ chars '' has logged out''\<rparr>])], cs3)"
proof -
  obtain cs where cs: "new_chatroom_state 0 [] [] = Some cs" using new_state_rep by blast
  obtain handler where h: "on_disconnect run_chat_server_attrs = Some handler" by (simp add: run_chat_server_attrs_def)
  let ?in = "[CLogin 7 [97, 0], CLogin 8 [98, 0]]" and ?out = "[CGetUsername 7, CPoll 8 5]"
  let ?ss = "[\<lparr>ses_id = 8, ses_name = [98], ses_msgs = []\<rparr>, \<lparr>ses_id = 7, ses_name = [97], ses_msgs = []\<rparr>]"
  have logins: "spec_chat_run [] ?in = ([CStatus CHATROOM_SUCCESS, CStatus CHATROOM_SUCCESS], ?ss)"
    by (simp add: spec_login_def valid_name_def name_char_def c_str_def by_id_def by_name_def)
  have "chat_rep None cs []" using new_state_rep [of 0 "[]" "[]" None] cs by simp
  from chat_run_ok [OF this, of ?in] logins obtain cs1 us where
    1: "chat_run None cs ?in = Some ([CStatus CHATROOM_SUCCESS, CStatus CHATROOM_SUCCESS], cs1)"
      "chat_rep None cs1 us" "map fst us = ?ss" by auto
  then have "chat_ok None (Some cs1) ?ss" by (auto simp: chat_ok_def msgs_ok_def)
  from chat_disconnect_refines [OF this h, of 7] obtain cs2 us2 where
    2: "handler 7 (Some cs1) = Some cs2" "chat_rep None cs2 us2" "map fst us2 = chat_disconnect ?ss 7"
    by (auto simp: chat_ok_def)
  have "chat_disconnect ?ss 7 = [\<lparr>ses_id = 8, ses_name = [98], ses_msgs =
      [\<lparr>general_msg = True, cm_user = chars ''$ROOT'', cm_msg = [97] @ chars '' has logged out''\<rparr>]\<rparr>]"
    by (simp add: chat_disconnect_def by_id_def spec_global_def deliver_def)
  then have "fst (spec_chat_run (map fst us2) ?out) =
      [CName None, CPolled CHATROOM_SUCCESS (Some [\<lparr>general_msg = True, cm_user = chars ''$ROOT'',
        cm_msg = [97] @ chars '' has logged out''\<rparr>])]"
    using 2(3) by (simp add: by_id_def poll_amount_def Let_def)
  with chat_run_ok [OF 2(2), of ?out] obtain cs3 where
    "chat_run None cs2 ?out = Some ([CName None, CPolled CHATROOM_SUCCESS (Some [\<lparr>general_msg = True,
       cm_user = chars ''$ROOT'', cm_msg = [97] @ chars '' has logged out''\<rparr>])], cs3)" by auto
  then show ?thesis using cs 1(1) h 2(1) by blast
qed

end
