(* ===== verification/Chat_Client.thy ===== *)
theory Chat_Client
  imports Chat_Server
begin

text \<open>
  The chatroom's client (\<open>chrpc/examples/chatroom/client.c\<close>).  One thread edits the command line, shows
  received messages and queues the messages typed; the other, the worker, sends the queued messages and
  polls the server.  The two share a pair of mailboxes, whose operations are atomic.

  The line editor is compared with an editor on a list of characters, and a turn of the worker with
  \<open>serve_chat\<close> on the sessions of the server it is connected to.
\<close>

section \<open>The command line\<close>

definition buf_at :: "byte list \<Rightarrow> nat \<Rightarrow> byte option" where
  "buf_at buf i = (if i < length buf then Some (buf ! i) else None)"

text \<open>The loop that goes to the first blank or the end of the string.\<close>

function cmd_scan :: "byte list \<Rightarrow> nat \<Rightarrow> nat option" where
  "cmd_scan buf i =
     (if i < length buf then (if buf ! i \<noteq> 0x20 \<and> buf ! i \<noteq> 0 then cmd_scan buf (i + 1) else Some i) else None)"
  by pat_completeness auto
termination by (relation "measure (\<lambda>(buf, i). length buf - i)") auto

declare cmd_scan.simps [simp del]

definition client_process_cmd_buffer ::
    "chatroom_mailbox_t \<Rightarrow> byte list \<Rightarrow> (chatroom_mailbox_t \<times> byte list) option" where
  "client_process_cmd_buffer send_q buf = do {
     c0 \<leftarrow> buf_at buf 0;
     (if c0 = 0 then Some (send_q, buf)
      else if c0 = 0x24 then do {
        iter \<leftarrow> cmd_scan buf 1;
        c \<leftarrow> buf_at buf iter;
        (if iter = 1 \<or> c = 0 then Some (send_q, buf)
         else do {
           let buf1 = buf[iter := 0];
           c1 \<leftarrow> buf_at buf1 (iter + 1);
           (if c1 = 0 then Some (send_q, buf1)
            else do {
              receiver \<leftarrow> string_chars (drop 1 buf1);
              m \<leftarrow> string_chars (drop (iter + 1) buf1);
              q \<leftarrow> chatroom_mailbox_push send_q (new_chatroom_message False receiver m);
              Some (q, buf1[0 := 0]) }) }) }
      else do {
        receiver \<leftarrow> string_chars (literal '''');
        m \<leftarrow> string_chars buf;
        q \<leftarrow> chatroom_mailbox_push send_q (new_chatroom_message True receiver m);
        Some (q, buf[0 := 0]) }) }"

text \<open>Terminal sequences.\<close>

definition ANSI_CNTRL :: "string \<Rightarrow> byte list" where
  "ANSI_CNTRL code_str = [0x1B, 0x5B] @ chars code_str @ [0x6D]"

definition ANSI_RESET_LINE :: "byte list" where
  "ANSI_RESET_LINE = [0x1B, 0x5B, 0x32, 0x4B, 0x0D]"

definition CLIENT_PRINT_PROMPT :: "byte list" where
  "CLIENT_PRINT_PROMPT = ANSI_RESET_LINE @ ANSI_CNTRL ''1'' @ [0x3E] @ ANSI_CNTRL ''0''"

definition client_print_received_msg :: "chatroom_message_t \<Rightarrow> byte list" where
  "client_print_received_msg m =
     (let sender_cstr = cm_user m; msg_cstr = cm_msg m
      in if sender_cstr \<noteq> [] \<and> hd sender_cstr = 0x24 then
           (if sender_cstr = chars ''$ROOT'' then ANSI_CNTRL ''34'' @ ANSI_CNTRL ''3'' @ msg_cstr @ ANSI_CNTRL ''0''
            else if sender_cstr = chars ''$ERROR'' then ANSI_CNTRL ''31'' @ ANSI_CNTRL ''3'' @ msg_cstr @ ANSI_CNTRL ''0''
            else [])
         else (if general_msg m then ANSI_CNTRL ''96'' else ANSI_CNTRL ''95'') @ sender_cstr @ ANSI_CNTRL ''0'' @
           ANSI_CNTRL ''3'' @ [0x20] @ msg_cstr @ ANSI_CNTRL ''0'')"

text \<open>The state of the prompt; \<open>pr_out\<close> is what was written to the terminal.\<close>

record prompt_t =
  cmd_buf :: "byte list"
  cmd_buf_i :: nat
  pr_send_q :: chatroom_mailbox_t
  pr_recv_q :: chatroom_mailbox_t
  pr_out :: "byte list"

definition CMD_BUF_LEN :: nat where "CMD_BUF_LEN = 0x100"

definition new_prompt :: "chatroom_mailbox_t \<Rightarrow> chatroom_mailbox_t \<Rightarrow> prompt_t" where
  "new_prompt send_q recv_q = \<lparr>cmd_buf = replicate CMD_BUF_LEN 0, cmd_buf_i = 0, pr_send_q = send_q,
     pr_recv_q = recv_q, pr_out = CLIENT_PRINT_PROMPT\<rparr>"

definition prompt_show :: "prompt_t \<Rightarrow> prompt_t option" where
  "prompt_show p = do {
     (recv_msgs, q) \<leftarrow> chatroom_mailbox_poll (pr_recv_q p) 1;
     Some (case recv_msgs of
         [] \<Rightarrow> p\<lparr>pr_recv_q := q\<rparr>
       | recv_msg # _ \<Rightarrow> p\<lparr>pr_recv_q := q, pr_out := pr_out p @ ANSI_RESET_LINE @ client_print_received_msg recv_msg @
           [0x0A] @ CLIENT_PRINT_PROMPT\<rparr>) }"

definition prompt_key :: "byte \<Rightarrow> prompt_t \<Rightarrow> prompt_t option" where
  "prompt_key c p =
     (let i = cmd_buf_i p
      in if c = 0x0A then do {
           (q, buf) \<leftarrow> client_process_cmd_buffer (pr_send_q p) (cmd_buf p);
           Some (p\<lparr>pr_send_q := q, cmd_buf := buf, cmd_buf_i := 0, pr_out := pr_out p @ CLIENT_PRINT_PROMPT\<rparr>) }
         else if c = 127 then do {
           u \<leftarrow> buf_at (cmd_buf p) i;
           let buf = (cmd_buf p)[i := 0];
           let i1 = (if i > 0 then i - 1 else i);
           shown \<leftarrow> string_chars buf;
           Some (p\<lparr>cmd_buf := buf, cmd_buf_i := i1, pr_out := pr_out p @ CLIENT_PRINT_PROMPT @ shown\<rparr>) }
         else if i < CMD_BUF_LEN - 1 then
           Some (p\<lparr>cmd_buf := (cmd_buf p)[i := c, i + 1 := 0], cmd_buf_i := i + 1, pr_out := pr_out p @ [c]\<rparr>)
         else Some p)"

text \<open>One turn of the loop; the input is what \<open>read\<close> finds, \<open>None\<close> when there is nothing.\<close>

definition prompt_turn :: "byte option \<Rightarrow> prompt_t \<Rightarrow> prompt_t option" where
  "prompt_turn input p = do {
     p1 \<leftarrow> prompt_show p;
     (case input of None \<Rightarrow> Some p1 | Some c \<Rightarrow> prompt_key c p1) }"

fun prompt_run :: "byte option list \<Rightarrow> prompt_t \<Rightarrow> prompt_t option" where
  "prompt_run [] p = Some p"
| "prompt_run (input # inputs) p = do { p1 \<leftarrow> prompt_turn input p; prompt_run inputs p1 }"

section \<open>An editor on lists\<close>

text \<open>The message a line stands for, and the messages of a sequence of keys typed after \<open>t\<close>.\<close>

definition line_msgs :: "byte list \<Rightarrow> chatroom_message_t list" where
  "line_msgs t =
     (if t = [] then []
      else if hd t = 0x24 then
        (let receiver = takeWhile (\<lambda>c. c \<noteq> 0x20) (tl t); m = drop (length receiver + 1) (tl t)
         in if receiver = [] \<or> m = [] then [] else [new_chatroom_message False receiver m])
      else [new_chatroom_message True [] t])"

fun edit_spec :: "byte list \<Rightarrow> byte list \<Rightarrow> chatroom_message_t list" where
  "edit_spec t [] = []"
| "edit_spec t (c # cs) =
     (if c = 0x0A then line_msgs t @ edit_spec [] cs
      else if c = 127 then edit_spec (butlast t) cs
      else if length t < 255 then edit_spec (t @ [c]) cs else edit_spec t cs)"

text \<open>No NUL is typed, and no line ends right after a deletion.\<close>

fun keys_ok :: "byte list \<Rightarrow> bool" where
  "keys_ok [] \<longleftrightarrow> True"
| "keys_ok (c # cs) \<longleftrightarrow> c \<noteq> 0 \<and> \<not> (c = 127 \<and> cs \<noteq> [] \<and> hd cs = 0x0A) \<and> keys_ok cs"

definition typed :: "byte option list \<Rightarrow> byte list" where
  "typed inputs = concat (map (\<lambda>x. case x of None \<Rightarrow> [] | Some c \<Rightarrow> [c]) inputs)"

lemma cmd_scan_ok:
  assumes "0 \<in> set (drop i buf)"
  shows "\<exists>n. cmd_scan buf i = Some (i + n) \<and> n = length (takeWhile (\<lambda>c. c \<noteq> 0x20) (c_str (drop i buf))) \<and>
    i + n < length buf \<and> (buf ! (i + n) = 0 \<or> buf ! (i + n) = 0x20)"
  using assms
proof (induction buf i rule: cmd_scan.induct)
  case (1 buf i)
  then have i: "i < length buf" by (auto intro: ccontr)
  then have d: "drop i buf = buf ! i # drop (i + 1) buf" by (simp add: Cons_nth_drop_Suc)
  show ?case
  proof (cases "buf ! i \<noteq> 0x20 \<and> buf ! i \<noteq> 0")
    case True
    then have "0 \<in> set (drop (i + 1) buf)" using 1(2) d by auto
    from 1(1) [OF i True this] True i d show ?thesis
      by (subst cmd_scan.simps) (auto simp: c_str_def)
  next
    case False
    with i d show ?thesis by (subst cmd_scan.simps) (auto simp: c_str_def)
  qed
qed

lemma takeWhile_until [simp]: "x \<notin> set t \<Longrightarrow> takeWhile (\<lambda>c. c \<noteq> x) (t @ x # zs) = t"
  by (induction t) auto

lemma takeWhile_never [simp]: "x \<notin> set t \<Longrightarrow> takeWhile (\<lambda>c. c \<noteq> x) t = t"
  by (induction t) auto

lemma c_str_nul:
  assumes "i < length buf"
  shows "c_str (buf[i := 0]) = c_str (take i buf)"
proof -
  have "buf[i := 0] = take i buf @ 0 # drop (i + 1) buf" using assms by (simp add: upd_conv_take_nth_drop)
  then show ?thesis by (simp add: c_str_def takeWhile_tail)
qed

lemma process_ok:
  assumes "0 \<in> set buf" "mailbox_holds junk send_q ms"
  shows "\<exists>q buf'. client_process_cmd_buffer send_q buf = Some (q, buf') \<and>
    mailbox_holds junk q (ms @ line_msgs (c_str buf)) \<and> length buf' = length buf \<and> 0 \<in> set buf' \<and>
    line_msgs (c_str buf') = []"
proof -
  obtain c0 cs where buf: "buf = c0 # cs" using assms(1) by (cases buf) auto
  consider "c0 = 0" | "c0 = 0x24" | "c0 \<noteq> 0" "c0 \<noteq> 0x24" by blast
  then show ?thesis
  proof cases
    case 1
    then show ?thesis using assms by (simp add: client_process_cmd_buffer_def buf_at_def buf c_str_def line_msgs_def)
  next
    case 3
    have "string_chars (literal '''') = Some []" by (simp add: c_string(3) c_str_def literal_def)
    moreover have "string_chars buf = Some (c_str buf)" using assms(1) by (rule c_string)
    moreover have "line_msgs (c_str buf) = [new_chatroom_message True [] (c_str buf)]"
      using 3 by (simp add: line_msgs_def c_str_def buf)
    moreover obtain q where "chatroom_mailbox_push send_q (new_chatroom_message True [] (c_str buf)) = Some q"
      "mailbox_holds junk q (ms @ [new_chatroom_message True [] (c_str buf)])" using mailbox_push [OF assms(2)] by blast
    ultimately show ?thesis using 3
      by (simp add: client_process_cmd_buffer_def buf_at_def buf c_str_def line_msgs_def)
  next
    case 2
    then have "0 \<in> set cs" using assms(1) buf by auto
    then obtain t zs where cs: "cs = t @ 0 # zs" "0 \<notin> set t" using split_list_first [of 0 cs] by blast
    then have str: "c_str cs = t" "c_str buf = 0x24 # t" "c_str (t @ 0 # zs) = t"
      by (simp_all add: c_str_def buf 2)
    let ?r = "takeWhile (\<lambda>c. c \<noteq> 0x20) t"
    have "0 \<in> set (drop 1 buf)" using \<open>0 \<in> set cs\<close> buf by simp
    from cmd_scan_ok [OF this] str buf have scan: "cmd_scan buf 1 = Some (1 + length ?r)" "1 + length ?r < length buf" by auto
    have zero: "buf_at buf 0 = Some 0x24" using buf 2 by (simp add: buf_at_def)
    show ?thesis
    proof (cases "0x20 \<in> set t")
      case False
      then have r: "?r = t" by simp
      then have "buf_at buf (1 + length t) = Some 0" using cs(1) buf by (simp add: buf_at_def nth_append)
      moreover have "line_msgs (c_str buf) = []" using False str(2) by (simp add: line_msgs_def Let_def)
      ultimately show ?thesis using scan zero r assms by (simp add: client_process_cmd_buffer_def)
    next
      case True
      then obtain r m where t: "t = r @ 0x20 # m" "0x20 \<notin> set r" using split_list_first [of "0x20" t] by blast
      then have r: "?r = r" by simp
      have b: "buf = 0x24 # r @ 0x20 # m @ 0 # zs" using buf 2 cs(1) t(1) by simp
      have iter: "buf_at buf (1 + length r) = Some 0x20" by (simp add: b buf_at_def nth_append)
      have b1: "buf[1 + length r := 0] = 0x24 # r @ 0 # m @ 0 # zs" by (simp add: b list_update_append)
      have line: "line_msgs (c_str buf) = (if r = [] \<or> m = [] then [] else [new_chatroom_message False r m])"
        using t r str(2) by (simp add: line_msgs_def Let_def)
      have no: "0 \<notin> set r" "0 \<notin> set m" using cs(2) t(1) by auto
      show ?thesis
      proof (cases "r = []")
        case True
        then show ?thesis using scan zero iter r line assms by (simp add: client_process_cmd_buffer_def)
      next
        case ne: False
        have c1: "buf_at (0x24 # r @ 0 # m @ 0 # zs) (1 + length r + 1) = Some (hd (m @ [0]))"
          by (cases m) (simp_all add: buf_at_def nth_append)
        show ?thesis
        proof (cases "m = []")
          case True
          have "line_msgs (c_str (0x24 # r @ 0 # m @ 0 # zs)) = []"
            using no t(2) by (simp add: c_str_def line_msgs_def)
          then show ?thesis using True ne scan zero iter r line assms(2) c1 b1
            by (simp add: client_process_cmd_buffer_def) (simp add: b)
        next
          case False
          then have "hd (m @ [0]) \<noteq> 0" using no(2) by (cases m) auto
          moreover have "string_chars (drop 1 (0x24 # r @ 0 # m @ 0 # zs)) = Some r"
            "string_chars (drop (1 + length r + 1) (0x24 # r @ 0 # m @ 0 # zs)) = Some m"
            using no by (simp_all add: c_string(3) c_str_def)
          moreover obtain q where "chatroom_mailbox_push send_q (new_chatroom_message False r m) = Some q"
            "mailbox_holds junk q (ms @ [new_chatroom_message False r m])" using mailbox_push [OF assms(2)] by blast
          moreover have "line_msgs (c_str (0 # r @ 0 # m @ 0 # zs)) = []" by (simp add: c_str_def line_msgs_def)
          ultimately show ?thesis using False ne scan zero iter r line c1 b1
            by (simp add: client_process_cmd_buffer_def) (simp add: b)
        qed
      qed
    qed
  qed
qed

section \<open>The editor works on lists\<close>

text \<open>\<open>t\<close> is the text the index delimits; it is what the buffer holds unless a character was just deleted.\<close>

definition edit_rel :: "bool \<Rightarrow> byte list \<Rightarrow> byte list \<Rightarrow> nat \<Rightarrow> bool" where
  "edit_rel deleted t buf i \<longleftrightarrow> length buf = CMD_BUF_LEN \<and> i = length t \<and> i < CMD_BUF_LEN \<and> take i buf = t \<and> 0 \<notin> set t \<and>
     (if deleted then i + 1 < CMD_BUF_LEN else 0 \<in> set buf \<and> line_msgs (c_str buf) = line_msgs t)"

lemma edit_char:
  assumes "edit_rel d t buf i" "c \<noteq> 0" "i < CMD_BUF_LEN - 1"
  shows "edit_rel False (t @ [c]) (buf[i := c, i + 1 := 0]) (i + 1)"
proof -
  have len: "length buf = CMD_BUF_LEN" "take i buf = t" "i = length t" "0 \<notin> set t"
    using assms(1) unfolding edit_rel_def by blast+
  then have i: "i + 1 < length (buf[i := c])" using assms(3) by simp
  have t: "take (i + 1) (buf[i := c]) = t @ [c]" using len assms(3) by (simp add: take_Suc_conv_app_nth take_update_cancel)
  have "c_str (buf[i := c, i + 1 := 0]) = c_str (t @ [c])" using c_str_nul [OF i] t by simp
  then have "c_str (buf[i := c, i + 1 := 0]) = t @ [c]" using len assms(2) by (simp add: c_str_no_nul no_nul_def)
  moreover have "0 \<in> set (buf[i := c, i + 1 := 0])" using i by (intro set_update_memI) simp
  moreover have "take (i + 1) (buf[i := c, i + 1 := 0]) = t @ [c]" using t by (simp add: take_update_cancel)
  ultimately show ?thesis using len assms(2,3) by (simp add: edit_rel_def)
qed

lemma edit_delete:
  assumes "edit_rel d t buf i"
  shows "edit_rel True (butlast t) (buf[i := 0]) (if i > 0 then i - 1 else i) \<and> 0 \<in> set (buf[i := 0])"
proof -
  have len: "length buf = CMD_BUF_LEN" "take i buf = t" "i = length t" "0 \<notin> set t" "i < CMD_BUF_LEN"
    using assms unfolding edit_rel_def by blast+
  then have "0 \<in> set (buf[i := 0])" by (intro set_update_memI) simp
  moreover have "take (i - 1) (buf[i := 0]) = butlast t" using len by (simp add: take_update_cancel butlast_conv_take) (metis take_take min.absorb1 diff_le_self)
  moreover have "0 \<notin> set (butlast t)" using len by (auto dest: in_set_butlastD)
  ultimately show ?thesis using len by (auto simp: edit_rel_def CMD_BUF_LEN_def)
qed

definition prompt_rel ::
    "nat option \<Rightarrow> bool \<Rightarrow> byte list \<Rightarrow> chatroom_message_t list \<Rightarrow> chatroom_message_t list \<Rightarrow> prompt_t \<Rightarrow> bool" where
  "prompt_rel junk deleted t sent inbox p \<longleftrightarrow> edit_rel deleted t (cmd_buf p) (cmd_buf_i p) \<and>
     mailbox_holds junk (pr_send_q p) sent \<and> mailbox_holds junk (pr_recv_q p) inbox"

lemma key_ok:
  assumes "prompt_rel junk d t sent inbox p" "c \<noteq> 0" "\<not> (d \<and> c = 0x0A)"
  shows "\<exists>p'. prompt_key c p = Some p' \<and>
    prompt_rel junk (c = 127)
      (if c = 0x0A then [] else if c = 127 then butlast t else if length t < 255 then t @ [c] else t)
      (sent @ (if c = 0x0A then line_msgs t else [])) inbox p'"
proof -
  have p: "edit_rel d t (cmd_buf p) (cmd_buf_i p)" "mailbox_holds junk (pr_send_q p) sent" "mailbox_holds junk (pr_recv_q p) inbox"
    using assms(1) by (simp_all add: prompt_rel_def)
  consider "c = 0x0A" | "c = 127" | "c \<noteq> 0x0A" "c \<noteq> 127" by blast
  then show ?thesis
  proof cases
    case 1
    then have "0 \<in> set (cmd_buf p)" "line_msgs (c_str (cmd_buf p)) = line_msgs t" "length (cmd_buf p) = CMD_BUF_LEN"
      using p(1) assms(3) by (simp_all add: edit_rel_def)
    moreover from process_ok [OF this(1) p(2)] obtain q buf' where
      "client_process_cmd_buffer (pr_send_q p) (cmd_buf p) = Some (q, buf')"
      "mailbox_holds junk q (sent @ line_msgs (c_str (cmd_buf p)))" "length buf' = length (cmd_buf p)" "0 \<in> set buf'"
      "line_msgs (c_str buf') = []" by blast
    ultimately show ?thesis using 1 p(3)
      by (simp add: prompt_key_def prompt_rel_def edit_rel_def line_msgs_def [of "[]"] CMD_BUF_LEN_def)
  next
    case 2
    have "cmd_buf_i p < length (cmd_buf p)" using p(1) by (simp add: edit_rel_def)
    with 2 edit_delete [OF p(1)] p(2,3) show ?thesis
      by (simp add: prompt_key_def prompt_rel_def buf_at_def c_string(3) Let_def)
  next
    case 3
    have i: "cmd_buf_i p = length t" using p(1) by (simp add: edit_rel_def)
    show ?thesis
    proof (cases "length t < 255")
      case True
      then have "cmd_buf_i p < CMD_BUF_LEN - 1" using i by (simp add: CMD_BUF_LEN_def)
      with edit_char [OF p(1) assms(2) this] 3 True p(2,3) show ?thesis
        by (simp add: prompt_key_def prompt_rel_def Let_def)
    next
      case False
      then have "\<not> d" using p(1) i by (auto simp: edit_rel_def CMD_BUF_LEN_def)
      with False 3 p i show ?thesis by (simp add: prompt_key_def prompt_rel_def CMD_BUF_LEN_def)
    qed
  qed
qed

lemma show_ok:
  assumes "prompt_rel junk d t sent inbox p" "length inbox < 2 ^ 32"
  shows "\<exists>p'. prompt_show p = Some p' \<and> prompt_rel junk d t sent (butlast inbox) p'"
proof -
  have "poll_amount 1 inbox = min (length inbox) 1" using assms(2) by (simp add: poll_amount_def)
  then have "take (length inbox - poll_amount 1 inbox) inbox = butlast inbox"
    by (cases inbox rule: rev_cases) simp_all
  with mailbox_poll [of junk "pr_recv_q p" inbox 1] assms(1) show ?thesis
    by (auto simp: prompt_show_def prompt_rel_def split: list.split)
qed

lemma run_ok:
  assumes "prompt_rel junk d t sent inbox p" "length inbox < 2 ^ 32" "keys_ok (typed inputs)"
    and "\<not> (d \<and> typed inputs \<noteq> [] \<and> hd (typed inputs) = 0x0A)"
  shows "\<exists>p'. prompt_run inputs p = Some p' \<and>
    mailbox_holds junk (pr_send_q p') (sent @ edit_spec t (typed inputs)) \<and>
    mailbox_holds junk (pr_recv_q p') (take (length inbox - length inputs) inbox)"
  using assms
proof (induction inputs arbitrary: d t sent inbox p)
  case Nil
  then show ?case by (simp add: prompt_rel_def typed_def)
next
  case (Cons input inputs)
  obtain p1 where p1: "prompt_show p = Some p1" "prompt_rel junk d t sent (butlast inbox) p1"
    using show_ok [OF Cons.prems(1,2)] by blast
  have inbox: "length (butlast inbox) < 2 ^ 32"
    "take (length (butlast inbox) - length inputs) (butlast inbox) = take (length inbox - Suc (length inputs)) inbox"
    using Cons.prems(2) by (simp_all add: butlast_conv_take)
  show ?case
  proof (cases input)
    case None
    then have "typed (input # inputs) = typed inputs" by (simp add: typed_def)
    with Cons.IH [OF p1(2) inbox(1)] Cons.prems(3,4) p1(1) inbox(2) None show ?thesis
      by (simp add: prompt_turn_def)
  next
    case (Some c)
    then have typed: "typed (input # inputs) = c # typed inputs" by (simp add: typed_def)
    let ?t = "if c = 0x0A then [] else if c = 127 then butlast t else if length t < 255 then t @ [c] else t"
    let ?sent = "sent @ (if c = 0x0A then line_msgs t else [])"
    have c: "c \<noteq> 0" "\<not> (d \<and> c = 0x0A)" "keys_ok (typed inputs)" "\<not> (c = 127 \<and> typed inputs \<noteq> [] \<and> hd (typed inputs) = 0x0A)"
      using Cons.prems(3,4) typed by auto
    from key_ok [OF p1(2) c(1,2)] obtain p2 where
      p2: "prompt_key c p1 = Some p2" "prompt_rel junk (c = 127) ?t ?sent (butlast inbox) p2" by blast
    from Cons.IH [OF p2(2) inbox(1) c(3,4)] obtain p' where
      p': "prompt_run inputs p2 = Some p'" "mailbox_holds junk (pr_send_q p') (?sent @ edit_spec ?t (typed inputs))"
        "mailbox_holds junk (pr_recv_q p') (take (length inbox - Suc (length inputs)) inbox)" using inbox(2) by auto
    have "?sent @ edit_spec ?t (typed inputs) = sent @ edit_spec t (typed (input # inputs))" by (simp add: typed)
    with p' p1(1) p2(1) Some show ?thesis by (simp add: prompt_turn_def)
  qed
qed

text \<open>C19. The line editor of the client: whatever is typed, and whatever arrives meanwhile, no access is
  outside the buffer, and the messages queued for sending are those of an editor on a list of at most
  255 characters, one for each line that is a message or a private message, in the order of the lines.
  The condition is that no line ends right after a deletion.  Each turn shows one received message.\<close>

theorem prompt_edits_lines:
  assumes "mailbox_holds junk send_q sent" "mailbox_holds junk recv_q inbox" "length inbox < 2 ^ 32"
    and "keys_ok (typed inputs)"
  shows "\<exists>p. prompt_run inputs (new_prompt send_q recv_q) = Some p \<and>
    mailbox_holds junk (pr_send_q p) (sent @ edit_spec [] (typed inputs)) \<and>
    mailbox_holds junk (pr_recv_q p) (take (length inbox - length inputs) inbox)"
proof -
  have "prompt_rel junk False [] sent inbox (new_prompt send_q recv_q)"
    using assms(1,2) by (simp add: prompt_rel_def edit_rel_def new_prompt_def CMD_BUF_LEN_def c_str_def)
  from run_ok [OF this assms(3,4)] show ?thesis by simp
qed

text \<open>The keys \<open>ax\<close>, a deletion, \<open>b\<close>, the end of the line, and \<open>$u hi\<close>.\<close>

lemma prompt_edits_lines_witness:
  "\<exists>p. prompt_run (map Some [97, 120, 127, 98, 10, 36, 117, 32, 104, 105, 10])
      (new_prompt (new_chatroom_mailbox None) (new_chatroom_mailbox None)) = Some p \<and>
    mailbox_holds None (pr_send_q p) [new_chatroom_message True [] [97, 98], new_chatroom_message False [117] [104, 105]]"
proof -
  have "typed (map Some [97, 120, 127, 98, 10, 36, 117, 32, 104, 105, 10]) = [97, 120, 127, 98, 10, 36, 117, 32, 104, 105, 10]"
    by (simp add: typed_def)
  with prompt_edits_lines [OF mailbox_new mailbox_new, of "map Some [97, 120, 127, 98, 10, 36, 117, 32, 104, 105, 10]" None]
  show ?thesis by (auto simp: line_msgs_def)
qed

text \<open>A deletion right before the end of a line is lost: the whole line is sent.\<close>

lemma show_keeps: "prompt_show p = Some p' \<Longrightarrow> cmd_buf p' = cmd_buf p \<and> cmd_buf_i p' = cmd_buf_i p \<and> pr_send_q p' = pr_send_q p"
  by (auto simp: prompt_show_def split: list.splits bind_splits)

lemma deleted_character_sent:
  assumes "prompt_rel junk d t sent inbox p" "length inbox < 2 ^ 32"
  shows "\<exists>p'. prompt_run [Some 127, Some 0x0A] p = Some p' \<and> mailbox_holds junk (pr_send_q p') (sent @ line_msgs t)"
proof -
  obtain p1 where p1: "prompt_show p = Some p1" "prompt_rel junk d t sent (butlast inbox) p1"
    using show_ok [OF assms] by blast
  then have rel: "edit_rel d t (cmd_buf p1) (cmd_buf_i p1)" by (simp add: prompt_rel_def)
  then have len: "cmd_buf_i p1 < length (cmd_buf p1)" "take (cmd_buf_i p1) (cmd_buf p1) = t" "0 \<notin> set t"
    unfolding edit_rel_def by auto
  let ?buf = "(cmd_buf p1)[cmd_buf_i p1 := 0]"
  have zero: "0 \<in> set ?buf" using len(1) by (rule set_update_memI)
  have str: "c_str ?buf = t" using c_str_nul [OF len(1)] len(2,3) by (simp add: c_str_no_nul no_nul_def)
  obtain p2 where p2: "prompt_key 127 p1 = Some p2" "prompt_rel junk True (butlast t) sent (butlast inbox) p2"
    using key_ok [OF p1(2), of 127] by auto
  have buf: "cmd_buf p2 = ?buf" using p2(1) by (auto simp: prompt_key_def Let_def split: bind_splits)
  have "length (butlast inbox) < 2 ^ 32" using assms(2) by simp
  from show_ok [OF p2(2) this] obtain p3 where
    p3: "prompt_show p2 = Some p3" "prompt_rel junk True (butlast t) sent (butlast (butlast inbox)) p3" by blast
  then have "cmd_buf p3 = ?buf" "mailbox_holds junk (pr_send_q p3) sent"
    using show_keeps [OF p3(1)] buf by (simp_all add: prompt_rel_def)
  with process_ok [OF zero, of junk "pr_send_q p3" sent] str obtain q buf' where
    "client_process_cmd_buffer (pr_send_q p3) (cmd_buf p3) = Some (q, buf')" "mailbox_holds junk q (sent @ line_msgs t)"
    by auto
  then show ?thesis using p1(1) p2(1) p3(1) by (simp add: prompt_turn_def prompt_key_def)
qed

end
