(* ===== verification/Chat_Worker.thy ===== *)
theory Chat_Worker
  imports Chat_Client
begin

text \<open>
  The worker thread of the chatroom's client and its login (\<open>chrpc/examples/chatroom/client.c\<close>).  A turn
  of the worker sends the message on top of the send queue, if there is one, and polls the server; the
  server's error messages and the messages polled go to the receive queue.  What the client is connected
  to is the \<open>peer\<close> of each of its two requests; the turn also gives the blocks allocated minus those freed.

  With workers of the chat server as the peers, a turn is one step on two lists of messages and the
  server's list of sessions.
\<close>

section \<open>The worker\<close>

type_synonym ('c, 'cfg) peer = "nat \<Rightarrow> ('c, 'cfg) channel_t \<Rightarrow> ('c, 'cfg) channel_t"

record ('c, 'cfg) client_worker_state_t =
  should_exit :: bool
  send_q :: chatroom_mailbox_t
  recv_q :: chatroom_mailbox_t
  client :: "('c, 'cfg) chrpc_client_t"

text \<open>\<open>Fatal\<close> is \<open>log_fatal\<close>, which ends the process.\<close>

datatype 'a client_result = Next 'a | Exit | Fatal

text \<open>Access to a return value.\<close>

fun struct_entry :: "chrpc_inner_value_t \<Rightarrow> nat \<Rightarrow> chrpc_inner_value_t option" where
  "struct_entry (IVStruct ivs) i = (if i < length ivs then Some (ivs ! i) else None)"
| "struct_entry _ i = None"

fun iv_b8 :: "chrpc_inner_value_t \<Rightarrow> byte option" where
  "iv_b8 (IVNumber (b # bs)) = Some b"
| "iv_b8 _ = None"

fun iv_str :: "chrpc_inner_value_t \<Rightarrow> byte list option" where
  "iv_str (IVStr s) = Some s"
| "iv_str _ = None"

definition worker_send ::
    "('c, 'cfg) peer \<Rightarrow> ('c, 'cfg) client_worker_state_t \<Rightarrow>
     (('c, 'cfg) client_worker_state_t client_result \<times> int) option" where
  "worker_send peer cs = do {
     (msgs, q) \<leftarrow> chatroom_mailbox_poll (send_q cs) 1;
     (case msgs of
        [] \<Rightarrow> Some (Next (cs\<lparr>send_q := q\<rparr>), 0)
      | send_msg # _ \<Rightarrow> do {
          (v0, n0) \<leftarrow> new_chrpc_str_value (cm_user send_msg @ [0]);
          (v1, n1) \<leftarrow> new_chrpc_str_value (cm_msg send_msg @ [0]);
          (status, ret, cl, live) \<leftarrow>
            (if general_msg send_msg
             then chrpc_client_send_request_va peer (client cs) (literal ''send_global_message'') True [v1]
             else chrpc_client_send_request_va peer (client cs) (literal ''send_private_message'') True [v0, v1]);
          f0 \<leftarrow> delete_chrpc_value v0;
          f1 \<leftarrow> delete_chrpc_value v1;
          (if status \<noteq> status_code CHRPC_SUCCESS then Some (Fatal, 0)
           else do {
             v \<leftarrow> ret;
             e0 \<leftarrow> struct_entry (v_value v) 0;
             b \<leftarrow> iv_b8 e0;
             rq \<leftarrow>
               (if b \<noteq> 0 then do {
                  sender \<leftarrow> string_chars (literal ''$ERROR'');
                  e1 \<leftarrow> struct_entry (v_value v) 1;
                  s \<leftarrow> iv_str e1;
                  t \<leftarrow> string_chars s;
                  chatroom_mailbox_push (recv_q cs) (new_chatroom_message False sender t) }
                else Some (recv_q cs));
             f2 \<leftarrow> delete_chrpc_value v;
             Some (Next (cs\<lparr>send_q := q, recv_q := rq, client := cl\<rparr>), n0 + n1 + live - int (f0 + f1 + f2)) }) }) }"

text \<open>The loop over the array.\<close>

fun push_polled :: "chrpc_inner_value_t list \<Rightarrow> nat \<Rightarrow> nat \<Rightarrow> chatroom_mailbox_t \<Rightarrow> chatroom_mailbox_t option" where
  "push_polled ivs i 0 mb = Some mb"
| "push_polled ivs i (Suc n) mb = do {
     iv \<leftarrow> (if i < length ivs then Some (ivs ! i) else None);
     e0 \<leftarrow> struct_entry iv 0;
     b \<leftarrow> iv_b8 e0;
     e1 \<leftarrow> struct_entry iv 1;
     s1 \<leftarrow> iv_str e1;
     user \<leftarrow> string_chars s1;
     e2 \<leftarrow> struct_entry iv 2;
     s2 \<leftarrow> iv_str e2;
     m \<leftarrow> string_chars s2;
     mb1 \<leftarrow> chatroom_mailbox_push mb (new_chatroom_message (b \<noteq> 0) user m);
     push_polled ivs (i + 1) n mb1 }"

definition worker_poll_server ::
    "('c, 'cfg) peer \<Rightarrow> ('c, 'cfg) client_worker_state_t \<Rightarrow>
     (('c, 'cfg) client_worker_state_t client_result \<times> int) option" where
  "worker_poll_server peer cs = do {
     (status, ret, cl, live) \<leftarrow> chrpc_client_send_argless_request peer (client cs) (literal ''poll'') True;
     (if status \<noteq> status_code CHRPC_SUCCESS then Some (Fatal, 0)
      else do {
        v \<leftarrow> ret;
        (ivs, array_len) \<leftarrow> (case v_value v of IVEntries ivs array_len \<Rightarrow> Some (ivs, array_len) | _ \<Rightarrow> None);
        rq \<leftarrow> push_polled ivs 0 (unat array_len) (recv_q cs);
        f \<leftarrow> delete_chrpc_value v;
        Some (Next (cs\<lparr>recv_q := rq, client := cl\<rparr>), live - int f) }) }"

definition client_worker_turn ::
    "('c, 'cfg) peer \<Rightarrow> ('c, 'cfg) peer \<Rightarrow> ('c, 'cfg) client_worker_state_t \<Rightarrow>
     (('c, 'cfg) client_worker_state_t client_result \<times> int) option" where
  "client_worker_turn peer1 peer2 cs =
     (if should_exit cs then Some (Exit, 0)
      else do {
        (r, live) \<leftarrow> worker_send peer1 cs;
        (case r of
           Next cs1 \<Rightarrow> do { (r2, live2) \<leftarrow> worker_poll_server peer2 cs1; Some (r2, live + live2) }
         | _ \<Rightarrow> Some (r, live)) })"

text \<open>Logging in, from \<open>main\<close>; the name is the program's argument.\<close>

definition client_login ::
    "('c, 'cfg) peer \<Rightarrow> ('c, 'cfg) chrpc_client_t \<Rightarrow> byte list \<Rightarrow>
     (('c, 'cfg) chrpc_client_t client_result \<times> int) option" where
  "client_login peer cl username = do {
     (username_val, n) \<leftarrow> new_chrpc_str_value username;
     (rpc_status, ret, cl1, live) \<leftarrow> chrpc_client_send_request_va peer cl (literal ''login'') True [username_val];
     f \<leftarrow> delete_chrpc_value username_val;
     (if rpc_status \<noteq> status_code CHRPC_SUCCESS then Some (Fatal, 0)
      else do {
        login_ret \<leftarrow> ret;
        e0 \<leftarrow> struct_entry (v_value login_ret) 0;
        b \<leftarrow> iv_b8 e0;
        (if b \<noteq> 0 then Some (Fatal, 0)
         else do {
           f1 \<leftarrow> delete_chrpc_value login_ret;
           Some (Next cl1, n + live - int (f + f1)) }) }) }"

definition new_worker_state ::
    "nat option \<Rightarrow> nat option \<Rightarrow> ('c, 'cfg) chrpc_client_t \<Rightarrow> ('c, 'cfg) client_worker_state_t" where
  "new_worker_state ji jo cl =
     \<lparr>should_exit = False, send_q = new_chatroom_mailbox jo, recv_q = new_chatroom_mailbox ji, client = cl\<rparr>"

section \<open>Specification: messages and sessions\<close>

definition send_spec :: "session list \<Rightarrow> channel_id_t \<Rightarrow> chatroom_message_t \<Rightarrow> chatroom_status_t \<times> session list" where
  "send_spec ss i m =
     (if \<not> valid_msg (cm_msg m) then (CHATROOM_INVALID_MESSAGE_LEN, ss)
      else case by_id ss i of
        None \<Rightarrow> (CHATROOM_CHANNEL_NOT_REGISTERED, ss)
      | Some s \<Rightarrow>
          if general_msg m then (CHATROOM_SUCCESS, spec_global ss (ses_name s) (cm_msg m))
          else spec_private ss (cm_user m) (ses_name s) (cm_msg m))"

definition error_notice :: "chatroom_status_t \<Rightarrow> chatroom_message_t list" where
  "error_notice status =
     (if status = CHATROOM_SUCCESS then []
      else [new_chatroom_message False (chars ''$ERROR'') (c_str (chatroom_status_as_literal status))])"

text \<open>At most five messages, the newest first.\<close>

definition poll_spec :: "session list \<Rightarrow> channel_id_t \<Rightarrow> chatroom_message_t list \<times> session list" where
  "poll_spec ss i =
     (case by_id ss i of
        None \<Rightarrow> ([], ss)
      | Some s \<Rightarrow>
          let keep = length (ses_msgs s) - poll_amount 5 (ses_msgs s)
          in (rev (drop keep (ses_msgs s)),
              map (\<lambda>s. if ses_id s = i then s\<lparr>ses_msgs := take keep (ses_msgs s)\<rparr> else s) ss))"

definition turn_spec ::
    "session list \<Rightarrow> channel_id_t \<Rightarrow> chatroom_message_t list \<Rightarrow> chatroom_message_t list \<times> session list" where
  "turn_spec ss i pending =
     (case (if pending = [] then ([], ss) else apfst error_notice (send_spec ss i (last pending))) of (notices, ss1) \<Rightarrow>
        case poll_spec ss1 i of (polled, ss2) \<Rightarrow> (notices @ polled, ss2))"

definition send_request :: "chatroom_message_t \<Rightarrow> chat_request" where
  "send_request m = (if general_msg m then SendGlobal (cm_msg m) else SendPrivate (cm_user m) (cm_msg m))"

lemma serve_send: "serve_chat ss i (send_request m) = apfst status_reply (send_spec ss i m)"
  by (simp add: send_request_def send_spec_def split: option.split)

lemma serve_poll: "serve_chat ss i Poll = apfst poll_value (poll_spec ss i)"
  by (simp add: poll_spec_def Let_def split: option.split)

section \<open>One request\<close>

definition connected ::
    "nat option \<Rightarrow> channel_local_config_t \<Rightarrow> chatroom_state_t option chrpc_endpoint_set_t \<Rightarrow> byte list \<Rightarrow>
     (channel_local2_core_t, channel_local2_core_t) chrpc_client_t \<Rightarrow> channel_local2_core_t \<Rightarrow>
     chatroom_state_t option \<Rightarrow> session list \<Rightarrow> bool" where [inv_defs]:
  "connected junk cfg ep_set buf cl core st ss \<longleftrightarrow>
     client_ready cfg cl core \<and> chat_ok junk st ss \<and> set_inv ep_set \<and>
     run_chat_server_eps junk = Some (endpoints ep_set) \<and> 1455 \<le> max_msg_size cfg \<and> max_msg_size cfg \<le> length buf"

text \<open>The server's worker takes the request sent and leaves the state \<open>st'\<close>.\<close>

definition served ::
    "chatroom_state_t option chrpc_endpoint_set_t \<Rightarrow> channel_id_t \<Rightarrow> byte list \<Rightarrow> chat_request \<Rightarrow>
     channel_local2_core_t \<Rightarrow> chatroom_state_t option \<Rightarrow> chatroom_state_t option \<Rightarrow> bool" where
  "served ep_set i buf req core st st' \<longleftrightarrow>
     (\<exists>core1 status cn'. chn_l2_send True core (request_bytes (request_name req) (request_args req)) = (CHN_SUCCESS, core1) \<and>
        worker_poll ep_set i st buf core1 = Some (status, cn') \<and> cn_state cn' = st' \<and> cn_live cn' = 0)"

definition sendable :: "channel_local_config_t \<Rightarrow> chat_request \<Rightarrow> bool" where
  "sendable cfg req \<longleftrightarrow> request_ok req \<and>
     length (request_bytes (request_name req) (request_args req)) \<le> max_msg_size cfg"

lemma request_served:
  assumes c: "connected junk cfg ep_set buf cl core st ss" and req: "sendable cfg req"
  shows "\<exists>cl' core' st'.
    chrpc_client_send_request (worker_peer ep_set i st buf) cl (request_name req) True (request_args req) =
      Some (0, Some (fst (serve_chat ss i req)), cl', int (value_blocks (fst (serve_chat ss i req)))) \<and>
    served ep_set i buf req core st st' \<and> connected junk cfg ep_set buf cl' core' st' (snd (serve_chat ss i req))"
proof -
  from c have cs: "client_ready cfg cl core" "chat_ok junk st ss" "set_inv ep_set"
    "run_chat_server_eps junk = Some (endpoints ep_set)" "1455 \<le> max_msg_size cfg" "max_msg_size cfg \<le> length buf"
    by (simp_all add: connected_def)
  have ok: "request_ok req" "length (request_bytes (request_name req) (request_args req)) \<le> max_msg_size cfg"
    using req by (simp_all add: sendable_def)
  have name: "is_cstr (request_name req)" by (cases req) (simp_all add: is_cstr_def cstr_def literal_def)
  obtain st' where r: "call_result (endpoints ep_set) (max_msg_size cfg) (request_name req) (request_args req) i st =
      (Some (CHRPC_SUCCESS, Some (fst (serve_chat ss i req))), st')" "chat_ok junk st' (snd (serve_chat ss i req))"
    using chat_call_result [OF cs(2,4) ok(1) cs(5), of i] by blast
  have rec: "received (fst (serve_chat ss i req)) = fst (serve_chat ss i req)"
    using serve_chat_reply(4) cs(2) by (auto simp: chat_ok_def)
  from remote_call_step [OF cs(1,3) refl chat_eps_ok(1) [OF cs(2,4)] name received_args(2,3) [OF ok(1)] ok(2) cs(6) r(1), of True]
  obtain cl' core' where
    "chrpc_client_send_request (worker_peer ep_set i st buf) cl (request_name req) True (request_args req) =
      Some (0, Some (fst (serve_chat ss i req)), cl', int (value_blocks (fst (serve_chat ss i req))))"
    "served ep_set i buf req core st st'" "client_ready cfg cl' core'"
    unfolding served_def by (auto simp: given_value_def opt_blocks_def rec)
  with r(2) cs show ?thesis by (auto simp: connected_def)
qed

lemma str_value_made: "0 \<in> set s \<Longrightarrow> new_chrpc_str_value s = Some (str_value (c_str s), 3)"
  by (simp add: new_str_value_ok str_value_def)

lemma str_value_deleted [simp]: "delete_chrpc_value (str_value s) = Some 3"
  using c_strlen_cstr [of "s @ [0]"]
  by (simp add: str_value_def delete_chrpc_value_def delete_chrpc_inner_value.simps frees_def
      chrpc_inner_value_to_block_value_def)

lemma status_reply_deleted: "delete_chrpc_value (status_reply status) = Some (value_blocks (status_reply status))"
  using status_reply_ok(1) [of status] by (simp add: ret_ok_def)

lemma status_reply_entries:
  "struct_entry (v_value (status_reply status)) 0 = Some (IVNumber [if status = CHATROOM_SUCCESS then 0 else 1])"
  "status \<noteq> CHATROOM_SUCCESS \<Longrightarrow> struct_entry (v_value (status_reply status)) 1 =
     Some (IVStr (c_str (chatroom_status_as_literal status) @ [0]))"
  by (simp_all add: status_reply_def status_value_def)

lemma text_chars: "no_nul t \<Longrightarrow> string_chars (t @ [0]) = Some t"
  by (simp add: c_string(3))

lemma error_chars: "string_chars (literal ''$ERROR'') = Some (chars ''$ERROR'')"
  by (simp add: string_chars_def literal_def chars_def)

section \<open>A turn\<close>

lemma worker_send_ok:
  assumes c: "connected junk cfg ep_set buf (client cs) core st ss"
    and box: "mailbox_holds jo (send_q cs) pending" "mailbox_holds ji (recv_q cs) inbox" "length pending < 2 ^ 32"
    and ok: "\<forall>m \<in> set pending. sendable cfg (send_request m)"
  shows "\<exists>cs' core' st'. worker_send (worker_peer ep_set i st buf) cs = Some (Next cs', 0) \<and>
    mailbox_holds jo (send_q cs') (butlast pending) \<and> should_exit cs' = should_exit cs \<and>
    (case rev pending of
       [] \<Rightarrow> connected junk cfg ep_set buf (client cs') core' st ss \<and> mailbox_holds ji (recv_q cs') inbox \<and> st' = st \<and> core' = core
     | m # _ \<Rightarrow> served ep_set i buf (send_request m) core st st' \<and>
         connected junk cfg ep_set buf (client cs') core' st' (snd (send_spec ss i m)) \<and>
         mailbox_holds ji (recv_q cs') (inbox @ error_notice (fst (send_spec ss i m))))"
proof -
  have "poll_amount 1 pending = min (length pending) 1" using box(3) by (simp add: poll_amount_def)
  then have "take (length pending - poll_amount 1 pending) pending = butlast pending"
    "rev (drop (length pending - poll_amount 1 pending) pending) = take 1 (rev pending)"
    by (cases pending rule: rev_cases; simp)+
  with mailbox_poll [OF box(1), of 1] obtain q where
    q: "chatroom_mailbox_poll (send_q cs) 1 = Some (take 1 (rev pending), q)" "mailbox_holds jo q (butlast pending)" by auto
  show ?thesis
  proof (cases pending rule: rev_cases)
    case Nil
    with q c box show ?thesis by (auto simp: worker_send_def)
  next
    case (snoc ms m)
    then have m: "sendable cfg (send_request m)" using ok by simp
    have made: "new_chrpc_str_value (cm_user m @ [0]) = Some (str_value (c_str (cm_user m @ [0])), 3)"
      "new_chrpc_str_value (cm_msg m @ [0]) = Some (str_value (c_str (cm_msg m @ [0])), 3)"
      by (simp_all add: str_value_made)
    have args: "(if general_msg m
        then chrpc_client_send_request_va peer cl (literal ''send_global_message'') True [str_value (c_str (cm_msg m @ [0]))]
        else chrpc_client_send_request_va peer cl (literal ''send_private_message'') True
          [str_value (c_str (cm_user m @ [0])), str_value (c_str (cm_msg m @ [0]))]) =
      chrpc_client_send_request peer cl (request_name (send_request m)) True (request_args (send_request m))"
      for peer and cl :: "(channel_local2_core_t, channel_local2_core_t) chrpc_client_t"
      using m by (cases "general_msg m")
        (simp_all add: sendable_def send_request_def chrpc_client_send_request_va_def CHRPC_ENDPOINT_MAX_ARGS_def)
    let ?status = "fst (send_spec ss i m)"
    from request_served [OF c m, of i] obtain cl' core' st' where r:
      "chrpc_client_send_request (worker_peer ep_set i st buf) (client cs) (request_name (send_request m)) True
         (request_args (send_request m)) = Some (0, Some (status_reply ?status), cl', int (value_blocks (status_reply ?status)))"
      "served ep_set i buf (send_request m) core st st'"
      "connected junk cfg ep_set buf cl' core' st' (snd (send_spec ss i m))" by (auto simp: serve_send)
    have "\<exists>rq. (if (if ?status = CHATROOM_SUCCESS then 0 else (1 :: byte)) \<noteq> 0 then do {
          sender \<leftarrow> string_chars (literal ''$ERROR'');
          e1 \<leftarrow> struct_entry (v_value (status_reply ?status)) 1;
          s \<leftarrow> iv_str e1;
          t \<leftarrow> string_chars s;
          chatroom_mailbox_push (recv_q cs) (new_chatroom_message False sender t) }
        else Some (recv_q cs)) = Some rq \<and> mailbox_holds ji rq (inbox @ error_notice ?status)"
    proof (cases "?status = CHATROOM_SUCCESS")
      case True
      then show ?thesis using box(2) by (simp add: error_notice_def)
    next
      case False
      from mailbox_push [OF box(2), of "new_chatroom_message False (chars ''$ERROR'') (c_str (chatroom_status_as_literal ?status))"]
      show ?thesis using False status_reply_entries(2) [OF False] text_chars [OF status_text(1)]
        by (auto simp: error_notice_def error_chars)
    qed
    then obtain rq where "(if (if ?status = CHATROOM_SUCCESS then 0 else (1 :: byte)) \<noteq> 0 then do {
          sender \<leftarrow> string_chars (literal ''$ERROR'');
          e1 \<leftarrow> struct_entry (v_value (status_reply ?status)) 1;
          s \<leftarrow> iv_str e1;
          t \<leftarrow> string_chars s;
          chatroom_mailbox_push (recv_q cs) (new_chatroom_message False sender t) }
        else Some (recv_q cs)) = Some rq" "mailbox_holds ji rq (inbox @ error_notice ?status)" by blast
    then have "worker_send (worker_peer ep_set i st buf) cs =
        Some (Next (cs\<lparr>send_q := q, recv_q := rq, client := cl'\<rparr>), 0)"
      using q(1) snoc made args r(1)
      by (simp add: worker_send_def status_reply_entries(1) status_reply_deleted cong: if_cong)
    then show ?thesis using q(2) r(2,3) snoc \<open>mailbox_holds ji rq _\<close>
      by (intro exI [of _ "cs\<lparr>send_q := q, recv_q := rq, client := cl'\<rparr>"] exI [of _ core'] exI [of _ st']) simp
  qed
qed

lemma push_polled_ok:
  "\<forall>m \<in> set ms. msg_ok m \<Longrightarrow> length ms = i + n \<Longrightarrow> mailbox_holds junk mb box \<Longrightarrow>
   \<exists>mb'. push_polled (map message_iv ms) i n mb = Some mb' \<and> mailbox_holds junk mb' (box @ drop i ms)"
proof (induction n arbitrary: i mb box)
  case (Suc n)
  let ?m = "ms ! i"
  have i: "i < length ms" using Suc.prems(2) by simp
  then have ok: "no_nul (cm_user ?m)" "no_nul (cm_msg ?m)" using Suc.prems(1) by (simp_all add: msg_ok_def)
  obtain mb1 where mb1: "chatroom_mailbox_push mb ?m = Some mb1" "mailbox_holds junk mb1 (box @ [?m])"
    using mailbox_push [OF Suc.prems(3)] by blast
  have "new_chatroom_message (general_msg ?m) (cm_user ?m) (cm_msg ?m) = ?m" by (simp add: new_chatroom_message_def)
  moreover have "length ms = i + 1 + n" using Suc.prems(2) by simp
  moreover have "(box @ [?m]) @ drop (i + 1) ms = box @ drop i ms" using Cons_nth_drop_Suc [OF i] by simp
  ultimately show ?case using Suc.IH [OF Suc.prems(1) _ mb1(2), of "i + 1"] mb1(1) i ok
    by (cases "general_msg ?m") (simp_all add: message_iv_def text_chars)
qed simp

lemma polled_ok:
  assumes "msgs_ok ss"
  shows "\<forall>m \<in> set (fst (poll_spec ss i)). msg_ok m" "length (fst (poll_spec ss i)) \<le> 5"
proof -
  have "poll_amount 5 ms \<le> 5" "poll_amount 5 ms \<le> length ms" for ms :: "chatroom_message_t list"
    by (simp_all add: poll_amount_def min.coboundedI1)
  moreover have "by_id ss i = Some s \<Longrightarrow> s \<in> set ss" for s by (auto simp: by_id_def find_Some_iff)
  ultimately show "\<forall>m \<in> set (fst (poll_spec ss i)). msg_ok m" "length (fst (poll_spec ss i)) \<le> 5"
    using assms by (auto simp: poll_spec_def msgs_ok_def Let_def dest: in_set_dropD split: option.split)
qed

lemma poll_sendable: "1455 \<le> max_msg_size cfg \<Longrightarrow> sendable cfg Poll"
  by (simp add: sendable_def request_bytes_def type_enc_msg_types str_enc_def cstr_def literal_def)

lemma worker_poll_server_ok:
  assumes c: "connected junk cfg ep_set buf (client cs) core st ss" and box: "mailbox_holds ji (recv_q cs) inbox"
  shows "\<exists>cs' core' st'. worker_poll_server (worker_peer ep_set i st buf) cs = Some (Next cs', 0) \<and>
    send_q cs' = send_q cs \<and> should_exit cs' = should_exit cs \<and> served ep_set i buf Poll core st st' \<and>
    connected junk cfg ep_set buf (client cs') core' st' (snd (poll_spec ss i)) \<and>
    mailbox_holds ji (recv_q cs') (inbox @ fst (poll_spec ss i))"
proof -
  let ?ms = "fst (poll_spec ss i)"
  have "sendable cfg Poll" using c by (intro poll_sendable) (simp add: connected_def)
  from request_served [OF c this, of i] obtain cl' core' st' where r:
    "chrpc_client_send_request (worker_peer ep_set i st buf) (client cs) (literal ''poll'') True [] =
       Some (0, Some (poll_value ?ms), cl', int (value_blocks (poll_value ?ms)))"
    "served ep_set i buf Poll core st st'" "connected junk cfg ep_set buf cl' core' st' (snd (poll_spec ss i))"
    by (auto simp: serve_poll simp del: serve_chat.simps)
  have "chat_ok junk st ss" using c by (simp add: connected_def)
  then have ok: "msgs_ok ss" by (simp add: chat_ok_def)
  note ms = polled_ok [OF this, of i]
  have "ret_ok (Some (poll_value ?ms))" by (rule poll_value_ok [OF ms])
  then have del: "delete_chrpc_value (poll_value ?ms) = Some (value_blocks (poll_value ?ms))" by (simp add: ret_ok_def)
  obtain rq where rq: "push_polled (map message_iv ?ms) 0 (length ?ms) (recv_q cs) = Some rq"
    "mailbox_holds ji rq (inbox @ ?ms)" using push_polled_ok [OF ms(1) _ box, of 0 "length ?ms"] by auto
  have "unat (of_nat (length ?ms) :: u32) = length ?ms" using ms(2) by simp
  then have "worker_poll_server (worker_peer ep_set i st buf) cs = Some (Next (cs\<lparr>recv_q := rq, client := cl'\<rparr>), 0)"
    using r(1) del rq(1)
    by (simp add: worker_poll_server_def chrpc_client_send_argless_request_def)
      (simp add: poll_value_def)
  with r(2,3) rq(2) show ?thesis
    by (intro exI [of _ "cs\<lparr>recv_q := rq, client := cl'\<rparr>"] exI [of _ core'] exI [of _ st']) simp
qed

text \<open>Logging in, and the messages the line editor makes.\<close>

lemma client_login_ok:
  assumes c: "connected junk cfg ep_set buf cl core st ss" and req: "sendable cfg (Login name)"
  shows "\<exists>cl' core' st'. client_login (worker_peer ep_set i st buf) cl (name @ [0]) =
      Some (if fst (spec_login ss i name) = CHATROOM_SUCCESS then (Next cl', 0) else (Fatal, 0)) \<and>
    served ep_set i buf (Login name) core st st' \<and>
    connected junk cfg ep_set buf cl' core' st' (snd (serve_chat ss i (Login name)))"
proof -
  let ?status = "fst (spec_login ss i name)"
  have v: "fst (serve_chat ss i (Login name)) = status_reply ?status" by (simp split: prod.split)
  have "no_nul name" using req by (simp add: sendable_def)
  then have made: "new_chrpc_str_value (name @ [0]) = Some (str_value name, 3)" by (simp add: str_value_made)
  from request_served [OF c req, of i] obtain cl' core' st' where r:
    "chrpc_client_send_request (worker_peer ep_set i st buf) cl (literal ''login'') True [str_value name] =
       Some (0, Some (status_reply ?status), cl', int (value_blocks (status_reply ?status)))"
    "served ep_set i buf (Login name) core st st'"
    "connected junk cfg ep_set buf cl' core' st' (snd (serve_chat ss i (Login name)))"
    by (auto simp: v simp del: serve_chat.simps)
  have "client_login (worker_peer ep_set i st buf) cl (name @ [0]) =
      Some (if ?status = CHATROOM_SUCCESS then (Next cl', 0) else (Fatal, 0))"
    using r(1) made by (simp add: client_login_def chrpc_client_send_request_va_def CHRPC_ENDPOINT_MAX_ARGS_def
      status_reply_entries(1) status_reply_deleted)
  with r(2,3) show ?thesis by blast
qed

lemma sendable_short:
  assumes "1455 \<le> max_msg_size cfg" "no_nul (cm_msg m)" "no_nul (cm_user m)" "length (cm_user m) + length (cm_msg m) \<le> 1000"
  shows "sendable cfg (send_request m)"
  using assms by (cases "general_msg m")
    (simp_all add: sendable_def send_request_def request_bytes_def type_enc_msg_types str_enc_def literal_def arg_enc_def
      str_value_def value_enc_def cstr_def no_nul_def)

lemma line_sendable:
  assumes "no_nul t" "length t \<le> 255" "1455 \<le> max_msg_size cfg" "m \<in> set (line_msgs t)"
  shows "sendable cfg (send_request m)"
proof (rule sendable_short [OF assms(3)])
  let ?r = "takeWhile (\<lambda>c. c \<noteq> 0x20) (tl t)"
  have "set ?r \<subseteq> set t" "set (drop n (tl t)) \<subseteq> set t" for n
    by (auto dest!: set_takeWhileD in_set_dropD list.set_sel(2) simp: tl_def split: list.splits)
  then have "0 \<notin> set ?r" "0 \<notin> set (drop n (tl t))" for n using assms(1) by (auto simp: no_nul_def)
  then show "no_nul (cm_msg m)" "no_nul (cm_user m)" using assms(1,4)
    by (auto simp: line_msgs_def no_nul_def new_chatroom_message_def Let_def split: if_splits)
  have "length ?r \<le> length (tl t)" by (rule length_takeWhile_le)
  then show "length (cm_user m) + length (cm_msg m) \<le> 1000" using assms(2,4)
    by (auto simp: line_msgs_def new_chatroom_message_def Let_def split: if_splits)
qed

lemma connected_buf:
  "connected junk cfg ep_set buf cl core st ss \<Longrightarrow> length buf' = length buf \<Longrightarrow> connected junk cfg ep_set buf' cl core st ss"
  by (simp add: connected_def)

section \<open>Properties\<close>

text \<open>C18. A turn of the client's worker, with workers of the chat server at the other end of its channel,
  always ends without an error and without a leak: it takes the last message queued, sends it, and appends to
  the received messages the server's error message, if any, and the up to five messages polled, exactly
  as \<open>turn_spec\<close> does on the server's sessions; client and server are ready for the next turn.\<close>

theorem client_turn_refines:
  assumes "connected junk cfg ep_set buf (client cs) core st ss" "length buf' = length buf" "\<not> should_exit cs"
    and "mailbox_holds jo (send_q cs) pending" "mailbox_holds ji (recv_q cs) inbox" "length pending < 2 ^ 32"
    and "\<forall>m \<in> set pending. sendable cfg (send_request m)"
  shows "\<exists>st1 core1 st2 core2 cs'.
    (if pending = [] then st1 = st \<and> core1 = core else served ep_set i buf (send_request (last pending)) core st st1) \<and>
    served ep_set i buf' Poll core1 st1 st2 \<and>
    client_worker_turn (worker_peer ep_set i st buf) (worker_peer ep_set i st1 buf') cs = Some (Next cs', 0) \<and>
    connected junk cfg ep_set buf' (client cs') core2 st2 (snd (turn_spec ss i pending)) \<and>
    mailbox_holds jo (send_q cs') (butlast pending) \<and>
    mailbox_holds ji (recv_q cs') (inbox @ fst (turn_spec ss i pending))"
proof -
  obtain notices ss1 where sent: "(if pending = [] then ([], ss) else apfst error_notice (send_spec ss i (last pending))) =
    (notices, ss1)" by fastforce
  from worker_send_ok [OF assms(1,4-7), of i] obtain cs1 core1 st1 where s:
    "worker_send (worker_peer ep_set i st buf) cs = Some (Next cs1, 0)" "mailbox_holds jo (send_q cs1) (butlast pending)"
    "if pending = [] then st1 = st \<and> core1 = core else served ep_set i buf (send_request (last pending)) core st st1"
    "connected junk cfg ep_set buf (client cs1) core1 st1 ss1" "mailbox_holds ji (recv_q cs1) (inbox @ notices)"
    using sent by (cases pending rule: rev_cases) (auto simp: apfst_def map_prod_def split: prod.splits)
  from worker_poll_server_ok [OF connected_buf [OF s(4) assms(2)] s(5), of i] obtain cs2 core2 st2 where p:
    "worker_poll_server (worker_peer ep_set i st1 buf') cs1 = Some (Next cs2, 0)" "send_q cs2 = send_q cs1"
    "served ep_set i buf' Poll core1 st1 st2" "connected junk cfg ep_set buf' (client cs2) core2 st2 (snd (poll_spec ss1 i))"
    "mailbox_holds ji (recv_q cs2) (inbox @ notices @ fst (poll_spec ss1 i))" by auto
  have spec: "turn_spec ss i pending = (notices @ fst (poll_spec ss1 i), snd (poll_spec ss1 i))"
    by (simp add: turn_spec_def sent split: prod.split)
  have "client_worker_turn (worker_peer ep_set i st buf) (worker_peer ep_set i st1 buf') cs = Some (Next cs2, 0)"
    using assms(3) s(1) p(1) by (simp add: client_worker_turn_def)
  with s(2,3) p(2-5) show ?thesis unfolding spec fst_conv snd_conv
    by (intro exI [of _ st1] exI [of _ core1] exI [of _ st2] exI [of _ core2] exI [of _ cs2]) auto
qed

text \<open>A client and a server in the same process, to start from.\<close>

lemma example_connected:
  obtains cfg ep_set cl core st where
    "connected None cfg ep_set (replicate 4096 0) cl core st []" "max_msg_size cfg = 4096"
proof -
  define eps where "eps = map (request_endpoint None) [Login [], SendGlobal [], SendPrivate [] [], Poll]"
  have eps: "run_chat_server_eps None = Some eps" by (simp add: eps_eq eps_def)
  obtain cs where cs: "new_chatroom_state 0 [] [] = Some cs" using new_state_rep by blast
  note ok = chat_ok_new [OF cs, of None]
  have "distinct (map ep_name eps)"
    by (simp add: eps_def request_endpoint_def c_str_def literal_def)
  moreover have "length eps = 4" by (simp add: eps_def)
  ultimately obtain ep_set where s: "fst (new_chrpc_endpoint_set_va 0 [] eps) = Some ep_set"
    using new_endpoint_set_ok [OF chat_eps_ok(2) [OF ok eps], of 0 "[]"]
    by (auto simp: new_chrpc_endpoint_set_of_va split: option.splits)
  note inv = new_set_inv [OF s chat_eps_ok(2) [OF ok eps]]
  have size: "CHRPC_SERVER_BUF_MIN_SIZE \<le> 4096" by (simp add: CHRPC_SERVER_BUF_MIN_SIZE_def)
  obtain server server' core cl where
    local: "new_chrpc_local_client False False 0 server (Some \<lparr>queue_depth = 2, write_over = False, max_msg_size = 4096\<rparr>)
        CHRPC_DEFAULT_CLIENT_ATTRS = (CHRPC_SUCCESS, server', Some (core, cl))" "sv_ep_set server = ep_set"
    using example_local_client [OF size, where state = "Some cs" and ep_set = ep_set] by metis
  have "client_ready \<lparr>queue_depth = 2, write_over = False, max_msg_size = 4096\<rparr> cl core"
    using new_local_client_ready [OF local(1)] by (simp add: CHRPC_DEFAULT_CLIENT_ATTRS_def)
  then show thesis using ok inv eps
    by (intro that [of "\<lparr>queue_depth = 2, write_over = False, max_msg_size = 4096\<rparr>" ep_set cl core "Some cs"])
      (simp_all add: connected_def)
qed

text \<open>After the login as \<open>a\<close>, the message \<open>h\<close> to all comes back, before the announcement of the login.\<close>

lemma client_turn_refines_witness:
  "\<exists>(cs :: (channel_local2_core_t, channel_local2_core_t) client_worker_state_t) peer1 peer2 cs'.
     mailbox_holds None (send_q cs) [new_chatroom_message True [] [0x68]] \<and> mailbox_holds None (recv_q cs) [] \<and>
     client_worker_turn peer1 peer2 cs = Some (Next cs', 0) \<and> mailbox_holds None (send_q cs') [] \<and>
     mailbox_holds None (recv_q cs')
       [new_chatroom_message True [97] [0x68], new_chatroom_message True (chars ''$ROOT'') ([97] @ chars '' has logged in'')]"
proof -
  let ?m = "new_chatroom_message True [] [0x68]"
  let ?ss = "snd (serve_chat [] 1 (Login [97]))"
  obtain cfg ep_set cl core st where c: "connected None cfg ep_set (replicate 4096 0) cl core st []" "max_msg_size cfg = 4096"
    by (rule example_connected)
  have "sendable cfg (Login [97])"
    using c(2) by (simp add: sendable_def request_bytes_def type_enc_msg_types str_enc_def cstr_def arg_enc_def
        literal_def str_value_def value_enc_def no_nul_def)
  from client_login_ok [OF c(1) this, of 1] obtain cl1 core1 st1 where
    l: "connected None cfg ep_set (replicate 4096 0) cl1 core1 st1 ?ss" by blast
  obtain q where q: "chatroom_mailbox_push (new_chatroom_mailbox None) ?m = Some q" "mailbox_holds None q [?m]"
    using mailbox_push [OF mailbox_new, of None ?m] by auto
  let ?cs = "(new_worker_state None None cl1)\<lparr>send_q := q\<rparr>"
  have ss: "?ss = [\<lparr>ses_id = 1, ses_name = [97],
      ses_msgs = [new_chatroom_message True (chars ''$ROOT'') ([97] @ chars '' has logged in'')]\<rparr>]"
    by (simp add: spec_login_def valid_name_def name_char_def by_id_def by_name_def spec_global_def deliver_def
        new_chatroom_message_def)
  have turn: "fst (turn_spec ?ss 1 [?m]) =
      [new_chatroom_message True [97] [0x68], new_chatroom_message True (chars ''$ROOT'') ([97] @ chars '' has logged in'')]"
    unfolding ss
    by (simp add: turn_spec_def send_spec_def poll_spec_def error_notice_def valid_msg_def by_id_def spec_global_def
        deliver_def new_chatroom_message_def poll_amount_def)
  have "sendable cfg (send_request ?m)"
    using c(2) by (intro sendable_short) (simp_all add: new_chatroom_message_def no_nul_def)
  then have "\<forall>m \<in> set [?m]. sendable cfg (send_request m)" by simp
  moreover have "connected None cfg ep_set (replicate 4096 0) (client ?cs) core1 st1 ?ss" using l by (simp add: new_worker_state_def)
  moreover have "mailbox_holds None (send_q ?cs) [?m]" "mailbox_holds None (recv_q ?cs) []" "\<not> should_exit ?cs"
    using q(2) by (simp_all add: new_worker_state_def mailbox_new)
  ultimately obtain st2 cs' where
    "client_worker_turn (worker_peer ep_set 1 st1 (replicate 4096 0)) (worker_peer ep_set 1 st2 (replicate 4096 0)) ?cs =
       Some (Next cs', 0)" "mailbox_holds None (send_q cs') []" "mailbox_holds None (recv_q cs') ([] @ fst (turn_spec ?ss 1 [?m]))"
    using client_turn_refines [of None cfg ep_set "replicate 4096 0" ?cs core1 st1 ?ss "replicate 4096 0" None "[?m]" None "[]" 1]
    by (auto simp del: serve_chat.simps)
  then show ?thesis unfolding turn
    using \<open>mailbox_holds None (send_q ?cs) [?m]\<close> \<open>mailbox_holds None (recv_q ?cs) []\<close>
    by (intro exI [of _ ?cs] exI [of _ "worker_peer ep_set 1 st1 (replicate 4096 0)"]
        exI [of _ "worker_peer ep_set 1 st2 (replicate 4096 0)"] exI [of _ cs']) simp
qed

end
