(* ===== verification/Chsys_Sock.thy ===== *)
theory Chsys_Sock
  imports Ch_Prelude
begin

text \<open>
  Making sockets (\<open>chsys/src/sock.c\<close>).  The descriptor table of the process is a map; the results of the
  system calls are given by a record.  Either function hands out one descriptor in the right state or
  leaves the table as it was.
\<close>

record socket_t =
  s_nonblock :: bool
  s_port :: "u16 option"
  s_listening :: "int option"
  s_peer :: "(byte list \<times> u16) option"

type_synonym fd_table = "int \<Rightarrow> socket_t option"

record sock_results =
  r_socket :: int
  r_getfl :: int
  r_setfl :: int
  r_bind :: int
  r_listen :: int
  r_inet_pton :: int
  r_connect :: int

definition new_socket :: socket_t where
  "new_socket = \<lparr>s_nonblock = False, s_port = None, s_listening = None, s_peer = None\<rparr>"

text \<open>\<open>htons\<close> keeps 16 bits of the port.\<close>

definition client_connect :: "sock_results \<Rightarrow> byte list \<Rightarrow> int \<Rightarrow> fd_table \<Rightarrow> int \<times> fd_table" where
  "client_connect r ipaddr port fds =
     (let sockfd = r_socket r
      in if sockfd < 0 then (- 1, fds)
         else let fds = fds(sockfd \<mapsto> new_socket)
         in if r_inet_pton r \<le> 0 then (- 1, fds(sockfd := None))
         else if r_connect r < 0 then (- 1, fds(sockfd := None))
         else (sockfd, fds(sockfd \<mapsto> new_socket\<lparr>s_peer := Some (ipaddr, word_of_int port)\<rparr>)))"

definition create_server :: "sock_results \<Rightarrow> int \<Rightarrow> int \<Rightarrow> fd_table \<Rightarrow> int \<times> fd_table" where
  "create_server r port pending_conns fds =
     (if pending_conns \<le> 0 then (- 1, fds)
      else let sockfd = r_socket r
      in if sockfd < 0 then (- 1, fds)
         else let fds = fds(sockfd \<mapsto> new_socket)
         in if r_getfl r = - 1 then (- 1, fds(sockfd := None))
         else if r_setfl r = - 1 then (- 1, fds(sockfd := None))
         else let s = new_socket\<lparr>s_nonblock := True\<rparr>; fds = fds(sockfd \<mapsto> s)
         in if r_bind r \<noteq> 0 then (- 1, fds(sockfd := None))
         else let s = s\<lparr>s_port := Some (word_of_int port)\<rparr>; fds = fds(sockfd \<mapsto> s)
         in if r_listen r \<noteq> 0 then (- 1, fds(sockfd := None))
         else (sockfd, fds(sockfd \<mapsto> s\<lparr>s_listening := Some pending_conns\<rparr>)))"

text \<open>No descriptor leaks, and a server socket is non-blocking as the header promises.\<close>

lemma create_server_sound:
  assumes "fds (r_socket r) = None" "create_server r port pending_conns fds = (fd, fds')"
  shows "(if fd < 0 then fd = - 1 \<and> fds' = fds
     else \<exists>s. fds' = fds(fd \<mapsto> s) \<and> fds fd = None \<and> s_nonblock s \<and> s_port s = Some (word_of_int port) \<and>
       s_listening s = Some pending_conns \<and> 0 < pending_conns)"
  using assms by (auto simp: create_server_def Let_def split: if_splits)

lemma client_connect_sound:
  assumes "fds (r_socket r) = None" "client_connect r ipaddr port fds = (fd, fds')"
  shows "(if fd < 0 then fd = - 1 \<and> fds' = fds
     else \<exists>s. fds' = fds(fd \<mapsto> s) \<and> fds fd = None \<and> s_peer s = Some (ipaddr, word_of_int port))"
  using assms by (auto simp: client_connect_def Let_def split: if_splits)

end
