(* ===== verification/Chat_Main.thy ===== *)
theory Chat_Main
  imports Chat_Server Chrpc_Channel_Fd Chsys_Sock
begin

text \<open>
  The chat server's \<open>run_chat_server\<close> (\<open>chrpc/examples/chatroom/server.c\<close>): making the chatroom, the
  endpoints, the server and its socket, accepting connections, and shutting down; and how the client's
  \<open>main\<close> (\<open>client.c\<close>) connects.  Results of system calls are parameters; \<open>LogFatal\<close> is \<open>log_fatal\<close>,
  which ends the process.

  The theorems are about every state the running server can reach, with any number of connections, any
  messages on them and any interleaving of its workers.
\<close>

section \<open>The main program\<close>

type_synonym chat_server =
  "(channel_fd_t, channel_fd_config_t, chatroom_state_t option) chrpc_server_t"

datatype 'a run_result = Running 'a | LogFatal

definition CHATROOM_PORT :: int where "CHATROOM_PORT = 5656"

text \<open>The iterators of the three hash maps start with the given values.\<close>

definition run_chat_server_init ::
    "nat option \<Rightarrow> nat \<Rightarrow> (channel_id_t, username_t) kvh list \<Rightarrow> (username_t, nat) kvh list \<Rightarrow>
     nat \<Rightarrow> (byte list, nat) kvh list \<Rightarrow> sock_results \<Rightarrow> fd_table \<Rightarrow>
     (chat_server \<times> int \<times> fd_table) run_result option" where
  "run_chat_server_init junk ji jn1 jn2 je jn3 r fds = do {
     cs \<leftarrow> new_chatroom_state ji jn1 jn2;
     eps \<leftarrow> run_chat_server_eps junk;
     ep_set \<leftarrow> fst (new_chrpc_endpoint_set_va je jn3 eps);
     (case new_chrpc_server True (Some cs) run_chat_server_attrs ep_set of (status, server) \<Rightarrow>
        if status \<noteq> CHRPC_SUCCESS then Some LogFatal
        else case create_server r CHATROOM_PORT 5 fds of (server_fd, fds') \<Rightarrow>
          if server_fd < 0 then Some LogFatal
          else do { s \<leftarrow> server; Some (Running (s, server_fd, fds')) }) }"

definition client_cfg :: "int \<Rightarrow> channel_fd_config_t" where
  "client_cfg client_fd = \<lparr>fc_queue_depth = 5, fc_write_fd = client_fd, fc_read_fd = client_fd, fc_write_over = False,
     fc_max_msg_size = 0x1000, fc_read_chunk_size = 0x1000\<rparr>"

text \<open>
  One round of the loop: \<open>client_fd\<close> is what \<open>accept\<close> returns, \<open>would_block\<close> whether \<open>errno\<close> says so;
  the channel's mutex and the \<open>fcntl\<close> calls may fail.
\<close>

definition chat_accept ::
    "int \<Rightarrow> bool \<Rightarrow> bool \<Rightarrow> bool \<Rightarrow> int \<Rightarrow> chat_server \<Rightarrow> chat_server run_result" where
  "chat_accept client_fd would_block mutex_fails fcntl_ok now server =
     (if client_fd < 0 \<and> \<not> would_block then LogFatal
      else if client_fd > 0 then
        (case new_channel (Some (CHANNEL_FD_IMPL mutex_fails (- 1) fcntl_ok)) True (Some (client_cfg client_fd)) of
           (chn_status, client_chn) \<Rightarrow>
             if chn_status \<noteq> CHN_SUCCESS then LogFatal
             else case chrpc_server_give_channel server client_chn now of
               (status, server') \<Rightarrow> if status \<noteq> CHRPC_SUCCESS then LogFatal else Running server')
      else Running server)"

text \<open>
  Shutting down once the workers are joined: the table of descriptors, the ids of the channels still queued,
  and what is left of the chatroom.
\<close>

definition run_chat_server_end ::
    "chat_server \<Rightarrow> int \<Rightarrow> fd_table \<Rightarrow>
     (fd_table \<times> channel_id_t list \<times> nat set \<times> (nat \<rightharpoonup> chatroom_mailbox_t) \<times> nat \<times> nat) option" where
  "run_chat_server_end server server_fd fds = do {
     ids \<leftarrow> delete_chrpc_server server;
     cs \<leftarrow> server_state server;
     rest \<leftarrow> delete_chatroom_state cs;
     Some (fds(server_fd := None), ids, rest) }"

text \<open>The client connects and makes its channel and RPC client.\<close>

definition client_start ::
    "sock_results \<Rightarrow> byte list \<Rightarrow> bool \<Rightarrow> bool \<Rightarrow> fd_table \<Rightarrow>
     ((channel_fd_t, channel_fd_config_t) chrpc_client_t \<times> int \<times> fd_table) run_result" where
  "client_start r ip mutex_fails fcntl_ok fds =
     (case client_connect r ip CHATROOM_PORT fds of (client_fd, fds') \<Rightarrow>
        if client_fd = - 1 then LogFatal
        else case new_channel (Some (CHANNEL_FD_IMPL mutex_fails (- 1) fcntl_ok)) True
            (Some \<lparr>fc_queue_depth = 5, fc_write_fd = client_fd, fc_read_fd = client_fd, fc_write_over = True,
               fc_max_msg_size = 0x1000, fc_read_chunk_size = 0x1000\<rparr>) of
          (chn_status, chn) \<Rightarrow>
            if chn_status \<noteq> CHN_SUCCESS then LogFatal
            else case new_chrpc_client chn \<lparr>cadence = 20000, timeout = 8000000\<rparr> of (rpc_status, cl) \<Rightarrow>
              if rpc_status \<noteq> CHRPC_SUCCESS then LogFatal else Running (the cl, client_fd, fds'))"

text \<open>
  Unless a call of the system fails the client has a buffer of the size of the server's, and its waits end.
\<close>

lemma client_start_ok:
  assumes "fds (r_socket r) = None" "client_connect r ip CHATROOM_PORT fds = (client_fd, fds')"
  shows "if client_fd < 0 then client_start r ip False True fds = LogFatal \<and> fds' = fds
    else \<exists>cl. client_start r ip False True fds = Running (cl, client_fd, fds') \<and> no_wrap (cl_attrs cl) \<and>
      length (cl_buf cl) = sa_max_msg_size run_chat_server_attrs"
proof (cases "client_fd < 0")
  case True
  with client_connect_sound [OF assms] have "client_fd = - 1" "fds' = fds" by auto
  with assms(2) show ?thesis by (simp add: client_start_def)
next
  case False
  obtain chn where chn: "new_channel (Some (CHANNEL_FD_IMPL False (- 1) True)) True
      (Some \<lparr>fc_queue_depth = 5, fc_write_fd = client_fd, fc_read_fd = client_fd, fc_write_over = True,
         fc_max_msg_size = 0x1000, fc_read_chunk_size = 0x1000\<rparr>) = (CHN_SUCCESS, Some chn)"
      "chn_max_msg_size (Some chn) True = (CHN_SUCCESS, Some 0x1000)"
    using False by (simp add: new_channel_def CHANNEL_FD_IMPL_def new_channel_fd_def new_queue_def
        chn_max_msg_size_def chn_fd_max_msg_size_def)
  with False assms(2) show ?thesis
    by (simp add: client_start_def new_chrpc_client_def no_wrap_def run_chat_server_attrs_def)
qed

section \<open>The chatroom is well-formed in every reachable state\<close>

text \<open>Unless an endpoint had undefined behaviour, the state represents a list of sessions.\<close>

definition chat_good :: "nat option \<Rightarrow> chatroom_state_t option \<Rightarrow> bool" where
  "chat_good junk st \<longleftrightarrow> (\<forall>cs. st = Some cs \<longrightarrow> (\<exists>us. chat_rep junk cs us \<and> msgs_ok (map fst us)))"

lemma chat_goodI: "chat_rep junk cs us \<Longrightarrow> msgs_ok (map fst us) \<Longrightarrow> chat_good junk (Some cs)"
  by (auto simp: chat_good_def)

lemma string_chars_cases: "string_chars s = Some t \<Longrightarrow> s = [] \<and> t = [] \<or> 0 \<in> set s"
  by (auto simp: string_chars_def split: if_splits bind_splits dest!: c_strlen_SomeD)
    (metis in_set_conv_decomp list.set_map image_iff option.inject)

text \<open>A message of length zero, also the one NULL stands for, changes nothing.\<close>

lemma empty_message:
  "chatroom_send_global_msg_from_id cs i [] = Some (CHATROOM_INVALID_MESSAGE_LEN, cs)"
  "chatroom_send_private_msg_from_id cs r i [] = Some (CHATROOM_INVALID_MESSAGE_LEN, cs)"
  by (simp_all add: chatroom_send_global_msg_from_id_def chatroom_send_private_msg_from_id_def)

text \<open>A receiver that is not terminated is not looked at unless the sender and the message are accepted.\<close>

lemma private_receiver:
  assumes "chatroom_send_private_msg_from_id cs r i m = Some (status, cs')"
  shows "cs' = cs \<or> (\<exists>r'. 0 \<in> set r' \<and> chatroom_send_private_msg_from_id cs r' i m = Some (status, cs'))"
proof (cases "string_chars r")
  case None
  then show ?thesis using assms
    by (auto simp: chatroom_send_private_msg_from_id_def send_private_msg_def split: if_splits option.splits bind_splits)
next
  case (Some t)
  from string_chars_cases [OF this] show ?thesis
  proof
    assume "r = [] \<and> t = []"
    then have "string_chars [0] = string_chars r" by (simp add: string_chars_def)
    then have eq: "send_private_msg cs [0] xs m = send_private_msg cs r xs m" for xs by (simp add: send_private_msg_def)
    have "chatroom_send_private_msg_from_id cs [0] i m = Some (status, cs')"
      using assms unfolding chatroom_send_private_msg_from_id_def eq .
    moreover have "0 \<in> set [0 :: byte]" by simp
    ultimately show ?thesis by blast
  qed (use assms in blast)
qed

lemma endpoint_good:
  assumes "chat_good junk (Some cs)" "request_ep junk req i cs args = Some (cmd, ret, n, cs')"
  shows "chat_good junk (Some cs')"
proof -
  obtain us where us: "chat_rep junk cs us" "msgs_ok (map fst us)" using assms(1) by (auto simp: chat_good_def)
  show ?thesis
  proof (cases req)
    case (Login name)
    then obtain s where s: "arg_str args 0 = Some s" using assms(2) by (auto simp: chatroom_login_ep_def split: bind_splits)
    then obtain k where "c_strlen (map Some s) = Some k"
      using assms(2) Login by (auto simp: chatroom_login_ep_def chatroom_login_def split: bind_splits)
    then have "0 \<in> set s" using string_chars_cases [of s] by (cases "s = []") (auto simp: string_chars_def)
    from login_ep_ok [OF us s this, of i] show ?thesis using assms(2) Login by (auto intro: chat_goodI)
  next
    case (SendGlobal m)
    then obtain s t where s: "arg_str args 0 = Some s" "string_chars s = Some t"
      using assms(2) by (auto simp: chatroom_send_global_msg_ep_def split: bind_splits)
    from string_chars_cases [OF s(2)] show ?thesis
    proof
      assume "s = [] \<and> t = []"
      then show ?thesis using assms s SendGlobal
        by (simp add: chatroom_send_global_msg_ep_def empty_message reply_status_ok)
    next
      assume "0 \<in> set s"
      from send_global_ep_ok [OF us s(1) this, of i] show ?thesis using assms(2) SendGlobal by (auto intro: chat_goodI)
    qed
  next
    case (SendPrivate r m)
    then obtain s0 s t status cs1 where s: "arg_str args 0 = Some s0" "arg_str args 1 = Some s" "string_chars s = Some t"
      and sent: "chatroom_send_private_msg_from_id cs s0 i t = Some (status, cs1)" "reply_status status cs1 = Some (cmd, ret, n, cs')"
      using assms(2) by (auto simp: chatroom_send_private_msg_ep_def split: bind_splits)
    have cs1: "cs' = cs1" using sent(2) by (simp add: reply_status_ok)
    show ?thesis
    proof (cases "cs1 = cs")
      case True
      then show ?thesis using assms(1) cs1 by simp
    next
      case False
      then have "t \<noteq> []" using sent(1) by (auto simp: empty_message)
      with string_chars_cases [OF s(3)] have ends: "0 \<in> set s" by auto
      obtain r' where r': "0 \<in> set r'" "chatroom_send_private_msg_from_id cs r' i t = Some (status, cs1)"
        using private_receiver [OF sent(1)] False by blast
      let ?args = "[\<lparr>v_type = CHRPC_STRING_T, v_value = IVStr r'\<rparr>, \<lparr>v_type = CHRPC_STRING_T, v_value = IVStr s\<rparr>]"
      have args: "arg_str ?args 0 = Some r'" "arg_str ?args 1 = Some s" by (simp_all add: arg_str_def)
      have "chatroom_send_private_msg_ep i cs ?args = Some (cmd, ret, n, cs')"
        using args s(3) r'(2) sent(2) by (simp add: chatroom_send_private_msg_ep_def)
      with send_private_ep_ok [OF us args(1) r'(1) args(2) ends, of i] show ?thesis by (auto intro: chat_goodI)
    qed
  next
    case Poll
    from poll_ep_ok [OF us, of i args] show ?thesis using assms(2) Poll by (auto intro: chat_goodI)
  qed
qed

definition chat_eps :: "nat option \<Rightarrow> chatroom_state_t option chrpc_endpoint_t list" where
  "chat_eps junk = map (request_endpoint junk) [Login [], SendGlobal [], SendPrivate [] [], Poll]"

interpretation chat: state_contract "chat_good junk" "chat_eps junk" "on_disconnect run_chat_server_attrs" for junk
proof
  fix ep st i args
  assume ep: "ep \<in> set (chat_eps junk)" and good: "chat_good junk st"
  then obtain req where f: "ep_func ep = chat_ep (request_ep junk req)"
    by (auto simp: chat_eps_def request_endpoint_def simp del: request_ep.simps)
  show "chat_good junk (snd (snd (ep_func ep i st args)))"
  proof (cases "do { cs \<leftarrow> st; request_ep junk req i cs args }")
    case None
    then show ?thesis by (simp add: f chat_ep_def chat_good_def)
  next
    case (Some res)
    obtain cmd ret n cs' where res: "res = (cmd, ret, n, cs')" by (cases res)
    obtain cs where cs: "st = Some cs" using Some by (cases st) auto
    with endpoint_good [of junk cs req i args cmd ret n cs'] good Some res
    show ?thesis by (simp add: f chat_ep_def)
  qed
next
  fix f i st
  assume f: "on_disconnect run_chat_server_attrs = Some f" and good: "chat_good junk st"
  show "chat_good junk (f i st)"
  proof (cases st)
    case None
    then show ?thesis using f by (auto simp: run_chat_server_attrs_def chat_good_def)
  next
    case (Some cs)
    with good obtain us where "chat_rep junk cs us" "msgs_ok (map fst us)" by (auto simp: chat_good_def)
    then have "chat_ok junk st (map fst us)" using Some by (auto simp: chat_ok_def)
    from disconnect_ok [OF this, of i] have "chat_ok junk (f i st) (chat_disconnect (map fst us) i)"
      using f by (auto simp: run_chat_server_attrs_def)
    then show ?thesis by (auto simp: chat_ok_def chat_good_def)
  qed
qed

text \<open>The server that \<open>run_chat_server_init\<close> makes.\<close>

lemma init_ok:
  assumes "run_chat_server_init junk ji jn1 jn2 je jn3 r fds = Some (Running (s0, fd, fds'))"
  shows "\<exists>cs ep_set. new_chrpc_server True (Some cs) run_chat_server_attrs ep_set = (CHRPC_SUCCESS, Some s0) \<and>
      sv_attrs s0 = run_chat_server_attrs" "chat.system_good junk s0"
    "create_server r CHATROOM_PORT 5 fds = (fd, fds')" "0 \<le> fd"
proof -
  obtain cs eps ep_set where init: "new_chatroom_state ji jn1 jn2 = Some cs" "run_chat_server_eps junk = Some eps"
    "fst (new_chrpc_endpoint_set_va je jn3 eps) = Some ep_set"
    "new_chrpc_server True (Some cs) run_chat_server_attrs ep_set = (CHRPC_SUCCESS, Some s0)"
    and sock: "create_server r CHATROOM_PORT 5 fds = (fd, fds')" "0 \<le> fd"
    using assms by (auto simp: run_chat_server_init_def split: bind_splits prod.splits if_splits)
  have ok: "chat_ok junk (Some cs) []" by (rule chat_ok_new [OF init(1)])
  from new_set_inv [OF init(3) chat_eps_ok(2) [OF ok init(2)]]
  have s: "set_inv ep_set" "endpoints ep_set = chat_eps junk" using init(2) by (simp_all add: eps_eq chat_eps_def)
  have s0: "server_state s0 = Some cs" "sv_attrs s0 = run_chat_server_attrs" "sv_ep_set s0 = ep_set"
    using init(4) by (auto simp: new_chrpc_server_def split: if_splits)
  have "chat_good junk (Some cs)" using ok by (auto simp: chat_ok_def chat_good_def)
  then show "chat.system_good junk s0" using s s0 by (simp add: chat.system_good_def)
  show "\<exists>cs ep_set. new_chrpc_server True (Some cs) run_chat_server_attrs ep_set = (CHRPC_SUCCESS, Some s0) \<and>
      sv_attrs s0 = run_chat_server_attrs" using init(4) s0(2) by blast
  show "create_server r CHATROOM_PORT 5 fds = (fd, fds')" "0 \<le> fd" by (fact sock)+
qed

lemma accept_ok:
  assumes "sv_attrs s = run_chat_server_attrs" "q_cap (sv_q s) = 20" "0 < client_fd" "id_counter s \<noteq> - 1"
  shows "case chat_accept client_fd would_block False True now s of
      LogFatal \<Rightarrow> num_channels s = 20
    | Running s' \<Rightarrow> num_channels s \<noteq> 20 \<and> num_channels s' = num_channels s + 1 \<and> id_counter s' = id_counter s + 1 \<and>
        (\<exists>chn. chrpc_server_give_channel s (Some chn) now = (CHRPC_SUCCESS, s'))"
proof -
  obtain chn where chn: "new_channel (Some (CHANNEL_FD_IMPL False (- 1) True)) True (Some (client_cfg client_fd)) =
      (CHN_SUCCESS, Some chn)" "chn_max_msg_size (Some chn) True = (CHN_SUCCESS, Some 0x1000)"
    using assms(3) by (simp add: new_channel_def CHANNEL_FD_IMPL_def new_channel_fd_def client_cfg_def new_queue_def
        chn_max_msg_size_def chn_fd_max_msg_size_def)
  show ?thesis
    using assms chn by (auto simp: chat_accept_def chrpc_server_give_channel_def run_chat_server_attrs_def
        CHRPC_SERVER_BUF_MIN_SIZE_def Let_def intro!: exI [of _ chn])
qed

section \<open>Properties\<close>

text \<open>C17. The chat server, with any clients, messages and interleavings: as long as no endpoint had
  undefined behaviour its state represents a list of sessions whose messages fit into replies, and when its
  workers have exited, shutting down closes the socket, destroys every connection ever accepted exactly
  once and leaves no user name, mailbox or map node behind.\<close>

theorem chat_server_shutdown:
  assumes "run_chat_server_init junk ji jn1 jn2 je jn3 r fds = Some (Running (s0, fd, fds'))"
    and "reachable s0 (s, ws, destroyed)" "fds (r_socket r) = None"
  shows "chat_good junk (server_state s) \<and>
    ((\<forall>w \<in> set ws. w = Exited) \<and> server_state s \<noteq> None \<longrightarrow>
      (\<exists>ids n. run_chat_server_end s fd fds' = Some (fds, ids, {}, Map.empty, n, n) \<and>
        distinct (destroyed @ ids) \<and> mset (destroyed @ ids) = mset (given_ids (id_counter s))))"
proof (intro conjI impI)
  note init = init_ok [OF assms(1)]
  have good: "chat.system_good junk s" using chat.reachable_good [OF assms(2) init(2)] by simp
  then show state: "chat_good junk (server_state s)" by (simp add: chat.system_good_def)
  assume "(\<forall>w \<in> set ws. w = Exited) \<and> server_state s \<noteq> None"
  then have exited: "\<forall>w \<in> set ws. w = Exited" and "server_state s \<noteq> None" by simp_all
  then obtain cs where cs: "server_state s = Some cs" by auto
  with state obtain us where "chat_rep junk cs us" by (auto simp: chat_good_def)
  note del = delete_state_ok [OF this]
  obtain cs0 ep_set where "new_chrpc_server True (Some cs0) run_chat_server_attrs ep_set = (CHRPC_SUCCESS, Some s0)"
    using init(1) by blast
  from server_delete_ok [OF this assms(2) exited] obtain ids where ids: "delete_chrpc_server s = Some ids"
    "distinct (destroyed @ ids)" "mset (destroyed @ ids) = mset (given_ids (id_counter s))" by blast
  have "fds' = fds(fd \<mapsto> the (fds' fd)) \<and> fds fd = None"
    using create_server_sound [OF assms(3) init(3)] init(4) by auto
  then have "fds'(fd := None) = fds" by (metis fun_upd_triv fun_upd_upd)
  then show "\<exists>ids n. run_chat_server_end s fd fds' = Some (fds, ids, {}, Map.empty, n, n) \<and>
      distinct (destroyed @ ids) \<and> mset (destroyed @ ids) = mset (given_ids (id_counter s))"
    using ids del cs by (auto simp: run_chat_server_end_def)
qed

definition sock_ok :: sock_results where
  "sock_ok = \<lparr>r_socket = 3, r_getfl = 0, r_setfl = 0, r_bind = 0, r_listen = 0, r_inet_pton = 1, r_connect = 0\<rparr>"

lemma example_init:
  obtains s0 fds' where "run_chat_server_init None 0 [] [] 0 [] sock_ok Map.empty = Some (Running (s0, 3, fds'))"
    "reachable s0 (s0, replicate 4 AtTop, [])" "num_channels s0 = 0" "id_counter s0 = 0" "server_state s0 \<noteq> None"
proof -
  obtain cs where cs: "new_chatroom_state 0 [] [] = Some cs" using new_state_rep by blast
  have eps: "run_chat_server_eps None = Some (chat_eps None)" by (simp add: eps_eq chat_eps_def)
  have "distinct (map ep_name (chat_eps None))"
    by (simp add: chat_eps_def request_endpoint_def c_str_def literal_def)
  moreover have "length (chat_eps None) = 4" by (simp add: chat_eps_def)
  ultimately obtain ep_set where s: "fst (new_chrpc_endpoint_set_va 0 [] (chat_eps None)) = Some ep_set"
    using new_endpoint_set_ok [OF chat_eps_ok(2) [OF chat_ok_new [OF cs] eps], of 0 "[]"]
    by (auto simp: new_chrpc_endpoint_set_of_va split: option.splits)
  obtain s0 :: chat_server where s0: "new_chrpc_server True (Some cs) run_chat_server_attrs ep_set = (CHRPC_SUCCESS, Some s0)"
    "server_state s0 = Some cs" "num_channels s0 = 0" "id_counter s0 = 0" "sv_attrs s0 = run_chat_server_attrs"
    by (simp add: new_chrpc_server_def run_chat_server_attrs_def CHRPC_SERVER_BUF_MIN_SIZE_def new_queue_def)
  obtain fds' where "create_server sock_ok CHATROOM_PORT 5 Map.empty = (3, fds')"
    by (simp add: create_server_def sock_ok_def Let_def)
  then have "run_chat_server_init None 0 [] [] 0 [] sock_ok Map.empty = Some (Running (s0, 3, fds'))"
    using cs eps s s0(1) by (simp add: run_chat_server_init_def)
  moreover have "reachable s0 (s0, replicate 4 AtTop, [])"
    using reachable.created [of s0] s0(5) by (simp add: run_chat_server_attrs_def)
  ultimately show thesis using that s0 by simp
qed

text \<open>Stopped before any client came.\<close>

lemma stop_idle:
  assumes "reachable s0 (s, ws, [])" "should_exit s" "ws = replicate k Exited @ replicate n AtTop"
  shows "reachable s0 (s, replicate (k + n) Exited, [])"
  using assms
proof (induction n arbitrary: k ws)
  case (Suc n)
  have "worker_step s (ws ! k) s Exited []"
    using worker_step.exits [OF Suc.prems(2)] Suc.prems(3) by (simp add: nth_append)
  moreover have "k < length ws" using Suc.prems(3) by simp
  ultimately have "reachable s0 (s, ws[k := Exited], [] @ [])" using reachable_work [OF Suc.prems(1)] by blast
  moreover have "ws[k := Exited] = replicate (Suc k) Exited @ replicate n AtTop"
    using Suc.prems(3) by (simp add: list_update_append replicate_app_Cons_same)
  ultimately show ?case using Suc.IH [of "ws[k := Exited]" "Suc k"] Suc.prems(2) by simp
qed simp

theorem chat_server_shutdown_witness:
  "\<exists>s0 fds' s n. run_chat_server_init None 0 [] [] 0 [] sock_ok Map.empty = Some (Running (s0, 3, fds')) \<and>
     reachable s0 (s, replicate 4 Exited, []) \<and>
     run_chat_server_end s 3 fds' = Some (Map.empty, [], {}, Map.empty, n, n)"
proof -
  obtain s0 fds' where init: "run_chat_server_init None 0 [] [] 0 [] sock_ok Map.empty = Some (Running (s0, 3, fds'))"
    "reachable s0 (s0, replicate 4 AtTop, [])" "id_counter s0 = 0" "server_state s0 \<noteq> None" by (rule example_init)
  let ?s = "s0\<lparr>should_exit := True\<rparr>"
  have "reachable s0 (?s, replicate 4 AtTop, [])" by (rule reachable.step [OF init(2) server_step.stop])
  from stop_idle [OF this, of 0 4] have r: "reachable s0 (?s, replicate 4 Exited, [])" by simp
  have "(Map.empty :: fd_table) (r_socket sock_ok) = None" by simp
  from chat_server_shutdown [OF init(1) r this] init(3,4) obtain ids n where
    "run_chat_server_end ?s 3 fds' = Some (Map.empty, ids, {}, Map.empty, n, n)" "mset ids = {#}"
    by (auto simp: given_ids_def)
  with init(1) r show ?thesis by auto
qed

text \<open>C33. A new connection to the running chat server is accepted exactly as long as fewer than 20 are being
  served; with 20, a further client ends the whole process, because the server being full is taken for a
  fatal error.\<close>

theorem chat_accept_full:
  assumes "run_chat_server_init junk ji jn1 jn2 je jn3 r fds = Some (Running (s0, fd, fds'))"
    and "reachable s0 (s, ws, destroyed)" "0 < client_fd" "id_counter s \<noteq> - 1"
  shows "case chat_accept client_fd would_block False True now s of
      LogFatal \<Rightarrow> num_channels s = 20
    | Running s' \<Rightarrow> num_channels s < 20 \<and> reachable s0 (s', ws, destroyed) \<and>
        num_channels s' = num_channels s + 1 \<and> id_counter s' = id_counter s + 1"
proof -
  obtain cs ep_set where new: "new_chrpc_server True (Some cs) run_chat_server_attrs ep_set = (CHRPC_SUCCESS, Some s0)"
    "sv_attrs s0 = run_chat_server_attrs" using init_ok(1) [OF assms(1)] by blast
  have attrs: "sv_attrs s = run_chat_server_attrs" using reachable_attrs [OF assms(2)] new(2) by simp
  have "server_inv (s, ws, destroyed)" by (rule reachable_inv [OF assms(2) new(1)])
  then have cap: "q_cap (sv_q s) = 20" "num_channels s \<le> 20"
    by (simp_all add: server_inv_def attrs) (simp_all add: run_chat_server_attrs_def)
  from accept_ok [OF attrs cap(1) assms(3,4), where would_block = would_block and now = now] cap(2) reachable_give [OF assms(2)]
  show ?thesis by (auto split: run_result.splits)
qed

theorem chat_accept_full_witness:
  "\<exists>s0 fds' s. run_chat_server_init None 0 [] [] 0 [] sock_ok Map.empty = Some (Running (s0, 3, fds')) \<and>
     reachable s0 (s, replicate 4 AtTop, []) \<and> num_channels s = 20 \<and> chat_accept 24 False False True 0 s = LogFatal"
proof -
  obtain s0 fds' where init: "run_chat_server_init None 0 [] [] 0 [] sock_ok Map.empty = Some (Running (s0, 3, fds'))"
    "reachable s0 (s0, replicate 4 AtTop, [])" "num_channels s0 = 0" "id_counter s0 = 0" by (rule example_init)
  have "\<exists>s. reachable s0 (s, replicate 4 AtTop, []) \<and> num_channels s = k \<and> id_counter s = of_nat k" if "k \<le> 20" for k
    using that
  proof (induction k)
    case 0
    with init show ?case by auto
  next
    case (Suc k)
    then obtain s where s: "reachable s0 (s, replicate 4 AtTop, [])" "num_channels s = k" "id_counter s = of_nat k" by auto
    have "unat (of_nat k :: channel_id_t) = k" using Suc.prems by (simp add: unat_of_nat)
    moreover have "unat (- 1 :: channel_id_t) = 2 ^ 64 - 1" by (simp add: unsigned_minus_1_eq_mask mask_eq_exp_minus_1)
    ultimately have "id_counter s \<noteq> - 1" using s(3) Suc.prems by auto
    from chat_accept_full [OF init(1) s(1) _ this, where client_fd = 4 and would_block = False and now = 0] s(2,3) Suc.prems
    show ?case by (auto split: run_result.splits simp: add.commute)
  qed
  from this [of 20] obtain s where s: "reachable s0 (s, replicate 4 AtTop, [])" "num_channels s = 20" "id_counter s = 20"
    by auto
  from chat_accept_full [OF init(1) s(1), where client_fd = 24 and would_block = False and now = 0] s(2,3) have "chat_accept 24 False False True 0 s = LogFatal"
    by (auto split: run_result.splits)
  with init(1) s show ?thesis by blast
qed

end
