(* ===== verification/Chutil_Stream.thy ===== *)
theory Chutil_Stream
  imports Ch_Prelude
begin

text \<open>
  Character streams (\<open>chutil/src/stream.c\<close>, \<open>stream.h\<close>).  A string is the list of its characters: the stream is its only
  user, as the header demands, and \<open>Chutil_String\<close> shows that such a string behaves like the list.  A
  \<open>FILE\<close> opened for reading is the list of the bytes still to come, one opened for writing the bytes
  written so far and a list of the results of the next \<open>fputc\<close> calls.

  \<open>in_stream\<close> is what a reader relies on; string and file streams are its instances.
\<close>

section \<open>Input streams\<close>

datatype stream_state_t = STREAM_SUCCESS | STREAM_EMPTY | STREAM_ERROR

text \<open>What a destructor gives back besides the block of the stream's own data.\<close>

datatype released_t = DeletedString "byte list" | ClosedFile "byte list" | NothingElse

text \<open>A flag says whether the out pointer is non-NULL; what is not written is \<open>None\<close>.\<close>

record 's in_stream_impl_t =
  i_peek_char :: "'s \<Rightarrow> bool \<Rightarrow> stream_state_t \<times> byte option"
  i_next_char :: "'s \<Rightarrow> bool \<Rightarrow> stream_state_t \<times> byte option \<times> 's"
  i_destructor :: "'s \<Rightarrow> nat \<times> released_t"

record 's in_stream_t =
  is_data :: 's
  is_impl :: "'s in_stream_impl_t"

definition is_peek_char :: "'s in_stream_t \<Rightarrow> bool \<Rightarrow> stream_state_t \<times> byte option" where
  "is_peek_char is out = i_peek_char (is_impl is) (is_data is) out"

definition is_next_char :: "'s in_stream_t \<Rightarrow> bool \<Rightarrow> stream_state_t \<times> byte option \<times> 's in_stream_t" where
  "is_next_char is out =
     (case i_next_char (is_impl is) (is_data is) out of (state, c, d) \<Rightarrow> (state, c, is\<lparr>is_data := d\<rparr>))"

text \<open>The blocks freed, and what the stream owned.\<close>

definition delete_in_stream :: "'s in_stream_t \<Rightarrow> nat \<times> released_t" where
  "delete_in_stream is = (case i_destructor (is_impl is) (is_data is) of (n, r) \<Rightarrow> (n + 1, r))"

record string_in_stream_t =
  sis_i :: nat
  sis_s :: "byte list"

definition new_string_in_stream :: "byte list \<Rightarrow> string_in_stream_t" where
  "new_string_in_stream s = \<lparr>sis_i = 0, sis_s = s\<rparr>"

definition sis_peek_char :: "string_in_stream_t \<Rightarrow> bool \<Rightarrow> stream_state_t \<times> byte option" where
  "sis_peek_char sis out =
     (if sis_i sis \<ge> length (sis_s sis) then (STREAM_EMPTY, None)
      else (STREAM_SUCCESS, if out then Some (sis_s sis ! sis_i sis) else None))"

definition sis_next_char :: "string_in_stream_t \<Rightarrow> bool \<Rightarrow> stream_state_t \<times> byte option \<times> string_in_stream_t" where
  "sis_next_char sis out =
     (if sis_i sis \<ge> length (sis_s sis) then (STREAM_EMPTY, None, sis)
      else (STREAM_SUCCESS, if out then Some (sis_s sis ! sis_i sis) else None, sis\<lparr>sis_i := sis_i sis + 1\<rparr>))"

definition delete_string_in_stream :: "string_in_stream_t \<Rightarrow> nat \<times> released_t" where
  "delete_string_in_stream sis = (1, DeletedString (sis_s sis))"

definition STRING_IN_STREAM_IMPL :: "string_in_stream_t in_stream_impl_t" where
  "STRING_IN_STREAM_IMPL = \<lparr>i_peek_char = sis_peek_char, i_next_char = sis_next_char, i_destructor = delete_string_in_stream\<rparr>"

definition new_in_stream_from_string :: "byte list \<Rightarrow> string_in_stream_t in_stream_t" where
  "new_in_stream_from_string s = \<lparr>is_data = new_string_in_stream s, is_impl = STRING_IN_STREAM_IMPL\<rparr>"

text \<open>\<open>fgetc\<close> returns a character as an \<open>unsigned char\<close>, or \<open>EOF\<close>, which is $-1$.\<close>

fun fgetc :: "byte list \<Rightarrow> int \<times> byte list" where
  "fgetc [] = (- 1, [])"
| "fgetc (b # bs) = (uint b, bs)"

record file_in_stream_t =
  fis_fp :: "byte list"
  fis_lah :: int

text \<open>The argument is what \<open>fopen\<close> returns.\<close>

definition new_file_in_stream :: "byte list option \<Rightarrow> file_in_stream_t option" where
  "new_file_in_stream fp =
     (case fp of None \<Rightarrow> None
      | Some f \<Rightarrow> (case fgetc f of (lah, f') \<Rightarrow> Some \<lparr>fis_fp = f', fis_lah = lah\<rparr>))"

definition fis_peek_char :: "file_in_stream_t \<Rightarrow> bool \<Rightarrow> stream_state_t \<times> byte option" where
  "fis_peek_char fis out =
     (if fis_lah fis = - 1 then (STREAM_EMPTY, None)
      else (STREAM_SUCCESS, if out then Some (word_of_int (fis_lah fis)) else None))"

definition fis_next_char :: "file_in_stream_t \<Rightarrow> bool \<Rightarrow> stream_state_t \<times> byte option \<times> file_in_stream_t" where
  "fis_next_char fis out =
     (if fis_lah fis = - 1 then (STREAM_EMPTY, None, fis)
      else (case fgetc (fis_fp fis) of (lah, f) \<Rightarrow>
              (STREAM_SUCCESS, if out then Some (word_of_int (fis_lah fis)) else None, \<lparr>fis_fp = f, fis_lah = lah\<rparr>)))"

definition delete_file_in_stream :: "file_in_stream_t \<Rightarrow> nat \<times> released_t" where
  "delete_file_in_stream fis = (1, ClosedFile (fis_fp fis))"

definition FILE_IN_STREAM_IMPL :: "file_in_stream_t in_stream_impl_t" where
  "FILE_IN_STREAM_IMPL = \<lparr>i_peek_char = fis_peek_char, i_next_char = fis_next_char, i_destructor = delete_file_in_stream\<rparr>"

definition new_in_stream_from_file :: "byte list option \<Rightarrow> file_in_stream_t in_stream_t option" where
  "new_in_stream_from_file fp =
     map_option (\<lambda>fis. \<lparr>is_data = fis, is_impl = FILE_IN_STREAM_IMPL\<rparr>) (new_file_in_stream fp)"

section \<open>Output streams\<close>

record 's out_stream_impl_t =
  o_putc :: "'s \<Rightarrow> byte \<Rightarrow> stream_state_t \<times> 's"
  o_destructor :: "'s \<Rightarrow> nat \<times> released_t"

record 's out_stream_t =
  os_data :: 's
  os_impl :: "'s out_stream_impl_t"

definition os_putc :: "'s out_stream_t \<Rightarrow> byte \<Rightarrow> stream_state_t \<times> 's out_stream_t" where
  "os_putc os c = (case o_putc (os_impl os) (os_data os) c of (state, d) \<Rightarrow> (state, os\<lparr>os_data := d\<rparr>))"

definition delete_out_stream :: "'s out_stream_t \<Rightarrow> nat \<times> released_t" where
  "delete_out_stream os = (case o_destructor (os_impl os) (os_data os) of (n, r) \<Rightarrow> (n + 1, r))"

text \<open>\<open>TRY_STREAM_CALL\<close>: go on only after a success.\<close>

definition try_os ::
    "stream_state_t \<times> 's out_stream_t \<Rightarrow> ('s out_stream_t \<Rightarrow> stream_state_t \<times> 's out_stream_t) \<Rightarrow>
     stream_state_t \<times> 's out_stream_t" where
  "try_os r k = (case r of (state, os) \<Rightarrow> if state \<noteq> STREAM_SUCCESS then (state, os) else k os)"

text \<open>The argument of \<open>os_puts\<close> is a C string without its terminator.\<close>

fun os_puts :: "'s out_stream_t \<Rightarrow> byte list \<Rightarrow> stream_state_t \<times> 's out_stream_t" where
  "os_puts os [] = (STREAM_SUCCESS, os)"
| "os_puts os (c # cs) = try_os (os_putc os c) (\<lambda>os. os_puts os cs)"

record string_out_stream_t =
  sos_builder :: "byte list"

definition new_string_out_stream :: "byte list \<Rightarrow> string_out_stream_t" where
  "new_string_out_stream builder = \<lparr>sos_builder = builder\<rparr>"

definition sos_putc :: "string_out_stream_t \<Rightarrow> byte \<Rightarrow> stream_state_t \<times> string_out_stream_t" where
  "sos_putc sos c = (STREAM_SUCCESS, sos\<lparr>sos_builder := sos_builder sos @ [c]\<rparr>)"

definition delete_string_out_stream :: "string_out_stream_t \<Rightarrow> nat \<times> released_t" where
  "delete_string_out_stream sos = (1, NothingElse)"

definition STRING_OUT_STREAM_IMPL :: "string_out_stream_t out_stream_impl_t" where
  "STRING_OUT_STREAM_IMPL = \<lparr>o_putc = sos_putc, o_destructor = delete_string_out_stream\<rparr>"

definition new_out_stream_to_string :: "byte list \<Rightarrow> string_out_stream_t out_stream_t" where
  "new_out_stream_to_string builder = \<lparr>os_data = new_string_out_stream builder, os_impl = STRING_OUT_STREAM_IMPL\<rparr>"

text \<open>Which of the next calls of \<open>fputc\<close> succeed; all do when the list is used up.\<close>

record file_out_stream_t =
  fos_written :: "byte list"
  fos_results :: "bool list"

definition fputc :: "byte \<Rightarrow> file_out_stream_t \<Rightarrow> int \<times> file_out_stream_t" where
  "fputc c fp =
     (case fos_results fp of
        False # rs \<Rightarrow> (- 1, fp\<lparr>fos_results := rs\<rparr>)
      | rs \<Rightarrow> (uint c, fp\<lparr>fos_written := fos_written fp @ [c], fos_results := drop 1 rs\<rparr>))"

definition fos_putc :: "file_out_stream_t \<Rightarrow> byte \<Rightarrow> stream_state_t \<times> file_out_stream_t" where
  "fos_putc fos c =
     (case fputc c fos of (status, fp) \<Rightarrow> if status = - 1 then (STREAM_ERROR, fp) else (STREAM_SUCCESS, fp))"

definition delete_file_out_stream :: "file_out_stream_t \<Rightarrow> nat \<times> released_t" where
  "delete_file_out_stream fos = (1, ClosedFile (fos_written fos))"

definition FILE_OUT_STREAM_IMPL :: "file_out_stream_t out_stream_impl_t" where
  "FILE_OUT_STREAM_IMPL = \<lparr>o_putc = fos_putc, o_destructor = delete_file_out_stream\<rparr>"

text \<open>The argument is what \<open>fopen\<close> returns.\<close>

definition new_file_out_stream :: "file_out_stream_t option \<Rightarrow> file_out_stream_t option" where
  "new_file_out_stream fp = (case fp of None \<Rightarrow> None | Some f \<Rightarrow> Some f)"

definition new_out_stream_to_file :: "file_out_stream_t option \<Rightarrow> file_out_stream_t out_stream_t option" where
  "new_out_stream_to_file fp =
     map_option (\<lambda>fos. \<lparr>os_data = fos, os_impl = FILE_OUT_STREAM_IMPL\<rparr>) (new_file_out_stream fp)"

section \<open>What readers rely on\<close>

text \<open>\<open>rest\<close> lists the characters still to be read.\<close>

locale in_stream =
  fixes inv :: "'s \<Rightarrow> bool"
    and rest :: "'s \<Rightarrow> byte list"
    and impl :: "'s in_stream_impl_t"
  assumes peek_nil: "inv d \<Longrightarrow> rest d = [] \<Longrightarrow> i_peek_char impl d out = (STREAM_EMPTY, None)"
    and next_nil: "inv d \<Longrightarrow> rest d = [] \<Longrightarrow> i_next_char impl d out = (STREAM_EMPTY, None, d)"
    and peek_cons: "inv d \<Longrightarrow> rest d = c # cs \<Longrightarrow>
      i_peek_char impl d out = (STREAM_SUCCESS, if out then Some c else None)"
    and next_cons: "inv d \<Longrightarrow> rest d = c # cs \<Longrightarrow>
      \<exists>d'. i_next_char impl d out = (STREAM_SUCCESS, if out then Some c else None, d') \<and> inv d' \<and> rest d' = cs"

definition sis_rest :: "string_in_stream_t \<Rightarrow> byte list" where
  "sis_rest sis = drop (sis_i sis) (sis_s sis)"

interpretation sis: in_stream "\<lambda>_. True" sis_rest STRING_IN_STREAM_IMPL
proof
  fix d :: string_in_stream_t and out c cs
  show "sis_rest d = [] \<Longrightarrow> i_peek_char STRING_IN_STREAM_IMPL d out = (STREAM_EMPTY, None)"
    and "sis_rest d = [] \<Longrightarrow> i_next_char STRING_IN_STREAM_IMPL d out = (STREAM_EMPTY, None, d)"
    by (simp_all add: sis_rest_def STRING_IN_STREAM_IMPL_def sis_peek_char_def sis_next_char_def)
  assume rest: "sis_rest d = c # cs"
  then have i: "sis_i d < length (sis_s d)" by (simp add: sis_rest_def) (metis drop_all list.simps(3) not_less)
  then have "sis_s d ! sis_i d = c" "drop (Suc (sis_i d)) (sis_s d) = cs"
    using rest Cons_nth_drop_Suc [OF i] by (simp_all add: sis_rest_def)
  with i show "i_peek_char STRING_IN_STREAM_IMPL d out = (STREAM_SUCCESS, if out then Some c else None)"
    and "\<exists>d'. i_next_char STRING_IN_STREAM_IMPL d out = (STREAM_SUCCESS, if out then Some c else None, d') \<and> True \<and>
      sis_rest d' = cs"
    by (simp_all add: sis_rest_def STRING_IN_STREAM_IMPL_def sis_peek_char_def sis_next_char_def)
qed

definition fis_inv :: "file_in_stream_t \<Rightarrow> bool" where [inv_defs]:
  "fis_inv fis \<longleftrightarrow> (fis_lah fis = - 1 \<and> fis_fp fis = [] \<or> 0 \<le> fis_lah fis \<and> fis_lah fis < 256)"

definition fis_rest :: "file_in_stream_t \<Rightarrow> byte list" where
  "fis_rest fis = (if fis_lah fis = - 1 then [] else word_of_int (fis_lah fis) # fis_fp fis)"

lemma fgetc_ok: "fgetc f = (lah, f') \<Longrightarrow> fis_inv \<lparr>fis_fp = f', fis_lah = lah\<rparr> \<and> fis_rest \<lparr>fis_fp = f', fis_lah = lah\<rparr> = f"
proof (cases f)
  case (Cons b bs)
  assume "fgetc f = (lah, f')"
  moreover have "uint b < 256" using uint_lt2p [of b] by simp
  moreover have "uint b \<noteq> - 1" using uint_ge_0 [of b] by linarith
  ultimately show ?thesis using Cons by (auto simp: fis_inv_def fis_rest_def)
qed (auto simp: fis_inv_def fis_rest_def)

interpretation fis: in_stream fis_inv fis_rest FILE_IN_STREAM_IMPL
proof
  fix d :: file_in_stream_t and out c cs
  assume inv: "fis_inv d"
  show "fis_rest d = [] \<Longrightarrow> i_peek_char FILE_IN_STREAM_IMPL d out = (STREAM_EMPTY, None)"
    and "fis_rest d = [] \<Longrightarrow> i_next_char FILE_IN_STREAM_IMPL d out = (STREAM_EMPTY, None, d)"
    by (auto simp: fis_rest_def FILE_IN_STREAM_IMPL_def fis_peek_char_def fis_next_char_def split: if_splits)
  assume rest: "fis_rest d = c # cs"
  then have lah: "fis_lah d \<noteq> - 1" "word_of_int (fis_lah d) = c" "fis_fp d = cs"
    by (auto simp: fis_rest_def split: if_splits)
  then show "i_peek_char FILE_IN_STREAM_IMPL d out = (STREAM_SUCCESS, if out then Some c else None)"
    by (simp add: FILE_IN_STREAM_IMPL_def fis_peek_char_def)
  obtain lah f where f: "fgetc cs = (lah, f)" by fastforce
  with lah fgetc_ok [OF f]
  show "\<exists>d'. i_next_char FILE_IN_STREAM_IMPL d out = (STREAM_SUCCESS, if out then Some c else None, d') \<and>
      fis_inv d' \<and> fis_rest d' = cs"
    by (simp add: FILE_IN_STREAM_IMPL_def fis_next_char_def)
qed

section \<open>Writing to a string\<close>

text \<open>A string stream takes everything.\<close>

lemma putc_string:
  "os_putc (new_out_stream_to_string s) c = (STREAM_SUCCESS, new_out_stream_to_string (s @ [c]))"
  by (simp add: os_putc_def new_out_stream_to_string_def new_string_out_stream_def STRING_OUT_STREAM_IMPL_def sos_putc_def)

lemma puts_string:
  "os_puts (new_out_stream_to_string s) cs = (STREAM_SUCCESS, new_out_stream_to_string (s @ cs))"
  by (induction cs arbitrary: s) (simp_all add: putc_string try_os_def)

lemma try_success [simp]: "try_os (STREAM_SUCCESS, os) k = k os"
  by (simp add: try_os_def)

end
