(* ===== verification/Chutil_Utf8.thy ===== *)
theory Chutil_Utf8
  imports Chutil_Stream "HOL-Library.Monad_Syntax"
begin

text \<open>
  UTF-8 for 16-bit code points (\<open>chutil/src/utf8.c\<close>).  A \<open>char\<close> is a byte; the code compares it
  as a signed number, but only with constants below 128 from both sides, where the signed and the
  unsigned order agree.
\<close>

section \<open>Operations\<close>

type_synonym unicode_t = u16

definition hex_dec :: "byte \<Rightarrow> byte" where
  "hex_dec c =
     (if 0x30 \<le> c \<and> c \<le> 0x39 then c - 0x30
      else if 0x61 \<le> c \<and> c \<le> 0x66 then c - 0x61 + 10
      else if 0x41 \<le> c \<and> c \<le> 0x46 then c - 0x41 + 10
      else 0)"

text \<open>The four characters behind \<open>cstr\<close>; reading past the block is undefined.\<close>

definition unicode_from_cstr :: "byte list \<Rightarrow> unicode_t option" where
  "unicode_from_cstr cstr =
     (if length cstr < 4 then None
      else Some (foldl (\<lambda>res c. push_bit 4 res OR ucast (hex_dec c)) 0 (take 4 cstr)))"

definition unicode_to_utf8 :: "'s out_stream_t \<Rightarrow> unicode_t \<Rightarrow> stream_state_t \<times> 's out_stream_t" where
  "unicode_to_utf8 os uc =
     (let part0 = ucast (0x000F AND uc) :: byte;
          part1 = ucast (drop_bit 4 (0x00F0 AND uc)) :: byte;
          part2 = ucast (drop_bit 8 (0x0F00 AND uc)) :: byte;
          part3 = ucast (drop_bit 12 (0xF000 AND uc)) :: byte
      in if uc < 0x0080 then
           try_os (os_putc os (push_bit 4 part1 OR part0)) (\<lambda>os. (STREAM_SUCCESS, os))
         else if uc < 0x0800 then
           try_os (os_putc os (0xC0 OR push_bit 2 part2 OR drop_bit 2 part1)) (\<lambda>os.
           try_os (os_putc os (0x80 OR push_bit 4 (0x3 AND part1) OR part0)) (\<lambda>os. (STREAM_SUCCESS, os)))
         else
           try_os (os_putc os (0xE0 OR part3)) (\<lambda>os.
           try_os (os_putc os (0x80 OR push_bit 2 part2 OR drop_bit 2 part1)) (\<lambda>os.
           try_os (os_putc os (0x80 OR push_bit 4 (0x3 AND part1) OR part0)) (\<lambda>os. (STREAM_SUCCESS, os)))))"

text \<open>\<open>TRY_STREAM_CALL(is_next_char(is, &b))\<close>.\<close>

definition next_byte ::
    "'s in_stream_t \<Rightarrow> (byte \<Rightarrow> 's in_stream_t \<Rightarrow> (stream_state_t \<times> 'a option \<times> 's in_stream_t) option) \<Rightarrow>
     (stream_state_t \<times> 'a option \<times> 's in_stream_t) option" where
  "next_byte is k =
     (case is_next_char is True of (state, c, is') \<Rightarrow>
        if state \<noteq> STREAM_SUCCESS then Some (state, None, is') else do { b \<leftarrow> c; k b is' })"

definition unicode_from_utf8 ::
    "'s in_stream_t \<Rightarrow> (stream_state_t \<times> unicode_t option \<times> 's in_stream_t) option" where
  "unicode_from_utf8 is =
     next_byte is (\<lambda>b0 is.
       if drop_bit 7 b0 = 0 then Some (STREAM_SUCCESS, Some (ucast b0), is)
       else if drop_bit 5 b0 = 0x6 then
         next_byte is (\<lambda>b1 is.
           if drop_bit 6 b1 \<noteq> 0x2 then Some (STREAM_SUCCESS, Some 0x20, is)
           else Some (STREAM_SUCCESS, Some (ucast (b1 AND 0x3F) OR push_bit 6 (ucast (b0 AND 0x1F))), is))
       else if drop_bit 4 b0 = 0xE then
         next_byte is (\<lambda>b1 is. next_byte is (\<lambda>b2 is.
           if drop_bit 6 b1 \<noteq> 0x2 \<or> drop_bit 6 b2 \<noteq> 0x2 then Some (STREAM_SUCCESS, Some 0x20, is)
           else Some (STREAM_SUCCESS,
                  Some (ucast (b2 AND 0x3F) OR push_bit 6 (ucast (b1 AND 0x3F)) OR push_bit 12 (ucast (b0 AND 0xF))), is)))
       else Some (STREAM_SUCCESS, Some 0x20, is))"

section \<open>The bytes of a code point\<close>

definition utf8 :: "unicode_t \<Rightarrow> byte list" where
  "utf8 uc =
     (if uc < 0x80 then [ucast uc]
      else if uc < 0x800 then [0xC0 OR ucast (drop_bit 6 uc), 0x80 OR ucast (uc AND 0x3F)]
      else [0xE0 OR ucast (drop_bit 12 uc), 0x80 OR ucast (drop_bit 6 uc AND 0x3F), 0x80 OR ucast (uc AND 0x3F)])"

lemma byte_eqI:
  fixes a b :: byte
  assumes "bit a 0 = bit b 0" "bit a 1 = bit b 1" "bit a 2 = bit b 2" "bit a 3 = bit b 3"
    "bit a 4 = bit b 4" "bit a 5 = bit b 5" "bit a 6 = bit b 6" "bit a 7 = bit b 7"
  shows "a = b"
proof (rule bit_word_eqI)
  fix n assume "n < LENGTH(8)"
  then have "n \<in> {0, 1, 2, 3, 4, 5, 6, 7}" by auto
  with assms show "bit a n = bit b n" by auto
qed

lemma u16_eqI:
  fixes a b :: u16
  assumes "bit a 0 = bit b 0" "bit a 1 = bit b 1" "bit a 2 = bit b 2" "bit a 3 = bit b 3"
    "bit a 4 = bit b 4" "bit a 5 = bit b 5" "bit a 6 = bit b 6" "bit a 7 = bit b 7"
    "bit a 8 = bit b 8" "bit a 9 = bit b 9" "bit a 10 = bit b 10" "bit a 11 = bit b 11"
    "bit a 12 = bit b 12" "bit a 13 = bit b 13" "bit a 14 = bit b 14" "bit a 15 = bit b 15"
  shows "a = b"
proof (rule bit_word_eqI)
  fix n assume "n < LENGTH(16)"
  show "bit a n = bit b n"
  proof (cases "n < 8")
    case True
    then have "n \<in> {0, 1, 2, 3, 4, 5, 6, 7}" by auto
    with assms show ?thesis by auto
  next
    case False
    then obtain m where m: "n = m + 8" by (metis le_add_diff_inverse2 not_less)
    with \<open>n < LENGTH(16)\<close> have "m \<in> {0, 1, 2, 3, 4, 5, 6, 7}" by auto
    then have "n \<in> {8, 9, 10, 11, 12, 13, 14, 15}" unfolding m by auto
    then show ?thesis by (elim insertE emptyE) (simp_all only: assms)
  qed
qed

lemma lt_drop_bit:
  assumes "w < 2 ^ n" "n < LENGTH(16)" shows "drop_bit n (w :: u16) = 0"
proof -
  have "(2 ^ n :: u16) = of_nat (2 ^ n)" by simp
  then have "unat (2 ^ n :: u16) = 2 ^ n mod 2 ^ 16" by (simp only: unat_of_nat) simp
  moreover have "(2 ^ n :: nat) < 2 ^ 16" using assms(2) by (intro power_strict_increasing) simp_all
  ultimately have "unat w < 2 ^ n" using assms(1) by (simp add: word_less_nat_alt)
  then have "unat (drop_bit n w) = 0" unfolding unat_drop_bit_eq by (simp add: drop_bit_eq_div)
  then show ?thesis by (simp add: unat_eq_zero)
qed

lemma high_bits:
  assumes "w < 2 ^ n" "n < LENGTH(16)" "n \<le> k" shows "\<not> bit (w :: u16) k"
proof -
  have "bit w k = bit (drop_bit n w) (k - n)" using assms(3) by (simp add: bit_drop_bit_eq)
  then show ?thesis using lt_drop_bit [OF assms(1,2)] by simp
qed

lemma no_bit_16 [simp]: "\<not> bit (w :: u16) 16"
  using bit_imp_le_length [of w 16] by auto

lemma utf8_written:
  "unicode_to_utf8 os uc = os_puts os (utf8 uc)"
proof -
  consider "uc < 0x80" | "\<not> uc < 0x80" "uc < 0x800" | "\<not> uc < 0x80" "\<not> uc < 0x800" by blast
  then show ?thesis
  proof cases
    case 1
    have "push_bit 4 (ucast (drop_bit 4 (0x00F0 AND uc))) OR ucast (0x000F AND uc) = (ucast uc :: byte)"
      by (rule byte_eqI) (simp_all add: bit_simps)
    with 1 show ?thesis by (simp add: unicode_to_utf8_def utf8_def)
  next
    case 2
    then have "\<not> bit uc 11" using high_bits [of uc 11 11] by simp
    have "0xC0 OR push_bit 2 (ucast (drop_bit 8 (0x0F00 AND uc))) OR drop_bit 2 (ucast (drop_bit 4 (0x00F0 AND uc))) =
        (0xC0 OR ucast (drop_bit 6 uc) :: byte)"
      by (rule byte_eqI) (simp_all add: bit_simps)
    moreover have "0x80 OR push_bit 4 (0x3 AND ucast (drop_bit 4 (0x00F0 AND uc))) OR ucast (0x000F AND uc) =
        (0x80 OR ucast (uc AND 0x3F) :: byte)"
      by (rule byte_eqI) (simp_all add: bit_simps)
    ultimately show ?thesis using 2 by (simp add: unicode_to_utf8_def utf8_def)
  next
    case 3
    have "0xE0 OR ucast (drop_bit 12 (0xF000 AND uc)) = (0xE0 OR ucast (drop_bit 12 uc) :: byte)"
      by (rule byte_eqI) (simp_all add: bit_simps)
    moreover have "0x80 OR push_bit 2 (ucast (drop_bit 8 (0x0F00 AND uc))) OR drop_bit 2 (ucast (drop_bit 4 (0x00F0 AND uc))) =
        (0x80 OR ucast (drop_bit 6 uc AND 0x3F) :: byte)"
      by (rule byte_eqI) (simp_all add: bit_simps)
    moreover have "0x80 OR push_bit 4 (0x3 AND ucast (drop_bit 4 (0x00F0 AND uc))) OR ucast (0x000F AND uc) =
        (0x80 OR ucast (uc AND 0x3F) :: byte)"
      by (rule byte_eqI) (simp_all add: bit_simps)
    ultimately show ?thesis using 3 by (simp add: unicode_to_utf8_def utf8_def)
  qed
qed

text \<open>Reading the bytes of a code point gives it back.\<close>

lemma bit_neq: "bit a n \<Longrightarrow> \<not> bit b n \<Longrightarrow> a \<noteq> (b :: byte)"
  by auto

lemma byte_of_u16_lt:
  fixes uc :: u16
  shows "uc < 0x80 \<Longrightarrow> drop_bit 7 (ucast uc :: byte) = 0" "uc < 0x80 \<Longrightarrow> ucast (ucast uc :: byte) = (uc :: u16)"
proof -
  assume "uc < 0x80"
  then have h: "7 \<le> k \<Longrightarrow> \<not> bit uc k" for k using high_bits [of uc 7 k] by simp
  show "drop_bit 7 (ucast uc :: byte) = 0" by (rule byte_eqI) (simp_all add: bit_simps h)
  show "ucast (ucast uc :: byte) = uc" by (rule u16_eqI) (simp_all add: bit_simps h)
qed

lemma utf8_2_reads:
  fixes uc :: u16
  assumes "uc < 0x800"
  shows "drop_bit 7 (0xC0 OR ucast (drop_bit 6 uc) :: byte) \<noteq> 0"
    "drop_bit 5 (0xC0 OR ucast (drop_bit 6 uc) :: byte) = 6"
    "ucast ((0x80 OR ucast (uc AND 0x3F) :: byte) AND 0x3F) OR
       push_bit 6 (ucast ((0xC0 OR ucast (drop_bit 6 uc) :: byte) AND 0x1F)) = uc"
proof -
  have h: "11 \<le> k \<Longrightarrow> \<not> bit uc k" for k using high_bits [of uc 11 k] assms by simp
  show "drop_bit 7 (0xC0 OR ucast (drop_bit 6 uc) :: byte) \<noteq> 0"
    by (rule bit_neq [where n = 0]) (simp_all add: bit_simps)
  show "drop_bit 5 (0xC0 OR ucast (drop_bit 6 uc) :: byte) = 6"
    by (rule byte_eqI) (simp_all add: bit_simps h)
  show "ucast ((0x80 OR ucast (uc AND 0x3F) :: byte) AND 0x3F) OR
       push_bit 6 (ucast ((0xC0 OR ucast (drop_bit 6 uc) :: byte) AND 0x1F)) = uc"
    by (rule u16_eqI) (simp_all add: bit_simps h)
qed

lemma utf8_3_reads:
  fixes uc :: u16
  shows "drop_bit 7 (0xE0 OR ucast (drop_bit 12 uc) :: byte) \<noteq> 0"
    "drop_bit 5 (0xE0 OR ucast (drop_bit 12 uc) :: byte) \<noteq> 6"
    "drop_bit 4 (0xE0 OR ucast (drop_bit 12 uc) :: byte) = 0xE"
    "ucast ((0x80 OR ucast (uc AND 0x3F) :: byte) AND 0x3F) OR
       push_bit 6 (ucast ((0x80 OR ucast (drop_bit 6 uc AND 0x3F) :: byte) AND 0x3F)) OR
       push_bit 12 (ucast ((0xE0 OR ucast (drop_bit 12 uc) :: byte) AND 0xF)) = uc"
proof -
  have h: "16 \<le> k \<Longrightarrow> \<not> bit uc k" for k using bit_imp_le_length [of uc k] by auto
  show "drop_bit 7 (0xE0 OR ucast (drop_bit 12 uc) :: byte) \<noteq> 0"
    "drop_bit 5 (0xE0 OR ucast (drop_bit 12 uc) :: byte) \<noteq> 6"
    by (rule bit_neq [where n = 0]; simp add: bit_simps)+
  show "drop_bit 4 (0xE0 OR ucast (drop_bit 12 uc) :: byte) = 0xE"
    by (rule byte_eqI) (simp_all add: bit_simps h)
  show "ucast ((0x80 OR ucast (uc AND 0x3F) :: byte) AND 0x3F) OR
       push_bit 6 (ucast ((0x80 OR ucast (drop_bit 6 uc AND 0x3F) :: byte) AND 0x3F)) OR
       push_bit 12 (ucast ((0xE0 OR ucast (drop_bit 12 uc) :: byte) AND 0xF)) = uc"
    by (rule u16_eqI) (simp_all add: bit_simps h)
qed

lemma continuation: "drop_bit 6 (0x80 OR ucast (w AND 0x3F :: u16) :: byte) = 2"
  by (rule byte_eqI) (simp_all add: bit_simps)

text \<open>The stream \<open>is\<close> stands before the characters \<open>cs\<close>.\<close>

definition stands ::
    "('s \<Rightarrow> bool) \<Rightarrow> ('s \<Rightarrow> byte list) \<Rightarrow> 's in_stream_impl_t \<Rightarrow> 's in_stream_t \<Rightarrow> byte list \<Rightarrow> bool" where
  "stands ok rst impl is cs \<longleftrightarrow> is_impl is = impl \<and> ok (is_data is) \<and> rst (is_data is) = cs"

context in_stream begin

abbreviation at :: "'s in_stream_t \<Rightarrow> byte list \<Rightarrow> bool" where
  "at \<equiv> stands inv rest impl"

lemma next_byte_at:
  assumes "at is (b # bs)"
  shows "\<exists>is'. at is' bs \<and> (\<forall>k. next_byte is k = k b is')"
proof -
  from next_cons [of "is_data is" b bs True] assms obtain d where
    "i_next_char impl (is_data is) True = (STREAM_SUCCESS, Some b, d)" "inv d" "rest d = bs" by (auto simp: stands_def)
  with assms show ?thesis
    by (intro exI [of _ "is\<lparr>is_data := d\<rparr>"]) (simp add: stands_def next_byte_def is_next_char_def)
qed

lemma unicode_reads:
  assumes "at is (utf8 uc @ bs)"
  shows "\<exists>is'. unicode_from_utf8 is = Some (STREAM_SUCCESS, Some uc, is') \<and> at is' bs"
proof -
  consider "uc < 0x80" | "\<not> uc < 0x80" "uc < 0x800" | "\<not> uc < 0x80" "\<not> uc < 0x800" by blast
  then show ?thesis
  proof cases
    case 1
    then have "at is (ucast uc # bs)" using assms by (simp add: utf8_def)
    from next_byte_at [OF this] obtain is1 where is1: "at is1 bs"
      "\<forall>k :: _ \<Rightarrow> _ \<Rightarrow> (stream_state_t \<times> unicode_t option \<times> _) option. next_byte is k = k (ucast uc) is1" by blast
    show ?thesis unfolding unicode_from_utf8_def using is1 byte_of_u16_lt [OF 1] by simp
  next
    case 2
    then have "at is ((0xC0 OR ucast (drop_bit 6 uc)) # (0x80 OR ucast (uc AND 0x3F)) # bs)"
      using assms by (simp add: utf8_def)
    from next_byte_at [OF this] obtain is1 where is1: "at is1 ((0x80 OR ucast (uc AND 0x3F)) # bs)"
      "\<forall>k :: _ \<Rightarrow> _ \<Rightarrow> (stream_state_t \<times> unicode_t option \<times> _) option.
        next_byte is k = k (0xC0 OR ucast (drop_bit 6 uc)) is1" by blast
    from next_byte_at [OF is1(1)] obtain is2 where is2: "at is2 bs"
      "\<forall>k :: _ \<Rightarrow> _ \<Rightarrow> (stream_state_t \<times> unicode_t option \<times> _) option.
        next_byte is1 k = k (0x80 OR ucast (uc AND 0x3F)) is2" by blast
    show ?thesis unfolding unicode_from_utf8_def
      using is1 is2 by (simp only: utf8_2_reads [OF 2(2)] continuation if_True if_False simp_thms) blast
  next
    case 3
    then have "at is ((0xE0 OR ucast (drop_bit 12 uc)) # (0x80 OR ucast (drop_bit 6 uc AND 0x3F)) #
        (0x80 OR ucast (uc AND 0x3F)) # bs)" using assms by (simp add: utf8_def)
    from next_byte_at [OF this] obtain is1 where is1: "at is1 ((0x80 OR ucast (drop_bit 6 uc AND 0x3F)) #
        (0x80 OR ucast (uc AND 0x3F)) # bs)"
      "\<forall>k :: _ \<Rightarrow> _ \<Rightarrow> (stream_state_t \<times> unicode_t option \<times> _) option.
        next_byte is k = k (0xE0 OR ucast (drop_bit 12 uc)) is1" by blast
    from next_byte_at [OF is1(1)] obtain is2 where is2: "at is2 ((0x80 OR ucast (uc AND 0x3F)) # bs)"
      "\<forall>k :: _ \<Rightarrow> _ \<Rightarrow> (stream_state_t \<times> unicode_t option \<times> _) option.
        next_byte is1 k = k (0x80 OR ucast (drop_bit 6 uc AND 0x3F)) is2" by blast
    from next_byte_at [OF is2(1)] obtain is3 where is3: "at is3 bs"
      "\<forall>k :: _ \<Rightarrow> _ \<Rightarrow> (stream_state_t \<times> unicode_t option \<times> _) option.
        next_byte is2 k = k (0x80 OR ucast (uc AND 0x3F)) is3" by blast
    show ?thesis unfolding unicode_from_utf8_def
      using is1 is2 is3 by (simp only: utf8_3_reads continuation if_True if_False simp_thms) blast
  qed
qed

end

section \<open>Properties\<close>

text \<open>C22. Whatever the code point, what \<open>unicode_to_utf8\<close> appends to a string is read back by
  \<open>unicode_from_utf8\<close> as the same code point, from a string stream and from a file, and exactly those
  bytes are consumed.\<close>

theorem utf8_roundtrip:
  shows "\<exists>bs. unicode_to_utf8 (new_out_stream_to_string s) uc = (STREAM_SUCCESS, new_out_stream_to_string (s @ bs)) \<and>
    1 \<le> length bs \<and> length bs \<le> 3 \<and>
    (\<exists>is. unicode_from_utf8 (new_in_stream_from_string (bs @ tail)) = Some (STREAM_SUCCESS, Some uc, is) \<and>
       sis_rest (is_data is) = tail) \<and>
    (\<exists>is. unicode_from_utf8 (the (new_in_stream_from_file (Some (bs @ tail)))) = Some (STREAM_SUCCESS, Some uc, is) \<and>
       fis_rest (is_data is) = tail)"
proof (intro exI [of _ "utf8 uc"] conjI)
  show "unicode_to_utf8 (new_out_stream_to_string s) uc = (STREAM_SUCCESS, new_out_stream_to_string (s @ utf8 uc))"
    by (simp add: utf8_written puts_string)
  show "1 \<le> length (utf8 uc)" "length (utf8 uc) \<le> 3" by (simp_all add: utf8_def)
  have "sis.at (new_in_stream_from_string (utf8 uc @ tail)) (utf8 uc @ tail)"
    by (simp add: stands_def new_in_stream_from_string_def new_string_in_stream_def sis_rest_def)
  from sis.unicode_reads [OF this]
  show "\<exists>is. unicode_from_utf8 (new_in_stream_from_string (utf8 uc @ tail)) = Some (STREAM_SUCCESS, Some uc, is) \<and>
       sis_rest (is_data is) = tail" by (auto simp: stands_def)
  have "fis.at (the (new_in_stream_from_file (Some (utf8 uc @ tail)))) (utf8 uc @ tail)"
    using fgetc_ok [of "utf8 uc @ tail"]
    by (auto simp: stands_def new_in_stream_from_file_def new_file_in_stream_def split: prod.split)
  from fis.unicode_reads [OF this]
  show "\<exists>is. unicode_from_utf8 (the (new_in_stream_from_file (Some (utf8 uc @ tail)))) = Some (STREAM_SUCCESS, Some uc, is) \<and>
       fis_rest (is_data is) = tail" by (auto simp: stands_def)
qed

end
