(* ===== verification/Chjson_Number.thy ===== *)
theory Chjson_Number
  imports Ch_Prelude
begin

text \<open>
  What \<open>chjson\<close> uses of the C library on numbers: \<open>strtod\<close> on a decimal token and
  \<open>snprintf\<close> with the format \<open>%.15g\<close>, for IEEE binary64 with rounding to nearest, ties to even.

  A finite \<open>double\<close> is its sign, mantissa and exponent: \<open>DFin s m e\<close> is $m \cdot 2^e$, negated when
  \<open>s\<close>.  Zero has exponent 0; a normal number has $2^{52} \le m < 2^{53}$, a subnormal one $m < 2^{52}$
  and $e = -1074$.
\<close>

section \<open>Doubles\<close>

datatype double_t = DFin bool nat int | DInf bool | DNan bool

text \<open>The comparison \<open>==\<close>: a NaN equals nothing, the two zeros are equal.\<close>

fun double_eq :: "double_t \<Rightarrow> double_t \<Rightarrow> bool" where
  "double_eq (DFin s m e) (DFin s' m' e') \<longleftrightarrow> (m = 0 \<and> m' = 0) \<or> (s = s' \<and> m = m' \<and> e = e')"
| "double_eq (DInf s) (DInf s') \<longleftrightarrow> s = s'"
| "double_eq _ _ \<longleftrightarrow> False"

text \<open>A quotient rounded to the nearest integer, ties to even.\<close>

definition round_div :: "nat \<Rightarrow> nat \<Rightarrow> nat" where
  "round_div n d = (let q = n div d; r = n mod d in if 2 * r < d \<or> (2 * r = d \<and> even q) then q else q + 1)"

text \<open>$n / d \cdot b^{-q}$ as a quotient of natural numbers.\<close>

definition scale_num :: "nat \<Rightarrow> nat \<Rightarrow> int \<Rightarrow> nat" where
  "scale_num b n q = n * b ^ nat (- q)"

definition scale_den :: "nat \<Rightarrow> nat \<Rightarrow> int \<Rightarrow> nat" where
  "scale_den b d q = d * b ^ nat q"

text \<open>The number of digits of \<open>n\<close> in base \<open>b\<close>.\<close>

function num_digits :: "nat \<Rightarrow> nat \<Rightarrow> nat" where
  "num_digits b n = (if n = 0 \<or> b < 2 then 0 else Suc (num_digits b (n div b)))"
  by pat_completeness auto
termination by (relation "measure snd") auto

declare num_digits.simps [simp del]

text \<open>The double nearest to $n / d$, for positive \<open>n\<close> and \<open>d\<close>.\<close>

definition nearest_double :: "bool \<Rightarrow> nat \<Rightarrow> nat \<Rightarrow> double_t" where
  "nearest_double s n d =
     (let q0 = int (num_digits 2 n) - int (num_digits 2 d) - 53;
          q1 = (if scale_num 2 n q0 < 2 ^ 53 * scale_den 2 d q0 then q0 else q0 + 1);
          q = max q1 (- 1074);
          m = round_div (scale_num 2 n q) (scale_den 2 d q)
      in if m = 2 ^ 53 then (if q + 1 > 971 then DInf s else DFin s (2 ^ 52) (q + 1))
         else if m = 0 then DFin s 0 0
         else if q > 971 then DInf s else DFin s m q)"

section \<open>Reading\<close>

definition is_digit :: "byte \<Rightarrow> bool" where
  "is_digit c \<longleftrightarrow> 0x30 \<le> c \<and> c \<le> 0x39"

definition digits_value :: "byte list \<Rightarrow> nat" where
  "digits_value cs = foldl (\<lambda>n c. 10 * n + unat (c - 0x30)) 0 cs"

definition is_sign :: "byte list \<Rightarrow> bool" where
  "is_sign cs \<longleftrightarrow> cs \<noteq> [] \<and> (hd cs = 0x2B \<or> hd cs = 0x2D)"

text \<open>The optional exponent: its value and how many characters it takes.\<close>

definition strtod_exponent :: "byte list \<Rightarrow> int \<times> nat" where
  "strtod_exponent cs =
     (if cs = [] \<or> hd cs \<noteq> 0x65 \<and> hd cs \<noteq> 0x45 then (0, 0)
      else let signed = is_sign (tl cs);
               ds = takeWhile is_digit (if signed then tl (tl cs) else tl cs)
           in if ds = [] then (0, 0)
              else (if signed \<and> hd (tl cs) = 0x2D then - int (digits_value ds) else int (digits_value ds),
                    1 + (if signed then 1 else 0) + length ds))"

text \<open>
  \<open>strtod\<close> on the characters of a C string: the value and the number of characters it takes, zero
  when there is no number at the start.  (Leading blanks, hexadecimal numbers, infinities and NaNs have
  characters that the caller never passes on.)
\<close>

definition strtod :: "byte list \<Rightarrow> double_t \<times> nat" where
  "strtod cs =
     (let s = is_sign cs;
          neg = (s \<and> hd cs = 0x2D);
          cs1 = (if s then tl cs else cs);
          ds1 = takeWhile is_digit cs1;
          cs2 = drop (length ds1) cs1;
          point = (cs2 \<noteq> [] \<and> hd cs2 = 0x2E);
          ds2 = (if point then takeWhile is_digit (tl cs2) else []);
          cs3 = (if point then drop (length ds2) (tl cs2) else cs2)
      in if ds1 = [] \<and> ds2 = [] then (DFin False 0 0, 0)
         else case strtod_exponent cs3 of (ex, k) \<Rightarrow>
           let n = digits_value (ds1 @ ds2);
               e10 = ex - int (length ds2)
           in (if n = 0 then DFin neg 0 0
               else nearest_double neg (n * 10 ^ nat e10) (10 ^ nat (- e10)),
               (if s then 1 else 0) + length ds1 + (if point then 1 + length ds2 else 0) + k))"

section \<open>Printing\<close>

fun digits_of :: "nat \<Rightarrow> nat \<Rightarrow> byte list" where
  "digits_of 0 n = []"
| "digits_of (Suc k) n = digits_of k (n div 10) @ [0x30 + of_nat (n mod 10)]"

definition strip_zeros :: "byte list \<Rightarrow> byte list" where
  "strip_zeros cs = rev (dropWhile (\<lambda>c. c = 0x30) (rev cs))"

definition with_fraction :: "byte list \<Rightarrow> byte list \<Rightarrow> byte list" where
  "with_fraction int_part frac = (let f = strip_zeros frac in if f = [] then int_part else int_part @ 0x2E # f)"

text \<open>15 significant digits of the positive quotient $n / d$ and its decimal exponent.\<close>

definition decimal15 :: "nat \<Rightarrow> nat \<Rightarrow> nat \<times> int" where
  "decimal15 n d =
     (let x0 = int (num_digits 10 n) - int (num_digits 10 d);
          x = (if scale_num 10 n x0 \<ge> scale_den 10 d x0 then x0 else x0 - 1);
          r = round_div (scale_num 10 n (x - 14)) (scale_den 10 d (x - 14))
      in if r = 10 ^ 15 then (10 ^ 14, x + 1) else (r, x))"

definition exponent_digits :: "int \<Rightarrow> byte list" where
  "exponent_digits x =
     (let a = nat \<bar>x\<bar> in (if x < 0 then 0x2D else 0x2B) # (if a < 100 then digits_of 2 a else digits_of 3 a))"

text \<open>\<open>%.15g\<close>: scientific notation for exponents below $-4$ or from 15 on, no trailing zeros.\<close>

definition format_g15 :: "double_t \<Rightarrow> byte list" where
  "format_g15 d =
     (case d of
        DNan s \<Rightarrow> (if s then [0x2D] else []) @ [0x6E, 0x61, 0x6E]
      | DInf s \<Rightarrow> (if s then [0x2D] else []) @ [0x69, 0x6E, 0x66]
      | DFin s m e \<Rightarrow> (if s then [0x2D] else []) @
          (if m = 0 then [0x30]
           else case decimal15 (m * 2 ^ nat e) (2 ^ nat (- e)) of (r, x) \<Rightarrow>
             let ds = digits_of 15 r
             in if - 4 \<le> x \<and> x < 15 then
                  (if 0 \<le> x then with_fraction (take (nat x + 1) ds) (drop (nat x + 1) ds)
                   else with_fraction [0x30] (replicate (nat (- x - 1)) 0x30 @ ds))
                else with_fraction (take 1 ds) (drop 1 ds) @ 0x65 # exponent_digits x))"

end
