(* ===== verification/Chjson_Json.thy ===== *)
theory Chjson_Json
  imports Chutil_String Chutil_Stream Chjson_Number
begin

text \<open>
  JSON values (\<open>chjson/src/json.c\<close>) and their helpers (\<open>chjson/src/json_helpers.c\<close>): comparison,
  lookup and printing.

  A value owns all its parts, as the header demands, so it is a tree.  The hash map of an object is
  its table of chains; \<open>object_map\<close> is the map of \<open>Chutil_Map\<close> with that table, its capacity the number
  of chains and its key count the number of nodes.  The iterators of maps and lists, which only the
  comparison can observe, are a state of \<open>Chjson_Equals\<close>.  A list
  is the list of its cells, by \<open>Chutil_List\<close>, and a string the list of its characters, by
  \<open>Chutil_String\<close>.
\<close>

section \<open>Values\<close>

datatype json_t =
    JObject "json_kv list list"
  | JList "json_t list"
  | JString "byte list"
  | JNumber double_t
  | JBoolean bool
  | JNull
and json_kv = KV (kv_h: u32) (kv_k: "byte list") (kv_v: json_t)

datatype json_type_t = CHJSON_OBJECT | CHJSON_LIST | CHJSON_STRING | CHJSON_NUMBER | CHJSON_BOOLEAN | CHJSON_NULL

fun json_type :: "json_t \<Rightarrow> json_type_t" where
  "json_type (JObject cs) = CHJSON_OBJECT"
| "json_type (JList xs) = CHJSON_LIST"
| "json_type (JString s) = CHJSON_STRING"
| "json_type (JNumber n) = CHJSON_NUMBER"
| "json_type (JBoolean b) = CHJSON_BOOLEAN"
| "json_type JNull = CHJSON_NULL"

definition object_map :: "json_kv list list \<Rightarrow> (byte list, json_t) hash_map_t" where
  "object_map cs =
     \<lparr>hm_key_size = 8, hm_value_size = 8, hm_hash_func = str_hash, hm_eq_func = str_eq,
      hm_num_keys = length (concat cs), hm_chains_cap = length cs,
      hm_chains = map (map (\<lambda>kv. \<lparr>kv_hash = kv_h kv, kv_key = kv_k kv, kv_val = kv_v kv\<rparr>)) cs,
      hm_iter_chain_ind = 0, hm_iter = []\<rparr>"

definition map_object :: "(byte list, json_t) hash_map_t \<Rightarrow> json_kv list list" where
  "map_object hm = map (map (\<lambda>n. KV (kv_hash n) (kv_key n) (kv_val n))) (hm_chains hm)"

definition new_json_object :: json_t where
  "new_json_object = JObject (map_object (the (new_hash_map 0 [] 8 8 (Some str_hash) (Some str_eq))))"

definition object_put :: "json_kv list list \<Rightarrow> byte list \<Rightarrow> json_t \<Rightarrow> json_kv list list" where
  "object_put cs key val = map_object (hm_put (object_map cs) key val)"

text \<open>The variable arguments, up to the first NULL.\<close>

fun put_kvps :: "(byte list option \<times> json_t option) list \<Rightarrow> json_kv list list \<Rightarrow> json_kv list list" where
  "put_kvps ((Some key, Some val) # args) cs = put_kvps args (object_put cs key val)"
| "put_kvps _ cs = cs"

definition new_json_object_from_kvps :: "(byte list option \<times> json_t option) list \<Rightarrow> json_t" where
  "new_json_object_from_kvps args =
     (case new_json_object of JObject cs \<Rightarrow> JObject (put_kvps args cs) | j \<Rightarrow> j)"

definition new_json_list :: json_t where
  "new_json_list = JList []"

definition new_json_list_from_eles :: "json_t list \<Rightarrow> json_t" where
  "new_json_list_from_eles eles = (case new_json_list of JList xs \<Rightarrow> JList (foldl (\<lambda>l ele. l @ [ele]) xs eles) | j \<Rightarrow> j)"

definition new_json_string :: "byte list \<Rightarrow> json_t" where
  "new_json_string s = JString s"

definition new_json_number :: "double_t \<Rightarrow> json_t" where
  "new_json_number n = JNumber n"

definition new_json_boolean :: "bool \<Rightarrow> json_t" where
  "new_json_boolean b = JBoolean b"

definition json_null :: json_t where
  "json_null = JNull"

text \<open>The values and strings that deleting a value deletes; the null value is static.\<close>

fun delete_json :: "json_t \<Rightarrow> nat" and delete_chains :: "json_kv list list \<Rightarrow> nat" and
  delete_chain :: "json_kv list \<Rightarrow> nat" and delete_eles :: "json_t list \<Rightarrow> nat" where
  "delete_json (JObject cs) = delete_chains cs + 1"
| "delete_json (JList xs) = delete_eles xs + 1"
| "delete_json (JString s) = 1 + 1"
| "delete_json (JNumber n) = 1"
| "delete_json (JBoolean b) = 1"
| "delete_json JNull = 0"
| "delete_chains [] = 0"
| "delete_chains (c # cs) = delete_chain c + delete_chains cs"
| "delete_chain [] = 0"
| "delete_chain (KV h k v # c) = 1 + delete_json v + delete_chain c"
| "delete_eles [] = 0"
| "delete_eles (x # xs) = delete_json x + delete_eles xs"

fun json_as_object :: "json_t \<Rightarrow> json_kv list list option" where
  "json_as_object (JObject cs) = Some cs"
| "json_as_object _ = None"

fun json_as_list :: "json_t \<Rightarrow> json_t list option" where
  "json_as_list (JList xs) = Some xs"
| "json_as_list _ = None"

fun json_as_string :: "json_t \<Rightarrow> byte list option" where
  "json_as_string (JString s) = Some s"
| "json_as_string _ = None"

fun json_as_number :: "json_t \<Rightarrow> double_t option" where
  "json_as_number (JNumber n) = Some n"
| "json_as_number _ = None"

fun json_as_bool :: "json_t \<Rightarrow> bool option" where
  "json_as_bool (JBoolean b) = Some b"
| "json_as_bool _ = None"

section \<open>Comparison and lookup\<close>

text \<open>
  When two values are the same: the specification of the comparison \<open>json_equals\<close> of \<open>Chjson_Equals\<close>, as
  one recursion over the first value.  Objects are the same when they have as many keys and every key of
  the first is found in the second with the same value.
\<close>

fun json_same :: "json_t \<Rightarrow> json_t \<Rightarrow> bool" and
  chains_equal :: "json_kv list list \<Rightarrow> json_kv list list \<Rightarrow> bool" and
  chain_equal :: "json_kv list \<Rightarrow> json_kv list list \<Rightarrow> bool" and
  eles_equal :: "json_t list \<Rightarrow> json_t list \<Rightarrow> bool" where
  "json_same (JObject cs) j2 =
     (case j2 of JObject ds \<Rightarrow> length (concat cs) = length (concat ds) \<and> chains_equal cs ds | _ \<Rightarrow> False)"
| "json_same (JList xs) j2 = (case j2 of JList ys \<Rightarrow> eles_equal xs ys | _ \<Rightarrow> False)"
| "json_same (JString s) j2 = (case j2 of JString s' \<Rightarrow> str_eq s s' | _ \<Rightarrow> False)"
| "json_same (JNumber n) j2 = (case j2 of JNumber n' \<Rightarrow> double_eq n n' | _ \<Rightarrow> False)"
| "json_same (JBoolean b) j2 = (case j2 of JBoolean b' \<Rightarrow> b = b' | _ \<Rightarrow> False)"
| "json_same JNull j2 = (j2 = JNull)"
| "chains_equal [] ds = True"
| "chains_equal (c # cs) ds = (chain_equal c ds \<and> chains_equal cs ds)"
| "chain_equal [] ds = True"
| "chain_equal (KV h key val # c) ds =
     ((case hm_get (object_map ds) key of None \<Rightarrow> False | Some val2 \<Rightarrow> json_same val val2) \<and> chain_equal c ds)"
| "eles_equal [] ys = (ys = [])"
| "eles_equal (x # xs) ys = (case ys of [] \<Rightarrow> False | y # ys' \<Rightarrow> json_same x y \<and> eles_equal xs ys')"

definition json_lookup_key :: "json_t option \<Rightarrow> byte list \<Rightarrow> json_t option" where
  "json_lookup_key json key = (case json of Some (JObject cs) \<Rightarrow> hm_get (object_map cs) key | _ \<Rightarrow> None)"

text \<open>The key is a C string; it is looked up as a string without its terminator.\<close>

definition json_lookup_key_cstr :: "json_t option \<Rightarrow> byte list \<Rightarrow> json_t option" where
  "json_lookup_key_cstr json key_cstr = json_lookup_key json (c_str key_cstr)"

definition json_lookup_index :: "json_t option \<Rightarrow> nat \<Rightarrow> json_t option" where
  "json_lookup_index json ind =
     (case json of Some (JList xs) \<Rightarrow> if length xs \<le> ind then None else Some (xs ! ind) | _ \<Rightarrow> None)"

section \<open>Printing\<close>

definition escape_char :: "byte \<Rightarrow> byte list" where
  "escape_char c =
     (if c \<ge> 0x20 then (if c = 0x22 \<or> c = 0x5C then [0x5C, c] else [c])
      else if c = 0x08 then [0x5C, 0x62]
      else if c = 0x0C then [0x5C, 0x66]
      else if c = 0x0A then [0x5C, 0x6E]
      else if c = 0x0D then [0x5C, 0x72]
      else if c = 0x09 then [0x5C, 0x74]
      else [])"

fun escape_string_to_stream :: "byte list \<Rightarrow> 's out_stream_t \<Rightarrow> stream_state_t \<times> 's out_stream_t" where
  "escape_string_to_stream [] os = (STREAM_SUCCESS, os)"
| "escape_string_to_stream (c # cs) os =
     try_os (os_puts os (escape_char c)) (\<lambda>os. escape_string_to_stream cs os)"

fun tab_out :: "'s out_stream_t \<Rightarrow> nat \<Rightarrow> stream_state_t \<times> 's out_stream_t" where
  "tab_out os 0 = (STREAM_SUCCESS, os)"
| "tab_out os (Suc n) = try_os (os_puts os [0x20, 0x20]) (\<lambda>os. tab_out os n)"

text \<open>A new line and \<open>tabs\<close> tabs, if \<open>spaced\<close>.\<close>

definition line_out :: "'s out_stream_t \<Rightarrow> bool \<Rightarrow> nat \<Rightarrow> stream_state_t \<times> 's out_stream_t" where
  "line_out os spaced tabs =
     (if spaced then try_os (os_putc os 0x0A) (\<lambda>os. tab_out os tabs) else (STREAM_SUCCESS, os))"

definition CHJSON_NUMBER_MAX_STR_WIDTH :: nat where "CHJSON_NUMBER_MAX_STR_WIDTH = 26"

text \<open>The result of the recursive calls is ignored, as in the code.\<close>

fun json_to_stream_helper ::
    "json_t \<Rightarrow> 's out_stream_t \<Rightarrow> bool \<Rightarrow> nat \<Rightarrow> stream_state_t \<times> 's out_stream_t" and
  print_chains :: "json_kv list list \<Rightarrow> 's out_stream_t \<Rightarrow> bool \<Rightarrow> bool \<Rightarrow> nat \<Rightarrow> stream_state_t \<times> 's out_stream_t" and
  print_chain :: "json_kv list \<Rightarrow> 's out_stream_t \<Rightarrow> bool \<Rightarrow> bool \<Rightarrow> nat \<Rightarrow> stream_state_t \<times> 's out_stream_t" and
  print_eles :: "json_t list \<Rightarrow> 's out_stream_t \<Rightarrow> bool \<Rightarrow> bool \<Rightarrow> nat \<Rightarrow> stream_state_t \<times> 's out_stream_t" where
  "json_to_stream_helper (JObject cs) os spaced tabs =
     try_os (os_putc os 0x7B) (\<lambda>os.
     try_os (print_chains cs os True spaced tabs) (\<lambda>os.
     try_os (line_out os spaced tabs) (\<lambda>os.
     try_os (os_putc os 0x7D) (\<lambda>os. (STREAM_SUCCESS, os)))))"
| "json_to_stream_helper (JList xs) os spaced tabs =
     try_os (os_putc os 0x5B) (\<lambda>os.
     try_os (print_eles xs os True spaced tabs) (\<lambda>os.
     try_os (line_out os spaced tabs) (\<lambda>os.
     try_os (os_putc os 0x5D) (\<lambda>os. (STREAM_SUCCESS, os)))))"
| "json_to_stream_helper (JString s) os spaced tabs =
     try_os (os_putc os 0x22) (\<lambda>os.
     try_os (escape_string_to_stream (c_str s) os) (\<lambda>os.
     try_os (os_putc os 0x22) (\<lambda>os. (STREAM_SUCCESS, os))))"
| "json_to_stream_helper (JNumber n) os spaced tabs =
     try_os (os_puts os (take (CHJSON_NUMBER_MAX_STR_WIDTH - 1) (format_g15 n))) (\<lambda>os. (STREAM_SUCCESS, os))"
| "json_to_stream_helper (JBoolean b) os spaced tabs =
     try_os (os_puts os (if b then [0x74, 0x72, 0x75, 0x65] else [0x66, 0x61, 0x6C, 0x73, 0x65]))
       (\<lambda>os. (STREAM_SUCCESS, os))"
| "json_to_stream_helper JNull os spaced tabs =
     try_os (os_puts os [0x6E, 0x75, 0x6C, 0x6C]) (\<lambda>os. (STREAM_SUCCESS, os))"
| "print_chains [] os first spaced tabs = (STREAM_SUCCESS, os)"
| "print_chains (c # cs) os first spaced tabs =
     try_os (print_chain c os first spaced tabs) (\<lambda>os. print_chains cs os (first \<and> c = []) spaced tabs)"
| "print_chain [] os first spaced tabs = (STREAM_SUCCESS, os)"
| "print_chain (KV h key val # c) os first spaced tabs =
     try_os (if first then (STREAM_SUCCESS, os) else os_putc os 0x2C) (\<lambda>os.
     try_os (line_out os spaced (tabs + 1)) (\<lambda>os.
     try_os (os_putc os 0x22) (\<lambda>os.
     try_os (os_puts os (c_str key)) (\<lambda>os.
     try_os (os_putc os 0x22) (\<lambda>os.
     try_os (os_putc os 0x3A) (\<lambda>os.
     try_os (if spaced then os_putc os 0x20 else (STREAM_SUCCESS, os)) (\<lambda>os.
     print_chain c (snd (json_to_stream_helper val os spaced (tabs + 1))) False spaced tabs)))))))"
| "print_eles [] os first spaced tabs = (STREAM_SUCCESS, os)"
| "print_eles (x # xs) os first spaced tabs =
     try_os (if first then (STREAM_SUCCESS, os) else os_putc os 0x2C) (\<lambda>os.
     try_os (line_out os spaced (tabs + 1)) (\<lambda>os.
     print_eles xs (snd (json_to_stream_helper x os spaced (tabs + 1))) False spaced tabs))"

definition json_to_stream :: "json_t \<Rightarrow> 's out_stream_t \<Rightarrow> bool \<Rightarrow> stream_state_t \<times> 's out_stream_t" where
  "json_to_stream json os spaced = json_to_stream_helper json os spaced 0"

definition json_to_string :: "json_t \<Rightarrow> bool \<Rightarrow> byte list" where
  "json_to_string json spaced =
     sos_builder (os_data (snd (json_to_stream_helper json (new_out_stream_to_string []) spaced 0)))"

end
