(* ===== verification/Chjson_Parser.thy ===== *)
theory Chjson_Parser
  imports Chjson_Json Chutil_Utf8
begin

text \<open>
  The JSON parser (\<open>chjson/src/parser.c\<close>).  A parser function returns its state, what it wrote through its
  pointers and the stream.  A \<open>string_t\<close> under construction is its characters; a list or an
  object under construction is its cells or chains.  The functions that make values also return how
  many values and strings they allocated, less those they deleted.

  Recursion on the nesting of values takes fuel; the loops over elements take the same fuel.  One
  unit more than there are characters is enough (\<open>json_parser_total\<close>).
\<close>

section \<open>States and steps\<close>

datatype parser_state_t =
  PARSER_SUCCESS | PARSER_INPUT_STREAM_ERROR | PARSER_OUTPUT_STREAM_ERROR | PARSER_SYNTAX_ERROR

definition parser_state_to_literal :: "parser_state_t \<Rightarrow> string" where
  "parser_state_to_literal ps =
     (case ps of
        PARSER_SUCCESS \<Rightarrow> ''Parser Success''
      | PARSER_INPUT_STREAM_ERROR \<Rightarrow> ''Parser Input Stream Error''
      | PARSER_SYNTAX_ERROR \<Rightarrow> ''Parser Syntax Error''
      | _ \<Rightarrow> ''Unknown Error'')"

type_synonym ('a, 's) parsed = "(parser_state_t \<times> 'a \<times> 's in_stream_t) option"

text \<open>
  The next or the look-ahead character with \<open>ASSERT_NOT_EMPTY\<close>; \<open>a\<close> is what the function leaves
  behind when it returns here.
\<close>

definition next_c ::
    "'s in_stream_t \<Rightarrow> 'a \<Rightarrow> (byte \<Rightarrow> 's in_stream_t \<Rightarrow> ('a, 's) parsed) \<Rightarrow> ('a, 's) parsed" where
  "next_c is a k =
     (case is_next_char is True of (ss, c, is) \<Rightarrow>
        if ss = STREAM_EMPTY then Some (PARSER_SYNTAX_ERROR, a, is)
        else if ss \<noteq> STREAM_SUCCESS then Some (PARSER_INPUT_STREAM_ERROR, a, is)
        else do { c \<leftarrow> c; k c is })"

definition peek_c ::
    "'s in_stream_t \<Rightarrow> 'a \<Rightarrow> (byte \<Rightarrow> ('a, 's) parsed) \<Rightarrow> ('a, 's) parsed" where
  "peek_c is a k =
     (case is_peek_char is True of (ss, c) \<Rightarrow>
        if ss = STREAM_EMPTY then Some (PARSER_SYNTAX_ERROR, a, is)
        else if ss \<noteq> STREAM_SUCCESS then Some (PARSER_INPUT_STREAM_ERROR, a, is)
        else do { c \<leftarrow> c; k c })"

text \<open>\<open>CONSUME_LAH\<close>.\<close>

definition consume_lah ::
    "'s in_stream_t \<Rightarrow> 'a \<Rightarrow> ('s in_stream_t \<Rightarrow> ('a, 's) parsed) \<Rightarrow> ('a, 's) parsed" where
  "consume_lah is a k =
     (case is_next_char is False of (ss, _, is) \<Rightarrow>
        if ss \<noteq> STREAM_SUCCESS then Some (PARSER_INPUT_STREAM_ERROR, a, is) else k is)"

lemma next_c_mono [partial_function_mono]:
  "(\<And>c is. mono_option (\<lambda>f. k f c is)) \<Longrightarrow> mono_option (\<lambda>f. next_c is a (k f))"
  unfolding next_c_def by (cases "is_next_char is True") (auto intro!: partial_function_mono)

lemma consume_lah_mono [partial_function_mono]:
  "(\<And>is. mono_option (\<lambda>f. k f is)) \<Longrightarrow> mono_option (\<lambda>f. consume_lah is a (k f))"
  unfolding consume_lah_def by (cases "is_next_char is False") (auto intro!: partial_function_mono)

definition is_ws :: "byte \<Rightarrow> bool" where
  "is_ws c \<longleftrightarrow> c = 0x20 \<or> c = 0x0A \<or> c = 0x0D \<or> c = 0x09"

partial_function (option) trim_ws :: "'s in_stream_t \<Rightarrow> (unit, 's) parsed" where
  "trim_ws is =
     (case is_peek_char is True of (ss, c) \<Rightarrow>
        if ss = STREAM_EMPTY then Some (PARSER_SUCCESS, (), is)
        else if ss \<noteq> STREAM_SUCCESS then Some (PARSER_INPUT_STREAM_ERROR, (), is)
        else Option.bind c (\<lambda>c.
          if \<not> is_ws c then Some (PARSER_SUCCESS, (), is)
          else consume_lah is () (\<lambda>is. trim_ws is)))"

text \<open>\<open>ASSERT_VALID_PARSE\<close> after a call: its state is returned unless it is a success.\<close>

definition valid_parse ::
    "('a, 's) parsed \<Rightarrow> ('a \<Rightarrow> 'b) \<Rightarrow> ('a \<Rightarrow> 's in_stream_t \<Rightarrow> ('b, 's) parsed) \<Rightarrow> ('b, 's) parsed" where
  "valid_parse r h k =
     do { (ps, a, is) \<leftarrow> r; if ps \<noteq> PARSER_SUCCESS then Some (ps, h a, is) else k a is }"

text \<open>\<open>TRIM_WS\<close>.\<close>

definition trim ::
    "'s in_stream_t \<Rightarrow> 'a \<Rightarrow> ('s in_stream_t \<Rightarrow> ('a, 's) parsed) \<Rightarrow> ('a, 's) parsed" where
  "trim is a k = valid_parse (trim_ws is) (\<lambda>_. a) (\<lambda>_ is. k is)"

fun expect_cstr :: "'s in_stream_t \<Rightarrow> byte list \<Rightarrow> (unit, 's) parsed" where
  "expect_cstr is [] = Some (PARSER_SUCCESS, (), is)"
| "expect_cstr is (e # es) =
     next_c is () (\<lambda>c is. if e \<noteq> c then Some (PARSER_SYNTAX_ERROR, (), is) else expect_cstr is es)"

section \<open>Strings\<close>

definition is_hex_digit :: "byte \<Rightarrow> bool" where
  "is_hex_digit c \<longleftrightarrow>
     (0x30 \<le> c \<and> c \<le> 0x39) \<or> (0x61 \<le> c \<and> c \<le> 0x66) \<or> (0x41 \<le> c \<and> c \<le> 0x46)"

text \<open>The loop over the remaining hexadecimal digits.\<close>

fun hex_loop :: "'s in_stream_t \<Rightarrow> nat \<Rightarrow> byte list \<Rightarrow> (byte list, 's) parsed" where
  "hex_loop is 0 hex_digits = Some (PARSER_SUCCESS, hex_digits, is)"
| "hex_loop is (Suc i) hex_digits =
     next_c is hex_digits (\<lambda>c is.
       if \<not> is_hex_digit c then Some (PARSER_SYNTAX_ERROR, hex_digits, is)
       else hex_loop is i (hex_digits @ [c]))"

text \<open>The case of \<open>u\<close>.\<close>

definition unicode_suffix :: "'s in_stream_t \<Rightarrow> byte list \<Rightarrow> (byte list, 's) parsed" where
  "unicode_suffix is builder =
     valid_parse (hex_loop is 4 []) (\<lambda>_. builder) (\<lambda>hex_digits is.
       do { uc \<leftarrow> unicode_from_cstr hex_digits;
            (case unicode_to_utf8 (new_out_stream_to_string builder) uc of (ss, os) \<Rightarrow>
               Some (if ss \<noteq> STREAM_SUCCESS then PARSER_OUTPUT_STREAM_ERROR else PARSER_SUCCESS,
                     sos_builder (os_data os), is)) })"

definition expect_control_suffix :: "'s in_stream_t \<Rightarrow> byte list \<Rightarrow> (byte list, 's) parsed" where
  "expect_control_suffix is builder =
     next_c is builder (\<lambda>c is.
       if c = 0x5C then Some (PARSER_SUCCESS, builder @ [0x5C], is)
       else if c = 0x2F then Some (PARSER_SUCCESS, builder @ [0x2F], is)
       else if c = 0x62 then Some (PARSER_SUCCESS, builder @ [0x08], is)
       else if c = 0x66 then Some (PARSER_SUCCESS, builder @ [0x0C], is)
       else if c = 0x6E then Some (PARSER_SUCCESS, builder @ [0x0A], is)
       else if c = 0x72 then Some (PARSER_SUCCESS, builder @ [0x0D], is)
       else if c = 0x74 then Some (PARSER_SUCCESS, builder @ [0x09], is)
       else if c = 0x75 then unicode_suffix is builder
       else Some (PARSER_SYNTAX_ERROR, builder, is))"

text \<open>Characters are signed in the code: those from 128 on are negative and pass its control test.\<close>

partial_function (option) string_loop :: "'s in_stream_t \<Rightarrow> byte list \<Rightarrow> (byte list, 's) parsed" where
  "string_loop is builder =
     next_c is builder (\<lambda>c is.
       if c < 0x20 then Some (PARSER_SYNTAX_ERROR, builder, is)
       else if c = 0x22 then Some (PARSER_SUCCESS, builder, is)
       else if c = 0x5C then
         Option.bind (expect_control_suffix is builder) (\<lambda>(ps, builder, is).
           if ps \<noteq> PARSER_SUCCESS then Some (ps, builder, is) else string_loop is builder)
       else string_loop is (builder @ [c]))"

definition string_body :: "'s in_stream_t \<Rightarrow> byte list \<Rightarrow> (byte list, 's) parsed" where
  "string_body is builder =
     next_c is builder (\<lambda>c is.
       if c \<noteq> 0x22 then Some (PARSER_SYNTAX_ERROR, builder, is) else string_loop is builder)"

definition string_from_in_stream_no_trim :: "'s in_stream_t \<Rightarrow> (byte list option, 's) parsed" where
  "string_from_in_stream_no_trim is =
     valid_parse (string_body is []) (\<lambda>_. None) (\<lambda>builder is. Some (PARSER_SUCCESS, Some builder, is))"

text \<open>A value, if there is one, and the number of live objects.\<close>

type_synonym 's json_parsed = "(json_t option \<times> int, 's) parsed"

definition json_string_from_in_stream_no_trim :: "'s in_stream_t \<Rightarrow> 's json_parsed" where
  "json_string_from_in_stream_no_trim is =
     valid_parse (string_from_in_stream_no_trim is) (\<lambda>_. (None, 0)) (\<lambda>res is.
       do { res \<leftarrow> res; Some (PARSER_SUCCESS, (Some (new_json_string res), 2), is) })"

section \<open>Numbers\<close>

definition is_number_like :: "byte \<Rightarrow> bool" where
  "is_number_like c \<longleftrightarrow>
     (c = 0x65 \<or> c = 0x45) \<or> (0x30 \<le> c \<and> c \<le> 0x39) \<or> (c = 0x2B \<or> c = 0x2D) \<or> c = 0x2E"

text \<open>The loop with \<open>n\<close> rounds to go.\<close>

fun number_loop :: "'s in_stream_t \<Rightarrow> nat \<Rightarrow> byte list \<Rightarrow> (byte list, 's) parsed" where
  "number_loop is 0 buf = Some (PARSER_SUCCESS, buf, is)"
| "number_loop is (Suc n) buf =
     (case is_peek_char is True of (ss, c) \<Rightarrow>
        if ss = STREAM_EMPTY then Some (PARSER_SUCCESS, buf, is)
        else if ss \<noteq> STREAM_SUCCESS then Some (PARSER_INPUT_STREAM_ERROR, buf, is)
        else Option.bind c (\<lambda>c.
          if \<not> is_number_like c then Some (PARSER_SUCCESS, buf, is)
          else consume_lah is (buf @ [c]) (\<lambda>is. number_loop is n (buf @ [c]))))"

definition json_number_from_stream_no_trim :: "'s in_stream_t \<Rightarrow> 's json_parsed" where
  "json_number_from_stream_no_trim is =
     valid_parse (number_loop is CHJSON_NUMBER_MAX_STR_WIDTH []) (\<lambda>_. (None, 0)) (\<lambda>buf is.
       if length buf = 0 then Some (PARSER_SYNTAX_ERROR, (None, 0), is)
       else (case strtod buf of (res, endptr) \<Rightarrow>
         if length buf \<noteq> endptr then Some (PARSER_SYNTAX_ERROR, (None, 0), is)
         else Some (PARSER_SUCCESS, (Some (new_json_number res), 1), is)))"

section \<open>Lists\<close>

text \<open>\<open>json\<close> parses a value, \<open>l\<close> is the list under construction and \<open>live\<close> the objects allocated so far.\<close>

text \<open>One element is parsed and pushed.\<close>

definition list_element ::
    "('s in_stream_t \<Rightarrow> 's json_parsed) \<Rightarrow> 's in_stream_t \<Rightarrow> json_t list \<Rightarrow> int \<Rightarrow>
     ('s in_stream_t \<Rightarrow> json_t list \<Rightarrow> int \<Rightarrow> (json_t list \<times> int, 's) parsed) \<Rightarrow> (json_t list \<times> int, 's) parsed" where
  "list_element json is l live k =
     valid_parse (json is) (\<lambda>(_, d). (l, live + d)) (\<lambda>(ele, d) is.
       do { ele \<leftarrow> ele; k is (l @ [ele]) (live + d) })"

fun list_loop ::
    "('s in_stream_t \<Rightarrow> 's json_parsed) \<Rightarrow> nat \<Rightarrow> 's in_stream_t \<Rightarrow> json_t list \<Rightarrow> int \<Rightarrow> (json_t list \<times> int, 's) parsed" where
  "list_loop json 0 is l live = None"
| "list_loop json (Suc n) is l live =
     trim is (l, live) (\<lambda>is.
     next_c is (l, live) (\<lambda>c is.
       if c = 0x5D then Some (PARSER_SUCCESS, (l, live), is)
       else if c \<noteq> 0x2C then Some (PARSER_SYNTAX_ERROR, (l, live), is)
       else trim is (l, live) (\<lambda>is.
         list_element json is l live (\<lambda>is l live. list_loop json n is l live))))"

definition list_body ::
    "('s in_stream_t \<Rightarrow> 's json_parsed) \<Rightarrow> nat \<Rightarrow> 's in_stream_t \<Rightarrow> json_t list \<Rightarrow> (json_t list \<times> int, 's) parsed" where
  "list_body json n is l =
     next_c is (l, 0) (\<lambda>c is.
       if c \<noteq> 0x5B then Some (PARSER_SYNTAX_ERROR, (l, 0), is)
       else trim is (l, 0) (\<lambda>is.
         peek_c is (l, 0) (\<lambda>c.
           if c = 0x5D then consume_lah is (l, 0) (\<lambda>is. Some (PARSER_SUCCESS, (l, 0), is))
           else list_element json is l 0 (\<lambda>is l live. list_loop json n is l live))))"

definition json_list_from_stream_no_trim ::
    "('s in_stream_t \<Rightarrow> 's json_parsed) \<Rightarrow> nat \<Rightarrow> 's in_stream_t \<Rightarrow> 's json_parsed" where
  "json_list_from_stream_no_trim json n is =
     do { l \<leftarrow> json_as_list new_json_list;
          valid_parse (list_body json n is l) (\<lambda>(l, live). (None, 1 + live - int (delete_json (JList l))))
            (\<lambda>(l, live) is. Some (PARSER_SUCCESS, (Some (JList l), 1 + live), is)) }"

section \<open>Objects\<close>

definition kvp_body ::
    "('s in_stream_t \<Rightarrow> 's json_parsed) \<Rightarrow> 's in_stream_t \<Rightarrow> byte list \<Rightarrow> (byte list \<times> json_t option \<times> int, 's) parsed" where
  "kvp_body json is k_builder =
     valid_parse (string_body is k_builder) (\<lambda>k. (k, None, 0)) (\<lambda>k is.
       trim is (k, None, 0) (\<lambda>is.
       next_c is (k, None, 0) (\<lambda>c is.
         if c \<noteq> 0x3A then Some (PARSER_SYNTAX_ERROR, (k, None, 0), is)
         else trim is (k, None, 0) (\<lambda>is.
           valid_parse (json is) (\<lambda>(_, d). (k, None, d)) (\<lambda>(val, d) is.
             Some (PARSER_SUCCESS, (k, val, d), is))))))"

definition json_kvp_from_stream_no_trim ::
    "('s in_stream_t \<Rightarrow> 's json_parsed) \<Rightarrow> 's in_stream_t \<Rightarrow> json_kv list list \<Rightarrow> int \<Rightarrow> (json_kv list list \<times> int, 's) parsed" where
  "json_kvp_from_stream_no_trim json is hm live =
     valid_parse (kvp_body json is [])
       (\<lambda>(k, v, d). (hm, live + 1 + d - 1 - (case v of None \<Rightarrow> 0 | Some v \<Rightarrow> int (delete_json v))))
       (\<lambda>(k, v, d) is. do { v \<leftarrow> v; Some (PARSER_SUCCESS, (object_put hm k v, live + 1 + d), is) })"

fun object_loop ::
    "('s in_stream_t \<Rightarrow> 's json_parsed) \<Rightarrow> nat \<Rightarrow> 's in_stream_t \<Rightarrow> json_kv list list \<Rightarrow> int \<Rightarrow>
     (json_kv list list \<times> int, 's) parsed" where
  "object_loop json 0 is hm live = None"
| "object_loop json (Suc n) is hm live =
     trim is (hm, live) (\<lambda>is.
     next_c is (hm, live) (\<lambda>c is.
       if c = 0x7D then Some (PARSER_SUCCESS, (hm, live), is)
       else if c \<noteq> 0x2C then Some (PARSER_SYNTAX_ERROR, (hm, live), is)
       else trim is (hm, live) (\<lambda>is.
         valid_parse (json_kvp_from_stream_no_trim json is hm live) (\<lambda>s. s) (\<lambda>(hm, live) is.
           object_loop json n is hm live))))"

definition object_body ::
    "('s in_stream_t \<Rightarrow> 's json_parsed) \<Rightarrow> nat \<Rightarrow> 's in_stream_t \<Rightarrow> json_kv list list \<Rightarrow>
     (json_kv list list \<times> int, 's) parsed" where
  "object_body json n is hm =
     next_c is (hm, 0) (\<lambda>c is.
       if c \<noteq> 0x7B then Some (PARSER_SYNTAX_ERROR, (hm, 0), is)
       else trim is (hm, 0) (\<lambda>is.
         peek_c is (hm, 0) (\<lambda>c.
           if c = 0x7D then consume_lah is (hm, 0) (\<lambda>is. Some (PARSER_SUCCESS, (hm, 0), is))
           else valid_parse (json_kvp_from_stream_no_trim json is hm 0) (\<lambda>s. s) (\<lambda>(hm, live) is.
             object_loop json n is hm live))))"

definition json_object_from_stream_no_trim ::
    "('s in_stream_t \<Rightarrow> 's json_parsed) \<Rightarrow> nat \<Rightarrow> 's in_stream_t \<Rightarrow> 's json_parsed" where
  "json_object_from_stream_no_trim json n is =
     do { hm \<leftarrow> json_as_object new_json_object;
          valid_parse (object_body json n is hm) (\<lambda>(hm, live). (None, 1 + live - int (delete_json (JObject hm))))
            (\<lambda>(hm, live) is. Some (PARSER_SUCCESS, (Some (JObject hm), 1 + live), is)) }"

section \<open>Values\<close>

fun json_from_in_stream_no_trim :: "nat \<Rightarrow> 's in_stream_t \<Rightarrow> 's json_parsed" where
  "json_from_in_stream_no_trim 0 is = None"
| "json_from_in_stream_no_trim (Suc n) is =
     peek_c is (None, 0) (\<lambda>c.
       if c = 0x7B then json_object_from_stream_no_trim (json_from_in_stream_no_trim n) n is
       else if c = 0x5B then json_list_from_stream_no_trim (json_from_in_stream_no_trim n) n is
       else if c = 0x22 then json_string_from_in_stream_no_trim is
       else if c = 0x66 then
         valid_parse (expect_cstr is [0x66, 0x61, 0x6C, 0x73, 0x65]) (\<lambda>_. (None, 0)) (\<lambda>_ is.
           Some (PARSER_SUCCESS, (Some (new_json_boolean False), 1), is))
       else if c = 0x74 then
         valid_parse (expect_cstr is [0x74, 0x72, 0x75, 0x65]) (\<lambda>_. (None, 0)) (\<lambda>_ is.
           Some (PARSER_SUCCESS, (Some (new_json_boolean True), 1), is))
       else if c = 0x6E then
         valid_parse (expect_cstr is [0x6E, 0x75, 0x6C, 0x6C]) (\<lambda>_. (None, 0)) (\<lambda>_ is.
           Some (PARSER_SUCCESS, (Some json_null, 0), is))
       else json_number_from_stream_no_trim is)"

definition json_from_in_stream :: "nat \<Rightarrow> 's in_stream_t \<Rightarrow> 's json_parsed" where
  "json_from_in_stream n is = trim is (None, 0) (\<lambda>is. json_from_in_stream_no_trim n is)"

end
