(* ===== verification/Chjson_Laws.thy ===== *)
theory Chjson_Laws
  imports Chjson_Json
begin

text \<open>
  Laws of JSON values: the map of an object against an association list, well-formed values, what
  comparison decides, what printing appends to a string.
\<close>

section \<open>The nodes of an object\<close>

abbreviation node_of :: "json_kv \<Rightarrow> (byte list, json_t) kvh" where
  "node_of kv \<equiv> \<lparr>kv_hash = kv_h kv, kv_key = kv_k kv, kv_val = kv_v kv\<rparr>"

abbreviation kv_of :: "(byte list, json_t) kvh \<Rightarrow> json_kv" where
  "kv_of n \<equiv> KV (kv_hash n) (kv_key n) (kv_val n)"

text \<open>The pairs of an object in the order of iteration.\<close>

definition kvs :: "json_kv list list \<Rightarrow> (byte list \<times> json_t) list" where
  "kvs cs = map (\<lambda>kv. (kv_k kv, kv_v kv)) (concat cs)"

lemma kvs_all:
  "(\<forall>k v. (k, v) \<in> set (kvs cs) \<longrightarrow> Q k v) \<longleftrightarrow> (\<forall>kv \<in> set (concat cs). Q (kv_k kv) (kv_v kv))"
proof
  assume h: "\<forall>k v. (k, v) \<in> set (kvs cs) \<longrightarrow> Q k v"
  show "\<forall>kv \<in> set (concat cs). Q (kv_k kv) (kv_v kv)"
  proof
    fix kv assume "kv \<in> set (concat cs)"
    then have "(kv_k kv, kv_v kv) \<in> set (kvs cs)" unfolding kvs_def set_map by (rule imageI)
    with h show "Q (kv_k kv) (kv_v kv)" by blast
  qed
qed (auto simp: kvs_def)

lemma node_of_kv_of [simp]: "\<lparr>kv_hash = kv_hash n, kv_key = kv_key n, kv_val = kv_val n\<rparr> = n"
    "KV (kv_h kv) (kv_k kv) (kv_v kv) = kv"
  by (cases n; cases kv; simp)+

lemma map_object_map [simp]: "map_object (object_map cs) = cs"
  by (simp add: map_object_def object_map_def comp_def)

lemma object_map_sel [simp]:
  "hm_num_keys (object_map cs) = length (concat cs)" "hm_chains_cap (object_map cs) = length cs"
  "hm_chains (object_map cs) = map (map node_of) cs" "hm_hash_func (object_map cs) = str_hash"
  "hm_eq_func (object_map cs) = str_eq"
  by (simp_all add: object_map_def)

lemma object_map_nodes: "hm_nodes (object_map cs) = map node_of (concat cs)"
  by (simp add: hm_nodes_def map_concat)

lemma object_map_pairs: "hm_pairs (object_map cs) = kvs cs"
  by (simp add: hm_pairs_def object_map_nodes kvs_def comp_def)

text \<open>\<open>object_map\<close> forgets nothing but the iterator of a well-formed map.\<close>

lemma nodes_map_object: "map node_of (concat (map_object hm)) = hm_nodes hm"
  by (simp add: map_object_def hm_nodes_def map_concat comp_def)

lemma object_map_same:
  assumes "hm_hash_func hm = str_hash" "hm_eq_func hm = str_eq" "hm_key_size hm = 8" "hm_value_size hm = 8"
    "length (hm_chains hm) = hm_chains_cap hm" "hm_num_keys hm = length (hm_nodes hm)"
  shows "hm_same hm (object_map (map_object hm))"
proof -
  have "length (concat (map_object hm)) = length (hm_nodes hm)"
    using arg_cong [OF nodes_map_object [of hm], of length] by simp
  then show ?thesis
    using assms by (cases hm) (simp add: hm_same_def object_map_def map_object_def comp_def)
qed

lemma put_sizes [simp]:
  "hm_key_size (hm_put hm k v) = hm_key_size hm" "hm_value_size (hm_put hm k v) = hm_value_size hm"
  by (simp_all add: hm_put_def hm_check_resize_def Let_def split: option.split)

lemma object_put_rel:
  assumes "str_key.rel (object_map cs) al" "no_nul k"
  shows "str_key.rel (object_map (object_put cs k v)) (alist_put str_eq al k v)"
proof -
  have r: "str_key.rel (hm_put (object_map cs) k v) (alist_put str_eq al k v)"
    by (rule str_key.put_refines [OF assms])
  have "hm_same (hm_put (object_map cs) k v) (object_map (object_put cs k v))"
    unfolding object_put_def
    by (rule object_map_same) (use r in \<open>simp_all add: str_key.rel_def str_key.inv_def\<close>, simp_all add: object_map_def)
  then show ?thesis by (rule str_key.rel_same [OF r])
qed

lemma new_object: "new_json_object = JObject (replicate 8 [])"
  by (simp add: new_json_object_def new_hash_map_def map_object_def)

lemma new_object_rel: "str_key.rel (object_map (replicate 8 [])) []"
  by (rule str_key.rel_same [OF str_key.new_rel
        [of 0 "[]" 8 8 "the (new_hash_map 0 [] 8 8 (Some str_hash) (Some str_eq))"]])
    (simp_all add: new_hash_map_def hm_same_def object_map_def)

text \<open>Whatever its keys, \<open>object_put\<close> adds one node or overwrites the value of one.\<close>

lemma object_put_nodes:
  assumes "cs \<noteq> []"
  shows "mset (concat (object_put cs k v)) = add_mset (KV (str_hash k) k v) (mset (concat cs)) \<or>
    (\<exists>kv R. mset (concat cs) = add_mset kv R \<and>
       mset (concat (object_put cs k v)) = add_mset (KV (kv_h kv) (kv_k kv) v) R)" (is ?nodes)
    and "object_put cs k v \<noteq> []"
proof -
  let ?hm = "object_map cs"
  let ?i = "unat (str_hash k) mod length cs"
  have i: "?i < length (hm_chains ?hm)" using assms by simp
  have conv: "mset (concat (map_object h)) = image_mset kv_of (mset (concat (hm_chains h)))" for h
    by (simp add: map_object_def map_concat [symmetric] flip: mset_map)
  have self: "mset (concat cs) = image_mset kv_of (mset (concat (hm_chains ?hm)))"
    using conv [of ?hm] by simp
  have "?nodes \<and> object_put cs k v \<noteq> []"
  proof (cases "chain_set (hm_match ?hm (str_hash k) k) v (hm_chains ?hm ! ?i)")
    case (Some c')
    then obtain xs n ys where s: "hm_chains ?hm ! ?i = xs @ n # ys" "c' = xs @ n\<lparr>kv_val := v\<rparr> # ys"
      using chain_set_Some [OF Some] by blast
    have put: "hm_put ?hm k v = ?hm\<lparr>hm_chains := (hm_chains ?hm)[?i := c']\<rparr>"
      using Some by (simp add: hm_put_def Let_def)
    define R where "R = mset (concat ((hm_chains ?hm)[?i := xs @ ys]))"
    have upd: "mset (concat ((hm_chains ?hm)[?i := zs])) + mset (hm_chains ?hm ! ?i) =
        mset (concat (hm_chains ?hm)) + mset zs" for zs by (rule mset_concat_update [OF i])
    have "mset (concat (hm_chains ?hm)) = add_mset n R"
      using upd [of "xs @ ys"] s(1) by (simp add: R_def)
    moreover have "mset (concat ((hm_chains ?hm)[?i := c'])) = add_mset (n\<lparr>kv_val := v\<rparr>) R"
    proof -
      have "mset (concat ((hm_chains ?hm)[?i := c'])) + mset (xs @ n # ys) =
          add_mset n R + mset (xs @ n\<lparr>kv_val := v\<rparr> # ys)"
        using upd [of c'] calculation unfolding s by simp
      also have "\<dots> = add_mset (n\<lparr>kv_val := v\<rparr>) R + mset (xs @ n # ys)" by simp
      finally show ?thesis by (rule add_right_imp_eq)
    qed
    ultimately have "mset (concat cs) = add_mset (kv_of n) (image_mset kv_of R)"
      "mset (concat (object_put cs k v)) =
        add_mset (KV (kv_h (kv_of n)) (kv_k (kv_of n)) v) (image_mset kv_of R)"
      using conv [of "hm_put ?hm k v"] self by (simp_all add: object_put_def put)
    moreover have "object_put cs k v \<noteq> []" using assms by (simp add: object_put_def put map_object_def)
    ultimately show ?thesis by blast
  next
    case None
    let ?n = "\<lparr>kv_hash = str_hash k, kv_key = k, kv_val = v\<rparr>"
    let ?c = "(hm_chains ?hm)[?i := ?n # hm_chains ?hm ! ?i]"
    let ?h = "?hm\<lparr>hm_chains := ?c, hm_num_keys := hm_num_keys ?hm + 1\<rparr>"
    have put: "hm_put ?hm k v = hm_check_resize ?h" using None by (simp add: hm_put_def Let_def)
    have "mset (concat ?c) = add_mset ?n (mset (concat (hm_chains ?hm)))"
      using mset_concat_update [OF i, of "?n # hm_chains ?hm ! ?i"] by simp
    moreover have "mset (concat (hm_chains (hm_check_resize ?h))) = mset (concat ?c) \<and>
        hm_chains (hm_check_resize ?h) \<noteq> []"
      using hm_rehash_ok [of "replicate (length cs * 2) []" "length cs * 2" ?c] assms
      by (auto simp: hm_check_resize_def Let_def)
    ultimately show ?thesis
      using conv [of "hm_put ?hm k v"] self by (simp add: object_put_def put map_object_def)
  qed
  then show ?nodes "object_put cs k v \<noteq> []" by blast+
qed

section \<open>Deletion\<close>

lemma delete_chain_sum: "delete_chain c = (\<Sum>kv\<leftarrow>c. 1 + delete_json (kv_v kv))"
proof (induction c)
  case (Cons kv c)
  then show ?case by (cases kv) simp
qed simp

lemma delete_chains_sum: "delete_chains cs = (\<Sum>kv\<in>#mset (concat cs). 1 + delete_json (kv_v kv))"
  by (induction cs) (simp_all add: delete_chain_sum flip: sum_mset_sum_list)

lemma delete_eles_sum: "delete_eles xs = (\<Sum>x\<leftarrow>xs. delete_json x)"
  by (induction xs) simp_all

text \<open>Putting an element into an object adds at most its key and value to what a deletion frees.\<close>

lemma delete_object_put:
  assumes "cs \<noteq> []"
  shows "delete_chains (object_put cs k v) \<le> delete_chains cs + 1 + delete_json v"
  using object_put_nodes(1) [OF assms, of k v] by (elim disjE exE conjE) (simp_all add: delete_chains_sum)

section \<open>Well-formed values\<close>

lemma json_induct [case_names JObject JList JString JNumber JBoolean JNull]:
  assumes "\<And>cs. (\<And>k v. (k, v) \<in> set (kvs cs) \<Longrightarrow> P v) \<Longrightarrow> P (JObject cs)"
    and "\<And>xs. (\<And>x. x \<in> set xs \<Longrightarrow> P x) \<Longrightarrow> P (JList xs)"
    and "\<And>s. P (JString s)" "\<And>n. P (JNumber n)" "\<And>b. P (JBoolean b)" "P JNull"
  shows "P j"
proof (rule json_t.induct [of "\<lambda>kv. P (kv_v kv)" P])
  fix cs :: "json_kv list list"
  assume "\<And>c kv. c \<in> set cs \<Longrightarrow> kv \<in> set c \<Longrightarrow> P (kv_v kv)"
  then show "P (JObject cs)" by (intro assms(1)) (auto simp: kvs_def)
qed (use assms in auto)

lemma kvs_smaller: "(k, v) \<in> set (kvs cs) \<Longrightarrow> size v < size (JObject cs)"
proof -
  assume "(k, v) \<in> set (kvs cs)"
  then obtain c kv where c: "c \<in> set cs" "kv \<in> set c" "v = kv_v kv" by (auto simp: kvs_def)
  have "size v < size kv" using c(3) by (cases kv) simp
  also have "size kv \<le> size_list size c" using c(2) by (rule size_list_estimation') simp
  also have "size_list size c \<le> size_list (size_list size) cs" using c(1) by (rule size_list_estimation') simp
  finally show ?thesis by simp
qed

text \<open>Every object is a hash map in good order whose keys have no embedded NUL.\<close>

fun json_ok :: "json_t \<Rightarrow> bool" and chains_ok :: "json_kv list list \<Rightarrow> bool" and
  chain_ok :: "json_kv list \<Rightarrow> bool" and eles_ok :: "json_t list \<Rightarrow> bool" where
  "json_ok (JObject cs) \<longleftrightarrow> str_key.inv (object_map cs) \<and> chains_ok cs"
| "json_ok (JList xs) \<longleftrightarrow> eles_ok xs"
| "json_ok (JString s) \<longleftrightarrow> True"
| "json_ok (JNumber n) \<longleftrightarrow> True"
| "json_ok (JBoolean b) \<longleftrightarrow> True"
| "json_ok JNull \<longleftrightarrow> True"
| "chains_ok [] \<longleftrightarrow> True"
| "chains_ok (c # cs) \<longleftrightarrow> chain_ok c \<and> chains_ok cs"
| "chain_ok [] \<longleftrightarrow> True"
| "chain_ok (KV h k v # c) \<longleftrightarrow> json_ok v \<and> chain_ok c"
| "eles_ok [] \<longleftrightarrow> True"
| "eles_ok (x # xs) \<longleftrightarrow> json_ok x \<and> eles_ok xs"

lemma chain_ok_iff: "chain_ok c \<longleftrightarrow> (\<forall>kv \<in> set c. json_ok (kv_v kv))"
proof (induction c)
  case (Cons kv c)
  then show ?case by (cases kv) simp
qed simp

lemma chains_ok_iff: "chains_ok cs \<longleftrightarrow> (\<forall>k v. (k, v) \<in> set (kvs cs) \<longrightarrow> json_ok v)"
  by (induction cs) (auto simp: chain_ok_iff kvs_all)

lemma eles_ok_iff: "eles_ok xs \<longleftrightarrow> (\<forall>x \<in> set xs. json_ok x)"
  by (induction xs) auto

text \<open>Lookup in a well-formed object.\<close>

lemma object_get_iff:
  assumes "str_key.inv (object_map cs)" "no_nul k"
  shows "hm_get (object_map cs) k = Some v \<longleftrightarrow> (k, v) \<in> set (kvs cs)"
proof -
  have nul: "no_nul (kv_key n)" if "n \<in> set (hm_nodes (object_map cs))" for n
    by (rule str_key.node_valid [OF assms(1) that])
  have "hm_get (object_map cs) k = Some v \<longleftrightarrow>
      (\<exists>n \<in> set (hm_nodes (object_map cs)). kv_key n = k \<and> kv_val n = v)"
    using str_key.get_Some_iff [OF assms, of v] nul assms(2) by (auto simp: str_eq_def c_str_no_nul)
  also have "\<dots> \<longleftrightarrow> (k, v) \<in> set (hm_pairs (object_map cs))" by (auto simp: hm_pairs_def)
  finally show ?thesis by (simp add: object_map_pairs)
qed

lemma kvs_no_nul: "str_key.inv (object_map cs) \<Longrightarrow> (k, v) \<in> set (kvs cs) \<Longrightarrow> no_nul k"
  using str_key.node_valid [of "object_map cs"] by (fastforce simp: hm_pairs_def simp flip: object_map_pairs)

section \<open>Comparison\<close>

lemma eles_equal_iff: "eles_equal xs ys \<longleftrightarrow> list_all2 json_same xs ys"
proof (induction xs arbitrary: ys)
  case (Cons x xs)
  then show ?case by (cases ys) simp_all
qed auto

lemma chains_equal_iff:
  "chains_equal cs ds \<longleftrightarrow> (\<forall>k v. (k, v) \<in> set (kvs cs) \<longrightarrow> (\<exists>w. hm_get (object_map ds) k = Some w \<and> json_same v w))"
proof -
  have chain: "chain_equal c ds \<longleftrightarrow>
      (\<forall>kv \<in> set c. \<exists>w. hm_get (object_map ds) (kv_k kv) = Some w \<and> json_same (kv_v kv) w)" for c
  proof (induction c)
    case (Cons kv c)
    then show ?case by (cases kv) (auto split: option.split)
  qed simp
  show ?thesis by (induction cs) (auto simp: chain kvs_all)
qed

text \<open>The comparison of two objects is what \<open>hm_equals\<close> computes, and so equality as maps.\<close>

lemma object_equals_hm:
  assumes "str_key.inv (object_map cs)" "str_key.inv (object_map ds)"
  shows "\<exists>hm. hm_equals json_same (object_map cs) (object_map ds) = Some (json_same (JObject cs) (JObject ds), hm)"
proof -
  have r: "str_key.rel (object_map cs) (kvs cs)"
    using assms(1) by (simp add: str_key.rel_def object_map_pairs)
  note it = str_key.rel_in_iteration [OF r]
  have "(\<forall>n \<in> set (hm_nodes (object_map cs)). \<exists>w. hm_get (object_map ds) (kv_key n) = Some w \<and> json_same (kv_val n) w) \<longleftrightarrow>
      chains_equal cs ds"
    unfolding chains_equal_iff kvs_all object_map_nodes by auto
  with hm_equals_loop_ok [OF it(1), of json_same "object_map ds"] it(3) obtain hm where
    "hm_equals_loop json_same (hm_reset_iterator (object_map cs)) (object_map ds) = Some (chains_equal cs ds, hm)"
    by auto
  then show ?thesis by (cases "length (concat cs) = length (concat ds)") (auto simp: hm_equals_def)
qed

lemma object_equals_iff:
  assumes "str_key.inv (object_map cs)" "str_key.inv (object_map ds)"
  shows "json_same (JObject cs) (JObject ds) \<longleftrightarrow>
    (\<forall>k. no_nul k \<longrightarrow> rel_option json_same (hm_get (object_map cs) k) (hm_get (object_map ds) k))"
  using str_key.equals_refines [of "object_map cs" "kvs cs" "object_map ds" "kvs ds" json_same]
    object_equals_hm [OF assms] assms by (auto simp: str_key.rel_def object_map_pairs)

lemma json_same_shape:
  "json_same (JObject cs) j \<Longrightarrow> \<exists>ds. j = JObject ds"
  "json_same (JList xs) j \<Longrightarrow> \<exists>ys. j = JList ys"
  "json_same (JString s) j \<Longrightarrow> \<exists>t. j = JString t \<and> str_eq s t"
  "json_same (JNumber n) j \<Longrightarrow> \<exists>m. j = JNumber m \<and> double_eq n m"
  "json_same (JBoolean b) j \<Longrightarrow> j = JBoolean b"
  "json_same JNull j \<Longrightarrow> j = JNull"
  by (cases j; simp)+

lemma double_eq_sym: "double_eq a b \<Longrightarrow> double_eq b a"
  by (cases a; cases b) auto

lemma double_eq_trans: "double_eq a b \<Longrightarrow> double_eq b c \<Longrightarrow> double_eq a c"
  by (cases a; cases b; cases c) auto

text \<open>Every key and every value that is neither a list nor an object satisfies a predicate.\<close>

fun parts :: "(byte list \<Rightarrow> bool) \<Rightarrow> (json_t \<Rightarrow> bool) \<Rightarrow> json_t \<Rightarrow> bool" and
  parts_chains :: "(byte list \<Rightarrow> bool) \<Rightarrow> (json_t \<Rightarrow> bool) \<Rightarrow> json_kv list list \<Rightarrow> bool" and
  parts_chain :: "(byte list \<Rightarrow> bool) \<Rightarrow> (json_t \<Rightarrow> bool) \<Rightarrow> json_kv list \<Rightarrow> bool" and
  parts_eles :: "(byte list \<Rightarrow> bool) \<Rightarrow> (json_t \<Rightarrow> bool) \<Rightarrow> json_t list \<Rightarrow> bool" where
  "parts K P (JObject cs) \<longleftrightarrow> parts_chains K P cs"
| "parts K P (JList xs) \<longleftrightarrow> parts_eles K P xs"
| "parts K P (JString s) \<longleftrightarrow> P (JString s)"
| "parts K P (JNumber n) \<longleftrightarrow> P (JNumber n)"
| "parts K P (JBoolean b) \<longleftrightarrow> P (JBoolean b)"
| "parts K P JNull \<longleftrightarrow> P JNull"
| "parts_chains K P [] \<longleftrightarrow> True"
| "parts_chains K P (c # cs) \<longleftrightarrow> parts_chain K P c \<and> parts_chains K P cs"
| "parts_chain K P [] \<longleftrightarrow> True"
| "parts_chain K P (KV h k v # c) \<longleftrightarrow> K k \<and> parts K P v \<and> parts_chain K P c"
| "parts_eles K P [] \<longleftrightarrow> True"
| "parts_eles K P (x # xs) \<longleftrightarrow> parts K P x \<and> parts_eles K P xs"

lemma parts_chains_iff: "parts_chains K P cs \<longleftrightarrow> (\<forall>k v. (k, v) \<in> set (kvs cs) \<longrightarrow> K k \<and> parts K P v)"
proof -
  have "parts_chain K P c \<longleftrightarrow> (\<forall>kv \<in> set c. K (kv_k kv) \<and> parts K P (kv_v kv))" for c
  proof (induction c)
    case (Cons kv c)
    then show ?case by (cases kv) simp
  qed simp
  then show ?thesis by (induction cs) (auto simp: kvs_all)
qed

lemma parts_eles_iff: "parts_eles K P xs \<longleftrightarrow> (\<forall>x \<in> set xs. parts K P x)"
  by (induction xs) auto

text \<open>No number in the value is a NaN.\<close>

definition number_not_nan :: "json_t \<Rightarrow> bool" where
  "number_not_nan j \<longleftrightarrow> (case j of JNumber n \<Rightarrow> double_eq n n | _ \<Rightarrow> True)"

definition nan_free :: "json_t \<Rightarrow> bool" where
  "nan_free j \<longleftrightarrow> parts (\<lambda>_. True) number_not_nan j"

lemmas json_sets = chains_ok_iff eles_ok_iff parts_chains_iff parts_eles_iff eles_equal_iff

lemma json_same_refl: "json_ok j \<Longrightarrow> nan_free j \<Longrightarrow> json_same j j"
proof (induction j rule: json_induct)
  case (JObject cs)
  then have inv: "str_key.inv (object_map cs)" by simp
  have "chains_equal cs cs" unfolding chains_equal_iff
  proof clarify
    fix k v assume kv: "(k, v) \<in> set (kvs cs)"
    have "hm_get (object_map cs) k = Some v" using object_get_iff [OF inv kvs_no_nul [OF inv kv]] kv by blast
    moreover have "json_same v v" using JObject kv by (auto simp: json_sets nan_free_def)
    ultimately show "\<exists>w. hm_get (object_map cs) k = Some w \<and> json_same v w" by blast
  qed
  then show ?case by simp
next
  case (JList xs)
  then show ?case by (simp add: json_sets nan_free_def list_all2_same)
qed (simp_all add: str_eq_def nan_free_def number_not_nan_def)

lemma json_same_sym: "json_ok j \<Longrightarrow> json_ok j' \<Longrightarrow> json_same j j' \<Longrightarrow> json_same j' j"
proof (induction j arbitrary: j' rule: json_induct)
  case (JObject cs)
  obtain ds where j': "j' = JObject ds" using json_same_shape(1) [OF JObject.prems(3)] by blast
  have inv: "str_key.inv (object_map cs)" "str_key.inv (object_map ds)" using JObject.prems j' by simp_all
  have "rel_option json_same (hm_get (object_map ds) k) (hm_get (object_map cs) k)" if k: "no_nul k" for k
  proof (cases "hm_get (object_map cs) k")
    have r: "rel_option json_same (hm_get (object_map cs) k) (hm_get (object_map ds) k)"
      using JObject.prems(3) k j' object_equals_iff [OF inv] by blast
    case None
    with r show ?thesis by simp
  next
    have r: "rel_option json_same (hm_get (object_map cs) k) (hm_get (object_map ds) k)"
      using JObject.prems(3) k j' object_equals_iff [OF inv] by blast
    case (Some v)
    with r obtain w where w: "hm_get (object_map ds) k = Some w" "json_same v w" by (metis option_rel_Some1)
    have kv: "(k, v) \<in> set (kvs cs)" "(k, w) \<in> set (kvs ds)"
      using Some w(1) object_get_iff [OF inv(1) k] object_get_iff [OF inv(2) k] by blast+
    then have "json_ok v" "json_ok w" using JObject.prems j' by (auto simp: json_sets)
    with JObject.IH [OF kv(1)] w Some show ?thesis by simp
  qed
  then show ?case using j' object_equals_iff [OF inv(2,1)] by blast
next
  case (JList xs)
  obtain ys where j': "j' = JList ys" using json_same_shape(2) [OF JList.prems(3)] by blast
  with JList.prems have "list_all2 (\<lambda>x y. json_same y x) xs ys"
    using JList.IH by (auto simp: json_sets list_all2_conv_all_nth)
  then show ?case using j' by (simp add: json_sets list_all2_conv_all_nth)
next
  case (JNumber n)
  show ?case using json_same_shape(4) [OF JNumber.prems(3)] double_eq_sym by auto
next
  case (JString s)
  show ?case using json_same_shape(3) [OF JString.prems(3)] by (auto simp: str_eq_def)
next
  case (JBoolean b)
  show ?case using json_same_shape(5) [OF JBoolean.prems(3)] by simp
next
  case JNull
  show ?case using json_same_shape(6) [OF JNull.prems(3)] by simp
qed

lemma eles_trans:
  assumes "list_all2 R xs ys" "list_all2 R ys zs" "\<forall>x \<in> set xs. Q x" "\<forall>y \<in> set ys. Q y" "\<forall>z \<in> set zs. Q z"
    and "\<And>x y z. x \<in> set xs \<Longrightarrow> Q x \<Longrightarrow> Q y \<Longrightarrow> Q z \<Longrightarrow> R x y \<Longrightarrow> R y z \<Longrightarrow> R x z"
  shows "list_all2 R xs zs"
  unfolding list_all2_conv_all_nth
proof (intro conjI allI impI)
  show "length xs = length zs" using assms(1,2) by (simp add: list_all2_conv_all_nth)
  fix i assume i: "i < length xs"
  then have r: "R (xs ! i) (ys ! i)" "R (ys ! i) (zs ! i)" "i < length ys" "i < length zs"
    using assms(1,2) by (simp_all add: list_all2_conv_all_nth)
  then have "Q (xs ! i)" "Q (ys ! i)" "Q (zs ! i)" using i assms(3-5) by simp_all
  from assms(6) [OF nth_mem [OF i] this r(1,2)] show "R (xs ! i) (zs ! i)" .
qed

lemma json_same_trans:
  "json_ok j1 \<Longrightarrow> json_ok j2 \<Longrightarrow> json_ok j3 \<Longrightarrow> json_same j1 j2 \<Longrightarrow> json_same j2 j3 \<Longrightarrow> json_same j1 j3"
proof (induction j1 arbitrary: j2 j3 rule: json_induct)
  case (JObject cs)
  obtain ds where j2: "j2 = JObject ds" using json_same_shape(1) [OF JObject.prems(4)] by blast
  obtain es where j3: "j3 = JObject es" using json_same_shape(1) [OF JObject.prems(5) [unfolded j2]] by blast
  note j = j2 j3
  have inv: "str_key.inv (object_map cs)" "str_key.inv (object_map ds)" "str_key.inv (object_map es)"
    using JObject.prems j by simp_all
  have "rel_option json_same (hm_get (object_map cs) k) (hm_get (object_map es) k)" if k: "no_nul k" for k
  proof -
    have r: "rel_option json_same (hm_get (object_map cs) k) (hm_get (object_map ds) k)"
      "rel_option json_same (hm_get (object_map ds) k) (hm_get (object_map es) k)"
      using JObject.prems(4,5) k j object_equals_iff [OF inv(1,2)] object_equals_iff [OF inv(2,3)] by blast+
    show ?thesis
    proof (cases "hm_get (object_map cs) k")
      case (Some v)
      with r obtain w z where w: "hm_get (object_map ds) k = Some w" "json_same v w"
        "hm_get (object_map es) k = Some z" "json_same w z" by (metis option_rel_Some1)
      have kv: "(k, v) \<in> set (kvs cs)" "(k, w) \<in> set (kvs ds)" "(k, z) \<in> set (kvs es)"
        using Some w(1,3) object_get_iff [OF inv(1) k] object_get_iff [OF inv(2) k] object_get_iff [OF inv(3) k] by blast+
      then have ok: "json_ok v" "json_ok w" "json_ok z" using JObject.prems(1-3) j by (auto simp: json_sets)
      show ?thesis using JObject.IH [OF kv(1) ok w(2,4)] w(3) Some by simp
    qed (use r in auto)
  qed
  then show ?case using j object_equals_iff [OF inv(1,3)] by blast
next
  case (JList xs)
  obtain ys where j2: "j2 = JList ys" using json_same_shape(2) [OF JList.prems(4)] by blast
  obtain zs where j3: "j3 = JList zs" using json_same_shape(2) [OF JList.prems(5) [unfolded j2]] by blast
  note j = j2 j3
  have "list_all2 json_same xs ys" "list_all2 json_same ys zs" "\<forall>x \<in> set xs. json_ok x"
    "\<forall>y \<in> set ys. json_ok y" "\<forall>z \<in> set zs. json_ok z" using JList.prems j by (simp_all add: json_sets)
  then have "list_all2 json_same xs zs" using JList.IH by (rule eles_trans [where Q = json_ok])
  then show ?case using j by (simp add: json_sets)
next
  case (JNumber n)
  obtain m where j2: "j2 = JNumber m" "double_eq n m" using json_same_shape(4) [OF JNumber.prems(4)] by blast
  show ?case using json_same_shape(4) [OF JNumber.prems(5) [unfolded j2(1)]] double_eq_trans [OF j2(2)] by auto
next
  case (JString s)
  obtain t where j2: "j2 = JString t" "str_eq s t" using json_same_shape(3) [OF JString.prems(4)] by blast
  show ?case using json_same_shape(3) [OF JString.prems(5) [unfolded j2(1)]] j2(2) by (auto simp: str_eq_def)
next
  case (JBoolean b)
  then show ?case using json_same_shape(5) by blast
next
  case JNull
  then show ?case using json_same_shape(6) by blast
qed

section \<open>Making values\<close>

lemma kvs_rel: "str_key.inv (object_map cs) \<Longrightarrow> str_key.rel (object_map cs) (kvs cs)"
  by (simp add: str_key.rel_def object_map_pairs)

lemma rel_kvs: "str_key.rel (object_map cs) al \<Longrightarrow> mset (kvs cs) = mset al"
  by (simp add: str_key.rel_def object_map_pairs)

lemma new_object_ok: "json_ok new_json_object"
  using new_object_rel by (auto simp: new_object str_key.rel_def json_sets kvs_def)

lemma object_put_ok:
  assumes "json_ok (JObject cs)" "no_nul k" "json_ok v"
  shows "json_ok (JObject (object_put cs k v))"
proof -
  have r: "str_key.rel (object_map (object_put cs k v)) (alist_put str_eq (kvs cs) k v)"
    by (rule object_put_rel [OF kvs_rel assms(2)]) (use assms(1) in simp)
  have "json_ok w" if "(k', w) \<in> set (alist_put str_eq (kvs cs) k v)" for k' w
    using that assms(1,3) by (auto simp: alist_put_def json_sets split: if_splits)
  with r rel_kvs [OF r] show ?thesis by (auto simp: json_sets str_key.rel_def dest: mset_eq_setD)
qed

lemma put_kvps_ok:
  "json_ok (JObject cs) \<Longrightarrow>
   \<forall>p \<in> set args. (\<forall>x. fst p = Some x \<longrightarrow> no_nul x) \<and> (\<forall>v. snd p = Some v \<longrightarrow> json_ok v) \<Longrightarrow>
   json_ok (JObject (put_kvps args cs))"
proof (induction args cs rule: put_kvps.induct)
  case (1 key val args cs)
  have "json_ok (JObject (object_put cs key val))" using 1(2,3) by (intro object_put_ok) simp_all
  with 1(1,3) show ?case by simp
qed simp_all

section \<open>Printing\<close>

text \<open>What the printer writes, as one list.\<close>

definition commas :: "byte list list \<Rightarrow> byte list" where
  "commas xs = (case xs of [] \<Rightarrow> [] | x # xs \<Rightarrow> x @ concat (map ((#) 0x2C) xs))"

definition line_text :: "bool \<Rightarrow> nat \<Rightarrow> byte list" where
  "line_text spaced tabs = (if spaced then 0x0A # concat (replicate tabs [0x20, 0x20]) else [])"

definition key_text :: "byte list \<Rightarrow> bool \<Rightarrow> byte list" where
  "key_text k spaced = 0x22 # c_str k @ [0x22, 0x3A] @ (if spaced then [0x20] else [])"

function print_json :: "json_t \<Rightarrow> bool \<Rightarrow> nat \<Rightarrow> byte list" where
  "print_json (JObject cs) spaced tabs =
     0x7B # commas (map (\<lambda>(k, v). line_text spaced (tabs + 1) @ key_text k spaced @ print_json v spaced (tabs + 1)) (kvs cs)) @
     line_text spaced tabs @ [0x7D]"
| "print_json (JList xs) spaced tabs =
     0x5B # commas (map (\<lambda>x. line_text spaced (tabs + 1) @ print_json x spaced (tabs + 1)) xs) @
     line_text spaced tabs @ [0x5D]"
| "print_json (JString s) spaced tabs = 0x22 # concat (map escape_char (c_str s)) @ [0x22]"
| "print_json (JNumber n) spaced tabs = take 25 (format_g15 n)"
| "print_json (JBoolean b) spaced tabs = (if b then [0x74, 0x72, 0x75, 0x65] else [0x66, 0x61, 0x6C, 0x73, 0x65])"
| "print_json JNull spaced tabs = [0x6E, 0x75, 0x6C, 0x6C]"
  by pat_completeness auto
termination
proof (relation "measure (\<lambda>(j, _). size j)")
  fix cs spaced tabs z k v
  assume "z \<in> set (kvs cs)" "(k, v) = z"
  then show "((v, spaced :: bool, tabs + 1 :: nat), JObject cs, spaced, tabs) \<in> measure (\<lambda>(j, _). size j)"
    using kvs_smaller [of k v cs] by auto
next
  fix xs :: "json_t list" and spaced tabs x
  assume "x \<in> set xs"
  then show "((x, spaced :: bool, tabs + 1 :: nat), JList xs, spaced, tabs) \<in> measure (\<lambda>(j, _). size j)"
    by (simp add: size_list_estimation' less_Suc_eq_le)
qed simp

text \<open>Writing to a string.\<close>

abbreviation to_string :: "byte list \<Rightarrow> string_out_stream_t out_stream_t" where
  "to_string \<equiv> new_out_stream_to_string"

lemma escape_string: "escape_string_to_stream cs (to_string s) = (STREAM_SUCCESS, to_string (s @ concat (map escape_char cs)))"
  by (induction cs arbitrary: s) (simp_all add: puts_string)

lemma tabs_string: "tab_out (to_string s) n = (STREAM_SUCCESS, to_string (s @ concat (replicate n [0x20, 0x20])))"
  by (induction n arbitrary: s) (simp_all add: puts_string del: os_puts.simps)

lemma opt_putc:
  "(if b then os_putc (to_string s) c else (STREAM_SUCCESS, to_string s)) =
    (STREAM_SUCCESS, to_string (s @ (if b then [c] else [])))"
  "(if b then (STREAM_SUCCESS, to_string s) else os_putc (to_string s) c) =
    (STREAM_SUCCESS, to_string (s @ (if b then [] else [c])))"
  by (simp_all add: putc_string)

lemma line_string: "line_out (to_string s) spaced n = (STREAM_SUCCESS, to_string (s @ line_text spaced n))"
  by (simp add: line_out_def line_text_def putc_string tabs_string)

lemmas to_strings = putc_string puts_string escape_string tabs_string line_string

abbreviation comma :: "bool \<Rightarrow> byte list" where
  "comma first \<equiv> (if first then [] else [0x2C])"

text \<open>A list of items, each after a comma but the first when \<open>first\<close>.\<close>

fun items :: "bool \<Rightarrow> byte list list \<Rightarrow> byte list" where
  "items first [] = []"
| "items first (x # xs) = comma first @ x @ items False xs"

lemma items_False: "items False xs = concat (map ((#) 0x2C) xs)"
  by (induction xs) simp_all

lemma commas_items: "commas xs = items True xs"
  by (cases xs) (simp_all add: commas_def items_False)

lemma items_append: "items first (xs @ ys) = items first xs @ items (first \<and> xs = []) ys"
  by (induction xs arbitrary: first) auto

lemma print_string:
  "json_to_stream_helper j (to_string s) spaced tabs = (STREAM_SUCCESS, to_string (s @ print_json j spaced tabs))"
proof (induction j arbitrary: s tabs rule: json_induct)
  case (JObject cs)
  let ?item = "\<lambda>(k, v). line_text spaced (tabs + 1) @ key_text k spaced @ print_json v spaced (tabs + 1)"
  have chain: "print_chain c (to_string s) first spaced tabs =
      (STREAM_SUCCESS, to_string (s @ items first (map ?item (map (\<lambda>kv. (kv_k kv, kv_v kv)) c))))"
    if "set c \<subseteq> set (concat cs)" for c s first
    using that
  proof (induction c arbitrary: s first)
    case (Cons kv c)
    obtain h k v where kv: "kv = KV h k v" by (cases kv)
    have "(k, v) \<in> set (kvs cs)" using Cons.prems kv by (force simp: kvs_def)
    note v = JObject.IH [OF this]
    show ?case unfolding kv
      using Cons.IH [of _ False] Cons.prems
      by (simp add: to_strings opt_putc v key_text_def del: os_puts.simps split del: if_split)
  qed simp
  have chains: "print_chains ds (to_string s) first spaced tabs =
      (STREAM_SUCCESS, to_string (s @ items first (map ?item (kvs ds))))"
    if "set (concat ds) \<subseteq> set (concat cs)" for ds s first
    using that
  proof (induction ds arbitrary: s first)
    case (Cons c ds)
    from chain [of c s first] Cons.prems Cons.IH [of _ "first \<and> c = []"]
    show ?case by (simp add: kvs_def items_append)
  qed (simp add: kvs_def)
  show ?case using chains [of cs "s @ [0x7B]" True] by (simp add: to_strings commas_items)
next
  case (JList xs)
  let ?item = "\<lambda>x. line_text spaced (tabs + 1) @ print_json x spaced (tabs + 1)"
  have "print_eles ys (to_string s) first spaced tabs =
      (STREAM_SUCCESS, to_string (s @ items first (map ?item ys)))" if "set ys \<subseteq> set xs" for ys s first
    using that
  proof (induction ys arbitrary: s first)
    case (Cons y ys)
    have "y \<in> set xs" using Cons.prems by simp
    note y = JList.IH [OF this]
    show ?case using Cons.IH [of _ False] Cons.prems by (simp add: to_strings opt_putc y split del: if_split)
  qed simp
  from this [of xs] show ?case by (simp add: to_strings commas_items)
qed (simp_all add: to_strings CHJSON_NUMBER_MAX_STR_WIDTH_def del: os_puts.simps)

lemma json_to_string_eq: "json_to_string j spaced = print_json j spaced 0"
  by (simp add: json_to_string_def print_string) (simp add: new_out_stream_to_string_def new_string_out_stream_def)

section \<open>Objects with distinct keys\<close>

lemma delete_chains_kvs: "delete_chains cs = (\<Sum>p\<in>#mset (kvs cs). 1 + delete_json (snd p))"
  by (simp add: delete_chains_sum kvs_def comp_def image_mset.compositionality flip: mset_map)

lemma kvs_distinct:
  assumes "str_key.inv (object_map cs)"
  shows "distinct (map fst (kvs cs))"
proof -
  have "inj_on kv_key (set (hm_nodes (object_map cs)))"
  proof (rule inj_onI)
    fix a b assume a: "a \<in> set (hm_nodes (object_map cs))" and b: "b \<in> set (hm_nodes (object_map cs))"
      and e: "kv_key a = kv_key b"
    show "a = b" by (rule str_key.node_unique [OF assms a b]) (simp add: e str_eq_def)
  qed
  then have "distinct (map kv_key (hm_nodes (object_map cs)))"
    using str_key.nodes_distinct [OF assms] by (simp add: distinct_map)
  moreover have "map fst (kvs cs) = map kv_key (hm_nodes (object_map cs))"
    by (simp add: kvs_def object_map_nodes comp_def)
  ultimately show ?thesis by simp
qed

text \<open>A key that is not there is added in front.\<close>

lemma object_put_new:
  assumes "str_key.rel (object_map cs) al" "no_nul k" "k \<notin> fst ` set al" "\<forall>p \<in> set al. no_nul (fst p)"
  shows "str_key.rel (object_map (object_put cs k v)) ((k, v) # al)"
proof -
  have "\<not> (\<exists>p \<in> set al. str_eq (fst p) k)"
    using assms(2-4) by (auto simp: str_eq_def c_str_no_nul)
  then show ?thesis using object_put_rel [OF assms(1,2), of v] by (simp add: alist_put_def)
qed

text \<open>Objects that hold equal values under the same keys are equal.\<close>

lemma same_pairs_equal:
  assumes "str_key.inv (object_map cs)" "str_key.rel (object_map ds) al"
    and "mset al = mset al'" "list_all2 (\<lambda>(k, v) (k', v'). k = k' \<and> json_same v v') (kvs cs) al'"
  shows "json_same (JObject cs) (JObject ds)"
proof -
  have inv: "str_key.inv (object_map ds)" using assms(2) by (simp add: str_key.rel_def)
  have pairs: "mset (kvs ds) = mset al'" using rel_kvs [OF assms(2)] assms(3) by simp
  have "length (kvs cs) = length (kvs ds)"
    using mset_eq_length [OF pairs] list_all2_lengthD [OF assms(4)] by simp
  then have len: "length (concat cs) = length (concat ds)" by (simp add: kvs_def)
  have "chains_equal cs ds" unfolding chains_equal_iff
  proof (intro allI impI)
    fix k v assume kv: "(k, v) \<in> set (kvs cs)"
    then obtain w where w: "(k, w) \<in> set al'" "json_same v w"
      using assms(4) by (fastforce simp: list_all2_conv_all_nth in_set_conv_nth)
    then have "(k, w) \<in> set (kvs ds)" using mset_eq_setD [OF pairs] by simp
    then have "hm_get (object_map ds) k = Some w"
      using object_get_iff [OF inv kvs_no_nul [OF assms(1) kv]] by blast
    with w(2) show "\<exists>w. hm_get (object_map ds) k = Some w \<and> json_same v w" by blast
  qed
  with len show ?thesis by simp
qed


text \<open>The printer ignores the result of its recursive calls: when only the write of a nested value fails, it
  goes on, leaves a gap in the file and reports a success.\<close>

theorem print_error_lost:
  "json_to_stream (JList [JNull]) (the (new_out_stream_to_file (Some \<lparr>fos_written = [], fos_results = [True, False]\<rparr>))) False =
     (STREAM_SUCCESS, the (new_out_stream_to_file (Some \<lparr>fos_written = [0x5B, 0x5D], fos_results = []\<rparr>)))"
  by (simp add: json_to_stream_def new_out_stream_to_file_def new_file_out_stream_def os_putc_def try_os_def
      FILE_OUT_STREAM_IMPL_def fos_putc_def fputc_def line_out_def)

end
