(* ===== verification/Chjson_Parse_Laws.thy ===== *)
theory Chjson_Parse_Laws
  imports Chjson_Parser Chjson_Laws "HOL-Library.Sublist"
begin

text \<open>
  Laws of the JSON parser.  They are proved on a stream that is just the list of the characters to
  come; \<open>parser_blind\<close> carries them to every stream that satisfies the laws of \<open>in_stream\<close>, because
  the parser cannot tell the two apart.
\<close>

section \<open>The stream of a list\<close>

definition LIST_IN_STREAM_IMPL :: "byte list in_stream_impl_t" where
  "LIST_IN_STREAM_IMPL =
     \<lparr>i_peek_char = \<lambda>d out. (case d of [] \<Rightarrow> (STREAM_EMPTY, None) | c # _ \<Rightarrow> (STREAM_SUCCESS, if out then Some c else None)),
      i_next_char = \<lambda>d out. (case d of [] \<Rightarrow> (STREAM_EMPTY, None, []) | c # cs \<Rightarrow> (STREAM_SUCCESS, if out then Some c else None, cs)),
      i_destructor = \<lambda>d. (0, NothingElse)\<rparr>"

definition list_stream :: "byte list \<Rightarrow> byte list in_stream_t" where
  "list_stream cs = \<lparr>is_data = cs, is_impl = LIST_IN_STREAM_IMPL\<rparr>"

lemma list_stream_inject [simp]: "list_stream cs = list_stream ds \<longleftrightarrow> cs = ds"
  by (simp add: list_stream_def)

lemma list_next [simp]:
  "next_c (list_stream []) a k = Some (PARSER_SYNTAX_ERROR, a, list_stream [])"
  "next_c (list_stream (c # cs)) a k = k c (list_stream cs)"
  by (simp_all add: next_c_def is_next_char_def list_stream_def LIST_IN_STREAM_IMPL_def)

lemma list_peek [simp]:
  "peek_c (list_stream []) a k = Some (PARSER_SYNTAX_ERROR, a, list_stream [])"
  "peek_c (list_stream (c # cs)) a k' = k' c"
  by (simp_all add: peek_c_def is_peek_char_def list_stream_def LIST_IN_STREAM_IMPL_def)

lemma list_peek_char [simp]:
  "is_peek_char (list_stream []) True = (STREAM_EMPTY, None)"
  "is_peek_char (list_stream (c # cs)) True = (STREAM_SUCCESS, Some c)"
  by (simp_all add: is_peek_char_def list_stream_def LIST_IN_STREAM_IMPL_def)

lemma list_consume [simp]: "consume_lah (list_stream (c # cs)) a k = k (list_stream cs)"
    "consume_lah (list_stream []) a k = Some (PARSER_INPUT_STREAM_ERROR, a, list_stream [])"
  by (simp_all add: consume_lah_def is_next_char_def list_stream_def LIST_IN_STREAM_IMPL_def)

lemma list_trim_ws: "trim_ws (list_stream cs) = Some (PARSER_SUCCESS, (), list_stream (dropWhile is_ws cs))"
  by (induction cs) (subst trim_ws.simps, simp)+

lemma valid_parse_simps [simp]:
  "valid_parse (Some (PARSER_SUCCESS, a, is)) h k = k a is"
  "ps \<noteq> PARSER_SUCCESS \<Longrightarrow> valid_parse (Some (ps, a, is)) h k = Some (ps, h a, is)"
  by (simp_all add: valid_parse_def)

lemma list_trim [simp]: "trim (list_stream cs) a k = k (list_stream (dropWhile is_ws cs))"
  by (simp add: trim_def list_trim_ws)

section \<open>The parser always ends\<close>

text \<open>A run on \<open>cs\<close> that ends with a success or a syntax error before a suffix of \<open>cs\<close>.\<close>

definition ends ::
    "byte list \<Rightarrow> (parser_state_t \<Rightarrow> 'a \<Rightarrow> byte list \<Rightarrow> bool) \<Rightarrow> ('a, byte list) parsed \<Rightarrow> bool" where
  "ends cs Q r \<longleftrightarrow>
     (\<exists>ps a rest. r = Some (ps, a, list_stream rest) \<and> suffix rest cs \<and>
        (ps = PARSER_SUCCESS \<or> ps = PARSER_SYNTAX_ERROR) \<and> Q ps a rest)"

named_theorems ends

lemma ends_success [ends]: "suffix rest cs \<Longrightarrow> Q PARSER_SUCCESS a rest \<Longrightarrow> ends cs Q (Some (PARSER_SUCCESS, a, list_stream rest))"
  by (auto simp: ends_def)

lemma ends_syntax [ends]: "suffix rest cs \<Longrightarrow> Q PARSER_SYNTAX_ERROR a rest \<Longrightarrow> ends cs Q (Some (PARSER_SYNTAX_ERROR, a, list_stream rest))"
  by (auto simp: ends_def)

lemma ends_weaken:
  assumes "ends cs Q r" "suffix cs cs'" "\<And>ps a rest. suffix rest cs \<Longrightarrow> Q ps a rest \<Longrightarrow> Q' ps a rest"
  shows "ends cs' Q' r"
  using assms by (auto simp: ends_def intro: suffix_order.trans)

lemma ends_next:
  assumes "suffix ds cs" "Q PARSER_SYNTAX_ERROR a []"
    and "\<And>c ds'. ds = c # ds' \<Longrightarrow> suffix ds' cs \<Longrightarrow> ends cs Q (k c (list_stream ds'))"
  shows "ends cs Q (next_c (list_stream ds) a k)"
proof (cases ds)
  case (Cons c ds')
  then have "suffix ds' cs" using assms(1) by (auto dest: suffix_ConsD)
  with assms(3) [OF Cons] Cons show ?thesis by simp
qed (use assms in \<open>auto intro: ends_syntax\<close>)

lemma ends_peek:
  assumes "suffix ds cs" "Q PARSER_SYNTAX_ERROR a []"
    and "\<And>c ds'. ds = c # ds' \<Longrightarrow> ends cs Q (k c)"
  shows "ends cs Q (peek_c (list_stream ds) a k)"
  by (cases ds) (use assms in \<open>auto intro: ends_syntax\<close>)

lemma ends_valid:
  assumes "ends ds R r" "suffix ds cs"
    and "\<And>a rest. suffix rest cs \<Longrightarrow> R PARSER_SYNTAX_ERROR a rest \<Longrightarrow> Q PARSER_SYNTAX_ERROR (h a) rest"
    and "\<And>a rest. suffix rest cs \<Longrightarrow> suffix rest ds \<Longrightarrow> R PARSER_SUCCESS a rest \<Longrightarrow> ends cs Q (k a (list_stream rest))"
  shows "ends cs Q (valid_parse r h k)"
proof -
  from assms(1) obtain ps a rest where r: "r = Some (ps, a, list_stream rest)" "suffix rest ds" "R ps a rest"
    "ps = PARSER_SUCCESS \<or> ps = PARSER_SYNTAX_ERROR" by (auto simp: ends_def)
  have s: "suffix rest cs" using r(2) assms(2) by (rule suffix_order.trans)
  from r(4) show ?thesis
  proof
    assume "ps = PARSER_SUCCESS"
    with assms(4) [OF s r(2)] r show ?thesis by simp
  next
    assume "ps = PARSER_SYNTAX_ERROR"
    with assms(3) [OF s] r s show ?thesis by (auto intro: ends_syntax)
  qed
qed

lemma suffix_trimmed: "suffix ds cs \<Longrightarrow> suffix (dropWhile is_ws ds) cs"
  by (meson suffix_dropWhile suffix_order.trans)

lemma ends_expect:
  "suffix ds cs \<Longrightarrow> es \<noteq> [] \<Longrightarrow>
   ends cs (\<lambda>ps _ rest. ps = PARSER_SUCCESS \<longrightarrow> length rest < length ds) (expect_cstr (list_stream ds) es)"
proof (induction es arbitrary: ds)
  case (Cons e es)
  show ?case unfolding expect_cstr.simps
  proof (rule ends_next [OF Cons.prems(1)])
    fix c ds' assume d: "ds = c # ds'" "suffix ds' cs"
    show "ends cs (\<lambda>ps _ rest. ps = PARSER_SUCCESS \<longrightarrow> length rest < length ds)
        (if e \<noteq> c then Some (PARSER_SYNTAX_ERROR, (), list_stream ds') else expect_cstr (list_stream ds') es)"
    proof (cases "es = []")
      case True
      with d show ?thesis by (auto intro!: ends)
    next
      case False
      with Cons.IH [OF d(2)] d show ?thesis by (auto intro!: ends elim!: ends_weaken)
    qed
  qed simp
qed simp

lemma ends_hex:
  "suffix ds cs \<Longrightarrow> length hs + i = 4 \<Longrightarrow>
   ends cs (\<lambda>ps hs _. ps = PARSER_SUCCESS \<longrightarrow> length hs = 4) (hex_loop (list_stream ds) i hs)"
proof (induction i arbitrary: ds hs)
  case (Suc i)
  show ?case unfolding hex_loop.simps
    by (rule ends_next [OF Suc.prems(1)]) (use Suc in \<open>auto intro!: ends\<close>)
qed (auto intro!: ends)

lemma ends_unicode: "suffix ds cs \<Longrightarrow> ends cs (\<lambda>_ _ _. True) (unicode_suffix (list_stream ds) b)"
  unfolding unicode_suffix_def
  by (rule ends_valid [OF ends_hex [OF suffix_order.refl]])
    (auto simp: unicode_from_cstr_def utf8_written puts_string intro!: ends)

lemma ends_control: "suffix ds cs \<Longrightarrow> ends cs (\<lambda>_ _ _. True) (expect_control_suffix (list_stream ds) b)"
  unfolding expect_control_suffix_def by (rule ends_next) (auto intro!: ends ends_unicode)

lemma ends_string_loop:
  "suffix ds cs \<Longrightarrow> ends cs (\<lambda>_ _ _. True) (string_loop (list_stream ds) b)"
proof (induction "length ds" arbitrary: ds b rule: less_induct)
  case less
  show ?case
  proof (subst string_loop.simps, rule ends_next [OF less.prems])
    fix c ds' assume d: "ds = c # ds'" "suffix ds' cs"
    have loop: "ends cs (\<lambda>_ _ _. True) (string_loop (list_stream es) b')" if "suffix es ds'" for es b'
      using that d by (intro less.hyps) (auto dest: suffix_length_le intro: suffix_order.trans)
    have "ends cs (\<lambda>_ _ _. True) (Option.bind (expect_control_suffix (list_stream ds') b)
        (\<lambda>(ps, b, is). if ps \<noteq> PARSER_SUCCESS then Some (ps, b, is) else string_loop is b))"
      using ends_control [OF suffix_order.refl, of ds' b] loop d(2)
      by (auto simp: ends_def [of ds'] intro!: ends intro: suffix_order.trans)
    with loop [of ds'] d(2) show "ends cs (\<lambda>_ _ _. True)
        (if c < 0x20 then Some (PARSER_SYNTAX_ERROR, b, list_stream ds')
         else if c = 0x22 then Some (PARSER_SUCCESS, b, list_stream ds')
         else if c = 0x5C then
           Option.bind (expect_control_suffix (list_stream ds') b) (\<lambda>(ps, b, is).
             if ps \<noteq> PARSER_SUCCESS then Some (ps, b, is) else string_loop is b)
         else string_loop (list_stream ds') (b @ [c]))"
      by (auto intro!: ends)
  qed simp
qed

text \<open>The first quotation mark is consumed on a success.\<close>

lemma ends_string_body:
  "suffix ds cs \<Longrightarrow>
   ends cs (\<lambda>ps _ rest. ps = PARSER_SUCCESS \<longrightarrow> length rest < length ds) (string_body (list_stream ds) b)"
  unfolding string_body_def
proof (rule ends_next)
  fix c ds' assume d: "ds = c # ds'" "suffix ds' cs"
  have "ends cs (\<lambda>ps _ rest. ps = PARSER_SUCCESS \<longrightarrow> length rest < length ds) (string_loop (list_stream ds') b)"
    by (rule ends_weaken [OF ends_string_loop [OF suffix_order.refl] d(2)])
      (use d in \<open>auto dest: suffix_length_le\<close>)
  with d show "ends cs (\<lambda>ps _ rest. ps = PARSER_SUCCESS \<longrightarrow> length rest < length ds)
      (if c \<noteq> 0x22 then Some (PARSER_SYNTAX_ERROR, b, list_stream ds') else string_loop (list_stream ds') b)"
    by (auto intro!: ends)
qed auto

section \<open>What a parser of values keeps\<close>

text \<open>A success comes with a value and consumes a character; nothing that is still live is freed.\<close>

definition value_end :: "byte list \<Rightarrow> parser_state_t \<Rightarrow> json_t option \<times> int \<Rightarrow> byte list \<Rightarrow> bool" where
  "value_end cs ps r rest \<longleftrightarrow>
     (case r of (j, live) \<Rightarrow>
        if ps = PARSER_SUCCESS then \<exists>v. j = Some v \<and> int (delete_json v) \<le> live \<and> length rest < length cs
        else j = None \<and> 0 \<le> live)"

definition parses_below :: "nat \<Rightarrow> (byte list in_stream_t \<Rightarrow> byte list json_parsed) \<Rightarrow> bool" where
  "parses_below m json \<longleftrightarrow> (\<forall>cs. length cs < m \<longrightarrow> ends cs (value_end cs) (json (list_stream cs)))"

lemma ends_json_string: "ends cs (value_end cs) (json_string_from_in_stream_no_trim (list_stream cs))"
  unfolding json_string_from_in_stream_no_trim_def string_from_in_stream_no_trim_def
  by (rule ends_valid [OF ends_valid [OF ends_string_body [OF suffix_order.refl], where cs = cs and
      Q = "\<lambda>ps r rest. ps = PARSER_SUCCESS \<longrightarrow> r \<noteq> None \<and> length rest < length cs"]])
    (auto simp: value_end_def new_json_string_def intro!: ends)

lemma ends_number_loop:
  "ends ds (\<lambda>ps buf' rest. ps = PARSER_SUCCESS \<and> (length rest < length ds \<or> buf' = buf)) (number_loop (list_stream ds) n buf)"
proof (induction n arbitrary: ds buf)
  case (Suc n)
  show ?case
  proof (cases ds)
    case (Cons c ds')
    have "ends ds (\<lambda>ps buf' rest. ps = PARSER_SUCCESS \<and> (length rest < length ds \<or> buf' = buf))
        (number_loop (list_stream ds') n (buf @ [c]))"
      by (rule ends_weaken [OF Suc.IH]) (use Cons in \<open>auto intro: suffix_ConsI dest: suffix_length_le\<close>)
    with Cons show ?thesis by (auto intro!: ends)
  qed (auto intro!: ends)
qed (auto intro!: ends)

lemma ends_number: "ends cs (value_end cs) (json_number_from_stream_no_trim (list_stream cs))"
  unfolding json_number_from_stream_no_trim_def
  by (rule ends_valid [OF ends_number_loop suffix_order.refl])
    (auto simp: value_end_def new_json_number_def intro!: ends split: prod.split)

lemma trimmed_shorter:
  "dropWhile is_ws ds = c # ds' \<Longrightarrow> length (dropWhile is_ws ds') < length ds"
  using suffix_length_le [OF suffix_dropWhile [of is_ws ds]] suffix_length_le [OF suffix_dropWhile [of is_ws ds']]
  by simp

abbreviation list_end :: "parser_state_t \<Rightarrow> json_t list \<times> int \<Rightarrow> byte list \<Rightarrow> bool" where
  "list_end ps r rest \<equiv> int (delete_eles (fst r)) \<le> snd r"

lemma ends_list_element:
  assumes "parses_below m json" "length es < m" "suffix es cs" "int (delete_eles l) \<le> live"
    and "\<And>rest l' live'. suffix rest cs \<Longrightarrow> length rest < length es \<Longrightarrow> int (delete_eles l') \<le> live' \<Longrightarrow>
      ends cs list_end (k (list_stream rest) l' live')"
  shows "ends cs list_end (list_element json (list_stream es) l live k)"
  unfolding list_element_def
proof (rule ends_valid [OF _ assms(3)])
  show "ends es (value_end es) (json (list_stream es))" using assms(1,2) by (simp add: parses_below_def)
qed (use assms(4,5) in \<open>auto simp: value_end_def delete_eles_sum\<close>)

lemma ends_list_loop:
  assumes "parses_below m json"
  shows "suffix ds cs \<Longrightarrow> length ds < n \<Longrightarrow> length ds \<le> m \<Longrightarrow> int (delete_eles l) \<le> live \<Longrightarrow>
    ends cs list_end (list_loop json n (list_stream ds) l live)"
proof (induction n arbitrary: ds l live)
  case (Suc n)
  show ?case unfolding list_loop.simps list_trim
  proof (rule ends_next [OF suffix_trimmed [OF Suc.prems(1)]])
    fix c ds' assume d: "dropWhile is_ws ds = c # ds'" "suffix ds' cs"
    have "ends cs list_end (list_element json (list_stream (dropWhile is_ws ds')) l live
        (\<lambda>is l live. list_loop json n is l live))"
      by (rule ends_list_element [OF assms]) (use trimmed_shorter [OF d(1)] Suc suffix_trimmed [OF d(2)] in auto)
    with d(2) Suc.prems(4) show "ends cs list_end
        (if c = 0x5D then Some (PARSER_SUCCESS, (l, live), list_stream ds')
         else if c \<noteq> 0x2C then Some (PARSER_SYNTAX_ERROR, (l, live), list_stream ds')
         else trim (list_stream ds') (l, live)
           (\<lambda>is. list_element json is l live (\<lambda>is l live. list_loop json n is l live)))"
      by (auto intro!: ends)
  qed (use Suc.prems in auto)
qed simp

lemma ends_list_body:
  assumes "parses_below m json" "length cs \<le> n" "length cs \<le> m"
  shows "ends cs (\<lambda>ps r rest. list_end ps r rest \<and> (ps = PARSER_SUCCESS \<longrightarrow> length rest < length cs))
    (list_body json n (list_stream cs) [])"
  unfolding list_body_def
proof (rule ends_next [OF suffix_order.refl])
  let ?Q = "\<lambda>ps r rest. list_end ps r rest \<and> (ps = PARSER_SUCCESS \<longrightarrow> length rest < length cs)"
  fix c ds assume d: "cs = c # ds" "suffix ds cs"
  define es where "es = dropWhile is_ws ds"
  have es: "suffix es ds" unfolding es_def by (rule suffix_dropWhile)
  then have len: "length es < m" "length es < n" "length es < length cs"
    using assms d(1) suffix_length_le [OF es] by auto
  have "ends es list_end (list_element json (list_stream es) [] 0 (\<lambda>is l live. list_loop json n is l live))"
    by (rule ends_list_element [OF assms(1) len(1) suffix_order.refl])
      (use len in \<open>auto intro!: ends_list_loop [OF assms(1)]\<close>)
  then have "ends cs ?Q (list_element json (list_stream es) [] 0 (\<lambda>is l live. list_loop json n is l live))"
    by (rule ends_weaken) (use es d(2) len(3) in \<open>auto dest: suffix_length_le intro: suffix_order.trans\<close>)
  moreover have "ends cs ?Q (peek_c (list_stream es) ([], 0) (\<lambda>c.
      if c = 0x5D then consume_lah (list_stream es) ([], 0) (\<lambda>is. Some (PARSER_SUCCESS, ([], 0), is))
      else list_element json (list_stream es) [] 0 (\<lambda>is l live. list_loop json n is l live)))"
  proof (rule ends_peek)
    show "suffix es cs" using es d(2) by (rule suffix_order.trans)
    fix b es' assume "es = b # es'"
    with calculation len(3) \<open>suffix es cs\<close> show "ends cs ?Q
        (if b = 0x5D then consume_lah (list_stream es) ([], 0) (\<lambda>is. Some (PARSER_SUCCESS, ([], 0), is))
         else list_element json (list_stream es) [] 0 (\<lambda>is l live. list_loop json n is l live))"
      by (auto intro!: ends dest: suffix_ConsD)
  qed simp
  ultimately show "ends cs ?Q
      (if c \<noteq> 0x5B then Some (PARSER_SYNTAX_ERROR, ([], 0), list_stream ds)
       else trim (list_stream ds) ([], 0) (\<lambda>is. peek_c is ([], 0) (\<lambda>c.
         if c = 0x5D then consume_lah is ([], 0) (\<lambda>is. Some (PARSER_SUCCESS, ([], 0), is))
         else list_element json is [] 0 (\<lambda>is l live. list_loop json n is l live))))"
    using d(2) unfolding list_trim es_def [symmetric] by (auto intro!: ends)
qed simp

lemma ends_json_list:
  assumes "parses_below m json" "length cs \<le> n" "length cs \<le> m"
  shows "ends cs (value_end cs) (json_list_from_stream_no_trim json n (list_stream cs))"
  unfolding json_list_from_stream_no_trim_def new_json_list_def json_as_list.simps Option.bind.bind_lunit
  by (rule ends_valid [OF ends_list_body [OF assms] suffix_order.refl])
    (auto simp: value_end_def intro!: ends)

section \<open>Objects\<close>

abbreviation object_end :: "parser_state_t \<Rightarrow> json_kv list list \<times> int \<Rightarrow> byte list \<Rightarrow> bool" where
  "object_end ps r rest \<equiv> int (delete_chains (fst r)) \<le> snd r \<and> fst r \<noteq> []"

lemma ends_kvp_body:
  assumes "parses_below m json" "length es < m"
  shows "ends es (\<lambda>ps (k, v, d) rest. if ps = PARSER_SUCCESS
      then \<exists>w. v = Some w \<and> int (delete_json w) \<le> d \<and> length rest < length es else v = None \<and> 0 \<le> d)
    (kvp_body json (list_stream es) [])"
  unfolding kvp_body_def
proof (rule ends_valid [OF ends_string_body [OF suffix_order.refl] suffix_order.refl], simp)
  let ?Q = "\<lambda>ps (k, v, d) rest. if ps = PARSER_SUCCESS
      then \<exists>w. v = Some w \<and> int (delete_json w) \<le> d \<and> length rest < length es else v = None \<and> 0 \<le> d"
  fix k rest assume r: "suffix rest es" "PARSER_SUCCESS = PARSER_SUCCESS \<longrightarrow> length rest < length es"
  show "ends es ?Q (trim (list_stream rest) (k, None, 0) (\<lambda>is. next_c is (k, None, 0) (\<lambda>c is.
      if c \<noteq> 0x3A then Some (PARSER_SYNTAX_ERROR, (k, None, 0), is)
      else trim is (k, None, 0) (\<lambda>is. valid_parse (json is) (\<lambda>(_, d). (k, None, d)) (\<lambda>(val, d) is.
        Some (PARSER_SUCCESS, (k, val, d), is))))))"
    unfolding list_trim
  proof (rule ends_next [OF suffix_trimmed [OF r(1)]])
    fix c ds assume d: "dropWhile is_ws rest = c # ds" "suffix ds es"
    define fs where "fs = dropWhile is_ws ds"
    have fs: "suffix fs es" unfolding fs_def using d(2) by (rule suffix_trimmed)
    have len: "length fs < length es" using trimmed_shorter [OF d(1)] r(2) by (simp add: fs_def)
    have "ends es ?Q (valid_parse (json (list_stream fs)) (\<lambda>(_, d). (k, None, d)) (\<lambda>(val, d) is.
        Some (PARSER_SUCCESS, (k, val, d), is)))"
    proof (rule ends_valid [OF _ fs])
      show "ends fs (value_end fs) (json (list_stream fs))" using assms len by (simp add: parses_below_def)
    qed (use len in \<open>auto simp: value_end_def intro!: ends\<close>)
    with d(2) show "ends es ?Q (if c \<noteq> 0x3A then Some (PARSER_SYNTAX_ERROR, (k, None, 0), list_stream ds)
      else trim (list_stream ds) (k, None, 0) (\<lambda>is. valid_parse (json is) (\<lambda>(_, d). (k, None, d)) (\<lambda>(val, d) is.
        Some (PARSER_SUCCESS, (k, val, d), is))))"
      by (auto simp: fs_def intro!: ends)
  qed simp
qed

lemma ends_kvp:
  assumes "parses_below m json" "length es < m" "suffix es cs" "int (delete_chains hm) \<le> live" "hm \<noteq> []"
  shows "ends cs (\<lambda>ps r rest. object_end ps r rest \<and> (ps = PARSER_SUCCESS \<longrightarrow> length rest < length es))
    (json_kvp_from_stream_no_trim json (list_stream es) hm live)"
  unfolding json_kvp_from_stream_no_trim_def
proof (rule ends_valid [OF ends_kvp_body [OF assms(1,2)] assms(3)])
  fix a :: "byte list \<times> json_t option \<times> int" and rest
  obtain k v d where a: "a = (k, v, d)" by (cases a)
  assume r: "suffix rest cs" "(case a of (k, v, d) \<Rightarrow> \<lambda>rest. if PARSER_SUCCESS = PARSER_SUCCESS
      then \<exists>w. v = Some w \<and> int (delete_json w) \<le> d \<and> length rest < length es else v = None \<and> 0 \<le> d) rest" "suffix rest es"
  then obtain w where w: "v = Some w" "int (delete_json w) \<le> d" "length rest < length es" by (auto simp: a)
  have "int (delete_chains (object_put hm k w)) \<le> live + 1 + d"
    using delete_object_put [OF assms(5), of k w] assms(4) w(2) by linarith
  then show "ends cs (\<lambda>ps r rest. object_end ps r rest \<and> (ps = PARSER_SUCCESS \<longrightarrow> length rest < length es))
      ((case a of (k, v, d) \<Rightarrow> \<lambda>is. do { v \<leftarrow> v; Some (PARSER_SUCCESS, (object_put hm k v, live + 1 + d), is) })
        (list_stream rest))"
    using object_put_nodes(2) [OF assms(5), of k w] r(1) w(3) by (auto simp: a w(1) intro!: ends)
qed (use assms(4,5) in auto)

lemma ends_object_loop:
  assumes "parses_below m json"
  shows "suffix ds cs \<Longrightarrow> length ds < n \<Longrightarrow> length ds \<le> m \<Longrightarrow> int (delete_chains hm) \<le> live \<Longrightarrow> hm \<noteq> [] \<Longrightarrow>
    ends cs object_end (object_loop json n (list_stream ds) hm live)"
proof (induction n arbitrary: ds hm live)
  case (Suc n)
  show ?case unfolding object_loop.simps list_trim
  proof (rule ends_next [OF suffix_trimmed [OF Suc.prems(1)]])
    fix c ds' assume d: "dropWhile is_ws ds = c # ds'" "suffix ds' cs"
    define es where "es = dropWhile is_ws ds'"
    have es: "suffix es cs" unfolding es_def using d(2) by (rule suffix_trimmed)
    have len: "length es < length ds" unfolding es_def by (rule trimmed_shorter [OF d(1)])
    have "ends cs object_end (valid_parse (json_kvp_from_stream_no_trim json (list_stream es) hm live) (\<lambda>s. s)
        (\<lambda>(hm, live) is. object_loop json n is hm live))"
      by (rule ends_valid [OF ends_kvp [OF assms _ suffix_order.refl Suc.prems(4,5)] es])
        (use len Suc in \<open>auto\<close>)
    with d(2) Suc.prems(4,5) show "ends cs object_end
        (if c = 0x7D then Some (PARSER_SUCCESS, (hm, live), list_stream ds')
         else if c \<noteq> 0x2C then Some (PARSER_SYNTAX_ERROR, (hm, live), list_stream ds')
         else trim (list_stream ds') (hm, live) (\<lambda>is.
           valid_parse (json_kvp_from_stream_no_trim json is hm live) (\<lambda>s. s) (\<lambda>(hm, live) is.
             object_loop json n is hm live)))"
      by (auto simp flip: es_def intro!: ends)
  qed (use Suc.prems in auto)
qed simp

lemma ends_object_body:
  assumes "parses_below m json" "length cs \<le> n" "length cs \<le> m" "delete_chains hm = 0" "hm \<noteq> []"
  shows "ends cs (\<lambda>ps r rest. object_end ps r rest \<and> (ps = PARSER_SUCCESS \<longrightarrow> length rest < length cs))
    (object_body json n (list_stream cs) hm)"
  unfolding object_body_def
proof (rule ends_next [OF suffix_order.refl])
  let ?Q = "\<lambda>ps r rest. object_end ps r rest \<and> (ps = PARSER_SUCCESS \<longrightarrow> length rest < length cs)"
  let ?kvp = "\<lambda>is. valid_parse (json_kvp_from_stream_no_trim json is hm 0) (\<lambda>s. s) (\<lambda>(hm, live) is. object_loop json n is hm live)"
  fix c ds assume d: "cs = c # ds" "suffix ds cs"
  define es where "es = dropWhile is_ws ds"
  have es: "suffix es ds" unfolding es_def by (rule suffix_dropWhile)
  then have len: "length es < m" "length es < n" "length es < length cs"
    using assms d(1) suffix_length_le [OF es] by auto
  have "ends es object_end (?kvp (list_stream es))"
    by (rule ends_valid [OF ends_kvp [OF assms(1) len(1) suffix_order.refl _ assms(5)] suffix_order.refl])
      (use len assms(4) in \<open>auto intro!: ends_object_loop [OF assms(1)]\<close>)
  then have kvp: "ends cs ?Q (?kvp (list_stream es))"
    by (rule ends_weaken) (use es d(2) len(3) in \<open>auto dest: suffix_length_le intro: suffix_order.trans\<close>)
  have "ends cs ?Q (peek_c (list_stream es) (hm, 0) (\<lambda>c.
      if c = 0x7D then consume_lah (list_stream es) (hm, 0) (\<lambda>is. Some (PARSER_SUCCESS, (hm, 0), is))
      else ?kvp (list_stream es)))"
  proof (rule ends_peek)
    show "suffix es cs" using es d(2) by (rule suffix_order.trans)
    fix b es' assume "es = b # es'"
    with kvp len(3) \<open>suffix es cs\<close> assms(4,5) show "ends cs ?Q
        (if b = 0x7D then consume_lah (list_stream es) (hm, 0) (\<lambda>is. Some (PARSER_SUCCESS, (hm, 0), is))
         else ?kvp (list_stream es))"
      by (auto intro!: ends dest: suffix_ConsD)
  qed (use assms(4,5) in simp)
  with d(2) assms(4,5) show "ends cs ?Q
      (if c \<noteq> 0x7B then Some (PARSER_SYNTAX_ERROR, (hm, 0), list_stream ds)
       else trim (list_stream ds) (hm, 0) (\<lambda>is. peek_c is (hm, 0) (\<lambda>c.
         if c = 0x7D then consume_lah is (hm, 0) (\<lambda>is. Some (PARSER_SUCCESS, (hm, 0), is))
         else ?kvp is)))"
    unfolding list_trim es_def [symmetric] by (auto intro!: ends)
qed (use assms(4,5) in simp)

lemma ends_json_object:
  assumes "parses_below m json" "length cs \<le> n" "length cs \<le> m"
  shows "ends cs (value_end cs) (json_object_from_stream_no_trim json n (list_stream cs))"
  unfolding json_object_from_stream_no_trim_def new_object json_as_object.simps Option.bind.bind_lunit
  by (rule ends_valid [OF ends_object_body [OF assms] suffix_order.refl])
    (auto simp: value_end_def delete_chains_sum intro!: ends)

section \<open>Values\<close>

lemma ends_json: "parses_below n (json_from_in_stream_no_trim n)"
proof (induction n)
  case (Suc n)
  show ?case unfolding parses_below_def
  proof (intro allI impI)
    fix cs :: "byte list" assume len: "length cs < Suc n"
    show "ends cs (value_end cs) (json_from_in_stream_no_trim (Suc n) (list_stream cs))"
    proof (cases cs)
      case (Cons c cs')
      have l: "length cs \<le> n" using len by auto
      note ends_json_object [OF Suc l l] ends_json_list [OF Suc l l] ends_json_string [of cs] ends_number [of cs]
      moreover have lit: "ends cs (value_end cs) (valid_parse (expect_cstr (list_stream cs) (e # es)) (\<lambda>_. (None, 0))
          (\<lambda>_ is. Some (PARSER_SUCCESS, (Some v, int (delete_json v)), is)))" for e es v
        by (rule ends_valid [OF ends_expect [OF suffix_order.refl] suffix_order.refl])
          (auto simp: value_end_def intro!: ends)
      note lit [where e = "0x66" and es = "[0x61, 0x6C, 0x73, 0x65]" and v = "JBoolean False"]
        lit [where e = "0x74" and es = "[0x72, 0x75, 0x65]" and v = "JBoolean True"]
        lit [where e = "0x6E" and es = "[0x75, 0x6C, 0x6C]" and v = JNull]
      ultimately show ?thesis
        using Cons by (auto simp: new_json_boolean_def json_null_def simp del: expect_cstr.simps)
    qed (auto simp: value_end_def intro!: ends)
  qed
qed (simp add: parses_below_def)

section \<open>Every stream is as good as a list\<close>

named_theorems agrees

context in_stream begin

text \<open>Two runs, one on a stream and one on the list of its characters, that end alike.\<close>

definition same_end :: "('a, 's) parsed \<Rightarrow> ('a, byte list) parsed \<Rightarrow> bool" where
  "same_end r r' \<longleftrightarrow> r = None \<and> r' = None \<or>
     (\<exists>ps a is cs. r = Some (ps, a, is) \<and> r' = Some (ps, a, list_stream cs) \<and> at is cs)"

lemma same_end_Some [agrees]: "at is cs \<Longrightarrow> same_end (Some (ps, a, is)) (Some (ps, a, list_stream cs))"
  by (auto simp: same_end_def)

lemma same_end_if [agrees]: "(b \<Longrightarrow> same_end r r') \<Longrightarrow> (\<not> b \<Longrightarrow> same_end s s') \<Longrightarrow> same_end (if b then r else s) (if b then r' else s')"
  by simp

lemma same_end_bind [agrees]: "(\<And>x. same_end (k x) (k' x)) \<Longrightarrow> same_end (Option.bind x k) (Option.bind x k')"
  by (cases x) (auto simp: same_end_def)

lemma same_end_prod [agrees]:
  "(\<And>a b. same_end (k a b is) (k' a b is')) \<Longrightarrow>
   same_end ((case p of (a, b) \<Rightarrow> k a b) is) ((case p of (a, b) \<Rightarrow> k' a b) is')"
  by (cases p) simp

lemma peek_end:
  "at is [] \<Longrightarrow> is_peek_char is True = (STREAM_EMPTY, None)"
  "at is (c # cs) \<Longrightarrow> is_peek_char is True = (STREAM_SUCCESS, Some c)"
  using peek_nil [of "is_data is" True] peek_cons [of "is_data is" c cs True]
  by (auto simp: stands_def is_peek_char_def)

lemma next_end:
  "at is [] \<Longrightarrow> is_next_char is out = (STREAM_EMPTY, None, is)"
  "at is (c # cs) \<Longrightarrow> \<exists>is'. at is' cs \<and> is_next_char is out = (STREAM_SUCCESS, if out then Some c else None, is')"
proof -
  show "at is [] \<Longrightarrow> is_next_char is out = (STREAM_EMPTY, None, is)"
    using next_nil [of "is_data is" out] by (simp add: stands_def is_next_char_def)
  assume "at is (c # cs)"
  moreover from this next_cons [of "is_data is" c cs out] obtain d where
    "i_next_char impl (is_data is) out = (STREAM_SUCCESS, if out then Some c else None, d)" "inv d" "rest d = cs"
    by (auto simp: stands_def)
  ultimately show "\<exists>is'. at is' cs \<and> is_next_char is out = (STREAM_SUCCESS, if out then Some c else None, is')"
    by (intro exI [of _ "is\<lparr>is_data := d\<rparr>"]) (simp add: stands_def is_next_char_def)
qed

lemma same_end_next [agrees]:
  assumes "at is cs" "\<And>c is' cs'. at is' cs' \<Longrightarrow> same_end (k c is') (k' c (list_stream cs'))"
  shows "same_end (next_c is a k) (next_c (list_stream cs) a k')"
proof (cases cs)
  case Nil
  with next_end(1) [of "is" True] assms(1) show ?thesis by (auto simp: next_c_def [of "is"] same_end_def)
next
  case (Cons c cs')
  obtain is' where "at is' cs'" "is_next_char is True = (STREAM_SUCCESS, Some c, is')"
    using next_end(2) [of "is" c cs' True] assms(1) Cons by auto
  with Cons assms(2) show ?thesis by (simp add: next_c_def [of "is"])
qed

lemma same_end_peek [agrees]:
  assumes "at is cs" "\<And>c. same_end (k c) (k' c)"
  shows "same_end (peek_c is a k) (peek_c (list_stream cs) a k')"
  using assms peek_end [of "is"] by (cases cs) (auto simp: peek_c_def [of "is"] same_end_Some)

lemma same_end_consume [agrees]:
  assumes "at is cs" "\<And>is' cs'. at is' cs' \<Longrightarrow> same_end (k is') (k' (list_stream cs'))"
  shows "same_end (consume_lah is a k) (consume_lah (list_stream cs) a k')"
proof (cases cs)
  case Nil
  with next_end(1) [of "is" False] assms(1) show ?thesis
    by (auto simp: consume_lah_def [of "is"] same_end_def)
next
  case (Cons c cs')
  obtain is' where "at is' cs'" "is_next_char is False = (STREAM_SUCCESS, None, is')"
    using next_end(2) [of "is" c cs' False] assms(1) Cons by auto
  with Cons assms(2) show ?thesis by (simp add: consume_lah_def [of "is"])
qed

lemma same_end_valid [agrees]:
  assumes "same_end r r'" "\<And>a is cs. at is cs \<Longrightarrow> same_end (k a is) (k' a (list_stream cs))"
  shows "same_end (valid_parse r h k) (valid_parse r' h k')"
  using assms(1) unfolding same_end_def
proof (elim disjE exE conjE)
  fix ps a "is" cs
  assume "r = Some (ps, a, is)" "r' = Some (ps, a, list_stream cs)" "at is cs"
  with assms(2) show "valid_parse r h k = None \<and> valid_parse r' h k' = None \<or>
      (\<exists>ps a is cs. valid_parse r h k = Some (ps, a, is) \<and> valid_parse r' h k' = Some (ps, a, list_stream cs) \<and> at is cs)"
    by (cases "ps = PARSER_SUCCESS") (auto simp: same_end_def)
qed (simp add: valid_parse_def)

lemma same_end_trim_ws [agrees]: "at is cs \<Longrightarrow> same_end (trim_ws is) (trim_ws (list_stream cs))"
proof (induction cs arbitrary: "is")
  case Nil
  with peek_end(1) show ?case by (simp add: trim_ws.simps [of "is"] list_trim_ws agrees)
next
  case (Cons c cs)
  obtain is' where "at is' cs" "is_next_char is False = (STREAM_SUCCESS, None, is')"
    using next_end(2) [OF Cons.prems, of False] by auto
  with peek_end(2) [OF Cons.prems] Cons show ?case
    by (subst (1 2) trim_ws.simps) (simp add: consume_lah_def [of "is"] agrees)
qed

lemma same_end_trim [agrees]:
  "at is cs \<Longrightarrow> (\<And>is cs. at is cs \<Longrightarrow> same_end (k is) (k' (list_stream cs))) \<Longrightarrow>
   same_end (trim is a k) (trim (list_stream cs) a k')"
  unfolding trim_def by (intro agrees)

lemma same_end_expect [agrees]: "at is cs \<Longrightarrow> same_end (expect_cstr is es) (expect_cstr (list_stream cs) es)"
  by (induction es arbitrary: "is" cs) (auto intro!: agrees)

lemma same_end_hex [agrees]: "at is cs \<Longrightarrow> same_end (hex_loop is i hs) (hex_loop (list_stream cs) i hs)"
  by (induction i arbitrary: "is" cs hs) (auto intro!: agrees)

lemma same_end_control [agrees]:
  "at is cs \<Longrightarrow> same_end (expect_control_suffix is b) (expect_control_suffix (list_stream cs) b)"
  unfolding expect_control_suffix_def unicode_suffix_def
  by (intro agrees) (auto intro!: agrees split: prod.split)

lemma same_end_string_loop [agrees]: "at is cs \<Longrightarrow> same_end (string_loop is b) (string_loop (list_stream cs) b)"
proof (induction "length cs" arbitrary: "is" cs b rule: less_induct)
  case less
  show ?case
  proof (cases cs)
    case Nil
    with next_end(1) less.prems show ?thesis
      by (subst (1 2) string_loop.simps) (auto simp: next_c_def [of "is"] intro!: agrees)
  next
    case (Cons c cs')
    obtain is' where is': "at is' cs'" "is_next_char is True = (STREAM_SUCCESS, Some c, is')"
      using next_end(2) [of "is" c cs' True] less.prems Cons by auto
    have loop: "same_end (string_loop is2 b2) (string_loop (list_stream cs2) b2)"
      if "at is2 cs2" "suffix cs2 cs'" for is2 cs2 b2
      using less.hyps [OF _ that(1)] suffix_length_le [OF that(2)] Cons by simp
    have "same_end (Option.bind (expect_control_suffix is' b) (\<lambda>(ps, b, is).
          if ps \<noteq> PARSER_SUCCESS then Some (ps, b, is) else string_loop is b))
        (Option.bind (expect_control_suffix (list_stream cs') b) (\<lambda>(ps, b, is).
          if ps \<noteq> PARSER_SUCCESS then Some (ps, b, is) else string_loop is b))"
      using same_end_control [OF is'(1), of b] ends_control [OF suffix_order.refl, of cs' b] loop
      unfolding same_end_def [of "expect_control_suffix _ _"] ends_def by (auto intro!: agrees)
    with loop [OF is'(1)] show ?thesis unfolding Cons
      by (subst (1 2) string_loop.simps) (auto simp: next_c_def [of "is"] is' intro!: agrees)
  qed
qed

lemma same_end_number_loop [agrees]: "at is cs \<Longrightarrow> same_end (number_loop is n buf) (number_loop (list_stream cs) n buf)"
proof (induction n arbitrary: "is" cs buf)
  case (Suc n)
  show ?case
  proof (cases cs)
    case Nil
    with Suc.prems peek_end(1) [of "is"] show ?thesis by (simp add: agrees)
  next
    case (Cons c cs')
    then obtain is' where "at is' cs'" "is_next_char is False = (STREAM_SUCCESS, None, is')"
      using next_end(2) [of "is" c cs' False] Suc.prems by auto
    with Cons Suc.prems peek_end(2) [of "is" c cs'] Suc.IH [of is' cs'] show ?thesis
      by (simp add: agrees consume_lah_def [of "is"])
  qed
qed (auto intro!: agrees)

text \<open>A parser of values that does not tell them apart.\<close>

definition blind :: "('s in_stream_t \<Rightarrow> 's json_parsed) \<Rightarrow> (byte list in_stream_t \<Rightarrow> byte list json_parsed) \<Rightarrow> bool" where
  "blind json json' \<longleftrightarrow> (\<forall>is cs. at is cs \<longrightarrow> same_end (json is) (json' (list_stream cs)))"

lemma blind_at: "blind json json' \<Longrightarrow> at is cs \<Longrightarrow> same_end (json is) (json' (list_stream cs))"
  by (simp add: blind_def)

lemma same_end_list_loop [agrees]:
  "blind json json' \<Longrightarrow> at is cs \<Longrightarrow> same_end (list_loop json n is l live) (list_loop json' n (list_stream cs) l live)"
proof (induction n arbitrary: "is" cs l live)
  case (Suc n)
  then show ?case unfolding list_loop.simps list_element_def by (intro agrees blind_at [of json json'])
qed (simp add: same_end_def)

lemma same_end_json_list [agrees]:
  "blind json json' \<Longrightarrow> at is cs \<Longrightarrow>
   same_end (json_list_from_stream_no_trim json n is) (json_list_from_stream_no_trim json' n (list_stream cs))"
  unfolding json_list_from_stream_no_trim_def list_body_def list_element_def by (intro agrees blind_at [of json json'])

lemma same_end_kvp [agrees]:
  "blind json json' \<Longrightarrow> at is cs \<Longrightarrow>
   same_end (json_kvp_from_stream_no_trim json is hm live) (json_kvp_from_stream_no_trim json' (list_stream cs) hm live)"
  unfolding json_kvp_from_stream_no_trim_def kvp_body_def string_body_def by (intro agrees blind_at [of json json'])

lemma same_end_object_loop [agrees]:
  "blind json json' \<Longrightarrow> at is cs \<Longrightarrow> same_end (object_loop json n is hm live) (object_loop json' n (list_stream cs) hm live)"
proof (induction n arbitrary: "is" cs hm live)
  case (Suc n)
  then show ?case unfolding object_loop.simps by (intro agrees)
qed (simp add: same_end_def)

lemma same_end_json_object [agrees]:
  "blind json json' \<Longrightarrow> at is cs \<Longrightarrow>
   same_end (json_object_from_stream_no_trim json n is) (json_object_from_stream_no_trim json' n (list_stream cs))"
  unfolding json_object_from_stream_no_trim_def object_body_def by (intro agrees)

lemma same_end_json_string [agrees]:
  "at is cs \<Longrightarrow> same_end (json_string_from_in_stream_no_trim is) (json_string_from_in_stream_no_trim (list_stream cs))"
  unfolding json_string_from_in_stream_no_trim_def string_from_in_stream_no_trim_def string_body_def by (intro agrees)

lemma same_end_number [agrees]:
  "at is cs \<Longrightarrow> same_end (json_number_from_stream_no_trim is) (json_number_from_stream_no_trim (list_stream cs))"
  unfolding json_number_from_stream_no_trim_def
  by (rule same_end_valid, erule same_end_number_loop) (auto intro!: agrees split: prod.split)

lemma blind_json: "blind (json_from_in_stream_no_trim n) (json_from_in_stream_no_trim n)"
proof (induction n)
  case (Suc n)
  show ?case unfolding blind_def
  proof (intro allI impI)
    fix "is" cs assume "at is cs"
    then show "same_end (json_from_in_stream_no_trim (Suc n) is) (json_from_in_stream_no_trim (Suc n) (list_stream cs))"
      unfolding json_from_in_stream_no_trim.simps by (intro agrees Suc)
  qed
qed (simp add: blind_def same_end_def)

lemma parser_blind: "at is cs \<Longrightarrow> same_end (json_from_in_stream n is) (json_from_in_stream n (list_stream cs))"
  unfolding json_from_in_stream_def by (intro agrees blind_at [OF blind_json])

end

end
