(* ===== verification/Chjson_Integer.thy ===== *)
theory Chjson_Integer
  imports Chjson_Number
begin

text \<open>
  Integers of at most fifteen digits are printed by \<open>%.15g\<close> as their decimal digits, and \<open>strtod\<close> reads
  these back as the same double.
\<close>

section \<open>Digits\<close>

lemma num_digits_bounds:
  assumes "2 \<le> b" "0 < n"
  shows "b ^ (num_digits b n - 1) \<le> n \<and> n < b ^ num_digits b n \<and> 0 < num_digits b n"
  using assms
proof (induction b n rule: num_digits.induct)
  case (1 b n)
  show ?case
  proof (cases "n div b = 0")
    case True
    then have "n < b" using 1(2) by (simp add: div_eq_0_iff)
    then have "num_digits b n = 1" using 1 True by (simp add: num_digits.simps [of b n] num_digits.simps [of b 0])
    with \<open>n < b\<close> 1(3) show ?thesis by simp
  next
    case False
    let ?d = "num_digits b (n div b)"
    have ih: "b ^ (?d - 1) \<le> n div b" "n div b < b ^ ?d" "0 < ?d" using 1 False by auto
    have d: "num_digits b n = Suc ?d" using 1(2,3) by (simp add: num_digits.simps [of b n])
    have "b * b ^ (?d - 1) \<le> b * (n div b)" using ih(1) by (rule mult_le_mono2)
    also have "\<dots> \<le> n" by simp
    finally have "b ^ ?d \<le> n" using ih(3) by (simp add: power_eq_if)
    moreover have "n < b * Suc (n div b)" using 1(2) by (metis dividend_less_div_times mult.commute mult_Suc_right add.commute zero_less_numeral less_le_trans)
    then have "n < b * b ^ ?d" using ih(2) by (metis Suc_leI less_le_trans mult_le_mono2)
    ultimately show ?thesis unfolding d by simp
  qed
qed

lemma digits_of_append: "digits_of (i + j) (n * 10 ^ j) = digits_of i n @ replicate j 0x30"
proof (induction j)
  case (Suc j)
  have "n * 10 ^ Suc j div 10 = n * 10 ^ j" "n * 10 ^ Suc j mod 10 = 0" by simp_all
  with Suc show ?case by (simp add: replicate_append_same [symmetric] del: power_Suc)
qed simp

lemma length_digits_of [simp]: "length (digits_of k n) = k"
  by (induction k arbitrary: n) simp_all

lemma digit_char:
  fixes n :: nat assumes "n < 10"
  shows "is_digit (0x30 + of_nat n)" "unat ((0x30 + of_nat n :: 8 word) - 0x30) = n"
proof -
  have "unat (of_nat n :: 8 word) = n" using assms by (simp add: unat_of_nat take_bit_eq_mod)
  then show "unat ((0x30 + of_nat n :: 8 word) - 0x30) = n" by simp
  have "n \<in> {0, 1, 2, 3, 4, 5, 6, 7, 8, 9}" using assms by auto
  then show "is_digit (0x30 + of_nat n)" by (auto simp: is_digit_def)
qed

lemma digits_of_digits: "\<forall>c \<in> set (digits_of k n). is_digit c"
  by (induction k arbitrary: n) (auto intro: digit_char)

lemma digits_value_snoc: "digits_value (cs @ [c]) = 10 * digits_value cs + unat (c - 0x30)"
  by (simp add: digits_value_def)

lemma digits_value_digits_of: "n < 10 ^ k \<Longrightarrow> digits_value (digits_of k n) = n"
proof (induction k arbitrary: n)
  case (Suc k)
  then have "n div 10 < 10 ^ k" by (simp add: div_less_iff_less_mult mult.commute)
  with Suc.IH show ?case
    using digit_char(2) [of "n mod 10"] by (simp add: digits_value_snoc)
qed (simp add: digits_value_def)

section \<open>Doubles that are integers\<close>

lemma round_div_exact: "0 < d \<Longrightarrow> round_div (n * d) d = n"
  by (simp add: round_div_def)

text \<open>The double of an integer below $2^{53}$.\<close>

lemma nearest_integer:
  assumes "0 < k" "k < 2 ^ 53"
  shows "nearest_double s k 1 = DFin s (k * 2 ^ (53 - num_digits 2 k)) (int (num_digits 2 k) - 53)"
    and "num_digits 2 k \<le> 53"
proof -
  let ?b = "num_digits 2 k"
  have b: "2 ^ (?b - 1) \<le> k" "k < 2 ^ ?b" "0 < ?b" using num_digits_bounds [of 2 k] assms(1) by auto
  have "(2::nat) ^ (?b - 1) < 2 ^ 53" using b(1) assms(2) by linarith
  then have "?b - 1 < 53" by (rule power_less_imp_less_exp [rotated]) simp
  then show le: "?b \<le> 53" by simp
  have one: "num_digits 2 1 = 1" by (simp add: num_digits.simps)
  have "(2::nat) ^ 52 = 2 ^ (?b - 1) * 2 ^ (53 - ?b)" using b(3) le by (simp flip: power_add)
  also have "\<dots> \<le> k * 2 ^ (53 - ?b)" using b(1) by simp
  finally have low: "2 ^ 52 \<le> k * 2 ^ (53 - ?b)" .
  have "k * 2 ^ (53 - ?b) < 2 ^ ?b * 2 ^ (53 - ?b)" using b(2) by simp
  also have "\<dots> = 2 ^ 53" using le by (simp flip: power_add)
  finally have high: "k * 2 ^ (53 - ?b) < 2 ^ 53" .
  have "nat (- (int ?b - 1 - 53)) = Suc (53 - ?b)" using le by simp
  then have q0: "\<not> scale_num 2 k (int ?b - 1 - 53) < 2 ^ 53 * scale_den 2 1 (int ?b - 1 - 53)"
    using low le by (simp add: scale_num_def scale_den_def)
  have q: "max (int ?b - 1 - 53 + 1) (- 1074) = int ?b - 53" by simp
  have "nat (- (int ?b - 53)) = 53 - ?b" "nat (int ?b - 53) = 0" using le by simp_all
  then have "round_div (scale_num 2 k (int ?b - 53)) (scale_den 2 1 (int ?b - 53)) = k * 2 ^ (53 - ?b)"
    using round_div_exact [of 1] by (simp add: scale_num_def scale_den_def)
  moreover have "k * 2 ^ (53 - ?b) \<noteq> 2 ^ 53" "k * 2 ^ (53 - ?b) \<noteq> 0" using high assms(1) by auto
  moreover have "\<not> 971 < int ?b - 53" using le by simp
  ultimately show "nearest_double s k 1 = DFin s (k * 2 ^ (53 - ?b)) (int ?b - 53)"
    using q0 q unfolding nearest_double_def Let_def one of_nat_1 by (simp only: if_False)
qed

text \<open>Fifteen digits of an integer that is given as a quotient.\<close>

lemma decimal15_integer:
  assumes "0 < k" "k < 10 ^ 15"
  shows "decimal15 (k * 2 ^ t) (2 ^ t) = (k * 10 ^ (15 - num_digits 10 k), int (num_digits 10 k) - 1)"
    and "num_digits 10 k \<le> 15"
proof -
  let ?D = "num_digits 10 k" and ?n = "num_digits 10 (k * 2 ^ t)" and ?d = "num_digits 10 (2 ^ t)"
  have D: "10 ^ (?D - 1) \<le> k" "k < 10 ^ ?D" "0 < ?D" using num_digits_bounds [of 10 k] assms(1) by auto
  have "(10::nat) ^ (?D - 1) < 10 ^ 15" using D(1) assms(2) by linarith
  then have "?D - 1 < 15" by (rule power_less_imp_less_exp [rotated]) simp
  then show le: "?D \<le> 15" by simp
  have n: "10 ^ (?n - 1) \<le> k * 2 ^ t" "k * 2 ^ t < 10 ^ ?n" "0 < ?n"
    using num_digits_bounds [of 10 "k * 2 ^ t"] assms(1) by auto
  have d: "10 ^ (?d - 1) \<le> (2 :: nat) ^ t" "2 ^ t < (10 :: nat) ^ ?d" "0 < ?d"
    using num_digits_bounds [of 10 "2 ^ t"] by auto
  have "10 ^ (?D - 1) * 10 ^ (?d - 1) \<le> k * 2 ^ t" using D(1) d(1) by (rule mult_le_mono)
  then have "(10 :: nat) ^ (?D - 1 + (?d - 1)) < 10 ^ ?n" using n(2) by (simp add: power_add)
  then have "?D - 1 + (?d - 1) < ?n" by (rule power_less_imp_less_exp [rotated]) simp
  then have a: "?D + ?d < ?n + 2" using D(3) d(3) by simp
  have "k * 2 ^ t < 10 ^ ?D * 10 ^ ?d" using D(2) d(2) by (intro mult_strict_mono) auto
  then have "(10 :: nat) ^ (?n - 1) < 10 ^ (?D + ?d)" using n(1) by (simp add: power_add)
  then have "?n - 1 < ?D + ?d" by (rule power_less_imp_less_exp [rotated]) simp
  then have b: "?n \<le> ?D + ?d" by simp
  have cases: "?n = ?D + ?d \<or> ?n + 1 = ?D + ?d" using a b by linarith
  let ?x0 = "int ?n - int ?d"
  have x: "(if scale_num 10 (k * 2 ^ t) ?x0 \<ge> scale_den 10 (2 ^ t) ?x0 then ?x0 else ?x0 - 1) = int ?D - 1"
    using cases
  proof
    assume e: "?n = ?D + ?d"
    then have "?x0 = int ?D" by simp
    moreover have "\<not> scale_num 10 (k * 2 ^ t) (int ?D) \<ge> scale_den 10 (2 ^ t) (int ?D)"
      using D(2) by (simp add: scale_num_def scale_den_def)
    ultimately show ?thesis by simp
  next
    assume e: "?n + 1 = ?D + ?d"
    then have x0: "?x0 = int ?D - 1" by simp
    have "nat (int ?D - 1) = ?D - 1" "nat (- (int ?D - 1)) = 0" using D(3) by simp_all
    then have "scale_num 10 (k * 2 ^ t) (int ?D - 1) \<ge> scale_den 10 (2 ^ t) (int ?D - 1)"
      using D(1) by (simp add: scale_num_def scale_den_def mult.commute)
    then show ?thesis unfolding x0 by simp
  qed
  have "nat (- (int ?D - 1 - 14)) = 15 - ?D" "nat (int ?D - 1 - 14) = 0" using le D(3) by auto
  then have r: "round_div (scale_num 10 (k * 2 ^ t) (int ?D - 1 - 14)) (scale_den 10 (2 ^ t) (int ?D - 1 - 14)) = k * 10 ^ (15 - ?D)"
    using round_div_exact [of "2 ^ t" "k * 10 ^ (15 - ?D)"] by (simp add: scale_num_def scale_den_def mult.assoc mult.commute [of "2 ^ t"])
  have "k * 10 ^ (15 - ?D) < 10 ^ ?D * 10 ^ (15 - ?D)" using D(2) by simp
  also have "\<dots> = 10 ^ 15" using le by (simp flip: power_add)
  finally have "k * 10 ^ (15 - ?D) \<noteq> 10 ^ 15" by simp
  then show "decimal15 (k * 2 ^ t) (2 ^ t) = (k * 10 ^ (15 - ?D), int ?D - 1)"
    unfolding decimal15_def Let_def x r by (simp only: if_False)
qed

text \<open>The digits of a positive integer.\<close>

definition decimal :: "nat \<Rightarrow> byte list" where
  "decimal k = digits_of (num_digits 10 k) k"

lemma strip_zeros_replicate: "strip_zeros (replicate n 0x30) = []"
  by (simp add: strip_zeros_def dropWhile_replicate)

lemma integer_format:
  assumes "0 < k" "k < 10 ^ 15"
  shows "format_g15 (nearest_double s k 1) = (if s then [0x2D] else []) @ decimal k"
proof -
  let ?D = "num_digits 10 k" and ?b = "num_digits 2 k"
  have "k < 2 ^ 53" using assms(2) by simp
  note b = nearest_integer [OF assms(1) this]
  note d = decimal15_integer [OF assms]
  have D: "0 < ?D" using num_digits_bounds [of 10 k] assms(1) by simp
  have e: "nat (int ?b - 53) = 0" "nat (- (int ?b - 53)) = 53 - ?b" using b(2) by simp_all
  have "digits_of 15 (k * 10 ^ (15 - ?D)) = digits_of ?D k @ replicate (15 - ?D) 0x30"
    using digits_of_append [of ?D "15 - ?D" k] d(2) by simp
  then have "take ?D (digits_of 15 (k * 10 ^ (15 - ?D))) = decimal k"
    "drop ?D (digits_of 15 (k * 10 ^ (15 - ?D))) = replicate (15 - ?D) 0x30" by (simp_all add: decimal_def)
  moreover have "nat (int ?D - 1) + 1 = ?D" "- 4 \<le> int ?D - 1" "int ?D - 1 < 15" "0 \<le> int ?D - 1" using D d(2) by simp_all
  moreover have "k * 2 ^ (53 - ?b) \<noteq> 0" using assms(1) by simp
  ultimately show ?thesis
    unfolding b(1) format_g15_def double_t.case e d(1) prod.case Let_def power_0 mult_1_right
    by (simp add: d(1) with_fraction_def strip_zeros_replicate Let_def)
qed

lemma integer_read:
  assumes "0 < k"
  shows "strtod ((if s then [0x2D] else []) @ decimal k) = (nearest_double s k 1, length ((if s then [0x2D] else []) @ decimal k))"
proof -
  have D: "k < 10 ^ num_digits 10 k" "0 < num_digits 10 k" using num_digits_bounds [of 10 k] assms by auto
  have v: "digits_value (decimal k) = k" unfolding decimal_def by (rule digits_value_digits_of [OF D(1)])
  have ds: "\<forall>c \<in> set (decimal k). is_digit c" unfolding decimal_def by (rule digits_of_digits)
  then have take: "takeWhile is_digit (decimal k) = decimal k" by (simp add: takeWhile_eq_all_conv)
  obtain c cs where c: "decimal k = c # cs" using D(2) by (cases "decimal k") (auto simp: decimal_def dest: arg_cong [of _ _ length])
  with ds have "is_digit c" by simp
  then have "c \<noteq> 0x2B" "c \<noteq> 0x2D" by (auto simp: is_digit_def)
  then have sign: "\<not> is_sign (decimal k)" using c by (simp add: is_sign_def)
  have ne: "decimal k \<noteq> []" using c by simp
  have minus: "is_sign (0x2D # decimal k)" by (simp add: is_sign_def)
  have none: "strtod_exponent [] = (0, 0)" by (simp add: strtod_exponent_def)
  show ?thesis
  proof (cases s)
    case True
    then show ?thesis unfolding strtod_def Let_def
      by (simp only: if_True append_Cons append_Nil minus list.sel take drop_all order.refl)
        (use assms in \<open>simp add: none v ne\<close>)
  next
    case False
    then show ?thesis unfolding strtod_def Let_def
      by (simp only: if_False append_Nil sign take drop_all order.refl simp_thms) (use assms in \<open>simp add: none v ne\<close>)
  qed
qed

text \<open>An integer converted to a double, and its text.\<close>

definition double_of_int :: "int \<Rightarrow> double_t" where
  "double_of_int i = (if i = 0 then DFin False 0 0 else nearest_double (i < 0) (nat \<bar>i\<bar>) 1)"

definition int_text :: "int \<Rightarrow> byte list" where
  "int_text i = (if i = 0 then [0x30] else (if i < 0 then [0x2D] else []) @ decimal (nat \<bar>i\<bar>))"

lemma int_format: "\<bar>i\<bar> < 10 ^ 15 \<Longrightarrow> format_g15 (double_of_int i) = int_text i"
  using integer_format [of "nat \<bar>i\<bar>" "i < 0"] by (simp add: double_of_int_def int_text_def format_g15_def)

lemma int_read: "strtod (int_text i) = (double_of_int i, length (int_text i))"
proof (cases "i = 0")
  case True
  then show ?thesis
    by (simp add: double_of_int_def int_text_def strtod_def strtod_exponent_def is_sign_def is_digit_def digits_value_def)
next
  case False
  with integer_read [of "nat \<bar>i\<bar>" "i < 0"] show ?thesis by (simp add: double_of_int_def int_text_def)
qed

lemma int_text_digits: "int_text i \<noteq> [] \<and> (\<forall>c \<in> set (int_text i). is_digit c \<or> c = 0x2D)"
proof -
  have "decimal k \<noteq> []" if "0 < k" for k
  proof -
    have "0 < length (decimal k)" using num_digits_bounds [of 10 k] that by (simp add: decimal_def)
    then show ?thesis by simp
  qed
  then show ?thesis using digits_of_digits by (auto simp: int_text_def is_digit_def [of "0x30"] decimal_def)
qed

lemma int_text_length:
  assumes "\<bar>i\<bar> < 10 ^ 15" shows "length (int_text i) \<le> 16"
proof (cases "i = 0")
  case False
  define k where "k = nat \<bar>i\<bar>"
  have "num_digits 10 k \<le> 15" using decimal15_integer(2) [of k] False assms by (simp add: k_def)
  moreover have "length (int_text i) \<le> 1 + num_digits 10 k"
    using False by (simp add: int_text_def decimal_def flip: k_def)
  ultimately show ?thesis by linarith
qed (simp add: int_text_def)

end
