(* ===== verification/Chjson_Equals.thy ===== *)
theory Chjson_Equals
  imports Chjson_Laws "HOL-Library.Sublist"
begin

text \<open>
  The comparison \<open>json_equals\<close> of \<open>chjson/src/json_helpers.c\<close>, on pointers.

  Comparing two containers moves the iterators that the containers hold, so a comparison is a
  step on the iterators, and its result depends on which containers its arguments share.  A value owns its
  parts; a pointer to a value is therefore the root it belongs to and the way down from it: a
  list of positions, each the index of a cell of a list or of a node of an object in the order of
  iteration.  The state is the number of cells or nodes that the iterator of each container has passed (the
  \<open>iter_ind\<close> of an array list; where \<open>iter\<close> and \<open>iter_chain_ind\<close> of a hash map stand).  The
  theorems show that on separately allocated values the iterators do not matter and the result is
  \<open>json_same\<close>, and what the code computes when a list is compared with itself.
\<close>

section \<open>Pointers\<close>

type_synonym json_ptr = "nat list"
type_synonym json_iters = "json_ptr \<Rightarrow> nat"

fun json_part :: "json_t \<Rightarrow> nat list \<Rightarrow> json_t option" where
  "json_part j [] = Some j"
| "json_part (JList xs) (i # p) = (if i < length xs then json_part (xs ! i) p else None)"
| "json_part (JObject cs) (i # p) =
     (if i < length (concat cs) then json_part (kv_v (concat cs ! i)) p else None)"
| "json_part (JString s) (i # p) = None"
| "json_part (JNumber n) (i # p) = None"
| "json_part (JBoolean b) (i # p) = None"
| "json_part JNull (i # p) = None"

text \<open>The value behind a pointer, \<open>None\<close> when it points to nothing.\<close>

fun json_at :: "json_t list \<Rightarrow> json_ptr \<Rightarrow> json_t option" where
  "json_at roots [] = None"
| "json_at roots (r # p) = (if r < length roots then json_part (roots ! r) p else None)"

section \<open>Iterators\<close>

definition reset_iter :: "json_iters \<Rightarrow> json_ptr \<Rightarrow> json_iters" where
  "reset_iter it p = it(p := 0)"

text \<open>The next cell of a container with \<open>n\<close> cells, \<open>None\<close> for the NULL at its end.\<close>

definition next_cell :: "nat \<Rightarrow> json_ptr \<Rightarrow> json_iters \<Rightarrow> nat option \<times> json_iters" where
  "next_cell n p it = (if it p < n then (Some (it p), it(p := it p + 1)) else (None, it))"

section \<open>Comparison\<close>

text \<open>
  \<open>l_equals\<close> and \<open>hm_equals\<close> on containers of values, with the comparison \<open>eq\<close> of two cells as a step on the
  iterators.  Both iterators of two lists are reset; only the one of the first map is.  A loop that never
  ends is \<open>None\<close>.
\<close>

partial_function (option) json_lists_loop ::
    "(json_ptr \<Rightarrow> json_ptr \<Rightarrow> json_iters \<Rightarrow> (bool \<times> json_iters) option) \<Rightarrow> nat \<Rightarrow> nat \<Rightarrow>
     json_ptr \<Rightarrow> json_ptr \<Rightarrow> json_iters \<Rightarrow> (bool \<times> json_iters) option" where
  "json_lists_loop eq n1 n2 l1 l2 it =
     (case next_cell n1 l1 it of
        (None, it1) \<Rightarrow> Some (True, it1)
      | (Some cell1, it1) \<Rightarrow>
          (case next_cell n2 l2 it1 of
             (None, it2) \<Rightarrow> Some (True, it2)
           | (Some cell2, it2) \<Rightarrow>
               (case eq (l1 @ [cell1]) (l2 @ [cell2]) it2 of
                  None \<Rightarrow> None
                | Some (same, it3) \<Rightarrow>
                    if same then json_lists_loop eq n1 n2 l1 l2 it3 else Some (False, it3))))"

definition json_lists_equal ::
    "(json_ptr \<Rightarrow> json_ptr \<Rightarrow> json_iters \<Rightarrow> (bool \<times> json_iters) option) \<Rightarrow> nat \<Rightarrow> nat \<Rightarrow>
     json_ptr \<Rightarrow> json_ptr \<Rightarrow> json_iters \<Rightarrow> (bool \<times> json_iters) option" where
  "json_lists_equal eq n1 n2 l1 l2 it =
     (if n1 \<noteq> n2 then Some (False, it)
      else json_lists_loop eq n1 n2 l1 l2 (reset_iter (reset_iter it l1) l2))"

text \<open>The node that \<open>hm_get\<close> finds: its position in the order of iteration.\<close>

fun chain_find :: "u32 \<Rightarrow> byte list \<Rightarrow> json_kv list \<Rightarrow> nat option" where
  "chain_find h key [] = None"
| "chain_find h key (kv # c) =
     (if kv_h kv = h \<and> str_eq (kv_k kv) key then Some 0 else map_option Suc (chain_find h key c))"

definition hm_get_node :: "json_kv list list \<Rightarrow> byte list \<Rightarrow> nat option" where
  "hm_get_node ds key =
     (let h = str_hash key;
          ci = unat h mod length ds
      in map_option (\<lambda>i. length (concat (take ci ds)) + i) (chain_find h key (ds ! ci)))"

partial_function (option) json_objects_loop ::
    "(json_ptr \<Rightarrow> json_ptr \<Rightarrow> json_iters \<Rightarrow> (bool \<times> json_iters) option) \<Rightarrow>
     json_kv list list \<Rightarrow> json_kv list list \<Rightarrow>
     json_ptr \<Rightarrow> json_ptr \<Rightarrow> json_iters \<Rightarrow> (bool \<times> json_iters) option" where
  "json_objects_loop eq cs ds hm1 hm2 it =
     (case next_cell (length (concat cs)) hm1 it of
        (None, it1) \<Rightarrow> Some (True, it1)
      | (Some kvp, it1) \<Rightarrow>
          (case hm_get_node ds (kv_k (concat cs ! kvp)) of
             None \<Rightarrow> Some (False, it1)
           | Some val2 \<Rightarrow>
               (case eq (hm1 @ [kvp]) (hm2 @ [val2]) it1 of
                  None \<Rightarrow> None
                | Some (same, it2) \<Rightarrow>
                    if same then json_objects_loop eq cs ds hm1 hm2 it2 else Some (False, it2))))"

definition json_objects_equal ::
    "(json_ptr \<Rightarrow> json_ptr \<Rightarrow> json_iters \<Rightarrow> (bool \<times> json_iters) option) \<Rightarrow>
     json_kv list list \<Rightarrow> json_kv list list \<Rightarrow>
     json_ptr \<Rightarrow> json_ptr \<Rightarrow> json_iters \<Rightarrow> (bool \<times> json_iters) option" where
  "json_objects_equal eq cs ds hm1 hm2 it =
     (if length (concat cs) \<noteq> length (concat ds) then Some (False, it)
      else json_objects_loop eq cs ds hm1 hm2 (reset_iter it hm1))"

text \<open>
  The comparison, with fuel for its depth.  A dangling pointer is undefined behaviour, \<open>None\<close>.
\<close>

fun json_equals_at ::
    "nat \<Rightarrow> json_t list \<Rightarrow> json_ptr \<Rightarrow> json_ptr \<Rightarrow> json_iters \<Rightarrow> (bool \<times> json_iters) option" where
  "json_equals_at 0 roots json1 json2 it = None"
| "json_equals_at (Suc fuel) roots json1 json2 it =
     (case (json_at roots json1, json_at roots json2) of
        (Some j1, Some j2) \<Rightarrow>
          if json_type j1 \<noteq> json_type j2 then Some (False, it)
          else (case (j1, j2) of
            (JObject cs, JObject ds) \<Rightarrow>
              json_objects_equal (json_equals_at fuel roots) cs ds json1 json2 it
          | (JList xs, JList ys) \<Rightarrow>
              json_lists_equal (json_equals_at fuel roots) (length xs) (length ys) json1 json2 it
          | (JString s, JString t) \<Rightarrow> Some (str_eq s t, it)
          | (JNumber n, JNumber m) \<Rightarrow> Some (double_eq n m, it)
          | (JBoolean b, JBoolean c) \<Rightarrow> Some (b = c, it)
          | _ \<Rightarrow> Some (True, it))
      | _ \<Rightarrow> None)"

text \<open>Every recursive call goes from the first value to a part of it, so its size is fuel enough.\<close>

definition json_equals ::
    "json_t list \<Rightarrow> json_ptr \<Rightarrow> json_ptr \<Rightarrow> json_iters \<Rightarrow> (bool \<times> json_iters) option" where
  "json_equals roots json1 json2 it =
     (case json_at roots json1 of
        None \<Rightarrow> None
      | Some j1 \<Rightarrow> json_equals_at (size j1 + 1) roots json1 json2 it)"


section \<open>Pointers and frames\<close>

lemma json_part_child:
  "json_part j p = Some (JList xs) \<Longrightarrow> i < length xs \<Longrightarrow> json_part j (p @ [i]) = Some (xs ! i)"
  "json_part j p = Some (JObject cs) \<Longrightarrow> i < length (concat cs) \<Longrightarrow>
     json_part j (p @ [i]) = Some (kv_v (concat cs ! i))"
  by (induction j p rule: json_part.induct) (auto split: if_splits)

lemma json_at_child:
  assumes "json_at roots p = Some j"
  shows "j = JList xs \<Longrightarrow> i < length xs \<Longrightarrow> json_at roots (p @ [i]) = Some (xs ! i)"
    and "j = JObject cs \<Longrightarrow> i < length (concat cs) \<Longrightarrow>
      json_at roots (p @ [i]) = Some (kv_v (concat cs ! i))"
  using assms json_part_child by (cases p; auto split: if_splits)+

text \<open>Only the iterators of two values and of their parts change.\<close>

definition same_iters :: "json_ptr \<Rightarrow> json_ptr \<Rightarrow> json_iters \<Rightarrow> json_iters \<Rightarrow> bool" where
  "same_iters p q it it' \<longleftrightarrow> (\<forall>x. \<not> prefix p x \<longrightarrow> \<not> prefix q x \<longrightarrow> it' x = it x)"

lemma same_iters_refl [simp]: "same_iters p q it it"
  by (simp add: same_iters_def)

lemma same_iters_trans: "same_iters p q it it1 \<Longrightarrow> same_iters p q it1 it2 \<Longrightarrow> same_iters p q it it2"
  by (simp add: same_iters_def)

lemma same_iters_child: "same_iters (p @ [c]) (q @ [d]) it it' \<Longrightarrow> same_iters p q it it'"
  by (metis append_prefixD same_iters_def)

lemma same_iters_upd: "same_iters p q it (it(p := i))" "same_iters p q it (it(q := i))"
  by (auto simp: same_iters_def)

text \<open>Comparing the parts leaves the iterators of the two containers alone.\<close>

lemma same_iters_parents:
  assumes "same_iters (p @ [c]) (q @ [d]) it it'" "p \<parallel> q"
  shows "it' p = it p" "it' q = it q"
proof -
  have "\<not> prefix (p @ [c]) p" "\<not> prefix (q @ [d]) q" by (auto dest: prefix_length_le)
  moreover have "\<not> prefix (q @ [d]) p" "\<not> prefix (p @ [c]) q"
    using assms(2) by (auto dest: append_prefixD)
  ultimately show "it' p = it p" "it' q = it q" using assms(1) unfolding same_iters_def by blast+
qed

lemma parallel_child: "p \<parallel> q \<Longrightarrow> p @ [c] \<parallel> q @ [d]"
  by (metis parallel_append)

section \<open>The loops on separate containers\<close>

lemma lists_loop_separate:
  assumes "\<And>c it. c < n \<Longrightarrow> \<exists>it'. eq (p @ [c]) (q @ [c]) it = Some (R c, it') \<and>
      same_iters (p @ [c]) (q @ [c]) it it'"
    and "p \<parallel> q"
  shows "it p = i \<Longrightarrow> it q = i \<Longrightarrow> i \<le> n \<Longrightarrow>
    \<exists>it'. json_lists_loop eq n n p q it = Some (\<forall>c. i \<le> c \<and> c < n \<longrightarrow> R c, it') \<and> same_iters p q it it'"
proof (induction "n - i" arbitrary: i it)
  case 0
  then have "json_lists_loop eq n n p q it = Some (True, it)"
    by (subst json_lists_loop.simps) (simp add: next_cell_def)
  with 0 show ?case by auto
next
  case (Suc k)
  have ne: "p \<noteq> q" using assms(2) by auto
  have i: "i < n" and k: "k = n - Suc i" using Suc.hyps(2) by simp_all
  define it2 where "it2 = it(p := Suc i, q := Suc i)"
  obtain it3 where e: "eq (p @ [i]) (q @ [i]) it2 = Some (R i, it3)"
    "same_iters (p @ [i]) (q @ [i]) it2 it3" using assms(1) [OF i] by blast
  note at3 = same_iters_parents [OF e(2) assms(2)]
  have fr: "same_iters p q it it3"
    using same_iters_trans [OF same_iters_trans [OF same_iters_upd(1) same_iters_upd(2)]
        same_iters_child [OF e(2) [unfolded it2_def]]] .
  have step: "json_lists_loop eq n n p q it =
      (if R i then json_lists_loop eq n n p q it3 else Some (False, it3))"
    using Suc.prems ne i e(1) by (subst json_lists_loop.simps) (simp add: next_cell_def it2_def)
  show ?case
  proof (cases "R i")
    case True
    obtain it' where it': "json_lists_loop eq n n p q it3 =
        Some (\<forall>c. Suc i \<le> c \<and> c < n \<longrightarrow> R c, it')" "same_iters p q it3 it'"
      using Suc.hyps(1) [OF k, of it3] at3 ne i by (auto simp: it2_def)
    have "(\<forall>c. Suc i \<le> c \<and> c < n \<longrightarrow> R c) \<longleftrightarrow> (\<forall>c. i \<le> c \<and> c < n \<longrightarrow> R c)"
      using True by (metis Suc_leD le_eq_less_or_eq less_eq_Suc_le)
    with it' step True same_iters_trans [OF fr it'(2)] show ?thesis by auto
  next
    case False
    with step fr i show ?thesis by auto
  qed
qed

lemma objects_loop_separate:
  assumes "\<And>c d it. c < length (concat cs) \<Longrightarrow> hm_get_node ds (kv_k (concat cs ! c)) = Some d \<Longrightarrow>
      \<exists>it'. eq (p @ [c]) (q @ [d]) it = Some (R c d, it') \<and> same_iters (p @ [c]) (q @ [d]) it it'"
    and "p \<parallel> q"
  shows "it p = i \<Longrightarrow> i \<le> length (concat cs) \<Longrightarrow>
    \<exists>it'. json_objects_loop eq cs ds p q it =
      Some (\<forall>c. i \<le> c \<and> c < length (concat cs) \<longrightarrow>
        (\<exists>d. hm_get_node ds (kv_k (concat cs ! c)) = Some d \<and> R c d), it') \<and> same_iters p q it it'"
proof (induction "length (concat cs) - i" arbitrary: i it)
  case 0
  then have "json_objects_loop eq cs ds p q it = Some (True, it)"
    by (subst json_objects_loop.simps) (simp add: next_cell_def)
  with 0 show ?case by auto
next
  case (Suc k)
  let ?n = "length (concat cs)"
  let ?Q = "\<lambda>c. \<exists>d. hm_get_node ds (kv_k (concat cs ! c)) = Some d \<and> R c d"
  have i: "i < ?n" and k: "k = ?n - Suc i" using Suc.hyps(2) by simp_all
  define it1 where "it1 = it(p := Suc i)"
  have fr1: "same_iters p q it it1" unfolding it1_def by (rule same_iters_upd)
  show ?case
  proof (cases "hm_get_node ds (kv_k (concat cs ! i))")
    case None
    then have "json_objects_loop eq cs ds p q it = Some (False, it1)"
      using Suc.prems i by (subst json_objects_loop.simps) (simp add: next_cell_def it1_def)
    with None fr1 i show ?thesis by auto
  next
    case (Some d)
    obtain it2 where e: "eq (p @ [i]) (q @ [d]) it1 = Some (R i d, it2)"
      "same_iters (p @ [i]) (q @ [d]) it1 it2" using assms(1) [OF i Some] by blast
    note at2 = same_iters_parents(1) [OF e(2) assms(2)]
    have fr: "same_iters p q it it2" by (rule same_iters_trans [OF fr1 same_iters_child [OF e(2)]])
    have step: "json_objects_loop eq cs ds p q it =
        (if R i d then json_objects_loop eq cs ds p q it2 else Some (False, it2))"
      using Suc.prems i e(1) Some by (subst json_objects_loop.simps) (simp add: next_cell_def it1_def)
    show ?thesis
    proof (cases "R i d")
      case True
      obtain it' where it': "json_objects_loop eq cs ds p q it2 =
          Some (\<forall>c. Suc i \<le> c \<and> c < ?n \<longrightarrow> ?Q c, it')" "same_iters p q it2 it'"
        using Suc.hyps(1) [OF k, of it2] at2 i by (auto simp: it1_def)
      have "?Q i" using True Some by blast
      then have "(\<forall>c. Suc i \<le> c \<and> c < ?n \<longrightarrow> ?Q c) \<longleftrightarrow> (\<forall>c. i \<le> c \<and> c < ?n \<longrightarrow> ?Q c)"
        by (metis Suc_leD le_eq_less_or_eq less_eq_Suc_le)
      with it' step True same_iters_trans [OF fr it'(2)] show ?thesis by auto
    next
      case False
      then have "\<not> ?Q i" using Some by simp
      with step fr i False show ?thesis by auto
    qed
  qed
qed

text \<open>The node found is the one whose value \<open>hm_get\<close> returns.\<close>

lemma chain_find_get:
  "chain_get (hm_match (object_map ds) h key) (map node_of c) = map_option (\<lambda>i. kv_v (c ! i)) (chain_find h key c)"
  "chain_find h key c = Some i \<Longrightarrow> i < length c"
  by (induction c arbitrary: i) (auto simp: hm_match_def option.map_comp comp_def split: if_splits)

lemma hm_get_node_get:
  assumes "ds \<noteq> []"
  shows "hm_get (object_map ds) key = map_option (\<lambda>d. kv_v (concat ds ! d)) (hm_get_node ds key)"
    and "hm_get_node ds key = Some d \<Longrightarrow> d < length (concat ds)"
proof -
  define ci where "ci = unat (str_hash key) mod length ds"
  have ci: "ci < length ds" using assms by (simp add: ci_def)
  have split: "concat ds = concat (take ci ds) @ ds ! ci @ concat (drop (Suc ci) ds)"
    using ci by (metis concat.simps(2) concat_append id_take_nth_drop)
  have nth: "concat ds ! (length (concat (take ci ds)) + i) = ds ! ci ! i" if "i < length (ds ! ci)" for i
    using that by (subst split) (simp add: nth_append)
  show "hm_get (object_map ds) key = map_option (\<lambda>d. kv_v (concat ds ! d)) (hm_get_node ds key)"
    using ci chain_find_get(1) [of ds "str_hash key" key "ds ! ci"]
      chain_find_get(2) [of "str_hash key" key "ds ! ci"] nth
    by (cases "chain_find (str_hash key) key (ds ! ci)")
      (simp_all add: hm_get_def hm_get_node_def Let_def flip: ci_def)
  show "hm_get_node ds key = Some d \<Longrightarrow> d < length (concat ds)"
    using chain_find_get(2) [of "str_hash key" key "ds ! ci"]
    by (subst split) (auto simp: hm_get_node_def Let_def simp flip: ci_def)
qed


section \<open>Comparison of separate values\<close>

lemma node_size: "c < length (concat cs) \<Longrightarrow> size (kv_v (concat cs ! c)) < size (JObject cs)"
  by (rule kvs_smaller [where k = "kv_k (concat cs ! c)"]) (auto simp: kvs_def simp del: set_concat)

lemma cell_size: "c < length xs \<Longrightarrow> size (xs ! c) < size (JList xs)"
  using size_list_estimation' [of "xs ! c" xs "size (xs ! c)" size] by simp

lemma chains_equal_nodes:
  assumes "ds \<noteq> []"
  shows "chains_equal cs ds \<longleftrightarrow> (\<forall>c < length (concat cs).
    \<exists>d. hm_get_node ds (kv_k (concat cs ! c)) = Some d \<and> json_same (kv_v (concat cs ! c)) (kv_v (concat ds ! d)))"
  unfolding chains_equal_iff kvs_all all_set_conv_all_nth
  by (auto simp: hm_get_node_get(1) [OF assms])

lemma object_parts_ok:
  assumes "json_ok (JObject cs)"
  shows "cs \<noteq> []" "c < length (concat cs) \<Longrightarrow> json_ok (kv_v (concat cs ! c))"
proof -
  show "cs \<noteq> []" using assms by (auto simp: str_key.inv_def)
  show "json_ok (kv_v (concat cs ! c))" if "c < length (concat cs)"
    using assms nth_mem [OF that] by (simp add: chains_ok_iff kvs_all del: set_concat)
qed

lemma json_equals_at_separate:
  "\<lbrakk>json_at roots p = Some j1; json_at roots q = Some j2; json_ok j1; json_ok j2; p \<parallel> q; size j1 < fuel\<rbrakk> \<Longrightarrow>
   \<exists>it'. json_equals_at fuel roots p q it = Some (json_same j1 j2, it') \<and> same_iters p q it it'"
proof (induction fuel arbitrary: p q j1 j2 it)
  case (Suc fuel)
  note at = Suc.prems(1,2) and apart = Suc.prems(5)
  consider (types) "json_type j1 \<noteq> json_type j2"
    | (objects) cs ds where "j1 = JObject cs" "j2 = JObject ds"
    | (lists) xs ys where "j1 = JList xs" "j2 = JList ys"
    | (other) "json_type j1 = json_type j2" "json_type j1 \<noteq> CHJSON_OBJECT" "json_type j1 \<noteq> CHJSON_LIST"
    by (cases j1; cases j2) auto
  then show ?case
  proof cases
    case types
    then have "\<not> json_same j1 j2" by (cases j1; cases j2) auto
    with types at show ?thesis by simp
  next
    case (objects cs ds)
    note ok = object_parts_ok [OF Suc.prems(3) [unfolded objects]] object_parts_ok [OF Suc.prems(4) [unfolded objects]]
    have part: "\<exists>it'. json_equals_at fuel roots (p @ [c]) (q @ [d]) it =
        Some (json_same (kv_v (concat cs ! c)) (kv_v (concat ds ! d)), it') \<and> same_iters (p @ [c]) (q @ [d]) it it'"
      if c: "c < length (concat cs)" and n: "hm_get_node ds (kv_k (concat cs ! c)) = Some d" for c d it
    proof (rule Suc.IH)
      have d: "d < length (concat ds)" by (rule hm_get_node_get(2) [OF ok(3) n])
      show "json_at roots (p @ [c]) = Some (kv_v (concat cs ! c))" "json_at roots (q @ [d]) = Some (kv_v (concat ds ! d))"
        using json_at_child(2) [OF at(1) objects(1) c] json_at_child(2) [OF at(2) objects(2) d] .
      show "json_ok (kv_v (concat cs ! c))" "json_ok (kv_v (concat ds ! d))" by (rule ok(2) [OF c], rule ok(4) [OF d])
      show "p @ [c] \<parallel> q @ [d]" by (rule parallel_child [OF apart])
      show "size (kv_v (concat cs ! c)) < fuel" using node_size [OF c] Suc.prems(6) objects(1) by simp
    qed
    let ?it = "reset_iter it p"
    have "?it p = 0" by (simp add: reset_iter_def)
    from objects_loop_separate [where R = "\<lambda>c d. json_same (kv_v (concat cs ! c)) (kv_v (concat ds ! d))" and
        eq = "json_equals_at fuel roots" and p = p and q = q and it = ?it and i = 0, OF part apart this]
    obtain it' where
      l: "json_objects_loop (json_equals_at fuel roots) cs ds p q ?it = Some (chains_equal cs ds, it')"
        "same_iters p q ?it it'" unfolding chains_equal_nodes [OF ok(3)] by auto
    have "same_iters p q it it'"
      by (rule same_iters_trans [OF _ l(2)]) (simp add: reset_iter_def same_iters_upd)
    then show ?thesis
      using at objects l(1) by (auto simp: json_objects_equal_def simp del: json_at.simps)
  next
    case (lists xs ys)
    have ok: "\<forall>x \<in> set xs. json_ok x" "\<forall>y \<in> set ys. json_ok y"
      using Suc.prems(3,4) by (simp_all add: lists eles_ok_iff)
    show ?thesis
    proof (cases "length xs = length ys")
      case False
      then have "\<not> json_same j1 j2" by (auto simp: lists eles_equal_iff dest: list_all2_lengthD)
      with False show ?thesis using at by (simp add: lists json_lists_equal_def)
    next
      case True
      have part: "\<exists>it'. json_equals_at fuel roots (p @ [c]) (q @ [c]) it = Some (json_same (xs ! c) (ys ! c), it') \<and>
          same_iters (p @ [c]) (q @ [c]) it it'" if c: "c < length xs" for c it
      proof (rule Suc.IH)
        show "json_at roots (p @ [c]) = Some (xs ! c)" "json_at roots (q @ [c]) = Some (ys ! c)"
          using json_at_child(1) [OF at(1) lists(1) c] json_at_child(1) [OF at(2) lists(2)] c True by simp_all
        show "json_ok (xs ! c)" "json_ok (ys ! c)" using ok c True by simp_all
        show "p @ [c] \<parallel> q @ [c]" by (rule parallel_child [OF apart])
        show "size (xs ! c) < fuel" using cell_size [OF c] Suc.prems(6) lists(1) by simp
      qed
      let ?it = "reset_iter (reset_iter it p) q"
      have z: "?it p = 0" "?it q = 0" using apart by (auto simp: reset_iter_def)
      from lists_loop_separate [where R = "\<lambda>c. json_same (xs ! c) (ys ! c)" and
          eq = "json_equals_at fuel roots" and p = p and q = q and it = ?it and i = 0, OF part apart z]
      obtain it' where
        l: "json_lists_loop (json_equals_at fuel roots) (length xs) (length xs) p q ?it =
            Some (\<forall>c < length xs. json_same (xs ! c) (ys ! c), it')" "same_iters p q ?it it'" by auto
      have "same_iters p q it it'"
        by (rule same_iters_trans [OF _ l(2)])
          (simp add: reset_iter_def same_iters_trans [OF same_iters_upd(1) same_iters_upd(2)])
      then show ?thesis using at lists l(1) True
        by (auto simp: json_lists_equal_def eles_equal_iff list_all2_conv_all_nth)
    qed
  next
    case other
    then show ?thesis using at by (cases j1; cases j2) auto
  qed
qed simp

lemma json_equals_separate:
  assumes "json_at roots p = Some j1" "json_at roots q = Some j2" "json_ok j1" "json_ok j2" "p \<parallel> q"
  shows "\<exists>it'. json_equals roots p q it = Some (json_same j1 j2, it') \<and> same_iters p q it it'"
  using json_equals_at_separate [OF assms, of "size j1 + 1"] assms(1) by (simp add: json_equals_def)


section \<open>The fuel is enough, whatever the pointers share\<close>

lemma lists_loop_mono:
  assumes "json_lists_loop eq n1 n2 p q it = Some r"
    and "\<And>c q' it. c < n1 \<Longrightarrow> eq (p @ [c]) q' it = eq' (p @ [c]) q' it"
  shows "json_lists_loop eq' n1 n2 p q it = Some r"
proof -
  let ?same = "\<lambda>eq (n1 :: nat) p. \<forall>c < n1. \<forall>q' it. eq (p @ [c]) q' it = eq' (p @ [c]) q' it"
  have "?same eq n1 p \<longrightarrow> json_lists_loop eq' n1 n2 p q it = Some r"
  proof (rule json_lists_loop.raw_induct [OF _ assms(1),
        of "\<lambda>eq n1 n2 p q it r. ?same eq n1 p \<longrightarrow> json_lists_loop eq' n1 n2 p q it = Some r"])
    fix loop eq n1 n2 p q it r
    assume IH: "\<And>eq n1 n2 p q it r. loop eq n1 n2 p q it = Some r \<Longrightarrow>
        ?same eq n1 p \<longrightarrow> json_lists_loop eq' n1 n2 p q it = Some r"
      and step: "(case next_cell n1 p it of (None, it1) \<Rightarrow> Some (True, it1)
         | (Some cell1, it1) \<Rightarrow> (case next_cell n2 q it1 of (None, it2) \<Rightarrow> Some (True, it2)
           | (Some cell2, it2) \<Rightarrow> (case eq (p @ [cell1]) (q @ [cell2]) it2 of None \<Rightarrow> None
             | Some (same, it3) \<Rightarrow> if same then loop eq n1 n2 p q it3 else Some (False, it3)))) = Some r"
    show "?same eq n1 p \<longrightarrow> json_lists_loop eq' n1 n2 p q it = Some r"
    proof
      assume same: "?same eq n1 p"
      show "json_lists_loop eq' n1 n2 p q it = Some r"
      proof (cases "it p < n1 \<and> (it(p := Suc (it p))) q < n2")
        case True
        let ?it2 = "it(p := Suc (it p), q := Suc ((it(p := Suc (it p))) q))"
        obtain b it3 where e: "eq (p @ [it p]) (q @ [(it(p := Suc (it p))) q]) ?it2 = Some (b, it3)"
          "(if b then loop eq n1 n2 p q it3 else Some (False, it3)) = Some r"
          using step True by (auto simp: next_cell_def split: option.splits)
        have "(if b then json_lists_loop eq' n1 n2 p q it3 else Some (False, it3)) = Some r"
          using e(2) IH [of eq n1 n2 p q it3 r] same by (cases b) auto
        with e(1) True same show ?thesis
          by (subst json_lists_loop.simps) (simp add: next_cell_def del: fun_upd_apply)
      next
        case False
        with step show ?thesis
          by (subst json_lists_loop.simps) (auto simp: next_cell_def split: if_splits)
      qed
    qed
  qed
  with assms(2) show ?thesis by blast
qed

lemma objects_loop_mono:
  assumes "json_objects_loop eq cs ds p q it = Some r"
    and "\<And>c q' it. c < length (concat cs) \<Longrightarrow> eq (p @ [c]) q' it = eq' (p @ [c]) q' it"
  shows "json_objects_loop eq' cs ds p q it = Some r"
proof -
  let ?same = "\<lambda>eq (cs :: json_kv list list) p. \<forall>c < length (concat cs). \<forall>q' it. eq (p @ [c]) q' it = eq' (p @ [c]) q' it"
  have "?same eq cs p \<longrightarrow> json_objects_loop eq' cs ds p q it = Some r"
  proof (rule json_objects_loop.raw_induct [OF _ assms(1),
        of "\<lambda>eq cs ds p q it r. ?same eq cs p \<longrightarrow> json_objects_loop eq' cs ds p q it = Some r"])
    fix loop eq cs ds p q it r
    assume IH: "\<And>eq cs ds p q it r. loop eq cs ds p q it = Some r \<Longrightarrow>
        ?same eq cs p \<longrightarrow> json_objects_loop eq' cs ds p q it = Some r"
      and step: "(case next_cell (length (concat cs)) p it of (None, it1) \<Rightarrow> Some (True, it1)
         | (Some kvp, it1) \<Rightarrow> (case hm_get_node ds (kv_k (concat cs ! kvp)) of None \<Rightarrow> Some (False, it1)
           | Some val2 \<Rightarrow> (case eq (p @ [kvp]) (q @ [val2]) it1 of None \<Rightarrow> None
             | Some (same, it2) \<Rightarrow> if same then loop eq cs ds p q it2 else Some (False, it2)))) = Some r"
    show "?same eq cs p \<longrightarrow> json_objects_loop eq' cs ds p q it = Some r"
    proof
      assume same: "?same eq cs p"
      show "json_objects_loop eq' cs ds p q it = Some r"
      proof (cases "it p < length (concat cs) \<and> hm_get_node ds (kv_k (concat cs ! it p)) \<noteq> None")
        case True
        then obtain d where d: "hm_get_node ds (kv_k (concat cs ! it p)) = Some d" by blast
        let ?it1 = "it(p := Suc (it p))"
        obtain b it2 where e: "eq (p @ [it p]) (q @ [d]) ?it1 = Some (b, it2)"
          "(if b then loop eq cs ds p q it2 else Some (False, it2)) = Some r"
          using step True d by (auto simp: next_cell_def split: option.splits)
        have "(if b then json_objects_loop eq' cs ds p q it2 else Some (False, it2)) = Some r"
          using e(2) IH [of eq cs ds p q it2 r] same by (cases b) auto
        with e(1) True d same show ?thesis
          by (subst json_objects_loop.simps) (simp add: next_cell_def del: fun_upd_apply)
      next
        case False
        with step show ?thesis
          by (subst json_objects_loop.simps) (auto simp: next_cell_def split: if_splits)
      qed
    qed
  qed
  with assms(2) show ?thesis by blast
qed

lemma option_eqI: "(\<And>r. a = Some r \<Longrightarrow> b = Some r) \<Longrightarrow> (\<And>r. b = Some r \<Longrightarrow> a = Some r) \<Longrightarrow> a = b"
  by (cases a; cases b) auto

lemma json_equals_fuel:
  "\<lbrakk>json_at roots p = Some j; size j < fuel; size j < fuel'\<rbrakk> \<Longrightarrow>
   json_equals_at fuel roots p q it = json_equals_at fuel' roots p q it"
proof (induction fuel arbitrary: fuel' p q j it)
  case (Suc n)
  then obtain n' where n': "fuel' = Suc n'" by (cases fuel') auto
  note at = Suc.prems(1)
  have lists: "json_equals_at n roots (p @ [c]) q' it = json_equals_at n' roots (p @ [c]) q' it"
    if "j = JList xs" "c < length xs" for xs c q' it
    using that Suc.prems(2,3) cell_size [OF that(2)] json_at_child(1) [OF at that] unfolding n'
    by (intro Suc.IH [of _ "xs ! c"]) simp_all
  have objects: "json_equals_at n roots (p @ [c]) q' it = json_equals_at n' roots (p @ [c]) q' it"
    if "j = JObject cs" "c < length (concat cs)" for cs c q' it
    using that(1) Suc.prems(2,3) node_size [OF that(2)] json_at_child(2) [OF at that] unfolding n'
    by (intro Suc.IH [of _ "kv_v (concat cs ! c)"]) simp_all
  have l: "json_lists_loop (json_equals_at n roots) m m p q it =
      json_lists_loop (json_equals_at n' roots) m m p q it" if "j = JList xs" "length xs = m" for xs m it
    unfolding that(2) [symmetric] by (rule option_eqI; rule lists_loop_mono, assumption)
      (rule lists [OF that(1)], assumption, rule lists [OF that(1), symmetric], assumption)
  have o: "json_objects_loop (json_equals_at n roots) cs ds p q it =
      json_objects_loop (json_equals_at n' roots) cs ds p q it" if "j = JObject cs" for cs ds it
    by (rule option_eqI; rule objects_loop_mono, assumption)
      (rule objects [OF that], assumption, rule objects [OF that, symmetric], assumption)
  show ?case
  proof (cases j)
    case (JObject cs)
    show ?thesis unfolding n' using at o [OF JObject] JObject
      by (simp add: json_objects_equal_def split: option.split json_t.split)
  next
    case (JList xs)
    show ?thesis unfolding n' using at l [OF JList] JList
      by (simp add: json_lists_equal_def split: option.split json_t.split)
  qed (use at n' in \<open>simp_all split: option.split json_t.split\<close>)
qed simp

section \<open>A list compared with itself\<close>

text \<open>The one iterator of the list is advanced twice in every round.\<close>

lemma lists_loop_shared:
  assumes "\<And>c d it. c < n \<Longrightarrow> d < n \<Longrightarrow> eq (p @ [c]) (p @ [d]) it = Some (R c d, it)"
  shows "it p = 2 * m \<Longrightarrow> \<exists>it'. json_lists_loop eq n n p p it =
    Some (\<forall>i. m \<le> i \<and> 2 * i + 1 < n \<longrightarrow> R (2 * i) (2 * i + 1), it')"
proof (induction "n - 2 * m" arbitrary: m it rule: less_induct)
  case less
  show ?case
  proof (cases "2 * m + 1 < n")
    case True
    define it2 where "it2 = it(p := 2 * Suc m)"
    have step: "json_lists_loop eq n n p p it =
        (if R (2 * m) (2 * m + 1) then json_lists_loop eq n n p p it2 else Some (False, it2))"
      using less.prems True assms by (subst json_lists_loop.simps) (simp add: next_cell_def it2_def)
    have "it2 p = 2 * Suc m" by (simp add: it2_def)
    moreover have "n - 2 * Suc m < n - 2 * m" using True by simp
    ultimately obtain it' where it': "json_lists_loop eq n n p p it2 =
        Some (\<forall>i. Suc m \<le> i \<and> 2 * i + 1 < n \<longrightarrow> R (2 * i) (2 * i + 1), it')"
      using less.hyps [of "Suc m" it2] by blast
    show ?thesis
    proof (cases "R (2 * m) (2 * m + 1)")
      case R: True
      then have "(\<forall>i. Suc m \<le> i \<and> 2 * i + 1 < n \<longrightarrow> R (2 * i) (2 * i + 1)) \<longleftrightarrow>
          (\<forall>i. m \<le> i \<and> 2 * i + 1 < n \<longrightarrow> R (2 * i) (2 * i + 1))"
        by (metis Suc_leD le_eq_less_or_eq less_eq_Suc_le)
      with it' step R show ?thesis by auto
    next
      case False
      with step True show ?thesis by auto
    qed
  next
    case False
    then have "\<exists>it'. json_lists_loop eq n n p p it = Some (True, it')"
      using less.prems by (subst json_lists_loop.simps) (auto simp: next_cell_def)
    with False show ?thesis by auto
  qed
qed

definition json_leaf :: "json_t \<Rightarrow> bool" where
  "json_leaf j \<longleftrightarrow> json_type j \<noteq> CHJSON_OBJECT \<and> json_type j \<noteq> CHJSON_LIST"

lemma json_equals_at_leaf:
  assumes "json_at roots p = Some j1" "json_at roots q = Some j2" "json_leaf j1" "0 < fuel"
  shows "json_equals_at fuel roots p q it = Some (json_same j1 j2, it)"
  using assms by (cases fuel; cases j1; cases j2) (auto simp: json_leaf_def)

text \<open>
  A list of plain values compared with itself: instead of every element with itself, the first is compared
  with the second, the third with the fourth and so on.
\<close>

theorem json_equals_shared_list:
  assumes "json_at roots p = Some (JList xs)" "list_all json_leaf xs"
  shows "\<exists>it'. json_equals roots p p it =
    Some (\<forall>i. 2 * i + 1 < length xs \<longrightarrow> json_same (xs ! (2 * i)) (xs ! (2 * i + 1)), it')"
proof -
  let ?n = "length xs" and ?it = "reset_iter (reset_iter it p) p"
  define fuel where "fuel = size (JList xs)"
  have "json_equals_at fuel roots (p @ [c]) (p @ [d]) it = Some (json_same (xs ! c) (xs ! d), it)"
    if "c < ?n" "d < ?n" for c d it
    using that json_at_child(1) [OF assms(1) refl] assms(2)
    by (intro json_equals_at_leaf) (simp_all add: list_all_length fuel_def)
  from lists_loop_shared [of ?n _ _ "\<lambda>c d. json_same (xs ! c) (xs ! d)", OF this, of ?it 0]
  obtain it' where "json_lists_loop (json_equals_at fuel roots) ?n ?n p p ?it =
      Some (\<forall>i. 2 * i + 1 < ?n \<longrightarrow> json_same (xs ! (2 * i)) (xs ! (2 * i + 1)), it')"
    by (auto simp: reset_iter_def)
  moreover have "json_equals roots p p it = json_equals_at (Suc fuel) roots p p it"
    using assms(1) by (simp add: json_equals_def fuel_def)
  ultimately show ?thesis using assms(1) by (simp add: json_lists_equal_def)
qed


section \<open>Properties\<close>

text \<open>C25. The comparison of two separately allocated, well-formed values comes to an end wherever the
  iterators of their containers stand, moves only the iterators under its two arguments, finds a
  value without NaNs equal to a copy of it, gives the same answer with its arguments swapped
  and is transitive.  On two objects its answer is that of \<open>hm_equals\<close>.\<close>

theorem json_equals_equivalence:
  assumes "json_at roots p = Some j1" "json_at roots q = Some j2" "json_at roots r = Some j3"
    and "json_ok j1" "json_ok j2" "json_ok j3" "p \<parallel> q" "q \<parallel> r" "p \<parallel> r"
  shows "\<exists>b it'. json_equals roots p q it = Some (b, it') \<and>
    (\<forall>x. \<not> prefix p x \<longrightarrow> \<not> prefix q x \<longrightarrow> it' x = it x) \<and>
    (j1 = j2 \<and> nan_free j1 \<longrightarrow> b) \<and>
    map_option fst (json_equals roots q p it2) = Some b \<and>
    (b \<longrightarrow> map_option fst (json_equals roots q r it3) = Some True \<longrightarrow>
       map_option fst (json_equals roots p r it4) = Some True) \<and>
    (\<forall>cs ds. j1 = JObject cs \<longrightarrow> j2 = JObject ds \<longrightarrow>
       (\<exists>hm. hm_equals json_same (object_map cs) (object_map ds) = Some (b, hm)))"
proof -
  obtain it' where e: "json_equals roots p q it = Some (json_same j1 j2, it')" "same_iters p q it it'"
    using json_equals_separate [OF assms(1,2,4,5,7)] by blast
  have swap: "map_option fst (json_equals roots q p it2) = Some (json_same j2 j1)"
    using json_equals_separate [OF assms(2,1,5,4), of it2] assms(7) by (auto simp: parallel_commute)
  have qr: "map_option fst (json_equals roots q r it3) = Some (json_same j2 j3)"
    using json_equals_separate [OF assms(2,3,5,6,8), of it3] by auto
  have pr: "map_option fst (json_equals roots p r it4) = Some (json_same j1 j3)"
    using json_equals_separate [OF assms(1,3,4,6,9), of it4] by auto
  have "json_same j2 j1 = json_same j1 j2"
    using json_same_sym [OF assms(4,5)] json_same_sym [OF assms(5,4)] by blast
  moreover have "j1 = j2 \<and> nan_free j1 \<longrightarrow> json_same j1 j2"
    using json_same_refl [OF assms(4)] by blast
  moreover have "json_same j1 j2 \<longrightarrow> json_same j2 j3 \<longrightarrow> json_same j1 j3"
    using json_same_trans [OF assms(4-6)] by blast
  moreover have "\<exists>hm. hm_equals json_same (object_map cs) (object_map ds) = Some (json_same j1 j2, hm)"
    if "j1 = JObject cs" "j2 = JObject ds" for cs ds
    using object_equals_hm [of cs ds] assms(4,5) by (simp add: that)
  ultimately show ?thesis
    using e(2) unfolding e(1) swap qr pr same_iters_def by blast
qed

theorem json_equals_equivalence_witness:
  defines "j \<equiv> JList [JObject (object_put (replicate 8 []) [0x61] JNull)]"
  shows "map_option fst (json_equals [j, j, j] [0] [1] (\<lambda>_. 7)) = Some True \<and>
    map_option fst (json_equals [j, j, j] [1] [0] (\<lambda>_. 3)) = Some True \<and>
    map_option fst (json_equals [j, j, j] [0] [2] (\<lambda>_. 0)) = Some True"
proof -
  have new: "json_ok (JObject (replicate 8 []))" using new_object_ok unfolding new_object .
  have "json_ok (JObject (object_put (replicate 8 []) [0x61] JNull))"
    by (rule object_put_ok [OF new]) (simp_all add: no_nul_def)
  then have ok: "json_ok j" by (simp add: j_def)
  have "mset (kvs (object_put (replicate 8 []) [0x61] JNull)) = mset [([0x61], JNull)]"
    by (rule rel_kvs) (use object_put_rel [OF new_object_rel, of "[0x61]" JNull] in \<open>simp add: alist_put_def no_nul_def\<close>)
  from mset_eq_setD [OF this] have n: "nan_free j"
    by (simp add: j_def nan_free_def json_sets number_not_nan_def)
  have p: "([0] :: nat list) \<parallel> [1]" "([1] :: nat list) \<parallel> [2]" "([0] :: nat list) \<parallel> [2]"
    "([1] :: nat list) \<parallel> [0]" "([0] :: nat list) \<parallel> [2]" "([2] :: nat list) \<parallel> [0]" "([2] :: nat list) \<parallel> [1]"
    by (auto simp: parallel_def)
  have at: "json_at [j, j, j] [0] = Some j" "json_at [j, j, j] [1] = Some j" "json_at [j, j, j] [2] = Some j"
    by simp_all
  note e = json_equals_equivalence [OF at(1,2,3) ok ok ok p(1,2,3), of "\<lambda>_. 7" "\<lambda>_. 3" "\<lambda>_. 0" "\<lambda>_. 0"]
  note f = json_equals_equivalence [OF at(2,3,1) ok ok ok p(2,6,4), of "\<lambda>_. 0" "\<lambda>_. 0" "\<lambda>_. 0" "\<lambda>_. 0"]
  from e f n show ?thesis by auto
qed

end
