(* ===== verification/Chjson_Roundtrip.thy ===== *)
theory Chjson_Roundtrip
  imports Chjson_Parse_Laws Chjson_Integer Chjson_Equals
begin

text \<open>
  Printing a JSON value and parsing it again, with the values for which that works.
\<close>

section \<open>Printable values\<close>

text \<open>Keys are printed as they are, so they must not need an escape.\<close>

definition key_printable :: "byte list \<Rightarrow> bool" where
  "key_printable k \<longleftrightarrow> list_all (\<lambda>c. 0x20 \<le> c \<and> c \<noteq> 0x22 \<and> c \<noteq> 0x5C) k"

text \<open>The parser knows no escaped quotation mark, and the printer drops control characters without an escape.\<close>

definition char_printable :: "byte \<Rightarrow> bool" where
  "char_printable c \<longleftrightarrow> c \<noteq> 0x22 \<and> (0x20 \<le> c \<or> c \<in> {0x08, 0x0C, 0x0A, 0x0D, 0x09})"

text \<open>Fifteen digits determine the number.\<close>

definition number_printable :: "double_t \<Rightarrow> bool" where
  "number_printable n \<longleftrightarrow>
     (let t = take 25 (format_g15 n) in
      t \<noteq> [] \<and> list_all is_number_like t \<and> (case strtod t of (m, k) \<Rightarrow> k = length t \<and> double_eq n m))"

definition leaf_printable :: "json_t \<Rightarrow> bool" where
  "leaf_printable j \<longleftrightarrow>
     (case j of JString s \<Rightarrow> list_all char_printable (c_str s) | JNumber n \<Rightarrow> number_printable n | _ \<Rightarrow> True)"

definition printable :: "json_t \<Rightarrow> bool" where
  "printable j \<longleftrightarrow> parts key_printable leaf_printable j"

lemma printable_simps [simp]:
  "printable (JObject cs) \<longleftrightarrow> (\<forall>k v. (k, v) \<in> set (kvs cs) \<longrightarrow> key_printable k \<and> printable v)"
  "printable (JList xs) \<longleftrightarrow> (\<forall>x \<in> set xs. printable x)"
  "printable (JString s) \<longleftrightarrow> list_all char_printable (c_str s)"
  "printable (JNumber n) \<longleftrightarrow> number_printable n"
  "printable (JBoolean b)" "printable JNull"
  by (simp_all add: printable_def leaf_printable_def parts_chains_iff parts_eles_iff)

section \<open>Strings\<close>

lemma read_key:
  "key_printable k \<Longrightarrow>
   string_loop (list_stream (k @ 0x22 # tail)) b = Some (PARSER_SUCCESS, b @ k, list_stream tail)"
proof (induction k arbitrary: b)
  case (Cons c k)
  then have "\<not> c < 0x20" "c \<noteq> 0x22" "c \<noteq> 0x5C" "key_printable k" by (auto simp: key_printable_def)
  with Cons.IH [of "b @ [c]"] show ?case by (subst string_loop.simps) simp
qed (subst string_loop.simps, simp)

lemma read_escaped:
  assumes "char_printable c"
  shows "string_loop (list_stream (escape_char c @ cs)) b = string_loop (list_stream cs) (b @ [c])"
proof -
  have c: "c \<noteq> 0x22" "0x20 \<le> c \<or> c = 0x08 \<or> c = 0x0C \<or> c = 0x0A \<or> c = 0x0D \<or> c = 0x09"
    using assms by (auto simp: char_printable_def)
  show ?thesis
  proof (cases "0x20 \<le> c")
    case True
    then have "\<not> c < 0x20" by simp
    with True c(1) show ?thesis
      by (subst string_loop.simps) (simp add: escape_char_def expect_control_suffix_def)
  next
    case False
    with c(2) show ?thesis
      by (elim disjE) (subst string_loop.simps, simp add: escape_char_def expect_control_suffix_def)+
  qed
qed

lemma read_string:
  "list_all char_printable s \<Longrightarrow>
   string_loop (list_stream (concat (map escape_char s) @ cs)) b = string_loop (list_stream cs) (b @ s)"
  by (induction s arbitrary: b) (simp_all add: read_escaped)

lemma read_quote: "string_loop (list_stream (0x22 # tail)) b = Some (PARSER_SUCCESS, b, list_stream tail)"
  by (subst string_loop.simps) simp

section \<open>Numbers\<close>

definition number_end :: "byte list \<Rightarrow> bool" where
  "number_end tail \<longleftrightarrow> tail = [] \<or> \<not> is_number_like (hd tail)"

lemma read_number_chars:
  "list_all is_number_like t \<Longrightarrow> number_end tail \<Longrightarrow> length t < n \<Longrightarrow>
   number_loop (list_stream (t @ tail)) n buf = Some (PARSER_SUCCESS, buf @ t, list_stream tail)"
proof (induction t arbitrary: n buf)
  case Nil
  then obtain m where "n = Suc m" by (cases n) auto
  with Nil show ?case by (cases tail) (auto simp: number_end_def)
next
  case (Cons c t)
  then obtain m where "n = Suc m" by (cases n) auto
  with Cons show ?case by simp
qed

lemma read_number:
  assumes "number_printable n" "number_end tail"
  shows "json_number_from_stream_no_trim (list_stream (take 25 (format_g15 n) @ tail)) =
      Some (PARSER_SUCCESS, (Some (JNumber (fst (strtod (take 25 (format_g15 n))))), 1), list_stream tail)"
    and "double_eq n (fst (strtod (take 25 (format_g15 n))))"
proof -
  let ?t = "take 25 (format_g15 n)"
  obtain m where m: "strtod ?t = (m, length ?t)" "double_eq n m"
    using assms(1) by (auto simp: number_printable_def Let_def)
  then show "double_eq n (fst (strtod ?t))" by simp
  have t: "?t \<noteq> []" "list_all is_number_like ?t" using assms(1) by (auto simp: number_printable_def Let_def)
  have "length ?t < CHJSON_NUMBER_MAX_STR_WIDTH" by (simp add: CHJSON_NUMBER_MAX_STR_WIDTH_def)
  from read_number_chars [OF t(2) assms(2) this, of "[]"] m t(1)
  show "json_number_from_stream_no_trim (list_stream (?t @ tail)) =
      Some (PARSER_SUCCESS, (Some (JNumber (fst (strtod ?t))), 1), list_stream tail)"
    by (simp add: json_number_from_stream_no_trim_def new_json_number_def)
qed

text \<open>Integers of at most fifteen digits are printed and read exactly.\<close>

lemma int_printable:
  assumes "\<bar>i\<bar> < 10 ^ 15"
  shows "number_printable (double_of_int i)" "take 25 (format_g15 (double_of_int i)) = int_text i"
proof -
  show t: "take 25 (format_g15 (double_of_int i)) = int_text i"
    using int_format [OF assms] int_text_length [OF assms] by simp
  have "\<forall>c \<in> set (int_text i). is_number_like c"
    using int_text_digits [of i] by (auto simp: is_number_like_def is_digit_def)
  moreover have "double_eq (double_of_int i) (double_of_int i)"
    using nearest_integer(1) [of "nat \<bar>i\<bar>" "i < 0"] assms by (cases "i = 0") (simp_all add: double_of_int_def)
  ultimately show "number_printable (double_of_int i)"
    using int_text_digits [of i] unfolding number_printable_def t Let_def by (simp add: list_all_iff int_read)
qed

section \<open>White space\<close>

lemma trim_line: "dropWhile is_ws (line_text spaced tabs @ cs) = dropWhile is_ws cs"
proof -
  have "\<forall>c \<in> set (line_text spaced tabs). is_ws c"
    by (auto simp: line_text_def is_ws_def)
  then show ?thesis by (simp add: dropWhile_append2)
qed

lemma number_like_starts: "is_number_like c \<Longrightarrow> \<not> is_ws c \<and> c \<noteq> 0x7B \<and> c \<noteq> 0x5B \<and> c \<noteq> 0x22 \<and>
    c \<noteq> 0x66 \<and> c \<noteq> 0x74 \<and> c \<noteq> 0x6E \<and> c \<noteq> 0x5D"
  by (auto simp: is_number_like_def is_ws_def)

text \<open>A printed value starts with a character that is neither white space nor a closing bracket.\<close>

lemma print_starts:
  assumes "printable j"
  shows "\<exists>c cs. print_json j spaced tabs = c # cs \<and> \<not> is_ws c \<and> c \<noteq> 0x5D"
proof (cases j)
  case (JNumber n)
  with assms obtain c cs where c: "take 25 (format_g15 n) = c # cs" "is_number_like c"
    by (cases "take 25 (format_g15 n)") (auto simp: number_printable_def Let_def)
  with number_like_starts [OF c(2)] JNumber show ?thesis by simp
qed (auto simp: is_ws_def)

lemma trim_print:
  assumes "printable j"
  shows "dropWhile is_ws (print_json j spaced tabs @ cs) = print_json j spaced tabs @ cs"
  using print_starts [OF assms, of spaced tabs] by auto

section \<open>Lists and objects\<close>

text \<open>\<open>json\<close> reads \<open>txt\<close> before \<open>tail\<close> as a value equal to \<open>j\<close>, all of whose objects it allocated.\<close>

definition reads :: "(byte list in_stream_t \<Rightarrow> byte list json_parsed) \<Rightarrow> json_t \<Rightarrow> byte list \<Rightarrow> byte list \<Rightarrow> bool" where
  "reads json j txt tail \<longleftrightarrow>
     (\<exists>v. json (list_stream (txt @ tail)) = Some (PARSER_SUCCESS, (Some v, int (delete_json v)), list_stream tail) \<and>
        json_same j v \<and> json_ok v)"

definition reads_below :: "nat \<Rightarrow> (byte list in_stream_t \<Rightarrow> byte list json_parsed) \<Rightarrow> json_t \<Rightarrow> byte list \<Rightarrow> bool" where
  "reads_below m json j txt \<longleftrightarrow>
     (\<forall>tail. number_end tail \<longrightarrow> length txt + length tail < m \<longrightarrow> reads json j txt tail)"

lemma number_end_items:
  "c = 0x5D \<or> c = 0x7D \<Longrightarrow> number_end (items False ts @ line_text spaced tabs @ c # tail)"
  by (cases ts) (auto simp: number_end_def line_text_def is_number_like_def)

lemma number_end_close: "c = 0x5D \<or> c = 0x7D \<Longrightarrow> number_end (line_text spaced tabs @ c # tail)"
  by (auto simp: number_end_def line_text_def is_number_like_def)

lemma read_element:
  assumes "reads_below m json x txt" "number_end tail" "length txt + length tail < m"
  shows "\<exists>y. (\<forall>l live k. list_element json (list_stream (txt @ tail)) l live k =
      k (list_stream tail) (l @ [y]) (live + int (delete_json y))) \<and> json_same x y \<and> json_ok y"
proof -
  have "reads json x txt tail" using assms by (simp add: reads_below_def)
  then obtain y where "json (list_stream (txt @ tail)) = Some (PARSER_SUCCESS, (Some y, int (delete_json y)), list_stream tail)"
    "json_same x y" "json_ok y" by (auto simp: reads_def)
  then show ?thesis by (intro exI [of _ y]) (simp add: list_element_def)
qed

lemma delete_eles_append [simp]: "delete_eles (xs @ ys) = delete_eles xs + delete_eles ys"
  by (induction xs) simp_all

lemma read_list_loop:
  "\<forall>x \<in> set xs. printable x \<and> reads_below m json x (print_json x spaced (tabs + 1)) \<Longrightarrow>
   length (items False (map (\<lambda>x. line_text spaced (tabs + 1) @ print_json x spaced (tabs + 1)) xs) @
     line_text spaced tabs @ 0x5D # tail) \<le> min m n \<Longrightarrow>
   \<exists>ys. list_all2 json_same xs ys \<and> (\<forall>y \<in> set ys. json_ok y) \<and>
     list_loop json n (list_stream (items False (map (\<lambda>x. line_text spaced (tabs + 1) @ print_json x spaced (tabs + 1)) xs) @
       line_text spaced tabs @ 0x5D # tail)) l live =
     Some (PARSER_SUCCESS, (l @ ys, live + int (delete_eles ys)), list_stream tail)"
proof (induction xs arbitrary: n l live)
  case Nil
  then obtain n' where "n = Suc n'" by (cases n) auto
  then show ?case by (simp add: trim_line is_ws_def)
next
  case (Cons x xs)
  let ?rest = "items False (map (\<lambda>x. line_text spaced (tabs + 1) @ print_json x spaced (tabs + 1)) xs) @
    line_text spaced tabs @ 0x5D # tail"
  let ?txt = "print_json x spaced (tabs + 1)"
  obtain n' where n: "n = Suc n'" using Cons.prems(2) by (cases n) auto
  have x: "printable x" "reads_below m json x ?txt" using Cons.prems(1) by simp_all
  have len: "length ?txt + length ?rest < m" "length ?rest \<le> min m n'" using Cons.prems(2) n by simp_all
  obtain y where y: "\<And>l live k. list_element json (list_stream (?txt @ ?rest)) l live k =
      k (list_stream ?rest) (l @ [y]) (live + int (delete_json y))" "json_same x y" "json_ok y"
    using read_element [OF x(2) number_end_items len(1)] by blast
  obtain ys where ys: "list_all2 json_same xs ys" "\<forall>y \<in> set ys. json_ok y"
    "list_loop json n' (list_stream ?rest) (l @ [y]) (live + int (delete_json y)) =
      Some (PARSER_SUCCESS, ((l @ [y]) @ ys, (live + int (delete_json y)) + int (delete_eles ys)), list_stream tail)"
    using Cons.IH [of n' "l @ [y]" "live + int (delete_json y)"] Cons.prems(1) len(2) by auto
  have "list_loop json n (list_stream (items False (map (\<lambda>x. line_text spaced (tabs + 1) @ print_json x spaced (tabs + 1)) (x # xs)) @
       line_text spaced tabs @ 0x5D # tail)) l live =
     Some (PARSER_SUCCESS, (l @ y # ys, live + int (delete_eles (y # ys))), list_stream tail)"
    using y(1) ys(3) by (simp add: n trim_line trim_print [OF x(1)] is_ws_def)
  then show ?case using y(2,3) ys(1,2) by (intro exI [of _ "y # ys"]) simp
qed

lemma read_list:
  assumes "\<forall>x \<in> set xs. printable x \<and> reads_below n json x (print_json x spaced (tabs + 1))"
  shows "reads_below (Suc n) (json_list_from_stream_no_trim json n) (JList xs) (print_json (JList xs) spaced tabs)"
  unfolding reads_below_def
proof (intro allI impI)
  fix tail assume tail: "number_end tail" "length (print_json (JList xs) spaced tabs) + length tail < Suc n"
  have "\<exists>ys. list_all2 json_same xs ys \<and> (\<forall>y \<in> set ys. json_ok y) \<and>
      list_body json n (list_stream (print_json (JList xs) spaced tabs @ tail)) [] =
      Some (PARSER_SUCCESS, (ys, int (delete_eles ys)), list_stream tail)"
  proof (cases xs)
    case Nil
    then show ?thesis by (simp add: list_body_def commas_items trim_line is_ws_def)
  next
    case (Cons x xs')
    let ?txt = "print_json x spaced (tabs + 1)"
    let ?rest = "items False (map (\<lambda>x. line_text spaced (tabs + 1) @ print_json x spaced (tabs + 1)) xs') @
      line_text spaced tabs @ 0x5D # tail"
    have x: "printable x" "reads_below n json x ?txt" using assms Cons by simp_all
    have len: "length ?txt + length ?rest < n" "length ?rest \<le> min n n"
      using tail(2) Cons by (simp_all add: commas_items)
    obtain y where y: "\<And>l live k. list_element json (list_stream (?txt @ ?rest)) l live k =
        k (list_stream ?rest) (l @ [y]) (live + int (delete_json y))" "json_same x y" "json_ok y"
      using read_element [OF x(2) number_end_items len(1)] by blast
    obtain ys where ys: "list_all2 json_same xs' ys" "\<forall>y \<in> set ys. json_ok y"
      "list_loop json n (list_stream ?rest) [y] (int (delete_json y)) =
        Some (PARSER_SUCCESS, ([y] @ ys, int (delete_json y) + int (delete_eles ys)), list_stream tail)"
      using read_list_loop [of xs' n json spaced tabs tail n "[y]" "int (delete_json y)"] assms Cons len(2) by auto
    obtain c cs where c: "?txt = c # cs" "\<not> is_ws c" "c \<noteq> 0x5D" using print_starts [OF x(1)] by blast
    have "list_body json n (list_stream (print_json (JList xs) spaced tabs @ tail)) [] =
        list_element json (list_stream (?txt @ ?rest)) [] 0 (\<lambda>is l live. list_loop json n is l live)"
      using c by (simp add: list_body_def commas_items Cons trim_line)
    also have "\<dots> = Some (PARSER_SUCCESS, (y # ys, int (delete_eles (y # ys))), list_stream tail)"
      using y(1) ys(3) by simp
    finally show ?thesis using y(2,3) ys(1,2) Cons by (intro exI [of _ "y # ys"]) simp
  qed
  then obtain ys where ys: "list_all2 json_same xs ys" "\<forall>y \<in> set ys. json_ok y"
    "list_body json n (list_stream (print_json (JList xs) spaced tabs @ tail)) [] =
      Some (PARSER_SUCCESS, (ys, int (delete_eles ys)), list_stream tail)" by blast
  then show "reads (json_list_from_stream_no_trim json n) (JList xs) (print_json (JList xs) spaced tabs) tail"
    unfolding reads_def
    by (intro exI [of _ "JList ys"])
      (simp add: json_list_from_stream_no_trim_def new_json_list_def json_sets del: print_json.simps)
qed

lemma key_c_str: "key_printable k \<Longrightarrow> c_str k = k"
  by (rule c_str_no_nul) (auto simp: key_printable_def no_nul_def list_all_iff)

lemma read_kvp:
  assumes "key_printable k" "printable v" "reads_below m json v (print_json v spaced tabs)"
    and "number_end tail" "length (print_json v spaced tabs) + length tail < m"
  shows "\<exists>w. (\<forall>hm live. json_kvp_from_stream_no_trim json
      (list_stream (key_text k spaced @ print_json v spaced tabs @ tail)) hm live =
      Some (PARSER_SUCCESS, (object_put hm k w, live + 1 + int (delete_json w)), list_stream tail)) \<and>
    json_same v w \<and> json_ok w"
proof -
  have "reads json v (print_json v spaced tabs) tail" using assms(3-5) by (simp add: reads_below_def)
  then obtain w where w: "json (list_stream (print_json v spaced tabs @ tail)) =
      Some (PARSER_SUCCESS, (Some w, int (delete_json w)), list_stream tail)" "json_same v w" "json_ok w"
    by (auto simp: reads_def)
  have "dropWhile is_ws ((if spaced then [0x20] else []) @ print_json v spaced tabs @ tail) = print_json v spaced tabs @ tail"
    using trim_print [OF assms(2)] by (simp add: is_ws_def)
  then have "kvp_body json (list_stream (key_text k spaced @ print_json v spaced tabs @ tail)) [] =
      Some (PARSER_SUCCESS, (k, Some w, int (delete_json w)), list_stream tail)"
    using read_key [OF assms(1), of "0x3A # (if spaced then [0x20] else []) @ print_json v spaced tabs @ tail" "[]"] w(1)
    by (simp add: kvp_body_def string_body_def key_text_def key_c_str [OF assms(1)] is_ws_def split del: if_split)
  then show ?thesis using w(2,3) by (intro exI [of _ w]) (simp add: json_kvp_from_stream_no_trim_def)
qed

abbreviation item_text :: "bool \<Rightarrow> nat \<Rightarrow> byte list \<times> json_t \<Rightarrow> byte list" where
  "item_text spaced tabs \<equiv>
     (\<lambda>(k, v). line_text spaced (tabs + 1) @ key_text k spaced @ print_json v spaced (tabs + 1))"

abbreviation same_item :: "byte list \<times> json_t \<Rightarrow> byte list \<times> json_t \<Rightarrow> bool" where
  "same_item \<equiv> (\<lambda>(k, v) (k', v'). k = k' \<and> json_same v v')"

text \<open>What is allocated for a list of items.\<close>

definition items_live :: "(byte list \<times> json_t) list \<Rightarrow> nat" where
  "items_live al = (\<Sum>p\<leftarrow>al. 1 + delete_json (snd p))"

definition puts :: "json_kv list list \<Rightarrow> (byte list \<times> json_t) list \<Rightarrow> json_kv list list" where
  "puts hm al = foldl (\<lambda>hm (k, v). object_put hm k v) hm al"

lemma puts_simps [simp]: "puts hm [] = hm" "puts hm ((k, v) # al) = puts (object_put hm k v) al"
  by (simp_all add: puts_def)

lemma items_live_simps [simp]: "items_live [] = 0" "items_live ((k, v) # al) = 1 + delete_json v + items_live al"
  by (simp_all add: items_live_def)

lemma read_object_loop:
  "\<forall>(k, v) \<in> set al. key_printable k \<and> printable v \<and> reads_below m json v (print_json v spaced (tabs + 1)) \<Longrightarrow>
   length (items False (map (item_text spaced tabs) al) @ line_text spaced tabs @ 0x7D # tail) \<le> min m n \<Longrightarrow>
   \<exists>al'. list_all2 same_item al al' \<and> (\<forall>p \<in> set al'. json_ok (snd p)) \<and>
     object_loop json n (list_stream (items False (map (item_text spaced tabs) al) @ line_text spaced tabs @ 0x7D # tail)) hm live =
     Some (PARSER_SUCCESS, (puts hm al', live + int (items_live al')), list_stream tail)"
proof (induction al arbitrary: n hm live)
  case Nil
  then obtain n' where "n = Suc n'" by (cases n) auto
  then show ?case by (simp add: trim_line is_ws_def)
next
  case (Cons p al)
  obtain k v where p: "p = (k, v)" by (cases p)
  let ?rest = "items False (map (item_text spaced tabs) al) @ line_text spaced tabs @ 0x7D # tail"
  let ?txt = "print_json v spaced (tabs + 1)"
  obtain n' where n: "n = Suc n'" using Cons.prems(2) by (cases n) auto
  have v: "key_printable k" "printable v" "reads_below m json v ?txt" using Cons.prems(1) by (simp_all add: p)
  have len: "length ?txt + length ?rest < m" "length ?rest \<le> min m n'" using Cons.prems(2) n by (simp_all add: p)
  obtain w where w: "\<And>hm live. json_kvp_from_stream_no_trim json (list_stream (key_text k spaced @ ?txt @ ?rest)) hm live =
      Some (PARSER_SUCCESS, (object_put hm k w, live + 1 + int (delete_json w)), list_stream ?rest)"
    "json_same v w" "json_ok w" using read_kvp [OF v number_end_items len(1)] by blast
  obtain al' where al': "list_all2 same_item al al'" "\<forall>p \<in> set al'. json_ok (snd p)"
    "object_loop json n' (list_stream ?rest) (object_put hm k w) (live + 1 + int (delete_json w)) =
      Some (PARSER_SUCCESS, (puts (object_put hm k w) al', live + 1 + int (delete_json w) + int (items_live al')), list_stream tail)"
    using Cons.IH [of n' "object_put hm k w" "live + 1 + int (delete_json w)"] Cons.prems(1) len(2) by auto
  have key: "dropWhile is_ws (key_text k spaced @ cs) = key_text k spaced @ cs" for cs
    by (simp add: key_text_def is_ws_def)
  have "object_loop json n (list_stream (items False (map (item_text spaced tabs) (p # al)) @ line_text spaced tabs @ 0x7D # tail)) hm live =
     Some (PARSER_SUCCESS, (puts hm ((k, w) # al'), live + int (items_live ((k, w) # al'))), list_stream tail)"
    using w(1) al'(3) by (simp add: n p trim_line key is_ws_def)
  then show ?case using w(2,3) al'(1,2) p by (intro exI [of _ "(k, w) # al'"]) simp
qed

text \<open>The text of an object with the items \<open>al\<close>, whose keys need not be distinct.\<close>

definition object_text :: "(byte list \<times> json_t) list \<Rightarrow> bool \<Rightarrow> nat \<Rightarrow> byte list" where
  "object_text al spaced tabs = 0x7B # commas (map (item_text spaced tabs) al) @ line_text spaced tabs @ [0x7D]"

lemma print_object: "print_json (JObject cs) spaced tabs = object_text (kvs cs) spaced tabs"
  by (simp add: object_text_def)

lemma read_object_body:
  assumes "\<forall>(k, v) \<in> set al. key_printable k \<and> printable v \<and> reads_below n json v (print_json v spaced (tabs + 1))"
    and "length (object_text al spaced tabs) + length tail \<le> n"
  shows "\<exists>al'. list_all2 same_item al al' \<and> (\<forall>p \<in> set al'. json_ok (snd p)) \<and>
     json_object_from_stream_no_trim json n (list_stream (object_text al spaced tabs @ tail)) =
     Some (PARSER_SUCCESS, (Some (JObject (puts (replicate 8 []) al')), 1 + int (items_live al')), list_stream tail)"
proof (cases al)
  case Nil
  then show ?thesis
    by (simp add: json_object_from_stream_no_trim_def new_object object_body_def object_text_def commas_items trim_line is_ws_def)
next
  case (Cons p al1)
  obtain k v where p: "p = (k, v)" by (cases p)
  let ?rest = "items False (map (item_text spaced tabs) al1) @ line_text spaced tabs @ 0x7D # tail"
  let ?txt = "print_json v spaced (tabs + 1)"
  have v: "key_printable k" "printable v" "reads_below n json v ?txt" using assms(1) Cons by (simp_all add: p)
  have len: "length ?txt + length ?rest < n" "length ?rest \<le> min n n"
    using assms(2) Cons by (simp_all add: p object_text_def commas_items)
  obtain w where w: "\<And>hm live. json_kvp_from_stream_no_trim json (list_stream (key_text k spaced @ ?txt @ ?rest)) hm live =
      Some (PARSER_SUCCESS, (object_put hm k w, live + 1 + int (delete_json w)), list_stream ?rest)"
    "json_same v w" "json_ok w" using read_kvp [OF v number_end_items len(1)] by blast
  obtain al' where al': "list_all2 same_item al1 al'" "\<forall>p \<in> set al'. json_ok (snd p)"
    "object_loop json n (list_stream ?rest) (object_put (replicate 8 []) k w) (1 + int (delete_json w)) =
      Some (PARSER_SUCCESS, (puts (object_put (replicate 8 []) k w) al', 1 + int (delete_json w) + int (items_live al')), list_stream tail)"
    using read_object_loop [of al1 n json spaced tabs tail n "object_put (replicate 8 []) k w" "1 + int (delete_json w)"]
      assms(1) Cons len(2) by auto
  obtain key where key: "key_text k spaced = 0x22 # key" by (simp add: key_text_def)
  have "object_body json n (list_stream (object_text al spaced tabs @ tail)) (replicate 8 []) =
      valid_parse (json_kvp_from_stream_no_trim json (list_stream (key_text k spaced @ ?txt @ ?rest)) (replicate 8 []) 0)
        (\<lambda>s. s) (\<lambda>(hm, live) is. object_loop json n is hm live)"
    by (simp add: object_body_def object_text_def commas_items Cons p trim_line key is_ws_def)
  also have "\<dots> = Some (PARSER_SUCCESS, (puts (replicate 8 []) ((k, w) # al'), int (items_live ((k, w) # al'))), list_stream tail)"
    using w(1) al'(3) by simp
  finally have "json_object_from_stream_no_trim json n (list_stream (object_text al spaced tabs @ tail)) =
     Some (PARSER_SUCCESS, (Some (JObject (puts (replicate 8 []) ((k, w) # al'))), 1 + int (items_live ((k, w) # al'))), list_stream tail)"
    by (simp add: json_object_from_stream_no_trim_def new_object)
  then show ?thesis using w(2,3) al'(1,2) Cons p by (intro exI [of _ "(k, w) # al'"]) simp
qed

lemma puts_rel:
  "str_key.rel (object_map hm) al0 \<Longrightarrow> distinct (map fst al @ map fst al0) \<Longrightarrow>
   \<forall>p \<in> set al \<union> set al0. no_nul (fst p) \<Longrightarrow> str_key.rel (object_map (puts hm al)) (rev al @ al0)"
proof (induction al arbitrary: hm al0)
  case (Cons p al)
  obtain k v where p: "p = (k, v)" by (cases p)
  have "str_key.rel (object_map (object_put hm k v)) ((k, v) # al0)"
    by (rule object_put_new [OF Cons.prems(1)]) (use Cons.prems(2,3) p in auto)
  from Cons.IH [OF this] Cons.prems(2,3) p show ?case by auto
qed simp

lemma rel_delete:
  assumes "str_key.rel (object_map hm) al"
  shows "delete_chains hm = items_live al"
  using rel_kvs [OF assms] by (simp add: delete_chains_kvs items_live_def flip: sum_mset_sum_list)

lemma rel_ok:
  assumes "str_key.rel (object_map hm) al" "\<forall>p \<in> set al. json_ok (snd p)"
  shows "json_ok (JObject hm)"
  using assms mset_eq_setD [OF rel_kvs [OF assms(1)]] by (auto simp: json_sets str_key.rel_def)

lemma read_object:
  assumes "str_key.inv (object_map cs)"
    and "\<forall>(k, v) \<in> set (kvs cs). key_printable k \<and> printable v \<and> reads_below n json v (print_json v spaced (tabs + 1))"
  shows "reads_below (Suc n) (json_object_from_stream_no_trim json n) (JObject cs) (print_json (JObject cs) spaced tabs)"
  unfolding reads_below_def reads_def print_object
proof (intro allI impI)
  fix tail assume "number_end tail" "length (object_text (kvs cs) spaced tabs) + length tail < Suc n"
  then obtain al where al: "list_all2 same_item (kvs cs) al" "\<forall>p \<in> set al. json_ok (snd p)"
    "json_object_from_stream_no_trim json n (list_stream (object_text (kvs cs) spaced tabs @ tail)) =
     Some (PARSER_SUCCESS, (Some (JObject (puts (replicate 8 []) al)), 1 + int (items_live al)), list_stream tail)"
    using read_object_body [OF assms(2), of tail] by auto
  have keys: "map fst al = map fst (kvs cs)"
    using al(1) by (induction rule: list_all2_induct) auto
  have "\<forall>k \<in> set (map fst al). no_nul k" unfolding keys using kvs_no_nul [OF assms(1)] by auto
  moreover have "distinct (map fst al)" unfolding keys by (rule kvs_distinct [OF assms(1)])
  ultimately have rel: "str_key.rel (object_map (puts (replicate 8 []) al)) (rev al)"
    using puts_rel [OF new_object_rel, of al] by simp
  have "items_live (rev al) = items_live al" by (simp add: items_live_def rev_map [symmetric])
  then have "json_object_from_stream_no_trim json n (list_stream (object_text (kvs cs) spaced tabs @ tail)) =
      Some (PARSER_SUCCESS, (Some (JObject (puts (replicate 8 []) al)), int (delete_json (JObject (puts (replicate 8 []) al)))),
        list_stream tail)"
    using al(3) rel_delete [OF rel] by simp
  moreover have "json_same (JObject cs) (JObject (puts (replicate 8 []) al))"
    by (rule same_pairs_equal [OF assms(1) rel _ al(1)]) simp
  moreover have "json_ok (JObject (puts (replicate 8 []) al))" using rel_ok [OF rel] al(2) by simp
  ultimately show "\<exists>v. json_object_from_stream_no_trim json n (list_stream (object_text (kvs cs) spaced tabs @ tail)) =
      Some (PARSER_SUCCESS, (Some v, int (delete_json v)), list_stream tail) \<and> json_same (JObject cs) v \<and> json_ok v"
    by blast
qed

section \<open>Values\<close>

lemma read_json:
  "json_ok j \<Longrightarrow> printable j \<Longrightarrow> reads_below n (json_from_in_stream_no_trim n) j (print_json j spaced tabs)"
proof (induction j arbitrary: n tabs rule: json_induct)
  case (JObject cs)
  show ?case
  proof (cases n)
    case (Suc m)
    have "\<forall>(k, v) \<in> set (kvs cs). key_printable k \<and> printable v \<and>
        reads_below m (json_from_in_stream_no_trim m) v (print_json v spaced (tabs + 1))"
      using JObject by (auto simp: json_sets)
    moreover have "str_key.inv (object_map cs)" using JObject.prems(1) by simp
    ultimately have "reads_below n (json_object_from_stream_no_trim (json_from_in_stream_no_trim m) m) (JObject cs)
        (print_json (JObject cs) spaced tabs)" using read_object Suc by blast
    then show ?thesis by (simp add: reads_below_def reads_def Suc)
  qed (simp add: reads_below_def)
next
  case (JList xs)
  show ?case
  proof (cases n)
    case (Suc m)
    have "\<forall>x \<in> set xs. printable x \<and> reads_below m (json_from_in_stream_no_trim m) x (print_json x spaced (tabs + 1))"
      using JList by (auto simp: json_sets)
    then have "reads_below n (json_list_from_stream_no_trim (json_from_in_stream_no_trim m) m) (JList xs)
        (print_json (JList xs) spaced tabs)" using read_list Suc by blast
    then show ?thesis by (simp add: reads_below_def reads_def Suc)
  qed (simp add: reads_below_def)
next
  case (JString s)
  have "string_body (list_stream (print_json (JString s) spaced tabs @ tail)) [] =
      Some (PARSER_SUCCESS, c_str s, list_stream tail)" for tail
    using JString.prems(2) read_string [of "c_str s" "0x22 # tail" "[]"] by (simp add: string_body_def read_quote)
  then have "json_string_from_in_stream_no_trim (list_stream (print_json (JString s) spaced tabs @ tail)) =
      Some (PARSER_SUCCESS, (Some (JString (c_str s)), int (delete_json (JString (c_str s)))), list_stream tail)" for tail
    by (simp add: json_string_from_in_stream_no_trim_def string_from_in_stream_no_trim_def new_json_string_def)
  moreover have "json_same (JString s) (JString (c_str s))"
    by (simp add: str_eq_def c_str_def takeWhile_idem)
  ultimately show ?case by (cases n) (auto simp: reads_below_def reads_def)
next
  case (JNumber m)
  have "reads (json_from_in_stream_no_trim (Suc n)) (JNumber m) (print_json (JNumber m) spaced tabs) tail"
    if "number_end tail" for n tail
  proof -
    obtain c cs where c: "take 25 (format_g15 m) = c # cs" "is_number_like c"
      using JNumber.prems(2) by (cases "take 25 (format_g15 m)") (auto simp: number_printable_def Let_def)
    from JNumber.prems(2) have "number_printable m" by simp
    from number_like_starts [OF c(2)] read_number [OF this that] c(1) show ?thesis by (auto simp: reads_def)
  qed
  then show ?case by (cases n) (auto simp: reads_below_def simp del: json_from_in_stream_no_trim.simps(2))
next
  case (JBoolean b)
  show ?case by (cases n; cases b) (simp_all add: reads_below_def reads_def new_json_boolean_def)
next
  case JNull
  show ?case by (cases n) (simp_all add: reads_below_def reads_def json_null_def)
qed

lemma read_printed:
  assumes "json_ok j" "printable j" "number_end tail" "length (print_json j spaced tabs @ tail) < n"
  shows "\<exists>v. json_from_in_stream n (list_stream (print_json j spaced tabs @ tail)) =
      Some (PARSER_SUCCESS, (Some v, int (delete_json v)), list_stream tail) \<and> json_same j v \<and> json_ok v"
  using read_json [OF assms(1,2), of n spaced tabs] assms(3,4)
  by (simp add: json_from_in_stream_def trim_print [OF assms(2)] reads_below_def reads_def)

section \<open>From the list to the streams of the library\<close>

lemma string_at: "sis.at (new_in_stream_from_string cs) cs"
  by (simp add: stands_def new_in_stream_from_string_def new_string_in_stream_def sis_rest_def)

lemma file_at: "fis.at (the (new_in_stream_from_file (Some cs))) cs"
  using fgetc_ok [of cs]
  by (auto simp: stands_def new_in_stream_from_file_def new_file_in_stream_def split: prod.split)

lemma parse_string:
  assumes "json_from_in_stream n (list_stream cs) = Some (ps, r, list_stream tail)"
  shows "\<exists>is. json_from_in_stream n (new_in_stream_from_string cs) = Some (ps, r, is) \<and> sis_rest (is_data is) = tail"
  using sis.parser_blind [OF string_at, of n cs] assms by (auto simp: sis.same_end_def stands_def)

lemma parse_file:
  assumes "json_from_in_stream n (list_stream cs) = Some (ps, r, list_stream tail)"
  shows "\<exists>is. json_from_in_stream n (the (new_in_stream_from_file (Some cs))) = Some (ps, r, is) \<and> fis_rest (is_data is) = tail"
  using fis.parser_blind [OF file_at, of n cs] assms by (auto simp: fis.same_end_def stands_def)

lemma parse_list:
  assumes "length cs < n"
  shows "ends cs (value_end cs) (json_from_in_stream n (list_stream cs))"
proof -
  let ?ds = "dropWhile is_ws cs"
  have suf: "suffix ?ds cs" by (rule suffix_dropWhile)
  have "ends ?ds (value_end ?ds) (json_from_in_stream_no_trim n (list_stream ?ds))"
    using ends_json [of n] suffix_length_le [OF suf] assms by (simp add: parses_below_def)
  then have "ends cs (value_end cs) (json_from_in_stream_no_trim n (list_stream ?ds))"
    by (rule ends_weaken [OF _ suf])
      (use suffix_length_le [OF suf] in \<open>auto simp: value_end_def split: if_splits\<close>)
  then show ?thesis by (simp add: json_from_in_stream_def)
qed

lemma read_quoted:
  assumes "c_str s = a @ 0x22 # b" "list_all char_printable a"
  shows "\<exists>rest. json_from_in_stream (Suc n) (list_stream (print_json (JString s) spaced tabs @ tail)) =
    Some (PARSER_SYNTAX_ERROR, (None, 0), list_stream rest)"
proof -
  have "string_loop (list_stream (0x5C # 0x22 # cs)) a = Some (PARSER_SYNTAX_ERROR, a, list_stream cs)" for cs
    by (subst string_loop.simps) (simp add: expect_control_suffix_def)
  then show ?thesis
    using read_string [OF assms(2), of "0x5C # 0x22 # concat (map escape_char b) @ 0x22 # tail" "[]"]
    by (simp add: json_from_in_stream_def is_ws_def json_string_from_in_stream_no_trim_def
        string_from_in_stream_no_trim_def string_body_def assms(1) escape_char_def [of "0x22"])
qed

lemma puts_twice:
  assumes "no_nul k"
  shows "str_key.rel (object_map (puts (replicate 8 []) [(k, v), (k, w)])) [(k, w)]"
proof -
  have "str_key.rel (object_map (object_put (replicate 8 []) k v)) [(k, v)]"
    using object_put_rel [OF new_object_rel assms, of v] by (simp add: alist_put_def)
  from object_put_rel [OF this assms, of w] show ?thesis by (simp add: alist_put_def str_eq_def)
qed

lemma put_printable:
  assumes "cs \<noteq> []" "printable (JObject cs)" "key_printable k" "printable v"
  shows "printable (JObject (object_put cs k v))"
proof -
  have all: "printable (JObject ds) \<longleftrightarrow> (\<forall>kv \<in># mset (concat ds). key_printable (kv_k kv) \<and> printable (kv_v kv))" for ds
    by (simp add: kvs_all)
  show ?thesis using object_put_nodes(1) [OF assms(1), of k v] assms(2-4) unfolding all
    by (elim disjE exE conjE) (simp_all del: set_mset_mset)
qed

lemma put_kvps_printable:
  "cs \<noteq> [] \<Longrightarrow> printable (JObject cs) \<Longrightarrow>
   \<forall>p \<in> set args. (\<forall>x. fst p = Some x \<longrightarrow> key_printable x) \<and> (\<forall>v. snd p = Some v \<longrightarrow> printable v) \<Longrightarrow>
   printable (JObject (put_kvps args cs))"
proof (induction args cs rule: put_kvps.induct)
  case (1 key val args cs)
  have "printable (JObject (object_put cs key val))" using 1(2-4) by (intro put_printable) simp_all
  moreover have "object_put cs key val \<noteq> []" by (rule object_put_nodes(2) [OF 1(2)])
  ultimately show ?case using 1(1,4) by (simp del: printable_simps)
qed (simp_all del: printable_simps)

section \<open>Properties\<close>

text \<open>C6. A value that the printer can express, printed with or without line breaks and parsed again from
  the string, gives a well-formed value that \<open>json_equals\<close> finds equal to the first, wherever the
  iterators of the two stand; the parser stops right behind it and holds
  exactly the objects that deleting the value frees.\<close>

theorem json_roundtrip:
  assumes "json_ok j" "printable j" "number_end tail"
  shows "\<exists>v is. json_from_in_stream (length (json_to_string j spaced @ tail) + 1 + extra)
      (new_in_stream_from_string (json_to_string j spaced @ tail)) =
    Some (PARSER_SUCCESS, (Some v, int (delete_json v)), is) \<and>
    (\<forall>it. \<exists>it'. json_equals [j, v] [0] [1] it = Some (True, it')) \<and> json_ok v \<and>
    sis_rest (is_data is) = tail"
proof -
  from read_printed [OF assms, of spaced 0 "length (json_to_string j spaced @ tail) + 1 + extra"] obtain v where
    v: "json_from_in_stream (length (json_to_string j spaced @ tail) + 1 + extra) (list_stream (json_to_string j spaced @ tail)) =
      Some (PARSER_SUCCESS, (Some v, int (delete_json v)), list_stream tail)" "json_same j v" "json_ok v"
    by (auto simp: json_to_string_eq)
  have "\<exists>it'. json_equals [j, v] [0] [1] it = Some (True, it')" for it
    using json_equals_separate [of "[j, v]" "[0]" j "[1]" v it] assms(1) v(2,3) by (auto simp: parallel_def)
  with parse_string [OF v(1)] v(3) show ?thesis by blast
qed

theorem json_roundtrip_witness:
  "\<exists>v is. json_from_in_stream (length (json_to_string (new_json_object_from_kvps
        [(Some [0x61], Some (JList [JNumber (double_of_int 42), JString [0x78, 0x0A], JBoolean True])), (Some [0x62], Some JNull)])
        True @ [0x0A]) + 1 + 0)
      (new_in_stream_from_string (json_to_string (new_json_object_from_kvps
        [(Some [0x61], Some (JList [JNumber (double_of_int 42), JString [0x78, 0x0A], JBoolean True])), (Some [0x62], Some JNull)])
        True @ [0x0A])) =
    Some (PARSER_SUCCESS, (Some v, int (delete_json v)), is) \<and>
    (\<forall>it. \<exists>it'. json_equals [new_json_object_from_kvps
        [(Some [0x61], Some (JList [JNumber (double_of_int 42), JString [0x78, 0x0A], JBoolean True])), (Some [0x62], Some JNull)], v]
        [0] [1] it = Some (True, it')) \<and>
    json_ok v \<and> sis_rest (is_data is) = [0x0A]"
proof (rule json_roundtrip)
  let ?args = "[(Some [0x61], Some (JList [JNumber (double_of_int 42), JString [0x78, 0x0A], JBoolean True])), (Some [0x62], Some JNull)]"
  have j: "new_json_object_from_kvps ?args = JObject (put_kvps ?args (replicate 8 []))"
    by (simp add: new_json_object_from_kvps_def new_object)
  show "json_ok (new_json_object_from_kvps ?args)" unfolding j
    by (rule put_kvps_ok) (use new_object_ok in \<open>auto simp: new_object no_nul_def\<close>)
  show "printable (new_json_object_from_kvps ?args)" unfolding j
    by (rule put_kvps_printable)
      (use int_printable(1) [of 42] in \<open>auto simp: kvs_def key_printable_def char_printable_def c_str_def\<close>)
  show "number_end [0x0A]" by (simp add: number_end_def is_number_like_def)
qed

text \<open>C24. An integer of at most fifteen digits survives printing and parsing exactly: the parser gives back
  the very same double, whatever character that cannot belong to a number follows.\<close>

theorem integer_roundtrip:
  assumes "\<bar>i\<bar> < 10 ^ 15" "number_end tail"
  shows "\<exists>is. json_from_in_stream (n + 1) (new_in_stream_from_string (json_to_string (JNumber (double_of_int i)) spaced @ tail)) =
    Some (PARSER_SUCCESS, (Some (JNumber (double_of_int i)), 1), is) \<and> sis_rest (is_data is) = tail"
proof -
  note t = int_printable [OF assms(1)]
  obtain c cs where c: "int_text i = c # cs" "is_number_like c"
    using int_text_digits [of i] by (cases "int_text i") (auto simp: is_number_like_def is_digit_def)
  have "json_from_in_stream (n + 1) (list_stream (json_to_string (JNumber (double_of_int i)) spaced @ tail)) =
      Some (PARSER_SUCCESS, (Some (JNumber (double_of_int i)), 1), list_stream tail)"
    using read_number(1) [OF t(1) assms(2)] number_like_starts [OF c(2)] c(1) int_read [of i]
    by (auto simp: json_from_in_stream_def json_to_string_eq t(2))
  from parse_string [OF this] show ?thesis by blast
qed

theorem integer_roundtrip_witness:
  "\<exists>is. json_from_in_stream (5 + 1) (new_in_stream_from_string (json_to_string (JNumber (double_of_int (- 123))) False @ [0x2C])) =
    Some (PARSER_SUCCESS, (Some (JNumber (double_of_int (- 123))), 1), is) \<and> sis_rest (is_data is) = [0x2C]"
  by (rule integer_roundtrip) (simp_all add: number_end_def is_number_like_def)

text \<open>C23. The parser always comes to an end, whatever the characters: fuel for one more than their
  number is enough.  It never reads past the end, stops before a suffix of the input, and either makes a
  value and consumes something, or reports a syntax error; deleting never frees more than was
  allocated.\<close>

theorem json_parser_total:
  "\<exists>ps j live is. json_from_in_stream (length cs + 1 + extra) (new_in_stream_from_string cs) = Some (ps, (j, live), is) \<and>
     suffix (sis_rest (is_data is)) cs \<and>
     (ps = PARSER_SUCCESS \<and> (\<exists>v. j = Some v \<and> int (delete_json v) \<le> live) \<and> length (sis_rest (is_data is)) < length cs \<or>
      ps = PARSER_SYNTAX_ERROR \<and> j = None \<and> 0 \<le> live)"
proof -
  have "ends cs (value_end cs) (json_from_in_stream (length cs + 1 + extra) (list_stream cs))"
    by (rule parse_list) simp
  then obtain ps j live rest where r: "json_from_in_stream (length cs + 1 + extra) (list_stream cs) = Some (ps, (j, live), list_stream rest)"
    "suffix rest cs" "ps = PARSER_SUCCESS \<or> ps = PARSER_SYNTAX_ERROR" "value_end cs ps (j, live) rest"
    by (auto simp: ends_def)
  from parse_string [OF r(1)] r(2-4) show ?thesis by (auto simp: value_end_def)
qed

text \<open>A string and a file with the same characters parse alike: the same state, value and number of
  live objects, and the same characters are left; with too little fuel both runs are cut off.\<close>

theorem json_stream_independent:
  "map_option (\<lambda>(ps, r, is). (ps, r, sis_rest (is_data is))) (json_from_in_stream n (new_in_stream_from_string cs)) =
   map_option (\<lambda>(ps, r, is). (ps, r, fis_rest (is_data is))) (json_from_in_stream n (the (new_in_stream_from_file (Some cs))))"
  using sis.parser_blind [OF string_at, of n cs] fis.parser_blind [OF file_at, of n cs]
  by (auto simp: sis.same_end_def fis.same_end_def stands_def)

text \<open>The printer escapes a quotation mark in a string, but the parser does not know that escape: what
  is printed for a string with a quotation mark is never parsed again.\<close>

theorem printed_quote_rejected:
  assumes "c_str s = a @ 0x22 # b" "list_all char_printable a"
  shows "\<exists>is. json_from_in_stream (n + 1) (new_in_stream_from_string (json_to_string (JString s) spaced)) =
    Some (PARSER_SYNTAX_ERROR, (None, 0), is)"
proof -
  from read_quoted [OF assms, of n spaced 0 "[]"] obtain rest where
    "json_from_in_stream (n + 1) (list_stream (json_to_string (JString s) spaced)) =
      Some (PARSER_SYNTAX_ERROR, (None, 0), list_stream rest)" by (auto simp: json_to_string_eq)
  from parse_string [OF this] show ?thesis by blast
qed

theorem printed_quote_rejected_witness:
  "\<exists>is. json_from_in_stream (7 + 1) (new_in_stream_from_string (json_to_string (JString [0x61, 0x22, 0x62]) False)) =
    Some (PARSER_SYNTAX_ERROR, (None, 0), is)"
  by (rule printed_quote_rejected [where a = "[0x61]" and b = "[0x62]"]) (simp_all add: c_str_def char_printable_def)

text \<open>When an object repeats a key, the parser keeps the last value, and the repeated key and the first
  value stay allocated for ever: more objects are live than deleting the result frees.\<close>

theorem duplicate_key_leaks:
  assumes "key_printable k" "printable v1" "printable v2" "json_ok v1" "json_ok v2"
  shows "\<exists>j live is w. json_from_in_stream (length (object_text [(k, v1), (k, v2)] spaced 0) + 1)
      (new_in_stream_from_string (object_text [(k, v1), (k, v2)] spaced 0)) = Some (PARSER_SUCCESS, (Some j, live), is) \<and>
    json_lookup_key (Some j) k = Some w \<and> json_same v2 w \<and> int (delete_json j) + 1 \<le> live"
proof -
  let ?txt = "object_text [(k, v1), (k, v2)] spaced 0"
  let ?n = "length ?txt"
  have "\<forall>(k, v) \<in> set [(k, v1), (k, v2)]. key_printable k \<and> printable v \<and>
      reads_below ?n (json_from_in_stream_no_trim ?n) v (print_json v spaced (0 + 1))"
    using assms read_json by auto
  from read_object_body [OF this, of "[]"] obtain w1 w2 where w: "json_same v2 w2"
    "json_object_from_stream_no_trim (json_from_in_stream_no_trim ?n) ?n (list_stream ?txt) =
     Some (PARSER_SUCCESS, (Some (JObject (puts (replicate 8 []) [(k, w1), (k, w2)])),
       1 + int (items_live [(k, w1), (k, w2)])), list_stream [])"
    by (auto simp: list_all2_Cons1)
  let ?hm = "puts (replicate 8 []) [(k, w1), (k, w2)]"
  have nul: "no_nul k" using assms(1) by (auto simp: key_printable_def no_nul_def list_all_iff)
  note rel = puts_twice [OF nul, of w1 w2]
  have "hm_get (object_map ?hm) k = Some w2"
    using str_key.get_refines [OF rel nul] by (simp add: alist_get_def str_eq_def)
  moreover have "int (delete_json (JObject ?hm)) + 1 \<le> 1 + int (items_live [(k, w1), (k, w2)])"
    using rel_delete [OF rel] by simp
  moreover obtain text1 where "?txt = 0x7B # text1" by (simp add: object_text_def)
  then have "json_from_in_stream (?n + 1) (list_stream ?txt) = json_object_from_stream_no_trim (json_from_in_stream_no_trim ?n) ?n (list_stream ?txt)"
    by (simp add: json_from_in_stream_def is_ws_def)
  from parse_string [OF trans [OF this w(2)]] obtain "is" where
    "json_from_in_stream (?n + 1) (new_in_stream_from_string ?txt) =
      Some (PARSER_SUCCESS, (Some (JObject ?hm), 1 + int (items_live [(k, w1), (k, w2)])), is)" by blast
  ultimately show ?thesis using w(1) by (auto simp: json_lookup_key_def simp del: puts_simps items_live_simps)
qed


theorem duplicate_key_leaks_witness:
  "\<exists>j live is w. json_from_in_stream (length (object_text [([0x61], JBoolean True), ([0x61], JNull)] False 0) + 1)
      (new_in_stream_from_string (object_text [([0x61], JBoolean True), ([0x61], JNull)] False 0)) = Some (PARSER_SUCCESS, (Some j, live), is) \<and>
    json_lookup_key (Some j) [0x61] = Some w \<and> json_same JNull w \<and> int (delete_json j) + 1 \<le> live"
  by (rule duplicate_key_leaks) (simp_all add: key_printable_def)

end
