(* ===== verification/Chrpc_Serial_Helpers.thy ===== *)
theory Chrpc_Serial_Helpers
  imports Chrpc_Value Chutil_Stream Chjson_Integer
begin

text \<open>
  Types and values as text (\<open>chrpc/src/serial_helpers.c\<close>), written to any output stream.  The result
  is \<open>None\<close> where the code's behaviour is undefined: a union member that the type does not select, a
  block that is too short, a string without terminator, and a number whose text overflows the 40
  characters of \<open>buf\<close>.  \<open>sprintf\<close> is modelled for the formats the code uses, exactly for integers and
  with the C library's correct rounding for \<open>%f\<close>.

  \<open>value_text\<close> is the text as a function of the value.  The code writes it, and stops where the
  stream first refuses a character; only floating-point numbers can overflow \<open>buf\<close>.
\<close>

section \<open>The formats of \<open>sprintf\<close>\<close>

fun le_nat :: "byte list \<Rightarrow> nat" where
  "le_nat [] = 0"
| "le_nat (b # bs) = unat b + 256 * le_nat bs"

definition le_int :: "byte list \<Rightarrow> int" where
  "le_int bs =
     (let n = le_nat bs in if 2 * n < 256 ^ length bs then int n else int n - 256 ^ length bs)"

text \<open>\<open>%u\<close> and \<open>%llu\<close>, \<open>%d\<close> and \<open>%lld\<close>, and \<open>%02X\<close> of a byte.\<close>

definition format_u :: "nat \<Rightarrow> byte list" where
  "format_u n = (if n = 0 then [0x30] else decimal n)"

definition format_d :: "int \<Rightarrow> byte list" where
  "format_d i = (if i < 0 then [0x2D] else []) @ format_u (nat \<bar>i\<bar>)"

definition hex_digit :: "nat \<Rightarrow> byte" where
  "hex_digit n = (if n < 10 then 0x30 + of_nat n else 0x41 + of_nat (n - 10))"

definition format_02X :: "nat \<Rightarrow> byte list" where
  "format_02X n = [hex_digit (n div 16), hex_digit (n mod 16)]"

text \<open>
  The value of the bytes of a \<open>float\<close> or a \<open>double\<close>: \<open>p\<close> bits of fraction, \<open>w\<close> bits of exponent.  A
  \<open>float\<close> is promoted to the same value; its mantissa stays as it is.
\<close>

definition ieee_value :: "nat \<Rightarrow> nat \<Rightarrow> nat \<Rightarrow> double_t" where
  "ieee_value p w n =
     (let s = (n div 2 ^ (p + w) mod 2 = 1);
          e = n div 2 ^ p mod 2 ^ w;
          m = n mod 2 ^ p;
          bias = 2 ^ (w - 1) - 1 + int p
      in if e = 2 ^ w - 1 then (if m = 0 then DInf s else DNan s)
         else if e = 0 then (if m = 0 then DFin s 0 0 else DFin s m (1 - bias))
         else DFin s (m + 2 ^ p) (int e - bias))"

definition f32_value :: "byte list \<Rightarrow> double_t" where
  "f32_value bs = ieee_value 23 8 (le_nat bs)"

definition f64_value :: "byte list \<Rightarrow> double_t" where
  "f64_value bs = ieee_value 52 11 (le_nat bs)"

text \<open>\<open>%f\<close>: six digits after the point.\<close>

definition format_f :: "double_t \<Rightarrow> byte list" where
  "format_f d =
     (case d of
        DNan s \<Rightarrow> (if s then [0x2D] else []) @ [0x6E, 0x61, 0x6E]
      | DInf s \<Rightarrow> (if s then [0x2D] else []) @ [0x69, 0x6E, 0x66]
      | DFin s m e \<Rightarrow>
          let n = round_div (m * 2 ^ nat e * 10 ^ 6) (2 ^ nat (- e))
          in (if s then [0x2D] else []) @ format_u (n div 10 ^ 6) @ 0x2E # digits_of 6 (n mod 10 ^ 6))"

text \<open>\<open>sprintf\<close> into \<open>char buf[40]\<close>, terminator included.\<close>

definition BUF_LEN :: nat where "BUF_LEN = 40"

definition sprintf_buf :: "byte list \<Rightarrow> byte list option" where
  "sprintf_buf cs = (if length cs + 1 \<le> BUF_LEN then Some cs else None)"

section \<open>Printing types\<close>

type_synonym 's print_result = "(stream_state_t \<times> 's out_stream_t) option"

text \<open>\<open>TRY_STREAM_CALL\<close>, \<open>OS_PUTC\<close> and \<open>OS_PUTS\<close> followed by the rest of a function.\<close>

definition try_call ::
    "'s print_result \<Rightarrow> ('s out_stream_t \<Rightarrow> 's print_result) \<Rightarrow> 's print_result" where
  "try_call r k = (case r of None \<Rightarrow> None
     | Some (state, os) \<Rightarrow> if state \<noteq> STREAM_SUCCESS then Some (state, os) else k os)"

definition try_putc ::
    "'s out_stream_t \<Rightarrow> byte \<Rightarrow> ('s out_stream_t \<Rightarrow> 's print_result) \<Rightarrow> 's print_result" where
  "try_putc os c k = try_call (Some (os_putc os c)) k"

definition try_puts ::
    "'s out_stream_t \<Rightarrow> byte list \<Rightarrow> ('s out_stream_t \<Rightarrow> 's print_result) \<Rightarrow> 's print_result" where
  "try_puts os cs k = try_call (Some (os_puts os cs)) k"

fun chrpc_primitive_type_label :: "chrpc_type_t \<Rightarrow> byte list option" where
  "chrpc_primitive_type_label CHRPC_BYTE_T = Some [0x62, 0x38]"
| "chrpc_primitive_type_label CHRPC_INT16_T = Some [0x69, 0x31, 0x36]"
| "chrpc_primitive_type_label CHRPC_INT32_T = Some [0x69, 0x33, 0x32]"
| "chrpc_primitive_type_label CHRPC_INT64_T = Some [0x69, 0x36, 0x34]"
| "chrpc_primitive_type_label CHRPC_UINT16_T = Some [0x75, 0x31, 0x36]"
| "chrpc_primitive_type_label CHRPC_UINT32_T = Some [0x75, 0x33, 0x32]"
| "chrpc_primitive_type_label CHRPC_UINT64_T = Some [0x75, 0x36, 0x34]"
| "chrpc_primitive_type_label CHRPC_FLOAT32_T = Some [0x66, 0x33, 0x32]"
| "chrpc_primitive_type_label CHRPC_FLOAT64_T = Some [0x66, 0x36, 0x34]"
| "chrpc_primitive_type_label CHRPC_STRING_T = Some [0x73, 0x74, 0x72]"
| "chrpc_primitive_type_label _ = None"

definition CHRPC_SERIAL_TAB :: "byte list" where "CHRPC_SERIAL_TAB = [0x20, 0x20]"

text \<open>\<open>TAB_OUT\<close> and an optional line end, each followed by the rest of a function.\<close>

fun tab_loop :: "'s out_stream_t \<Rightarrow> nat \<Rightarrow> ('s out_stream_t \<Rightarrow> 's print_result) \<Rightarrow> 's print_result" where
  "tab_loop os 0 k = k os"
| "tab_loop os (Suc n) k = try_puts os CHRPC_SERIAL_TAB (\<lambda>os. tab_loop os n k)"

definition TAB_OUT ::
    "'s out_stream_t \<Rightarrow> bool \<Rightarrow> nat \<Rightarrow> ('s out_stream_t \<Rightarrow> 's print_result) \<Rightarrow> 's print_result" where
  "TAB_OUT os spaced tabs k = (if spaced then tab_loop os tabs k else k os)"

definition newline_out ::
    "'s out_stream_t \<Rightarrow> bool \<Rightarrow> ('s out_stream_t \<Rightarrow> 's print_result) \<Rightarrow> 's print_result" where
  "newline_out os spaced k = (if spaced then try_putc os 0x0A k else k os)"

text \<open>The loop over the fields of a struct type or value; \<open>field\<close> prints one.\<close>

function fields_loop ::
    "(nat \<Rightarrow> 's out_stream_t \<Rightarrow> 's print_result) \<Rightarrow> bool \<Rightarrow> nat \<Rightarrow> nat \<Rightarrow> 's out_stream_t \<Rightarrow> 's print_result" where
  "fields_loop field spaced num_fields fi os =
     (if fi < num_fields then
        try_call (field fi os) (\<lambda>os. try_putc os 0x3B (\<lambda>os. newline_out os spaced
          (\<lambda>os. fields_loop field spaced num_fields (fi + 1) os)))
      else Some (STREAM_SUCCESS, os))"
  by pat_completeness auto
termination by (relation "measure (\<lambda>(_, _, n, i, _). n - i)") auto

declare fields_loop.simps [simp del]

lemma fields_loop_cong [fundef_cong]:
  assumes "spaced = spaced'" "n = n'" "i = i'" "os = os'" "\<And>j os. j < n' \<Longrightarrow> field j os = field' j os"
  shows "fields_loop field spaced n i os = fields_loop field' spaced' n' i' os'"
proof -
  have "fields_loop field spaced' n' i' os' = fields_loop field' spaced' n' i' os'"
    using assms(5)
  proof (induction field spaced' n' i' os' rule: fields_loop.induct)
    case (1 field spaced n i os)
    show ?case
    proof (cases "i < n")
      case True
      then have "fields_loop field spaced n (i + 1) = fields_loop field' spaced n (i + 1)"
        by (intro ext 1(1) 1(2))
      moreover have "field i os = field' i os" using True by (rule 1(2))
      ultimately show ?thesis by (subst (1 2) fields_loop.simps) simp
    next
      case False
      then show ?thesis by (subst (1 2) fields_loop.simps) simp
    qed
  qed
  then show ?thesis using assms(1-4) by simp
qed

function type_to_stream_at ::
    "'s out_stream_t \<Rightarrow> chrpc_type_t \<Rightarrow> bool \<Rightarrow> nat \<Rightarrow> 's print_result" where
  "type_to_stream_at os ct spaced tabs =
     (if chrpc_type_is_primitive ct then
        TAB_OUT os spaced tabs (\<lambda>os. map_option (os_puts os) (chrpc_primitive_type_label ct))
      else case ct of
        Array cell \<Rightarrow> try_call (type_to_stream_at os cell spaced tabs) (\<lambda>os. Some (os_puts os [0x5B, 0x5D]))
      | Struct field_types \<Rightarrow>
          TAB_OUT os spaced tabs (\<lambda>os. try_putc os 0x7B (\<lambda>os. newline_out os spaced (\<lambda>os.
            try_call
              (fields_loop (\<lambda>fi os. type_to_stream_at os (field_types ! fi) spaced (tabs + 1))
                 spaced (length field_types) 0 os)
              (\<lambda>os. TAB_OUT os spaced tabs (\<lambda>os. try_putc os 0x7D (\<lambda>os. Some (STREAM_SUCCESS, os)))))))
      | _ \<Rightarrow> None)"
  by pat_completeness auto
termination
  by (relation "measure (\<lambda>(_, ct, _, _). size ct)") (auto simp: less_Suc_eq_le intro!: size_list_estimation')

declare type_to_stream_at.simps [simp del]

definition chrpc_type_to_stream :: "'s out_stream_t \<Rightarrow> chrpc_type_t \<Rightarrow> bool \<Rightarrow> 's print_result" where
  "chrpc_type_to_stream os ct spaced = type_to_stream_at os ct spaced 0"

section \<open>Printing values\<close>

text \<open>The switches over the number formats: of an array cell, and of a value by itself.\<close>

fun array_cell_format :: "chrpc_type_t \<Rightarrow> byte list \<Rightarrow> byte list option" where
  "array_cell_format CHRPC_BYTE_T bs = Some ([0x30, 0x78] @ format_02X (le_nat bs))"
| "array_cell_format CHRPC_INT16_T bs = Some (format_d (le_int bs))"
| "array_cell_format CHRPC_INT32_T bs = Some (format_d (le_int bs))"
| "array_cell_format CHRPC_INT64_T bs = Some (format_d (le_int bs))"
| "array_cell_format CHRPC_UINT16_T bs = Some (format_u (le_nat bs))"
| "array_cell_format CHRPC_UINT32_T bs = Some (format_u (le_nat bs))"
| "array_cell_format CHRPC_UINT64_T bs = Some (format_u (le_nat bs))"
| "array_cell_format CHRPC_FLOAT32_T bs = Some (format_f (f32_value bs))"
| "array_cell_format CHRPC_FLOAT64_T bs = Some (format_f (f64_value bs))"
| "array_cell_format _ bs = None"

fun number_format :: "chrpc_type_t \<Rightarrow> byte list \<Rightarrow> byte list option" where
  "number_format CHRPC_BYTE_T bs = Some ([0x30, 0x78] @ format_02X (le_nat bs) @ [0x75])"
| "number_format CHRPC_INT16_T bs = Some (format_d (le_int bs))"
| "number_format CHRPC_INT32_T bs = Some (format_d (le_int bs))"
| "number_format CHRPC_INT64_T bs = Some (format_d (le_int bs))"
| "number_format CHRPC_UINT16_T bs = Some (format_u (le_nat bs))"
| "number_format CHRPC_UINT32_T bs = Some (format_u (le_nat bs))"
| "number_format CHRPC_UINT64_T bs = Some (format_u (le_nat bs))"
| "number_format CHRPC_FLOAT32_T bs = Some (format_f (f32_value bs))"
| "number_format CHRPC_FLOAT64_T bs = Some (format_f (f64_value bs))"
| "number_format _ bs = None"

text \<open>
  \<open>buf\<close> is filled before the tabs are written.  A string is looked through for its terminator
  first, so that printing an unterminated one is undefined also when the stream fails earlier.
\<close>

definition print_number ::
    "'s out_stream_t \<Rightarrow> byte list option \<Rightarrow> bool \<Rightarrow> nat \<Rightarrow> 's print_result" where
  "print_number os text_of spaced tabs = do {
     cs \<leftarrow> text_of;
     buf \<leftarrow> sprintf_buf cs;
     TAB_OUT os spaced tabs (\<lambda>os. try_puts os buf (\<lambda>os. Some (STREAM_SUCCESS, os))) }"

definition print_str :: "'s out_stream_t \<Rightarrow> byte list \<Rightarrow> bool \<Rightarrow> nat \<Rightarrow> 's print_result" where
  "print_str os str spaced tabs = do {
     n \<leftarrow> c_strlen (map Some str);
     TAB_OUT os spaced tabs (\<lambda>os. try_putc os 0x22 (\<lambda>os. try_puts os (take n str)
       (\<lambda>os. try_putc os 0x22 (\<lambda>os. Some (STREAM_SUCCESS, os))))) }"

text \<open>The loop over the cells of an array; \<open>cell\<close> prints one.\<close>

function array_loop ::
    "(nat \<Rightarrow> 's out_stream_t \<Rightarrow> 's print_result) \<Rightarrow> bool \<Rightarrow> nat \<Rightarrow> nat \<Rightarrow> 's out_stream_t \<Rightarrow> 's print_result" where
  "array_loop cell spaced array_len i os =
     (if i < array_len then
        try_call (cell i os) (\<lambda>os.
          (if i < array_len - 1 then try_putc os 0x2C else (\<lambda>k. k os)) (\<lambda>os. newline_out os spaced
            (\<lambda>os. array_loop cell spaced array_len (i + 1) os)))
      else Some (STREAM_SUCCESS, os))"
  by pat_completeness auto
termination by (relation "measure (\<lambda>(_, _, n, i, _). n - i)") auto

declare array_loop.simps [simp del]

lemma array_loop_cong [fundef_cong]:
  assumes "spaced = spaced'" "n = n'" "i = i'" "os = os'" "\<And>j os. j < n' \<Longrightarrow> cell j os = cell' j os"
  shows "array_loop cell spaced n i os = array_loop cell' spaced' n' i' os'"
proof -
  have "array_loop cell spaced' n' i' os' = array_loop cell' spaced' n' i' os'"
    using assms(5)
  proof (induction cell spaced' n' i' os' rule: array_loop.induct)
    case (1 cell spaced n i os)
    show ?case
    proof (cases "i < n")
      case True
      then have "array_loop cell spaced n (i + 1) = array_loop cell' spaced n (i + 1)"
        by (intro ext 1(1) 1(2))
      moreover have "cell i os = cell' i os" using True by (rule 1(2))
      ultimately show ?thesis by (subst (1 2) array_loop.simps) simp
    next
      case False
      then show ?thesis by (subst (1 2) array_loop.simps) simp
    qed
  qed
  then show ?thesis using assms(1-4) by simp
qed

fun iv_array_len :: "chrpc_inner_value_t \<Rightarrow> u32 option" where
  "iv_array_len (IVNumArr _ len) = Some len"
| "iv_array_len (IVStrArr _ len) = Some len"
| "iv_array_len (IVEntries _ len) = Some len"
| "iv_array_len _ = None"

lemma size_entry: "i < length xs \<Longrightarrow> f (xs ! i) \<le> size_list f xs"
  by (rule size_list_estimation' [OF nth_mem order.refl])

text \<open>The bytes of a cell of a numeric array.\<close>

definition num_cell :: "chrpc_type_t \<Rightarrow> byte list \<Rightarrow> nat \<Rightarrow> byte list option" where
  "num_cell cell b i =
     (let n = chrpc_blockable_type_cell_size cell
      in if (i + 1) * n \<le> length b then Some (take n (drop (i * n) b)) else None)"

function chrpc_inner_array_value_to_stream ::
    "'s out_stream_t \<Rightarrow> chrpc_type_t \<Rightarrow> chrpc_inner_value_t \<Rightarrow> bool \<Rightarrow> nat \<Rightarrow> 's print_result"
  and inner_value_to_stream_at ::
    "'s out_stream_t \<Rightarrow> chrpc_type_t \<Rightarrow> chrpc_inner_value_t \<Rightarrow> bool \<Rightarrow> nat \<Rightarrow> 's print_result" where
  "chrpc_inner_array_value_to_stream os ct iv spaced tabs =
     (case (ct, iv_array_len iv) of (Array cell, Some array_len) \<Rightarrow> TAB_OUT os spaced tabs (\<lambda>os.
          if array_len = 0 then try_puts os [0x5B, 0x5D] (\<lambda>os. Some (STREAM_SUCCESS, os))
          else try_putc os 0x5B (\<lambda>os. newline_out os spaced (\<lambda>os. try_call
            (array_loop
               (\<lambda>i os. case iv of
                    IVNumArr b _ \<Rightarrow>
                      print_number os (Option.bind (num_cell cell b i) (array_cell_format cell)) spaced (tabs + 1)
                  | IVStrArr strs _ \<Rightarrow>
                      if cell = CHRPC_STRING_T \<and> i < length strs then print_str os (strs ! i) spaced (tabs + 1)
                      else None
                  | IVEntries ivs _ \<Rightarrow>
                      if \<not> chrpc_type_is_primitive cell \<and> i < length ivs
                      then try_call (inner_value_to_stream_at os cell (ivs ! i) spaced (tabs + 1))
                        (\<lambda>os. Some (STREAM_SUCCESS, os))
                      else None
                  | _ \<Rightarrow> None)
               spaced (unat array_len) 0 os)
            (\<lambda>os. TAB_OUT os spaced tabs (\<lambda>os. try_putc os 0x5D (\<lambda>os. Some (STREAM_SUCCESS, os)))))))
      | _ \<Rightarrow> None)"
| "inner_value_to_stream_at os ct iv spaced tabs =
     (case (ct, iv) of
        (CHRPC_STRING_T, IVStr str) \<Rightarrow> print_str os str spaced tabs
      | (Struct field_types, IVStruct struct_entries) \<Rightarrow>
          TAB_OUT os spaced tabs (\<lambda>os. try_putc os 0x7B (\<lambda>os. newline_out os spaced (\<lambda>os. try_call
            (fields_loop
               (\<lambda>fi os. if fi < length struct_entries
                  then inner_value_to_stream_at os (field_types ! fi) (struct_entries ! fi) spaced (tabs + 1)
                  else None)
               spaced (length field_types) 0 os)
            (\<lambda>os. TAB_OUT os spaced tabs (\<lambda>os. try_putc os 0x7D (\<lambda>os. Some (STREAM_SUCCESS, os)))))))
      | (Array cell, _) \<Rightarrow>
          try_call (chrpc_inner_array_value_to_stream os ct iv spaced tabs) (\<lambda>os. Some (STREAM_SUCCESS, os))
      | (_, IVNumber bs) \<Rightarrow> print_number os (number_format ct bs) spaced tabs
      | _ \<Rightarrow> None)"
  by pat_completeness auto
termination
  by (relation "measure (\<lambda>x. case x of Inl (_, _, iv, _) \<Rightarrow> 2 * size iv | Inr (_, _, iv, _) \<Rightarrow> 2 * size iv + 1)")
    (auto simp: less_Suc_eq_le le_SucI size_entry)

declare chrpc_inner_array_value_to_stream.simps [simp del] inner_value_to_stream_at.simps [simp del]

definition chrpc_inner_value_to_stream ::
    "'s out_stream_t \<Rightarrow> chrpc_type_t \<Rightarrow> chrpc_inner_value_t \<Rightarrow> bool \<Rightarrow> 's print_result" where
  "chrpc_inner_value_to_stream os ct iv spaced = inner_value_to_stream_at os ct iv spaced 0"

definition chrpc_value_to_stream :: "'s out_stream_t \<Rightarrow> chrpc_value_t \<Rightarrow> bool \<Rightarrow> 's print_result" where
  "chrpc_value_to_stream os v spaced =
     try_call (chrpc_type_to_stream os (v_type v) spaced) (\<lambda>os. newline_out os spaced (\<lambda>os.
       try_putc os 0x24 (\<lambda>os. newline_out os spaced (\<lambda>os.
         try_call (chrpc_inner_value_to_stream os (v_type v) (v_value v) spaced)
           (\<lambda>os. Some (STREAM_SUCCESS, os))))))"

text \<open>
  \<open>CHRPC_TRY_PRINT\<close>: what \<open>printf\<close> writes to the standard output, and the blocks freed with the
  stream.
\<close>

definition try_print ::
    "(string_out_stream_t out_stream_t \<Rightarrow> string_out_stream_t print_result) \<Rightarrow> (byte list \<times> nat) option" where
  "try_print func =
     (case func (new_out_stream_to_string []) of None \<Rightarrow> None
      | Some (state, os) \<Rightarrow>
          Some (if state = STREAM_SUCCESS then takeWhile (\<lambda>c. c \<noteq> 0) (sos_builder (os_data os)) @ [0x0A] else [],
                fst (delete_out_stream os)))"

definition chrpc_type_print :: "chrpc_type_t \<Rightarrow> bool \<Rightarrow> (byte list \<times> nat) option" where
  "chrpc_type_print ct spaced = try_print (\<lambda>os. chrpc_type_to_stream os ct spaced)"

definition chrpc_inner_value_print :: "chrpc_type_t \<Rightarrow> chrpc_inner_value_t \<Rightarrow> bool \<Rightarrow> (byte list \<times> nat) option" where
  "chrpc_inner_value_print ct iv spaced = try_print (\<lambda>os. chrpc_inner_value_to_stream os ct iv spaced)"

definition chrpc_value_print :: "chrpc_value_t \<Rightarrow> bool \<Rightarrow> (byte list \<times> nat) option" where
  "chrpc_value_print v spaced = try_print (\<lambda>os. chrpc_value_to_stream os v spaced)"

section \<open>The text of a value\<close>

text \<open>
  The layout as a function: tabs and line ends are there when \<open>spaced\<close>.
\<close>

definition tabs_text :: "bool \<Rightarrow> nat \<Rightarrow> byte list" where
  "tabs_text spaced n = (if spaced then concat (replicate n CHRPC_SERIAL_TAB) else [])"

definition nl_text :: "bool \<Rightarrow> byte list" where
  "nl_text spaced = (if spaced then [0x0A] else [])"

definition struct_text :: "bool \<Rightarrow> nat \<Rightarrow> byte list list \<Rightarrow> byte list" where
  "struct_text spaced tabs cs =
     tabs_text spaced tabs @ 0x7B # nl_text spaced @ concat (map (\<lambda>c. c @ 0x3B # nl_text spaced) cs) @
     tabs_text spaced tabs @ [0x7D]"

fun cells_text :: "bool \<Rightarrow> byte list list \<Rightarrow> byte list" where
  "cells_text spaced [] = []"
| "cells_text spaced (c # cs) = c @ (if cs = [] then [] else [0x2C]) @ nl_text spaced @ cells_text spaced cs"

definition array_text :: "bool \<Rightarrow> nat \<Rightarrow> byte list list \<Rightarrow> byte list" where
  "array_text spaced tabs cs =
     tabs_text spaced tabs @
     (if cs = [] then [0x5B, 0x5D]
      else 0x5B # nl_text spaced @ cells_text spaced cs @ tabs_text spaced tabs @ [0x5D])"

definition str_text :: "byte list \<Rightarrow> byte list" where
  "str_text str = 0x22 # takeWhile (\<lambda>c. c \<noteq> 0) str @ [0x22]"

text \<open>What the formats have to write, from the meaning of the bytes: the names of the primitive types, the
  number that little-endian bytes stand for, signed types in two's complement, in decimal; a byte in
  hexadecimal, with a suffix when it stands by itself.\<close>

definition ascii :: "string \<Rightarrow> byte list" where
  "ascii s = map of_char s"

fun prim_name :: "chrpc_type_t \<Rightarrow> string" where
  "prim_name CHRPC_BYTE_T = ''b8''"
| "prim_name CHRPC_INT16_T = ''i16''"
| "prim_name CHRPC_INT32_T = ''i32''"
| "prim_name CHRPC_INT64_T = ''i64''"
| "prim_name CHRPC_UINT16_T = ''u16''"
| "prim_name CHRPC_UINT32_T = ''u32''"
| "prim_name CHRPC_UINT64_T = ''u64''"
| "prim_name CHRPC_FLOAT32_T = ''f32''"
| "prim_name CHRPC_FLOAT64_T = ''f64''"
| "prim_name CHRPC_STRING_T = ''str''"
| "prim_name _ = []"

definition bytes_value :: "byte list \<Rightarrow> nat" where
  "bytes_value bs = (\<Sum>i < length bs. unat (bs ! i) * 256 ^ i)"

definition hex_char :: "nat \<Rightarrow> char" where
  "hex_char n = ''0123456789ABCDEF'' ! n"

definition number_text :: "bool \<Rightarrow> chrpc_type_t \<Rightarrow> byte list \<Rightarrow> byte list" where
  "number_text alone ct bs =
     (let n = bytes_value bs in case ct of
        CHRPC_BYTE_T \<Rightarrow> ascii (''0x'' @ [hex_char (n div 16), hex_char (n mod 16)] @ (if alone then ''u'' else []))
      | CHRPC_INT16_T \<Rightarrow> int_text (sint (of_nat n :: 16 word))
      | CHRPC_INT32_T \<Rightarrow> int_text (sint (of_nat n :: 32 word))
      | CHRPC_INT64_T \<Rightarrow> int_text (sint (of_nat n :: 64 word))
      | CHRPC_FLOAT32_T \<Rightarrow> format_f (ieee_value 23 8 n)
      | CHRPC_FLOAT64_T \<Rightarrow> format_f (ieee_value 52 11 n)
      | _ \<Rightarrow> int_text (int n))"

fun type_text :: "bool \<Rightarrow> nat \<Rightarrow> chrpc_type_t \<Rightarrow> byte list" where
  "type_text spaced tabs (Array cell) = type_text spaced tabs cell @ [0x5B, 0x5D]"
| "type_text spaced tabs (Struct ts) = struct_text spaced tabs (map (type_text spaced (tabs + 1)) ts)"
| "type_text spaced tabs ct = tabs_text spaced tabs @ ascii (prim_name ct)"

definition nth_cell :: "chrpc_type_t \<Rightarrow> byte list \<Rightarrow> nat \<Rightarrow> byte list" where
  "nth_cell cell b i = take (cell_size cell) (drop (i * cell_size cell) b)"

fun inner_text :: "bool \<Rightarrow> nat \<Rightarrow> chrpc_type_t \<Rightarrow> chrpc_inner_value_t \<Rightarrow> byte list"
  and inner_texts :: "bool \<Rightarrow> nat \<Rightarrow> chrpc_type_t list \<Rightarrow> chrpc_inner_value_t list \<Rightarrow> byte list list" where
  "inner_text spaced tabs ct (IVNumber bs) = tabs_text spaced tabs @ number_text True ct bs"
| "inner_text spaced tabs ct (IVStr str) = tabs_text spaced tabs @ str_text str"
| "inner_text spaced tabs ct (IVNumArr b len) = array_text spaced tabs
     (case ct of Array cell \<Rightarrow>
        map (\<lambda>i. tabs_text spaced (tabs + 1) @ number_text False cell (nth_cell cell b i)) [0..<unat len]
      | _ \<Rightarrow> [])"
| "inner_text spaced tabs ct (IVStrArr strs len) = array_text spaced tabs
     (map (\<lambda>str. tabs_text spaced (tabs + 1) @ str_text str) (take (unat len) strs))"
| "inner_text spaced tabs ct (IVEntries ivs len) = array_text spaced tabs
     (case ct of Array cell \<Rightarrow> inner_texts spaced (tabs + 1) (replicate (unat len) cell) ivs | _ \<Rightarrow> [])"
| "inner_text spaced tabs ct (IVStruct ivs) = struct_text spaced tabs
     (case ct of Struct ts \<Rightarrow> inner_texts spaced (tabs + 1) ts ivs | _ \<Rightarrow> [])"
| "inner_texts spaced tabs (t # ts) (iv # ivs) = inner_text spaced tabs t iv # inner_texts spaced tabs ts ivs"
| "inner_texts spaced tabs _ _ = []"

definition value_text :: "bool \<Rightarrow> chrpc_value_t \<Rightarrow> byte list" where
  "value_text spaced v =
     type_text spaced 0 (v_type v) @ nl_text spaced @ [0x24] @ nl_text spaced @
     inner_text spaced 0 (v_type v) (v_value v)"

text \<open>Every floating-point number of the value has a text that fits \<open>buf\<close>.\<close>

definition float_fits :: "chrpc_type_t \<Rightarrow> byte list \<Rightarrow> bool" where
  "float_fits ct bs \<longleftrightarrow>
     (ct = CHRPC_FLOAT32_T \<longrightarrow> length (format_f (f32_value bs)) < BUF_LEN) \<and>
     (ct = CHRPC_FLOAT64_T \<longrightarrow> length (format_f (f64_value bs)) < BUF_LEN)"

fun floats_fit :: "chrpc_type_t \<Rightarrow> chrpc_inner_value_t \<Rightarrow> bool"
  and all_floats_fit :: "chrpc_type_t list \<Rightarrow> chrpc_inner_value_t list \<Rightarrow> bool" where
  "floats_fit ct (IVNumber bs) \<longleftrightarrow> float_fits ct bs"
| "floats_fit ct (IVNumArr b len) \<longleftrightarrow>
     (case ct of Array cell \<Rightarrow> list_all (\<lambda>i. float_fits cell (nth_cell cell b i)) [0..<unat len] | _ \<Rightarrow> True)"
| "floats_fit ct (IVEntries ivs len) \<longleftrightarrow>
     (case ct of Array cell \<Rightarrow> all_floats_fit (replicate (unat len) cell) ivs | _ \<Rightarrow> True)"
| "floats_fit ct (IVStruct ivs) \<longleftrightarrow> (case ct of Struct ts \<Rightarrow> all_floats_fit ts ivs | _ \<Rightarrow> True)"
| "floats_fit ct _ \<longleftrightarrow> True"
| "all_floats_fit (t # ts) (iv # ivs) \<longleftrightarrow> floats_fit t iv \<and> all_floats_fit ts ivs"
| "all_floats_fit _ _ \<longleftrightarrow> True"

section \<open>Writing in steps and at once\<close>

lemma puts_append: "os_puts os (xs @ ys) = try_os (os_puts os xs) (\<lambda>os. os_puts os ys)"
  by (induction xs arbitrary: os) (simp_all add: try_os_def split: prod.splits)

text \<open>
  The rules turn a chain of stream calls into one \<open>os_puts\<close>: what is written before a refused
  character is the same, and so is the state returned.
\<close>

named_theorems puts \<open>stream calls as one call of \<open>os_puts\<close>\<close>

lemma puts_nil [puts]: "Some (STREAM_SUCCESS, os) = Some (os_puts os [])"
  by simp

lemma puts_try_call [puts]:
  "try_call (Some (os_puts os xs)) (\<lambda>os. Some (os_puts os ys)) = Some (os_puts os (xs @ ys))"
  by (auto simp: try_call_def puts_append try_os_def split: prod.splits)

lemma puts_putc [puts]: "try_putc os c (\<lambda>os. Some (os_puts os ys)) = Some (os_puts os (c # ys))"
  by (auto simp: try_putc_def try_call_def try_os_def split: prod.splits)

lemma puts_puts [puts]: "try_puts os xs (\<lambda>os. Some (os_puts os ys)) = Some (os_puts os (xs @ ys))"
  by (simp add: try_puts_def puts)

lemma puts_newline [puts]:
  "newline_out os spaced (\<lambda>os. Some (os_puts os ys)) = Some (os_puts os (nl_text spaced @ ys))"
  by (simp add: newline_out_def nl_text_def puts)

lemma puts_tabs [puts]:
  "TAB_OUT os spaced n (\<lambda>os. Some (os_puts os ys)) = Some (os_puts os (tabs_text spaced n @ ys))"
proof -
  have "tab_loop os n (\<lambda>os. Some (os_puts os ys)) = Some (os_puts os (concat (replicate n CHRPC_SERIAL_TAB) @ ys))" for os :: "'a out_stream_t"
    by (induction n arbitrary: os) (simp_all add: puts)
  then show ?thesis by (simp add: TAB_OUT_def tabs_text_def)
qed

declare os_puts.simps [simp del]

lemma puts_fields:
  assumes "\<And>j os. j < length cs \<Longrightarrow> field j os = Some (os_puts os (cs ! j))"
  shows "fields_loop field spaced (length cs) i os =
    Some (os_puts os (concat (map (\<lambda>c. c @ 0x3B # nl_text spaced) (drop i cs))))"
proof (induction "length cs - i" arbitrary: i os)
  case 0
  then show ?case by (subst fields_loop.simps) (simp add: os_puts.simps)
next
  case (Suc k)
  then have i: "i < length cs" "k = length cs - (i + 1)" by simp_all
  have "fields_loop field spaced (length cs) (i + 1) =
      (\<lambda>os. Some (os_puts os (concat (map (\<lambda>c. c @ 0x3B # nl_text spaced) (drop (i + 1) cs)))))"
    by (rule ext) (rule Suc(1) [OF i(2)])
  with i(1) assms [OF i(1)] show ?case
    by (subst fields_loop.simps) (simp add: puts Cons_nth_drop_Suc [symmetric])
qed

lemma puts_cells:
  assumes "\<And>j os. j < length cs \<Longrightarrow> cell j os = Some (os_puts os (cs ! j))"
  shows "array_loop cell spaced (length cs) i os = Some (os_puts os (cells_text spaced (drop i cs)))"
proof (induction "length cs - i" arbitrary: i os)
  case 0
  then show ?case by (subst array_loop.simps) (simp add: os_puts.simps)
next
  case (Suc k)
  then have i: "i < length cs" "k = length cs - (i + 1)" by simp_all
  have "array_loop cell spaced (length cs) (i + 1) =
      (\<lambda>os. Some (os_puts os (cells_text spaced (drop (i + 1) cs))))"
    by (rule ext) (rule Suc(1) [OF i(2)])
  moreover have "i < length cs - 1 \<longleftrightarrow> drop (i + 1) cs \<noteq> []" using i(1) by auto
  moreover have "drop i cs = cs ! i # drop (i + 1) cs" using i(1) by (simp add: Cons_nth_drop_Suc)
  ultimately show ?case using i(1) assms [OF i(1)]
    by (subst array_loop.simps) (simp add: puts del: drop_eq_Nil)
qed

lemma label_ok: "chrpc_type_is_primitive ct \<Longrightarrow> chrpc_primitive_type_label ct = Some (ascii (prim_name ct))"
  by (cases ct) (simp_all add: ascii_def chrpc_type_is_primitive_def chrpc_type_id_is_primitive_def)

lemma puts_type: "type_to_stream_at os ct spaced tabs = Some (os_puts os (type_text spaced tabs ct))"
proof (induction ct arbitrary: os tabs)
  case (Array cell)
  then show ?case
    by (subst type_to_stream_at.simps) (simp add: puts chrpc_type_is_primitive_def chrpc_type_id_is_primitive_def)
next
  case (Struct ts)
  let ?cs = "map (type_text spaced (tabs + 1)) ts"
  have "fields_loop (\<lambda>fi os. type_to_stream_at os (ts ! fi) spaced (tabs + 1)) spaced (length ?cs) 0 os =
      Some (os_puts os (concat (map (\<lambda>c. c @ 0x3B # nl_text spaced) (drop 0 ?cs))))" for os :: "'a out_stream_t"
    by (rule puts_fields) (simp add: Struct [OF nth_mem])
  then show ?case
    by (subst type_to_stream_at.simps)
      (simp add: puts struct_text_def chrpc_type_is_primitive_def chrpc_type_id_is_primitive_def)
qed (subst type_to_stream_at.simps;
     simp add: puts label_ok chrpc_type_is_primitive_def chrpc_type_id_is_primitive_def del: chrpc_primitive_type_label.simps)+

section \<open>Numbers that fit the buffer\<close>

lemma le_nat_less: "le_nat bs < 256 ^ length bs"
proof (induction bs)
  case (Cons b bs)
  have "unat b < 256" using unsigned_less [of b] by simp
  with Cons show ?case by simp
qed simp

lemma length_format_u:
  assumes "n < 10 ^ k" "0 < k"
  shows "length (format_u n) \<le> k"
proof (cases "n = 0")
  case False
  then have "10 ^ (num_digits 10 n - 1) \<le> n" using num_digits_bounds [of 10 n] by simp
  with assms(1) have "(10::nat) ^ (num_digits 10 n - 1) < 10 ^ k" by linarith
  then have "num_digits 10 n - 1 < k" by simp
  with False show ?thesis by (simp add: format_u_def decimal_def)
qed (use assms in \<open>simp add: format_u_def\<close>)

lemma length_format_d:
  assumes "\<bar>i\<bar> < 10 ^ k" "0 < k"
  shows "length (format_d i) \<le> k + 1"
proof -
  have "nat \<bar>i\<bar> < 10 ^ k" using assms(1) by (simp add: nat_less_iff)
  from length_format_u [OF this assms(2)] show ?thesis
    by (cases "i < 0") (simp_all add: format_d_def)
qed

lemma integer_text_short:
  assumes "length bs \<le> 8"
  shows "length (format_u (le_nat bs)) \<le> 20" and "length (format_d (le_int bs)) \<le> 21"
proof -
  have "(256::nat) ^ length bs \<le> 256 ^ 8" using assms by (intro power_increasing) simp_all
  then have n: "le_nat bs < 10 ^ 20" "(256::nat) ^ length bs < 10 ^ 20" using le_nat_less [of bs] by simp_all
  show "length (format_u (le_nat bs)) \<le> 20" by (rule length_format_u [OF n(1)]) simp
  have "int (256 ^ length bs) < 10 ^ 20" "int (le_nat bs) < int (256 ^ length bs)"
    using n(2) le_nat_less [of bs] by (simp_all only: of_nat_less_iff) (simp flip: of_nat_power)
  then have "\<bar>le_int bs\<bar> < 10 ^ 20" using n(1) by (auto simp: le_int_def Let_def)
  from length_format_d [OF this] show "length (format_d (le_int bs)) \<le> 21" by simp
qed

lemma number_short:
  assumes "numeric ct" "length bs = cell_size ct" "float_fits ct bs"
  shows "\<exists>cs. number_format ct bs = Some cs \<and> length cs < BUF_LEN"
    and "\<exists>cs. array_cell_format ct bs = Some cs \<and> length cs < BUF_LEN"
  using assms integer_text_short [of bs]
  by (cases ct; simp add: numeric_def chrpc_blockable_type_cell_size_def float_fits_def BUF_LEN_def format_02X_def)+

text \<open>The formats write the number the bytes stand for.\<close>

lemma bytes_value_le_nat: "bytes_value bs = le_nat bs"
proof (induction bs)
  case (Cons b bs)
  have "(\<Sum>i < length bs. unat (bs ! i) * 256 ^ Suc i) = 256 * bytes_value bs"
    by (simp add: bytes_value_def sum_distrib_left ac_simps)
  with Cons show ?case by (simp add: bytes_value_def sum.lessThan_Suc_shift del: sum.lessThan_Suc)
qed (simp add: bytes_value_def)

lemma sint_of_nat_word:
  assumes "n < 2 ^ LENGTH('w)"
  shows "sint (of_nat n :: 'w::len word) = (if 2 * n < 2 ^ LENGTH('w) then int n else int n - 2 ^ LENGTH('w))"
proof -
  have u: "uint (of_nat n :: 'w word) = int n" using assms by (simp add: uint_nat unat_of_nat)
  obtain k where k: "LENGTH('w) = Suc k" using len_gt_0 [where 'a = 'w] by (cases "LENGTH('w)") auto
  have "sint (of_nat n :: 'w word) = signed_take_bit k (int n)" by (simp add: sint_uint u k)
  also have "\<dots> = int n - (if 2 * n < 2 ^ Suc k then 0 else 2 ^ Suc k)"
  proof (cases "n < 2 ^ k")
    case True
    then have "int n < 2 ^ k" "- (2 ^ k) \<le> int n" by (simp_all add: order_trans [of _ 0])
    then show ?thesis using True by (subst signed_take_bit_int_eq_self) simp_all
  next
    case False
    then have "n div 2 ^ k = 1" using assms k by (auto simp: div_nat_eqI)
    moreover have "int n div 2 ^ k = int (n div 2 ^ k)" by (simp add: zdiv_int)
    ultimately have "int n div 2 ^ k = 1" by simp
    then have "bit (int n) k" by (simp add: bit_iff_odd)
    moreover have "int n < int (2 ^ Suc k)" using assms k by (simp only: of_nat_less_iff)
    then have "take_bit (Suc k) (int n) = int n" by (subst take_bit_int_eq_self) simp_all
    ultimately show ?thesis using False by (simp add: signed_take_bit_eq_take_bit_minus)
  qed
  finally show ?thesis by (simp add: k)
qed

lemma le_int_sint:
  assumes "8 * length bs = LENGTH('w)"
  shows "le_int bs = sint (of_nat (bytes_value bs) :: 'w::len word)"
proof -
  have p: "(256 :: nat) ^ length bs = 2 ^ LENGTH('w)" "(256 :: int) ^ length bs = 2 ^ LENGTH('w)"
    by (simp_all add: power_mult flip: assms)
  have "le_nat bs < 2 ^ LENGTH('w)" using le_nat_less [of bs] p by simp
  from sint_of_nat_word [OF this] show ?thesis by (simp add: le_int_def Let_def bytes_value_le_nat p)
qed

lemma format_text: "format_d i = int_text i" "format_u n = int_text (int n)"
  by (simp_all add: format_d_def format_u_def int_text_def)

lemma hex_digit_char:
  assumes "n < 16"
  shows "[hex_digit n] = ascii [hex_char n]"
proof -
  have "n \<in> set [0..<16]" using assms by simp
  then show ?thesis by (auto simp: hex_digit_def hex_char_def ascii_def upt_rec)
qed

lemma number_format_text:
  assumes "numeric ct" "length bs = cell_size ct"
  shows "number_format ct bs = Some (number_text True ct bs)"
    and "array_cell_format ct bs = Some (number_text False ct bs)"
proof -
  have hex: "format_02X (le_nat bs) = ascii [hex_char (bytes_value bs div 16), hex_char (bytes_value bs mod 16)]"
    if "ct = CHRPC_BYTE_T"
  proof -
    have "le_nat bs < 256" using le_nat_less [of bs] assms(2) that by (simp add: chrpc_blockable_type_cell_size_def)
    then have "le_nat bs div 16 < 16" "le_nat bs mod 16 < 16" by simp_all
    from hex_digit_char [OF this(1)] hex_digit_char [OF this(2)] show ?thesis
      by (simp add: format_02X_def bytes_value_le_nat ascii_def)
  qed
  note int = le_int_sint [of bs, where 'w = 16] le_int_sint [of bs, where 'w = 32] le_int_sint [of bs, where 'w = 64]
  have "number_format ct bs = Some (number_text True ct bs) \<and> array_cell_format ct bs = Some (number_text False ct bs)"
    using assms hex int
    by (cases ct) (simp_all add: numeric_def chrpc_blockable_type_cell_size_def number_text_def format_text
      f32_value_def f64_value_def bytes_value_le_nat ascii_def Let_def)
  then show "number_format ct bs = Some (number_text True ct bs)"
    "array_cell_format ct bs = Some (number_text False ct bs)" by simp_all
qed

lemma print_number_ok:
  "length cs < BUF_LEN \<Longrightarrow> print_number os (Some cs) spaced tabs = Some (os_puts os (tabs_text spaced tabs @ cs))"
  by (simp add: print_number_def sprintf_buf_def puts)

lemma print_str_ok:
  assumes "is_cstr str"
  shows "print_str os str spaced tabs = Some (os_puts os (tabs_text spaced tabs @ str_text str))"
proof -
  obtain bs rest where s: "str = bs @ 0 # rest" "0 \<notin> set bs"
    using assms split_list_first [of 0 str] by (auto simp: is_cstr_def)
  have "takeWhile (\<lambda>c. c \<noteq> 0) (bs @ 0 # rest) = bs" using s(2) by (induction bs) auto
  with s c_strlen_terminated [of bs "map Some rest"] show ?thesis by (simp add: print_str_def puts str_text_def)
qed

section \<open>Printing values writes their text\<close>

lemma puts_array:
  fixes os :: "'s out_stream_t" and cell :: "nat \<Rightarrow> 's out_stream_t \<Rightarrow> 's print_result"
  assumes len: "iv_array_len iv = Some len" "unat len = length cs"
    and cell: "cell = (\<lambda>i os. case iv of
         IVNumArr b _ \<Rightarrow> print_number os (Option.bind (num_cell c b i) (array_cell_format c)) spaced (tabs + 1)
       | IVStrArr strs _ \<Rightarrow>
           if c = CHRPC_STRING_T \<and> i < length strs then print_str os (strs ! i) spaced (tabs + 1) else None
       | IVEntries ivs _ \<Rightarrow>
           if \<not> chrpc_type_is_primitive c \<and> i < length ivs
           then try_call (inner_value_to_stream_at os c (ivs ! i) spaced (tabs + 1)) (\<lambda>os. Some (STREAM_SUCCESS, os))
           else None
       | _ \<Rightarrow> None)"
    and cells: "\<And>i os. i < length cs \<Longrightarrow> cell i os = Some (os_puts os (cs ! i))"
  shows "inner_value_to_stream_at os (Array c) iv spaced tabs = Some (os_puts os (array_text spaced tabs cs))"
proof -
  have loop: "array_loop cell spaced (unat len) 0 os = Some (os_puts os (cells_text spaced cs))" for os
    using puts_cells [where i = 0, OF cells] len(2) by simp
  have "len = 0 \<longleftrightarrow> cs = []" using len(2) by (metis length_0_conv unat_eq_0)
  then have "chrpc_inner_array_value_to_stream os (Array c) iv spaced tabs =
      Some (os_puts os (array_text spaced tabs cs))"
    unfolding chrpc_inner_array_value_to_stream.simps len(1) prod.case chrpc_type_t.case option.case cell [symmetric] loop
    by (simp add: puts array_text_def)
  then show ?thesis by (subst inner_value_to_stream_at.simps) (simp add: puts)
qed

lemma puts_inner:
  fixes os :: "'s out_stream_t"
  shows "wt ct iv \<Longrightarrow> floats_fit ct iv \<Longrightarrow>
   inner_value_to_stream_at os ct iv spaced tabs = Some (os_puts os (inner_text spaced tabs ct iv))"
  "wts ts ivs \<Longrightarrow> all_floats_fit ts ivs \<Longrightarrow>
   length ts \<le> length ivs \<and> (\<forall>i (os :: 's out_stream_t). i < length ts \<longrightarrow>
     inner_value_to_stream_at os (ts ! i) (ivs ! i) spaced tabs = Some (os_puts os (inner_texts spaced tabs ts ivs ! i))) \<and>
   length (inner_texts spaced tabs ts ivs) = length ts"
proof (induction ct iv and ts ivs arbitrary: os tabs and tabs rule: wt_wts.induct)
  case (1 ct bs)
  from number_short(1) [of ct bs] number_format_text(1) [of ct bs] 1
  have "number_format ct bs = Some (number_text True ct bs)" "length (number_text True ct bs) < BUF_LEN" by auto
  moreover have "ct \<noteq> CHRPC_STRING_T" "\<not> (\<exists>c. ct = Array c)" "\<not> (\<exists>ts. ct = Struct ts)"
    using 1 by (auto simp: numeric_def chrpc_type_is_primitive_def chrpc_type_id_is_primitive_def)
  ultimately show ?case
    by (subst inner_value_to_stream_at.simps) (cases ct; simp add: print_number_ok)
next
  case (2 ct s)
  then show ?case by (subst inner_value_to_stream_at.simps) (simp add: print_str_ok)
next
  case (3 ct b len)
  then obtain c where ct: "ct = Array c" "numeric c" "cell_size c * unat len \<le> length b" by (cases ct) auto
  let ?cs = "map (\<lambda>i. tabs_text spaced (tabs + 1) @ number_text False c (nth_cell c b i)) [0..<unat len]"
  have cell: "print_number os (Option.bind (num_cell c b i) (array_cell_format c)) spaced (tabs + 1) =
      Some (os_puts os (?cs ! i))" if "i < length ?cs" for i and os :: "'s out_stream_t"
  proof -
    have "(i + 1) * cell_size c \<le> unat len * cell_size c" using that by (intro mult_right_mono) simp_all
    then have i: "(i + 1) * cell_size c \<le> length b" using ct(3) by (simp add: mult.commute)
    then have n: "num_cell c b i = Some (nth_cell c b i)" "length (nth_cell c b i) = cell_size c"
      by (simp_all add: num_cell_def nth_cell_def Let_def)
    have "float_fits c (nth_cell c b i)" using 3(2) ct(1) that by (simp add: list_all_iff)
    from number_short(2) [OF ct(2) n(2) this] number_format_text(2) [OF ct(2) n(2)] that n(1)
    show ?thesis by (auto simp: print_number_ok)
  qed
  have "inner_value_to_stream_at os (Array c) (IVNumArr b len) spaced tabs = Some (os_puts os (array_text spaced tabs ?cs))"
    by (rule puts_array [OF _ _ refl]) (use cell in simp_all)
  then show ?case using ct(1) by simp
next
  case (4 ct ss len)
  let ?cs = "map (\<lambda>str. tabs_text spaced (tabs + 1) @ str_text str) (take (unat len) ss)"
  from 4 have len: "length ?cs = unat len" by simp
  have cell: "print_str os (ss ! i) spaced (tabs + 1) = Some (os_puts os (?cs ! i))" "i < length ss"
    if "i < length ?cs" for i and os :: "'s out_stream_t"
  proof -
    have "ss ! i \<in> set (take (unat len) ss)" using that by (metis length_map nth_mem nth_take length_take min_less_iff_conj)
    then show "print_str os (ss ! i) spaced (tabs + 1) = Some (os_puts os (?cs ! i))" "i < length ss"
      using 4 that by (simp_all add: print_str_ok)
  qed
  have "inner_value_to_stream_at os (Array CHRPC_STRING_T) (IVStrArr ss len) spaced tabs =
      Some (os_puts os (array_text spaced tabs ?cs))"
  proof (rule puts_array [OF _ _ refl])
    show "unat len = length ?cs" by (rule len [symmetric])
    fix i and os :: "'s out_stream_t"
    assume "i < length ?cs"
    from cell [OF this] show "(case IVStrArr ss len of
         IVNumArr b _ \<Rightarrow> print_number os (Option.bind (num_cell CHRPC_STRING_T b i) (array_cell_format CHRPC_STRING_T)) spaced (tabs + 1)
       | IVStrArr strs _ \<Rightarrow> if CHRPC_STRING_T = CHRPC_STRING_T \<and> i < length strs then print_str os (strs ! i) spaced (tabs + 1) else None
       | IVEntries ivs _ \<Rightarrow>
           if \<not> chrpc_type_is_primitive CHRPC_STRING_T \<and> i < length ivs
           then try_call (inner_value_to_stream_at os CHRPC_STRING_T (ivs ! i) spaced (tabs + 1)) (\<lambda>os. Some (STREAM_SUCCESS, os))
           else None
       | _ \<Rightarrow> None) = Some (os_puts os (?cs ! i))" by (simp only: chrpc_inner_value_t.case if_True simp_thms)
  qed simp
  with 4 show ?case by simp
next
  case (5 ct ivs len)
  then obtain c where ct: "ct = Array c" "composite c" "wts (replicate (unat len) c) ivs" by (cases ct) auto
  let ?cs = "inner_texts spaced (tabs + 1) (replicate (unat len) c) ivs"
  have IH: "unat len \<le> length ivs" "length ?cs = unat len" "\<And>i (os :: 's out_stream_t). i < unat len \<Longrightarrow>
      inner_value_to_stream_at os c (ivs ! i) spaced (tabs + 1) = Some (os_puts os (?cs ! i))"
    using 5(1) [OF ct(1,3), of "tabs + 1"] 5(3) ct(1) by auto
  have "inner_value_to_stream_at os (Array c) (IVEntries ivs len) spaced tabs = Some (os_puts os (array_text spaced tabs ?cs))"
    by (rule puts_array [OF _ _ refl]) (use IH ct(2) in \<open>simp_all add: composite_def puts\<close>)
  then show ?case using ct(1) by simp
next
  case (6 ct ivs)
  then obtain ts where ct: "ct = Struct ts" "wts ts ivs" by (cases ct) auto
  let ?cs = "inner_texts spaced (tabs + 1) ts ivs"
  have IH: "length ts \<le> length ivs" "length ?cs = length ts" "\<And>i (os :: 's out_stream_t). i < length ts \<Longrightarrow>
      inner_value_to_stream_at os (ts ! i) (ivs ! i) spaced (tabs + 1) = Some (os_puts os (?cs ! i))"
    using 6(1) [OF ct(1,2), of "tabs + 1"] 6(3) ct(1) by auto
  have loop: "fields_loop (\<lambda>fi os. if fi < length ivs then inner_value_to_stream_at os (ts ! fi) (ivs ! fi) spaced (tabs + 1)
      else None) spaced (length ?cs) 0 os = Some (os_puts os (concat (map (\<lambda>c. c @ 0x3B # nl_text spaced) (drop 0 ?cs))))"
    for os :: "'s out_stream_t"
    by (rule puts_fields) (use IH in simp)
  show ?case
    by (subst inner_value_to_stream_at.simps)
      (simp add: ct(1) loop [unfolded IH(2) drop_0] puts struct_text_def del: Suc_eq_plus1 add_Suc_right)
next
  case (9 t ts iv ivs)
  then show ?case by (auto simp: nth_Cons split: nat.splits)
qed simp_all

lemma puts_value:
  assumes "wf_value v" "floats_fit (v_type v) (v_value v)"
  shows "chrpc_value_to_stream os v spaced = Some (os_puts os (value_text spaced v))"
  using assms by (simp add: chrpc_value_to_stream_def chrpc_type_to_stream_def chrpc_inner_value_to_stream_def
    puts_type puts_inner(1) wf_value_def puts value_text_def)

text \<open>The texts have no NUL, so that \<open>printf\<close> shows all of them.\<close>

lemma nul_free:
  "0 \<notin> set (tabs_text spaced n)" "0 \<notin> set (nl_text spaced)" "0 \<notin> set (digits_of k n)" "0 \<notin> set (format_u n)"
  "0 \<notin> set (format_d i)" "n < 256 \<Longrightarrow> 0 \<notin> set (format_02X n)" "0 \<notin> set (format_f d)" "0 \<notin> set (str_text str)"
proof -
  have "0 \<notin> set (digits_of k n)" for k n using digits_of_digits [of k n] by (auto simp: is_digit_def)
  then show "0 \<notin> set (digits_of k n)" and u: "0 \<notin> set (format_u n)" for k n
    by (simp_all add: format_u_def decimal_def)
  then show "0 \<notin> set (format_d i)" "0 \<notin> set (format_f d)"
    by (auto simp: format_d_def format_f_def Let_def split: double_t.splits)
  have "hex_digit k \<noteq> 0" if "k < 16" for k
  proof -
    have "k \<in> set [0..<16]" using that by simp
    then show ?thesis by (auto simp: hex_digit_def upt_rec)
  qed
  then show "0 \<notin> set (format_02X n)" if "n < 256"
    using that by (auto simp: format_02X_def)
qed (auto simp: tabs_text_def nl_text_def str_text_def CHRPC_SERIAL_TAB_def dest: set_takeWhileD)

lemma nul_free_struct: "(\<And>c. c \<in> set cs \<Longrightarrow> 0 \<notin> set c) \<Longrightarrow> 0 \<notin> set (struct_text spaced tabs cs)"
  by (auto simp: struct_text_def nul_free)

lemma nul_free_array:
  assumes "\<And>c. c \<in> set cs \<Longrightarrow> 0 \<notin> set c"
  shows "0 \<notin> set (array_text spaced tabs cs)"
proof -
  have "0 \<notin> set (cells_text spaced cs)" using assms by (induction cs) (auto simp: nul_free)
  then show ?thesis by (auto simp: array_text_def nul_free)
qed

lemma nul_free_type: "0 \<notin> set (type_text spaced tabs ct)"
  by (induction ct arbitrary: tabs) (auto simp: nul_free ascii_def intro!: nul_free_struct)

lemma nul_free_number:
  assumes "numeric ct" "length bs = cell_size ct"
  shows "0 \<notin> set (number_text alone ct bs)"
proof -
  have "ct = CHRPC_BYTE_T \<Longrightarrow> le_nat bs < 256"
    using le_nat_less [of bs] assms(2) by (simp add: chrpc_blockable_type_cell_size_def)
  then have "0 \<notin> set (the (number_format ct bs))" "0 \<notin> set (the (array_cell_format ct bs))"
    using assms(1) by (cases ct; auto simp: numeric_def nul_free chrpc_type_is_primitive_def chrpc_type_id_is_primitive_def)+
  then show ?thesis using number_format_text [OF assms] by (cases alone) simp_all
qed

lemma nul_free_inner:
  "wt ct iv \<Longrightarrow> 0 \<notin> set (inner_text spaced tabs ct iv)"
  "wts ts ivs \<Longrightarrow> (\<forall>c \<in> set (inner_texts spaced tabs ts ivs). 0 \<notin> set c)"
proof (induction ct iv and ts ivs arbitrary: tabs and tabs rule: wt_wts.induct)
  case (3 ct b len)
  then obtain c where ct: "ct = Array c" "numeric c" "cell_size c * unat len \<le> length b" by (cases ct) auto
  have "length (nth_cell c b i) = cell_size c" if "i < unat len" for i
  proof -
    have "(i + 1) * cell_size c \<le> unat len * cell_size c" using that by (intro mult_right_mono) simp_all
    then show ?thesis using ct(3) by (simp add: nth_cell_def mult.commute)
  qed
  then show ?case using nul_free_number [OF ct(2)] by (auto simp: ct(1) nul_free intro!: nul_free_array)
qed (auto simp: nul_free nul_free_number intro!: nul_free_array nul_free_struct split: chrpc_type_t.splits)

lemma try_print_text:
  assumes "func (new_out_stream_to_string []) = Some (os_puts (new_out_stream_to_string []) cs)" "0 \<notin> set cs"
  shows "try_print func = Some (cs @ [0x0A], 2)"
proof -
  have "takeWhile (\<lambda>c. c \<noteq> 0) cs = cs" using assms(2) by (auto simp: takeWhile_eq_all_conv)
  then show ?thesis
    by (simp add: try_print_def assms(1) puts_string)
      (simp add: new_out_stream_to_string_def new_string_out_stream_def delete_out_stream_def STRING_OUT_STREAM_IMPL_def
        delete_string_out_stream_def)
qed

text \<open>C34. Printing a well-formed value whose floating-point numbers have texts that fit the buffer of 40
  characters writes the text of the value to any stream, character by character, until the stream
  refuses one, and returns the state of that character: nothing is written after an error and no
  error is lost.  The same holds of its type and of its inner value alone.  The three functions that
  print to the standard output write the whole text, followed by a line end, and release both blocks of
  the stream in between.\<close>

theorem value_printing_exact:
  assumes "wf_value v" "floats_fit (v_type v) (v_value v)"
  shows "chrpc_value_to_stream os v spaced = Some (os_puts os (value_text spaced v)) \<and>
    chrpc_type_to_stream os (v_type v) spaced = Some (os_puts os (type_text spaced 0 (v_type v))) \<and>
    chrpc_inner_value_to_stream os (v_type v) (v_value v) spaced =
      Some (os_puts os (inner_text spaced 0 (v_type v) (v_value v))) \<and>
    chrpc_value_print v spaced = Some (value_text spaced v @ [0x0A], 2) \<and>
    chrpc_type_print (v_type v) spaced = Some (type_text spaced 0 (v_type v) @ [0x0A], 2) \<and>
    chrpc_inner_value_print (v_type v) (v_value v) spaced =
      Some (inner_text spaced 0 (v_type v) (v_value v) @ [0x0A], 2)"
proof -
  have wt: "wt (v_type v) (v_value v)" using assms(1) by (simp add: wf_value_def)
  note t = puts_type [where ct = "v_type v" and spaced = spaced and tabs = 0, folded chrpc_type_to_stream_def]
  note i = puts_inner(1) [OF wt assms(2), where spaced = spaced and tabs = 0, folded chrpc_inner_value_to_stream_def]
  have z: "0 \<notin> set (type_text spaced 0 (v_type v))" "0 \<notin> set (inner_text spaced 0 (v_type v) (v_value v))"
    by (rule nul_free_type, rule nul_free_inner(1) [OF wt])
  then have nz: "0 \<notin> set (value_text spaced v)" by (simp add: value_text_def nul_free)
  have "chrpc_value_print v spaced = Some (value_text spaced v @ [0x0A], 2)"
    unfolding chrpc_value_print_def by (rule try_print_text) (rule puts_value [OF assms], rule nz)
  moreover have "chrpc_type_print (v_type v) spaced = Some (type_text spaced 0 (v_type v) @ [0x0A], 2)"
    unfolding chrpc_type_print_def by (rule try_print_text) (rule t, rule z(1))
  moreover have "chrpc_inner_value_print (v_type v) (v_value v) spaced =
      Some (inner_text spaced 0 (v_type v) (v_value v) @ [0x0A], 2)"
    unfolding chrpc_inner_value_print_def by (rule try_print_text) (rule i, rule z(2))
  ultimately show ?thesis
    by (intro conjI) (rule puts_value [OF assms], rule t, rule i)
qed

text \<open>The witness prints a struct of a byte, an array of strings and an empty array, without spaces.\<close>

lemma value_printing_exact_witness:
  "chrpc_value_print
     \<lparr>v_type = Struct [CHRPC_BYTE_T, Array CHRPC_STRING_T, Array CHRPC_FLOAT64_T],
      v_value = IVStruct [IVNumber [0xAB], IVStrArr [[0x68, 0, 7], [0x69, 0]] 2, IVNumArr [] 0]\<rparr> False =
   Some ([0x7B, 0x62, 0x38, 0x3B, 0x73, 0x74, 0x72, 0x5B, 0x5D, 0x3B, 0x66, 0x36, 0x34, 0x5B, 0x5D, 0x3B, 0x7D, 0x24,
     0x7B, 0x30, 0x78, 0x41, 0x42, 0x75, 0x3B, 0x5B, 0x22, 0x68, 0x22, 0x2C, 0x22, 0x69, 0x22, 0x5D, 0x3B,
     0x5B, 0x5D, 0x3B, 0x7D, 0x0A], 2)"
  using value_printing_exact [of "\<lparr>v_type = Struct [CHRPC_BYTE_T, Array CHRPC_STRING_T, Array CHRPC_FLOAT64_T],
      v_value = IVStruct [IVNumber [0xAB], IVStrArr [[0x68, 0, 7], [0x69, 0]] 2, IVNumArr [] 0]\<rparr>" "new_out_stream_to_string []" False,
      THEN conjunct2, THEN conjunct2, THEN conjunct2, THEN conjunct1]
  by (simp add: ascii_def number_text_def bytes_value_def hex_char_def wf_value_def is_cstr_def cstr_def numeric_def float_fits_def chrpc_type_is_primitive_def
    chrpc_type_id_is_primitive_def chrpc_blockable_type_cell_size_def CHRPC_MAX_STRUCT_FIELDS_def value_text_def
    tabs_text_def nl_text_def struct_text_def array_text_def str_text_def format_02X_def hex_digit_def)

section \<open>Doubles that do not fit\<close>

lemma length_format_u_le: "0 < k \<Longrightarrow> length (format_u n) \<le> k \<longleftrightarrow> n < 10 ^ k"
proof
  assume k: "0 < k" and "length (format_u n) \<le> k"
  then have "num_digits 10 n \<le> k" if "n \<noteq> 0" using that by (simp add: format_u_def decimal_def)
  moreover have "n < 10 ^ num_digits 10 n" if "n \<noteq> 0" using that num_digits_bounds [of 10 n] by simp
  moreover have "(10 :: nat) ^ num_digits 10 n \<le> 10 ^ k" if "num_digits 10 n \<le> k" using that by (rule power_increasing) simp
  ultimately show "n < 10 ^ k" by (cases "n = 0") (simp, linarith)
qed (rule length_format_u)

lemma f64_mantissa: "f64_value bs = DFin s m e \<Longrightarrow> m < 2 ^ 53"
proof -
  have "le_nat bs mod 2 ^ 52 < 2 ^ 52" by simp
  then show "f64_value bs = DFin s m e \<Longrightarrow> m < 2 ^ 53"
    by (auto simp: f64_value_def ieee_value_def Let_def simp del: mod_less_divisor split: if_splits)
qed

lemma round_div_one [simp]: "round_div n (Suc 0) = n"
  by (simp add: round_div_def)

lemma round_div_le: "0 < d \<Longrightarrow> round_div n d \<le> n + 1"
  by (auto simp: round_div_def Let_def intro: le_SucI)

lemma length_format_f:
  assumes "m < 2 ^ 53"
  shows "length (format_f (DFin s m e)) < BUF_LEN \<longleftrightarrow> m * 2 ^ nat e < 10 ^ (if s then 31 else 32)"
proof -
  let ?n = "round_div (m * 2 ^ nat e * 10 ^ 6) (2 ^ nat (- e))"
  define q where "q = ?n div 10 ^ 6"
  have q: "q < 10 ^ k \<longleftrightarrow> m * 2 ^ nat e < 10 ^ k" if "20 \<le> k" for k
  proof (cases "0 \<le> e")
    case False
    then have "?n \<le> m * 10 ^ 6 + 1" using round_div_le [of "2 ^ nat (- e)" "m * 10 ^ 6"] by simp
    then have "?n div 10 ^ 6 \<le> m" using div_le_mono [of ?n "m * 10 ^ 6 + 1" "10 ^ 6"] by simp
    moreover have "m < 10 ^ k" using assms power_increasing [OF that, of "10 :: nat"] by simp
    ultimately show ?thesis using False by (simp add: q_def)
  qed (simp add: q_def)
  have "length (format_f (DFin s m e)) = (if s then 1 else 0) + length (format_u q) + 7"
    by (simp add: format_f_def Let_def q_def)
  then have "length (format_f (DFin s m e)) < BUF_LEN \<longleftrightarrow> length (format_u q) \<le> (if s then 31 else 32)"
    by (auto simp: BUF_LEN_def)
  also have "\<dots> \<longleftrightarrow> q < 10 ^ (if s then 31 else 32)" by (rule length_format_u_le) simp
  also have "\<dots> \<longleftrightarrow> m * 2 ^ nat e < 10 ^ (if s then 31 else 32)" by (rule q) simp
  finally show ?thesis .
qed

text \<open>C35. A finite double is printed exactly when it is below $10^{32}$, or $10^{31}$ for a negative
  one, in magnitude; the text of a larger one overflows the 40 characters of \<open>buf\<close>, which is undefined
  before anything is written.\<close>

theorem double_print_bounds:
  assumes "f64_value bs = DFin s m e"
  shows "chrpc_inner_value_to_stream os CHRPC_FLOAT64_T (IVNumber bs) spaced =
    (if m * 2 ^ nat e < 10 ^ (if s then 31 else 32) then Some (os_puts os (format_f (DFin s m e))) else None)"
proof -
  note length_format_f [OF f64_mantissa [OF assms], of s e]
  then show ?thesis
    unfolding chrpc_inner_value_to_stream_def
    by (subst inner_value_to_stream_at.simps)
      (auto simp: assms puts tabs_text_def print_number_def sprintf_buf_def)
qed

lemma double_print_bounds_witness:
  "chrpc_inner_value_to_stream (new_out_stream_to_string []) CHRPC_FLOAT64_T
     (IVNumber [0x17, 0x6E, 0x05, 0xB5, 0xB5, 0xB8, 0x93, 0x46]) True = None"
  using double_print_bounds [of "[0x17, 0x6E, 0x05, 0xB5, 0xB5, 0xB8, 0x93, 0x46]" False 5551115123125783 54
      "new_out_stream_to_string []" True]
  by (simp add: f64_value_def ieee_value_def)

end
