(* ===== verification/Chrpc_Channel_Helpers.thy ===== *)
theory Chrpc_Channel_Helpers
  imports Chrpc_Channel
begin

text \<open>
  The echo thread (\<open>chrpc/src/channel_helpers.c\<close>), which sends every message of a channel back.  The
  loop reads the \<open>should_stop\<close> field of the thread's structure before each turn and may run forever:
  \<open>None\<close> of the option.  \<open>peer k\<close> is what the rest of the program does to the structure and its
  channel after turn \<open>k\<close>; the deletion's call of \<open>chn_et_stop\<close> is such an action.  On a two-way local
  channel the thread does what a loop over two lists of messages does.
\<close>

section \<open>The thread\<close>

text \<open>\<open>loop_final_status\<close> is \<open>None\<close> while it has not been written.\<close>

record ('c, 'cfg) channel_echo_thread_t =
  should_stop :: bool
  et_chn :: "('c, 'cfg) channel_t option"
  loop_final_status :: "channel_status_t option"

definition chn_et_should_stop :: "('c, 'cfg) channel_echo_thread_t \<Rightarrow> bool" where
  "chn_et_should_stop chn_et = should_stop chn_et"

definition chn_et_stop :: "('c, 'cfg) channel_echo_thread_t \<Rightarrow> ('c, 'cfg) channel_echo_thread_t" where
  "chn_et_stop chn_et = chn_et\<lparr>should_stop := True\<rparr>"

text \<open>A buffer of no bytes is the NULL pointer.\<close>

partial_function (option) echo_loop ::
    "(nat \<Rightarrow> ('c, 'cfg) channel_echo_thread_t \<Rightarrow> ('c, 'cfg) channel_echo_thread_t) \<Rightarrow> nat \<Rightarrow> nat \<Rightarrow>
     ('c, 'cfg) channel_echo_thread_t \<Rightarrow> (channel_status_t \<times> ('c, 'cfg) channel_echo_thread_t) option" where
  "echo_loop peer buf_len k et =
     (if chn_et_should_stop et then Some (CHN_SUCCESS, et)
      else case chn_refresh (et_chn et) of (st, chn1) \<Rightarrow>
        if st \<noteq> CHN_SUCCESS then Some (st, et\<lparr>et_chn := chn1\<rparr>)
        else case chn_incoming_len chn1 True of (status, readden) \<Rightarrow>
          if status = CHN_NO_INCOMING_MSG then echo_loop peer buf_len (k + 1) (peer k (et\<lparr>et_chn := chn1\<rparr>))
          else if status \<noteq> CHN_SUCCESS then Some (status, et\<lparr>et_chn := chn1\<rparr>)
          else if the readden > buf_len then Some (CHN_BUFFER_TOO_SMALL, et\<lparr>et_chn := chn1\<rparr>)
          else case chn_receive chn1 (buf_len \<noteq> 0) buf_len True of (st, msg, chn2) \<Rightarrow>
            if st \<noteq> CHN_SUCCESS then Some (st, et\<lparr>et_chn := chn2\<rparr>)
            else case chn_send chn2 msg of (st, chn3) \<Rightarrow>
              if st \<noteq> CHN_SUCCESS then Some (st, et\<lparr>et_chn := chn3\<rparr>)
              else echo_loop peer buf_len (k + 1) (peer k (et\<lparr>et_chn := chn3\<rparr>)))"

text \<open>The thread's function: when the message size is refused the status is returned, not stored.\<close>

definition channel_echo_thread_loop ::
    "(nat \<Rightarrow> ('c, 'cfg) channel_echo_thread_t \<Rightarrow> ('c, 'cfg) channel_echo_thread_t) \<Rightarrow>
     ('c, 'cfg) channel_echo_thread_t \<Rightarrow> ('c, 'cfg) channel_echo_thread_t option" where
  "channel_echo_thread_loop peer et =
     (case chn_max_msg_size (et_chn et) True of (status, mms) \<Rightarrow>
        if status \<noteq> CHN_SUCCESS then Some et
        else map_option (\<lambda>(status, et'). et'\<lparr>loop_final_status := Some status\<rparr>)
          (echo_loop peer (the mms) 0 et))"

definition new_channel_echo_thread ::
    "int \<Rightarrow> ('c, 'cfg) channel_t option \<Rightarrow> ('c, 'cfg) channel_echo_thread_t option" where
  "new_channel_echo_thread create_error c =
     (let et = \<lparr>should_stop = False, et_chn = c, loop_final_status = None\<rparr>
      in if create_error \<noteq> 0 then None else Some et)"

text \<open>
  \<open>run w et\<close> is the structure \<open>et\<close> when its thread has ended, \<open>w\<close> being done to it at some moment
  between two turns of the thread: this function writes \<open>should_stop\<close> and then joins the thread.
  Reading a final status that was never written is undefined.
\<close>

definition delete_channel_echo_thread ::
    "((('c, 'cfg) channel_echo_thread_t \<Rightarrow> ('c, 'cfg) channel_echo_thread_t) \<Rightarrow>
      ('c, 'cfg) channel_echo_thread_t \<Rightarrow> ('c, 'cfg) channel_echo_thread_t option) \<Rightarrow> int \<Rightarrow>
     ('c, 'cfg) channel_echo_thread_t \<Rightarrow> (channel_status_t \<times> ('c, 'cfg) channel_t option) option" where
  "delete_channel_echo_thread run thread_error chn_et =
     (case run chn_et_stop chn_et of None \<Rightarrow> None
      | Some et \<Rightarrow>
          (case loop_final_status et of None \<Rightarrow> None
           | Some final_status \<Rightarrow>
               Some (if thread_error \<noteq> 0 then CHN_UNKNOWN_ERROR else final_status, et_chn et)))"

section \<open>The echo of a two-way local channel\<close>

text \<open>
  The loop over the two lists of messages, the first on the way to the thread, for \<open>n\<close> turns; \<open>ops k\<close>
  are the operations the rest of the program performs at either end after turn \<open>k\<close>.
\<close>

fun echo_spec ::
    "channel_local_config_t \<Rightarrow> (nat \<Rightarrow> chan_op list) \<Rightarrow> nat \<Rightarrow> nat \<Rightarrow> byte list list \<times> byte list list \<Rightarrow>
     channel_status_t \<times> byte list list \<times> byte list list" where
  "echo_spec cfg ops 0 k queues = (CHN_SUCCESS, queues)"
| "echo_spec cfg ops (Suc n) k ([], out) =
     echo_spec cfg ops n (k + 1) (snd (run_steps (chan_spec_step cfg) (ops k) ([], out)))"
| "echo_spec cfg ops (Suc n) k (m # ms, out) =
     (case fifo_send cfg out m of (status, out') \<Rightarrow>
        if status \<noteq> CHN_SUCCESS then (status, ms, out')
        else echo_spec cfg ops n (k + 1) (snd (run_steps (chan_spec_step cfg) (ops k) (ms, out'))))"

text \<open>
  The rest of the program: the operations at either end after each turn, and \<open>w\<close> done to the structure
  after \<open>n\<close> turns.
\<close>

definition local2_peer ::
    "(nat \<Rightarrow> chan_op list) \<Rightarrow> nat \<Rightarrow> (channel_local2_core_t, 'cfg) channel_echo_thread_t \<Rightarrow>
     (channel_local2_core_t, 'cfg) channel_echo_thread_t" where
  "local2_peer ops k et =
     et\<lparr>et_chn := map_option (\<lambda>c. c\<lparr>ch_channel := snd (run_steps chan_step (ops k) (ch_channel c))\<rparr>) (et_chn et)\<rparr>"

definition echo_run ::
    "(nat \<Rightarrow> chan_op list) \<Rightarrow> nat \<Rightarrow>
     ((channel_local2_core_t, 'cfg) channel_echo_thread_t \<Rightarrow> (channel_local2_core_t, 'cfg) channel_echo_thread_t) \<Rightarrow>
     (channel_local2_core_t, 'cfg) channel_echo_thread_t \<Rightarrow> (channel_local2_core_t, 'cfg) channel_echo_thread_t option" where
  "echo_run ops n w et =
     channel_echo_thread_loop
       (\<lambda>k et. if k + 1 = n then w (local2_peer ops k et) else local2_peer ops k et)
       (if n = 0 then w et else et)"

definition echo_end :: "channel_local2_core_t \<Rightarrow> (channel_local2_core_t, channel_local2_core_t) channel_t option" where
  "echo_end core = Some \<lparr>ch_channel = core, ch_impl = CHANNEL_LOCAL2_IMPL False\<rparr>"

lemma chan_run_refines:
  assumes "core_inv core"
  shows "core_inv (snd (run_steps chan_step ops core)) \<and>
    l_cfg (a2b (snd (run_steps chan_step ops core))) = l_cfg (a2b core) \<and>
    chan_abs (snd (run_steps chan_step ops core)) =
      snd (run_steps (chan_spec_step (l_cfg (a2b core))) ops (chan_abs core))"
proof -
  let ?I = "\<lambda>c. core_inv c \<and> l_cfg (a2b c) = l_cfg (a2b core)"
  have "\<exists>outs s'. run_steps chan_step ops core = (outs, s') \<and> ?I s' \<and>
      run_steps (chan_spec_step (l_cfg (a2b core))) ops (chan_abs core) = (outs, chan_abs s')"
  proof (rule run_steps_refines [where I = ?I])
    fix x s assume "?I s"
    with chan_step_refines [of s x] show "\<exists>out s'. chan_step x s = (out, s') \<and> ?I s' \<and>
        chan_spec_step (l_cfg (a2b core)) x (chan_abs s) = (out, chan_abs s')" by metis
  qed (use assms in simp)
  then show ?thesis by auto
qed

text \<open>The structure when the stop comes after \<open>n\<close> more turns.\<close>

definition echo_at ::
    "nat \<Rightarrow> channel_local2_core_t \<Rightarrow> (channel_local2_core_t, channel_local2_core_t) channel_echo_thread_t" where
  "echo_at n core = \<lparr>should_stop = (n = 0), et_chn = echo_end core, loop_final_status = None\<rparr>"

lemma echo_peer:
  "(if k + 1 = k + Suc n then chn_et_stop (local2_peer ops k (echo_at (Suc n) core))
    else local2_peer ops k (echo_at (Suc n) core)) =
    echo_at n (snd (run_steps chan_step (ops k) core))"
  by (simp add: local2_peer_def echo_end_def echo_at_def chn_et_stop_def)

lemma echo_at_fields [simp]:
  "et_chn (echo_at n core) = echo_end core" "chn_et_should_stop (echo_at n core) \<longleftrightarrow> n = 0"
  "(echo_at n core)\<lparr>et_chn := echo_end c\<rparr> = echo_at n c"
  by (simp_all add: echo_at_def chn_et_should_stop_def)

lemma echo_calls:
  assumes "core_inv core"
  shows "chn_refresh (echo_end core) = (CHN_SUCCESS, echo_end core)"
    and "fst (chan_abs core) = [] \<Longrightarrow> chn_incoming_len (echo_end core) True = (CHN_NO_INCOMING_MSG, None)"
    and "fst (chan_abs core) = m # ms \<Longrightarrow> chn_incoming_len (echo_end core) True = (CHN_SUCCESS, Some (length m)) \<and>
      0 < length m \<and> length m \<le> max_msg_size (l_cfg (a2b core))"
    and "chn_receive (echo_end core) True len True =
      (case chan_step (Receive False len) core of ((status, out), core') \<Rightarrow> (status, out, echo_end core'))"
    and "chn_send (echo_end core) (Some msg) =
      (case chan_step (Send False msg) core of ((status, _), core') \<Rightarrow> (status, echo_end core'))"
proof -
  have "local_inv (a2b core)" using assms by (simp add: core_inv_def)
  then show "fst (chan_abs core) = m # ms \<Longrightarrow> chn_incoming_len (echo_end core) True = (CHN_SUCCESS, Some (length m)) \<and>
      0 < length m \<and> length m \<le> max_msg_size (l_cfg (a2b core))"
    using local.len_cons [of "a2b core" m ms] local.sizes [of "a2b core" m]
    by (simp add: chan_abs_def echo_end_def CHANNEL_LOCAL2_IMPL_def chn_incoming_len_def chn_l2_incoming_len_def)
qed (auto simp: chan_abs_def echo_end_def CHANNEL_LOCAL2_IMPL_def chn_refresh_def chn_l2_refresh_def chn_l_refresh_def
    chn_incoming_len_def chn_l2_incoming_len_def chn_l_incoming_len_def peek_len_def q_len_nil chn_receive_def chn_send_def
    split: prod.splits)

lemma echo_loop_refines:
  assumes "core_inv core"
    "peer = (\<lambda>j et. if j + 1 = k + n then chn_et_stop (local2_peer ops j et) else local2_peer ops j et)"
  shows "\<exists>status et' core'. echo_loop peer (max_msg_size (l_cfg (a2b core))) k (echo_at n core) = Some (status, et') \<and>
    et_chn et' = echo_end core' \<and>
    (status, chan_abs core') = echo_spec (l_cfg (a2b core)) ops n k (chan_abs core) \<and> core_inv core'"
  using assms
proof (induction n arbitrary: k core)
  case 0
  then show ?case by (subst echo_loop.simps) (auto simp: chan_abs_def)
next
  case (Suc n)
  let ?mms = "max_msg_size (l_cfg (a2b core))" and ?cfg = "l_cfg (a2b core)"
  note calls = echo_calls [OF Suc.prems(1)]
  have peer: "peer k (echo_at (Suc n) c) = echo_at n (snd (run_steps chan_step (ops k) c))" for c
    using echo_peer [of k n ops c] Suc.prems(2) by simp
  have rest: "peer = (\<lambda>j et. if j + 1 = (k + 1) + n then chn_et_stop (local2_peer ops j et) else local2_peer ops j et)"
    using Suc.prems(2) by simp
  have step: "\<exists>status et' core''. echo_loop peer ?mms (k + 1) (peer k (echo_at (Suc n) c)) = Some (status, et') \<and>
      et_chn et' = echo_end core'' \<and> (status, chan_abs core'') =
        echo_spec ?cfg ops n (k + 1) (snd (run_steps (chan_spec_step ?cfg) (ops k) (chan_abs c))) \<and> core_inv core''"
    if "core_inv c" "l_cfg (a2b c) = ?cfg" for c
    using Suc.IH [of "snd (run_steps chan_step (ops k) c)", OF _ rest] chan_run_refines [OF that(1), of "ops k"] that(2)
    by (simp only: peer)
  obtain ins out where abs: "chan_abs core = (ins, out)" by fastforce
  show ?case
  proof (cases ins)
    case Nil
    then show ?thesis using calls(1,2) step [OF Suc.prems(1) refl] abs by (subst echo_loop.simps) simp
  next
    case (Cons m ms)
    then have len: "chn_incoming_len (echo_end core) True = (CHN_SUCCESS, Some (length m))" "0 < length m" "length m \<le> ?mms"
      using calls(3) [of m ms] abs by simp_all
    then have "0 < ?mms" by linarith
    from chan_step_refines [OF Suc.prems(1), of "Receive False ?mms"] abs Cons len(3) obtain core1 where
      1: "chan_step (Receive False ?mms) core = ((CHN_SUCCESS, Some m), core1)" "core_inv core1" "l_cfg (a2b core1) = ?cfg"
        "chan_abs core1 = (ms, out)" by auto
    obtain status out' where send: "fifo_send ?cfg out m = (status, out')" by fastforce
    with chan_step_refines [OF 1(2), of "Send False m"] 1(3,4) obtain core2 where
      2: "chan_step (Send False m) core1 = ((status, None), core2)" "core_inv core2" "l_cfg (a2b core2) = ?cfg"
        "chan_abs core2 = (ms, out')" by auto
    have "chn_receive (echo_end core) True ?mms True = (CHN_SUCCESS, Some m, echo_end core1)"
      "chn_send (echo_end core1) (Some m) = (status, echo_end core2)"
      using calls(4) echo_calls(5) [OF 1(2), of m] 1(1) 2(1) by simp_all
    then have "echo_loop peer ?mms k (echo_at (Suc n) core) =
        (if status \<noteq> CHN_SUCCESS then Some (status, echo_at (Suc n) core2)
         else echo_loop peer ?mms (k + 1) (peer k (echo_at (Suc n) core2)))"
      using calls(1) len \<open>0 < ?mms\<close> by (subst echo_loop.simps) simp
    then show ?thesis using step [OF 2(2,3)] 2 send abs Cons by auto
  qed
qed

text \<open>C38. The echo thread on one end of a two-way local channel: if the deletion of the thread is called
  after \<open>n\<close> of its turns, it sets \<open>should_stop\<close>, the thread returns, and the deletion gives the final
  status and the two queues that a loop over two lists of messages gives, for any operations of the
  rest of the program between the turns.  So each turn moves the oldest message to the end of the
  queue of the other direction, and a full queue there ends the thread with \<open>CHN_CHANNEL_FULL\<close>, the
  message being lost.\<close>

theorem echo_thread_refines:
  assumes "core_inv core" "new_channel_echo_thread 0 (echo_end core) = Some et"
  shows "\<exists>core'. delete_channel_echo_thread (echo_run ops n) 0 et =
      Some (fst (echo_spec (l_cfg (a2b core)) ops n 0 (chan_abs core)), echo_end core') \<and>
    chan_abs core' = snd (echo_spec (l_cfg (a2b core)) ops n 0 (chan_abs core)) \<and> core_inv core'"
proof -
  let ?peer = "\<lambda>k et. if k + 1 = n then chn_et_stop (local2_peer ops k et) else local2_peer ops k et"
  have "et = \<lparr>should_stop = False, et_chn = echo_end core, loop_final_status = None\<rparr>"
    using assms(2) by (simp add: new_channel_echo_thread_def)
  then have et: "(if n = 0 then chn_et_stop et else et) = echo_at n core"
    by (simp add: echo_at_def chn_et_stop_def)
  have "chn_max_msg_size (echo_end core) True = (CHN_SUCCESS, Some (max_msg_size (l_cfg (a2b core))))"
    by (simp add: echo_end_def chn_max_msg_size_def CHANNEL_LOCAL2_IMPL_def chn_l2_max_msg_size_def chn_l_max_msg_size_def)
  moreover obtain status et' core' where
    "echo_loop ?peer (max_msg_size (l_cfg (a2b core))) 0 (echo_at n core) = Some (status, et')"
    "et_chn et' = echo_end core'"
    "echo_spec (l_cfg (a2b core)) ops n 0 (chan_abs core) = (status, chan_abs core')" "core_inv core'"
    using echo_loop_refines [of core ?peer 0 n ops] assms(1) by fastforce
  ultimately show ?thesis
    by (intro exI [of _ core'])
      (simp add: et delete_channel_echo_thread_def echo_run_def channel_echo_thread_loop_def)
qed

lemma echo_thread_refines_witness:
  "\<exists>core et core'. new_channel_local2_core False False True (Some \<lparr>queue_depth = 1, write_over = False, max_msg_size = 2\<rparr>) =
      (CHN_SUCCESS, Some core) \<and> new_channel_echo_thread 0 (echo_end core) = Some et \<and>
    delete_channel_echo_thread (echo_run (\<lambda>k. [Send True [7]]) 3) 0 et =
      Some (CHN_CHANNEL_FULL, echo_end core') \<and> chan_abs core' = ([], [[7]])"
proof -
  let ?cfg = "\<lparr>queue_depth = 1, write_over = False, max_msg_size = 2\<rparr>"
  obtain c where c: "new_channel_local False (Some ?cfg) = (CHN_SUCCESS, Some c)"
    by (simp add: new_channel_local_def new_queue_def)
  let ?core = "\<lparr>a2b = c, b2a = c\<rparr>"
  from new_channel_local_ok [OF c] have core: "core_inv ?core" "l_cfg c = ?cfg" "chan_abs ?core = ([], [])"
    by (simp_all add: core_inv_def chan_abs_def)
  obtain et where et: "new_channel_echo_thread 0 (echo_end ?core) = Some et" by (simp add: new_channel_echo_thread_def)
  have spec: "echo_spec ?cfg (\<lambda>k. [Send True [7]]) 3 0 ([], []) = (CHN_CHANNEL_FULL, [], [[7]])"
    by (simp add: numeral_3_eq_3 fifo_send_def)
  from echo_thread_refines [OF core(1), of et "\<lambda>k. [Send True [7]]" 3] et core(2,3) spec c
  show ?thesis by (auto simp: new_channel_local2_core_def)
qed

end
