(* ===== verification/Chsys_Sys.thy ===== *)
theory Chsys_Sys
  imports Ch_Prelude
begin

text \<open>
  The system layer (\<open>chsys/src/sys.c\<close>, \<open>mem.c\<close>, \<open>log.c\<close>, \<open>wrappers.c\<close>): the state every process
  keeps under one lock, with its flags, the count of allocated blocks and the list of its children.

  A call is run by one thread.  \<open>p_locked\<close> says that this thread holds the system lock; locking again
  is a deadlock and unlocking without it, like any access to the state before \<open>sys_init\<close>, is undefined:
  the outcome \<open>Stuck\<close>.  A call that ends the process has the outcome \<open>Exit\<close> with the status and the
  process as \<open>exit\<close> sees it.  What the operating system answers is an argument of the call: the results
  of \<open>malloc\<close>, \<open>fork\<close>, \<open>waitpid\<close> and the \<open>pthread\<close> calls.  The kernel's side of the process is part
  of the state: \<open>p_kids\<close> are its children that have not been waited for, \<open>p_killed\<close> the processes it has
  sent a \<open>SIGINT\<close>, \<open>p_heap\<close> the blocks that \<open>safe_malloc\<close> obtained.
\<close>

section \<open>State and outcomes\<close>

datatype sys_log_level_t = SYS_INFO | SYS_WARN | SYS_FATAL

text \<open>The exit routine and its argument are any values; the signal thread calls what they stand for.\<close>

record ('f, 'a) sys_state_t =
  quiet :: bool
  signal_exit_flag :: bool
  signal_exit_requested :: bool
  signal_exit_routine_arg :: "'a option"
  signal_exit_routine :: "'f option"
  malloc_count :: u64
  child_list :: "int list"

record ('f, 'a) process =
  p_ss :: "('f, 'a) sys_state_t option"
  p_locked :: bool
  p_output :: "(sys_log_level_t \<times> string \<times> int list) list"
  p_kids :: "int list"
  p_killed :: "int list"
  p_heap :: "nat list"

datatype ('r, 'p) outcome = Ret 'r 'p | Exit int 'p | Stuck

definition andthen :: "('r, 'p) outcome \<Rightarrow> ('r \<Rightarrow> 'p \<Rightarrow> ('s, 'p) outcome) \<Rightarrow> ('s, 'p) outcome" where
  "andthen x k = (case x of Ret r p \<Rightarrow> k r p | Exit status p \<Rightarrow> Exit status p | Stuck \<Rightarrow> Stuck)"

type_synonym ('r, 'f, 'a) call = "('f, 'a) process \<Rightarrow> ('r, ('f, 'a) process) outcome"

text \<open>Reading and writing the state behind the pointer \<open>ss\<close>.\<close>

definition get_ss :: "(('f, 'a) sys_state_t, 'f, 'a) call" where
  "get_ss p = (case p_ss p of None \<Rightarrow> Stuck | Some ss \<Rightarrow> Ret ss p)"

definition update_ss :: "(('f, 'a) sys_state_t \<Rightarrow> ('f, 'a) sys_state_t) \<Rightarrow> (unit, 'f, 'a) call" where
  "update_ss g p = (case p_ss p of None \<Rightarrow> Stuck | Some ss \<Rightarrow> Ret () (p\<lparr>p_ss := Some (g ss)\<rparr>))"

definition sys_lock_p :: "bool \<Rightarrow> (unit, 'f, 'a) call" where
  "sys_lock_p acquire_lock p =
     (if acquire_lock then (if p_locked p then Stuck else Ret () (p\<lparr>p_locked := True\<rparr>)) else Ret () p)"

definition sys_unlock_p :: "bool \<Rightarrow> (unit, 'f, 'a) call" where
  "sys_unlock_p acquire_lock p =
     (if acquire_lock then (if p_locked p then Ret () (p\<lparr>p_locked := False\<rparr>) else Stuck) else Ret () p)"

definition sys_is_quiet_p :: "bool \<Rightarrow> (bool, 'f, 'a) call" where
  "sys_is_quiet_p acquire_lock p =
     andthen (sys_lock_p acquire_lock p) (\<lambda>_ p. andthen (get_ss p) (\<lambda>ss p.
       andthen (sys_unlock_p acquire_lock p) (\<lambda>_ p. Ret (quiet ss) p)))"

section \<open>Logging and exit\<close>

text \<open>
  \<open>log_any_p\<close> and \<open>safe_exit_p\<close> call each other, but \<open>safe_exit_p\<close> only logs below \<open>SYS_FATAL\<close>:
  \<open>log_below_fatal\<close> is \<open>log_any_p\<close> at such a level.  The output keeps the level, the format and the
  numbers printed; colours and the process id are left out.
\<close>

definition print_log :: "sys_log_level_t \<Rightarrow> string \<Rightarrow> int list \<Rightarrow> (unit, 'f, 'a) call" where
  "print_log level fmt args p = Ret () (p\<lparr>p_output := p_output p @ [(level, fmt, args)]\<rparr>)"

definition log_below_fatal :: "bool \<Rightarrow> sys_log_level_t \<Rightarrow> string \<Rightarrow> int list \<Rightarrow> (unit, 'f, 'a) call" where
  "log_below_fatal acquire_lock level fmt args p =
     andthen (sys_lock_p acquire_lock p) (\<lambda>_ p. andthen (sys_is_quiet_p False p) (\<lambda>is_quiet p.
       andthen (if \<not> is_quiet then print_log level fmt args p else Ret () p) (\<lambda>_ p. sys_unlock_p acquire_lock p)))"

text \<open>\<open>kill\<close> with \<open>SIGINT\<close>, and \<open>waitpid\<close> for a child, which is reaped if it was not before.\<close>

definition kill_int :: "int \<Rightarrow> (unit, 'f, 'a) call" where
  "kill_int pid p = Ret () (p\<lparr>p_killed := p_killed p @ [pid]\<rparr>)"

definition waitpid_reap :: "int \<Rightarrow> (unit, 'f, 'a) call" where
  "waitpid_reap pid p = Ret () (p\<lparr>p_kids := remove1 pid (p_kids p)\<rparr>)"

fun exit_loop :: "int list \<Rightarrow> (unit, 'f, 'a) call" where
  "exit_loop [] p = Ret () p"
| "exit_loop (pid # iter) p =
     andthen (log_below_fatal False SYS_INFO ''Killing and reaping process with pid=%d'' [pid] p) (\<lambda>_ p.
       andthen (kill_int pid p) (\<lambda>_ p. andthen (waitpid_reap pid p) (\<lambda>_ p. exit_loop iter p)))"

definition safe_exit_p :: "bool \<Rightarrow> int \<Rightarrow> ('r, 'f, 'a) call" where
  "safe_exit_p acquire_lock status p =
     andthen (sys_lock_p acquire_lock p) (\<lambda>_ p. andthen (get_ss p) (\<lambda>ss p.
       andthen (if malloc_count ss > 0
          then log_below_fatal False SYS_WARN ''Process exiting with memory leak. (%zu)'' [uint (malloc_count ss)] p
          else Ret () p) (\<lambda>_ p.
       andthen (exit_loop (child_list ss) p) (\<lambda>_ p. Exit status (p\<lparr>p_ss := None\<rparr>)))))"

definition log_any_p :: "bool \<Rightarrow> sys_log_level_t \<Rightarrow> string \<Rightarrow> int list \<Rightarrow> (unit, 'f, 'a) call" where
  "log_any_p acquire_lock level fmt args p =
     andthen (sys_lock_p acquire_lock p) (\<lambda>_ p. andthen (sys_is_quiet_p False p) (\<lambda>is_quiet p.
       andthen (if \<not> is_quiet then print_log level fmt args p else Ret () p) (\<lambda>_ p.
         andthen (if level = SYS_FATAL then safe_exit_p False 1 p else Ret () p) (\<lambda>_ p.
           sys_unlock_p acquire_lock p))))"

text \<open>\<open>log_fatal_p\<close> does not return; the code after it is not reached.\<close>

definition log_fatal_p :: "bool \<Rightarrow> string \<Rightarrow> int list \<Rightarrow> ('r, 'f, 'a) call" where
  "log_fatal_p acquire_lock fmt args p =
     andthen (log_any_p acquire_lock SYS_FATAL fmt args p) (\<lambda>_ _. Stuck)"

section \<open>Flags and counters\<close>

definition sys_sig_exit_requested :: "(bool, 'f, 'a) call" where
  "sys_sig_exit_requested p =
     andthen (sys_lock_p True p) (\<lambda>_ p. andthen (get_ss p) (\<lambda>ss p.
       andthen (sys_unlock_p True p) (\<lambda>_ p. Ret (signal_exit_requested ss) p)))"

definition sys_set_sig_exit :: "bool \<Rightarrow> (unit, 'f, 'a) call" where
  "sys_set_sig_exit e p =
     andthen (sys_lock_p True p) (\<lambda>_ p. andthen (update_ss (\<lambda>ss. ss\<lparr>signal_exit_flag := e\<rparr>) p) (\<lambda>_ p.
       sys_unlock_p True p))"

definition sys_sig_exit_routine :: "'f option \<Rightarrow> 'a option \<Rightarrow> (unit, 'f, 'a) call" where
  "sys_sig_exit_routine routine arg p =
     andthen (sys_lock_p True p) (\<lambda>_ p.
       andthen (update_ss (\<lambda>ss. ss\<lparr>signal_exit_routine := routine, signal_exit_routine_arg := arg\<rparr>) p) (\<lambda>_ p.
         sys_unlock_p True p))"

definition sys_set_quiet_p :: "bool \<Rightarrow> bool \<Rightarrow> (unit, 'f, 'a) call" where
  "sys_set_quiet_p acquire_lock q p =
     andthen (sys_lock_p acquire_lock p) (\<lambda>_ p. andthen (update_ss (\<lambda>ss. ss\<lparr>quiet := q\<rparr>) p) (\<lambda>_ p.
       sys_unlock_p acquire_lock p))"

definition sys_inc_malloc_count_p :: "bool \<Rightarrow> (unit, 'f, 'a) call" where
  "sys_inc_malloc_count_p acquire_lock p =
     andthen (sys_lock_p acquire_lock p) (\<lambda>_ p. andthen (get_ss p) (\<lambda>ss p.
       andthen (if malloc_count ss = - 1 then log_fatal_p False ''Malloc overflow'' [] p else Ret () p) (\<lambda>_ p.
         andthen (update_ss (\<lambda>ss. ss\<lparr>malloc_count := malloc_count ss + 1\<rparr>) p) (\<lambda>_ p.
           sys_unlock_p acquire_lock p))))"

definition sys_dec_malloc_count_p :: "bool \<Rightarrow> (unit, 'f, 'a) call" where
  "sys_dec_malloc_count_p acquire_lock p =
     andthen (sys_lock_p acquire_lock p) (\<lambda>_ p. andthen (get_ss p) (\<lambda>ss p.
       andthen (if malloc_count ss = 0 then log_fatal_p False ''Malloc underflow'' [] p else Ret () p) (\<lambda>_ p.
         andthen (update_ss (\<lambda>ss. ss\<lparr>malloc_count := malloc_count ss - 1\<rparr>) p) (\<lambda>_ p.
           sys_unlock_p acquire_lock p))))"

definition sys_get_malloc_count_p :: "bool \<Rightarrow> (u64, 'f, 'a) call" where
  "sys_get_malloc_count_p acquire_lock p =
     andthen (sys_lock_p acquire_lock p) (\<lambda>_ p. andthen (get_ss p) (\<lambda>ss p.
       andthen (sys_unlock_p acquire_lock p) (\<lambda>_ p. Ret (malloc_count ss) p)))"

definition sys_reset_malloc_count_p :: "bool \<Rightarrow> (unit, 'f, 'a) call" where
  "sys_reset_malloc_count_p acquire_lock p =
     andthen (sys_lock_p acquire_lock p) (\<lambda>_ p. andthen (update_ss (\<lambda>ss. ss\<lparr>malloc_count := 0\<rparr>) p) (\<lambda>_ p.
       sys_unlock_p acquire_lock p))"

section \<open>Start and signals\<close>

text \<open>The result of \<open>pthread_create\<close> is \<open>s\<close>.\<close>

definition spawn_sig_thread_p :: "bool \<Rightarrow> int \<Rightarrow> (unit, 'f, 'a) call" where
  "spawn_sig_thread_p acquire_lock s p =
     (if s \<noteq> 0 then log_fatal_p acquire_lock ''Failed to create signal handling thread. (%d)'' [s] p else Ret () p)"

text \<open>The arguments are the results of the mutex initialisation, of \<open>malloc\<close>, of the signal mask and of
  the thread creation.  \<open>ERROR_OUT\<close> prints and leaves the process.\<close>

definition sys_init :: "int \<Rightarrow> bool \<Rightarrow> int \<Rightarrow> int \<Rightarrow> (unit, 'f, 'a) call" where
  "sys_init mutex_res malloc_ok mask_res create_res p =
     andthen (if p_ss p \<noteq> None then log_fatal_p True (''System attempting to be init'' @ [CHR 0x27] @ ''d more than once'') [] p else Ret () p) (\<lambda>_ p.
       if mutex_res \<noteq> 0 then Exit 1 p
       else if \<not> malloc_ok then Exit 1 p
       else
         let ss = \<lparr>quiet = False, signal_exit_flag = True, signal_exit_requested = False,
           signal_exit_routine_arg = None, signal_exit_routine = None, malloc_count = 0, child_list = []\<rparr>
         in andthen (Ret () (p\<lparr>p_ss := Some ss\<rparr>)) (\<lambda>_ p.
           andthen (if mask_res \<noteq> 0
              then log_fatal_p True ''Failed to block SIGINT and SIGPIPE. (%d)'' [mask_res] p else Ret () p) (\<lambda>_ p.
           spawn_sig_thread_p True create_res p)))"

text \<open>The signal thread notes a request to exit; the result is the state it reads with the lock.\<close>

definition sig_request :: "(('f, 'a) sys_state_t, 'f, 'a) call" where
  "sig_request p =
     andthen (sys_lock_p True p) (\<lambda>_ p. andthen (get_ss p) (\<lambda>ss p.
     andthen (update_ss (\<lambda>ss. ss\<lparr>signal_exit_requested := True\<rparr>) p) (\<lambda>_ p.
     andthen (sys_unlock_p True p) (\<lambda>_ p. Ret ss p))))"

text \<open>The body of the signal thread; \<open>s\<close> is the result of \<open>sigwait\<close>, \<open>run\<close> calls a routine.\<close>

definition sig_thread :: "int \<Rightarrow> ('f \<Rightarrow> 'a option \<Rightarrow> (unit, 'f, 'a) call) \<Rightarrow> (unit, 'f, 'a) call" where
  "sig_thread s run p =
     andthen (if s \<noteq> 0 then log_fatal_p True ''Error from sigwait. (%d)'' [s] p else Ret () p) (\<lambda>_ p.
     andthen (log_any_p True SYS_INFO ''Exit signal received'' [] p) (\<lambda>_ p.
     andthen (sig_request p) (\<lambda>ss p.
       if \<not> signal_exit_flag ss then log_any_p True SYS_INFO ''Signal handler thread exiting'' [] p
       else andthen
         (case signal_exit_routine ss of
            Some exit_rout \<Rightarrow>
              andthen (log_any_p True SYS_INFO ''Performing signal exit routine'' [] p)
                (\<lambda>_ p. run exit_rout (signal_exit_routine_arg ss) p)
          | None \<Rightarrow> Ret () p)
         (\<lambda>_ p. safe_exit_p True 0 p))))"

section \<open>Children\<close>

text \<open>After a \<open>fork\<close>, in the child, which holds the lock.\<close>

definition prepare_from_child :: "int \<Rightarrow> (int, 'f, 'a) call" where
  "prepare_from_child create_res p =
     andthen (update_ss (\<lambda>ss. ss\<lparr>child_list := []\<rparr>) p) (\<lambda>_ p. andthen (sys_unlock_p True p) (\<lambda>_ p.
       andthen (spawn_sig_thread_p True create_res p) (\<lambda>_ p. Ret 0 p)))"

text \<open>
  \<open>fork\<close> with its result: a child process has no children of its own and has sent no signals; in the
  parent a positive result is a new child.
\<close>

definition fork_effect :: "int \<Rightarrow> ('f, 'a) process \<Rightarrow> ('f, 'a) process" where
  "fork_effect pid p =
     (if pid = 0 then p\<lparr>p_kids := [], p_killed := []\<rparr> else if pid > 0 then p\<lparr>p_kids := pid # p_kids p\<rparr> else p)"

definition safe_fork :: "int \<Rightarrow> bool \<Rightarrow> int \<Rightarrow> (int, 'f, 'a) call" where
  "safe_fork pid malloc_ok create_res p =
     andthen (sys_lock_p True p) (\<lambda>_ p. andthen (Ret () (fork_effect pid p)) (\<lambda>_ p.
     andthen (if pid < 0 then log_fatal_p False ''Failed to fork'' [] p else Ret () p) (\<lambda>_ p.
       if pid = 0 then prepare_from_child create_res p
       else andthen
         (if \<not> malloc_ok then
            andthen (kill_int pid p) (\<lambda>_ p. andthen (waitpid_reap pid p) (\<lambda>_ p.
              log_fatal_p False ''Unable to malloc child node'' [] p))
          else Ret () p) (\<lambda>_ p.
       andthen (update_ss (\<lambda>ss. ss\<lparr>child_list := pid # child_list ss\<rparr>) p) (\<lambda>_ p.
       andthen (sys_unlock_p True p) (\<lambda>_ p. Ret pid p))))))"

text \<open>The search of \<open>safe_waitpid\<close> and the unlinking of the node found.\<close>

fun unlink_child :: "int \<Rightarrow> int list \<Rightarrow> int list option" where
  "unlink_child pid [] = None"
| "unlink_child pid (iter # rest) = (if iter \<noteq> pid then map_option (Cons iter) (unlink_child pid rest) else Some rest)"

text \<open>\<open>safe_waitpid\<close> after a \<open>waitpid\<close> with result \<open>pid\<close>.\<close>

definition after_waitpid :: "int \<Rightarrow> (int, 'f, 'a) call" where
  "after_waitpid pid p =
     (if pid < 0 then log_fatal_p True ''Failed to waitpid'' [] p
      else if pid = 0 then Ret 0 p
      else andthen (sys_lock_p True p) (\<lambda>_ p. andthen (get_ss p) (\<lambda>ss p.
        case unlink_child pid (child_list ss) of
          None \<Rightarrow> log_fatal_p False ''Reaped child not found in child list'' [] p
        | Some rest \<Rightarrow>
            andthen (update_ss (\<lambda>ss. ss\<lparr>child_list := rest\<rparr>) p) (\<lambda>_ p.
              andthen (sys_unlock_p True p) (\<lambda>_ p. Ret pid p)))))"

definition safe_waitpid :: "int \<Rightarrow> (int, 'f, 'a) call" where
  "safe_waitpid pid p =
     andthen (if pid > 0 then waitpid_reap pid p else Ret () p) (\<lambda>_ p. after_waitpid pid p)"

section \<open>Memory\<close>

text \<open>
  A pointer is an address or NULL, \<open>None\<close>.  \<open>res\<close> is the result of \<open>malloc\<close> or \<open>realloc\<close>.  Giving
  \<open>free\<close> or \<open>realloc\<close> an address that is no block is undefined.
\<close>

definition c_free :: "nat \<Rightarrow> (unit, 'f, 'a) call" where
  "c_free a p = (if a \<in> set (p_heap p) then Ret () (p\<lparr>p_heap := remove1 a (p_heap p)\<rparr>) else Stuck)"

text \<open>The first step of \<open>safe_malloc_p\<close>, outside the lock unless \<open>malloc\<close> fails; the second counts the block.\<close>

definition malloc_block :: "bool \<Rightarrow> nat \<Rightarrow> nat option \<Rightarrow> (nat option, 'f, 'a) call" where
  "malloc_block acquire_lock s res p =
     (if s = 0 then Ret None p
      else case res of
        None \<Rightarrow> log_fatal_p acquire_lock ''Failed to malloc'' [] p
      | Some a \<Rightarrow> Ret (Some a) (p\<lparr>p_heap := a # p_heap p\<rparr>))"

definition safe_malloc_p :: "bool \<Rightarrow> nat \<Rightarrow> nat option \<Rightarrow> (nat option, 'f, 'a) call" where
  "safe_malloc_p acquire_lock s res p =
     andthen (malloc_block acquire_lock s res p) (\<lambda>mem p.
       case mem of
         None \<Rightarrow> Ret None p
       | Some a \<Rightarrow> andthen (sys_inc_malloc_count_p acquire_lock p) (\<lambda>_ p. Ret (Some a) p))"

text \<open>The first step of \<open>safe_free_p\<close>; the second gives the block back, outside the lock.\<close>

definition uncount_block :: "bool \<Rightarrow> nat option \<Rightarrow> (unit, 'f, 'a) call" where
  "uncount_block acquire_lock mem p =
     (case mem of None \<Rightarrow> Ret () p | Some a \<Rightarrow> sys_dec_malloc_count_p acquire_lock p)"

definition safe_free_p :: "bool \<Rightarrow> nat option \<Rightarrow> (unit, 'f, 'a) call" where
  "safe_free_p acquire_lock mem p =
     andthen (uncount_block acquire_lock mem p) (\<lambda>_ p.
       case mem of None \<Rightarrow> Ret () p | Some a \<Rightarrow> c_free a p)"

definition safe_realloc_p :: "bool \<Rightarrow> nat option \<Rightarrow> nat \<Rightarrow> nat option \<Rightarrow> (nat option, 'f, 'a) call" where
  "safe_realloc_p acquire_lock mem s res p =
     (if s = 0 then andthen (safe_free_p True mem p) (\<lambda>_ p. Ret None p)
      else case mem of
        None \<Rightarrow> safe_malloc_p acquire_lock s res p
      | Some a \<Rightarrow>
          if a \<notin> set (p_heap p) then Stuck
          else case res of
            None \<Rightarrow> log_fatal_p acquire_lock ''Failed to realloc'' [] p
          | Some b \<Rightarrow> Ret (Some b) (p\<lparr>p_heap := b # remove1 a (p_heap p)\<rparr>))"

section \<open>Thread wrappers\<close>

text \<open>The argument is the result of the \<open>pthread\<close> call; what it does to the thread or lock is the caller's.\<close>

definition safe_pthread_create :: "int \<Rightarrow> (unit, 'f, 'a) call" where
  "safe_pthread_create res p = (if res \<noteq> 0 then log_fatal_p True ''Failed to spawn thread'' [] p else Ret () p)"

definition safe_pthread_join :: "int \<Rightarrow> (unit, 'f, 'a) call" where
  "safe_pthread_join res p = (if res \<noteq> 0 then log_fatal_p True ''Failed to join thread'' [] p else Ret () p)"

definition safe_pthread_mutex_init :: "int \<Rightarrow> (unit, 'f, 'a) call" where
  "safe_pthread_mutex_init res p = (if res \<noteq> 0 then log_fatal_p True ''Failed to init mutex'' [] p else Ret () p)"

definition safe_pthread_mutex_destroy :: "int \<Rightarrow> (unit, 'f, 'a) call" where
  "safe_pthread_mutex_destroy res p = (if res \<noteq> 0 then log_fatal_p True ''Failed to destory mutex'' [] p else Ret () p)"

definition safe_pthread_mutex_lock :: "int \<Rightarrow> (unit, 'f, 'a) call" where
  "safe_pthread_mutex_lock res p = (if res \<noteq> 0 then log_fatal_p True ''Failed to lock on mutex'' [] p else Ret () p)"

definition safe_pthread_mutex_unlock :: "int \<Rightarrow> (unit, 'f, 'a) call" where
  "safe_pthread_mutex_unlock res p = (if res \<noteq> 0 then log_fatal_p True ''Failed to unlock on mutex'' [] p else Ret () p)"

definition safe_pthread_rwlock_init :: "int \<Rightarrow> (unit, 'f, 'a) call" where
  "safe_pthread_rwlock_init res p = (if res \<noteq> 0 then log_fatal_p True ''Failed to init rwlock'' [] p else Ret () p)"

definition safe_pthread_rwlock_rdlock :: "int \<Rightarrow> (unit, 'f, 'a) call" where
  "safe_pthread_rwlock_rdlock res p = (if res \<noteq> 0 then log_fatal_p True ''Failed to acquire read lock'' [] p else Ret () p)"

definition safe_pthread_rwlock_wrlock :: "int \<Rightarrow> (unit, 'f, 'a) call" where
  "safe_pthread_rwlock_wrlock res p = (if res \<noteq> 0 then log_fatal_p True ''Failed to acquire write lock'' [] p else Ret () p)"

definition safe_pthread_rwlock_unlock :: "int \<Rightarrow> (unit, 'f, 'a) call" where
  "safe_pthread_rwlock_unlock res p = (if res \<noteq> 0 then log_fatal_p True ''Failed to unlock rwlock'' [] p else Ret () p)"

definition safe_pthread_rwlock_destroy :: "int \<Rightarrow> (unit, 'f, 'a) call" where
  "safe_pthread_rwlock_destroy res p = (if res \<noteq> 0 then log_fatal_p True ''Failed to acquire write lock'' [] p else Ret () p)"

section \<open>Calls on a good state\<close>

lemma andthen_simps [simp]:
  "andthen (Ret r p) k = k r p" "andthen (Exit status p) k = Exit status p" "andthen Stuck k = Stuck"
  by (simp_all add: andthen_def)

lemma andthen_if [simp]: "andthen (if b then x else y) k = (if b then andthen x k else andthen y k)"
  by simp

lemmas sys_call_defs = get_ss_def update_ss_def sys_lock_p_def sys_unlock_p_def sys_is_quiet_p_def print_log_def
  log_below_fatal_def kill_int_def waitpid_reap_def log_any_p_def log_fatal_p_def

text \<open>What leaving the process does to it.\<close>

definition exit_output :: "('f, 'a) sys_state_t \<Rightarrow> (sys_log_level_t \<times> string \<times> int list) list" where
  "exit_output ss =
     (if quiet ss then []
      else (if malloc_count ss > 0
          then [(SYS_WARN, ''Process exiting with memory leak. (%zu)'', [uint (malloc_count ss)])] else []) @
        map (\<lambda>pid. (SYS_INFO, ''Killing and reaping process with pid=%d'', [pid])) (child_list ss))"

definition exited :: "bool \<Rightarrow> ('f, 'a) sys_state_t \<Rightarrow> ('f, 'a) process \<Rightarrow> ('f, 'a) process" where
  "exited locked ss p = p\<lparr>p_ss := None, p_locked := locked, p_output := p_output p @ exit_output ss,
     p_kids := fold remove1 (child_list ss) (p_kids p), p_killed := p_killed p @ child_list ss\<rparr>"

lemma exit_loop_ok:
  "p_ss p = Some ss \<Longrightarrow>
   exit_loop l p = Ret () (p\<lparr>p_output := p_output p @
       (if quiet ss then [] else map (\<lambda>pid. (SYS_INFO, ''Killing and reaping process with pid=%d'', [pid])) l),
     p_kids := fold remove1 l (p_kids p), p_killed := p_killed p @ l\<rparr>)"
  by (induction l arbitrary: p) (simp_all add: sys_call_defs)

lemma safe_exit_ok:
  assumes "p_ss p = Some ss" "acquire_lock \<longrightarrow> \<not> p_locked p"
  shows "safe_exit_p acquire_lock status p = Exit status (exited (acquire_lock \<or> p_locked p) ss p)"
  using assms by (auto simp: safe_exit_p_def sys_call_defs exit_loop_ok exited_def exit_output_def)

lemma log_fatal_ok:
  assumes "p_ss p = Some ss" "acquire_lock \<longrightarrow> \<not> p_locked p"
  shows "log_fatal_p acquire_lock fmt args p = Exit 1 (exited (acquire_lock \<or> p_locked p) ss
    (p\<lparr>p_output := p_output p @ (if quiet ss then [] else [(SYS_FATAL, fmt, args)])\<rparr>))"
  using assms by (auto simp: log_fatal_p_def log_any_p_def sys_lock_p_def sys_is_quiet_p_def sys_unlock_p_def get_ss_def
    print_log_def safe_exit_ok exited_def)

lemma mset_fold_remove1: "mset (fold remove1 l k) = mset k - mset l"
  by (induction l arbitrary: k) simp_all

lemma unlink_child_ok: "pid \<in> set l \<Longrightarrow> unlink_child pid l = Some (remove1 pid l)"
  by (induction l) auto

section \<open>Processes with several threads\<close>

text \<open>
  The steps of all threads of a process.  A step that works on the state holds the lock while it does.
  Three calls are two steps each, since they do part of their work outside the lock, with any steps of the
  other threads in between: \<open>safe_malloc_p\<close> gets its block before it counts it, \<open>safe_free_p\<close> counts
  before it gives its block back, and \<open>safe_waitpid\<close> reaps the child before it unlinks it.  \<open>safe_realloc_p\<close>
  begins like a \<open>safe_malloc_p\<close> or a \<open>safe_free_p\<close> when its pointer is NULL or its size is 0.  The
  lemmas \<open>safe_malloc_steps\<close>, \<open>safe_free_steps\<close>, \<open>safe_realloc_steps\<close> and \<open>safe_waitpid_steps\<close> show that the
  steps in a row are the calls.  The steps are those of calls that take the lock themselves.
\<close>

datatype ('f, 'a) sys_call =
    CMalloc nat "nat option" | CCount nat | CFree "nat option" | CRelease nat
  | CRealloc "nat option" nat "nat option"
  | CFork int bool int | CReap int | CAfterWait int
  | CSetQuiet bool | CIsQuiet | CSetSigExit bool | CSetRoutine "'f option" "'a option" | CSigRequest | CSigRequested
  | CResetCount | CIncCount | CDecCount | CGetCount
  | CInit int bool int int | CLog sys_log_level_t string "int list" | CExit int

definition no_result :: "('r, 'p) outcome \<Rightarrow> (unit, 'p) outcome" where
  "no_result x = (case x of Ret _ p \<Rightarrow> Ret () p | Exit status p \<Rightarrow> Exit status p | Stuck \<Rightarrow> Stuck)"

definition exec_realloc :: "nat option \<Rightarrow> nat \<Rightarrow> nat option \<Rightarrow> (unit, 'f, 'a) call" where
  "exec_realloc mem s res p =
     (if s = 0 then uncount_block True mem p
      else case mem of None \<Rightarrow> no_result (malloc_block True s res p) | Some a \<Rightarrow> no_result (safe_realloc_p True mem s res p))"

fun exec_call :: "('f, 'a) sys_call \<Rightarrow> (unit, 'f, 'a) call" where
  "exec_call (CMalloc s res) p = no_result (malloc_block True s res p)"
| "exec_call (CCount a) p = sys_inc_malloc_count_p True p"
| "exec_call (CFree mem) p = uncount_block True mem p"
| "exec_call (CRelease a) p = c_free a p"
| "exec_call (CRealloc mem s res) p = exec_realloc mem s res p"
| "exec_call (CFork pid malloc_ok create_res) p = no_result (safe_fork pid malloc_ok create_res p)"
| "exec_call (CReap pid) p = waitpid_reap pid p"
| "exec_call (CAfterWait pid) p = no_result (after_waitpid pid p)"
| "exec_call (CSetQuiet q) p = sys_set_quiet_p True q p"
| "exec_call CIsQuiet p = no_result (sys_is_quiet_p True p)"
| "exec_call (CSetSigExit e) p = sys_set_sig_exit e p"
| "exec_call (CSetRoutine routine arg) p = sys_sig_exit_routine routine arg p"
| "exec_call CSigRequest p = no_result (sig_request p)"
| "exec_call CSigRequested p = no_result (sys_sig_exit_requested p)"
| "exec_call CResetCount p = sys_reset_malloc_count_p True p"
| "exec_call CIncCount p = sys_inc_malloc_count_p True p"
| "exec_call CDecCount p = sys_dec_malloc_count_p True p"
| "exec_call CGetCount p = no_result (sys_get_malloc_count_p True p)"
| "exec_call (CInit mutex_res malloc_ok mask_res create_res) p = sys_init mutex_res malloc_ok mask_res create_res p"
| "exec_call (CLog level fmt args) p = log_any_p True level fmt args p"
| "exec_call (CExit status) p = safe_exit_p True status p"

text \<open>
  Where the threads are between their steps: the children reaped and not yet unlinked, the blocks
  obtained and not yet counted, the blocks no longer counted and not yet given back, and the
  blocks that were in between when the process was forked, whose threads do not exist in it.  The
  blocks that callers hold are the others.  \<open>t_drift\<close> is how far the counter has been moved away from
  the number of these, by a reset or by counting by hand.
\<close>

record sys_threads =
  t_reaped :: "int multiset"
  t_fresh :: "nat multiset"
  t_freeing :: "nat multiset"
  t_lost :: "nat multiset"
  t_drift :: int

definition in_between :: "sys_threads \<Rightarrow> nat multiset" where
  "in_between t = t_fresh t + t_freeing t + t_lost t"

definition held_blocks :: "('f, 'a) process \<Rightarrow> sys_threads \<Rightarrow> nat multiset" where
  "held_blocks p t = mset (p_heap p) - in_between t"

definition count_of :: "('f, 'a) process \<Rightarrow> sys_threads \<Rightarrow> int" where
  "count_of p t = int (size (held_blocks p t)) - t_drift t"

text \<open>
  What the operating system and correct callers do: only existing children are reaped, only blocks
  somebody holds are freed or resized, and a second step follows its first.
\<close>

fun sys_call_allowed :: "('f, 'a) sys_call \<Rightarrow> ('f, 'a) process \<Rightarrow> sys_threads \<Rightarrow> bool" where
  "sys_call_allowed (CCount a) p t \<longleftrightarrow> a \<in># t_fresh t"
| "sys_call_allowed (CFree mem) p t \<longleftrightarrow> (case mem of None \<Rightarrow> True | Some a \<Rightarrow> a \<in># held_blocks p t)"
| "sys_call_allowed (CRelease a) p t \<longleftrightarrow> a \<in># t_freeing t"
| "sys_call_allowed (CRealloc mem s res) p t \<longleftrightarrow> (case mem of None \<Rightarrow> True | Some a \<Rightarrow> a \<in># held_blocks p t)"
| "sys_call_allowed (CReap pid) p t \<longleftrightarrow> pid \<in> set (p_kids p)"
| "sys_call_allowed (CAfterWait pid) p t \<longleftrightarrow> pid \<le> 0 \<or> pid \<in># t_reaped t"
| "sys_call_allowed _ p t \<longleftrightarrow> True"

definition after_malloc :: "nat \<Rightarrow> nat option \<Rightarrow> sys_threads \<Rightarrow> sys_threads" where
  "after_malloc s res t =
     (case res of Some a \<Rightarrow> if s \<noteq> 0 then t\<lparr>t_fresh := add_mset a (t_fresh t)\<rparr> else t | None \<Rightarrow> t)"

definition after_uncount :: "nat option \<Rightarrow> sys_threads \<Rightarrow> sys_threads" where
  "after_uncount mem t = (case mem of Some a \<Rightarrow> t\<lparr>t_freeing := add_mset a (t_freeing t)\<rparr> | None \<Rightarrow> t)"

fun threads_after :: "('f, 'a) sys_call \<Rightarrow> ('f, 'a) process \<Rightarrow> sys_threads \<Rightarrow> sys_threads" where
  "threads_after (CMalloc s res) p t = after_malloc s res t"
| "threads_after (CCount a) p t = t\<lparr>t_fresh := t_fresh t - {#a#}\<rparr>"
| "threads_after (CFree mem) p t = after_uncount mem t"
| "threads_after (CRelease a) p t = t\<lparr>t_freeing := t_freeing t - {#a#}\<rparr>"
| "threads_after (CRealloc mem s res) p t =
     (if s = 0 then after_uncount mem t else if mem = None then after_malloc s res t else t)"
| "threads_after (CFork pid _ _) p t =
     (if pid = 0 then t\<lparr>t_reaped := {#}, t_fresh := {#}, t_freeing := {#}, t_lost := in_between t\<rparr> else t)"
| "threads_after (CReap pid) p t = t\<lparr>t_reaped := add_mset pid (t_reaped t)\<rparr>"
| "threads_after (CAfterWait pid) p t = (if pid > 0 then t\<lparr>t_reaped := t_reaped t - {#pid#}\<rparr> else t)"
| "threads_after CResetCount p t = t\<lparr>t_drift := int (size (held_blocks p t))\<rparr>"
| "threads_after CIncCount p t = t\<lparr>t_drift := t_drift t - 1\<rparr>"
| "threads_after CDecCount p t = t\<lparr>t_drift := t_drift t + 1\<rparr>"
| "threads_after _ p t = t"

text \<open>
  The calls that end the process: on purpose, because the operating system refused a request, or
  because the counter would overflow or, after a reset or counting by hand, fall below 0.
\<close>

fun ends_process :: "('f, 'a) sys_call \<Rightarrow> ('f, 'a) process \<Rightarrow> sys_threads \<Rightarrow> bool" where
  "ends_process (CMalloc s res) p t \<longleftrightarrow> s \<noteq> 0 \<and> res = None"
| "ends_process (CCount a) p t \<longleftrightarrow> count_of p t = 2 ^ 64 - 1"
| "ends_process (CFree mem) p t \<longleftrightarrow> mem \<noteq> None \<and> count_of p t = 0"
| "ends_process (CRealloc mem s res) p t \<longleftrightarrow> (if s = 0 then mem \<noteq> None \<and> count_of p t = 0 else res = None)"
| "ends_process (CFork pid malloc_ok create_res) p t \<longleftrightarrow>
     pid < 0 \<or> pid = 0 \<and> create_res \<noteq> 0 \<or> pid > 0 \<and> \<not> malloc_ok"
| "ends_process (CAfterWait pid) p t \<longleftrightarrow> pid < 0"
| "ends_process CIncCount p t \<longleftrightarrow> count_of p t = 2 ^ 64 - 1"
| "ends_process CDecCount p t \<longleftrightarrow> count_of p t = 0"
| "ends_process (CInit mutex_res malloc_ok mask_res create_res) p t \<longleftrightarrow> True"
| "ends_process (CLog level fmt args) p t \<longleftrightarrow> level = SYS_FATAL"
| "ends_process (CExit status) p t \<longleftrightarrow> True"
| "ends_process _ p t \<longleftrightarrow> False"

definition sys_inv :: "('f, 'a) process \<Rightarrow> sys_threads \<Rightarrow> bool" where [inv_defs]:
  "sys_inv p t \<longleftrightarrow> \<not> p_locked p \<and> in_between t \<subseteq># mset (p_heap p) \<and>
     (case p_ss p of None \<Rightarrow> False
      | Some ss \<Rightarrow> mset (child_list ss) = mset (p_kids p) + t_reaped t \<and>
          uint (malloc_count ss) = count_of p t)"

text \<open>The outcome of a call from a good state.\<close>

definition good_outcome ::
    "bool \<Rightarrow> sys_threads \<Rightarrow> (unit, ('f, 'a) process) outcome \<Rightarrow> bool" where
  "good_outcome ends t x =
     (case x of Ret _ p \<Rightarrow> \<not> ends \<and> sys_inv p t | Exit _ p \<Rightarrow> ends \<and> p_kids p = [] | Stuck \<Rightarrow> False)"

lemma good_outcome_simps [simp]:
  "good_outcome ends t (Ret r p) \<longleftrightarrow> \<not> ends \<and> sys_inv p t"
  "good_outcome ends t (Exit status p) \<longleftrightarrow> ends \<and> p_kids p = []"
  "\<not> good_outcome ends t Stuck"
  by (simp_all add: good_outcome_def)

lemma no_result_simps [simp]:
  "no_result (Ret r p) = Ret () p" "no_result (Exit status p) = Exit status p" "no_result Stuck = Stuck"
  by (simp_all add: no_result_def)

lemma exited_kids [simp]: "mset (p_kids p) \<subseteq># mset (child_list ss) \<Longrightarrow> p_kids (exited b ss p) = []"
  unfolding exited_def using mset_fold_remove1 [of "child_list ss" "p_kids p"] by (simp add: Diff_eq_empty_iff_mset flip: mset_zero_iff)

lemma max_count: "c = - 1 \<longleftrightarrow> uint (c :: u64) = 2 ^ 64 - 1"
proof -
  have "uint (- 1 :: u64) = 2 ^ 64 - 1" by (simp add: unsigned_minus_1_eq_mask mask_eq_exp_minus_1)
  then show ?thesis by (metis word_uint_eq_iff)
qed

lemma inc_count: "c \<noteq> - 1 \<Longrightarrow> uint ((c :: u64) + 1) = uint c + 1"
proof -
  assume "c \<noteq> - 1"
  then have "unat (c + 1) = unat c + 1" using unatSuc [of c] by (simp add: add.commute add_eq_0_iff)
  then have "int (unat (c + 1)) = int (unat c + 1)" by (simp only:)
  then show ?thesis by simp
qed

lemma dec_count: "c \<noteq> 0 \<Longrightarrow> uint ((c :: u64) - 1) = uint c - 1"
proof -
  assume c: "c \<noteq> 0"
  then have "unat (c - 1) + 1 = unat c" using unat_gt_0 [of c] by (simp add: unat_minus_one)
  then have "int (unat (c - 1) + 1) = int (unat c)" by (simp only:)
  then show ?thesis by simp
qed

lemma sys_inc_ok:
  assumes "p_ss p = Some ss" "\<not> p_locked p"
  shows "sys_inc_malloc_count_p True p =
    (if malloc_count ss = - 1
     then Exit 1 (exited True ss (p\<lparr>p_locked := True,
       p_output := p_output p @ (if quiet ss then [] else [(SYS_FATAL, ''Malloc overflow'', [])])\<rparr>))
     else Ret () (p\<lparr>p_locked := False, p_ss := Some (ss\<lparr>malloc_count := malloc_count ss + 1\<rparr>)\<rparr>))"
  using assms by (simp add: sys_inc_malloc_count_p_def sys_lock_p_def get_ss_def log_fatal_ok update_ss_def sys_unlock_p_def)

lemma sys_dec_ok:
  assumes "p_ss p = Some ss" "\<not> p_locked p"
  shows "sys_dec_malloc_count_p True p =
    (if malloc_count ss = 0
     then Exit 1 (exited True ss (p\<lparr>p_locked := True,
       p_output := p_output p @ (if quiet ss then [] else [(SYS_FATAL, ''Malloc underflow'', [])])\<rparr>))
     else Ret () (p\<lparr>p_locked := False, p_ss := Some (ss\<lparr>malloc_count := malloc_count ss - 1\<rparr>)\<rparr>))"
  using assms by (simp add: sys_dec_malloc_count_p_def sys_lock_p_def get_ss_def log_fatal_ok update_ss_def sys_unlock_p_def)

text \<open>What the steps do to the blocks held.\<close>

lemma held_fresh: "held_blocks (p\<lparr>p_heap := a # p_heap p\<rparr>) (t\<lparr>t_fresh := add_mset a (t_fresh t)\<rparr>) = held_blocks p t"
  by (simp add: held_blocks_def in_between_def add.assoc)

lemma in_between_fresh [simp]:
  "in_between (t\<lparr>t_fresh := add_mset a (t_fresh t)\<rparr>) = add_mset a (in_between t)"
  "in_between (t\<lparr>t_freeing := add_mset a (t_freeing t)\<rparr>) = add_mset a (in_between t)"
  "in_between (t\<lparr>t_reaped := r\<rparr>) = in_between t" "in_between (t\<lparr>t_drift := d\<rparr>) = in_between t"
  "a \<in># t_fresh t \<Longrightarrow> in_between (t\<lparr>t_fresh := t_fresh t - {#a#}\<rparr>) = in_between t - {#a#}"
  "a \<in># t_freeing t \<Longrightarrow> in_between (t\<lparr>t_freeing := t_freeing t - {#a#}\<rparr>) = in_between t - {#a#}"
  by (simp_all add: in_between_def)

lemma in_between_member: "a \<in># t_fresh t \<or> a \<in># t_freeing t \<Longrightarrow> a \<in># in_between t"
  by (auto simp: in_between_def)

lemma sys_invE:
  assumes "sys_inv p t"
  obtains ss where "p_ss p = Some ss" "\<not> p_locked p" "mset (child_list ss) = mset (p_kids p) + t_reaped t"
    "uint (malloc_count ss) = count_of p t" "mset (p_heap p) = in_between t + held_blocks p t"
  using assms by (auto simp: sys_inv_def held_blocks_def subset_mset.add_diff_inverse split: option.splits)

lemma sys_invI:
  assumes "p_ss p = Some ss" "\<not> p_locked p" "mset (child_list ss) = mset (p_kids p) + t_reaped t"
    and "mset (p_heap p) = in_between t + H" "uint (malloc_count ss) = int (size H) - t_drift t"
  shows "sys_inv p t"
  using assms by (simp add: sys_inv_def count_of_def held_blocks_def)

lemma malloc_block_good:
  assumes "sys_inv p t"
  shows "good_outcome (s \<noteq> 0 \<and> res = None) (after_malloc s res t) (no_result (malloc_block True s res p))"
proof -
  obtain ss where ss: "p_ss p = Some ss" "\<not> p_locked p" "mset (child_list ss) = mset (p_kids p) + t_reaped t"
    "uint (malloc_count ss) = count_of p t" "mset (p_heap p) = in_between t + held_blocks p t" using assms by (rule sys_invE)
  have "sys_inv (p\<lparr>p_heap := a # p_heap p\<rparr>) (t\<lparr>t_fresh := add_mset a (t_fresh t)\<rparr>)" for a
    by (rule sys_invI [where ss = ss and H = "held_blocks p t"]) (use ss in \<open>simp_all add: count_of_def\<close>)
  with ss assms show ?thesis
    by (cases res) (simp_all add: malloc_block_def after_malloc_def log_fatal_ok)
qed

lemma count_good:
  assumes "sys_inv p t" "a \<in># t_fresh t"
  shows "good_outcome (count_of p t = 2 ^ 64 - 1) (t\<lparr>t_fresh := t_fresh t - {#a#}\<rparr>) (sys_inc_malloc_count_p True p)"
proof -
  obtain ss where ss: "p_ss p = Some ss" "\<not> p_locked p" "mset (child_list ss) = mset (p_kids p) + t_reaped t"
    "uint (malloc_count ss) = count_of p t" "mset (p_heap p) = in_between t + held_blocks p t" using assms(1) by (rule sys_invE)
  let ?t = "t\<lparr>t_fresh := t_fresh t - {#a#}\<rparr>"
  show ?thesis
  proof (cases "malloc_count ss = - 1")
    case True
    then show ?thesis using ss max_count [of "malloc_count ss"] by (simp add: sys_inc_ok)
  next
    case False
    have "in_between t = add_mset a (in_between ?t)" using assms(2) by (simp add: in_between_member)
    then have "sys_inv (p\<lparr>p_locked := False, p_ss := Some (ss\<lparr>malloc_count := malloc_count ss + 1\<rparr>)\<rparr>) ?t"
      by (intro sys_invI [where H = "add_mset a (held_blocks p t)"])
        (simp, use ss inc_count [OF False] in \<open>simp_all add: count_of_def del: in_between_fresh\<close>)
    with False ss max_count [of "malloc_count ss"] show ?thesis by (simp add: sys_inc_ok)
  qed
qed

lemma uncount_good:
  assumes "sys_inv p t" "case mem of None \<Rightarrow> True | Some a \<Rightarrow> a \<in># held_blocks p t"
  shows "good_outcome (mem \<noteq> None \<and> count_of p t = 0) (after_uncount mem t) (uncount_block True mem p)"
proof (cases mem)
  case (Some a)
  obtain ss where ss: "p_ss p = Some ss" "\<not> p_locked p" "mset (child_list ss) = mset (p_kids p) + t_reaped t"
    "uint (malloc_count ss) = count_of p t" "mset (p_heap p) = in_between t + held_blocks p t" using assms(1) by (rule sys_invE)
  obtain H where H: "held_blocks p t = add_mset a H" using Some assms(2) by (auto dest: multi_member_split)
  show ?thesis
  proof (cases "malloc_count ss = 0")
    case True
    then show ?thesis using ss Some by (simp add: sys_dec_ok uncount_block_def)
  next
    case False
    have "sys_inv (p\<lparr>p_locked := False, p_ss := Some (ss\<lparr>malloc_count := malloc_count ss - 1\<rparr>)\<rparr>)
        (t\<lparr>t_freeing := add_mset a (t_freeing t)\<rparr>)"
      by (rule sys_invI [where H = H]) (simp, use ss H dec_count [OF False] in \<open>simp_all add: count_of_def\<close>)
    moreover have "count_of p t \<noteq> 0" using False ss(4) by (simp add: uint_0_iff flip: ss(4))
    ultimately show ?thesis using False ss Some by (simp add: sys_dec_ok uncount_block_def after_uncount_def)
  qed
qed (use assms in \<open>simp add: uncount_block_def after_uncount_def\<close>)

lemma release_good:
  assumes "sys_inv p t" "a \<in># t_freeing t"
  shows "good_outcome False (t\<lparr>t_freeing := t_freeing t - {#a#}\<rparr>) (c_free a p)"
proof -
  obtain ss where ss: "p_ss p = Some ss" "\<not> p_locked p" "mset (child_list ss) = mset (p_kids p) + t_reaped t"
    "uint (malloc_count ss) = count_of p t" "mset (p_heap p) = in_between t + held_blocks p t" using assms(1) by (rule sys_invE)
  let ?t = "t\<lparr>t_freeing := t_freeing t - {#a#}\<rparr>"
  have i: "in_between t = add_mset a (in_between ?t)" using assms(2) by (simp add: in_between_member)
  then have "a \<in># mset (p_heap p)" using ss(5) by simp
  then have "a \<in> set (p_heap p)" by simp
  moreover have "sys_inv (p\<lparr>p_heap := remove1 a (p_heap p)\<rparr>) ?t"
    by (rule sys_invI [where ss = ss and H = "held_blocks p t"])
      (use ss i in \<open>simp_all add: count_of_def del: in_between_fresh\<close>)
  ultimately show ?thesis by (simp add: c_free_def)
qed

lemma realloc_good:
  assumes "sys_inv p t" "case mem of None \<Rightarrow> True | Some a \<Rightarrow> a \<in># held_blocks p t"
  shows "good_outcome (if s = 0 then mem \<noteq> None \<and> count_of p t = 0 else res = None)
    (if s = 0 then after_uncount mem t else if mem = None then after_malloc s res t else t) (exec_realloc mem s res p)"
proof (cases "s = 0 \<or> mem = None")
  case True
  with uncount_good [OF assms] malloc_block_good [OF assms(1), of s res] show ?thesis
    by (auto simp: exec_realloc_def)
next
  case False
  then obtain a where a: "mem = Some a" "s \<noteq> 0" by auto
  obtain ss where ss: "p_ss p = Some ss" "\<not> p_locked p" "mset (child_list ss) = mset (p_kids p) + t_reaped t"
    "uint (malloc_count ss) = count_of p t" "mset (p_heap p) = in_between t + held_blocks p t" using assms(1) by (rule sys_invE)
  obtain H where H: "held_blocks p t = add_mset a H" using a assms(2) by (auto dest: multi_member_split)
  then have "a \<in># mset (p_heap p)" using ss(5) by simp
  then have mem: "a \<in> set (p_heap p)" by simp
  have "sys_inv (p\<lparr>p_heap := b # remove1 a (p_heap p)\<rparr>) t" for b
    by (rule sys_invI [where ss = ss and H = "add_mset b H"]) (use ss H in \<open>simp_all add: count_of_def\<close>)
  then show ?thesis using a mem ss
    by (cases res) (simp_all add: exec_realloc_def safe_realloc_p_def log_fatal_ok)
qed

lemma fork_good:
  assumes "sys_inv p t"
  shows "good_outcome (ends_process (CFork pid ok create_res) p t) (threads_after (CFork pid ok create_res) p t)
    (no_result (safe_fork pid ok create_res p))"
proof -
  obtain ss where ss: "p_ss p = Some ss" "\<not> p_locked p" "mset (child_list ss) = mset (p_kids p) + t_reaped t"
    "uint (malloc_count ss) = count_of p t" "mset (p_heap p) = in_between t + held_blocks p t" using assms by (rule sys_invE)
  consider "pid < 0" | "pid = 0" | "pid > 0" by linarith
  then show ?thesis
  proof cases
    case 1
    then show ?thesis using ss by (simp add: safe_fork_def sys_lock_p_def fork_effect_def log_fatal_ok)
  next
    case 2
    let ?p = "p\<lparr>p_kids := [], p_killed := [], p_ss := Some (ss\<lparr>child_list := []\<rparr>), p_locked := False\<rparr>"
    let ?t = "t\<lparr>t_reaped := {#}, t_fresh := {#}, t_freeing := {#}, t_lost := in_between t\<rparr>"
    have "sys_inv ?p ?t"
      by (rule sys_invI [where H = "held_blocks p t"]) (simp, use ss in \<open>simp_all add: count_of_def in_between_def\<close>)
    then show ?thesis using 2 ss
      by (simp add: safe_fork_def sys_lock_p_def fork_effect_def prepare_from_child_def update_ss_def sys_unlock_p_def
          spawn_sig_thread_p_def log_fatal_ok)
  next
    case 3
    let ?p = "p\<lparr>p_kids := pid # p_kids p, p_ss := Some (ss\<lparr>child_list := pid # child_list ss\<rparr>), p_locked := False\<rparr>"
    have "sys_inv ?p t"
      by (rule sys_invI [where H = "held_blocks p t"]) (simp, use ss in \<open>simp_all add: count_of_def\<close>)
    then show ?thesis using 3 ss
      by (simp add: safe_fork_def sys_lock_p_def fork_effect_def kill_int_def waitpid_reap_def log_fatal_ok update_ss_def
          sys_unlock_p_def)
  qed
qed

text \<open>Steps that leave blocks and children alone.\<close>

lemma sys_inv_flags:
  assumes "sys_inv p t" "p_ss p = Some ss" "p_ss p' = Some ss'" "\<not> p_locked p'" "p_kids p' = p_kids p" "p_heap p' = p_heap p"
    and "child_list ss' = child_list ss" "malloc_count ss' = malloc_count ss"
  shows "sys_inv p' t"
  using assms by (simp add: sys_inv_def count_of_def held_blocks_def)

lemma call_good:
  assumes "sys_inv p t" "sys_call_allowed c p t"
  shows "good_outcome (ends_process c p t) (threads_after c p t) (exec_call c p)"
proof -
  obtain ss where ss: "p_ss p = Some ss" "\<not> p_locked p" "mset (child_list ss) = mset (p_kids p) + t_reaped t"
    "uint (malloc_count ss) = count_of p t" "mset (p_heap p) = in_between t + held_blocks p t" using assms(1) by (rule sys_invE)
  note same = sys_inv_flags [OF assms(1) ss(1)]
  show ?thesis
  proof (cases c)
    case (CMalloc s res)
    then show ?thesis using malloc_block_good [OF assms(1)] by simp
  next
    case (CCount a)
    then show ?thesis using count_good [OF assms(1)] assms(2) by simp
  next
    case (CFree mem)
    then show ?thesis using uncount_good [OF assms(1)] assms(2) by simp
  next
    case (CRelease a)
    then show ?thesis using release_good [OF assms(1)] assms(2) by simp
  next
    case (CRealloc mem s res)
    then show ?thesis using realloc_good [OF assms(1)] assms(2) by simp
  next
    case (CFork pid ok create_res)
    then show ?thesis using fork_good [OF assms(1)] by simp
  next
    case (CReap pid)
    have "sys_inv (p\<lparr>p_kids := remove1 pid (p_kids p)\<rparr>) (t\<lparr>t_reaped := add_mset pid (t_reaped t)\<rparr>)"
      by (rule sys_invI [where ss = ss and H = "held_blocks p t"]) (use ss assms(2) CReap in \<open>simp_all add: count_of_def\<close>)
    then show ?thesis using CReap by (simp add: waitpid_reap_def)
  next
    case (CAfterWait pid)
    show ?thesis
    proof (cases "pid > 0")
      case True
      with CAfterWait assms(2) have pid: "pid \<in># t_reaped t" by simp
      then have "pid \<in># mset (child_list ss)" using ss(3) by simp
      then have "pid \<in> set (child_list ss)" by simp
      moreover have "sys_inv (p\<lparr>p_ss := Some (ss\<lparr>child_list := remove1 pid (child_list ss)\<rparr>), p_locked := False\<rparr>)
          (t\<lparr>t_reaped := t_reaped t - {#pid#}\<rparr>)"
        by (rule sys_invI [where H = "held_blocks p t"]) (simp, use ss pid in \<open>simp_all add: count_of_def\<close>)
      ultimately show ?thesis using True CAfterWait ss
        by (simp add: after_waitpid_def sys_lock_p_def get_ss_def unlink_child_ok update_ss_def sys_unlock_p_def)
    next
      case False
      then show ?thesis using CAfterWait ss assms(1) by (auto simp: after_waitpid_def log_fatal_ok)
    qed
  next
    case CResetCount
    have "sys_inv (p\<lparr>p_ss := Some (ss\<lparr>malloc_count := 0\<rparr>), p_locked := False\<rparr>) (t\<lparr>t_drift := int (size (held_blocks p t))\<rparr>)"
      by (rule sys_invI [where H = "held_blocks p t"]) (simp, use ss in simp_all)
    then show ?thesis using CResetCount ss by (simp add: sys_reset_malloc_count_p_def sys_lock_p_def update_ss_def sys_unlock_p_def)
  next
    case CIncCount
    have "sys_inv (p\<lparr>p_locked := False, p_ss := Some (ss\<lparr>malloc_count := malloc_count ss + 1\<rparr>)\<rparr>) (t\<lparr>t_drift := t_drift t - 1\<rparr>)"
      if "malloc_count ss \<noteq> - 1"
      by (rule sys_invI [where H = "held_blocks p t"]) (simp, use ss inc_count [OF that] in \<open>simp_all add: count_of_def\<close>)
    then show ?thesis using CIncCount ss max_count [of "malloc_count ss"] by (simp add: sys_inc_ok)
  next
    case CDecCount
    have "sys_inv (p\<lparr>p_locked := False, p_ss := Some (ss\<lparr>malloc_count := malloc_count ss - 1\<rparr>)\<rparr>) (t\<lparr>t_drift := t_drift t + 1\<rparr>)"
      if "malloc_count ss \<noteq> 0"
      by (rule sys_invI [where H = "held_blocks p t"]) (simp, use ss dec_count [OF that] in \<open>simp_all add: count_of_def\<close>)
    moreover have "malloc_count ss = 0 \<longleftrightarrow> count_of p t = 0" by (simp add: uint_0_iff flip: ss(4))
    ultimately show ?thesis using CDecCount ss by (simp add: sys_dec_ok)
  next
    case (CInit mutex_res malloc_ok mask_res create_res)
    then show ?thesis using ss by (simp add: sys_init_def log_fatal_ok)
  next
    case (CLog level fmt args)
    show ?thesis
    proof (cases "level = SYS_FATAL")
      case True
      then show ?thesis using CLog ss log_fatal_ok [of p ss True fmt args]
        by (simp add: log_any_p_def sys_lock_p_def sys_is_quiet_p_def sys_unlock_p_def get_ss_def
            print_log_def safe_exit_ok)
    next
      case False
      then show ?thesis using CLog ss by (simp add: log_any_p_def sys_call_defs same)
    qed
  next
    case (CExit status)
    then show ?thesis using ss by (simp add: safe_exit_ok)
  qed (use ss in \<open>simp_all add: sys_set_quiet_p_def sys_set_sig_exit_def sys_sig_exit_routine_def sys_call_defs
    sig_request_def sys_sig_exit_requested_def sys_get_malloc_count_p_def same\<close>)
qed

section \<open>The calls are their steps\<close>

lemma safe_waitpid_steps:
  "0 < pid \<Longrightarrow> no_result (safe_waitpid pid p) =
     andthen (exec_call (CReap pid) p) (\<lambda>_. exec_call (CAfterWait pid))"
  by (simp add: safe_waitpid_def waitpid_reap_def)

lemma exec_second [simp]: "exec_call (CRelease a) = c_free a" "exec_call (CCount a) = sys_inc_malloc_count_p True"
  by (simp_all add: fun_eq_iff)

lemma no_result_andthen [simp]:
  "no_result (andthen x (\<lambda>_ p. Ret r p)) = x" for x :: "(unit, 'p) outcome"
  by (cases x) simp_all

lemma safe_malloc_steps:
  fixes p :: "('f, 'a) process"
  shows "no_result (safe_malloc_p True s res p) =
     (case res of Some a \<Rightarrow> if s = 0 then exec_call (CMalloc s res) p
        else andthen (exec_call (CMalloc s res) p) (\<lambda>_. exec_call (CCount a))
      | None \<Rightarrow> exec_call (CMalloc s res) p)"
proof -
  have "andthen (log_fatal_p True ''Failed to malloc'' [] p) k = log_fatal_p True ''Failed to malloc'' [] p"
    for k :: "nat option \<Rightarrow> (nat option, 'f, 'a) call"
    by (simp add: log_fatal_p_def andthen_def split: outcome.split)
  then show ?thesis by (cases res) (simp_all add: safe_malloc_p_def malloc_block_def)
qed

lemma safe_free_steps:
  "safe_free_p True mem p =
     (case mem of Some a \<Rightarrow> andthen (exec_call (CFree mem) p) (\<lambda>_. exec_call (CRelease a))
      | None \<Rightarrow> exec_call (CFree mem) p)"
  by (cases mem) (simp_all add: safe_free_p_def uncount_block_def)

lemma safe_realloc_steps:
  "no_result (safe_realloc_p True mem s res p) =
     (case mem of
        Some a \<Rightarrow> if s = 0 then andthen (exec_call (CRealloc mem s res) p) (\<lambda>_. exec_call (CRelease a))
          else exec_call (CRealloc mem s res) p
      | None \<Rightarrow> if s \<noteq> 0 \<and> res \<noteq> None
          then andthen (exec_call (CRealloc mem s res) p) (\<lambda>_. exec_call (CCount (the res)))
          else exec_call (CRealloc mem s res) p)"
  using safe_malloc_steps [of s res p]
  by (cases mem; cases res) (simp_all add: safe_realloc_p_def exec_realloc_def safe_free_p_def uncount_block_def)

section \<open>Reachable states\<close>

text \<open>A process starts with \<open>sys_init\<close>; a forked child goes on from the state \<open>safe_fork\<close> leaves it.\<close>

definition no_threads :: sys_threads where
  "no_threads = \<lparr>t_reaped = {#}, t_fresh = {#}, t_freeing = {#}, t_lost = {#}, t_drift = 0\<rparr>"

inductive sys_reachable :: "('f, 'a) process \<Rightarrow> sys_threads \<Rightarrow> bool" where
  start: "p_ss p = None \<Longrightarrow> \<not> p_locked p \<Longrightarrow> p_kids p = [] \<Longrightarrow> p_heap p = [] \<Longrightarrow>
    sys_init mutex_res malloc_ok mask_res create_res p = Ret () p' \<Longrightarrow> sys_reachable p' no_threads"
| call: "sys_reachable p t \<Longrightarrow> sys_call_allowed c p t \<Longrightarrow> exec_call c p = Ret () p' \<Longrightarrow>
    sys_reachable p' (threads_after c p t)"

lemma sys_init_good:
  assumes "p_ss p = None" "\<not> p_locked p" "p_kids p = []" "p_heap p = []"
    and "sys_init mutex_res malloc_ok mask_res create_res p = Ret () p'"
  shows "sys_inv p' no_threads"
  using assms
  by (auto simp: sys_init_def Let_def spawn_sig_thread_p_def log_fatal_ok sys_inv_def no_threads_def in_between_def
      count_of_def held_blocks_def split: if_splits)

lemma sys_reachable_inv: "sys_reachable p t \<Longrightarrow> sys_inv p t"
proof (induction rule: sys_reachable.induct)
  case (call p t c p')
  then show ?case using call_good [of p t c] by simp
qed (rule sys_init_good)

text \<open>C36. In every process, whatever steps its threads have made since \<open>sys_init\<close> in whatever order, a
  call never deadlocks and never touches a missing state.  It returns, except on purpose, when the
  operating system refuses memory, a process or a thread, or when the counter would leave its range.  As
  long as the process runs the list of children holds exactly those not yet reaped and those whose
  thread is about to unlink them, so a reaped child is always found, and the counter is the number of
  blocks that callers hold, less what a reset or counting by hand has moved it (\<open>t_drift\<close>: the number
  of blocks held at the last reset, 0 without one).  When the process ends no child is left
  unreaped.\<close>

theorem sys_calls_safe:
  assumes "sys_reachable p t" "sys_call_allowed c p t"
  shows "case exec_call c p of
      Ret _ p' \<Rightarrow> \<not> ends_process c p t \<and> \<not> p_locked p' \<and>
        (case p_ss p' of None \<Rightarrow> False
         | Some ss \<Rightarrow> mset (child_list ss) = mset (p_kids p') + t_reaped (threads_after c p t) \<and>
             uint (malloc_count ss) = int (size (held_blocks p' (threads_after c p t))) - t_drift (threads_after c p t))
    | Exit _ p' \<Rightarrow> ends_process c p t \<and> p_kids p' = []
    | Stuck \<Rightarrow> False"
  using call_good [OF sys_reachable_inv [OF assms(1)] assms(2)]
  by (auto simp: good_outcome_def sys_inv_def count_of_def split: outcome.splits option.splits)

text \<open>Without a reset and counting by hand a call never ends the process because of an underflow.\<close>

lemma no_underflow:
  assumes "sys_inv p t" "t_drift t = 0" "a \<in># held_blocks p t"
  shows "\<not> ends_process (CFree (Some a)) p t"
  using assms by (auto simp: count_of_def)

definition idle_process :: "(nat, nat) process" where
  "idle_process = \<lparr>p_ss = None, p_locked = False, p_output = [], p_kids = [], p_killed = [], p_heap = []\<rparr>"

definition example_process :: "int list \<Rightarrow> int list \<Rightarrow> nat list \<Rightarrow> u64 \<Rightarrow> (nat, nat) process" where
  "example_process kids children heap n =
     \<lparr>p_ss = Some \<lparr>quiet = False, signal_exit_flag = True, signal_exit_requested = False, signal_exit_routine_arg = None,
        signal_exit_routine = None, malloc_count = n, child_list = children\<rparr>,
      p_locked = False, p_output = [], p_kids = kids, p_killed = [], p_heap = heap\<rparr>"

lemma example_start: "sys_reachable (example_process [] [] [] 0) no_threads"
  by (rule sys_reachable.start [of idle_process 0 True 0 0])
    (simp_all add: idle_process_def example_process_def sys_init_def spawn_sig_thread_p_def)

definition example_threads :: sys_threads where
  "example_threads = no_threads\<lparr>t_reaped := {#7#}, t_drift := 1\<rparr>"

text \<open>
  A process that has forked twice, has reset its counter while it held one of its two blocks, and whose
  child 7 is reaped but still listed.
\<close>

lemma example_reachable: "sys_reachable (example_process [8] [8, 7] [41, 40] 1) example_threads"
proof -
  note fork = safe_fork_def sys_lock_p_def fork_effect_def update_ss_def sys_unlock_p_def
  have 1: "sys_reachable (example_process [7] [7] [] 0) no_threads"
    using sys_reachable.call [OF example_start, of "CFork 7 True 0" "example_process [7] [7] [] 0"]
    by (simp add: example_process_def fork)
  have 2: "sys_reachable (example_process [8, 7] [8, 7] [] 0) no_threads"
    using sys_reachable.call [OF 1, of "CFork 8 True 0" "example_process [8, 7] [8, 7] [] 0"]
    by (simp add: example_process_def fork)
  have 3: "sys_reachable (example_process [8, 7] [8, 7] [40] 0) (no_threads\<lparr>t_fresh := {#40#}\<rparr>)"
    using sys_reachable.call [OF 2, of "CMalloc 16 (Some 40)" "example_process [8, 7] [8, 7] [40] 0"]
    by (simp add: example_process_def malloc_block_def after_malloc_def no_threads_def)
  have 4: "sys_reachable (example_process [8, 7] [8, 7] [40] 1) no_threads"
    using sys_reachable.call [OF 3, of "CCount 40" "example_process [8, 7] [8, 7] [40] 1"]
    by (simp add: example_process_def sys_inc_ok no_threads_def)
  have 5: "sys_reachable (example_process [8, 7] [8, 7] [40] 0) (no_threads\<lparr>t_drift := 1\<rparr>)"
    using sys_reachable.call [OF 4, of CResetCount "example_process [8, 7] [8, 7] [40] 0"]
    by (simp add: example_process_def sys_reset_malloc_count_p_def fork no_threads_def held_blocks_def in_between_def)
  have 6: "sys_reachable (example_process [8, 7] [8, 7] [41, 40] 0) (no_threads\<lparr>t_fresh := {#41#}, t_drift := 1\<rparr>)"
    using sys_reachable.call [OF 5, of "CMalloc 16 (Some 41)" "example_process [8, 7] [8, 7] [41, 40] 0"]
    by (simp add: example_process_def malloc_block_def after_malloc_def no_threads_def)
  have 7: "sys_reachable (example_process [8, 7] [8, 7] [41, 40] 1) (no_threads\<lparr>t_drift := 1\<rparr>)"
    using sys_reachable.call [OF 6, of "CCount 41" "example_process [8, 7] [8, 7] [41, 40] 1"]
    by (simp add: example_process_def sys_inc_ok no_threads_def)
  show ?thesis
    using sys_reachable.call [OF 7, of "CReap 7" "example_process [8] [8, 7] [41, 40] 1"]
    by (simp add: example_process_def example_threads_def waitpid_reap_def no_threads_def)
qed

text \<open>The counter says 1 although two blocks are held; freeing one leaves it at 0.\<close>

lemma sys_calls_safe_witness:
  "(\<exists>p'. exec_call (CAfterWait 7) (example_process [8] [8, 7] [41, 40] 1) = Ret () p' \<and> p_kids p' = [8] \<and>
      map_option child_list (p_ss p') = Some [8]) \<and>
   (\<exists>p'. exec_call (CFree (Some 40)) (example_process [8] [8, 7] [41, 40] 1) = Ret () p' \<and>
      map_option malloc_count (p_ss p') = Some 0)"
  using sys_calls_safe [OF example_reachable, of "CAfterWait 7"]
    sys_calls_safe [OF example_reachable, of "CFree (Some 40)"]
  by (simp add: example_process_def after_waitpid_def sys_lock_p_def get_ss_def update_ss_def sys_unlock_p_def
      uncount_block_def sys_dec_ok)



text \<open>The signal thread ends the process like an exit with status 0, or leaves it running when the flag is off.\<close>

lemma sig_thread_good:
  assumes "sys_inv p t" "p_ss p = Some ss" "signal_exit_routine ss = None"
  shows "good_outcome (signal_exit_flag ss) t (sig_thread 0 run p)"
proof -
  have p: "\<not> p_locked p" "mset (child_list ss) = mset (p_kids p) + t_reaped t"
    using assms(1,2) by (simp_all add: sys_inv_def)
  note same = sys_inv_flags [OF assms(1,2)]
  show ?thesis
  proof (cases "signal_exit_flag ss")
    case True
    then show ?thesis using p assms(2,3) by (simp add: sig_thread_def sig_request_def sys_call_defs safe_exit_ok)
  next
    case False
    then show ?thesis using p assms(2,3) by (simp add: sig_thread_def sig_request_def sys_call_defs same)
  qed
qed

text \<open>With the lock held, as a caller that passes \<open>false\<close> has it, shrinking a block to nothing deadlocks.\<close>

lemma realloc_zero_deadlocks:
  "p_locked p \<Longrightarrow> safe_realloc_p False (Some a) 0 res p = Stuck"
  by (simp add: safe_realloc_p_def safe_free_p_def uncount_block_def sys_dec_malloc_count_p_def sys_lock_p_def)

end
