(* ===== verification/Spec2Isabelle.thy ===== *)
theory Spec2Isabelle
  imports Chutil_Queue Chutil_List Chutil_Heap Chutil_String Chrpc_Construct
    Chrpc_Channel Chrpc_Channel_Fd Chrpc_Client Chat_Worker Chat_Main Chutil_Utf8 Chjson_Roundtrip
    Chrpc_Serial_Helpers Chrpc_Channel_Helpers Chsys_Sys Chsys_Sock
begin

text \<open>
  A model of the C libraries \<open>chsys\<close> (the process), \<open>chutil\<close> (containers, strings, streams), \<open>chjson\<close>
  (JSON) and \<open>chrpc\<close> (remote procedure calls), and of the chatroom built on them, server and client, with
  the theorems that make them correct.

  \<^bold>\<open>The program.\<close>  \<open>chsys\<close> keeps, under one lock, the count of allocated blocks and the children of a
  process, and ends it in an orderly way.  \<open>chutil\<close> offers a queue, lists behind a table of functions, a heap, a hash map,
  reference-counted strings, and character streams over strings and files.  \<open>chjson\<close> has JSON values made
  of these containers, a printer to output streams and a parser from input streams.  \<open>chrpc\<close>
  serializes typed values into byte buffers, prints them as text, moves byte messages over channels (a table of functions again: in-process queues, two-way pipes, file
  descriptors), and builds on both a server, whose workers poll channels, decode requests, look up an
  endpoint in a hash map, call it and send back a response, and a client, which encodes a
  request, sends it and polls its channel for the response.  The chatroom registers endpoints that keep
  mailboxes for the clients that are logged in; its client edits a command line in one thread and exchanges
  messages with the server in another.

  \<^bold>\<open>Conventions.\<close>  Machine integers have their C width as words; \<open>size_t\<close> values that count
  cells or bytes of existing blocks are \<open>nat\<close>.  A function with undefined behaviour on some input (a read
  outside a block, of an uninitialised cell or through NULL) returns \<open>None\<close> there, so a result
  \<open>Some\<close> is also a statement of safety.  An error status is a value.  A block of size zero is NULL,
  as \<open>safe_malloc(0)\<close> returns it.  Where the code allocates, the model counts the blocks: live blocks
  minus freed blocks.  Locking is modelled for the lock of \<open>chsys\<close> only; every other theory says which
  steps are atomic because of its lock.

  \<^bold>\<open>Theories.\<close>

  \<^item> \<open>Ch_Prelude\<close>: words, C blocks with uninitialised cells, C strings, \<open>named_theorems\<close>.
  \<^item> \<open>Chsys_Sys\<close> (\<open>sys.c\<close>, \<open>mem.c\<close>, \<open>log.c\<close>, \<open>wrappers.c\<close>): the state of a process, its calls as functions
    to an outcome (a result, the end of the process, or stuck), and the calls of several threads as a
    reachability relation.  \<open>Chsys_Sock\<close> (\<open>sock.c\<close>): making sockets over a table of descriptors.
  \<^item> \<open>Chutil_Queue\<close> (\<open>queue.c\<close>): \<open>q_push\<close> and \<open>q_poll\<close> on the cyclic table.  The locale \<open>fifo\<close>
    there states what the channels and the server rely on; it is interpreted by the queue.
  \<^item> \<open>Chutil_Array_List\<close>, \<open>Chutil_Linked_List\<close>, \<open>Chutil_List\<close> (\<open>list.c\<close>, \<open>list_helpers.c\<close>): the two
    implementations, the second over an explicit store of nodes, and the abstract list over both.
  \<^item> \<open>Chutil_Heap\<close> (\<open>heap.c\<close>): bubbling up and down as the loops of the code, with the hole they move.
  \<^item> \<open>Chutil_Map\<close>, \<open>Chutil_String\<close> (\<open>map.c\<close>, \<open>string.c\<close>): the hash map over the hash and equality functions it
    is given, as a locale; copy-on-write strings in a store; string-keyed maps.
  \<^item> \<open>Chutil_Stream\<close>, \<open>Chutil_Utf8\<close> (\<open>stream.c\<close>, \<open>utf8.c\<close>): streams behind tables of functions; the
    locale \<open>in_stream\<close> is what a reader relies on, interpreted by string and file streams.
  \<^item> \<open>Chjson_Number\<close>, \<open>Chjson_Integer\<close>: what \<open>chjson\<close> uses of \<open>strtod\<close> and \<open>printf\<close>, and its laws on integers.
    \<open>Chjson_Json\<close>, \<open>Chjson_Laws\<close> (\<open>json.c\<close>, \<open>json_helpers.c\<close>): values, lookup, the printer, and when two
    values are the same.  \<open>Chjson_Equals\<close>: \<open>json_equals\<close> on pointers to values, whose lists and objects
    have one iterator each, and when it decides that two values are the same.
    \<open>Chjson_Parser\<close>, \<open>Chjson_Parse_Laws\<close>, \<open>Chjson_Roundtrip\<close> (\<open>parser.c\<close>): the parser, that it ends, that it
    does not depend on the kind of stream, and that it reads back what was printed.
  \<^item> \<open>Chrpc_Type\<close>, \<open>Chrpc_Value\<close>, \<open>Chrpc_Construct\<close> (\<open>serial_type.c\<close>, \<open>serial_value.c\<close>): types and
    values, their wire format, comparison, deletion and constructors.  \<open>Chrpc_Serial_Helpers\<close>
    (\<open>serial_helpers.c\<close>): their text, written to any output stream.
  \<^item> \<open>Chrpc_Channel\<close> (\<open>channel.c\<close>, \<open>channel_local.c\<close>, \<open>channel_local2.c\<close>), \<open>Chrpc_Channel_Fd\<close>
    (\<open>channel_fd.c\<close>): the channels; the locale \<open>channel_rx\<close> is what a receiver relies on, with an
    interpretation for each channel.  \<open>Chrpc_Channel_Helpers\<close> (\<open>channel_helpers.c\<close>): the echo thread.
  \<^item> \<open>Chrpc_Endpoint\<close>, \<open>Chrpc_Server\<close>, \<open>Chrpc_Worker\<close> (\<open>rpc_server.c\<close>): endpoint sets, one request, and the
    workers as an interleaved step relation.
  \<^item> \<open>Chrpc_Client\<close> (\<open>rpc_client.c\<close>): the client, and client and server together.
  \<^item> \<open>Chat_Room\<close>, \<open>Chat_Server\<close> (\<open>examples/chatroom/chatroom.c\<close>, \<open>server.c\<close>): the chatroom's maps, mailboxes
    and name strings, refined to a list of sessions; its endpoints behind a client and a server.
  \<^item> \<open>Chat_Client\<close>, \<open>Chat_Worker\<close> (\<open>examples/chatroom/client.c\<close>): the client's line editor, compared with an
    editor on lists of characters; its worker thread, whose turns are steps on lists of messages and the
    server's sessions, and logging in.
  \<^item> \<open>Chat_Main\<close> (\<open>server.c\<close>, \<open>client.c\<close>): starting the chat server, accepting connections and shutting down,
    over every reachable state of its workers, by the locale \<open>state_contract\<close> of \<open>Chrpc_Worker\<close>; connecting a client.

  \<^bold>\<open>What is shown.\<close>  Containers refine their abstract counterparts on every sequence of operations.
  Types and values survive the round trip through bytes; on arbitrary bytes the readers accept only
  what the writers produce, stay inside the buffer and leak nothing.  Channels deliver what was sent, in
  order, and the file-descriptor channel does so however the stream is cut into pieces.  A server
  handles each message as a specification without memory says, never loses or duplicates a
  channel under any interleaving of its workers, and stops when told to.  A remote call is a local call,
  and a chat request made over a channel does to the chatroom what it does to a list of sessions; so does a
  turn of the chat client's worker, for its mailboxes as well.  Shutting the chat server down leaves nothing
  behind, whatever its clients did, unless an endpoint had undefined behaviour.  The
  block counter and the list of children of a process are exact in every reachable state, no call of
  \<open>chsys\<close> deadlocks, and a process that ends leaves no child behind.
  Code points survive UTF-8, and JSON values the round trip through text; the JSON parser ends on every
  input.  The theorems on code that does not do what it means to (\<open>ll_get\<close>, \<open>s_substring\<close>, strings without
  terminators, a wait that never ends, escaped quotation marks, repeated keys, large floating-point numbers in text,
  a line that ends after a deletion, a chat server that is full) state what it does instead.

  \<^bold>\<open>Fuel and bounds.\<close>  Loops are recursive functions with a measure, except these: \<open>poll_all\<close> is
  run with one unit more than the queue is long; \<open>process_chunk\<close> of the file-descriptor channel with
  \<open>2 * n + 2\<close> units for a chunk of \<open>n\<close> bytes, which is proved enough; \<open>poll_response\<close> of
  the client may run forever and is a \<open>partial_function\<close>, with a theorem for each case; the JSON parser
  recurses on nested values with one unit more than the input has characters, which is proved
  enough, and its loops over characters are partial functions that are proved to end; the loops of the
  chatroom over its maps are partial functions that are proved to end on every state the operations
  make; the echo thread runs until its \<open>should_stop\<close> field is set, and its theorem says that it then returns.

  \<^bold>\<open>Parameters.\<close>  What the kernel does is an input: the results of \<open>read\<close> and \<open>write\<close> are lists in the
  state of the file-descriptor channel, \<open>pthread_mutex_init\<close> and \<open>fcntl\<close> succeed or fail as a flag says,
  the time is an argument, and so are the results of \<open>fork\<close>, \<open>waitpid\<close>, \<open>malloc\<close> and the socket calls in
  \<open>chsys\<close>.  One call of \<open>read\<close> or \<open>write\<close> moves at most \<open>MAX_RW_COUNT\<close> bytes, as Linux says, so that its result
  fits in an \<open>int\<close>.  \<open>malloc\<close> and \<open>free\<close> run outside the lock of \<open>chsys\<close>: each is two steps of a
  thread, between which the others run.  Endpoints are functions on the user's state; the signal thread's exit routine is a function on the
  process.

  \<^bold>\<open>Not modelled.\<close>  Of the chatroom client's \<open>main\<close> the terminal settings and the start of the
  worker thread are left out.  Outside \<open>chsys\<close>, thread creation, locking and log output are left out, and so
  is running out of memory, which ends the process.  Test programs and unit tests are not part of the model.
\<close>

end
